(* ===== verification/NS_Prelude.thy ===== *)
theory NS_Prelude
  imports Main "HOL-Library.Word" "HOL-Library.Sublist"
begin

text \<open>
  Shared material of the development: names for the machine types the sources use,
  the byte-level view of integers (little-endian host memory, big-endian network order)
  and the list, option and word lemmas the component theories share.

  \<^item> \<open>u8\<close>, \<open>u16\<close>, \<open>u32\<close>, \<open>u64\<close> are \<open>uint8_t\<close> to \<open>uint64_t\<close>; \<open>byte\<close> is the
    unit of packet data and \<open>bytes\<close> a byte string;
  \<^item> \<open>le_nat\<close>/\<open>nat_le\<close> relate a number to the bytes an x86-64 host stores for it
    (lowest byte first), \<open>be_nat\<close>/\<open>nat_be\<close> to its network-order bytes;
  \<^item> the collection \<open>ns_bytes\<close> holds the length and round-trip facts of these codecs.
\<close>

unbundle bit_operations_syntax

type_synonym u8 = "8 word"
type_synonym u16 = "16 word"
type_synonym u32 = "32 word"
type_synonym u64 = "64 word"
type_synonym byte = "8 word"
type_synonym bytes = "byte list"

named_theorems ns_bytes \<open>lengths and round trips of the byte codecs\<close>

section \<open>Numbers as byte strings\<close>

fun le_nat :: "bytes \<Rightarrow> nat" where
  "le_nat [] = 0"
| "le_nat (b # bs) = unat b + 256 * le_nat bs"

fun nat_le :: "nat \<Rightarrow> nat \<Rightarrow> bytes" where
  "nat_le 0 v = []"
| "nat_le (Suc n) v = of_nat v # nat_le n (v div 256)"

definition be_nat :: "bytes \<Rightarrow> nat" where
  "be_nat bs = le_nat (rev bs)"

definition nat_be :: "nat \<Rightarrow> nat \<Rightarrow> bytes" where
  "nat_be n v = rev (nat_le n v)"

lemma length_nat_le [ns_bytes, simp]: "length (nat_le n v) = n"
  by (induction n arbitrary: v) auto

lemma length_nat_be [ns_bytes, simp]: "length (nat_be n v) = n"
  by (simp add: nat_be_def)

lemma le_nat_bound: "le_nat bs < 256 ^ length bs"
proof (induction bs)
  case (Cons b bs)
  have b: "unat b < 256"
    using unsigned_less [of b] by simp
  have "unat b + 256 * le_nat bs < 256 + 256 * le_nat bs"
    using b by simp
  also have "\<dots> \<le> 256 * 256 ^ length bs"
    using Cons.IH by (simp flip: mult_Suc_right)
  finally show ?case by simp
qed simp

lemma be_nat_bound: "be_nat bs < 256 ^ length bs"
  using le_nat_bound [of "rev bs"] by (simp add: be_nat_def)

lemma le_nat_nat_le [ns_bytes]: "le_nat (nat_le n v) = v mod 256 ^ n"
proof (induction n arbitrary: v)
  case (Suc n)
  then show ?case
    by (simp add: unat_of_nat mod_mult2_eq)
qed simp

lemma be_nat_nat_be [ns_bytes]: "be_nat (nat_be n v) = v mod 256 ^ n"
  by (simp add: be_nat_def nat_be_def le_nat_nat_le)

lemma nat_le_le_nat [ns_bytes]: "nat_le (length bs) (le_nat bs) = bs"
proof (induction bs)
  case (Cons b bs)
  have b: "unat b < 256"
    using unsigned_less [of b] by simp
  have "(256 :: byte) = 0"
    by simp
  then have "of_nat (unat b + 256 * le_nat bs) = (b :: byte)"
    by (simp only: of_nat_add of_nat_mult of_nat_numeral mult_zero_left add_0_right
        of_nat_unat ucast_id)
  with b Cons show ?case by simp
qed simp

lemma nat_be_be_nat [ns_bytes]: "nat_be (length bs) (be_nat bs) = bs"
  using nat_le_le_nat [of "rev bs"] by (simp add: be_nat_def nat_be_def)

lemma le_nat_append: "le_nat (xs @ ys) = le_nat xs + 256 ^ length xs * le_nat ys"
  by (induction xs) (auto simp: algebra_simps)

lemma be_nat_append: "be_nat (xs @ ys) = be_nat xs * 256 ^ length ys + be_nat ys"
  by (simp add: be_nat_def le_nat_append)

lemma be_nat_simps [simp]:
  "be_nat [] = 0"
  "be_nat (b # bs) = unat b * 256 ^ length bs + be_nat bs"
  by (simp_all add: be_nat_def le_nat_append)

section \<open>Lists and options\<close>

lemma take_append_take_drop: "take m xs @ take n (drop m xs) = take (m + n) xs"
  by (simp add: take_add)

lemma subseq_filter_append:
  "subseq xs ys \<Longrightarrow> subseq (xs @ zs) (ys @ zs)"
  by (rule list_emb_append_mono) auto

lemma distinct_map_fst_delete:
  "distinct (map fst xs) \<Longrightarrow> distinct (map fst (filter P xs))"
  by (induction xs) auto

lemma map_of_filter_neq:
  "map_of (filter (\<lambda>kv. fst kv \<noteq> k) xs) = (map_of xs)(k := None)"
  by (induction xs) (auto simp: fun_eq_iff)

section \<open>Words\<close>

lemma unat_less_iff_nat: "(a :: 'a::len word) < b \<longleftrightarrow> unat a < unat b"
  by (rule word_less_nat_alt)

lemma unat_add_no_wrap:
  "unat (a :: 'a::len word) + unat b < 2 ^ LENGTH('a) \<Longrightarrow> unat (a + b) = unat a + unat b"
  by (simp add: unat_add_lem)

lemma unat_sub_le:
  "(b :: 'a::len word) \<le> a \<Longrightarrow> unat (a - b) = unat a - unat b"
  by (rule unat_sub)

lemma unat_add_of_nat_no_wrap:
  "unat (a :: 'a::len word) + n < 2 ^ LENGTH('a) \<Longrightarrow> unat (a + of_nat n) = unat a + n"
  by (simp add: unat_word_ariths unat_of_nat mod_add_right_eq)

lemma unat_exp:
  assumes "k < LENGTH('a)"
  shows "unat (2 ^ k :: 'a::len word) = 2 ^ k"
proof -
  have "(2 ^ k :: 'a word) = of_nat (2 ^ k)"
    by simp
  then show ?thesis
    using assms by (simp only: unat_of_nat) simp
qed

lemma unat_exp_minus_1:
  assumes "k < LENGTH('a)"
  shows "unat (2 ^ k - 1 :: 'a::len word) = 2 ^ k - 1"
proof -
  have "(2 ^ k :: 'a word) \<noteq> 0"
    using unat_exp [OF assms] by (metis power_not_zero unsigned_0 zero_neq_numeral)
  then show ?thesis
    using unat_exp [OF assms] by (simp add: unat_minus_one)
qed

end
