(* ===== verification/Bit_Ops.thy ===== *)
theory Bit_Ops
  imports NS_Prelude
begin

text \<open>
  The bit-twiddling helpers: \<open>core/bitops.hh\<close> (\<open>count_leading_zeros\<close>, \<open>log2ceil\<close>,
  \<open>log2floor\<close>), \<open>core/align.hh\<close> (\<open>align_up\<close>, \<open>align_down\<close>) and
  \<open>netstar/mica/roundup.hh\<close> (\<open>is_power_of_two\<close>, \<open>roundup\<close>, \<open>next_power_of_two\<close>).
  \<open>__builtin_clz\<close> is undefined for 0, so the leading-zero count and what is computed from
  it are options: \<open>None\<close> is the undefined call. The 64-bit overloads are modelled, the
  ones \<open>size_t\<close> arguments select. The lemmas tie each helper to arithmetic on \<open>nat\<close>.
\<close>

section \<open>core/bitops.hh\<close>

fun clz_below :: "u64 \<Rightarrow> nat \<Rightarrow> nat" where
  "clz_below x 0 = 0"
| "clz_below x (Suc i) = (if bit x i then 0 else Suc (clz_below x i))"

definition count_leading_zeros :: "u64 \<Rightarrow> nat option" where
  "count_leading_zeros x = (if x = 0 then None else Some (clz_below x 64))"

definition log2ceil :: "u64 \<Rightarrow> nat option" where
  "log2ceil n = map_option (\<lambda>c. 64 - c) (count_leading_zeros (n - 1))"

definition log2floor :: "u64 \<Rightarrow> nat option" where
  "log2floor n = map_option (\<lambda>c. 64 - c - 1) (count_leading_zeros n)"

section \<open>core/align.hh\<close>

definition align_up :: "'a::len word \<Rightarrow> 'a word \<Rightarrow> 'a word" where
  "align_up v align = (v + align - 1) AND NOT (align - 1)"

definition align_down :: "'a::len word \<Rightarrow> 'a word \<Rightarrow> 'a word" where
  "align_down v align = v AND NOT (align - 1)"

section \<open>netstar/mica/roundup.hh\<close>

definition is_power_of_two :: "'a::len word \<Rightarrow> bool" where
  "is_power_of_two x \<longleftrightarrow> x \<noteq> 0 \<and> x AND (x - 1) = 0"

definition roundup :: "'a::len word \<Rightarrow> 'a word \<Rightarrow> 'a word" where
  "roundup p x = (x + (p - 1)) AND NOT (p - 1)"

text \<open>
  \<open>next_power_of_two_recursive\<close> shifts \<open>T(1)\<close> left by a growing amount; a shift by the
  width or more is undefined in C++, so the recursion carries that case as \<open>None\<close>.
\<close>

function next_power_of_two_recursive :: "u64 \<Rightarrow> nat \<Rightarrow> u64 option" where
  "next_power_of_two_recursive x s =
     (if s \<ge> 64 then None
      else if push_bit s 1 < x then next_power_of_two_recursive x (s + 1)
      else Some (push_bit s 1))"
  by pat_completeness auto
termination
  by (relation "measure (\<lambda>(x, s). 64 - s)") auto

declare next_power_of_two_recursive.simps [simp del]

definition next_power_of_two :: "u64 \<Rightarrow> u64 option" where
  "next_power_of_two x = next_power_of_two_recursive x 0"

section \<open>Masks as remainders\<close>

lemma and_mask_mod: "unat (x AND (2 ^ k - 1 :: 'a::len word)) = unat x mod 2 ^ k"
proof -
  have "x AND (2 ^ k - 1) = take_bit k x"
    by (simp add: take_bit_eq_mask mask_eq_exp_minus_1)
  then show ?thesis
    by (simp only: unsigned_take_bit_eq take_bit_eq_mod [of k "unat x"])
qed

lemma and_not_mask: "x AND NOT (2 ^ k - 1 :: 'a::len word) = x - (x AND (2 ^ k - 1))"
proof -
  let ?m = "2 ^ k - 1 :: 'a word"
  have "x - (x AND ?m) = x AND NOT (x AND ?m)"
    by (rule disjunctive_diff_eq_and_not) (auto simp: bit_eq_iff bit_simps)
  also have "\<dots> = x AND NOT ?m"
    by (auto simp: bit_eq_iff bit_simps)
  finally show ?thesis by simp
qed

lemma unat_and_not_mask: "unat (x AND NOT (2 ^ k - 1 :: 'a::len word)) = unat x - unat x mod 2 ^ k"
proof -
  have "x AND (2 ^ k - 1) \<le> x"
    by (rule word_and_le2)
  then show ?thesis
    by (simp add: and_not_mask unat_sub and_mask_mod)
qed

section \<open>Leading zeros and logarithms\<close>

lemma unat_less_exp_iff_bits:
  "unat (x :: 'a::len word) < 2 ^ n \<longleftrightarrow> (\<forall>j\<ge>n. \<not> bit x j)"
proof
  assume "unat x < 2 ^ n"
  then have "take_bit n (unat x) = unat x"
    by (simp add: take_bit_eq_mod)
  then have "take_bit n x = x"
    by (metis unsigned_take_bit_eq unsigned_word_eqI)
  then show "\<forall>j\<ge>n. \<not> bit x j"
    by (metis bit_take_bit_iff leD)
next
  assume "\<forall>j\<ge>n. \<not> bit x j"
  then have "take_bit n x = x"
    by (auto simp: bit_eq_iff bit_simps not_le)
  then have "unat x = take_bit n (unat x)"
    by (metis unsigned_take_bit_eq)
  then show "unat x < 2 ^ n"
    by (metis take_bit_nat_less_exp)
qed

lemma bit_imp_exp_le: "bit (x :: 'a::len word) n \<Longrightarrow> 2 ^ n \<le> unat x"
  using unat_less_exp_iff_bits [of x n] by (meson le_refl not_less)

lemma clz_below_spec:
  "unat x < 2 ^ n \<Longrightarrow> x \<noteq> 0 \<Longrightarrow>
   clz_below x n < n \<and> 2 ^ (n - 1 - clz_below x n) \<le> unat x \<and> unat x < 2 ^ (n - clz_below x n)"
proof (induction n)
  case 0
  then show ?case by (simp add: unat_eq_zero)
next
  case (Suc i)
  show ?case
  proof (cases "bit x i")
    case True
    with Suc.prems show ?thesis by (simp add: bit_imp_exp_le)
  next
    case False
    with Suc.prems have "unat x < 2 ^ i"
      by (metis le_antisym not_less_eq_eq unat_less_exp_iff_bits)
    with Suc.IH Suc.prems False show ?thesis by auto
  qed
qed

lemma log2ceil_Some:
  assumes "1 < n"
  obtains k where "log2ceil n = Some k" "0 < k" "k \<le> 64" "2 ^ (k - 1) < unat n" "unat n \<le> 2 ^ k"
proof -
  let ?c = "clz_below (n - 1) 64"
  from assms have n0: "n - 1 \<noteq> 0" and n1: "n \<noteq> 0"
    by auto
  then have un: "unat (n - 1) = unat n - 1"
    by (simp add: unat_minus_one)
  have "unat (n - 1) < 2 ^ 64"
    using unsigned_less [of "n - 1"] by simp
  note spec = clz_below_spec [OF this n0]
  have "1 < unat n"
    using assms by (simp add: word_less_nat_alt)
  with spec un have "2 ^ (64 - ?c - 1) < unat n" "unat n \<le> 2 ^ (64 - ?c)"
    by (auto simp: Suc_le_eq diff_diff_add add.commute)
  moreover have "log2ceil n = Some (64 - ?c)"
    using n0 by (simp add: log2ceil_def count_leading_zeros_def)
  ultimately show thesis
    using spec that [of "64 - ?c"] by simp
qed

lemma log2ceil_undefined: "log2ceil 1 = None"
  by (simp add: log2ceil_def count_leading_zeros_def)

section \<open>Rounding\<close>

lemma unat_roundup:
  assumes "unat x + (2 ^ k - 1) < 2 ^ LENGTH('a)" "k < LENGTH('a)"
  shows "unat (roundup (2 ^ k) (x :: 'a::len word)) = 2 ^ k * ((unat x + (2 ^ k - 1)) div 2 ^ k)"
proof -
  have e: "unat (2 ^ k - 1 :: 'a word) = 2 ^ k - 1"
    using assms(2) by (rule unat_exp_minus_1)
  have "unat (x + (2 ^ k - 1)) = unat x + (2 ^ k - 1)"
    using assms(1) e by (simp add: unat_add_no_wrap)
  then show ?thesis
    by (simp add: roundup_def unat_and_not_mask minus_mod_eq_mult_div)
qed

lemma unat_roundup_8:
  assumes "unat (x :: u64) + 7 < 2 ^ 64"
  shows "unat (roundup 8 x) = 8 * ((unat x + 7) div 8)"
  using unat_roundup [of x 3] assms by simp

lemma roundup_8_bounds:
  assumes "unat (x :: u64) + 7 < 2 ^ 64"
  shows "unat x \<le> unat (roundup 8 x)" "unat (roundup 8 x) < unat x + 8" "8 dvd unat (roundup 8 x)"
  using unat_roundup_8 [OF assms] by auto

end
