(* ===== verification/Circular_Buffer.thy ===== *)
theory Circular_Buffer
  imports Bit_Ops
begin

text \<open>
  \<open>core/circular_buffer.hh\<close>: the growable ring of \<open>seastar::circular_buffer\<close>, the queue
  under the async-flow packet buffers, the port send queues and the mica request streams.
  \<open>begin\<close> and \<open>end\<close> are \<open>size_t\<close> counters that only ever move by one and wrap at
  \<open>2^64\<close>; \<open>mask\<close> maps them into a storage whose capacity is a power of two. A storage
  slot is \<open>None\<close> while it is raw memory or its object has been destroyed.

  \<open>cb_list\<close> is the queue's contents, \<open>cb_inv\<close> the representation invariant. Every
  operation is shown to keep the invariant and to act on the contents as the list
  operation of its name; the locale \<open>deque\<close> collects these laws as the interface the
  clients rely on, and the ring interprets it.
\<close>

section \<open>State and operations\<close>

record 'a cbuf =
  cb_storage :: "'a option list"
  cb_begin :: u64
  cb_end :: u64
  cb_capacity :: u64

definition cb_init :: "'a cbuf" where
  "cb_init = \<lparr>cb_storage = [], cb_begin = 0, cb_end = 0, cb_capacity = 0\<rparr>"

definition cb_mask :: "'a cbuf \<Rightarrow> u64 \<Rightarrow> u64" where
  "cb_mask b idx = idx AND (cb_capacity b - 1)"

definition cb_read :: "'a option list \<Rightarrow> u64 \<Rightarrow> 'a option" where
  "cb_read s p = (if unat p < length s then s ! unat p else None)"

definition cb_slot :: "'a cbuf \<Rightarrow> u64 \<Rightarrow> 'a option" where
  "cb_slot b idx = cb_read (cb_storage b) (cb_mask b idx)"

definition cb_empty :: "'a cbuf \<Rightarrow> bool" where
  "cb_empty b \<longleftrightarrow> cb_begin b = cb_end b"

definition cb_size :: "'a cbuf \<Rightarrow> u64" where
  "cb_size b = cb_end b - cb_begin b"

function cb_for_each_from :: "'a option list \<Rightarrow> u64 \<Rightarrow> u64 \<Rightarrow> u64 \<Rightarrow> 'a option list" where
  "cb_for_each_from s m i e =
     (if i = e then [] else cb_read s (i AND m) # cb_for_each_from s m (i + 1) e)"
  by pat_completeness auto
termination
proof (relation "measure (\<lambda>(s, m, i, e). unat (e - i))")
  fix s :: "'a option list" and m i e :: u64
  assume "i \<noteq> e"
  then have "e - i \<noteq> 0" by simp
  then have "unat (e - i - 1) < unat (e - i)"
    by (simp add: unat_minus_one unat_gt_0)
  then show "((s, m, i + 1, e), (s, m, i, e)) \<in> measure (\<lambda>(s, m, i, e). unat (e - i))"
    by (simp add: algebra_simps)
qed simp

declare cb_for_each_from.simps [simp del]

definition cb_for_each :: "'a cbuf \<Rightarrow> 'a option list" where
  "cb_for_each b = cb_for_each_from (cb_storage b) (cb_capacity b - 1) (cb_begin b) (cb_end b)"

definition cb_expand_to :: "u64 \<Rightarrow> 'a cbuf \<Rightarrow> 'a cbuf" where
  "cb_expand_to new_cap b =
     (let objs = cb_for_each b in
      \<lparr>cb_storage = objs @ replicate (unat new_cap - length objs) None,
       cb_begin = 0, cb_end = of_nat (length objs), cb_capacity = new_cap\<rparr>)"

definition cb_expand :: "'a cbuf \<Rightarrow> 'a cbuf" where
  "cb_expand b = cb_expand_to (max (cb_capacity b * 2) 1) b"

definition cb_maybe_expand :: "u64 \<Rightarrow> 'a cbuf \<Rightarrow> 'a cbuf" where
  "cb_maybe_expand nr b =
     (if cb_end b - cb_begin b + nr > cb_capacity b then cb_expand b else b)"

definition cb_reserve :: "u64 \<Rightarrow> 'a cbuf \<Rightarrow> 'a cbuf option" where
  "cb_reserve sz b =
     (if cb_capacity b < sz
      then (case log2ceil sz of
              None \<Rightarrow> None
            | Some k \<Rightarrow> if k \<ge> 64 then None else Some (cb_expand_to (push_bit k 1) b))
      else Some b)"

definition cb_put :: "u64 \<Rightarrow> 'a option \<Rightarrow> 'a cbuf \<Rightarrow> 'a cbuf" where
  "cb_put idx v b = b\<lparr>cb_storage := (cb_storage b)[unat (cb_mask b idx) := v]\<rparr>"

definition cb_push_back :: "'a \<Rightarrow> 'a cbuf \<Rightarrow> 'a cbuf" where
  "cb_push_back x b =
     (let b1 = cb_maybe_expand 1 b; b2 = cb_put (cb_end b1) (Some x) b1
      in b2\<lparr>cb_end := cb_end b2 + 1\<rparr>)"

definition cb_push_front :: "'a \<Rightarrow> 'a cbuf \<Rightarrow> 'a cbuf" where
  "cb_push_front x b =
     (let b1 = cb_maybe_expand 1 b; b2 = cb_put (cb_begin b1 - 1) (Some x) b1
      in b2\<lparr>cb_begin := cb_begin b2 - 1\<rparr>)"

definition cb_front :: "'a cbuf \<Rightarrow> 'a option" where
  "cb_front b = cb_slot b (cb_begin b)"

definition cb_back :: "'a cbuf \<Rightarrow> 'a option" where
  "cb_back b = cb_slot b (cb_end b - 1)"

definition cb_pop_front :: "'a cbuf \<Rightarrow> 'a cbuf" where
  "cb_pop_front b =
     (let b1 = cb_put (cb_begin b) None b in b1\<lparr>cb_begin := cb_begin b1 + 1\<rparr>)"

definition cb_pop_back :: "'a cbuf \<Rightarrow> 'a cbuf" where
  "cb_pop_back b =
     (let b1 = cb_put (cb_end b - 1) None b in b1\<lparr>cb_end := cb_end b1 - 1\<rparr>)"

definition cb_index :: "'a cbuf \<Rightarrow> u64 \<Rightarrow> 'a option" where
  "cb_index b i = cb_slot b (cb_begin b + i)"

section \<open>Invariant and abstraction\<close>

definition cb_inv :: "'a cbuf \<Rightarrow> bool" where
  "cb_inv b \<longleftrightarrow>
     length (cb_storage b) = unat (cb_capacity b) \<and>
     (cb_capacity b = 0 \<or> (\<exists>k<64. cb_capacity b = 2 ^ k)) \<and>
     unat (cb_size b) \<le> unat (cb_capacity b) \<and>
     (\<forall>k<unat (cb_size b). cb_slot b (cb_begin b + of_nat k) \<noteq> None)"

definition cb_list :: "'a cbuf \<Rightarrow> 'a list" where
  "cb_list b = map (\<lambda>k. the (cb_slot b (cb_begin b + of_nat k))) [0..<unat (cb_size b)]"

lemma length_cb_list [simp]: "length (cb_list b) = unat (cb_size b)"
  by (simp add: cb_list_def)

lemma cb_init_inv [simp]: "cb_inv cb_init" and cb_init_list [simp]: "cb_list cb_init = []"
  by (simp_all add: cb_inv_def cb_init_def cb_size_def cb_list_def)

lemma cb_empty_iff: "cb_empty b \<longleftrightarrow> cb_list b = []"
proof -
  have "cb_list b = [] \<longleftrightarrow> unat (cb_end b - cb_begin b) = 0"
    by (simp add: cb_list_def cb_size_def)
  also have "\<dots> \<longleftrightarrow> cb_begin b = cb_end b"
    by (auto simp: unat_eq_zero)
  finally show ?thesis by (simp add: cb_empty_def)
qed

lemma cb_mask_pos:
  assumes "cb_capacity b = 2 ^ k" "k < 64"
  shows "unat (cb_mask b (i + of_nat j)) = (unat i + j) mod unat (cb_capacity b)"
proof -
  have c: "unat (cb_capacity b) = 2 ^ k"
    using assms unat_exp [of k, where ?'a = 64] by simp
  have d: "(2::nat) ^ k dvd 2 ^ 64"
    by (rule le_imp_power_dvd) (use assms(2) in simp)
  have "unat (i + of_nat j) mod 2 ^ k = ((unat i + j) mod 2 ^ 64) mod 2 ^ k"
    by (simp add: unat_word_ariths unat_of_nat mod_add_right_eq)
  also have "\<dots> = (unat i + j) mod 2 ^ k"
    using d by (simp add: mod_mod_cancel)
  finally show ?thesis
    unfolding c by (simp add: cb_mask_def assms(1) and_mask_mod)
qed

lemma mod_add_inj:
  assumes "(a + i) mod c = (a + j) mod (c::nat)" "i < c" "j < c"
  shows "i = j"
proof -
  have le: "x = y" if "x \<le> y" "y < c" "(a + x) mod c = (a + y) mod c" for x y
  proof -
    from that have "c dvd (a + y) - (a + x)"
      by (metis add_left_mono mod_eq_dvd_iff_nat)
    then have "c dvd y - x" by simp
    with that show ?thesis
      by (metis diff_is_0_eq dual_order.antisym dvd_imp_le le_less_trans less_imp_diff_less
          nat_neq_iff not_less zero_less_diff)
  qed
  show ?thesis
    using assms le [of i j] le [of j i] by (cases "i \<le> j") auto
qed

lemma cb_slot_put:
  assumes "cb_capacity b = 2 ^ k" "k < 64" "length (cb_storage b) = unat (cb_capacity b)"
    and "i < unat (cb_capacity b)" "j < unat (cb_capacity b)"
  shows "cb_slot (cb_put (x + of_nat i) v b) (x + of_nat j) =
         (if i = j then v else cb_slot b (x + of_nat j))"
proof -
  let ?c = "unat (cb_capacity b)"
  have c0: "0 < ?c" using assms(4) by simp
  have pi: "unat (cb_mask b (x + of_nat i)) = (unat x + i) mod ?c"
    and pj: "unat (cb_mask b (x + of_nat j)) = (unat x + j) mod ?c"
    using cb_mask_pos [OF assms(1,2)] by simp_all
  have "cb_mask (cb_put (x + of_nat i) v b) = cb_mask b"
    by (simp add: cb_put_def cb_mask_def fun_eq_iff)
  then show ?thesis
    using mod_add_inj [of "unat x" i ?c j] assms(3-) c0
    by (auto simp: cb_slot_def cb_read_def pj pi cb_put_def nth_list_update)
qed

lemma cb_for_each_from_eq:
  "cb_for_each_from s m i e = map (\<lambda>k. cb_read s ((i + of_nat k) AND m)) [0..<unat (e - i)]"
proof (induction s m i e rule: cb_for_each_from.induct)
  case (1 s m i e)
  show ?case
  proof (cases "i = e")
    case True
    then show ?thesis by (simp add: cb_for_each_from.simps)
  next
    case False
    then have "e - i \<noteq> 0" by simp
    then have n: "unat (e - i) = Suc (unat (e - (i + 1)))"
      by (simp add: unat_minus_one unat_gt_0 diff_diff_add [symmetric])
    have "cb_for_each_from s m i e = cb_read s (i AND m) # cb_for_each_from s m (i + 1) e"
      using False by (simp add: cb_for_each_from.simps [of s m i e])
    also have "\<dots> = map (\<lambda>k. cb_read s ((i + of_nat k) AND m)) [0..<unat (e - i)]"
      unfolding n upt_conv_Cons [OF zero_less_Suc] map_Suc_upt [symmetric]
      using 1 [OF False] by (simp add: algebra_simps)
    finally show ?thesis .
  qed
qed

lemma cb_for_each_eq:
  assumes "cb_inv b"
  shows "cb_for_each b = map Some (cb_list b)"
  using assms
  by (auto simp: cb_for_each_def cb_for_each_from_eq cb_list_def cb_inv_def cb_slot_def
      cb_mask_def cb_size_def)

section \<open>Each operation against the list\<close>

lemma cb_expand_to_spec:
  assumes inv: "cb_inv b" and k: "new_cap = 2 ^ k" "k < 64"
    and room: "length (cb_list b) \<le> unat new_cap"
  shows "cb_inv (cb_expand_to new_cap b)" "cb_list (cb_expand_to new_cap b) = cb_list b"
    "cb_capacity (cb_expand_to new_cap b) = new_cap"
proof -
  let ?b = "cb_expand_to new_cap b" and ?n = "length (cb_list b)"
  have "?n < 2 ^ 64"
    using unsigned_less [of "cb_size b"] by simp
  then have size: "unat (cb_size ?b) = ?n"
    using cb_for_each_eq [OF inv]
    by (simp add: cb_expand_to_def cb_size_def Let_def unat_of_nat del: length_cb_list)
  have cap: "cb_capacity ?b = 2 ^ k" "unat (cb_capacity ?b) = unat new_cap"
    using k by (simp_all add: cb_expand_to_def Let_def)
  have st: "cb_storage ?b = map Some (cb_list b) @ replicate (unat new_cap - ?n) None"
    using cb_for_each_eq [OF inv] by (simp add: cb_expand_to_def Let_def)
  have slot: "cb_slot ?b (cb_begin ?b + of_nat j) = Some (cb_list b ! j)" if "j < ?n" for j
  proof -
    have "unat (cb_mask ?b (cb_begin ?b + of_nat j)) = j"
      using cb_mask_pos [OF cap(1) k(2), of "cb_begin ?b" j] that room cap(2)
      by (simp add: cb_expand_to_def Let_def)
    with that st show ?thesis
      by (simp add: cb_slot_def cb_read_def nth_append del: length_cb_list)
  qed
  show "cb_inv ?b"
    using st room k slot size cap by (auto simp: cb_inv_def)
  show "cb_list ?b = cb_list b"
    by (rule nth_equalityI) (use size slot in \<open>auto simp: cb_list_def [of ?b]\<close>)
  show "cb_capacity ?b = new_cap"
    by (simp add: cb_expand_to_def Let_def)
qed

lemma cb_reserve_spec:
  assumes inv: "cb_inv b" and "1 < sz" "sz \<le> 2 ^ 63"
  obtains b' where "cb_reserve sz b = Some b'" "cb_inv b'" "cb_list b' = cb_list b"
    "sz \<le> cb_capacity b'"
proof (cases "cb_capacity b < sz")
  case False
  then show thesis
    using that [of b] inv by (simp add: cb_reserve_def)
next
  case True
  obtain k where k: "log2ceil sz = Some k" "0 < k" "2 ^ (k - 1) < unat sz" "unat sz \<le> 2 ^ k"
    using log2ceil_Some [OF \<open>1 < sz\<close>] by metis
  have "unat sz \<le> 2 ^ 63"
    using \<open>sz \<le> 2 ^ 63\<close> unat_exp [of 63, where ?'a = 64] by (simp add: word_le_nat_alt)
  with k(3) have "(2::nat) ^ (k - 1) < 2 ^ 63" by linarith
  then have k64: "k < 64"
    using k(2) power_less_imp_less_exp [of "2::nat" "k - 1" 63] by linarith
  have cap: "push_bit k 1 = (2 ^ k :: u64)"
    by (simp add: push_bit_eq_mult)
  have "unat (2 ^ k :: u64) = 2 ^ k"
    using k64 unat_exp [of k, where ?'a = 64] by simp
  then have room: "length (cb_list b) \<le> unat (2 ^ k :: u64)" and ge: "sz \<le> 2 ^ k"
    using inv True k(4) by (auto simp: cb_inv_def word_less_nat_alt word_le_nat_alt)
  note ex = cb_expand_to_spec [OF inv refl k64 room]
  show thesis
    using that [of "cb_expand_to (2 ^ k) b"] True k k64 cap ex ge by (simp add: cb_reserve_def)
qed

lemma cb_maybe_expand_spec:
  assumes inv: "cb_inv b" and room: "length (cb_list b) < 2 ^ 63"
  obtains k where "cb_inv (cb_maybe_expand 1 b)" "cb_list (cb_maybe_expand 1 b) = cb_list b"
    "cb_capacity (cb_maybe_expand 1 b) = 2 ^ k" "k < 64"
    "unat (cb_size b) < unat (cb_capacity (cb_maybe_expand 1 b))"
proof -
  let ?n = "unat (cb_size b)"
  have n1: "unat (cb_size b + 1) = ?n + 1"
    using room unat_add_no_wrap [of "cb_size b" 1] by simp
  show thesis
  proof (cases "cb_size b + 1 > cb_capacity b")
    case False
    then have "?n < unat (cb_capacity b)" and "cb_maybe_expand 1 b = b"
      using n1 by (auto simp: word_less_nat_alt not_less cb_maybe_expand_def cb_size_def)
    moreover from this obtain k where "cb_capacity b = 2 ^ k" "k < 64"
      using inv by (auto simp: cb_inv_def)
    ultimately show thesis
      using that [of k] inv by simp
  next
    case True
    have eq: "?n = unat (cb_capacity b)"
      using True inv n1 by (simp add: cb_inv_def word_less_nat_alt)
    obtain k where k: "max (cb_capacity b * 2) 1 = 2 ^ k" "k < 64" "?n < unat (2 ^ k :: u64)"
    proof (cases "cb_capacity b = 0")
      case True
      then show thesis using that [of 0] eq by (simp add: max_def)
    next
      case False
      then obtain j where j: "cb_capacity b = 2 ^ j" "j < 64"
        using inv by (auto simp: cb_inv_def)
      have "unat (2 ^ j :: u64) = 2 ^ j"
        using j(2) unat_exp [of j, where ?'a = 64] by simp
      then have "(2::nat) ^ j < 2 ^ 63"
        using eq j room by simp
      then have j63: "Suc j < 64"
        using power_less_imp_less_exp [of "2::nat" j 63] by simp
      then have u: "unat (2 ^ Suc j :: u64) = 2 ^ Suc j"
        using unat_exp [of "Suc j", where ?'a = 64] by simp
      have "cb_capacity b * 2 = 2 ^ Suc j"
        using j by simp
      moreover have "1 \<le> (2 ^ Suc j :: u64)"
        using u by (simp add: word_le_nat_alt)
      ultimately have "max (cb_capacity b * 2) 1 = 2 ^ Suc j"
        by (metis max.absorb1)
      then show thesis
        using that [of "Suc j"] j63 u eq j \<open>unat (2 ^ j :: u64) = 2 ^ j\<close> by simp
    qed
    have room: "length (cb_list b) \<le> unat (max (cb_capacity b * 2) 1)"
      using k by simp
    have "cb_maybe_expand 1 b = cb_expand_to (max (cb_capacity b * 2) 1) b"
      using True by (simp add: cb_maybe_expand_def cb_size_def cb_expand_def)
    then show thesis
      using that [of k] cb_expand_to_spec [OF inv k(1,2) room] k by simp
  qed
qed

lemma cb_list_nth: "j < unat (cb_size b) \<Longrightarrow> cb_list b ! j = the (cb_slot b (cb_begin b + of_nat j))"
  by (simp add: cb_list_def)

lemma cb_slot_list:
  "cb_inv b \<Longrightarrow> j < unat (cb_size b) \<Longrightarrow> cb_slot b (cb_begin b + of_nat j) = Some (cb_list b ! j)"
  by (auto simp: cb_list_nth cb_inv_def)

lemma cb_invI:
  assumes "length (cb_storage b) = unat (cb_capacity b)" "cb_capacity b = 2 ^ k" "k < 64"
    and "length xs = unat (cb_size b)" "length xs \<le> unat (cb_capacity b)"
    and "\<And>j. j < length xs \<Longrightarrow> cb_slot b (cb_begin b + of_nat j) = Some (xs ! j)"
  shows "cb_inv b \<and> cb_list b = xs"
  using assms by (auto simp: cb_inv_def cb_list_nth intro!: nth_equalityI)

lemma cb_slot_cong [simp]:
  "cb_slot (b\<lparr>cb_begin := x\<rparr>) = cb_slot b" "cb_slot (b\<lparr>cb_end := x\<rparr>) = cb_slot b"
  "cb_begin (cb_put i v b) = cb_begin b" "cb_end (cb_put i v b) = cb_end b"
  "cb_capacity (cb_put i v b) = cb_capacity b"
  "length (cb_storage (cb_put i v b)) = length (cb_storage b)"
  by (simp_all add: cb_slot_def cb_mask_def cb_put_def fun_eq_iff)

lemma cb_end_eq: "cb_end b = cb_begin b + of_nat (unat (cb_size b))"
  by (simp add: cb_size_def)

lemma cb_push_back_spec:
  assumes "cb_inv b" "length (cb_list b) < 2 ^ 63"
  shows "cb_inv (cb_push_back x b) \<and> cb_list (cb_push_back x b) = cb_list b @ [x]"
proof -
  let ?b = "cb_maybe_expand 1 b"
  obtain k where b: "cb_inv ?b" "cb_list ?b = cb_list b" "cb_capacity ?b = 2 ^ k" "k < 64"
      and room: "unat (cb_size b) < unat (cb_capacity ?b)"
    using cb_maybe_expand_spec [OF assms] .
  have n: "unat (cb_size ?b) = length (cb_list b)"
    using b(2) by (metis length_cb_list)
  have st: "length (cb_storage ?b) = unat (cb_capacity ?b)"
    using b(1) by (simp add: cb_inv_def)
  let ?b' = "(cb_put (cb_end ?b) (Some x) ?b)\<lparr>cb_end := cb_end ?b + 1\<rparr>"
  have "cb_size ?b' = cb_size ?b + 1"
    by (simp add: cb_size_def diff_add_eq)
  moreover have "unat (cb_size ?b) + unat (1 :: u64) < 2 ^ 64"
    using assms(2) n by simp
  ultimately have size: "unat (cb_size ?b') = unat (cb_size ?b) + 1"
    using unat_add_no_wrap [of "cb_size ?b" 1] by simp
  have slot: "cb_slot ?b' (cb_begin ?b + of_nat j) = Some ((cb_list b @ [x]) ! j)"
    if "j < length (cb_list b @ [x])" for j
  proof -
    have "cb_slot (cb_put (cb_begin ?b + of_nat (unat (cb_size ?b))) (Some x) ?b)
          (cb_begin ?b + of_nat j) =
        (if unat (cb_size ?b) = j then Some x else cb_slot ?b (cb_begin ?b + of_nat j))"
      by (rule cb_slot_put [OF b(3,4) st]) (use that room n in simp_all)
    then have "cb_slot ?b' (cb_begin ?b + of_nat j) =
        (if unat (cb_size ?b) = j then Some x else cb_slot ?b (cb_begin ?b + of_nat j))"
      by (simp only: cb_slot_cong cb_end_eq [symmetric])
    with that show ?thesis
      using cb_slot_list [OF b(1), of j] b(2) n by (auto simp: nth_append)
  qed
  have "cb_inv ?b' \<and> cb_list ?b' = cb_list b @ [x]"
    by (rule cb_invI [where k = k]) (use b st size n room slot in auto)
  then show ?thesis by (simp add: cb_push_back_def Let_def)
qed

lemma cb_pop_front_spec:
  assumes inv: "cb_inv b" and ne: "cb_list b \<noteq> []"
  shows "cb_inv (cb_pop_front b) \<and> cb_list (cb_pop_front b) = tl (cb_list b)
    \<and> cb_front b = Some (hd (cb_list b))"
proof -
  let ?n = "unat (cb_size b)"
  have n0: "0 < ?n" using ne by (metis length_cb_list length_greater_0_conv)
  then have "cb_capacity b \<noteq> 0"
    using inv by (auto simp: cb_inv_def)
  then obtain k where k: "cb_capacity b = 2 ^ k" "k < 64"
    using inv by (auto simp: cb_inv_def)
  have st: "length (cb_storage b) = unat (cb_capacity b)" and cap: "?n \<le> unat (cb_capacity b)"
    using inv by (auto simp: cb_inv_def)
  let ?b' = "(cb_put (cb_begin b) None b)\<lparr>cb_begin := cb_begin b + 1\<rparr>"
  have "cb_size b \<noteq> 0" using n0 by auto
  then have size: "unat (cb_size ?b') = ?n - 1"
    by (simp add: cb_size_def unat_minus_one diff_diff_add [symmetric])
  have slot: "cb_slot ?b' (cb_begin ?b' + of_nat j) = Some (tl (cb_list b) ! j)"
    if "j < length (tl (cb_list b))" for j
  proof -
    have "cb_slot ?b' (cb_begin b + of_nat (Suc j)) = cb_slot b (cb_begin b + of_nat (Suc j))"
      using cb_slot_put [OF k st, of 0 "Suc j" "cb_begin b" None] that n0 cap by simp
    with that show ?thesis
      using cb_slot_list [OF inv, of "Suc j"] by (simp add: nth_tl algebra_simps)
  qed
  have "cb_inv ?b' \<and> cb_list ?b' = tl (cb_list b)"
    by (rule cb_invI [where k = k]) (use k st size cap slot in auto)
  moreover have "cb_front b = Some (hd (cb_list b))"
    using cb_slot_list [OF inv, of 0] n0 ne by (simp add: cb_front_def hd_conv_nth)
  ultimately show ?thesis by (simp add: cb_pop_front_def Let_def)
qed

lemma cb_push_front_spec:
  assumes "cb_inv b" "length (cb_list b) < 2 ^ 63"
  shows "cb_inv (cb_push_front x b) \<and> cb_list (cb_push_front x b) = x # cb_list b"
proof -
  let ?b = "cb_maybe_expand 1 b"
  obtain k where b: "cb_inv ?b" "cb_list ?b = cb_list b" "cb_capacity ?b = 2 ^ k" "k < 64"
      and room: "unat (cb_size b) < unat (cb_capacity ?b)"
    using cb_maybe_expand_spec [OF assms] .
  have n: "unat (cb_size ?b) = length (cb_list b)"
    using b(2) by (metis length_cb_list)
  have st: "length (cb_storage ?b) = unat (cb_capacity ?b)"
    using b(1) by (simp add: cb_inv_def)
  let ?b' = "(cb_put (cb_begin ?b - 1) (Some x) ?b)\<lparr>cb_begin := cb_begin ?b - 1\<rparr>"
  have "cb_size ?b' = cb_size ?b + 1"
    by (simp add: cb_size_def)
  moreover have "unat (cb_size ?b) + unat (1 :: u64) < 2 ^ 64"
    using assms(2) n by simp
  ultimately have size: "unat (cb_size ?b') = unat (cb_size ?b) + 1"
    using unat_add_no_wrap [of "cb_size ?b" 1] by simp
  have slot: "cb_slot ?b' (cb_begin ?b' + of_nat j) = Some ((x # cb_list b) ! j)"
    if "j < length (x # cb_list b)" for j
  proof -
    have "cb_slot (cb_put (cb_begin ?b - 1 + of_nat 0) (Some x) ?b) (cb_begin ?b - 1 + of_nat j) =
        (if 0 = j then Some x else cb_slot ?b (cb_begin ?b - 1 + of_nat j))"
      by (rule cb_slot_put [OF b(3,4) st]) (use that room n in simp_all)
    with that show ?thesis
      using cb_slot_list [OF b(1), of "j - 1"] b(2) n by (cases j) auto
  qed
  have "cb_inv ?b' \<and> cb_list ?b' = x # cb_list b"
    by (rule cb_invI [where k = k]) (use b st size n room slot in auto)
  then show ?thesis by (simp add: cb_push_front_def Let_def)
qed

lemma cb_pop_back_spec:
  assumes inv: "cb_inv b" and ne: "cb_list b \<noteq> []"
  shows "cb_inv (cb_pop_back b) \<and> cb_list (cb_pop_back b) = butlast (cb_list b)
    \<and> cb_back b = Some (last (cb_list b))"
proof -
  let ?n = "unat (cb_size b)"
  have n0: "0 < ?n" using ne by (metis length_cb_list length_greater_0_conv)
  then have "cb_capacity b \<noteq> 0"
    using inv by (auto simp: cb_inv_def)
  then obtain k where k: "cb_capacity b = 2 ^ k" "k < 64"
    using inv by (auto simp: cb_inv_def)
  have st: "length (cb_storage b) = unat (cb_capacity b)" and cap: "?n \<le> unat (cb_capacity b)"
    using inv by (auto simp: cb_inv_def)
  have e: "cb_end b - 1 = cb_begin b + of_nat (?n - 1)"
    using n0 cb_end_eq [of b] by (simp add: of_nat_diff)
  let ?b' = "(cb_put (cb_end b - 1) None b)\<lparr>cb_end := cb_end b - 1\<rparr>"
  have "cb_size b \<noteq> 0" using n0 by auto
  moreover have "cb_size ?b' = cb_size b - 1"
    by (simp add: cb_size_def)
  ultimately have size: "unat (cb_size ?b') = ?n - 1"
    by (simp add: unat_minus_one)
  have slot: "cb_slot ?b' (cb_begin ?b' + of_nat j) = Some (butlast (cb_list b) ! j)"
    if "j < length (butlast (cb_list b))" for j
  proof -
    have "cb_slot (cb_put (cb_begin b + of_nat (?n - 1)) None b) (cb_begin b + of_nat j) =
        (if ?n - 1 = j then None else cb_slot b (cb_begin b + of_nat j))"
      by (rule cb_slot_put [OF k st]) (use that cap n0 in simp_all)
    with that show ?thesis
      using cb_slot_list [OF inv, of j] by (simp add: e nth_butlast)
  qed
  have "cb_inv ?b' \<and> cb_list ?b' = butlast (cb_list b)"
    by (rule cb_invI [where k = k]) (use k st size cap slot in auto)
  moreover have "cb_back b = Some (last (cb_list b))"
    using cb_slot_list [OF inv, of "?n - 1"] n0 ne by (simp add: cb_back_def e last_conv_nth)
  ultimately show ?thesis by (simp add: cb_pop_back_def Let_def)
qed

lemma cb_index_spec:
  assumes "cb_inv b" "unat i < length (cb_list b)"
  shows "cb_index b i = Some (cb_list b ! unat i)"
  using cb_slot_list [OF assms(1), of "unat i"] assms(2) by (simp add: cb_index_def)

section \<open>The interface its clients use\<close>

datatype 'a deque_op = Push_back 'a | Push_front 'a | Pop_front | Pop_back

fun deque_apply :: "('a \<Rightarrow> 'b \<Rightarrow> 'b) \<Rightarrow> ('a \<Rightarrow> 'b \<Rightarrow> 'b) \<Rightarrow> ('b \<Rightarrow> 'b) \<Rightarrow> ('b \<Rightarrow> 'b) \<Rightarrow> 'a deque_op \<Rightarrow> 'b \<Rightarrow> 'b" where
  "deque_apply pb pf qf qb (Push_back x) b = pb x b"
| "deque_apply pb pf qf qb (Push_front x) b = pf x b"
| "deque_apply pb pf qf qb Pop_front b = qf b"
| "deque_apply pb pf qf qb Pop_back b = qb b"

text \<open>The list model: a pop of the empty queue is undefined behaviour, hence \<open>None\<close>.\<close>

fun list_apply :: "'a deque_op \<Rightarrow> 'a list \<Rightarrow> 'a list option" where
  "list_apply (Push_back x) xs = Some (xs @ [x])"
| "list_apply (Push_front x) xs = Some (x # xs)"
| "list_apply Pop_front xs = (if xs = [] then None else Some (tl xs))"
| "list_apply Pop_back xs = (if xs = [] then None else Some (butlast xs))"

fun list_run :: "'a deque_op list \<Rightarrow> 'a list \<Rightarrow> 'a list option" where
  "list_run [] xs = Some xs"
| "list_run (p # ps) xs = (case list_apply p xs of None \<Rightarrow> None | Some ys \<Rightarrow> list_run ps ys)"

locale deque =
  fixes invar :: "'b \<Rightarrow> bool" and contents :: "'b \<Rightarrow> 'a list" and limit :: nat
    and empty :: 'b and is_empty :: "'b \<Rightarrow> bool"
    and push_back push_front :: "'a \<Rightarrow> 'b \<Rightarrow> 'b" and pop_front pop_back :: "'b \<Rightarrow> 'b"
    and front :: "'b \<Rightarrow> 'a option"
  assumes invar_empty: "invar empty" and contents_empty: "contents empty = []"
    and is_empty_iff: "invar b \<Longrightarrow> is_empty b \<longleftrightarrow> contents b = []"
    and push_back: "invar b \<Longrightarrow> length (contents b) < limit \<Longrightarrow>
          invar (push_back x b) \<and> contents (push_back x b) = contents b @ [x]"
    and push_front: "invar b \<Longrightarrow> length (contents b) < limit \<Longrightarrow>
          invar (push_front x b) \<and> contents (push_front x b) = x # contents b"
    and pop_front: "invar b \<Longrightarrow> contents b \<noteq> [] \<Longrightarrow>
          invar (pop_front b) \<and> contents (pop_front b) = tl (contents b)
          \<and> front b = Some (hd (contents b))"
    and pop_back: "invar b \<Longrightarrow> contents b \<noteq> [] \<Longrightarrow>
          invar (pop_back b) \<and> contents (pop_back b) = butlast (contents b)"
begin

lemma apply_refines:
  assumes "invar b" "length (contents b) < limit" "list_apply p (contents b) = Some ys"
  shows "invar (deque_apply push_back push_front pop_front pop_back p b)
    \<and> contents (deque_apply push_back push_front pop_front pop_back p b) = ys
    \<and> length ys \<le> Suc (length (contents b))"
  using assms push_back push_front pop_front pop_back by (cases p) (auto split: if_splits)

lemma run_refines:
  assumes "invar b" "length (contents b) + length ps \<le> limit"
    and "list_run ps (contents b) = Some ys"
  shows "invar (fold (deque_apply push_back push_front pop_front pop_back) ps b)
    \<and> contents (fold (deque_apply push_back push_front pop_front pop_back) ps b) = ys"
  using assms
proof (induction ps arbitrary: b)
  case (Cons p ps)
  let ?b = "deque_apply push_back push_front pop_front pop_back p b"
  obtain zs where zs: "list_apply p (contents b) = Some zs" "list_run ps zs = Some ys"
    using Cons.prems(3) by (auto split: option.splits)
  have "invar ?b \<and> contents ?b = zs \<and> length zs \<le> Suc (length (contents b))"
    using apply_refines [OF Cons.prems(1) _ zs(1)] Cons.prems(2) by simp
  with Cons.IH [of ?b] Cons.prems(2) zs(2) show ?case by simp
qed simp

lemma fifo:
  assumes "invar b" "length (contents b) + length xs \<le> limit"
  shows "invar (fold push_back xs b) \<and> contents (fold push_back xs b) = contents b @ xs"
  using assms by (induction xs arbitrary: b) (auto simp: push_back)

end

interpretation cb: deque cb_inv cb_list "2 ^ 63" cb_init cb_empty cb_push_back cb_push_front
  cb_pop_front cb_pop_back cb_front
  by unfold_locales
    (auto simp: cb_empty_iff cb_push_back_spec cb_push_front_spec cb_pop_front_spec cb_pop_back_spec)

section \<open>Properties\<close>

text \<open>
  C10. Starting from an empty ring, any sequence of pushes and pops at both ends that never
  pops an empty queue leaves the ring in a valid state whose contents, size and emptiness
  are those of the list model, across every growth of the storage and every wrap of the
  64-bit indices.
\<close>

theorem circular_buffer_refines_list:
  assumes "list_run ps [] = Some xs" "length ps \<le> 2 ^ 63"
  shows "let b = fold (deque_apply cb_push_back cb_push_front cb_pop_front cb_pop_back) ps cb_init
    in cb_inv b \<and> cb_list b = xs \<and> unat (cb_size b) = length xs \<and> (cb_empty b \<longleftrightarrow> xs = [])
       \<and> (\<forall>i. unat i < length xs \<longrightarrow> cb_index b i = Some (xs ! unat i))"
proof -
  define b where "b = fold (deque_apply cb_push_back cb_push_front cb_pop_front cb_pop_back) ps cb_init"
  have "cb_inv b \<and> cb_list b = xs"
    unfolding b_def by (rule cb.run_refines) (use assms in simp_all)
  then show ?thesis
    unfolding b_def [symmetric] Let_def
    by (metis cb_empty_iff cb_index_spec length_cb_list)
qed

theorem circular_buffer_refines_list_witness:
  "cb_list (fold (deque_apply cb_push_back cb_push_front cb_pop_front cb_pop_back)
      [Push_back 1, Push_back 2, Push_front (3::nat), Pop_back, Push_back 4, Pop_front] cb_init) = [1, 4]"
  using circular_buffer_refines_list
    [of "[Push_back 1, Push_back 2, Push_front (3::nat), Pop_back, Push_back 4, Pop_front]" "[1, 4]"]
  by (simp add: Let_def)

text \<open>
  \<open>reserve(size)\<close> for every size from 2 up to \<open>2^63\<close> succeeds, keeps the contents and
  gives a capacity of at least \<open>size\<close>; for \<open>size = 1\<close> on a buffer without storage it calls
  \<open>__builtin_clzl(0)\<close>, which is undefined.
\<close>

theorem circular_buffer_reserve:
  assumes "cb_inv b" "1 < sz" "sz \<le> 2 ^ 63"
  shows "(\<exists>b'. cb_reserve sz b = Some b' \<and> cb_inv b' \<and> cb_list b' = cb_list b \<and> sz \<le> cb_capacity b')
    \<and> cb_reserve 1 (cb_init :: 'a cbuf) = None"
proof
  show "\<exists>b'. cb_reserve sz b = Some b' \<and> cb_inv b' \<and> cb_list b' = cb_list b \<and> sz \<le> cb_capacity b'"
    using cb_reserve_spec [OF assms] by metis
  show "cb_reserve 1 (cb_init :: 'a cbuf) = None"
    by (simp add: cb_reserve_def cb_init_def log2ceil_undefined)
qed

theorem circular_buffer_reserve_witness:
  "\<exists>b'. cb_reserve 5 (cb_init :: nat cbuf) = Some b' \<and> 5 \<le> cb_capacity b'"
  using circular_buffer_reserve [of "cb_init :: nat cbuf" 5] by auto

end
