(* ===== verification/Net_Packet.thy ===== *)
theory Net_Packet
  imports NS_Prelude
begin

text \<open>
  \<open>net/packet.hh\<close> and \<open>net/packet.cc\<close>: the zero-copy packet, a vector of fragments with
  a 112-byte internal buffer (\<open>_data\<close>) whose free front part is the headroom.

  A fragment is its bytes together with where its base pointer lies: \<open>Some off\<close> is
  \<open>_data + off\<close> of this very packet, \<open>None\<close> any other memory. A packet is the fields of
  \<open>packet::impl\<close> that decide behaviour (fragments, length, headroom, allocated fragment
  slots, offload information, RSS hash); deleters and the sharing of the underlying memory
  are outside the model, and lengths and fragment counts are unbounded. A failed \<open>assert\<close>
  and a read or write outside the packet's memory are the result \<open>None\<close>.

  \<open>pkt_bytes\<close> is the byte string a packet carries. \<open>pkt_wf\<close> is the invariant of the
  fragment vector and \<open>pkt_room\<close> that of the internal buffer. The lemmas show every
  operation to act on \<open>pkt_bytes\<close> as the corresponding list operation; the locale
  \<open>byte_packet\<close> is the interface the packet merger and the preprocessors use.
\<close>

section \<open>Data\<close>

datatype ip_protocol_num = Icmp | Tcp | Udp | Unused

record offload_info =
  oi_protocol :: ip_protocol_num
  oi_needs_csum :: bool
  oi_ip_hdr_len :: u8
  oi_tcp_hdr_len :: u8
  oi_udp_hdr_len :: u8
  oi_needs_ip_csum :: bool
  oi_reassembled :: bool
  oi_tso_seg_size :: u16
  oi_vlan_tci :: "u16 option"

definition default_offload_info :: offload_info where
  "default_offload_info =
     \<lparr>oi_protocol = Unused, oi_needs_csum = False, oi_ip_hdr_len = 20, oi_tcp_hdr_len = 20,
      oi_udp_hdr_len = 8, oi_needs_ip_csum = False, oi_reassembled = False,
      oi_tso_seg_size = 0, oi_vlan_tci = None\<rparr>"

record frag =
  fr_data :: bytes
  fr_base :: "int option"

record pkt =
  pk_frags :: "frag list"
  pk_len :: nat
  pk_headroom :: nat
  pk_allocated :: nat
  pk_offload :: offload_info
  pk_rss :: "u32 option"

definition internal_data_size :: nat where
  "internal_data_size = 128 - 16"

definition default_nr_frags :: nat where
  "default_nr_frags = 4"

abbreviation fr_size :: "frag \<Rightarrow> nat" where
  "fr_size f \<equiv> length (fr_data f)"

definition external :: "bytes \<Rightarrow> frag" where
  "external d = \<lparr>fr_data = d, fr_base = None\<rparr>"

section \<open>packet::impl\<close>

definition impl_allocate :: "nat \<Rightarrow> pkt" where
  "impl_allocate nr_frags =
     \<lparr>pk_frags = [], pk_len = 0, pk_headroom = internal_data_size,
      pk_allocated = max nr_frags default_nr_frags,
      pk_offload = default_offload_info, pk_rss = None\<rparr>"

definition using_internal_data :: "pkt \<Rightarrow> bool" where
  "using_internal_data p \<longleftrightarrow>
     (case pk_frags p of
        [] \<Rightarrow> False
      | f # _ \<Rightarrow> (case fr_base f of
                    None \<Rightarrow> False
                  | Some off \<Rightarrow> 0 \<le> off \<and> off < int internal_data_size))"

definition unuse_internal_data :: "pkt \<Rightarrow> pkt" where
  "unuse_internal_data p =
     (if using_internal_data p
      then p\<lparr>pk_frags := external (fr_data (hd (pk_frags p))) # tl (pk_frags p),
             pk_headroom := internal_data_size\<rparr>
      else p)"

definition impl_copy :: "pkt \<Rightarrow> nat \<Rightarrow> pkt" where
  "impl_copy old nr =
     old\<lparr>pk_allocated := max nr default_nr_frags,
         pk_frags := (if using_internal_data old
                      then (hd (pk_frags old))\<lparr>fr_base := Some (int (pk_headroom old))\<rparr>
                           # tl (pk_frags old)
                      else pk_frags old)\<rparr>"

definition allocate_if_needed :: "pkt \<Rightarrow> nat \<Rightarrow> pkt" where
  "allocate_if_needed old extra_frags =
     (if pk_allocated old \<ge> length (pk_frags old) + extra_frags then old
      else impl_copy old (max (length (pk_frags old) + extra_frags) (2 * length (pk_frags old))))"

section \<open>Constructors\<close>

definition pkt_empty :: pkt where
  "pkt_empty = impl_allocate 1"

text \<open>\<open>packet(fragment)\<close>: copies the data, into \<open>_data\<close> when it fits.\<close>

definition pkt_copy :: "bytes \<Rightarrow> pkt" where
  "pkt_copy d =
     (let p = (impl_allocate default_nr_frags)\<lparr>pk_len := length d\<rparr> in
      if length d \<le> internal_data_size
      then p\<lparr>pk_headroom := internal_data_size - length d,
             pk_frags := [\<lparr>fr_data = d, fr_base = Some (int (internal_data_size - length d))\<rparr>]\<rparr>
      else p\<lparr>pk_frags := [external d]\<rparr>)"

definition pkt_of_frag :: "bytes \<Rightarrow> pkt" where
  "pkt_of_frag d = (impl_allocate 1)\<lparr>pk_frags := [external d], pk_len := length d\<rparr>"

definition pkt_of_frags :: "bytes list \<Rightarrow> pkt" where
  "pkt_of_frags ds =
     (impl_allocate (length ds))\<lparr>pk_frags := map external ds, pk_len := sum_list (map length ds)\<rparr>"

definition pkt_append_frag :: "pkt \<Rightarrow> bytes \<Rightarrow> pkt" where
  "pkt_append_frag x d =
     (let p = allocate_if_needed x 1
      in p\<lparr>pk_len := pk_len p + length d, pk_frags := pk_frags p @ [external d]\<rparr>)"

section \<open>Operations\<close>

definition pkt_append :: "pkt \<Rightarrow> pkt \<Rightarrow> pkt" where
  "pkt_append this p =
     (if pk_len this = 0 then p
      else let t = allocate_if_needed this (length (pk_frags p)); q = unuse_internal_data p
           in t\<lparr>pk_len := pk_len t + pk_len p, pk_frags := pk_frags t @ pk_frags q\<rparr>)"

fun trim_front_frags :: "nat \<Rightarrow> frag list \<Rightarrow> nat \<times> frag list" where
  "trim_front_frags n [] = (n, [])"
| "trim_front_frags n (f # fs) =
     (if n \<noteq> 0 \<and> n \<ge> fr_size f then trim_front_frags (n - fr_size f) fs else (n, f # fs))"

definition pkt_trim_front :: "nat \<Rightarrow> pkt \<Rightarrow> pkt option" where
  "pkt_trim_front how_much p =
     (if how_much > pk_len p then None
      else let (m, fs) = trim_front_frags how_much (pk_frags p);
               p1 = p\<lparr>pk_len := pk_len p - how_much, pk_frags := fs\<rparr>;
               p2 = (if using_internal_data p1 then p1
                     else p1\<lparr>pk_headroom := internal_data_size\<rparr>)
           in if m = 0 then Some p2
              else case pk_frags p2 of
                     [] \<Rightarrow> None
                   | f # rest \<Rightarrow>
                       Some (p2\<lparr>pk_headroom := (if using_internal_data p2 then pk_headroom p2 + m
                                               else pk_headroom p2),
                                pk_frags := \<lparr>fr_data = drop m (fr_data f),
                                            fr_base = map_option (\<lambda>off. off + int m) (fr_base f)\<rparr>
                                           # rest\<rparr>))"

text \<open>\<open>trim_back\<close> walks the fragments from the last one; the model walks the reversed list.\<close>

definition pkt_trim_back :: "nat \<Rightarrow> pkt \<Rightarrow> pkt option" where
  "pkt_trim_back how_much p =
     (if how_much > pk_len p then None
      else let (m, rfs) = trim_front_frags how_much (rev (pk_frags p));
               p1 = p\<lparr>pk_len := pk_len p - how_much, pk_frags := rev rfs\<rparr>
           in if m = 0 then Some p1
              else case rfs of
                     [] \<Rightarrow> None
                   | f # rest \<Rightarrow>
                       (let p2 = p1\<lparr>pk_frags := rev (f\<lparr>fr_data := take (fr_size f - m) (fr_data f)\<rparr>
                                                  # rest)\<rparr>
                        in Some (if rest = [] \<and> using_internal_data p2
                                 then p2\<lparr>pk_headroom := pk_headroom p2 + m\<rparr> else p2)))"

fun linearize_take :: "nat \<Rightarrow> nat \<Rightarrow> frag list \<Rightarrow> (bytes \<times> nat \<times> frag list) option" where
  "linearize_take desired accum [] = (if accum < desired then None else Some ([], 0, []))"
| "linearize_take desired accum (f # fs) =
     (if accum < desired
      then map_option (\<lambda>(d, n, rest). (fr_data f @ d, Suc n, rest))
             (linearize_take desired (accum + fr_size f) fs)
      else Some ([], 0, f # fs))"

definition pkt_linearize_at :: "nat \<Rightarrow> nat \<Rightarrow> pkt \<Rightarrow> pkt option" where
  "pkt_linearize_at at_frag desired_size p =
     (let q = unuse_internal_data p in
      case linearize_take desired_size 0 (drop at_frag (pk_frags q)) of
        None \<Rightarrow> None
      | Some (new_frag, nr_frags, rest) \<Rightarrow>
          (let fs = take at_frag (pk_frags q) @ external new_frag # rest
           in if length fs \<le> pk_allocated q then Some (q\<lparr>pk_frags := fs\<rparr>) else None))"

definition pkt_linearize :: "pkt \<Rightarrow> pkt option" where
  "pkt_linearize p = pkt_linearize_at 0 (pk_len p) p"

fun find_frag :: "nat \<Rightarrow> nat \<Rightarrow> frag list \<Rightarrow> (nat \<times> nat) option" where
  "find_frag i offset [] = None"
| "find_frag i offset (f # fs) =
     (if offset \<ge> fr_size f then find_frag (Suc i) (offset - fr_size f) fs else Some (i, offset))"

text \<open>
  \<open>get_header\<close> returns a pointer to \<open>size\<close> contiguous bytes, or \<open>nullptr\<close>, and may
  linearize the packet; the model returns those bytes and the packet afterwards. The outer
  \<open>None\<close> is undefined behaviour, the inner one \<open>nullptr\<close>.
\<close>

definition pkt_get_header :: "nat \<Rightarrow> nat \<Rightarrow> pkt \<Rightarrow> (bytes option \<times> pkt) option" where
  "pkt_get_header offset sz p =
     (if offset + sz > pk_len p then Some (None, p)
      else case find_frag 0 offset (pk_frags p) of
             None \<Rightarrow> Some (None, p)
           | Some (i, off) \<Rightarrow>
               (case (if off + sz > fr_size (pk_frags p ! i) then pkt_linearize_at i (off + sz) p
                      else Some p) of
                  None \<Rightarrow> None
                | Some q \<Rightarrow> Some (Some (take sz (drop off (fr_data (pk_frags q ! i)))), q)))"

text \<open>A write through the pointer that \<open>get_header\<close> returns: \<open>f\<close> maps the old header bytes to the new ones.\<close>

definition pkt_update_header :: "nat \<Rightarrow> nat \<Rightarrow> (bytes \<Rightarrow> bytes) \<Rightarrow> pkt \<Rightarrow> pkt option option" where
  "pkt_update_header offset sz f p =
     (if offset + sz > pk_len p then Some None
      else case find_frag 0 offset (pk_frags p) of
             None \<Rightarrow> Some None
           | Some (i, off) \<Rightarrow>
               (case (if off + sz > fr_size (pk_frags p ! i) then pkt_linearize_at i (off + sz) p
                      else Some p) of
                  None \<Rightarrow> None
                | Some q \<Rightarrow>
                    (let g = pk_frags q ! i; d = fr_data g in
                     Some (Some (q\<lparr>pk_frags := (pk_frags q)[i :=
                       g\<lparr>fr_data := take off d @ f (take sz (drop off d)) @ drop (off + sz) d\<rparr>]\<rparr>)))))"

text \<open>
  \<open>allocate_headroom\<close> makes room in front of the packet; the bytes the caller then writes
  there are the argument \<open>hdr\<close>. The outer \<open>None\<close> is a base pointer below \<open>_data\<close>.
\<close>

definition allocate_headroom :: "bytes \<Rightarrow> pkt \<Rightarrow> pkt option option" where
  "allocate_headroom hdr p =
     (let sz = length hdr in
      if pk_headroom p \<ge> sz
      then let p1 = p\<lparr>pk_len := pk_len p + sz\<rparr>;
               p2 = (if using_internal_data p1 then p1
                     else let q = allocate_if_needed p1 1
                          in q\<lparr>pk_frags := \<lparr>fr_data = [], fr_base = Some (int internal_data_size)\<rparr>
                                          # pk_frags q\<rparr>);
               f = hd (pk_frags p2);
               base = the (fr_base f) - int sz
           in if base < 0 then None
              else Some (Some (p2\<lparr>pk_headroom := pk_headroom p2 - sz,
                                  pk_frags := \<lparr>fr_data = hdr @ fr_data f, fr_base = Some base\<rparr>
                                             # tl (pk_frags p2)\<rparr>))
      else Some None)"

definition prepend_header :: "bytes \<Rightarrow> pkt \<Rightarrow> pkt option" where
  "prepend_header hdr p =
     (case allocate_headroom hdr p of
        None \<Rightarrow> None
      | Some (Some q) \<Rightarrow> Some q
      | Some None \<Rightarrow>
          (let p1 = unuse_internal_data p in
           case allocate_headroom hdr p1 of
             None \<Rightarrow> None
           | Some (Some q) \<Rightarrow> Some q
           | Some None \<Rightarrow>
               (let p2 = allocate_if_needed (p1\<lparr>pk_len := pk_len p1 + length hdr\<rparr>) 1
                in Some (p2\<lparr>pk_frags := external hdr # pk_frags p2\<rparr>))))"

text \<open>\<open>packet(fragment, packet&&)\<close>: the same without the second attempt.\<close>

definition pkt_prepend_frag :: "bytes \<Rightarrow> pkt \<Rightarrow> pkt option" where
  "pkt_prepend_frag d p =
     (case allocate_headroom d p of
        None \<Rightarrow> None
      | Some (Some q) \<Rightarrow> Some q
      | Some None \<Rightarrow>
          (let p1 = allocate_if_needed (unuse_internal_data p) 1
           in Some (p1\<lparr>pk_len := pk_len p1 + length d, pk_frags := external d # pk_frags p1\<rparr>)))"

fun skip_frags :: "nat \<Rightarrow> frag list \<Rightarrow> (nat \<times> frag list) option" where
  "skip_frags offset [] = (if offset > 0 then None else Some (0, []))"
| "skip_frags offset (f # fs) =
     (if offset > 0 \<and> offset \<ge> fr_size f then skip_frags (offset - fr_size f) fs
      else Some (offset, f # fs))"

fun share_frags :: "nat \<Rightarrow> nat \<Rightarrow> frag list \<Rightarrow> bytes list option" where
  "share_frags offset remaining [] = (if remaining = 0 then Some [] else None)"
| "share_frags offset remaining (f # fs) =
     (if remaining = 0 then Some []
      else let fsize = min remaining (fr_size f - offset)
           in map_option (\<lambda>ds. take fsize (drop offset (fr_data f)) # ds)
                (share_frags 0 (remaining - fsize) fs))"

definition pkt_share :: "nat \<Rightarrow> nat \<Rightarrow> pkt \<Rightarrow> (pkt \<times> pkt) option" where
  "pkt_share offset len p =
     (let q = unuse_internal_data p; n = allocate_if_needed pkt_empty (length (pk_frags q)) in
      case skip_frags offset (pk_frags q) of
        None \<Rightarrow> None
      | Some (off, fs) \<Rightarrow>
          (case share_frags off len fs of
             None \<Rightarrow> None
           | Some ds \<Rightarrow>
               Some (n\<lparr>pk_frags := map external ds, pk_len := sum_list (map length ds),
                       pk_offload := pk_offload q\<rparr>, q)))"

definition pkt_release :: "pkt \<Rightarrow> bytes list" where
  "pkt_release p = map fr_data (pk_frags p)"

definition pkt_reserve :: "nat \<Rightarrow> pkt \<Rightarrow> pkt" where
  "pkt_reserve n_frags p =
     (if n_frags > length (pk_frags p)
      then allocate_if_needed p (n_frags - length (pk_frags p)) else p)"

section \<open>Invariants and abstraction\<close>

definition frags_bytes :: "frag list \<Rightarrow> bytes" where
  "frags_bytes fs = concat (map fr_data fs)"

definition pkt_bytes :: "pkt \<Rightarrow> bytes" where
  "pkt_bytes p = frags_bytes (pk_frags p)"

definition pkt_wf :: "pkt \<Rightarrow> bool" where
  "pkt_wf p \<longleftrightarrow>
     pk_len p = length (pkt_bytes p) \<and>
     length (pk_frags p) \<le> pk_allocated p"

text \<open>Only the first fragment may lie in \<open>_data\<close>, and then the free space in front of it is at
  least the headroom. (Prepending zero bytes leaves an empty fragment at the end of \<open>_data\<close>.)\<close>

definition fr_outside :: "frag \<Rightarrow> bool" where
  "fr_outside f \<longleftrightarrow> fr_base f = None \<or> fr_base f = Some (int internal_data_size) \<and> fr_data f = []"

definition fr_inside :: "nat \<Rightarrow> frag \<Rightarrow> bool" where
  "fr_inside room f \<longleftrightarrow>
     (case fr_base f of
        None \<Rightarrow> False
      | Some off \<Rightarrow> int room \<le> off \<and> off < int internal_data_size
                     \<and> off + int (fr_size f) \<le> int internal_data_size)"

fun frags_room :: "nat \<Rightarrow> frag list \<Rightarrow> bool" where
  "frags_room room [] = True"
| "frags_room room (f # fs) = ((fr_outside f \<or> fr_inside room f) \<and> list_all fr_outside fs)"

definition pkt_room :: "pkt \<Rightarrow> bool" where
  "pkt_room p \<longleftrightarrow> pk_headroom p \<le> internal_data_size \<and> frags_room (pk_headroom p) (pk_frags p)"

lemma frags_room_outside: "list_all fr_outside fs \<Longrightarrow> frags_room n fs"
  by (cases fs) auto

lemma list_all_external [simp]: "list_all fr_outside (map external ds)" "fr_outside (external d)"
  by (auto simp: list_all_iff fr_outside_def external_def)

lemma frags_room_append: "frags_room n fs \<Longrightarrow> list_all fr_outside gs \<Longrightarrow> frags_room n (fs @ gs)"
  by (cases fs) (auto intro: frags_room_outside)

lemma frags_bytes_simps [simp]:
  "frags_bytes [] = []"
  "frags_bytes (f # fs) = fr_data f @ frags_bytes fs"
  "frags_bytes (fs @ gs) = frags_bytes fs @ frags_bytes gs"
  "fr_data (external d) = d"
  "fr_base (external d) = None"
  by (simp_all add: frags_bytes_def external_def)

lemma frags_bytes_external [simp]: "frags_bytes (map external ds) = concat ds"
  by (induction ds) auto

lemma frags_bytes_rev: "frags_bytes (rev fs) = concat (rev (map fr_data fs))"
  by (simp add: frags_bytes_def rev_map)

section \<open>Bookkeeping operations\<close>

lemma using_internal_data_cong [simp]:
  "using_internal_data (p\<lparr>pk_len := n\<rparr>) = using_internal_data p"
  "using_internal_data (p\<lparr>pk_headroom := n\<rparr>) = using_internal_data p"
  "using_internal_data (p\<lparr>pk_allocated := n\<rparr>) = using_internal_data p"
  "using_internal_data (p\<lparr>pk_offload := oi\<rparr>) = using_internal_data p"
  by (simp_all add: using_internal_data_def)

lemma using_internal_data_cases:
  "using_internal_data p \<Longrightarrow>
     \<exists>f fs off. pk_frags p = f # fs \<and> fr_base f = Some off \<and> 0 \<le> off \<and> off < int internal_data_size"
  by (auto simp: using_internal_data_def split: list.splits option.splits)

lemma unuse_internal_data_spec [simp]:
  "pkt_bytes (unuse_internal_data p) = pkt_bytes p"
  "pk_len (unuse_internal_data p) = pk_len p"
  "pk_allocated (unuse_internal_data p) = pk_allocated p"
  "length (pk_frags (unuse_internal_data p)) = length (pk_frags p)"
  "pk_offload (unuse_internal_data p) = pk_offload p"
  "\<not> using_internal_data (unuse_internal_data p)"
  using using_internal_data_cases [of p]
  by (auto simp: unuse_internal_data_def pkt_bytes_def) (auto simp: using_internal_data_def)

lemma unuse_internal_data_wf [simp]: "pkt_wf (unuse_internal_data p) \<longleftrightarrow> pkt_wf p"
  by (simp add: pkt_wf_def)

lemma frags_room_internal:
  "frags_room n (pk_frags p) \<Longrightarrow> \<not> using_internal_data p \<Longrightarrow> n \<le> internal_data_size \<Longrightarrow>
     frags_room m (pk_frags p)"
  by (cases "pk_frags p")
    (auto simp: using_internal_data_def fr_inside_def fr_outside_def split: option.splits)

lemma unuse_internal_data_room [simp]: "pkt_room p \<Longrightarrow> pkt_room (unuse_internal_data p)"
  by (cases "pk_frags p") (auto simp: pkt_room_def unuse_internal_data_def intro: frags_room_outside)

lemma unuse_internal_data_outside:
  "pkt_room p \<Longrightarrow> list_all fr_outside (pk_frags (unuse_internal_data p))"
  by (cases "pk_frags p")
    (auto simp: pkt_room_def unuse_internal_data_def using_internal_data_def fr_outside_def
      fr_inside_def split: option.splits)

lemma allocate_if_needed_spec [simp]:
  "pkt_bytes (allocate_if_needed p n) = pkt_bytes p"
  "pk_len (allocate_if_needed p n) = pk_len p"
  "pk_headroom (allocate_if_needed p n) = pk_headroom p"
  "length (pk_frags (allocate_if_needed p n)) = length (pk_frags p)"
  "pk_offload (allocate_if_needed p n) = pk_offload p"
  "\<not> using_internal_data p \<Longrightarrow> pk_frags (allocate_if_needed p n) = pk_frags p"
  using using_internal_data_cases [of p]
  by (auto simp: allocate_if_needed_def impl_copy_def pkt_bytes_def)

lemma allocate_if_needed_slots:
  "length (pk_frags p) + n \<le> pk_allocated (allocate_if_needed p n)"
  by (auto simp: allocate_if_needed_def impl_copy_def)

lemma allocate_if_needed_wf [simp]: "pkt_wf p \<Longrightarrow> pkt_wf (allocate_if_needed p n)"
  using allocate_if_needed_slots [of p n] by (simp add: pkt_wf_def)

lemma allocate_if_needed_room [simp]:
  assumes "pkt_room p"
  shows "pkt_room (allocate_if_needed p n)"
  using assms
  by (cases "pk_frags p")
    (auto simp: pkt_room_def allocate_if_needed_def impl_copy_def using_internal_data_def
      fr_inside_def fr_outside_def split: option.splits)

lemma pkt_room_len [simp]: "pkt_room (p\<lparr>pk_len := n\<rparr>) = pkt_room p"
  by (simp add: pkt_room_def)

section \<open>Each operation against the byte string\<close>

lemma pkt_copy_spec:
  "pkt_bytes (pkt_copy d) = d" "pkt_wf (pkt_copy d)" "pkt_room (pkt_copy d)"
  by (auto simp: pkt_copy_def pkt_bytes_def pkt_wf_def pkt_room_def impl_allocate_def
      default_nr_frags_def Let_def internal_data_size_def fr_inside_def fr_outside_def external_def)

lemma pkt_empty_spec:
  "pkt_bytes pkt_empty = []" "pkt_wf pkt_empty" "pkt_room pkt_empty"
  by (auto simp: pkt_empty_def impl_allocate_def pkt_bytes_def pkt_wf_def pkt_room_def
      using_internal_data_def default_nr_frags_def)

lemma pkt_of_frag_spec:
  "pkt_bytes (pkt_of_frag d) = d" "pkt_wf (pkt_of_frag d)" "pkt_room (pkt_of_frag d)"
  by (auto simp: pkt_of_frag_def impl_allocate_def pkt_bytes_def pkt_wf_def pkt_room_def
      using_internal_data_def default_nr_frags_def)

lemma pkt_of_frags_spec:
  "pkt_bytes (pkt_of_frags ds) = concat ds" "pkt_wf (pkt_of_frags ds)" "pkt_room (pkt_of_frags ds)"
  by (auto simp: pkt_of_frags_def impl_allocate_def pkt_bytes_def pkt_wf_def pkt_room_def
      length_concat frags_room_outside)

lemma pkt_append_frag_spec:
  assumes "pkt_wf p"
  shows "pkt_bytes (pkt_append_frag p d) = pkt_bytes p @ d" "pkt_wf (pkt_append_frag p d)"
proof -
  have b: "frags_bytes (pk_frags (allocate_if_needed p 1)) = pkt_bytes p"
    using allocate_if_needed_spec(1) [of p 1] by (simp add: pkt_bytes_def)
  then show *: "pkt_bytes (pkt_append_frag p d) = pkt_bytes p @ d"
    by (simp add: pkt_append_frag_def pkt_bytes_def Let_def)
  show "pkt_wf (pkt_append_frag p d)"
    using assms * allocate_if_needed_slots [of p 1]
    by (simp add: pkt_wf_def) (simp add: pkt_append_frag_def Let_def)
qed

lemma pkt_append_spec:
  assumes "pkt_wf p" "pkt_wf q"
  shows "pkt_bytes (pkt_append p q) = pkt_bytes p @ pkt_bytes q" "pkt_wf (pkt_append p q)"
proof -
  let ?p = "allocate_if_needed p (length (pk_frags q))"
  have b: "frags_bytes (pk_frags ?p) = pkt_bytes p"
      "frags_bytes (pk_frags (unuse_internal_data q)) = pkt_bytes q"
    using allocate_if_needed_spec(1) [of p "length (pk_frags q)"] unuse_internal_data_spec(1) [of q]
    by (simp_all add: pkt_bytes_def)
  show *: "pkt_bytes (pkt_append p q) = pkt_bytes p @ pkt_bytes q"
    using assms(1) b by (auto simp: pkt_append_def Let_def pkt_bytes_def pkt_wf_def)
  show "pkt_wf (pkt_append p q)"
    using assms * allocate_if_needed_slots [of p "length (pk_frags q)"]
    by (auto simp: pkt_wf_def) (auto simp: pkt_append_def Let_def)
qed

lemma trim_front_frags_spec:
  assumes "n \<le> length (frags_bytes fs)" "trim_front_frags n fs = (m, gs)"
  shows "drop n (frags_bytes fs) = drop m (frags_bytes gs) \<and> length gs \<le> length fs
    \<and> (m \<noteq> 0 \<longrightarrow> gs \<noteq> [] \<and> m < fr_size (hd gs))"
  using assms by (induction n fs rule: trim_front_frags.induct) (auto split: if_splits intro: le_SucI)

lemma trim_front_frags_suffix:
  "trim_front_frags n fs = (m, gs) \<Longrightarrow> \<exists>ps. fs = ps @ gs"
proof (induction n fs rule: trim_front_frags.induct)
  case (2 n f fs)
  then show ?case
    by (metis append.left_neutral append_Cons prod.inject trim_front_frags.simps(2))
qed simp

lemma pkt_trim_front_spec:
  assumes "pkt_wf p" "n \<le> length (pkt_bytes p)"
  shows "\<exists>q. pkt_trim_front n p = Some q \<and> pkt_bytes q = drop n (pkt_bytes p) \<and> pkt_wf q"
proof -
  obtain m gs where t: "trim_front_frags n (pk_frags p) = (m, gs)"
    by fastforce
  have s: "drop n (pkt_bytes p) = drop m (frags_bytes gs)" "length gs \<le> length (pk_frags p)"
      "m \<noteq> 0 \<Longrightarrow> \<exists>f fs. gs = f # fs \<and> m < fr_size f"
    using trim_front_frags_spec [OF _ t] assms(2) by (auto simp: pkt_bytes_def neq_Nil_conv)
  have len: "pk_len p - n = length (drop m (frags_bytes gs))"
    using s(1) assms by (metis length_drop pkt_wf_def)
  show ?thesis
  proof (cases "m = 0")
    case True
    then show ?thesis
      using assms s len t by (auto simp: pkt_trim_front_def pkt_bytes_def pkt_wf_def Let_def)
  next
    case False
    then obtain f fs where "gs = f # fs" "m < fr_size f"
      using s(3) by blast
    with False show ?thesis
      using assms s len t by (auto simp: pkt_trim_front_def pkt_bytes_def pkt_wf_def Let_def)
  qed
qed

lemma trim_back_frags_spec:
  assumes "n \<le> length (frags_bytes fs)" "trim_front_frags n (rev fs) = (m, rgs)"
  shows "take (length (frags_bytes fs) - n) (frags_bytes fs)
       = take (length (frags_bytes (rev rgs)) - m) (frags_bytes (rev rgs)) \<and> length rgs \<le> length fs
    \<and> m \<le> length (frags_bytes (rev rgs)) \<and> (m \<noteq> 0 \<longrightarrow> rgs \<noteq> [] \<and> m < fr_size (hd rgs))"
  using assms
proof (induction fs arbitrary: n rule: rev_induct)
  case (snoc f fs)
  show ?case
  proof (cases "n \<noteq> 0 \<and> n \<ge> fr_size f")
    case True
    with snoc.prems have "n - fr_size f \<le> length (frags_bytes fs)"
        "trim_front_frags (n - fr_size f) (rev fs) = (m, rgs)"
      by auto
    from snoc.IH [OF this] True snoc.prems(1) show ?thesis by auto
  next
    case False
    with snoc.prems show ?thesis by auto
  qed
qed auto

lemma pkt_trim_back_spec:
  assumes "pkt_wf p" "n \<le> length (pkt_bytes p)"
  shows "\<exists>q. pkt_trim_back n p = Some q
           \<and> pkt_bytes q = take (length (pkt_bytes p) - n) (pkt_bytes p) \<and> pkt_wf q"
proof -
  obtain m gs where t: "trim_front_frags n (rev (pk_frags p)) = (m, gs)"
    by fastforce
  have s: "take (length (pkt_bytes p) - n) (pkt_bytes p)
         = take (length (frags_bytes (rev gs)) - m) (frags_bytes (rev gs))"
      "length gs \<le> length (pk_frags p)" "m \<noteq> 0 \<Longrightarrow> \<exists>f fs. gs = f # fs \<and> m < fr_size f"
      "m \<le> length (frags_bytes (rev gs))"
    using trim_back_frags_spec [OF _ t] assms(2) by (auto simp: pkt_bytes_def neq_Nil_conv)
  have len: "pk_len p - n = length (frags_bytes (rev gs)) - m"
    using arg_cong [OF s(1), of length] assms s(4) by (simp add: pkt_wf_def)
  show ?thesis
  proof (cases "m = 0")
    case True
    then show ?thesis
      using assms s len t by (auto simp: pkt_trim_back_def pkt_bytes_def pkt_wf_def Let_def)
  next
    case False
    then obtain f fs where "gs = f # fs" "m < fr_size f"
      using s(3) by blast
    with False show ?thesis
      using assms s len t by (auto simp: pkt_trim_back_def pkt_bytes_def pkt_wf_def Let_def)
  qed
qed

lemma linearize_take_spec:
  assumes "desired \<le> accum + length (frags_bytes fs)"
  shows "\<exists>d n rest. linearize_take desired accum fs = Some (d, n, rest) \<and> rest = drop n fs
    \<and> d = frags_bytes (take n fs) \<and> n \<le> length fs \<and> (accum < desired \<longrightarrow> 0 < n)
    \<and> desired \<le> accum + length d"
  using assms
proof (induction desired accum fs rule: linearize_take.induct)
  case (2 desired accum f fs)
  show ?case
  proof (cases "accum < desired")
    case True
    with 2(1) [OF True] 2(2) show ?thesis by fastforce
  qed auto
qed auto

lemma pkt_linearize_at_spec:
  assumes wf: "pkt_wf p" and at: "at_frag < length (pk_frags p)" "0 < desired"
    and d: "desired \<le> length (frags_bytes (drop at_frag (pk_frags p)))"
  shows "\<exists>q. pkt_linearize_at at_frag desired p = Some q \<and> pkt_bytes q = pkt_bytes p \<and> pkt_wf q
    \<and> take at_frag (map fr_data (pk_frags q)) = take at_frag (map fr_data (pk_frags p))
    \<and> at_frag < length (pk_frags q) \<and> desired \<le> fr_size (pk_frags q ! at_frag)"
proof -
  let ?q = "unuse_internal_data p"
  have fd: "map fr_data (pk_frags ?q) = map fr_data (pk_frags p)"
    using using_internal_data_cases [of p] by (auto simp: unuse_internal_data_def)
  then have "frags_bytes (drop at_frag (pk_frags ?q)) = frags_bytes (drop at_frag (pk_frags p))"
    by (simp add: frags_bytes_def drop_map [symmetric])
  with d linearize_take_spec [of desired 0 "drop at_frag (pk_frags ?q)"] at
  obtain b n where l: "linearize_take desired 0 (drop at_frag (pk_frags ?q))
        = Some (b, n, drop n (drop at_frag (pk_frags ?q)))"
      "b = frags_bytes (take n (drop at_frag (pk_frags ?q)))" "0 < n" "desired \<le> length b"
      "n \<le> length (pk_frags p) - at_frag"
    by auto
  let ?fs = "take at_frag (pk_frags ?q) @ external b # drop n (drop at_frag (pk_frags ?q))"
  have "frags_bytes ?fs = frags_bytes (take at_frag (pk_frags ?q)
        @ take n (drop at_frag (pk_frags ?q)) @ drop n (drop at_frag (pk_frags ?q)))"
    by (simp add: l(2))
  also have "\<dots> = pkt_bytes p"
    by (simp only: append_take_drop_id pkt_bytes_def [symmetric] unuse_internal_data_spec)
  finally have bytes: "frags_bytes ?fs = pkt_bytes p" .
  have len: "length ?fs \<le> pk_allocated p"
    using wf at l(3,5) by (auto simp: pkt_wf_def)
  have "pkt_linearize_at at_frag desired p = Some (?q\<lparr>pk_frags := ?fs\<rparr>)"
    using l(1) len by (simp add: pkt_linearize_at_def Let_def del: drop_drop)
  moreover have "pkt_bytes (?q\<lparr>pk_frags := ?fs\<rparr>) = pkt_bytes p"
    using bytes by (simp add: pkt_bytes_def)
  ultimately show ?thesis
    using wf len at fd l(4) by (simp add: pkt_wf_def take_map [symmetric] nth_append min_def)
qed

lemma pkt_linearize_spec:
  assumes "pkt_wf p" "0 < pk_len p"
  shows "\<exists>q. pkt_linearize p = Some q \<and> pkt_bytes q = pkt_bytes p \<and> pkt_wf q
           \<and> (\<exists>f fs. pk_frags q = f # fs \<and> fr_data f = pkt_bytes p)"
proof -
  have "0 < length (pk_frags p)"
    using assms by (auto simp: pkt_wf_def pkt_bytes_def)
  then obtain q where q: "pkt_linearize p = Some q" "pkt_bytes q = pkt_bytes p" "pkt_wf q"
      "0 < length (pk_frags q)" "pk_len p \<le> fr_size (pk_frags q ! 0)"
    using pkt_linearize_at_spec [OF assms(1), of 0 "pk_len p"] assms
    by (auto simp: pkt_linearize_def pkt_wf_def pkt_bytes_def)
  then obtain f fs where f: "pk_frags q = f # fs"
    by (cases "pk_frags q") auto
  then have b: "pkt_bytes p = fr_data f @ frags_bytes fs"
    using q(2) by (simp add: pkt_bytes_def)
  moreover have "length (fr_data f @ frags_bytes fs) \<le> fr_size f"
    using q(5) f assms(1) b by (simp add: pkt_wf_def)
  ultimately have "pkt_bytes p = fr_data f"
    by simp
  with q f show ?thesis by auto
qed

lemma find_frag_spec:
  "find_frag k off fs = (if off < length (frags_bytes fs) then find_frag k off fs else None)
   \<and> (off < length (frags_bytes fs) \<longrightarrow>
        (\<exists>i o'. find_frag k off fs = Some (k + i, o') \<and> i < length fs \<and> o' < fr_size (fs ! i)
           \<and> off = length (frags_bytes (take i fs)) + o'))"
proof (induction fs arbitrary: k off)
  case (Cons f fs)
  show ?case
  proof (cases "off \<ge> fr_size f")
    case True
    note IH = Cons.IH [of "Suc k" "off - fr_size f"]
    show ?thesis
    proof (cases "off < length (frags_bytes (f # fs))")
      case len: True
      with IH True obtain i o' where i: "find_frag (Suc k) (off - fr_size f) fs = Some (Suc k + i, o')"
          "i < length fs" "o' < fr_size (fs ! i)"
          "off - fr_size f = length (frags_bytes (take i fs)) + o'"
        by auto
      then have "find_frag k off (f # fs) = Some (k + Suc i, o') \<and> Suc i < length (f # fs)
          \<and> o' < fr_size ((f # fs) ! Suc i)
          \<and> off = length (frags_bytes (take (Suc i) (f # fs))) + o'"
        using True by simp
      with len show ?thesis by metis
    next
      case False
      with IH True show ?thesis by (auto split: if_splits)
    qed
  next
    case False
    then show ?thesis by (intro conjI impI exI [of _ 0] exI [of _ off]) auto
  qed
qed auto

lemma frags_bytes_split:
  "i < length fs \<Longrightarrow> frags_bytes fs = frags_bytes (take i fs) @ fr_data (fs ! i) @ frags_bytes (drop (Suc i) fs)"
  by (metis frags_bytes_simps(2,3) id_take_nth_drop)

lemma header_located:
  assumes wf: "pkt_wf p" and n: "0 < n" and len: "off + n \<le> length (pkt_bytes p)"
  obtains i o' q where "find_frag 0 off (pk_frags p) = Some (i, o')"
    "(if o' + n > fr_size (pk_frags p ! i) then pkt_linearize_at i (o' + n) p else Some p) = Some q"
    "pkt_bytes q = pkt_bytes p" "pkt_wf q" "i < length (pk_frags q)" "o' + n \<le> fr_size (pk_frags q ! i)"
    "off = length (frags_bytes (take i (pk_frags q))) + o'"
proof -
  have "off < length (frags_bytes (pk_frags p))"
    using n len by (simp add: pkt_bytes_def)
  then obtain i o' where f: "find_frag 0 off (pk_frags p) = Some (i, o')" "i < length (pk_frags p)"
      "o' < fr_size (pk_frags p ! i)" "off = length (frags_bytes (take i (pk_frags p))) + o'"
    using find_frag_spec [of 0 off "pk_frags p"] by auto
  have rest: "o' + n \<le> length (frags_bytes (drop i (pk_frags p)))"
  proof -
    have "pkt_bytes p = frags_bytes (take i (pk_frags p)) @ frags_bytes (drop i (pk_frags p))"
      by (simp add: pkt_bytes_def flip: frags_bytes_simps(3))
    with len f(4) show ?thesis by simp
  qed
  obtain q where q: "(if o' + n > fr_size (pk_frags p ! i) then pkt_linearize_at i (o' + n) p else Some p)
        = Some q" "pkt_bytes q = pkt_bytes p" "pkt_wf q" "i < length (pk_frags q)"
      "o' + n \<le> fr_size (pk_frags q ! i)"
      "map fr_data (take i (pk_frags q)) = map fr_data (take i (pk_frags p))"
    using pkt_linearize_at_spec [OF wf f(2) _ rest] n wf f(2)
    by (cases "o' + n > fr_size (pk_frags p ! i)") (auto simp: take_map)
  have "off = length (frags_bytes (take i (pk_frags q))) + o'"
    using f(4) q(6) by (simp add: frags_bytes_def)
  with that f(1) q show thesis by blast
qed

lemma pkt_get_header_spec:
  assumes wf: "pkt_wf p" and n: "0 < n"
  shows "\<exists>q. pkt_get_header off n p
      = Some (if off + n \<le> length (pkt_bytes p) then Some (take n (drop off (pkt_bytes p))) else None, q)
      \<and> pkt_bytes q = pkt_bytes p \<and> pkt_wf q"
proof (cases "off + n \<le> length (pkt_bytes p)")
  case True
  obtain i o' q where f: "find_frag 0 off (pk_frags p) = Some (i, o')"
    and q: "(if o' + n > fr_size (pk_frags p ! i) then pkt_linearize_at i (o' + n) p else Some p) = Some q"
      "pkt_bytes q = pkt_bytes p" "pkt_wf q" "i < length (pk_frags q)" "o' + n \<le> fr_size (pk_frags q ! i)"
      "off = length (frags_bytes (take i (pk_frags q))) + o'"
    using header_located [OF wf n True] .
  have "pkt_bytes p = frags_bytes (take i (pk_frags q)) @ fr_data (pk_frags q ! i)
        @ frags_bytes (drop (Suc i) (pk_frags q))"
    using frags_bytes_split [OF q(4)] q(2) by (simp add: pkt_bytes_def)
  then have "take n (drop off (pkt_bytes p)) = take n (drop o' (fr_data (pk_frags q ! i)))"
    using q(5,6) by simp
  with True f q wf show ?thesis
    by (simp add: pkt_get_header_def pkt_wf_def)
next
  case False
  with wf show ?thesis by (auto simp: pkt_get_header_def pkt_wf_def)
qed

lemma pkt_update_header_spec:
  assumes wf: "pkt_wf p" and n: "0 < n" and len: "off + n \<le> length (pkt_bytes p)"
    and f: "length (f (take n (drop off (pkt_bytes p)))) = n"
  shows "\<exists>q. pkt_update_header off n f p = Some (Some q) \<and> pkt_wf q
    \<and> pkt_bytes q = take off (pkt_bytes p) @ f (take n (drop off (pkt_bytes p))) @ drop (off + n) (pkt_bytes p)"
proof -
  obtain i o' q where i: "find_frag 0 off (pk_frags p) = Some (i, o')"
    and q: "(if o' + n > fr_size (pk_frags p ! i) then pkt_linearize_at i (o' + n) p else Some p) = Some q"
      "pkt_bytes q = pkt_bytes p" "pkt_wf q" "i < length (pk_frags q)" "o' + n \<le> fr_size (pk_frags q ! i)"
      "off = length (frags_bytes (take i (pk_frags q))) + o'"
    using header_located [OF wf n len] .
  let ?d = "fr_data (pk_frags q ! i)"
  have b: "pkt_bytes p = frags_bytes (take i (pk_frags q)) @ ?d @ frags_bytes (drop (Suc i) (pk_frags q))"
    using frags_bytes_split [OF q(4)] q(2) by (simp add: pkt_bytes_def)
  then have h: "take n (drop off (pkt_bytes p)) = take n (drop o' ?d)"
    using q(5,6) by simp
  let ?e = "take o' ?d @ f (take n (drop o' ?d)) @ drop (o' + n) ?d"
  let ?q = "q\<lparr>pk_frags := (pk_frags q)[i := (pk_frags q ! i)\<lparr>fr_data := ?e\<rparr>]\<rparr>"
  have u: "pkt_update_header off n f p = Some (Some ?q)"
    using wf len i q(1) by (simp add: pkt_update_header_def pkt_wf_def Let_def)
  have "pkt_bytes ?q = frags_bytes (take i (pk_frags q)) @ ?e @ frags_bytes (drop (Suc i) (pk_frags q))"
    using frags_bytes_split [of i "pk_frags ?q"] q(4) by (simp add: pkt_bytes_def)
  also have "\<dots> = take off (pkt_bytes p) @ f (take n (drop off (pkt_bytes p))) @ drop (off + n) (pkt_bytes p)"
    unfolding h using q(5,6) by (simp add: b)
  finally have e: "pkt_bytes ?q
      = take off (pkt_bytes p) @ f (take n (drop off (pkt_bytes p))) @ drop (off + n) (pkt_bytes p)" .
  then have "length (pkt_bytes ?q) = length (pkt_bytes p)"
    using len f by simp
  then have "pkt_wf ?q"
    using q(2,3) by (simp add: pkt_wf_def)
  with u e show ?thesis by blast
qed

section \<open>Prepending and the headroom\<close>

lemma allocate_headroom_spec:
  assumes wf: "pkt_wf p" and room: "pkt_room p"
  shows "(length hdr > pk_headroom p \<and> allocate_headroom hdr p = Some None) \<or>
    (length hdr \<le> pk_headroom p \<and>
     (\<exists>q. allocate_headroom hdr p = Some (Some q) \<and> pkt_bytes q = hdr @ pkt_bytes p
        \<and> pkt_wf q \<and> pkt_room q))"
proof (cases "length hdr \<le> pk_headroom p")
  case len: True
  let ?p = "p\<lparr>pk_len := pk_len p + length hdr\<rparr>"
  show ?thesis
  proof (cases "using_internal_data p")
    case True
    then obtain f fs off where f: "pk_frags p = f # fs" "fr_base f = Some off" "0 \<le> off"
        "off < int internal_data_size"
      using using_internal_data_cases by blast
    then have i: "int (pk_headroom p) \<le> off" "off + int (fr_size f) \<le> int internal_data_size"
        "list_all fr_outside fs"
      using room by (auto simp: pkt_room_def fr_inside_def fr_outside_def)
    let ?q = "p\<lparr>pk_len := pk_len p + length hdr, pk_headroom := pk_headroom p - length hdr,
        pk_frags := \<lparr>fr_data = hdr @ fr_data f, fr_base = Some (off - int (length hdr))\<rparr> # fs\<rparr>"
    have "allocate_headroom hdr p = Some (Some ?q)"
      using True len f i by (simp add: allocate_headroom_def Let_def)
    moreover have "pkt_bytes ?q = hdr @ pkt_bytes p" "pkt_wf ?q"
      using wf f(1) by (auto simp: pkt_bytes_def pkt_wf_def)
    moreover have "pkt_room ?q"
      using room f i len by (auto simp: pkt_room_def fr_inside_def)
    ultimately show ?thesis using len by blast
  next
    case False
    let ?r = "allocate_if_needed ?p 1"
    let ?q = "?r\<lparr>pk_headroom := pk_headroom p - length hdr,
        pk_frags := \<lparr>fr_data = hdr, fr_base = Some (int internal_data_size - int (length hdr))\<rparr>
          # pk_frags p\<rparr>"
    have r: "pk_frags ?r = pk_frags p" and "Suc (length (pk_frags p)) \<le> pk_allocated ?r"
      using False allocate_if_needed_slots [of ?p 1] by simp_all
    then have "pkt_bytes ?q = hdr @ pkt_bytes p" "pkt_wf ?q"
      using wf by (auto simp: pkt_bytes_def pkt_wf_def)
    moreover have le: "pk_headroom p \<le> internal_data_size"
      using room by (simp add: pkt_room_def)
    then have "allocate_headroom hdr p = Some (Some ?q)"
      using False len r by (simp add: allocate_headroom_def Let_def)
    moreover have "list_all fr_outside (pk_frags p)"
      using False unuse_internal_data_outside [OF room] by (simp add: unuse_internal_data_def)
    then have "pkt_room ?q"
      using le len by (cases hdr) (auto simp: pkt_room_def fr_inside_def fr_outside_def of_nat_diff)
    ultimately show ?thesis using len by blast
  qed
qed (simp add: allocate_headroom_def)

lemma prepend_header_spec:
  assumes wf: "pkt_wf p" and room: "pkt_room p"
  shows "\<exists>q. prepend_header hdr p = Some q \<and> pkt_bytes q = hdr @ pkt_bytes p
           \<and> pkt_wf q \<and> pkt_room q"
proof -
  let ?p = "unuse_internal_data p"
  let ?q = "allocate_if_needed (?p\<lparr>pk_len := pk_len ?p + length hdr\<rparr>) 1"
  let ?r = "?q\<lparr>pk_frags := external hdr # pk_frags ?q\<rparr>"
  have q: "pk_frags ?q = pk_frags ?p" "Suc (length (pk_frags p)) \<le> pk_allocated ?q"
    using allocate_if_needed_slots [of "?p\<lparr>pk_len := pk_len ?p + length hdr\<rparr>" 1] by simp_all
  moreover have b: "frags_bytes (pk_frags ?p) = frags_bytes (pk_frags p)"
    using unuse_internal_data_spec(1) [of p] by (simp add: pkt_bytes_def)
  ultimately have "pkt_bytes ?r = hdr @ pkt_bytes p" "pkt_wf ?r"
    using wf by (auto simp: pkt_bytes_def pkt_wf_def)
  moreover have "pkt_room ?r"
    using unuse_internal_data_room [OF room] unuse_internal_data_outside [OF room] q(1)
    by (simp add: pkt_room_def)
  ultimately show ?thesis
    using allocate_headroom_spec [OF wf room, of hdr]
      allocate_headroom_spec [of ?p hdr] unuse_internal_data_room [OF room] wf
    by (auto simp: prepend_header_def Let_def)
qed

lemma pkt_prepend_frag_spec:
  assumes wf: "pkt_wf p" and room: "pkt_room p"
  shows "\<exists>q. pkt_prepend_frag d p = Some q \<and> pkt_bytes q = d @ pkt_bytes p \<and> pkt_wf q \<and> pkt_room q"
proof -
  let ?p = "unuse_internal_data p"
  let ?q = "allocate_if_needed ?p 1"
  let ?r = "?q\<lparr>pk_len := pk_len ?q + length d, pk_frags := external d # pk_frags ?q\<rparr>"
  have q: "pk_frags ?q = pk_frags ?p" "Suc (length (pk_frags p)) \<le> pk_allocated ?q"
    using allocate_if_needed_slots [of ?p 1] by simp_all
  moreover have b: "frags_bytes (pk_frags ?p) = frags_bytes (pk_frags p)"
    using unuse_internal_data_spec(1) [of p] by (simp add: pkt_bytes_def)
  ultimately have "pkt_bytes ?r = d @ pkt_bytes p" "pkt_wf ?r"
    using wf by (auto simp: pkt_bytes_def pkt_wf_def)
  moreover have "pkt_room ?r"
    using unuse_internal_data_room [OF room] unuse_internal_data_outside [OF room] q(1)
    by (simp add: pkt_room_def)
  ultimately show ?thesis
    using allocate_headroom_spec [OF wf room, of d] by (auto simp: pkt_prepend_frag_def Let_def)
qed

lemma pkt_trim_front_room:
  assumes room: "pkt_room p" and wf: "pkt_wf p" and n: "pkt_trim_front n p = Some q"
  shows "pkt_room q"
proof -
  obtain m gs where t: "trim_front_frags n (pk_frags p) = (m, gs)"
    by fastforce
  obtain ps where ps: "pk_frags p = ps @ gs"
    using trim_front_frags_suffix [OF t] by blast
  have g: "frags_room (pk_headroom p) gs" "pk_headroom p \<le> internal_data_size"
    using room ps by (cases ps; auto simp: pkt_room_def intro: frags_room_outside)+
  have m: "m \<noteq> 0 \<Longrightarrow> gs \<noteq> [] \<and> m < fr_size (hd gs)"
    using trim_front_frags_spec [OF _ t] n wf
    by (auto simp: pkt_trim_front_def pkt_wf_def pkt_bytes_def split: if_splits)
  show ?thesis
  proof (cases gs)
    case Nil
    with n t m g show ?thesis
      by (auto simp: pkt_trim_front_def pkt_room_def Let_def split: if_splits)
  next
    case (Cons f fs)
    then have fs: "list_all fr_outside fs" and len: "\<not> n > pk_len p"
      using g n by (auto simp: pkt_trim_front_def split: if_splits)
    let ?u = "using_internal_data (p\<lparr>pk_len := pk_len p - n, pk_frags := f # fs\<rparr>)"
    consider (out) "fr_outside f" | (ins) "fr_inside (pk_headroom p) f"
      using g Cons by auto
    then show ?thesis
    proof cases
      case out
      then have "\<not> ?u"
        by (auto simp: fr_outside_def using_internal_data_def)
      moreover have "fr_base f = None" if "m \<noteq> 0"
        using m that Cons out by (auto simp: fr_outside_def)
      ultimately show ?thesis
        using n t len Cons out fs
        by (auto simp: pkt_trim_front_def pkt_room_def fr_outside_def Let_def split: if_splits)
    next
      case ins
      then obtain off where off: "fr_base f = Some off" "int (pk_headroom p) \<le> off"
          "off < int internal_data_size" "off + int (fr_size f) \<le> int internal_data_size"
        by (auto simp: fr_inside_def split: option.splits)
      then have "?u"
        by (auto simp: using_internal_data_def)
      then show ?thesis
        using n t len Cons off fs m g(2)
        by (auto simp: pkt_trim_front_def pkt_room_def fr_inside_def Let_def split: if_splits)
    qed
  qed
qed

lemma pkt_append_room:
  assumes "pkt_wf p" "pkt_room p" "pkt_room q"
  shows "pkt_room (pkt_append p q)"
  using assms allocate_if_needed_room [OF assms(2), of "length (pk_frags q)"]
    unuse_internal_data_outside [OF assms(3)]
  by (auto simp: pkt_append_def pkt_room_def Let_def intro: frags_room_append)

section \<open>Sharing\<close>

lemma skip_frags_spec:
  "off \<le> length (frags_bytes fs) \<Longrightarrow>
   \<exists>o' gs. skip_frags off fs = Some (o', gs) \<and> drop off (frags_bytes fs) = drop o' (frags_bytes gs)
     \<and> (o' \<noteq> 0 \<longrightarrow> gs \<noteq> [] \<and> o' < fr_size (hd gs)) \<and> length gs \<le> length fs"
proof (induction off fs rule: skip_frags.induct)
  case (2 off f fs)
  show ?case
  proof (cases "off > 0 \<and> off \<ge> fr_size f")
    case True
    with 2(2) have "off - fr_size f \<le> length (frags_bytes fs)" by auto
    from 2(1) [OF True this] True show ?thesis by (auto intro: le_SucI)
  qed auto
qed auto

lemma share_frags_spec:
  "n \<le> length (drop off (frags_bytes fs)) \<Longrightarrow> (off \<noteq> 0 \<longrightarrow> fs \<noteq> [] \<and> off < fr_size (hd fs)) \<Longrightarrow>
   \<exists>ds. share_frags off n fs = Some ds \<and> concat ds = take n (drop off (frags_bytes fs))
     \<and> length ds \<le> length fs"
proof (induction off n fs rule: share_frags.induct)
  case (2 off n f fs)
  show ?case
  proof (cases "n = 0")
    case False
    let ?k = "min n (fr_size f - off)"
    have off: "off \<le> fr_size f"
      using 2(3) by (cases "off = 0") auto
    with 2(2) have "n - ?k \<le> length (drop 0 (frags_bytes fs))"
      by (auto simp: min_def)
    from 2(1) [OF False refl this] obtain ds where
        ds: "share_frags 0 (n - ?k) fs = Some ds" "length ds \<le> length fs"
        "concat ds = take (n - ?k) (frags_bytes fs)"
      by auto
    with off show ?thesis
      using False by (auto simp: min_def Let_def)
  qed simp
qed auto

lemma pkt_share_spec:
  assumes "pkt_wf p" "off + n \<le> length (pkt_bytes p)"
  shows "\<exists>s q. pkt_share off n p = Some (s, q) \<and> pkt_bytes s = take n (drop off (pkt_bytes p))
    \<and> pkt_bytes q = pkt_bytes p \<and> pkt_wf s \<and> pkt_wf q \<and> pk_offload s = pk_offload p"
proof -
  let ?q = "unuse_internal_data p"
  have b: "frags_bytes (pk_frags ?q) = pkt_bytes p"
    using unuse_internal_data_spec(1) [of p] by (simp add: pkt_bytes_def)
  obtain o' gs where g: "skip_frags off (pk_frags ?q) = Some (o', gs)"
      "drop off (pkt_bytes p) = drop o' (frags_bytes gs)" "length gs \<le> length (pk_frags p)"
      "o' \<noteq> 0 \<longrightarrow> gs \<noteq> [] \<and> o' < fr_size (hd gs)"
    using skip_frags_spec [of off "pk_frags ?q"] assms(2) by (auto simp: b)
  have "n \<le> length (drop o' (frags_bytes gs))"
    using assms(2) by (simp flip: g(2))
  from share_frags_spec [OF this g(4)] obtain ds where
      ds: "share_frags o' n gs = Some ds" "concat ds = take n (drop off (pkt_bytes p))"
        "length ds \<le> length gs"
    using g(2) by auto
  have "length (pk_frags pkt_empty) + length (pk_frags ?q) \<le>
      pk_allocated (allocate_if_needed pkt_empty (length (pk_frags ?q)))"
    by (rule allocate_if_needed_slots)
  then have "length ds \<le> pk_allocated (allocate_if_needed pkt_empty (length (pk_frags p)))"
    using ds(3) g(3) by simp
  moreover have "sum_list (map length ds) = length (concat ds)"
    by (simp add: length_concat)
  ultimately show ?thesis
    using g(1) ds(1,2) assms(1) b
    by (auto simp: pkt_share_def Let_def pkt_wf_def pkt_bytes_def)
qed

lemma pkt_release_concat: "concat (pkt_release p) = pkt_bytes p"
  by (simp add: pkt_release_def pkt_bytes_def frags_bytes_def)

section \<open>The interface of a byte packet\<close>

locale byte_packet =
  fixes wf :: "'p \<Rightarrow> bool" and content :: "'p \<Rightarrow> 'b list" and len :: "'p \<Rightarrow> nat"
    and append :: "'p \<Rightarrow> 'p \<Rightarrow> 'p" and trim_front :: "nat \<Rightarrow> 'p \<Rightarrow> 'p option"
    and trim_back :: "nat \<Rightarrow> 'p \<Rightarrow> 'p option"
  assumes len: "wf p \<Longrightarrow> len p = length (content p)"
    and append: "wf p \<Longrightarrow> wf q \<Longrightarrow> wf (append p q) \<and> content (append p q) = content p @ content q"
    and trim_front: "wf p \<Longrightarrow> n \<le> length (content p) \<Longrightarrow>
          \<exists>q. trim_front n p = Some q \<and> wf q \<and> content q = drop n (content p)"
    and trim_back: "wf p \<Longrightarrow> n \<le> length (content p) \<Longrightarrow>
          \<exists>q. trim_back n p = Some q \<and> wf q \<and> content q = take (length (content p) - n) (content p)"
begin

lemma len_append: "wf p \<Longrightarrow> wf q \<Longrightarrow> len (append p q) = len p + len q"
  using append by (simp add: len)

lemma trim_front_E:
  assumes "wf p" "n \<le> len p"
  obtains q where "trim_front n p = Some q" "wf q" "content q = drop n (content p)" "len q = len p - n"
  using trim_front [of p n] assms that by (auto simp: len)

text \<open>Cutting the head of the second packet off and appending it to the first: the step of
  the packet merger for two overlapping segments.\<close>

lemma splice:
  assumes "wf p" "wf q" "n \<le> len q"
  shows "\<exists>q'. trim_front n q = Some q' \<and> wf (append p q')
           \<and> content (append p q') = content p @ drop n (content q)"
proof -
  obtain q' where "trim_front n q = Some q'" "wf q'" "content q' = drop n (content q)"
    using trim_front_E [OF assms(2,3)] by metis
  with append [OF assms(1)] show ?thesis by auto
qed

end

interpretation pk: byte_packet pkt_wf pkt_bytes pk_len pkt_append pkt_trim_front pkt_trim_back
  using pkt_append_spec pkt_trim_front_spec pkt_trim_back_spec
  by unfold_locales (simp add: pkt_wf_def, blast+)

section \<open>Sequences of operations\<close>

text \<open>The operations a stack layer applies to one packet, and what each does to the bytes.\<close>

datatype pkt_op =
    Append_packet pkt
  | Append_fragment bytes
  | Prepend_header bytes
  | Prepend_fragment bytes
  | Trim_front nat
  | Get_header nat nat
  | Reserve nat

fun pkt_apply :: "pkt_op \<Rightarrow> pkt \<Rightarrow> pkt option" where
  "pkt_apply (Append_packet q) p = Some (pkt_append p q)"
| "pkt_apply (Append_fragment d) p = Some (pkt_append_frag p d)"
| "pkt_apply (Prepend_header d) p = prepend_header d p"
| "pkt_apply (Prepend_fragment d) p = pkt_prepend_frag d p"
| "pkt_apply (Trim_front n) p = pkt_trim_front n p"
| "pkt_apply (Get_header off n) p = map_option snd (pkt_get_header off n p)"
| "pkt_apply (Reserve n) p = Some (pkt_reserve n p)"

fun bytes_apply :: "pkt_op \<Rightarrow> bytes \<Rightarrow> bytes option" where
  "bytes_apply (Append_packet q) b = Some (b @ pkt_bytes q)"
| "bytes_apply (Append_fragment d) b = Some (b @ d)"
| "bytes_apply (Prepend_header d) b = Some (d @ b)"
| "bytes_apply (Prepend_fragment d) b = Some (d @ b)"
| "bytes_apply (Trim_front n) b = (if n \<le> length b then Some (drop n b) else None)"
| "bytes_apply (Get_header off n) b = Some b"
| "bytes_apply (Reserve n) b = Some b"

fun pkt_op_ok :: "pkt_op \<Rightarrow> bool" where
  "pkt_op_ok (Append_packet q) = (pkt_wf q \<and> pkt_room q)"
| "pkt_op_ok (Get_header off n) = (0 < n)"
| "pkt_op_ok _ = True"

fun pkt_run :: "pkt_op list \<Rightarrow> pkt \<Rightarrow> pkt option" where
  "pkt_run [] p = Some p"
| "pkt_run (c # cs) p = (case pkt_apply c p of None \<Rightarrow> None | Some q \<Rightarrow> pkt_run cs q)"

fun bytes_run :: "pkt_op list \<Rightarrow> bytes \<Rightarrow> bytes option" where
  "bytes_run [] b = Some b"
| "bytes_run (c # cs) b = (case bytes_apply c b of None \<Rightarrow> None | Some d \<Rightarrow> bytes_run cs d)"

lemma pkt_append_frag_room: "pkt_room p \<Longrightarrow> pkt_room (pkt_append_frag p d)"
  using allocate_if_needed_room [of p 1]
  by (auto simp: pkt_append_frag_def pkt_room_def Let_def intro: frags_room_append)

lemma pkt_linearize_at_room:
  assumes "pkt_room p" "pkt_linearize_at a n p = Some q"
  shows "pkt_room q"
proof -
  have out: "list_all fr_outside (pk_frags (unuse_internal_data p))"
    by (rule unuse_internal_data_outside [OF assms(1)])
  have drop: "set rest \<subseteq> set fs" if "linearize_take d k fs = Some (b, m, rest)" for d k fs b m rest
    using that
    by (induction d k fs arbitrary: b m rest rule: linearize_take.induct)
      (fastforce split: if_splits)+
  have h: "pk_headroom (unuse_internal_data p) \<le> internal_data_size"
    using unuse_internal_data_room [OF assms(1)] by (simp add: pkt_room_def)
  have "frags_room k (take a (pk_frags (unuse_internal_data p)) @ external b # rest)"
    if "linearize_take n 0 (drop a (pk_frags (unuse_internal_data p))) = Some (b, m, rest)"
      for b m rest k
    by (rule frags_room_outside)
      (use out drop [OF that] in \<open>auto simp: list_all_iff dest: in_set_takeD in_set_dropD\<close>)
  with assms(2) h show ?thesis
    by (auto simp: pkt_linearize_at_def pkt_room_def Let_def
        split: option.splits if_splits)
qed

lemma pkt_get_header_room:
  assumes "pkt_room p" "pkt_get_header off n p = Some (h, q)"
  shows "pkt_room q"
  using assms
  by (auto simp: pkt_get_header_def intro: pkt_linearize_at_room split: if_splits option.splits)

lemma pkt_apply_spec:
  assumes "pkt_wf p" "pkt_room p" "pkt_op_ok c" "bytes_apply c (pkt_bytes p) = Some b"
  shows "\<exists>q. pkt_apply c p = Some q \<and> pkt_bytes q = b \<and> pkt_wf q \<and> pkt_room q"
proof (cases c)
  case (Trim_front n)
  with assms pkt_trim_front_spec [OF assms(1), of n] pkt_trim_front_room [OF assms(2,1), of n]
  show ?thesis by (auto split: if_splits)
next
  case (Get_header off n)
  with assms pkt_get_header_spec [OF assms(1), of n off] pkt_get_header_room [OF assms(2), of off n]
  show ?thesis by fastforce
qed (use assms pkt_append_spec [OF assms(1)] pkt_append_frag_spec [OF assms(1)]
      prepend_header_spec [OF assms(1,2)] pkt_prepend_frag_spec [OF assms(1,2)]
      pkt_append_room [OF assms(1,2)] pkt_append_frag_room [OF assms(2)]
    in \<open>auto simp: pkt_reserve_def\<close>)

lemma pkt_run_spec:
  assumes "pkt_wf p" "pkt_room p" "list_all pkt_op_ok cs" "bytes_run cs (pkt_bytes p) = Some b"
  shows "\<exists>q. pkt_run cs p = Some q \<and> pkt_bytes q = b \<and> pkt_wf q \<and> pkt_room q"
  using assms
proof (induction cs arbitrary: p)
  case (Cons c cs)
  then obtain d where d: "bytes_apply c (pkt_bytes p) = Some d" "bytes_run cs d = Some b"
    by (auto split: option.splits)
  with pkt_apply_spec [of p c d] Cons.prems Cons.IH show ?case by fastforce
qed simp

section \<open>Properties\<close>



text \<open>
  \<open>get_header(offset, size)\<close> of a well-formed packet returns the requested bytes as one
  contiguous run whenever they lie inside the packet, and \<open>nullptr\<close> otherwise; linearizing
  on the way never changes the packet's bytes.
\<close>

theorem get_header_reads_bytes:
  assumes "pkt_wf p" "0 < n"
  shows "\<exists>q. pkt_get_header off n p
      = Some (if off + n \<le> length (pkt_bytes p) then Some (take n (drop off (pkt_bytes p))) else None, q)
      \<and> pkt_bytes q = pkt_bytes p \<and> pkt_wf q"
  by (rule pkt_get_header_spec [OF assms])

theorem get_header_reads_bytes_witness:
  "\<exists>q. pkt_get_header 1 3 (pkt_append_frag (pkt_copy [1, 2]) [3, 4]) = Some (Some [2, 3, 4], q)"
  using get_header_reads_bytes [of "pkt_append_frag (pkt_copy [1, 2]) [3, 4]" 3 1]
    pkt_append_frag_spec [OF pkt_copy_spec(2), of "[1, 2]" "[3, 4]"]
  by (auto simp: pkt_copy_spec eval_nat_numeral)

text \<open>
  \<open>share(offset, len)\<close> inside a well-formed packet yields a well-formed packet with
  exactly that slice of the bytes and the same offload information, and leaves the bytes of
  the original unchanged.
\<close>

theorem share_slices:
  assumes "pkt_wf p" "off + n \<le> length (pkt_bytes p)"
  shows "\<exists>s q. pkt_share off n p = Some (s, q) \<and> pkt_bytes s = take n (drop off (pkt_bytes p))
    \<and> pkt_bytes q = pkt_bytes p \<and> pkt_wf s \<and> pkt_wf q \<and> pk_offload s = pk_offload p"
  by (rule pkt_share_spec [OF assms])

theorem share_slices_witness:
  "\<exists>s q. pkt_share 1 2 (pkt_copy [1, 2, 3, 4]) = Some (s, q) \<and> pkt_bytes s = [2, 3]"
  using share_slices [of "pkt_copy [1, 2, 3, 4]" 1 2] by (auto simp: pkt_copy_spec eval_nat_numeral)

text \<open>
  \<open>trim_back\<close> drops exactly the last bytes and keeps the fragment invariant, but on a
  partly trimmed internal fragment it also adds the trimmed length to \<open>_headroom\<close>, although
  the free space lies behind the data: a full 112-byte internal packet trimmed by 50 bytes
  accepts a 20-byte prepend for which there is no room, and \<open>_frags[0].base\<close> moves in front
  of \<open>_data\<close> (the result \<open>None\<close>).
\<close>

theorem trim_back_breaks_headroom:
  "\<exists>q. pkt_trim_back 50 (pkt_copy (replicate 112 0)) = Some q
     \<and> pkt_bytes q = replicate 62 0 \<and> pkt_wf q \<and> \<not> pkt_room q
     \<and> prepend_header (replicate 20 1) q = None"
proof -
  define f :: frag where "f = \<lparr>fr_data = replicate 62 0, fr_base = Some 0\<rparr>"
  let ?q = "(pkt_copy (replicate 112 0))\<lparr>pk_len := 62, pk_headroom := 50, pk_frags := [f]\<rparr>"
  have "pkt_trim_back 50 (pkt_copy (replicate 112 0)) = Some ?q"
    by (simp add: pkt_trim_back_def pkt_copy_def impl_allocate_def internal_data_size_def
        using_internal_data_def f_def)
  moreover have "prepend_header (replicate 20 1) ?q = None"
    by (simp add: prepend_header_def allocate_headroom_def using_internal_data_def
        internal_data_size_def f_def)
  moreover have "pkt_bytes ?q = replicate 62 0" "pkt_wf ?q" "\<not> pkt_room ?q"
    by (simp_all add: pkt_bytes_def pkt_wf_def pkt_room_def f_def pkt_copy_def impl_allocate_def
        default_nr_frags_def fr_inside_def fr_outside_def internal_data_size_def)
  ultimately show ?thesis by blast
qed

end
