(* ===== verification/Byte_Order.thy ===== *)
theory Byte_Order
  imports NS_Prelude
begin

text \<open>
  \<open>core/byteorder.hh\<close> and \<open>net/byteorder.hh\<close>: conversions between host and network byte
  order on a little-endian host (the DPDK targets are x86-64), and the reads and writes of
  integers at unaligned addresses the header codecs are made of.

  \<open>object_bytes\<close> is the object representation of an integer in host memory and
  \<open>object_value\<close> its inverse, so that \<open>read_be\<close> and \<open>write_be\<close> are the byte copies and swaps
  of the source. The lemmas give them their network-order meaning (\<open>be_nat\<close>, \<open>nat_be\<close>).
  Signed overloads have the same representation and are not modelled separately.
\<close>

section \<open>Conversions\<close>

definition size_of :: "'a::len word \<Rightarrow> nat" where
  "size_of _ = LENGTH('a) div 8"

definition object_bytes :: "'a::len word \<Rightarrow> bytes" where
  "object_bytes x = nat_le (size_of x) (unat x)"

definition object_value :: "bytes \<Rightarrow> 'a::len word" where
  "object_value bs = of_nat (le_nat bs)"

definition bswap :: "'a::len word \<Rightarrow> 'a word" where
  "bswap x = object_value (rev (object_bytes x))"

definition cpu_to_le :: "'a::len word \<Rightarrow> 'a word" where
  "cpu_to_le x = x"

definition le_to_cpu :: "'a::len word \<Rightarrow> 'a word" where
  "le_to_cpu x = x"

definition cpu_to_be :: "'a::len word \<Rightarrow> 'a word" where
  "cpu_to_be x = bswap x"

definition be_to_cpu :: "'a::len word \<Rightarrow> 'a word" where
  "be_to_cpu x = bswap x"

definition ntohq :: "u64 \<Rightarrow> u64" where
  "ntohq v = bswap v"

definition htonq :: "u64 \<Rightarrow> u64" where
  "htonq v = ntohq v"

definition ntoh :: "'a::len word \<Rightarrow> 'a word" where
  "ntoh x = bswap x"

definition hton :: "'a::len word \<Rightarrow> 'a word" where
  "hton x = bswap x"

section \<open>Unaligned reads and writes\<close>

definition read_le :: "bytes \<Rightarrow> 'a::len word" where
  "read_le p = le_to_cpu (object_value (take (size_of (0 :: 'a word)) p))"

definition write_le :: "bytes \<Rightarrow> 'a::len word \<Rightarrow> bytes" where
  "write_le p datum = object_bytes (cpu_to_le datum) @ drop (size_of datum) p"

definition read_be :: "bytes \<Rightarrow> 'a::len word" where
  "read_be p = be_to_cpu (object_value (take (size_of (0 :: 'a word)) p))"

definition write_be :: "bytes \<Rightarrow> 'a::len word \<Rightarrow> bytes" where
  "write_be p datum = object_bytes (cpu_to_be datum) @ drop (size_of datum) p"

definition consume_be :: "bytes \<Rightarrow> 'a::len word \<times> bytes" where
  "consume_be p = (read_be p, drop (size_of (0 :: 'a word)) p)"

text \<open>\<open>produce_be\<close> advances the output pointer: the model returns the bytes it emits.\<close>

definition produce_be :: "'a::len word \<Rightarrow> bytes" where
  "produce_be datum = object_bytes (cpu_to_be datum)"

section \<open>Meaning\<close>

lemma size_of_simps [simp]:
  "size_of (x8 :: u8) = 1" "size_of (x16 :: u16) = 2" "size_of (x32 :: u32) = 4" "size_of (x64 :: u64) = 8"
  by (simp_all add: size_of_def)

lemma length_object_bytes [ns_bytes, simp]: "length (object_bytes x) = size_of x"
  by (simp add: object_bytes_def)

lemma size_of_cong: "size_of (x :: 'a::len word) = size_of (y :: 'a word)"
  by (simp add: size_of_def)

lemma exp_size_of:
  assumes "8 dvd LENGTH('a)"
  shows "256 ^ size_of (x :: 'a::len word) = (2 :: nat) ^ LENGTH('a)"
proof -
  have "(256 :: nat) ^ size_of x = 2 ^ (8 * size_of x)"
    by (simp add: power_mult)
  then show ?thesis using assms by (simp add: size_of_def)
qed

lemma object_value_bytes [ns_bytes]:
  assumes "8 dvd LENGTH('a)"
  shows "object_value (object_bytes x) = (x :: 'a::len word)"
  using unsigned_less [of x]
  by (simp add: object_value_def object_bytes_def le_nat_nat_le exp_size_of [OF assms])

lemma object_bytes_value [ns_bytes]:
  assumes "8 dvd LENGTH('a)" "length bs = size_of (0 :: 'a::len word)"
  shows "object_bytes (object_value bs :: 'a word) = bs"
proof -
  have "le_nat bs < 2 ^ LENGTH('a)"
    using le_nat_bound [of bs] assms by (simp add: exp_size_of)
  then have "unat (object_value bs :: 'a word) = le_nat bs"
    by (simp add: object_value_def unat_of_nat)
  then show ?thesis
    using nat_le_le_nat [of bs] assms(2)
    by (simp add: object_bytes_def size_of_cong [of "object_value bs :: 'a word" 0])
qed

lemma object_bytes_bswap:
  assumes "8 dvd LENGTH('a)"
  shows "object_bytes (bswap x) = rev (object_bytes (x :: 'a::len word))"
  unfolding bswap_def by (rule object_bytes_value [OF assms]) (simp add: size_of_def)

lemma bswap_bswap [ns_bytes]:
  assumes "8 dvd LENGTH('a)"
  shows "bswap (bswap x) = (x :: 'a::len word)"
proof -
  have "bswap (bswap x) = object_value (rev (rev (object_bytes x)))"
    using object_bytes_bswap [OF assms, of x] by (simp add: bswap_def)
  then show ?thesis using object_value_bytes [OF assms] by simp
qed

lemma read_be_eq:
  assumes "8 dvd LENGTH('a)" "size_of (0 :: 'a::len word) \<le> length p"
  shows "unat (read_be p :: 'a word) = be_nat (take (size_of (0 :: 'a word)) p)"
proof -
  let ?b = "take (size_of (0 :: 'a word)) p"
  have "object_bytes (object_value ?b :: 'a word) = ?b"
    by (rule object_bytes_value [OF assms(1)]) (use assms(2) in simp)
  then have "read_be p = (of_nat (be_nat ?b) :: 'a word)"
    by (simp add: read_be_def be_to_cpu_def bswap_def be_nat_def object_value_def)
  moreover have "be_nat ?b < 2 ^ LENGTH('a)"
    using be_nat_bound [of ?b] assms by (simp add: exp_size_of)
  ultimately show ?thesis by (simp add: unat_of_nat)
qed

lemma write_be_eq:
  assumes "8 dvd LENGTH('a)"
  shows "write_be p (x :: 'a::len word) = nat_be (size_of x) (unat x) @ drop (size_of x) p"
  using object_bytes_bswap [OF assms, of x]
  by (simp add: write_be_def cpu_to_be_def nat_be_def object_bytes_def)

lemma object_bytes_cpu_to_be:
  assumes "8 dvd LENGTH('a)"
  shows "object_bytes (cpu_to_be (x :: 'a::len word)) = nat_be (size_of x) (unat x)"
  using object_bytes_bswap [OF assms, of x] by (simp add: cpu_to_be_def nat_be_def object_bytes_def)

lemma read_be_object [ns_bytes]:
  assumes "8 dvd LENGTH('a)"
  shows "read_be (object_bytes (cpu_to_be x) @ p) = (x :: 'a::len word)"
proof -
  have "take (size_of (0 :: 'a word)) (object_bytes (cpu_to_be x) @ p) = object_bytes (cpu_to_be x)"
    by (simp add: size_of_def)
  then show ?thesis
    by (simp add: read_be_def be_to_cpu_def cpu_to_be_def object_value_bytes [OF assms]
        bswap_bswap [OF assms])
qed

lemma read_be_write_be [ns_bytes]:
  "8 dvd LENGTH('a) \<Longrightarrow> read_be (write_be p x) = (x :: 'a::len word)"
  by (simp add: write_be_def read_be_object)

lemma read_le_write_le [ns_bytes]:
  assumes "8 dvd LENGTH('a)"
  shows "read_le (write_le p x) = (x :: 'a::len word)"
proof -
  have "take (size_of (0 :: 'a word)) (write_le p x) = object_bytes x"
    by (simp add: write_le_def cpu_to_le_def size_of_def)
  then show ?thesis
    by (simp add: read_le_def le_to_cpu_def object_value_bytes [OF assms])
qed

lemma write_be_read_be [ns_bytes]:
  assumes "8 dvd LENGTH('a)" "size_of (0 :: 'a::len word) \<le> length p"
  shows "write_be p (read_be p :: 'a word) = p"
proof -
  let ?n = "size_of (0 :: 'a word)"
  have "object_bytes (read_be p :: 'a word) = rev (take ?n p)"
    using assms by (simp add: read_be_def be_to_cpu_def object_bytes_bswap object_bytes_value)
  then have "write_be p (read_be p :: 'a word) = take ?n p @ drop ?n p"
    using assms(1)
    by (simp add: write_be_def cpu_to_be_def object_bytes_bswap
        size_of_cong [of "read_be p :: 'a word" 0])
  then show ?thesis by simp
qed

lemma consume_be_produce_be [ns_bytes]:
  "8 dvd LENGTH('a) \<Longrightarrow> consume_be (produce_be x @ p) = (x :: 'a::len word, p)"
  by (simp add: consume_be_def produce_be_def read_be_object size_of_cong [of "cpu_to_be x" 0])

lemma ntoh_hton [ns_bytes]: "8 dvd LENGTH('a) \<Longrightarrow> ntoh (hton x) = (x :: 'a::len word)"
  by (simp add: ntoh_def hton_def bswap_bswap)

section \<open>Properties\<close>

text \<open>
  Network-order codecs: a \<open>write_be\<close> puts the big-endian digits of the value in front of
  the untouched rest, \<open>read_be\<close> of the result gives the value back, and every buffer long
  enough is restored by writing what was read from it.
\<close>

theorem be_codec_round_trip:
  assumes "8 dvd LENGTH('a)" "size_of (x :: 'a::len word) \<le> length p"
  shows "write_be p x = nat_be (size_of x) (unat x) @ drop (size_of x) p
    \<and> read_be (write_be p x) = x
    \<and> write_be p (read_be p :: 'a word) = p
    \<and> unat (read_be p :: 'a word) = be_nat (take (size_of x) p)
    \<and> ntoh (hton x) = x"
proof -
  have s: "size_of (0 :: 'a word) = size_of x"
    by (rule size_of_cong)
  with assms(2) have "size_of (0 :: 'a word) \<le> length p"
    by simp
  with assms s show ?thesis
    using write_be_eq [OF assms(1), of p x] read_be_write_be [OF assms(1), of p x]
      write_be_read_be [OF assms(1), of p] read_be_eq [OF assms(1), of p] ntoh_hton [OF assms(1), of x]
    by simp
qed

theorem be_codec_round_trip_witness:
  "write_be [0, 0, 9] (0x1234 :: u16) = [0x12, 0x34, 9]
   \<and> read_be (write_be [0, 0, 9] (0x1234 :: u16)) = (0x1234 :: u16)"
proof -
  have d: "nat_be 2 4660 = [0x12, 0x34]"
    by code_simp
  have p: "8 dvd LENGTH(16)" "size_of (0x1234 :: u16) \<le> length ([0, 0, 9] :: bytes)"
    by simp_all
  have "write_be [0, 0, 9] (0x1234 :: u16) = nat_be 2 4660 @ [9]"
    using be_codec_round_trip [OF p, THEN conjunct1] by simp
  moreover have "read_be (write_be [0, 0, 9] (0x1234 :: u16)) = (0x1234 :: u16)"
    using be_codec_round_trip [OF p, THEN conjunct2, THEN conjunct1] .
  ultimately show ?thesis by (simp only: d) simp
qed

end
