(* ===== verification/Tcp_Hdr.thy ===== *)
theory Tcp_Hdr
  imports Byte_Order
begin

text \<open>
  \<open>net/tcp.hh\<close>: sequence-number arithmetic (\<open>tcp_seq\<close>, lines 199-227) and the TCP header
  codec (\<open>tcp_hdr\<close>, lines 229-287).

  A \<open>tcp_seq\<close> is its \<open>raw\<close> 32-bit word; the difference of two sequence numbers is converted
  to \<open>int32_t\<close>, so comparison is modular. The lemmas relate it to positions in an unbounded
  stream: within a window of \<open>2^31\<close> bytes the modular comparison is the real one. The header
  codec is shown to be a bijection between 20-byte strings and header records.
\<close>

section \<open>Sequence numbers\<close>

type_synonym tcp_seq = u32

definition make_seq :: "u32 \<Rightarrow> tcp_seq" where
  "make_seq raw = raw"

definition seq_add :: "tcp_seq \<Rightarrow> u32 \<Rightarrow> tcp_seq" where
  "seq_add s n = s + n"

definition seq_sub :: "tcp_seq \<Rightarrow> u32 \<Rightarrow> tcp_seq" where
  "seq_sub s n = s - n"

definition seq_diff :: "tcp_seq \<Rightarrow> tcp_seq \<Rightarrow> int" where
  "seq_diff s q = sint (s - q)"

definition seq_lt :: "tcp_seq \<Rightarrow> tcp_seq \<Rightarrow> bool" where
  "seq_lt s q \<longleftrightarrow> seq_diff s q < 0"

definition seq_gt :: "tcp_seq \<Rightarrow> tcp_seq \<Rightarrow> bool" where
  "seq_gt s q \<longleftrightarrow> seq_lt q s"

definition seq_le :: "tcp_seq \<Rightarrow> tcp_seq \<Rightarrow> bool" where
  "seq_le s q \<longleftrightarrow> \<not> seq_gt s q"

definition seq_ge :: "tcp_seq \<Rightarrow> tcp_seq \<Rightarrow> bool" where
  "seq_ge s q \<longleftrightarrow> \<not> seq_lt s q"

text \<open>\<open>at base n\<close> is the sequence number of stream position \<open>n\<close>, counted from \<open>base\<close>.\<close>

definition at :: "tcp_seq \<Rightarrow> nat \<Rightarrow> tcp_seq" where
  "at base n = base + of_nat n"

lemma at_0 [simp]: "at base 0 = base"
  by (simp add: at_def)

lemma at_add: "at base (m + n) = at base m + of_nat n"
  by (simp add: at_def add.assoc)

lemma at_seq_add: "seq_add (at base m) (of_nat n) = at base (m + n)"
  by (simp add: at_def seq_add_def)

lemma sint_of_int_small:
  assumes "- (2 ^ 31) \<le> i" "i < 2 ^ 31"
  shows "sint (of_int i :: u32) = i"
  using assms by (simp add: signed_of_int signed_take_bit_int_eq_self)

lemma seq_diff_at:
  assumes "\<bar>int m - int n\<bar> < 2 ^ 31"
  shows "seq_diff (at base m) (at base n) = int m - int n"
proof -
  have "at base m - at base n = of_int (int m - int n)"
    by (simp add: at_def)
  then show ?thesis
    using assms by (simp only: seq_diff_def) (rule sint_of_int_small; linarith)
qed

lemma seq_cmp_at:
  assumes "\<bar>int m - int n\<bar> < 2 ^ 31"
  shows "seq_lt (at base m) (at base n) \<longleftrightarrow> m < n" "seq_le (at base m) (at base n) \<longleftrightarrow> m \<le> n"
    "seq_gt (at base m) (at base n) \<longleftrightarrow> n < m" "seq_ge (at base m) (at base n) \<longleftrightarrow> n \<le> m"
    "at base m = at base n \<longleftrightarrow> m = n"
proof -
  have s: "\<bar>int n - int m\<bar> < 2 ^ 31"
    using assms by linarith
  show "seq_lt (at base m) (at base n) \<longleftrightarrow> m < n" "seq_le (at base m) (at base n) \<longleftrightarrow> m \<le> n"
      "seq_gt (at base m) (at base n) \<longleftrightarrow> n < m" "seq_ge (at base m) (at base n) \<longleftrightarrow> n \<le> m"
    using seq_diff_at [OF assms, of base] seq_diff_at [OF s, of base]
    by (auto simp: seq_lt_def seq_le_def seq_gt_def seq_ge_def)
  show "at base m = at base n \<longleftrightarrow> m = n"
    using seq_diff_at [OF assms, of base] by (auto simp: seq_diff_def)
qed

lemma seq_cmp_window:
  assumes "m < 2 ^ 31" "n < 2 ^ 31"
  shows "\<bar>int m - int n\<bar> < 2 ^ 31"
proof -
  have "int m < 2 ^ 31" "int n < 2 ^ 31"
    using assms by auto
  then show ?thesis by linarith
qed

section \<open>The header\<close>

record tcp_hdr =
  src_port :: u16
  dst_port :: u16
  seq :: tcp_seq
  ack :: tcp_seq
  rsvd1 :: "4 word"
  data_offset :: "4 word"
  f_fin :: bool
  f_syn :: bool
  f_rst :: bool
  f_psh :: bool
  f_ack :: bool
  f_urg :: bool
  rsvd2 :: "2 word"
  window :: u16
  checksum :: u16
  urgent :: u16

definition tcp_hdr_len :: nat where
  "tcp_hdr_len = 20"

definition tcp_hdr_read :: "bytes \<Rightarrow> tcp_hdr" where
  "tcp_hdr_read p =
     \<lparr>src_port = read_be (drop 0 p), dst_port = read_be (drop 2 p),
      seq = read_be (drop 4 p), ack = read_be (drop 8 p),
      rsvd1 = ucast (p ! 12 AND 15), data_offset = ucast (drop_bit 4 (p ! 12)),
      f_fin = bit (p ! 13) 0, f_syn = bit (p ! 13) 1, f_rst = bit (p ! 13) 2,
      f_psh = bit (p ! 13) 3, f_ack = bit (p ! 13) 4, f_urg = bit (p ! 13) 5,
      rsvd2 = ucast (drop_bit 6 (p ! 13) AND 3),
      window = read_be (drop 14 p), checksum = read_be (drop 16 p), urgent = read_be (drop 18 p)\<rparr>"

definition tcp_flags_byte :: "tcp_hdr \<Rightarrow> byte" where
  "tcp_flags_byte h =
     of_bool (f_fin h) OR push_bit 1 (of_bool (f_syn h)) OR push_bit 2 (of_bool (f_rst h))
     OR push_bit 3 (of_bool (f_psh h)) OR push_bit 4 (of_bool (f_ack h))
     OR push_bit 5 (of_bool (f_urg h)) OR push_bit 6 (ucast (rsvd2 h))"

definition write_at :: "nat \<Rightarrow> bytes \<Rightarrow> bytes \<Rightarrow> bytes" where
  "write_at off d p = take off p @ d @ drop (off + length d) p"

definition write_be_at :: "nat \<Rightarrow> 'a::len word \<Rightarrow> bytes \<Rightarrow> bytes" where
  "write_be_at off x p = take off p @ write_be (drop off p) x"

definition tcp_hdr_write :: "tcp_hdr \<Rightarrow> bytes \<Rightarrow> bytes" where
  "tcp_hdr_write h p0 =
     (let p1 = write_be_at 0 (src_port h) p0;
          p2 = write_be_at 2 (dst_port h) p1;
          p3 = write_be_at 4 (seq h) p2;
          p4 = write_be_at 8 (ack h) p3;
          p5 = p4[12 := ucast (rsvd1 h) OR push_bit 4 (ucast (data_offset h))];
          p6 = p5[13 := tcp_flags_byte h];
          p7 = write_be_at 14 (window h) p6;
          p8 = write_be_at 16 (checksum h) p7
      in write_be_at 18 (urgent h) p8)"

definition write_nbo_checksum :: "u16 \<Rightarrow> bytes \<Rightarrow> bytes" where
  "write_nbo_checksum c p = write_at 16 (object_bytes c) p"

lemma write_be_at_eq:
  "write_be_at off x p = take off p @ object_bytes (cpu_to_be x) @ drop (off + size_of x) p"
  by (simp add: write_be_at_def write_be_def add.commute)

lemma write_be_at_step:
  "length a = off \<Longrightarrow> k = off + size_of x \<Longrightarrow>
     write_be_at off x (a @ drop off p) = (a @ object_bytes (cpu_to_be x)) @ drop k p"
  by (simp add: write_be_at_eq add.commute)

lemma list_update_step:
  assumes "length a = off" "off < length p"
  shows "(a @ drop off p)[off := v] = (a @ [v]) @ drop (Suc off) p"
  using assms Cons_nth_drop_Suc [OF assms(2)] by (metis append_Cons append_assoc append_self_conv2
      list_update_length)

lemma tcp_hdr_write_eq:
  assumes "20 \<le> length p"
  shows "tcp_hdr_write h p =
      object_bytes (cpu_to_be (src_port h)) @ object_bytes (cpu_to_be (dst_port h))
    @ object_bytes (cpu_to_be (seq h)) @ object_bytes (cpu_to_be (ack h))
    @ [ucast (rsvd1 h) OR push_bit 4 (ucast (data_offset h)), tcp_flags_byte h]
    @ object_bytes (cpu_to_be (window h)) @ object_bytes (cpu_to_be (checksum h))
    @ object_bytes (cpu_to_be (urgent h)) @ drop 20 p"
proof -
  define a1 where "a1 = object_bytes (cpu_to_be (src_port h))"
  define a2 where "a2 = a1 @ object_bytes (cpu_to_be (dst_port h))"
  define a3 where "a3 = a2 @ object_bytes (cpu_to_be (seq h))"
  define a4 where "a4 = a3 @ object_bytes (cpu_to_be (ack h))"
  define a5 where "a5 = a4 @ [ucast (rsvd1 h) OR push_bit 4 (ucast (data_offset h))]"
  define a6 where "a6 = a5 @ [tcp_flags_byte h]"
  define a7 where "a7 = a6 @ object_bytes (cpu_to_be (window h))"
  define a8 where "a8 = a7 @ object_bytes (cpu_to_be (checksum h))"
  define a9 where "a9 = a8 @ object_bytes (cpu_to_be (urgent h))"
  note defs = a1_def a2_def a3_def a4_def a5_def a6_def a7_def a8_def a9_def
  have len: "length a1 = 2" "length a2 = 4" "length a3 = 8" "length a4 = 12" "length a5 = 13"
      "length a6 = 14" "length a7 = 16" "length a8 = 18"
    by (simp_all add: defs)
  have s1: "write_be_at 0 (src_port h) p = a1 @ drop 2 p"
    unfolding a1_def using write_be_at_step [of "[]" 0 2 "src_port h" p] by simp
  have s2: "write_be_at 2 (dst_port h) (a1 @ drop 2 p) = a2 @ drop 4 p"
    unfolding a2_def by (rule write_be_at_step) (simp_all add: len)
  have s3: "write_be_at 4 (seq h) (a2 @ drop 4 p) = a3 @ drop 8 p"
    unfolding a3_def by (rule write_be_at_step) (simp_all add: len)
  have s4: "write_be_at 8 (ack h) (a3 @ drop 8 p) = a4 @ drop 12 p"
    unfolding a4_def by (rule write_be_at_step) (simp_all add: len)
  have s5: "(a4 @ drop 12 p)[12 := ucast (rsvd1 h) OR push_bit 4 (ucast (data_offset h))] = a5 @ drop 13 p"
    unfolding a5_def using list_update_step [OF len(4), of p] assms by simp
  have s6: "(a5 @ drop 13 p)[13 := tcp_flags_byte h] = a6 @ drop 14 p"
    unfolding a6_def using list_update_step [OF len(5), of p] assms by simp
  have s7: "write_be_at 14 (window h) (a6 @ drop 14 p) = a7 @ drop 16 p"
    unfolding a7_def by (rule write_be_at_step) (simp_all add: len)
  have s8: "write_be_at 16 (checksum h) (a7 @ drop 16 p) = a8 @ drop 18 p"
    unfolding a8_def by (rule write_be_at_step) (simp_all add: len)
  have s9: "write_be_at 18 (urgent h) (a8 @ drop 18 p) = a9 @ drop 20 p"
    unfolding a9_def by (rule write_be_at_step) (simp_all add: len)
  have "tcp_hdr_write h p = a9 @ drop 20 p"
    unfolding tcp_hdr_write_def Let_def s1 s2 s3 s4 s5 s6 s7 s8 s9 ..
  then show ?thesis by (simp add: defs)
qed

text \<open>The fields of a header string at their offsets, and the bit fields of its two flag bytes.\<close>

lemma drop_append_exact: "length a = n \<Longrightarrow> drop (n + m) (a @ b) = drop m b"
  by simp

lemma offset_byte_fields:
  fixes r :: "4 word" and d :: "4 word"
  shows "ucast ((ucast r OR push_bit 4 (ucast d) :: byte) AND 15) = r"
    "ucast (drop_bit 4 (ucast r OR push_bit 4 (ucast d) :: byte)) = d"
proof -
  have m: "(15 :: byte) = mask 4"
    by (simp add: mask_eq_exp_minus_1)
  show "ucast ((ucast r OR push_bit 4 (ucast d) :: byte) AND 15) = r"
    unfolding m by (rule bit_word_eqI) (auto simp: bit_simps)
  show "ucast (drop_bit 4 (ucast r OR push_bit 4 (ucast d) :: byte)) = d"
    by (rule bit_word_eqI) (auto simp: bit_simps dest: bit_imp_le_length)
qed

lemma flags_byte_bits:
  "bit (tcp_flags_byte h) 0 = f_fin h" "bit (tcp_flags_byte h) (Suc 0) = f_syn h"
  "bit (tcp_flags_byte h) 2 = f_rst h" "bit (tcp_flags_byte h) 3 = f_psh h"
  "bit (tcp_flags_byte h) 4 = f_ack h" "bit (tcp_flags_byte h) 5 = f_urg h"
  by (auto simp: tcp_flags_byte_def bit_simps)

lemma flags_byte_rsvd2: "ucast (drop_bit 6 (tcp_flags_byte h) AND 3) = rsvd2 h"
proof -
  have m: "(3 :: byte) = mask 2"
    by (simp add: mask_eq_exp_minus_1)
  show ?thesis
    unfolding m tcp_flags_byte_def
    by (rule bit_word_eqI) (auto simp: bit_simps dest: bit_imp_le_length)
qed

lemma tcp_hdr_read_write:
  assumes "20 \<le> length p"
  shows "tcp_hdr_read (tcp_hdr_write h p) = h"
proof -
  have r: "read_be (object_bytes (cpu_to_be x) @ q) = x" for x :: u16 and q
    by (rule read_be_object) simp
  have r4: "read_be (object_bytes (cpu_to_be x) @ q) = x" for x :: u32 and q
    by (rule read_be_object) simp
  show ?thesis
    unfolding tcp_hdr_write_eq [OF assms] tcp_hdr_read_def
    by (simp add: r r4 nth_append offset_byte_fields flags_byte_bits flags_byte_rsvd2
        del: drop_bit_or)
qed

section \<open>Properties\<close>

text \<open>
  C11. Sequence-number comparison: for any initial sequence number and any two stream
  positions less than \<open>2^31\<close> bytes apart, the modular operators \<open><\<close>, \<open><=\<close>, \<open>>\<close>, \<open>>=\<close>, \<open>==\<close> and
  the difference of \<open>tcp_seq\<close> agree with the order of the positions, across the wrap of the
  32-bit counter.
\<close>

theorem tcp_seq_compare_is_stream_order:
  assumes "\<bar>int m - int n\<bar> < 2 ^ 31"
  shows "seq_diff (at isn m) (at isn n) = int m - int n
    \<and> (seq_lt (at isn m) (at isn n) \<longleftrightarrow> m < n) \<and> (seq_le (at isn m) (at isn n) \<longleftrightarrow> m \<le> n)
    \<and> (seq_gt (at isn m) (at isn n) \<longleftrightarrow> m > n) \<and> (seq_ge (at isn m) (at isn n) \<longleftrightarrow> m \<ge> n)
    \<and> (at isn m = at isn n \<longleftrightarrow> m = n)"
  using seq_cmp_at [OF assms] seq_diff_at [OF assms] by simp

theorem tcp_seq_compare_is_stream_order_witness:
  "seq_lt (at 0xFFFFFFFF 0) (at 0xFFFFFFFF 2) \<and> at 0xFFFFFFFF 2 = 1"
  using tcp_seq_compare_is_stream_order [of 0 2 "0xFFFFFFFF"] by (simp add: at_def)

text \<open>
  TCP header codec: writing a header into any buffer of at least 20 bytes and reading it
  back gives the same header, all bit fields included, and leaves the bytes from offset 20 on
  and the buffer's length unchanged.
\<close>

theorem tcp_hdr_round_trip:
  assumes "tcp_hdr_len \<le> length p"
  shows "tcp_hdr_read (tcp_hdr_write h p) = h
    \<and> drop tcp_hdr_len (tcp_hdr_write h p) = drop tcp_hdr_len p
    \<and> length (tcp_hdr_write h p) = length p"
  using assms tcp_hdr_read_write [of p h] tcp_hdr_write_eq [of p h] by (simp add: tcp_hdr_len_def)

theorem tcp_hdr_round_trip_witness:
  "tcp_hdr_read (tcp_hdr_write (tcp_hdr_read (replicate 20 0x5A)) (replicate 24 0))
     = tcp_hdr_read (replicate 20 0x5A)"
  using tcp_hdr_round_trip [of "replicate 24 0" "tcp_hdr_read (replicate 20 0x5A)"]
  by (simp add: tcp_hdr_len_def)

end
