(* ===== verification/Packet_Merger.thy ===== *)
theory Packet_Merger
  imports Net_Packet Tcp_Hdr
begin

text \<open>
  \<open>net/packet-util.hh\<close>: \<open>packet_merger\<close>, the reassembly buffer of the TCP out-of-order queue
  (\<open>Offset = tcp_seq\<close>) and of IPv4 fragments (\<open>Offset = uint32_t\<close>).

  The template parameter is a record of the offset operations the code uses; \<open>std::map\<close> is a
  list of (key, packet) pairs in the order of the comparator, in which \<open>emplace\<close> leaves an
  equivalent key alone. \<open>None\<close> is a failed assertion inside a packet operation or the
  \<open>abort()\<close> of the merge error.

  The locale \<open>stream_offset\<close> states when an offset type orders positions of a stream; inside
  it \<open>merge\<close> is proved to reassemble: it never aborts, the buffer then covers the union of
  the old segments and the new packet, every byte is that of the stream, and the segments
  are sorted and separated by gaps. Both instantiations interpret the locale.
\<close>

section \<open>The merger\<close>

record 'o offset_ops =
  off_le :: "'o \<Rightarrow> 'o \<Rightarrow> bool"
  off_lt :: "'o \<Rightarrow> 'o \<Rightarrow> bool"
  off_add :: "'o \<Rightarrow> nat \<Rightarrow> 'o"
  off_trim :: "'o \<Rightarrow> 'o \<Rightarrow> nat"

definition tcp_offset_ops :: "tcp_seq offset_ops" where
  "tcp_offset_ops =
     \<lparr>off_le = seq_le, off_lt = seq_lt, off_add = (\<lambda>s n. seq_add s (of_nat n)),
      off_trim = (\<lambda>s q. unat (of_int (seq_diff s q) :: u64))\<rparr>"

definition uint32_offset_ops :: "u32 offset_ops" where
  "uint32_offset_ops =
     \<lparr>off_le = (\<le>), off_lt = (<), off_add = (\<lambda>s n. s + of_nat n), off_trim = (\<lambda>s q. unat (s - q))\<rparr>"

type_synonym 'o segments = "('o \<times> pkt) list"

record 'o packet_merger =
  pm_map :: "'o segments"
  pm_linearizations :: u64

datatype 'o scan_result =
    Have_all
  | Insert_new pkt "'o segments"
  | Merged_into_old "'o segments"

fun scan_cons :: "'o \<times> pkt \<Rightarrow> 'o scan_result \<Rightarrow> 'o scan_result" where
  "scan_cons s Have_all = Have_all"
| "scan_cons s (Insert_new p m) = Insert_new p (s # m)"
| "scan_cons s (Merged_into_old m) = Merged_into_old (s # m)"

text \<open>The first loop: cases 1 to 4 leave it, cases 5 and 6 go on to the next segment.\<close>

fun merge_scan :: "'o offset_ops \<Rightarrow> 'o \<Rightarrow> pkt \<Rightarrow> 'o segments \<Rightarrow> 'o scan_result option" where
  "merge_scan ops beg p [] = Some (Insert_new p [])"
| "merge_scan ops beg p ((seg_beg, seg_pkt) # rest) =
     (let pend = off_add ops beg (pk_len p); seg_end = off_add ops seg_beg (pk_len seg_pkt) in
      if off_le ops seg_beg beg \<and> off_le ops pend seg_end then Some Have_all
      else if off_le ops beg seg_beg \<and> off_le ops seg_end pend then Some (Insert_new p rest)
      else if off_lt ops beg seg_beg \<and> off_le ops seg_beg pend \<and> off_le ops pend seg_end then
        map_option (\<lambda>sp. Insert_new (pkt_append p sp) rest)
          (pkt_trim_front (off_trim ops pend seg_beg) seg_pkt)
      else if off_le ops seg_beg beg \<and> off_le ops beg seg_end \<and> off_lt ops seg_end pend then
        (case pkt_trim_front (off_trim ops seg_end beg) p of
           None \<Rightarrow> None
         | Some q \<Rightarrow> map_option (\<lambda>sp. Merged_into_old ((seg_beg, sp) # rest))
                       (pkt_linearize (pkt_append seg_pkt q)))
      else map_option (scan_cons (seg_beg, seg_pkt)) (merge_scan ops beg p rest))"

fun map_emplace :: "'o offset_ops \<Rightarrow> 'o \<Rightarrow> pkt \<Rightarrow> 'o segments \<Rightarrow> 'o segments" where
  "map_emplace ops k p [] = [(k, p)]"
| "map_emplace ops k p ((k', p') # m) =
     (if off_lt ops k k' then (k, p) # (k', p') # m
      else if off_lt ops k' k then (k', p') # map_emplace ops k p m
      else (k', p') # m)"

text \<open>The second loop, over the map as it is after the first one.\<close>

function merge_adjacent :: "'o offset_ops \<Rightarrow> 'o segments \<Rightarrow> 'o segments option" where
  "merge_adjacent ops [] = Some []"
| "merge_adjacent ops [s] = Some [s]"
| "merge_adjacent ops ((seg_beg, seg_pkt) # (beg, p) # rest) =
     (let seg_end = off_add ops seg_beg (pk_len seg_pkt); pend = off_add ops beg (pk_len p) in
      if off_le ops seg_beg beg \<and> off_le ops beg seg_end \<and> off_lt ops seg_end pend then
        (case pkt_trim_front (off_trim ops seg_end beg) p of
           None \<Rightarrow> None
         | Some q \<Rightarrow> merge_adjacent ops ((seg_beg, pkt_append seg_pkt q) # rest))
      else if off_le ops pend seg_end then merge_adjacent ops ((seg_beg, seg_pkt) # rest)
      else if off_lt ops seg_end beg then
        map_option ((#) (seg_beg, seg_pkt)) (merge_adjacent ops ((beg, p) # rest))
      else None)"
  by pat_completeness auto
termination by (relation "measure (\<lambda>(ops, m). length m)") auto

definition merge :: "'o offset_ops \<Rightarrow> 'o \<Rightarrow> pkt \<Rightarrow> 'o packet_merger \<Rightarrow> 'o packet_merger option" where
  "merge ops offset p pm =
     (case merge_scan ops offset p (pm_map pm) of
        None \<Rightarrow> None
      | Some Have_all \<Rightarrow> Some pm
      | Some (Merged_into_old m) \<Rightarrow>
          map_option (\<lambda>m'. pm\<lparr>pm_map := m', pm_linearizations := pm_linearizations pm + 1\<rparr>)
            (merge_adjacent ops m)
      | Some (Insert_new q m) \<Rightarrow>
          (case pkt_linearize q of
             None \<Rightarrow> None
           | Some q' \<Rightarrow>
               map_option (\<lambda>m'. pm\<lparr>pm_map := m', pm_linearizations := pm_linearizations pm + 1\<rparr>)
                 (merge_adjacent ops (map_emplace ops offset q' m))))"

section \<open>Segments of a stream\<close>

definition piece :: "(nat \<Rightarrow> byte) \<Rightarrow> nat \<Rightarrow> nat \<Rightarrow> bytes" where
  "piece st a b = map st [a..<b]"

lemma length_piece [simp]: "length (piece st a b) = b - a"
  by (simp add: piece_def)

lemma piece_append: "a \<le> b \<Longrightarrow> b \<le> c \<Longrightarrow> piece st a b @ piece st b c = piece st a c"
  by (simp add: piece_def flip: map_append) (metis le_Suc_ex upt_add_eq_append)

lemma drop_piece: "drop n (piece st a b) = piece st (a + n) b"
  by (simp add: piece_def drop_map)

text \<open>A packet holding the bytes of the stream from position \<open>a\<close> to \<open>b\<close>.\<close>

definition holds :: "(nat \<Rightarrow> byte) \<Rightarrow> nat \<Rightarrow> nat \<Rightarrow> pkt \<Rightarrow> bool" where
  "holds st a b p \<longleftrightarrow> pkt_wf p \<and> a \<le> b \<and> pkt_bytes p = piece st a b"

lemma holds_len: "holds st a b p \<Longrightarrow> a + pk_len p = b"
  by (auto simp: holds_def pkt_wf_def)

lemma holds_trim_append:
  assumes p: "holds st a b p" and q: "holds st c d q" and ov: "c \<le> b" "b < d"
  shows "\<exists>q'. pkt_trim_front (b - c) q = Some q' \<and> (a \<le> d \<longrightarrow> holds st a d (pkt_append p q'))"
proof -
  have "b - c \<le> pk_len q"
    using q ov holds_len [OF q] by linarith
  then obtain q' where "pkt_trim_front (b - c) q = Some q'" "pkt_wf (pkt_append p q')"
      "pkt_bytes (pkt_append p q') = pkt_bytes p @ drop (b - c) (pkt_bytes q)"
    using pk.splice [of p q "b - c"] p q by (auto simp: holds_def)
  with p q ov show ?thesis
    by (auto simp: holds_def drop_piece piece_append)
qed

text \<open>Linearizing an empty packet adds an empty fragment, for which a slot must be free.\<close>

definition spare_slot :: "pkt \<Rightarrow> bool" where
  "spare_slot p \<longleftrightarrow> pk_len p \<noteq> 0 \<or> length (pk_frags p) < pk_allocated p"

lemma pkt_linearize_empty:
  assumes "pkt_wf p" "pk_len p = 0" "length (pk_frags p) < pk_allocated p"
  shows "\<exists>q. pkt_linearize p = Some q \<and> pkt_wf q \<and> pkt_bytes q = pkt_bytes p"
proof -
  let ?q = "unuse_internal_data p"
  have e: "linearize_take 0 0 (pk_frags ?q) = Some ([], 0, pk_frags ?q)"
    by (cases "pk_frags ?q") simp_all
  have "frags_bytes (pk_frags ?q) = pkt_bytes p"
    using unuse_internal_data_spec(1) [of p] by (simp add: pkt_bytes_def)
  with assms e show ?thesis
    by (auto simp: pkt_linearize_def pkt_linearize_at_def Let_def pkt_wf_def pkt_bytes_def)
qed

lemma holds_linearize:
  assumes "holds st a b p" "spare_slot p"
  shows "\<exists>q. pkt_linearize p = Some q \<and> holds st a b q"
proof (cases "pk_len p = 0")
  case True
  then show ?thesis
    using pkt_linearize_empty [of p] assms by (auto simp: holds_def spare_slot_def)
next
  case False
  then show ?thesis
    using pkt_linearize_spec [of p] assms by (auto simp: holds_def)
qed

text \<open>Spec-level views of a segment list, for offsets at stream positions \<open>pos\<close> below \<open>lim\<close>.\<close>

definition stop_of :: "('o \<Rightarrow> nat) \<Rightarrow> 'o \<times> pkt \<Rightarrow> nat" where
  "stop_of pos s = pos (fst s) + pk_len (snd s)"

definition stream_seg :: "('o \<Rightarrow> nat) \<Rightarrow> nat \<Rightarrow> (nat \<Rightarrow> byte) \<Rightarrow> 'o \<times> pkt \<Rightarrow> bool" where
  "stream_seg pos lim st s \<longleftrightarrow> holds st (pos (fst s)) (stop_of pos s) (snd s) \<and> stop_of pos s < lim"

definition ordered_by :: "('o \<Rightarrow> nat) \<Rightarrow> 'o segments \<Rightarrow> bool" where
  "ordered_by pos m \<longleftrightarrow> sorted_wrt (\<lambda>s t. pos (fst s) < pos (fst t)) m"

definition separated_by :: "('o \<Rightarrow> nat) \<Rightarrow> 'o segments \<Rightarrow> bool" where
  "separated_by pos m \<longleftrightarrow> sorted_wrt (\<lambda>s t. stop_of pos s < pos (fst t)) m"

definition cover_of :: "('o \<Rightarrow> nat) \<Rightarrow> 'o segments \<Rightarrow> nat set" where
  "cover_of pos m = (\<Union>s \<in> set m. {pos (fst s)..<stop_of pos s})"

section \<open>Offsets that order a stream\<close>

locale stream_offset =
  fixes ops :: "'o offset_ops" and pos :: "'o \<Rightarrow> nat" and lim :: nat
  assumes le: "pos a < lim \<Longrightarrow> pos b < lim \<Longrightarrow> off_le ops a b \<longleftrightarrow> pos a \<le> pos b"
    and lt: "pos a < lim \<Longrightarrow> pos b < lim \<Longrightarrow> off_lt ops a b \<longleftrightarrow> pos a < pos b"
    and add: "pos a + n < lim \<Longrightarrow> pos (off_add ops a n) = pos a + n"
    and trim: "pos b \<le> pos a \<Longrightarrow> pos a < lim \<Longrightarrow> off_trim ops a b = pos a - pos b"
begin

abbreviation "stop \<equiv> stop_of pos"
abbreviation "seg \<equiv> stream_seg pos lim"
abbreviation "ordered \<equiv> ordered_by pos"
abbreviation "separated \<equiv> separated_by pos"
abbreviation "cover \<equiv> cover_of pos"

lemma cover_simps [simp]: "cover [] = {}" "cover (s # m) = {pos (fst s)..<stop s} \<union> cover m"
  by (auto simp: cover_of_def)

lemma ordered_simps [simp]:
  "ordered []" "ordered (s # m) \<longleftrightarrow> (\<forall>t \<in> set m. pos (fst s) < pos (fst t)) \<and> ordered m"
  by (auto simp: ordered_by_def)

lemma separated_simps [simp]:
  "separated []" "separated (s # m) \<longleftrightarrow> (\<forall>t \<in> set m. stop s < pos (fst t)) \<and> separated m"
  by (auto simp: separated_by_def)

lemma seg_less: "seg st s \<Longrightarrow> pos (fst s) \<le> stop s \<and> stop s < lim"
  by (auto simp: stream_seg_def holds_def)

lemma seg_stop: "seg st (k, p) \<Longrightarrow> pos (off_add ops k (pk_len p)) = stop (k, p)"
  using add [of k "pk_len p"] by (auto simp: stream_seg_def stop_of_def)

lemma separated_ordered: "separated m \<Longrightarrow> list_all (seg st) m \<Longrightarrow> ordered m"
  by (induction m) (auto dest!: seg_less)

lemma separated_Cons:
  assumes "separated (t # m)" "list_all (seg st) (t # m)" "stop s < pos (fst t)"
  shows "separated (s # t # m)"
  using assms by (auto dest!: seg_less)

text \<open>Joining a segment with a later, overlapping or adjacent one.\<close>

lemma seg_join:
  assumes s: "seg st (k, p)" and t: "seg st (j, q)" and ov: "pos j \<le> stop (k, p)" "stop (k, p) < stop (j, q)"
  shows "\<exists>q'. pkt_trim_front (off_trim ops (off_add ops k (pk_len p)) j) q = Some q'
    \<and> (pos k \<le> pos j \<longrightarrow> seg st (k, pkt_append p q') \<and> stop (k, pkt_append p q') = stop (j, q))"
proof -
  let ?b = "stop (k, p)" and ?d = "stop (j, q)"
  have hs: "holds st (pos k) ?b p" and ht: "holds st (pos j) ?d q" and l: "?b < lim" "?d < lim"
    using s t by (simp_all add: stream_seg_def)
  have tr: "off_trim ops (off_add ops k (pk_len p)) j = ?b - pos j"
    using trim [of j "off_add ops k (pk_len p)"] seg_stop [OF s] ov(1) l(1) by simp
  from holds_trim_append [OF hs ht ov] obtain q' where
      q': "pkt_trim_front (?b - pos j) q = Some q'"
      "pos k \<le> ?d \<longrightarrow> holds st (pos k) ?d (pkt_append p q')"
    by blast
  have kd: "pos k \<le> ?d"
    using ov(2) by (simp add: stop_of_def)
  then have h: "holds st (pos k) ?d (pkt_append p q')" using q' by blast
  then have "stop (k, pkt_append p q') = ?d"
    using holds_len [OF h] by (simp add: stop_of_def)
  with q' tr h l show ?thesis by (simp add: stream_seg_def)
qed

lemma seg_cmp:
  assumes "seg st (k, p)" "seg st (j, q)"
  shows "off_le ops k j \<longleftrightarrow> pos k \<le> pos j" "off_lt ops k j \<longleftrightarrow> pos k < pos j"
    "off_le ops (off_add ops k (pk_len p)) (off_add ops j (pk_len q)) \<longleftrightarrow> stop (k, p) \<le> stop (j, q)"
    "off_lt ops (off_add ops k (pk_len p)) (off_add ops j (pk_len q)) \<longleftrightarrow> stop (k, p) < stop (j, q)"
    "off_le ops k (off_add ops j (pk_len q)) \<longleftrightarrow> pos k \<le> stop (j, q)"
    "off_lt ops (off_add ops k (pk_len p)) j \<longleftrightarrow> stop (k, p) < pos j"
  using seg_less [OF assms(1)] seg_less [OF assms(2)] seg_stop [OF assms(1)] seg_stop [OF assms(2)]
  by (simp_all add: le lt)

lemma merge_adjacent_spec:
  assumes "list_all (seg st) m" "ordered m"
  shows "\<exists>m'. merge_adjacent ops m = Some m' \<and> list_all (seg st) m' \<and> separated m'
    \<and> cover m' = cover m \<and> (m \<noteq> [] \<longrightarrow> m' \<noteq> [] \<and> fst (hd m') = fst (hd m))
    \<and> fst ` set m' \<subseteq> fst ` set m"
  using assms
proof (induction m rule: measure_induct_rule [of length])
  case (less m)
  consider "m = []" | s where "m = [s]" | k p j q r where "m = (k, p) # (j, q) # r"
    by (metis list.exhaust prod.exhaust)
  then show ?case
  proof cases
    case (3 k p j q r)
    have s: "seg st (k, p)" and t: "seg st (j, q)" and r: "list_all (seg st) r" "ordered r"
        "\<forall>u \<in> set r. pos j < pos (fst u)" and kj: "pos k < pos j"
      using less.prems 3 by auto
    note cmp = seg_cmp [OF s t] seg_cmp [OF t s]
    have "\<forall>u \<in> set r. pos k < pos (fst u)"
      using r kj by auto
    then have ok: "ordered ((k, p') # r)" for p'
      using r by simp
    consider (join) "pos j \<le> stop (k, p)" "stop (k, p) < stop (j, q)"
      | (inside) "stop (j, q) \<le> stop (k, p)" | (gap) "stop (k, p) < pos j" "stop (k, p) < stop (j, q)"
      using seg_less [OF t] by fastforce
    then show ?thesis
    proof cases
      case join
      then obtain q' where q': "pkt_trim_front (off_trim ops (off_add ops k (pk_len p)) j) q = Some q'"
          "seg st (k, pkt_append p q')" "stop (k, pkt_append p q') = stop (j, q)"
        using seg_join [OF s t] kj by auto
      have "cover ((k, pkt_append p q') # r) = cover m"
        using q'(3) join kj seg_less [OF s] unfolding 3 by auto
      moreover obtain m' where "merge_adjacent ops ((k, pkt_append p q') # r) = Some m'"
          "list_all (seg st) m'" "separated m'" "cover m' = cover ((k, pkt_append p q') # r)"
          "m' \<noteq> []" "fst (hd m') = k" "fst ` set m' \<subseteq> insert k (fst ` set r)"
        using less.IH [of "(k, pkt_append p q') # r"] q' r ok 3 by auto
      ultimately show ?thesis
        using q' 3 kj join cmp by (auto simp: Let_def)
    next
      case inside
      then have "cover ((k, p) # r) = cover m"
        using kj unfolding 3 by auto
      moreover obtain m' where "merge_adjacent ops ((k, p) # r) = Some m'"
          "list_all (seg st) m'" "separated m'" "cover m' = cover ((k, p) # r)"
          "m' \<noteq> []" "fst (hd m') = k" "fst ` set m' \<subseteq> insert k (fst ` set r)"
        using less.IH [of "(k, p) # r"] s r ok 3 by auto
      ultimately show ?thesis
        using 3 kj inside cmp by (auto simp: Let_def)
    next
      case gap
      obtain m' where m': "merge_adjacent ops ((j, q) # r) = Some m'" "list_all (seg st) m'"
          "separated m'" "cover m' = cover ((j, q) # r)" "m' \<noteq> []" "fst (hd m') = j"
          "fst ` set m' \<subseteq> insert j (fst ` set r)"
        using less.IH [of "(j, q) # r"] t r 3 by auto
      then have "separated ((k, p) # m')"
        using separated_Cons [of "hd m'" "tl m'" st "(k, p)"] gap by simp
      with gap m' show ?thesis
        using s 3 kj cmp by (auto simp: Let_def)
    qed
  qed (use less.prems in auto)
qed

text \<open>What the first loop has established, by its result.\<close>

fun scan_ok :: "(nat \<Rightarrow> byte) \<Rightarrow> 'o \<Rightarrow> pkt \<Rightarrow> 'o segments \<Rightarrow> 'o scan_result \<Rightarrow> bool" where
  "scan_ok st beg p m Have_all \<longleftrightarrow> {pos beg..<stop (beg, p)} \<subseteq> cover m"
| "scan_ok st beg p m (Insert_new q m') \<longleftrightarrow>
     seg st (beg, q) \<and> list_all (seg st) m' \<and> ordered m' \<and> fst ` set m' \<subseteq> fst ` set m
     \<and> (\<forall>t \<in> set m'. pos (fst t) \<noteq> pos beg) \<and> (spare_slot p \<longrightarrow> spare_slot q)
     \<and> {pos beg..<stop (beg, q)} \<union> cover m' = {pos beg..<stop (beg, p)} \<union> cover m"
| "scan_ok st beg p m (Merged_into_old m') \<longleftrightarrow>
     list_all (seg st) m' \<and> ordered m' \<and> fst ` set m' \<subseteq> fst ` set m
     \<and> cover m' = {pos beg..<stop (beg, p)} \<union> cover m"

lemma scan_ok_cons:
  assumes "scan_ok st beg p m r" "seg st s" "\<forall>t \<in> set m. pos (fst s) < pos (fst t)"
    "pos (fst s) \<noteq> pos beg"
  shows "scan_ok st beg p (s # m) (scan_cons s r)"
proof -
  have *: "\<forall>t \<in> set m'. pos (fst s) < pos (fst t)" if "fst ` set m' \<subseteq> fst ` set m" for m' :: "'o segments"
    using assms(3) that by fastforce
  show ?thesis
    using assms * by (cases r) (auto simp: image_subset_iff)
qed

lemma seg_linearize:
  assumes "seg st (k, p)" "spare_slot p"
  shows "\<exists>q. pkt_linearize p = Some q \<and> seg st (k, q) \<and> stop (k, q) = stop (k, p)"
proof -
  have h: "holds st (pos k) (stop (k, p)) p" "stop (k, p) < lim"
    using assms(1) by (simp_all add: stream_seg_def)
  then obtain q where q: "pkt_linearize p = Some q" "holds st (pos k) (stop (k, p)) q"
    using holds_linearize assms(2) by blast
  then have "stop (k, q) = stop (k, p)"
    using holds_len [OF q(2)] by (simp add: stop_of_def)
  with q h(2) show ?thesis by (simp add: stream_seg_def)
qed

lemma merge_scan_spec:
  assumes "seg st (beg, p)" "list_all (seg st) m" "ordered m"
  shows "\<exists>r. merge_scan ops beg p m = Some r \<and> scan_ok st beg p m r"
  using assms(2,3)
proof (induction m)
  case Nil
  then show ?case using assms(1) by simp
next
  case (Cons s m)
  obtain k q where s: "s = (k, q)" by (cases s)
  have q: "seg st (k, q)" and m: "list_all (seg st) m" "ordered m"
      "\<forall>t \<in> set m. pos k < pos (fst t)"
    using Cons.prems s by auto
  note p = assms(1)
  note cmp = seg_cmp [OF p q] seg_cmp [OF q p] and less = seg_less [OF p] seg_less [OF q]
  let ?e = "stop (beg, p)" and ?f = "stop (k, q)"
  consider (have_all) "pos k \<le> pos beg" "?e \<le> ?f"
    | (more) "pos beg \<le> pos k" "?f \<le> ?e" "\<not> (pos k \<le> pos beg \<and> ?e \<le> ?f)"
    | (before) "pos beg < pos k" "pos k \<le> ?e" "?e < ?f"
    | (after) "pos k < pos beg" "pos beg \<le> ?f" "?f < ?e"
    | (apart) "?e < pos k \<or> ?f < pos beg"
    by fastforce
  then show ?case
  proof cases
    case have_all
    then show ?thesis using cmp by (auto simp: s Let_def)
  next
    case more
    have "\<forall>t \<in> set m. pos (fst t) \<noteq> pos beg"
      using m(3) more(1) by fastforce
    moreover have "{pos beg..<?e} \<union> cover m = {pos beg..<?e} \<union> ({pos k..<?f} \<union> cover m)"
      using more(1,2) by auto
    moreover have "merge_scan ops beg p (s # m) = Some (Insert_new p m)"
      using more cmp by (simp add: s Let_def)
    ultimately show ?thesis using p m by (auto simp: s)
  next
    case before
    obtain q' where q': "pkt_trim_front (off_trim ops (off_add ops beg (pk_len p)) k) q = Some q'"
        "seg st (beg, pkt_append p q')" "stop (beg, pkt_append p q') = ?f"
      using seg_join [OF p q before(2,3)] before(1) by auto
    have "\<forall>t \<in> set m. pos (fst t) \<noteq> pos beg"
      using m(3) before(1) by fastforce
    moreover have "{pos beg..<?f} = {pos beg..<?e} \<union> {pos k..<?f}"
      using before less by auto
    moreover have "spare_slot (pkt_append p q')"
      using q'(3) before by (auto simp: spare_slot_def stop_of_def)
    ultimately show ?thesis using cmp before q' m by (auto simp: s Let_def)
  next
    case after
    obtain p' where p': "pkt_trim_front (off_trim ops (off_add ops k (pk_len q)) beg) p = Some p'"
        "seg st (k, pkt_append q p')" "stop (k, pkt_append q p') = ?e"
      using seg_join [OF q p after(2,3)] after(1) by auto
    obtain l where l: "pkt_linearize (pkt_append q p') = Some l" "seg st (k, l)" "stop (k, l) = ?e"
      using seg_linearize [OF p'(2)] p'(3) after by (auto simp: spare_slot_def stop_of_def)
    have "{pos k..<?e} = {pos beg..<?e} \<union> {pos k..<?f}"
      using after less by auto
    then show ?thesis using cmp after p' l m by (auto simp: s Let_def)
  next
    case apart
    obtain r where r: "merge_scan ops beg p m = Some r" "scan_ok st beg p m r"
      using Cons.IH m by blast
    have "pos k \<noteq> pos beg"
      using apart less by auto
    then have "scan_ok st beg p (s # m) (scan_cons s r)"
      using scan_ok_cons [OF r(2) q] m(3) by (simp add: s)
    moreover have n: "(pos k \<le> pos beg \<and> ?e \<le> ?f) = False" "(pos beg \<le> pos k \<and> ?f \<le> ?e) = False"
        "(pos beg < pos k \<and> pos k \<le> ?e \<and> ?e \<le> ?f) = False"
        "(pos k \<le> pos beg \<and> pos beg \<le> ?f \<and> ?f < ?e) = False"
      using apart less by (simp_all only: fst_conv eq_False) linarith+
    have "merge_scan ops beg p (s # m) = map_option (scan_cons s) (merge_scan ops beg p m)"
      by (simp only: s merge_scan.simps Let_def cmp n if_False)
    ultimately show ?thesis using r(1) by auto
  qed
qed

lemma map_emplace_spec:
  assumes "seg st (k, p)" "list_all (seg st) m" "ordered m" "\<forall>t \<in> set m. pos (fst t) \<noteq> pos k"
  shows "set (map_emplace ops k p m) = insert (k, p) (set m) \<and> ordered (map_emplace ops k p m)"
  using assms(2-)
proof (induction m)
  case (Cons s m)
  obtain j q where s: "s = (j, q)" by (cases s)
  have q: "seg st (j, q)" using Cons.prems s by simp
  show ?case
    using Cons seg_cmp(2) [OF assms(1) q] seg_cmp(2) [OF q assms(1)]
    by (cases "pos k < pos j") (auto simp: s)
qed simp

lemma merge_spec:
  assumes "seg st (beg, p)" "list_all (seg st) (pm_map pm)" "separated (pm_map pm)" "spare_slot p"
  shows "\<exists>pm'. merge ops beg p pm = Some pm' \<and> list_all (seg st) (pm_map pm') \<and> separated (pm_map pm')
    \<and> cover (pm_map pm') = {pos beg..<stop (beg, p)} \<union> cover (pm_map pm)
    \<and> fst ` set (pm_map pm') \<subseteq> insert beg (fst ` set (pm_map pm))"
proof -
  obtain r where r: "merge_scan ops beg p (pm_map pm) = Some r" "scan_ok st beg p (pm_map pm) r"
    using merge_scan_spec [OF assms(1,2)] separated_ordered [OF assms(3,2)] by blast
  show ?thesis
  proof (cases r)
    case Have_all
    with r assms show ?thesis by (auto simp: merge_def)
  next
    case (Merged_into_old m)
    with r obtain m' where "merge_adjacent ops m = Some m'" "list_all (seg st) m'" "separated m'"
        "cover m' = cover m" "fst ` set m' \<subseteq> fst ` set (pm_map pm)"
      using merge_adjacent_spec [of st m] by auto
    with r Merged_into_old show ?thesis by (auto simp: merge_def)
  next
    case (Insert_new q m)
    then have q: "seg st (beg, q)" and m: "list_all (seg st) m" "ordered m"
        "\<forall>t \<in> set m. pos (fst t) \<noteq> pos beg" and sl: "spare_slot q"
      and ks: "fst ` set m \<subseteq> fst ` set (pm_map pm)" and cov: "{pos beg..<stop (beg, q)} \<union> cover m = {pos beg..<stop (beg, p)} \<union> cover (pm_map pm)"
      using r(2) assms(4) by simp_all
    obtain l where l: "pkt_linearize q = Some l" "seg st (beg, l)" "stop (beg, l) = stop (beg, q)"
      using seg_linearize [OF q sl] by blast
    let ?m = "map_emplace ops beg l m"
    have e: "set ?m = insert (beg, l) (set m)" "ordered ?m"
      using map_emplace_spec [OF l(2) m] by simp_all
    have "list_all (seg st) ?m"
      using l(2) m(1) by (simp add: e(1) list_all_iff)
    moreover have "cover ?m = {pos beg..<stop (beg, p)} \<union> cover (pm_map pm)"
      using l(3) cov by (auto simp: cover_of_def e(1))
    moreover from calculation obtain m' where "merge_adjacent ops ?m = Some m'" "list_all (seg st) m'"
        "separated m'" "cover m' = cover ?m" "fst ` set m' \<subseteq> insert beg (fst ` set m)"
      using merge_adjacent_spec [of st ?m] e by auto
    moreover from this(5) ks have "fst ` set m' \<subseteq> insert beg (fst ` set (pm_map pm))"
      by blast
    ultimately show ?thesis
      using r(1) l(1) Insert_new by (auto simp: merge_def)
  qed
qed

end

text \<open>The position of a sequence number after \<open>base\<close>, and how far positions may reach.\<close>

definition seq_pos :: "tcp_seq \<Rightarrow> tcp_seq \<Rightarrow> nat" where
  "seq_pos base a = unat (a - base)"

definition seq_window :: nat where
  "seq_window = 2 ^ 31"

definition frag_window :: nat where
  "frag_window = 2 ^ 32"

interpretation tcp_off: stream_offset tcp_offset_ops "seq_pos base" seq_window for base
proof (unfold_locales, unfold seq_pos_def seq_window_def)
  fix a b :: u32 and n :: nat
  show "off_le tcp_offset_ops a b \<longleftrightarrow> unat (a - base) \<le> unat (b - base)"
    and "off_lt tcp_offset_ops a b \<longleftrightarrow> unat (a - base) < unat (b - base)"
    if "unat (a - base) < 2 ^ 31" "unat (b - base) < 2 ^ 31"
    using seq_cmp_at [OF seq_cmp_window [OF that], of base] by (simp_all add: tcp_offset_ops_def at_def)
  show "unat (off_add tcp_offset_ops a n - base) = unat (a - base) + n"
    if "unat (a - base) + n < 2 ^ 31"
    using that unat_add_of_nat_no_wrap [of "a - base" n]
    by (simp add: tcp_offset_ops_def seq_add_def diff_add_eq)
  show "off_trim tcp_offset_ops a b = unat (a - base) - unat (b - base)"
    if "unat (b - base) \<le> unat (a - base)" "unat (a - base) < 2 ^ 31"
  proof -
    have w: "\<bar>int (unat (a - base)) - int (unat (b - base))\<bar> < 2 ^ 31"
      by (rule seq_cmp_window) (use that in simp_all)
    have "seq_diff a b = int (unat (a - base) - unat (b - base))"
      using seq_diff_at [OF w, of base] that(1) by (simp add: at_def of_nat_diff)
    moreover have "unat (a - base) - unat (b - base) < 2 ^ 64"
      using that(2) by simp
    ultimately show ?thesis
      by (simp add: tcp_offset_ops_def unat_of_nat)
  qed
qed

interpretation frag_off: stream_offset uint32_offset_ops unat frag_window
  by unfold_locales
    (auto simp: frag_window_def uint32_offset_ops_def word_le_nat_alt word_less_nat_alt unat_sub
      unat_add_of_nat_no_wrap)

section \<open>Properties\<close>



text \<open>
  IPv4 fragment reassembly: the same for \<open>uint32_t\<close> offsets, as long as all fragments end
  below \<open>2^32\<close>.
\<close>

theorem fragment_merge_reassembles:
  assumes "stream_seg unat frag_window st (offset, p)" "list_all (stream_seg unat frag_window st) (pm_map pm)"
    and "separated_by unat (pm_map pm)" "spare_slot p"
  shows "\<exists>pm'. merge uint32_offset_ops offset p pm = Some pm'
    \<and> list_all (stream_seg unat frag_window st) (pm_map pm') \<and> separated_by unat (pm_map pm')
    \<and> cover_of unat (pm_map pm')
      = {unat offset..<unat offset + pk_len p} \<union> cover_of unat (pm_map pm)"
  using frag_off.merge_spec [OF assms] by (auto simp: stop_of_def)

theorem fragment_merge_reassembles_witness:
  "\<exists>pm'. merge uint32_offset_ops 2 (pkt_copy [7, 7])
       \<lparr>pm_map = [], pm_linearizations = 0\<rparr> = Some pm' \<and> cover_of unat (pm_map pm') = {2..<4}"
proof -
  have w: "pkt_wf (pkt_copy [7, 7])" "pkt_bytes (pkt_copy [7, 7]) = [7, 7]" "pk_len (pkt_copy [7, 7]) = 2"
    using pkt_copy_spec [of "[7, 7]"] by (simp_all add: pkt_wf_def)
  show ?thesis
    using fragment_merge_reassembles [of "\<lambda>_. 7" 2 "pkt_copy [7, 7]" "\<lparr>pm_map = [], pm_linearizations = 0\<rparr>"]
    by (auto simp: stream_seg_def holds_def stop_of_def piece_def separated_by_def cover_of_def
        frag_window_def spare_slot_def w upt_rec)
qed

end
