(* ===== verification/Flow_Events.thy ===== *)
theory Flow_Events
  imports NS_Prelude
begin

text \<open>
  \<open>netstar/asyncflow/async_flow_util.hh\<close>: the 16-bit event sets an async flow registers,
  a preprocessor generates and the flow filters, and the enums of the async flow.
  Bit 15 is the close event. \<open>async_flow_assert\<close> is compiled out (\<open>ENABLE_AF_ASSERTION\<close> is
  not defined), so the range of an event is the caller's obligation, \<open>user_event\<close>.

  \<open>events_of\<close> reads a storage word as a set of event numbers; every operation is the set
  operation of its name, and the locale \<open>event_mask\<close> is what the flows rely on: a close
  event passes every filter that registrations can build.
\<close>

section \<open>Enums and event sets\<close>

datatype af_side = Client | Server

datatype af_send_recv = Send | Recv

datatype af_action = Forward | Drop | Close_forward | Close_drop

type_synonym est = u16

definition close_mask :: est where
  "close_mask = push_bit 15 1"

definition event_bit :: "nat \<Rightarrow> est" where
  "event_bit ev = push_bit ev 1"

definition user_event :: "nat \<Rightarrow> bool" where
  "user_event ev \<longleftrightarrow> ev < 15"

subsection \<open>registered\_events\<close>

definition unregister_all_events :: est where
  "unregister_all_events = close_mask"

definition register_event :: "nat \<Rightarrow> est \<Rightarrow> est" where
  "register_event ev r = r OR event_bit ev"

definition unregister_event :: "nat \<Rightarrow> est \<Rightarrow> est" where
  "unregister_event ev r = r AND NOT (event_bit ev)"

definition filter_events :: "est \<Rightarrow> est \<Rightarrow> est" where
  "filter_events r ge = r AND ge"

subsection \<open>generated\_events\<close>

definition no_generated_events :: est where
  "no_generated_events = 0"

definition event_happen :: "nat \<Rightarrow> est \<Rightarrow> est" where
  "event_happen ev ge = ge OR event_bit ev"

definition close_event_happen :: "est \<Rightarrow> est" where
  "close_event_happen ge = ge OR close_mask"

definition on_close_event :: "est \<Rightarrow> bool" where
  "on_close_event ge \<longleftrightarrow> ge AND close_mask \<noteq> 0"

definition clear_events :: "est \<Rightarrow> est" where
  "clear_events ge = 0"

subsection \<open>filtered\_events\<close>

definition on_event :: "nat \<Rightarrow> est \<Rightarrow> bool" where
  "on_event ev fe \<longleftrightarrow> fe AND event_bit ev \<noteq> 0"

definition no_event :: "est \<Rightarrow> bool" where
  "no_event fe \<longleftrightarrow> fe = 0"

definition make_close_event :: est where
  "make_close_event = close_mask"

section \<open>As sets\<close>

definition events_of :: "est \<Rightarrow> nat set" where
  "events_of e = {n. bit e n}"

lemma bit_event_bit: "bit (event_bit k) n \<longleftrightarrow> n = k \<and> k < 16"
  unfolding event_bit_def by (subst bit_push_bit_iff) (auto simp: bit_simps)

lemma close_mask_eq: "close_mask = event_bit 15"
  by (simp add: close_mask_def event_bit_def)

lemma and_event_bit_nonzero: "e AND event_bit n \<noteq> 0 \<longleftrightarrow> bit e n"
proof
  assume "e AND event_bit n \<noteq> 0"
  then obtain m where "bit (e AND event_bit n) m"
    by (metis bit_0_eq bit_eqI bot_apply bot_bool_def)
  then show "bit e n" by (auto simp: bit_and_iff bit_event_bit)
next
  assume "bit e n"
  moreover from this have "n < 16"
    using bit_imp_le_length [of e n] by simp
  ultimately have "bit (e AND event_bit n) n"
    by (simp add: bit_and_iff bit_event_bit)
  then show "e AND event_bit n \<noteq> 0"
    by (metis bit_0_eq bot_apply bot_bool_def)
qed

lemma events_of_simps:
  "events_of unregister_all_events = {15}"
  "n < 16 \<Longrightarrow> events_of (register_event n r) = insert n (events_of r)"
  "events_of (unregister_event n r) = events_of r - {n}"
  "events_of (filter_events r g) = events_of r \<inter> events_of g"
  "events_of no_generated_events = {}"
  "n < 16 \<Longrightarrow> events_of (event_happen n g) = insert n (events_of g)"
  "events_of (close_event_happen g) = insert 15 (events_of g)"
  "events_of make_close_event = {15}"
  by (auto simp: events_of_def unregister_all_events_def register_event_def unregister_event_def
      filter_events_def no_generated_events_def event_happen_def close_event_happen_def
      make_close_event_def close_mask_eq bit_and_iff bit_or_iff bit_not_iff_eq bit_event_bit
      dest: bit_imp_le_length)

lemma on_close_event_iff: "on_close_event e \<longleftrightarrow> 15 \<in> events_of e"
  by (simp add: on_close_event_def close_mask_eq and_event_bit_nonzero events_of_def)

lemma on_event_iff: "on_event n e \<longleftrightarrow> n \<in> events_of e"
  by (simp add: on_event_def and_event_bit_nonzero events_of_def)

lemma events_of_inject: "events_of a = events_of b \<longleftrightarrow> a = b"
  unfolding events_of_def by (metis bit_eqI mem_Collect_eq)

lemma no_event_iff: "no_event e \<longleftrightarrow> events_of e = {}"
  using events_of_inject [of e 0] by (simp add: no_event_def) (simp add: events_of_def)

section \<open>What the flows rely on\<close>

text \<open>The masks a flow can have: built from the initial one by registrations of user events.\<close>

inductive registered :: "est \<Rightarrow> bool" where
  init: "registered unregister_all_events"
| reg: "registered r \<Longrightarrow> user_event ev \<Longrightarrow> registered (register_event ev r)"
| unreg: "registered r \<Longrightarrow> user_event ev \<Longrightarrow> registered (unregister_event ev r)"

inductive_cases registered_cases: "registered r"

lemma registered_close: "registered r \<Longrightarrow> 15 \<in> events_of r"
  by (induction rule: registered.induct) (auto simp: events_of_simps user_event_def)

locale event_mask =
  fixes mask :: est
  assumes close_kept: "15 \<in> events_of mask"
begin

lemma close_passes: "on_close_event (filter_events mask g) \<longleftrightarrow> on_close_event g"
  using close_kept by (simp add: on_close_event_iff events_of_simps)

lemma close_not_silent: "on_close_event g \<Longrightarrow> \<not> no_event (filter_events mask g)"
  using close_kept by (auto simp: on_close_event_iff no_event_iff events_of_simps)

end

interpretation initial_mask: event_mask unregister_all_events
  by unfold_locales (simp add: events_of_simps)

lemma registered_event_mask: "registered r \<Longrightarrow> event_mask r"
  by unfold_locales (rule registered_close)

section \<open>Properties\<close>

text \<open>
  Event filtering: with any mask a flow can build by registering and unregistering user
  events, the filtered set reports an event exactly if it was both registered and generated,
  it is empty exactly if no registered event happened, and a close event always passes, so a
  closing preprocessor is never overlooked.
\<close>

theorem filter_reports_registered_events:
  assumes "registered r"
  shows "(\<forall>ev. on_event ev (filter_events r g) \<longleftrightarrow> on_event ev r \<and> on_event ev g)
    \<and> (no_event (filter_events r g) \<longleftrightarrow> (\<forall>ev. \<not> (on_event ev r \<and> on_event ev g)))
    \<and> (on_close_event (filter_events r g) \<longleftrightarrow> on_close_event g)"
proof -
  note close = event_mask.close_passes [OF registered_event_mask [OF assms]]
  show ?thesis
    by (auto simp: close on_event_iff no_event_iff events_of_simps)
qed

theorem filter_reports_registered_events_witness:
  "on_event 3 (filter_events (register_event 3 unregister_all_events) (close_event_happen (event_happen 3 0)))
   \<and> on_close_event (filter_events (register_event 3 unregister_all_events) (close_event_happen (event_happen 3 0)))"
proof -
  have "registered (register_event 3 unregister_all_events)"
    by (intro registered.intros) (simp add: user_event_def)
  from filter_reports_registered_events [OF this, of "close_event_happen (event_happen 3 0)"]
  show ?thesis by (simp add: on_event_iff on_close_event_iff events_of_simps)
qed

end
