(* ===== verification/Work_Unit.thy ===== *)
theory Work_Unit
  imports Flow_Events
begin

text \<open>
  \<open>netstar/asyncflow/async_flow_util.hh\<close> and \<open>async_flow_io.hh\<close>: the state both async-flow
  implementations keep per side (\<open>af_work_unit\<close>) and the two ends a manager has per direction.

  An \<open>rte_packet\<close> is \<open>'p option\<close> (\<open>None\<close> is the null packet). The preprocessor \<open>Ppr\<close> is a
  template parameter: its state is \<open>'s\<close> and its \<open>handle_packet_send\<close>/\<open>handle_packet_recv\<close>,
  which get the packet by reference, are functions to the new state, the packet and the
  generated events. \<open>buffer_q\<close> is the list the circular buffer holds. The loop function is
  user code; only whether one is set matters here, and its completions are steps of the
  environment.
\<close>

type_synonym 'p rte_packet = "'p option"
type_synonym ('s, 'p) ppr_handler = "'s \<Rightarrow> 'p rte_packet \<Rightarrow> 's \<times> 'p rte_packet \<times> est"

record 'p buffered_packet =
  bp_pkt :: "'p rte_packet"
  bp_is_send :: bool

record 'p packet_context =
  pc_pkt :: "'p rte_packet"
  pc_fe :: est
  pc_is_send :: bool

datatype quit_promise = Pending | Fulfilled | Failed

record ('s, 'p, 'k) work_unit =
  wu_ppr :: 's
  wu_quit_pr :: "quit_promise option"
  wu_send_events :: est
  wu_recv_events :: est
  wu_buffer_q :: "'p buffered_packet list"
  wu_flow_key :: "'k option"
  wu_cur_context :: "'p packet_context option"
  wu_loop_fn :: bool
  wu_direction :: nat
  wu_ppr_close :: bool
  wu_is_client :: bool

definition make_work_unit :: "(bool \<Rightarrow> 's) \<Rightarrow> bool \<Rightarrow> nat \<Rightarrow> ('s, 'p, 'k) work_unit" where
  "make_work_unit make_ppr is_client direction =
     \<lparr>wu_ppr = make_ppr is_client, wu_quit_pr = None, wu_send_events = unregister_all_events,
      wu_recv_events = unregister_all_events, wu_buffer_q = [], wu_flow_key = None,
      wu_cur_context = None, wu_loop_fn = False, wu_direction = direction,
      wu_ppr_close = False, wu_is_client = is_client\<rparr>"

text \<open>
  \<open>async_loop_quit_pr->set_value()\<close> and \<open>set_exception()\<close>: on a disengaged optional the
  behaviour is undefined, on a promise already resolved the library asserts.
\<close>

fun set_quit :: "quit_promise \<Rightarrow> quit_promise option \<Rightarrow> quit_promise option" where
  "set_quit v (Some Pending) = Some v"
| "set_quit v _ = None"

section \<open>async\_flow\_io\<close>

record flow_io =
  io_receive_sub :: bool
  io_receive_sub_hook_id :: nat
  io_send_stream :: bool
  io_send_stream_hook_id :: nat

definition make_flow_io :: flow_io where
  "make_flow_io = \<lparr>io_receive_sub = False, io_receive_sub_hook_id = 0,
                   io_send_stream = False, io_send_stream_hook_id = 0\<rparr>"

definition io_receive_from_hookpoint :: "nat \<Rightarrow> flow_io \<Rightarrow> flow_io option" where
  "io_receive_from_hookpoint hook_id io =
     (if io_receive_sub io then None
      else let io' = io\<lparr>io_receive_sub := True, io_receive_sub_hook_id := hook_id\<rparr>
           in if io_send_stream io' \<and> io_receive_sub_hook_id io' \<noteq> io_send_stream_hook_id io'
              then None else Some io')"

definition io_send_to_hookpoint :: "nat \<Rightarrow> flow_io \<Rightarrow> flow_io option" where
  "io_send_to_hookpoint hook_id io =
     (if io_send_stream io then None
      else let io' = io\<lparr>io_send_stream := True\<rparr>
           in if io_receive_sub io' \<and> io_receive_sub_hook_id io' \<noteq> io_send_stream_hook_id io'
              then None else Some io')"

section \<open>Properties\<close>

text \<open>
  Connecting both ends of one direction to the same hook succeeds only for hook 0:
  \<open>send_to_hookpoint\<close> never stores the hook id it is given, so for every other hook the
  consistency assertion fails, whichever end is connected first.
\<close>

theorem same_hook_both_ends_fails_unless_zero:
  "((case io_receive_from_hookpoint hook_id make_flow_io of
       None \<Rightarrow> None | Some io \<Rightarrow> io_send_to_hookpoint hook_id io) \<noteq> None \<longleftrightarrow> hook_id = 0)
   \<and> ((case io_send_to_hookpoint hook_id make_flow_io of
       None \<Rightarrow> None | Some io \<Rightarrow> io_receive_from_hookpoint hook_id io) \<noteq> None \<longleftrightarrow> hook_id = 0)"
  by (simp add: io_receive_from_hookpoint_def io_send_to_hookpoint_def make_flow_io_def)

end
