(* ===== verification/SD_Async_Flow.thy ===== *)
theory SD_Async_Flow
  imports Work_Unit
begin

text \<open>
  \<open>netstar/asyncflow/sd_async_flow.hh\<close>: the single-direction async flow, NetStar's
  abstraction of a stateful per-flow packet loop, and its manager.

  A flow is the record of \<open>sd_async_flow_impl\<close>. Its calls into the manager are effects it
  accumulates: the packets it sends (with their direction) and the flow keys it removes from
  the table; the manager applies them after each call. The user's loop function runs between
  an invocation and its completion; every invocation is the last action of the function that
  makes it, so a completion (even an immediate one) is a step of its own: \<open>loop_fn_post_handler\<close>
  with the returned action, or \<open>async_loop_exception_handler\<close>. \<open>async_flow_assert\<close> is compiled
  out. \<open>None\<close> is undefined behaviour or an exception out of the reactor (a disengaged optional).

  Reference counting is not modelled: a flow stays in \<open>impls\<close> for good.
\<close>

section \<open>The flow\<close>

record ('s, 'p, 'k) sd_flow =
  sd_client :: "('s, 'p, 'k) work_unit"
  sd_reverse_direction :: nat
  sd_ic_destroyed :: bool
  sd_flow_key_hash :: u64
  sd_sent :: "(nat \<times> 'p) list"
  sd_removed :: "'k list"

definition upd_client :: "(('s, 'p, 'k) work_unit \<Rightarrow> ('s, 'p, 'k) work_unit) \<Rightarrow>
    ('s, 'p, 'k) sd_flow \<Rightarrow> ('s, 'p, 'k) sd_flow" where
  "upd_client g f = f\<lparr>sd_client := g (sd_client f)\<rparr>"

definition get_reverse_direction :: "nat \<Rightarrow> nat" where
  "get_reverse_direction direction = (if direction = 0 then 1 else 0)"

definition make_sd_flow :: "(bool \<Rightarrow> 's) \<Rightarrow> ('k \<Rightarrow> u64) \<Rightarrow> nat \<Rightarrow> 'k \<Rightarrow> ('s, 'p, 'k) sd_flow" where
  "make_sd_flow make_ppr hash direction key =
     \<lparr>sd_client = (make_work_unit make_ppr True direction)\<lparr>wu_flow_key := Some key\<rparr>,
      sd_reverse_direction = get_reverse_direction direction,
      sd_ic_destroyed = False, sd_flow_key_hash = hash key, sd_sent = [], sd_removed = []\<rparr>"

definition sd_close_ppr_and_remove_flow_key :: "('s, 'p, 'k) sd_flow \<Rightarrow> ('s, 'p, 'k) sd_flow" where
  "sd_close_ppr_and_remove_flow_key f0 =
     (let f = upd_client (\<lambda>w. w\<lparr>wu_ppr_close := True\<rparr>) f0 in
      case wu_flow_key (sd_client f) of
        None \<Rightarrow> f
      | Some k \<Rightarrow> upd_client (\<lambda>w. w\<lparr>wu_flow_key := None\<rparr>) (f\<lparr>sd_removed := sd_removed f @ [k]\<rparr>))"

definition sd_preprocess_packet :: "('s, 'p) ppr_handler \<Rightarrow> 'p rte_packet \<Rightarrow> ('s, 'p, 'k) sd_flow \<Rightarrow>
    ('s, 'p, 'k) sd_flow \<times> 'p rte_packet \<times> est" where
  "sd_preprocess_packet handle pkt f0 =
     (let (s, pkt', ge) = handle (wu_ppr (sd_client f0)) pkt;
          f = upd_client (\<lambda>w. w\<lparr>wu_ppr := s\<rparr>) f0;
          fe = filter_events (wu_send_events (sd_client f)) ge
      in (if on_close_event fe then sd_close_ppr_and_remove_flow_key f else f, pkt', fe))"

definition sd_internal_packet_forward :: "'p rte_packet \<Rightarrow> ('s, 'p, 'k) sd_flow \<Rightarrow> ('s, 'p, 'k) sd_flow" where
  "sd_internal_packet_forward pkt f =
     (case pkt of
        None \<Rightarrow> f
      | Some p \<Rightarrow> f\<lparr>sd_sent := sd_sent f @ [(sd_reverse_direction f, p)]\<rparr>)"

definition sd_preprocess_and_forward :: "('s, 'p) ppr_handler \<Rightarrow> 'p rte_packet \<Rightarrow> ('s, 'p, 'k) sd_flow \<Rightarrow>
    ('s, 'p, 'k) sd_flow" where
  "sd_preprocess_and_forward handle pkt f0 =
     (let (s, pkt', ge) = handle (wu_ppr (sd_client f0)) pkt;
          f = upd_client (\<lambda>w. w\<lparr>wu_ppr := s\<rparr>) f0
      in sd_internal_packet_forward pkt'
           (if on_close_event ge then sd_close_ppr_and_remove_flow_key f else f))"

text \<open>The draining loop of \<open>close_async_loop\<close>.\<close>

fun sd_flush :: "('s, 'p) ppr_handler \<Rightarrow> 'p buffered_packet list \<Rightarrow> ('s, 'p, 'k) sd_flow \<Rightarrow>
    ('s, 'p, 'k) sd_flow" where
  "sd_flush handle [] f = upd_client (\<lambda>w. w\<lparr>wu_buffer_q := []\<rparr>) f"
| "sd_flush handle (b # bs) f = sd_flush handle bs (sd_preprocess_and_forward handle (bp_pkt b) f)"

definition sd_close_async_loop :: "('s, 'p) ppr_handler \<Rightarrow> ('s, 'p, 'k) sd_flow \<Rightarrow>
    ('s, 'p, 'k) sd_flow option" where
  "sd_close_async_loop handle f0 =
     (let f1 = upd_client (\<lambda>w. w\<lparr>wu_loop_fn := False\<rparr>) f0;
          f2 = sd_flush handle (wu_buffer_q (sd_client f1)) f1
      in case set_quit Fulfilled (wu_quit_pr (sd_client f2)) of
           None \<Rightarrow> None
         | Some _ \<Rightarrow> Some (upd_client (\<lambda>w. w\<lparr>wu_quit_pr := None\<rparr>) f2))"

definition sd_emplace_context :: "'p rte_packet \<Rightarrow> est \<Rightarrow> bool \<Rightarrow> ('s, 'p, 'k) sd_flow \<Rightarrow>
    ('s, 'p, 'k) sd_flow" where
  "sd_emplace_context pkt fe is_send =
     upd_client (\<lambda>w. w\<lparr>wu_cur_context := Some \<lparr>pc_pkt = pkt, pc_fe = fe, pc_is_send = is_send\<rparr>\<rparr>)"

text \<open>The loop of \<open>loop_fn_post_handler\<close> over the buffered packets, with its tail.\<close>

fun sd_resume :: "('s, 'p) ppr_handler \<Rightarrow> 'p buffered_packet list \<Rightarrow> ('s, 'p, 'k) sd_flow \<Rightarrow>
    ('s, 'p, 'k) sd_flow" where
  "sd_resume handle [] f0 =
     (let f = upd_client (\<lambda>w. w\<lparr>wu_buffer_q := []\<rparr>) f0
      in if wu_ppr_close (sd_client f) then sd_emplace_context None make_close_event True f else f)"
| "sd_resume handle (b # bs) f0 =
     (let (f, pkt, fe) = sd_preprocess_packet handle (bp_pkt b) f0
      in if no_event fe then sd_resume handle bs (sd_internal_packet_forward pkt f)
         else sd_emplace_context pkt fe (bp_is_send b) (upd_client (\<lambda>w. w\<lparr>wu_buffer_q := bs\<rparr>) f))"

definition sd_loop_fn_post_handler :: "('s, 'p) ppr_handler \<Rightarrow> af_action \<Rightarrow> ('s, 'p, 'k) sd_flow \<Rightarrow>
    ('s, 'p, 'k) sd_flow option" where
  "sd_loop_fn_post_handler handle action f0 =
     (case wu_cur_context (sd_client f0) of
        None \<Rightarrow> None
      | Some context \<Rightarrow>
          (let f1 = (if action = Forward \<or> action = Close_forward
                     then sd_internal_packet_forward (pc_pkt context) f0 else f0);
               f2 = upd_client (\<lambda>w. w\<lparr>wu_cur_context := None\<rparr>) f1
           in if action = Close_drop \<or> action = Close_forward then sd_close_async_loop handle f2
              else Some (sd_resume handle (wu_buffer_q (sd_client f2)) f2)))"

definition sd_async_loop_exception_handler :: "('s, 'p, 'k) sd_flow \<Rightarrow> ('s, 'p, 'k) sd_flow option" where
  "sd_async_loop_exception_handler f0 =
     (let f1 = upd_client (\<lambda>w. w\<lparr>wu_cur_context := None, wu_loop_fn := False, wu_buffer_q := []\<rparr>)
                 (f0\<lparr>sd_ic_destroyed := False\<rparr>)
      in case set_quit Failed (wu_quit_pr (sd_client f1)) of
           None \<Rightarrow> None
         | Some q \<Rightarrow> Some (upd_client (\<lambda>w. w\<lparr>wu_quit_pr := Some q\<rparr>) f1))"

definition sd_destroy_initial_context :: "('s, 'p, 'k) sd_flow \<Rightarrow> ('s, 'p, 'k) sd_flow" where
  "sd_destroy_initial_context f = f\<lparr>sd_ic_destroyed := True\<rparr>"

definition sd_handle_packet_send :: "('s, 'p) ppr_handler \<Rightarrow> 'p rte_packet \<Rightarrow> ('s, 'p, 'k) sd_flow \<Rightarrow>
    ('s, 'p, 'k) sd_flow" where
  "sd_handle_packet_send handle pkt f0 =
     (if wu_ppr_close (sd_client f0) \<or> \<not> sd_ic_destroyed f0 then f0
      else if wu_loop_fn (sd_client f0) then
        (if wu_cur_context (sd_client f0) = None then
           (let (f, pkt', fe) = sd_preprocess_packet handle pkt f0
            in if no_event fe then sd_internal_packet_forward pkt' f
               else sd_emplace_context pkt' fe True f)
         else upd_client (\<lambda>w. w\<lparr>wu_buffer_q := wu_buffer_q w @ [\<lparr>bp_pkt = pkt, bp_is_send = True\<rparr>]\<rparr>) f0)
      else sd_preprocess_and_forward handle pkt f0)"

definition sd_ppr_passive_close :: "('s, 'p, 'k) sd_flow \<Rightarrow> ('s, 'p, 'k) sd_flow" where
  "sd_ppr_passive_close f0 =
     (let f = sd_close_ppr_and_remove_flow_key f0
      in if wu_loop_fn (sd_client f) \<and> wu_cur_context (sd_client f) = None
         then sd_emplace_context None make_close_event True f else f)"

definition sd_event_registration :: "nat \<Rightarrow> ('s, 'p, 'k) sd_flow \<Rightarrow> ('s, 'p, 'k) sd_flow" where
  "sd_event_registration ev = upd_client (\<lambda>w. w\<lparr>wu_send_events := register_event ev (wu_send_events w)\<rparr>)"

definition sd_event_unregistration :: "nat \<Rightarrow> ('s, 'p, 'k) sd_flow \<Rightarrow> ('s, 'p, 'k) sd_flow" where
  "sd_event_unregistration ev =
     upd_client (\<lambda>w. w\<lparr>wu_send_events := unregister_event ev (wu_send_events w)\<rparr>)"

definition sd_run_async_loop :: "('s, 'p, 'k) sd_flow \<Rightarrow> ('s, 'p, 'k) sd_flow" where
  "sd_run_async_loop = upd_client (\<lambda>w. w\<lparr>wu_loop_fn := True, wu_quit_pr := Some Pending\<rparr>)"

text \<open>\<open>sd_async_flow\<close>, the handle of the user: what it reads from the current context.\<close>

definition sd_cur_packet :: "('s, 'p, 'k) sd_flow \<Rightarrow> 'p rte_packet option" where
  "sd_cur_packet f = map_option pc_pkt (wu_cur_context (sd_client f))"

definition sd_cur_event :: "('s, 'p, 'k) sd_flow \<Rightarrow> est option" where
  "sd_cur_event f = map_option pc_fe (wu_cur_context (sd_client f))"

section \<open>The manager\<close>

record 'p sd_queue_item =
  qi_impl :: nat
  qi_pkt :: "'p rte_packet"
  qi_direction :: nat

record async_flow_config =
  max_event_context_queue_size :: nat
  new_flow_queue_size :: nat
  max_flow_table_size :: nat
  flow_expire_seconds :: nat

text \<open>
  \<open>sd_held\<close> are the initial contexts taken from the queue that the user has not destroyed yet;
  \<open>sd_out\<close> is what was produced on the send streams.
\<close>

record ('s, 'p, 'k) sd_manager =
  sd_flow_table :: "('k \<times> nat) list"
  sd_impls :: "('s, 'p, 'k) sd_flow list"
  sd_new_ic_q :: "'p sd_queue_item list"
  sd_held :: "'p sd_queue_item list"
  sd_out :: "(nat \<times> 'p) list"

definition sd_init :: "('s, 'p, 'k) sd_manager" where
  "sd_init = \<lparr>sd_flow_table = [], sd_impls = [], sd_new_ic_q = [], sd_held = [], sd_out = []\<rparr>"

text \<open>Store a flow after one of its functions ran and apply its calls of \<open>send\<close> and
  \<open>remove_mapping_on_flow_table\<close>.\<close>

definition sd_apply :: "nat \<Rightarrow> ('s, 'p, 'k) sd_flow \<Rightarrow> ('s, 'p, 'k) sd_manager \<Rightarrow> ('s, 'p, 'k) sd_manager" where
  "sd_apply i f m =
     m\<lparr>sd_impls := (sd_impls m)[i := f\<lparr>sd_sent := [], sd_removed := []\<rparr>],
       sd_flow_table := filter (\<lambda>e. fst e \<notin> set (sd_removed f)) (sd_flow_table m),
       sd_out := sd_out m @ sd_sent f\<rparr>"

definition sd_receive :: "async_flow_config \<Rightarrow> (bool \<Rightarrow> 's) \<Rightarrow> ('k \<Rightarrow> u64) \<Rightarrow> ('s, 'p) ppr_handler \<Rightarrow>
    nat \<Rightarrow> 'p rte_packet \<Rightarrow> 'k \<Rightarrow> ('s, 'p, 'k) sd_manager \<Rightarrow> ('s, 'p, 'k) sd_manager" where
  "sd_receive cfg make_ppr hash handle direction pkt key m =
     (case map_of (sd_flow_table m) key of
        None \<Rightarrow>
          (if length (sd_new_ic_q m) < new_flow_queue_size cfg
              \<and> length (sd_flow_table m) < max_flow_table_size cfg
           then let i = length (sd_impls m) in
                m\<lparr>sd_impls := sd_impls m @ [make_sd_flow make_ppr hash direction key],
                  sd_flow_table := (key, i) # sd_flow_table m,
                  sd_new_ic_q := sd_new_ic_q m @ [\<lparr>qi_impl = i, qi_pkt = pkt, qi_direction = direction\<rparr>]\<rparr>
           else m)
      | Some i \<Rightarrow> sd_apply i (sd_handle_packet_send handle pkt (sd_impls m ! i)) m)"

definition sd_get_initial_context :: "('s, 'p, 'k) sd_manager \<Rightarrow> ('s, 'p, 'k) sd_manager option" where
  "sd_get_initial_context m =
     (case sd_new_ic_q m of
        [] \<Rightarrow> None
      | q # qs \<Rightarrow> Some (m\<lparr>sd_new_ic_q := qs, sd_held := sd_held m @ [q]\<rparr>))"

definition peek_active_flow_num :: "('s, 'p, 'k) sd_manager \<Rightarrow> nat" where
  "peek_active_flow_num m = length (sd_flow_table m)"

text \<open>\<open>~sd_af_initial_context\<close>\<close>

definition sd_end_initial_context :: "('s, 'p) ppr_handler \<Rightarrow> nat \<Rightarrow> ('s, 'p, 'k) sd_manager \<Rightarrow>
    ('s, 'p, 'k) sd_manager" where
  "sd_end_initial_context handle n m =
     (let q = sd_held m ! n; i = qi_impl q
      in sd_apply i (sd_handle_packet_send handle (qi_pkt q) (sd_destroy_initial_context (sd_impls m ! i)))
           (m\<lparr>sd_held := take n (sd_held m) @ drop (Suc n) (sd_held m)\<rparr>))"

section \<open>Steps of the system\<close>

datatype ('p, 'k) sd_event =
    Receive nat "'p rte_packet" 'k
  | Get_initial_context
  | End_initial_context nat
  | Loop_returns nat af_action
  | Loop_fails nat
  | Timer_closes nat
  | Register nat nat
  | Unregister nat nat
  | Run_loop nat

text \<open>
  What the reactor and a user who keeps the interface's contract may do: destroy a context it
  holds, complete an invocation that is outstanding, register events below 15, and start a
  loop under the condition of the assertion in \<open>run_async_loop\<close>.
\<close>

fun sd_enabled :: "('p, 'k) sd_event \<Rightarrow> ('s, 'p, 'k) sd_manager \<Rightarrow> bool" where
  "sd_enabled (Receive d pkt k) m = True"
| "sd_enabled Get_initial_context m = (sd_new_ic_q m \<noteq> [])"
| "sd_enabled (End_initial_context n) m = (n < length (sd_held m))"
| "sd_enabled (Loop_returns i a) m =
     (i < length (sd_impls m) \<and> wu_cur_context (sd_client (sd_impls m ! i)) \<noteq> None)"
| "sd_enabled (Loop_fails i) m =
     (i < length (sd_impls m) \<and> wu_cur_context (sd_client (sd_impls m ! i)) \<noteq> None)"
| "sd_enabled (Timer_closes i) m = (i < length (sd_impls m))"
| "sd_enabled (Register i ev) m = (i < length (sd_impls m) \<and> user_event ev)"
| "sd_enabled (Unregister i ev) m = (i < length (sd_impls m) \<and> user_event ev)"
| "sd_enabled (Run_loop i) m =
     (i < length (sd_impls m) \<and>
      (let w = sd_client (sd_impls m ! i)
       in \<not> wu_loop_fn w \<and> wu_cur_context w = None \<and> wu_quit_pr w = None \<and> \<not> wu_ppr_close w))"

fun sd_exec :: "async_flow_config \<Rightarrow> (bool \<Rightarrow> 's) \<Rightarrow> ('k \<Rightarrow> u64) \<Rightarrow> ('s, 'p) ppr_handler \<Rightarrow>
    ('p, 'k) sd_event \<Rightarrow> ('s, 'p, 'k) sd_manager \<Rightarrow> ('s, 'p, 'k) sd_manager option" where
  "sd_exec cfg mk hash handle (Receive d pkt k) m = Some (sd_receive cfg mk hash handle d pkt k m)"
| "sd_exec cfg mk hash handle Get_initial_context m = sd_get_initial_context m"
| "sd_exec cfg mk hash handle (End_initial_context n) m = Some (sd_end_initial_context handle n m)"
| "sd_exec cfg mk hash handle (Loop_returns i a) m =
     map_option (\<lambda>f. sd_apply i f m) (sd_loop_fn_post_handler handle a (sd_impls m ! i))"
| "sd_exec cfg mk hash handle (Loop_fails i) m =
     map_option (\<lambda>f. sd_apply i f m) (sd_async_loop_exception_handler (sd_impls m ! i))"
| "sd_exec cfg mk hash handle (Timer_closes i) m =
     Some (sd_apply i (sd_ppr_passive_close (sd_impls m ! i)) m)"
| "sd_exec cfg mk hash handle (Register i ev) m =
     Some (sd_apply i (sd_event_registration ev (sd_impls m ! i)) m)"
| "sd_exec cfg mk hash handle (Unregister i ev) m =
     Some (sd_apply i (sd_event_unregistration ev (sd_impls m ! i)) m)"
| "sd_exec cfg mk hash handle (Run_loop i) m =
     Some (sd_apply i (sd_run_async_loop (sd_impls m ! i)) m)"

inductive sd_reachable :: "async_flow_config \<Rightarrow> (bool \<Rightarrow> 's) \<Rightarrow> ('k \<Rightarrow> u64) \<Rightarrow> ('s, 'p) ppr_handler \<Rightarrow>
    ('s, 'p, 'k) sd_manager \<Rightarrow> bool"
  for cfg mk hash handle where
  start: "sd_reachable cfg mk hash handle sd_init"
| step: "sd_reachable cfg mk hash handle m \<Longrightarrow> sd_enabled e m \<Longrightarrow>
     sd_exec cfg mk hash handle e m = Some m' \<Longrightarrow> sd_reachable cfg mk hash handle m'"

section \<open>The invariant of a flow\<close>

definition sd_flow_inv :: "('s, 'p, 'k) sd_flow \<Rightarrow> bool" where
  "sd_flow_inv f \<longleftrightarrow>
     (let w = sd_client f in
      (wu_cur_context w = None \<longrightarrow> wu_buffer_q w = []) \<and>
      (\<not> wu_loop_fn w \<longrightarrow> wu_cur_context w = None \<and> wu_quit_pr w \<in> {None, Some Failed}) \<and>
      (wu_loop_fn w \<longrightarrow> wu_quit_pr w = Some Pending) \<and>
      (wu_loop_fn w \<and> wu_ppr_close w \<longrightarrow> wu_cur_context w \<noteq> None) \<and>
      (wu_ppr_close w \<longleftrightarrow> wu_flow_key w = None) \<and>
      registered (wu_send_events w))"

text \<open>What preprocessing does to a flow: only the preprocessor state and the closing change.\<close>

lemma upd_client_simps [simp]:
  "sd_client (upd_client g f) = g (sd_client f)"
  "sd_reverse_direction (upd_client g f) = sd_reverse_direction f"
  "sd_ic_destroyed (upd_client g f) = sd_ic_destroyed f"
  "sd_sent (upd_client g f) = sd_sent f" "sd_removed (upd_client g f) = sd_removed f"
  by (simp_all add: upd_client_def)

lemma sd_close_simps [simp]:
  "sd_client (sd_close_ppr_and_remove_flow_key f) =
     (sd_client f)\<lparr>wu_ppr_close := True, wu_flow_key := None\<rparr>"
  "sd_sent (sd_close_ppr_and_remove_flow_key f) = sd_sent f"
  "sd_ic_destroyed (sd_close_ppr_and_remove_flow_key f) = sd_ic_destroyed f"
  "sd_removed (sd_close_ppr_and_remove_flow_key f) =
     sd_removed f @ (case wu_flow_key (sd_client f) of None \<Rightarrow> [] | Some k \<Rightarrow> [k])"
  by (auto simp: sd_close_ppr_and_remove_flow_key_def Let_def split: option.splits)

lemma sd_forward_simps [simp]:
  "sd_client (sd_internal_packet_forward pkt f) = sd_client f"
  "sd_removed (sd_internal_packet_forward pkt f) = sd_removed f"
  "sd_ic_destroyed (sd_internal_packet_forward pkt f) = sd_ic_destroyed f"
  "map snd (sd_sent (sd_internal_packet_forward pkt f)) =
     map snd (sd_sent f) @ (case pkt of None \<Rightarrow> [] | Some p \<Rightarrow> [p])"
  by (auto simp: sd_internal_packet_forward_def split: option.splits)

lemma sd_emplace_simps [simp]:
  "sd_client (sd_emplace_context pkt fe b f) =
     (sd_client f)\<lparr>wu_cur_context := Some \<lparr>pc_pkt = pkt, pc_fe = fe, pc_is_send = b\<rparr>\<rparr>"
  "sd_sent (sd_emplace_context pkt fe b f) = sd_sent f"
  "sd_removed (sd_emplace_context pkt fe b f) = sd_removed f"
  "sd_ic_destroyed (sd_emplace_context pkt fe b f) = sd_ic_destroyed f"
  by (simp_all add: sd_emplace_context_def)

text \<open>A flow function leaves the key alone, or gives it up and tells the manager so.\<close>

definition sd_key_step :: "('s, 'p, 'k) sd_flow \<Rightarrow> ('s, 'p, 'k) sd_flow \<Rightarrow> bool" where
  "sd_key_step f0 f \<longleftrightarrow>
     (wu_flow_key (sd_client f) = wu_flow_key (sd_client f0) \<and> sd_removed f = sd_removed f0) \<or>
     (\<exists>k. wu_flow_key (sd_client f0) = Some k \<and> wu_flow_key (sd_client f) = None
        \<and> sd_removed f = sd_removed f0 @ [k])"

lemma sd_key_step_trans: "sd_key_step f g \<Longrightarrow> sd_key_step g h \<Longrightarrow> sd_key_step f h"
  by (auto simp: sd_key_step_def)

lemma sd_key_step_close [simp]: "sd_key_step f (sd_close_ppr_and_remove_flow_key f)"
  by (auto simp: sd_key_step_def split: option.splits)

lemma sd_key_step_same:
  "wu_flow_key (sd_client g) = wu_flow_key (sd_client f) \<Longrightarrow> sd_removed g = sd_removed f \<Longrightarrow> sd_key_step f g"
  by (simp add: sd_key_step_def)

lemma sd_preprocess_E:
  assumes "sd_preprocess_packet handle pkt f0 = (f, pkt', fe)"
  obtains s ge where "handle (wu_ppr (sd_client f0)) pkt = (s, pkt', ge)"
    "fe = filter_events (wu_send_events (sd_client f0)) ge"
    "sd_client f = (sd_client f0)\<lparr>wu_ppr := s, wu_ppr_close := wu_ppr_close (sd_client f0) \<or> on_close_event fe,
       wu_flow_key := (if on_close_event fe then None else wu_flow_key (sd_client f0))\<rparr>"
    "sd_sent f = sd_sent f0" "sd_key_step f0 f" "sd_ic_destroyed f = sd_ic_destroyed f0"
proof -
  obtain s p ge where h: "handle (wu_ppr (sd_client f0)) pkt = (s, p, ge)"
    by (metis prod_cases3)
  show thesis
    by (rule that [of s ge])
      (use h assms in \<open>auto simp: sd_preprocess_packet_def Let_def sd_key_step_def
        split: if_splits option.splits\<close>)
qed

lemma sd_preprocess_forward_client:
  obtains s where
    "sd_client (sd_preprocess_and_forward handle pkt f) = (sd_client f)\<lparr>wu_ppr := s, wu_ppr_close := True, wu_flow_key := None\<rparr>
     \<or> sd_client (sd_preprocess_and_forward handle pkt f) = (sd_client f)\<lparr>wu_ppr := s\<rparr>"
    "sd_key_step f (sd_preprocess_and_forward handle pkt f)"
    "sd_ic_destroyed (sd_preprocess_and_forward handle pkt f) = sd_ic_destroyed f"
proof -
  obtain s p g where h: "handle (wu_ppr (sd_client f)) pkt = (s, p, g)"
    by (metis prod_cases3)
  show thesis
    by (rule that [of s])
      (use h in \<open>auto simp: sd_preprocess_and_forward_def Let_def sd_key_step_def split: option.splits\<close>)
qed

lemma sd_key_step_flush [simp]: "sd_key_step f (sd_flush handle bs f)"
proof (induction bs arbitrary: f)
  case (Cons b bs)
  have "sd_key_step f (sd_preprocess_and_forward handle (bp_pkt b) f)"
    using sd_preprocess_forward_client .
  with Cons sd_key_step_trans show ?case by fastforce
qed (simp add: sd_key_step_same)

lemma sd_flush_client:
  "\<exists>s. sd_client (sd_flush handle bs f) = (sd_client f)\<lparr>wu_ppr := s, wu_ppr_close := True, wu_flow_key := None, wu_buffer_q := []\<rparr>
     \<or> sd_client (sd_flush handle bs f) = (sd_client f)\<lparr>wu_ppr := s, wu_buffer_q := []\<rparr>"
proof (induction bs arbitrary: f)
  case Nil
  show ?case by (rule exI [of _ "wu_ppr (sd_client f)"]) simp
next
  case (Cons b bs)
  let ?g = "sd_preprocess_and_forward handle (bp_pkt b) f"
  obtain s where s: "sd_client ?g = (sd_client f)\<lparr>wu_ppr := s, wu_ppr_close := True, wu_flow_key := None\<rparr>
     \<or> sd_client ?g = (sd_client f)\<lparr>wu_ppr := s\<rparr>"
    using sd_preprocess_forward_client .
  from Cons.IH [of ?g] obtain s' where
      "sd_client (sd_flush handle bs ?g) = (sd_client ?g)\<lparr>wu_ppr := s', wu_ppr_close := True, wu_flow_key := None, wu_buffer_q := []\<rparr>
     \<or> sd_client (sd_flush handle bs ?g) = (sd_client ?g)\<lparr>wu_ppr := s', wu_buffer_q := []\<rparr>"
    by blast
  with s show ?case by (intro exI [of _ s']) auto
qed

lemma sd_flush_frame [simp]: "sd_ic_destroyed (sd_flush handle bs f) = sd_ic_destroyed f"
proof (induction bs arbitrary: f)
  case (Cons b bs)
  have "sd_ic_destroyed (sd_preprocess_and_forward handle (bp_pkt b) f) = sd_ic_destroyed f"
    using sd_preprocess_forward_client .
  with Cons show ?case by simp
qed simp

lemma sd_no_event_no_close:
  "registered r \<Longrightarrow> no_event (filter_events r g) \<Longrightarrow> \<not> on_close_event (filter_events r g)"
  by (auto simp: on_close_event_iff no_event_iff)

text \<open>The flow between a completion and the next invocation: no context, the rest as invariant.\<close>

definition sd_resting :: "('s, 'p, 'k) sd_flow \<Rightarrow> bool" where
  "sd_resting f \<longleftrightarrow>
     (let w = sd_client f in
      wu_cur_context w = None \<and> wu_loop_fn w \<and> wu_quit_pr w = Some Pending \<and>
      (wu_ppr_close w \<longleftrightarrow> wu_flow_key w = None) \<and> registered (wu_send_events w))"

lemma sd_resume_spec:
  assumes "sd_resting f"
  shows "sd_flow_inv (sd_resume handle bs f) \<and> sd_key_step f (sd_resume handle bs f)"
  using assms
proof (induction bs arbitrary: f)
  case Nil
  then show ?case
    by (auto simp: sd_resting_def sd_flow_inv_def Let_def sd_key_step_same)
next
  case (Cons b bs)
  obtain g pkt fe where p: "sd_preprocess_packet handle (bp_pkt b) f = (g, pkt, fe)"
    by (metis prod_cases3)
  then obtain s ge where g: "fe = filter_events (wu_send_events (sd_client f)) ge"
      "sd_client g = (sd_client f)\<lparr>wu_ppr := s, wu_ppr_close := wu_ppr_close (sd_client f) \<or> on_close_event fe,
       wu_flow_key := (if on_close_event fe then None else wu_flow_key (sd_client f))\<rparr>"
      "sd_key_step f g"
    by (rule sd_preprocess_E)
  show ?case
  proof (cases "no_event fe")
    case True
    have "\<not> on_close_event fe"
      using sd_no_event_no_close [of "wu_send_events (sd_client f)" ge] True g(1) Cons.prems
      by (simp add: sd_resting_def Let_def)
    then have "sd_resting (sd_internal_packet_forward pkt g)"
      using Cons.prems g(2) by (simp add: sd_resting_def Let_def)
    moreover have "sd_key_step f (sd_internal_packet_forward pkt g)"
      using g(3) by (simp add: sd_key_step_def)
    ultimately show ?thesis
      using Cons.IH [of "sd_internal_packet_forward pkt g"] p True sd_key_step_trans
      by (auto simp: Let_def)
  next
    case False
    let ?h = "sd_emplace_context pkt fe (bp_is_send b) (upd_client (\<lambda>w. w\<lparr>wu_buffer_q := bs\<rparr>) g)"
    have "sd_flow_inv ?h" "sd_key_step f ?h"
      using Cons.prems g by (auto simp: sd_resting_def sd_flow_inv_def Let_def sd_key_step_def)
    with False p show ?thesis by (simp add: Let_def)
  qed
qed

lemma sd_close_loop_spec:
  assumes "sd_resting f"
  shows "\<exists>g. sd_close_async_loop handle f = Some g \<and> sd_flow_inv g \<and> sd_key_step f g
    \<and> \<not> wu_loop_fn (sd_client g) \<and> wu_quit_pr (sd_client g) = None"
proof -
  let ?f = "upd_client (\<lambda>w. w\<lparr>wu_loop_fn := False\<rparr>) f"
  let ?g = "sd_flush handle (wu_buffer_q (sd_client ?f)) ?f"
  have k: "sd_key_step f ?g"
    using sd_key_step_flush [of ?f handle "wu_buffer_q (sd_client ?f)"] by (simp add: sd_key_step_def)
  obtain s where "sd_client ?g = (sd_client ?f)\<lparr>wu_ppr := s, wu_ppr_close := True, wu_flow_key := None, wu_buffer_q := []\<rparr>
     \<or> sd_client ?g = (sd_client ?f)\<lparr>wu_ppr := s, wu_buffer_q := []\<rparr>"
    using sd_flush_client [of handle "wu_buffer_q (sd_client ?f)" ?f] by blast
  then have "wu_quit_pr (sd_client ?g) = Some Pending"
      "sd_flow_inv (upd_client (\<lambda>w. w\<lparr>wu_quit_pr := None\<rparr>) ?g)"
      "\<not> wu_loop_fn (sd_client ?g)"
    using assms by (auto simp: sd_resting_def sd_flow_inv_def Let_def)
  with k show ?thesis
    by (simp add: sd_close_async_loop_def Let_def sd_key_step_def)
qed

lemma sd_post_handler_spec:
  assumes "sd_flow_inv f" "wu_cur_context (sd_client f) \<noteq> None"
  shows "\<exists>g. sd_loop_fn_post_handler handle a f = Some g \<and> sd_flow_inv g \<and> sd_key_step f g"
proof -
  obtain c where c: "wu_cur_context (sd_client f) = Some c"
    using assms(2) by blast
  let ?f1 = "if a = Forward \<or> a = Close_forward then sd_internal_packet_forward (pc_pkt c) f else f"
  let ?f2 = "upd_client (\<lambda>w. w\<lparr>wu_cur_context := None\<rparr>) ?f1"
  have r: "sd_resting ?f2" and k: "sd_key_step f ?f2"
    using assms c by (auto simp: sd_flow_inv_def sd_resting_def sd_key_step_def Let_def)
  show ?thesis
  proof (cases "a = Close_drop \<or> a = Close_forward")
    case True
    with sd_close_loop_spec [OF r, of handle] k c sd_key_step_trans show ?thesis
      by (fastforce simp: sd_loop_fn_post_handler_def Let_def)
  next
    case False
    with sd_resume_spec [OF r, of handle "wu_buffer_q (sd_client ?f2)"] k c sd_key_step_trans show ?thesis
      by (fastforce simp: sd_loop_fn_post_handler_def Let_def)
  qed
qed

lemma sd_exception_spec:
  assumes "sd_flow_inv f" "wu_cur_context (sd_client f) \<noteq> None"
  shows "\<exists>g. sd_async_loop_exception_handler f = Some g \<and> sd_flow_inv g \<and> sd_key_step f g
    \<and> sd_sent g = sd_sent f \<and> wu_buffer_q (sd_client g) = [] \<and> wu_cur_context (sd_client g) = None
    \<and> \<not> wu_loop_fn (sd_client g) \<and> \<not> sd_ic_destroyed g"
proof -
  have "wu_loop_fn (sd_client f)" "wu_quit_pr (sd_client f) = Some Pending"
    using assms by (auto simp: sd_flow_inv_def Let_def)
  with assms show ?thesis
    by (auto simp: sd_async_loop_exception_handler_def sd_flow_inv_def Let_def sd_key_step_def)
qed

lemma sd_handle_packet_spec:
  assumes "sd_flow_inv f"
  shows "sd_flow_inv (sd_handle_packet_send handle pkt f) \<and> sd_key_step f (sd_handle_packet_send handle pkt f)"
proof -
  let ?w = "sd_client f"
  obtain g pkt' fe where p: "sd_preprocess_packet handle pkt f = (g, pkt', fe)"
    by (metis prod_cases3)
  then obtain s ge where g: "fe = filter_events (wu_send_events ?w) ge"
      "sd_client g = ?w\<lparr>wu_ppr := s, wu_ppr_close := wu_ppr_close ?w \<or> on_close_event fe,
       wu_flow_key := (if on_close_event fe then None else wu_flow_key ?w)\<rparr>"
      "sd_key_step f g"
    by (rule sd_preprocess_E)
  have reg: "registered (wu_send_events ?w)"
    using assms by (simp add: sd_flow_inv_def Let_def)
  consider (drop) "wu_ppr_close ?w \<or> \<not> sd_ic_destroyed f"
    | (quiet) "\<not> wu_ppr_close ?w" "sd_ic_destroyed f" "wu_loop_fn ?w" "wu_cur_context ?w = None" "no_event fe"
    | (event) "\<not> wu_ppr_close ?w" "sd_ic_destroyed f" "wu_loop_fn ?w" "wu_cur_context ?w = None" "\<not> no_event fe"
    | (buffer) "\<not> wu_ppr_close ?w" "sd_ic_destroyed f" "wu_loop_fn ?w" "wu_cur_context ?w \<noteq> None"
    | (no_loop) "\<not> wu_ppr_close ?w" "sd_ic_destroyed f" "\<not> wu_loop_fn ?w"
    by blast
  then show ?thesis
  proof cases
    case drop
    with assms show ?thesis by (simp add: sd_handle_packet_send_def sd_key_step_def)
  next
    case quiet
    then have "\<not> on_close_event fe"
      using sd_no_event_no_close [OF reg] g(1) by simp
    with quiet assms g p show ?thesis
      by (auto simp: sd_handle_packet_send_def sd_flow_inv_def Let_def sd_key_step_def)
  next
    case event
    with assms g p show ?thesis
      by (auto simp: sd_handle_packet_send_def sd_flow_inv_def Let_def sd_key_step_def)
  next
    case buffer
    with assms show ?thesis
      by (auto simp: sd_handle_packet_send_def sd_flow_inv_def Let_def sd_key_step_def)
  next
    case no_loop
    let ?h = "sd_preprocess_and_forward handle pkt f"
    obtain s where "sd_client ?h = ?w\<lparr>wu_ppr := s, wu_ppr_close := True, wu_flow_key := None\<rparr>
        \<or> sd_client ?h = ?w\<lparr>wu_ppr := s\<rparr>" "sd_key_step f ?h"
      using sd_preprocess_forward_client .
    with no_loop assms show ?thesis
      by (auto simp: sd_handle_packet_send_def sd_flow_inv_def Let_def)
  qed
qed

lemma sd_passive_close_spec:
  assumes "sd_flow_inv f"
  shows "sd_flow_inv (sd_ppr_passive_close f) \<and> sd_key_step f (sd_ppr_passive_close f)
    \<and> wu_ppr_close (sd_client (sd_ppr_passive_close f))"
  using assms sd_key_step_close [of f]
  by (auto simp: sd_ppr_passive_close_def sd_flow_inv_def Let_def sd_key_step_def)

lemma sd_registration_spec:
  assumes "sd_flow_inv f" "user_event ev"
  shows "sd_flow_inv (sd_event_registration ev f) \<and> sd_key_step f (sd_event_registration ev f)"
    "sd_flow_inv (sd_event_unregistration ev f) \<and> sd_key_step f (sd_event_unregistration ev f)"
  using assms
  by (auto simp: sd_event_registration_def sd_event_unregistration_def sd_flow_inv_def Let_def
      sd_key_step_def intro: registered.intros)

lemma sd_run_loop_spec:
  assumes "sd_flow_inv f" "\<not> wu_ppr_close (sd_client f)"
  shows "sd_flow_inv (sd_run_async_loop f) \<and> sd_key_step f (sd_run_async_loop f)"
  using assms by (auto simp: sd_run_async_loop_def sd_flow_inv_def Let_def sd_key_step_def)

lemma make_sd_flow_simps [simp]:
  "sd_sent (make_sd_flow mk hash d k) = []" "sd_removed (make_sd_flow mk hash d k) = []"
  "wu_flow_key (sd_client (make_sd_flow mk hash d k)) = Some k"
  by (simp_all add: make_sd_flow_def)

lemma make_sd_flow_inv: "sd_flow_inv (make_sd_flow mk hash d k)"
  by (auto simp: make_sd_flow_def make_work_unit_def sd_flow_inv_def Let_def intro: registered.init)

section \<open>The invariant of the manager\<close>

definition sd_inv :: "async_flow_config \<Rightarrow> ('s, 'p, 'k) sd_manager \<Rightarrow> bool" where
  "sd_inv cfg m \<longleftrightarrow>
     list_all (\<lambda>f. sd_flow_inv f \<and> sd_sent f = [] \<and> sd_removed f = []) (sd_impls m) \<and>
     distinct (map fst (sd_flow_table m)) \<and>
     (\<forall>k i. (k, i) \<in> set (sd_flow_table m) \<longleftrightarrow>
        i < length (sd_impls m) \<and> wu_flow_key (sd_client (sd_impls m ! i)) = Some k) \<and>
     length (sd_flow_table m) \<le> max_flow_table_size cfg \<and>
     length (sd_new_ic_q m) \<le> new_flow_queue_size cfg \<and>
     list_all (\<lambda>q. qi_impl q < length (sd_impls m)) (sd_new_ic_q m @ sd_held m)"

lemma sd_inv_apply:
  assumes inv: "sd_inv cfg m" and i: "i < length (sd_impls m)"
    and f: "sd_flow_inv f" "sd_key_step (sd_impls m ! i) f"
  shows "sd_inv cfg (sd_apply i f m)"
proof -
  let ?m = "sd_apply i f m" and ?key = "\<lambda>j. wu_flow_key (sd_client (sd_impls m ! j))"
  have r0: "sd_removed (sd_impls m ! i) = []"
    and tab: "\<And>k j. (k, j) \<in> set (sd_flow_table m) \<longleftrightarrow> j < length (sd_impls m) \<and> ?key j = Some k"
    and d: "distinct (map fst (sd_flow_table m))"
    using inv i by (auto simp: sd_inv_def list_all_length)
  have uniq: "j = i" if "j < length (sd_impls m)" "?key j = Some k" "?key i = Some k" for j k
    using tab [of k j] tab [of k i] that i d by (auto dest: eq_key_imp_eq_value)
  have "(k, j) \<in> set (sd_flow_table ?m) \<longleftrightarrow>
      j < length (sd_impls ?m) \<and> wu_flow_key (sd_client (sd_impls ?m ! j)) = Some k" for k j
  proof (cases "wu_flow_key (sd_client f) = ?key i \<and> sd_removed f = []")
    case True
    then show ?thesis
      using tab [of k j] by (cases "j = i") (auto simp: sd_apply_def nth_list_update)
  next
    case False
    then obtain l where l: "?key i = Some l" "wu_flow_key (sd_client f) = None" "sd_removed f = [l]"
      using f(2) r0 by (auto simp: sd_key_step_def)
    then show ?thesis
      using tab [of k j] uniq [of j k] by (cases "j = i") (auto simp: sd_apply_def nth_list_update)
  qed
  moreover have "length (filter P xs) \<le> n" if "length xs \<le> n" for P and xs :: "('k \<times> nat) list" and n
    using that length_filter_le [of P xs] by linarith
  ultimately show ?thesis
    using inv f(1) i d
    by (auto simp: sd_inv_def sd_apply_def list_all_length nth_list_update sd_flow_inv_def
        distinct_map_fst_delete)
qed

lemma sd_step_spec:
  assumes inv: "sd_inv cfg m" and en: "sd_enabled e m"
  shows "\<exists>m'. sd_exec cfg mk hash handle e m = Some m' \<and> sd_inv cfg m'"
proof -
  have fi: "sd_flow_inv (sd_impls m ! i)" if "i < length (sd_impls m)" for i
    using inv that by (simp add: sd_inv_def list_all_length)
  note ap = sd_inv_apply [OF inv]
  show ?thesis
  proof (cases e)
    case (Loop_returns i a)
    with en sd_post_handler_spec [OF fi, of i handle a] ap show ?thesis by auto
  next
    case (Loop_fails i)
    with en sd_exception_spec [OF fi, of i] ap show ?thesis by auto
  next
    case (Timer_closes i)
    with en sd_passive_close_spec [OF fi, of i] ap show ?thesis by auto
  next
    case (Register i ev)
    with en sd_registration_spec [OF fi, of i ev] ap show ?thesis by auto
  next
    case (Unregister i ev)
    with en sd_registration_spec [OF fi, of i ev] ap show ?thesis by auto
  next
    case (Run_loop i)
    with en sd_run_loop_spec [OF fi, of i] ap show ?thesis by (auto simp: Let_def)
  next
    case Get_initial_context
    with en inv show ?thesis
      by (auto simp: sd_get_initial_context_def sd_inv_def neq_Nil_conv)
  next
    case (End_initial_context n)
    let ?q = "sd_held m ! n" and ?m = "m\<lparr>sd_held := take n (sd_held m) @ drop (Suc n) (sd_held m)\<rparr>"
    have i: "qi_impl ?q < length (sd_impls m)" and im: "sd_inv cfg ?m"
      using inv en End_initial_context
      by (auto simp: sd_inv_def list_all_iff dest: in_set_takeD in_set_dropD)
    let ?f = "sd_destroy_initial_context (sd_impls m ! qi_impl ?q)"
    have "sd_flow_inv ?f" "sd_key_step (sd_impls m ! qi_impl ?q) ?f"
      using fi [OF i] by (simp_all add: sd_destroy_initial_context_def sd_flow_inv_def sd_key_step_def)
    with sd_handle_packet_spec [of ?f handle "qi_pkt ?q"]
    have "sd_flow_inv (sd_handle_packet_send handle (qi_pkt ?q) ?f)"
        "sd_key_step (sd_impls ?m ! qi_impl ?q) (sd_handle_packet_send handle (qi_pkt ?q) ?f)"
      by (auto intro: sd_key_step_trans)
    with sd_inv_apply [OF im, of "qi_impl ?q"] i End_initial_context show ?thesis
      by (simp add: sd_end_initial_context_def Let_def)
  next
    case (Receive d pkt k)
    show ?thesis
    proof (cases "map_of (sd_flow_table m) k")
      case None
      then have "k \<notin> fst ` set (sd_flow_table m)"
        by (simp add: map_of_eq_None_iff)
      with None Receive inv show ?thesis
        by (auto simp: sd_receive_def sd_inv_def Let_def nth_append make_sd_flow_inv
            less_Suc_eq list_all_iff image_iff)
    next
      case (Some i)
      then have "i < length (sd_impls m)"
        using inv by (auto simp: sd_inv_def dest: map_of_SomeD)
      with Some Receive sd_handle_packet_spec [OF fi, of i handle pkt] ap show ?thesis
        by (simp add: sd_receive_def)
    qed
  qed
qed

lemma sd_reachable_inv: "sd_reachable cfg mk hash handle m \<Longrightarrow> sd_inv cfg m"
proof (induction rule: sd_reachable.induct)
  case start
  show ?case by (simp add: sd_inv_def sd_init_def)
next
  case (step m e m')
  then show ?case using sd_step_spec [of cfg m e mk hash handle] by simp
qed

section \<open>The order of a flow's packets\<close>

text \<open>The preprocessors of the repository inspect packets and leave them as they are.\<close>

definition keeps_packets :: "('s, 'p) ppr_handler \<Rightarrow> bool" where
  "keeps_packets handle \<longleftrightarrow> (\<forall>s pkt. fst (snd (handle s pkt)) = pkt)"

definition opt :: "'p rte_packet \<Rightarrow> 'p list" where
  "opt pkt = (case pkt of None \<Rightarrow> [] | Some p \<Rightarrow> [p])"

text \<open>What a flow has sent, holds in the current context and has buffered, in this order.\<close>

definition sd_waiting :: "('s, 'p, 'k) sd_flow \<Rightarrow> 'p list" where
  "sd_waiting f =
     (case wu_cur_context (sd_client f) of None \<Rightarrow> [] | Some c \<Rightarrow> opt (pc_pkt c))
     @ concat (map (opt \<circ> bp_pkt) (wu_buffer_q (sd_client f)))"

definition sd_pipeline :: "('s, 'p, 'k) sd_flow \<Rightarrow> 'p list" where
  "sd_pipeline f = map snd (sd_sent f) @ sd_waiting f"

locale packet_keeper =
  fixes handle :: "('s, 'p) ppr_handler"
  assumes keeps: "fst (snd (handle s pkt)) = pkt"
begin

lemma handle_eq: "handle s pkt = (s', pkt', ge) \<Longrightarrow> pkt' = pkt"
  using keeps [of s pkt] by simp

lemma preprocess_and_forward_sent:
  "map snd (sd_sent (sd_preprocess_and_forward handle pkt f)) = map snd (sd_sent f) @ opt pkt"
  by (auto simp: sd_preprocess_and_forward_def Let_def opt_def split: prod.splits dest!: handle_eq)

lemma preprocess_pkt:
  assumes "sd_preprocess_packet handle pkt f0 = (f, pkt', fe)"
  shows "pkt' = pkt"
  using assms by (auto simp: sd_preprocess_packet_def Let_def split: prod.splits dest!: handle_eq)

lemma flush_sent:
  "map snd (sd_sent (sd_flush handle bs f)) = map snd (sd_sent f) @ concat (map (opt \<circ> bp_pkt) bs)"
  by (induction bs arbitrary: f) (simp_all add: preprocess_and_forward_sent)

lemma resume_pipeline:
  assumes "wu_cur_context (sd_client f) = None"
  shows "sd_pipeline (sd_resume handle bs f) = map snd (sd_sent f) @ concat (map (opt \<circ> bp_pkt) bs)"
  using assms
proof (induction bs arbitrary: f)
  case Nil
  then show ?case by (simp add: sd_pipeline_def sd_waiting_def Let_def opt_def)
next
  case (Cons b bs)
  obtain g pkt fe where p: "sd_preprocess_packet handle (bp_pkt b) f = (g, pkt, fe)"
    by (metis prod_cases3)
  have pkt: "pkt = bp_pkt b" by (rule preprocess_pkt [OF p])
  have g: "wu_cur_context (sd_client g) = None \<and> sd_sent g = sd_sent f"
    by (rule sd_preprocess_E [OF p]) (use Cons.prems in simp)
  show ?case
  proof (cases "no_event fe")
    case True
    with p pkt g Cons.IH [of "sd_internal_packet_forward pkt g"] show ?thesis
      by (simp add: Let_def opt_def)
  next
    case False
    with p pkt g show ?thesis
      by (simp add: Let_def sd_pipeline_def sd_waiting_def comp_def)
  qed
qed

lemma handle_packet_pipeline:
  assumes "sd_flow_inv f"
  shows "sd_pipeline (sd_handle_packet_send handle pkt f) =
    sd_pipeline f @ (if wu_ppr_close (sd_client f) \<or> \<not> sd_ic_destroyed f then [] else opt pkt)"
proof -
  obtain g pkt' fe where p: "sd_preprocess_packet handle pkt f = (g, pkt', fe)"
    by (metis prod_cases3)
  have pkt: "pkt' = pkt" by (rule preprocess_pkt [OF p])
  obtain s ge where g: "sd_client g = (sd_client f)\<lparr>wu_ppr := s, wu_ppr_close := wu_ppr_close (sd_client f) \<or> on_close_event fe,
       wu_flow_key := (if on_close_event fe then None else wu_flow_key (sd_client f))\<rparr>"
      "sd_sent g = sd_sent f"
    using p by (rule sd_preprocess_E)
  have h: "wu_cur_context (sd_client (sd_preprocess_and_forward handle pkt f)) = wu_cur_context (sd_client f)
      \<and> wu_buffer_q (sd_client (sd_preprocess_and_forward handle pkt f)) = wu_buffer_q (sd_client f)"
    by (rule sd_preprocess_forward_client [of handle pkt f]) auto
  show ?thesis
    using assms p g pkt h preprocess_and_forward_sent [of pkt f]
    by (auto simp: sd_handle_packet_send_def sd_pipeline_def sd_waiting_def sd_flow_inv_def Let_def opt_def
        split: option.splits)
qed

lemma post_handler_pipeline:
  assumes "sd_flow_inv f" "wu_cur_context (sd_client f) = Some c" "sd_loop_fn_post_handler handle a f = Some g"
  shows "sd_pipeline g = map snd (sd_sent f) @ (if a = Forward \<or> a = Close_forward then opt (pc_pkt c) else [])
    @ concat (map (opt \<circ> bp_pkt) (wu_buffer_q (sd_client f)))"
proof -
  let ?f1 = "if a = Forward \<or> a = Close_forward then sd_internal_packet_forward (pc_pkt c) f else f"
  let ?f2 = "upd_client (\<lambda>w. w\<lparr>wu_cur_context := None\<rparr>) ?f1"
  have s: "map snd (sd_sent ?f2) = map snd (sd_sent f) @ (if a = Forward \<or> a = Close_forward then opt (pc_pkt c) else [])"
      "wu_buffer_q (sd_client ?f2) = wu_buffer_q (sd_client f)" "wu_cur_context (sd_client ?f2) = None"
    by (simp_all add: opt_def)
  show ?thesis
  proof (cases "a = Close_drop \<or> a = Close_forward")
    case True
    let ?f3 = "upd_client (\<lambda>w. w\<lparr>wu_loop_fn := False\<rparr>) ?f2"
    let ?h = "sd_flush handle (wu_buffer_q (sd_client f)) ?f3"
    obtain q where "sd_client ?h = (sd_client ?f3)\<lparr>wu_ppr := q, wu_ppr_close := True, wu_flow_key := None, wu_buffer_q := []\<rparr>
       \<or> sd_client ?h = (sd_client ?f3)\<lparr>wu_ppr := q, wu_buffer_q := []\<rparr>"
      using sd_flush_client [of handle "wu_buffer_q (sd_client f)" ?f3] by blast
    then have c: "wu_cur_context (sd_client ?h) = None" "wu_buffer_q (sd_client ?h) = []"
      using s by auto
    moreover have "g = upd_client (\<lambda>w. w\<lparr>wu_quit_pr := None\<rparr>) ?h"
      using assms True by (auto simp: sd_loop_fn_post_handler_def sd_close_async_loop_def Let_def
          split: option.splits if_splits)
    ultimately show ?thesis
      using flush_sent [of "wu_buffer_q (sd_client f)" ?f3] s by (simp add: sd_pipeline_def sd_waiting_def)
  next
    case False
    then have "g = sd_resume handle (wu_buffer_q (sd_client f)) ?f2"
      using assms by (auto simp: sd_loop_fn_post_handler_def Let_def split: if_splits)
    with resume_pipeline [OF s(3)] s show ?thesis by simp
  qed
qed

end

section \<open>Histories of one flow\<close>

datatype 'p sd_flow_op =
    Packet_arrives "'p rte_packet"
  | Context_ends "'p rte_packet"
  | Returns af_action
  | Fails
  | Closes
  | Registers nat
  | Unregisters nat
  | Starts_loop

definition sd_accepts :: "('s, 'p, 'k) sd_flow \<Rightarrow> bool" where
  "sd_accepts f \<longleftrightarrow> \<not> wu_ppr_close (sd_client f) \<and> sd_ic_destroyed f"

text \<open>One operation, with the packets the flow accepts; \<open>None\<close> if it is not enabled or fails.\<close>

fun sd_flow_exec :: "('s, 'p) ppr_handler \<Rightarrow> 'p sd_flow_op \<Rightarrow> ('s, 'p, 'k) sd_flow \<Rightarrow>
    (('s, 'p, 'k) sd_flow \<times> 'p list) option" where
  "sd_flow_exec handle (Packet_arrives pkt) f =
     Some (sd_handle_packet_send handle pkt f, if sd_accepts f then opt pkt else [])"
| "sd_flow_exec handle (Context_ends pkt) f =
     (let g = sd_destroy_initial_context f
      in Some (sd_handle_packet_send handle pkt g, if sd_accepts g then opt pkt else []))"
| "sd_flow_exec handle (Returns a) f = map_option (\<lambda>g. (g, [])) (sd_loop_fn_post_handler handle a f)"
| "sd_flow_exec handle Fails f =
     (if wu_cur_context (sd_client f) = None then None
      else map_option (\<lambda>g. (g, [])) (sd_async_loop_exception_handler f))"
| "sd_flow_exec handle Closes f = Some (sd_ppr_passive_close f, [])"
| "sd_flow_exec handle (Registers ev) f =
     (if user_event ev then Some (sd_event_registration ev f, []) else None)"
| "sd_flow_exec handle (Unregisters ev) f =
     (if user_event ev then Some (sd_event_unregistration ev f, []) else None)"
| "sd_flow_exec handle Starts_loop f =
     (if wu_loop_fn (sd_client f) \<or> wu_quit_pr (sd_client f) \<noteq> None \<or> wu_ppr_close (sd_client f) then None
      else Some (sd_run_async_loop f, []))"

fun sd_flow_run :: "('s, 'p) ppr_handler \<Rightarrow> 'p sd_flow_op list \<Rightarrow> ('s, 'p, 'k) sd_flow \<Rightarrow>
    (('s, 'p, 'k) sd_flow \<times> 'p list) option" where
  "sd_flow_run handle [] f = Some (f, [])"
| "sd_flow_run handle (c # cs) f =
     (case sd_flow_exec handle c f of
        None \<Rightarrow> None
      | Some (g, acc) \<Rightarrow> map_option (\<lambda>(h, acc'). (h, acc @ acc')) (sd_flow_run handle cs g))"

fun sd_lossless :: "'p sd_flow_op \<Rightarrow> bool" where
  "sd_lossless (Returns a) = (a = Forward \<or> a = Close_forward)"
| "sd_lossless Fails = False"
| "sd_lossless _ = True"

context packet_keeper
begin

lemma passive_close_pipeline:
  "sd_flow_inv f \<Longrightarrow> sd_pipeline (sd_ppr_passive_close f) = sd_pipeline f"
  by (auto simp: sd_ppr_passive_close_def sd_pipeline_def sd_waiting_def Let_def opt_def sd_flow_inv_def)

lemma exec_pipeline:
  assumes inv: "sd_flow_inv f" and ex: "sd_flow_exec handle c f = Some (g, acc)"
  shows "sd_flow_inv g \<and> subseq (sd_pipeline g) (sd_pipeline f @ acc)
    \<and> (sd_lossless c \<longrightarrow> sd_pipeline g = sd_pipeline f @ acc)"
proof (cases c)
  case (Packet_arrives pkt)
  with assms sd_handle_packet_spec [OF inv] handle_packet_pipeline [OF inv] show ?thesis
    by (auto simp: sd_accepts_def)
next
  case (Context_ends pkt)
  let ?f = "sd_destroy_initial_context f"
  have "sd_flow_inv ?f" "sd_pipeline ?f = sd_pipeline f"
    using inv by (simp_all add: sd_destroy_initial_context_def sd_flow_inv_def sd_pipeline_def sd_waiting_def)
  with Context_ends ex sd_handle_packet_spec [of ?f] handle_packet_pipeline [of ?f] show ?thesis
    by (auto simp: sd_accepts_def Let_def)
next
  case (Returns a)
  then have r: "sd_loop_fn_post_handler handle a f = Some g" and acc: "acc = []"
    using ex by auto
  then obtain k where k: "wu_cur_context (sd_client f) = Some k"
    by (auto simp: sd_loop_fn_post_handler_def split: option.splits)
  have "sd_flow_inv g"
    using sd_post_handler_spec [OF inv, of handle a] r k by auto
  moreover have "sd_pipeline f = map snd (sd_sent f) @ opt (pc_pkt k)
      @ concat (map (opt \<circ> bp_pkt) (wu_buffer_q (sd_client f)))"
    using k by (simp add: sd_pipeline_def sd_waiting_def)
  ultimately show ?thesis
    using post_handler_pipeline [OF inv k r] acc Returns
    by (auto intro!: list_emb_append_mono)
next
  case Fails
  then have "wu_cur_context (sd_client f) \<noteq> None" "sd_async_loop_exception_handler f = Some g" "acc = []"
    using ex by (auto split: if_splits)
  with sd_exception_spec [OF inv] Fails show ?thesis
    by (auto simp: sd_pipeline_def sd_waiting_def)
next
  case Closes
  with ex sd_passive_close_spec [OF inv] passive_close_pipeline [OF inv] show ?thesis by auto
next
  case (Registers ev)
  with ex sd_registration_spec(1) [OF inv] show ?thesis
    by (auto simp: sd_pipeline_def sd_waiting_def sd_event_registration_def split: if_splits)
next
  case (Unregisters ev)
  with ex sd_registration_spec(2) [OF inv] show ?thesis
    by (auto simp: sd_pipeline_def sd_waiting_def sd_event_unregistration_def split: if_splits)
next
  case Starts_loop
  with ex sd_run_loop_spec [OF inv] show ?thesis
    by (auto simp: sd_pipeline_def sd_waiting_def sd_run_async_loop_def split: if_splits)
qed

lemma run_pipeline:
  assumes "sd_flow_inv f" "sd_flow_run handle cs f = Some (g, acc)"
  shows "sd_flow_inv g \<and> subseq (sd_pipeline g) (sd_pipeline f @ acc)
    \<and> (list_all sd_lossless cs \<longrightarrow> sd_pipeline g = sd_pipeline f @ acc)"
  using assms
proof (induction cs arbitrary: f acc)
  case (Cons c cs)
  then obtain h a b where h: "sd_flow_exec handle c f = Some (h, a)" "sd_flow_run handle cs h = Some (g, b)"
      "acc = a @ b"
    by (auto split: option.splits)
  note e = exec_pipeline [OF Cons.prems(1) h(1)]
  with Cons.IH [OF _ h(2)] have i: "sd_flow_inv g" "subseq (sd_pipeline g) (sd_pipeline h @ b)"
      "list_all sd_lossless cs \<longrightarrow> sd_pipeline g = sd_pipeline h @ b"
    by auto
  have "subseq (sd_pipeline h @ b) ((sd_pipeline f @ a) @ b)"
    using e by (intro list_emb_append_mono) auto
  with i(2) have "subseq (sd_pipeline g) (sd_pipeline f @ acc)"
    unfolding h(3) by (metis append_assoc subseq_order.order_trans)
  with e i h(3) show ?case by simp
qed simp

end

section \<open>Properties\<close>

text \<open>A preprocessor that generates event 0 for every packet, as \<open>tcp_ppr\<close> does.\<close>

definition simple_handler :: "(unit, nat) ppr_handler" where
  "simple_handler s pkt = (s, pkt, event_happen 0 no_generated_events)"

interpretation simple: packet_keeper simple_handler
  by unfold_locales (simp add: simple_handler_def)



text \<open>
  C2. Order of a flow: whatever happens to a flow, the packets it has sent, followed by the one
  its loop function works on and the buffered ones, form a subsequence of the packets it
  accepted, so packets are never reordered or duplicated; and if every invocation forwards
  its packet and none fails, nothing is lost.
\<close>

theorem sd_flow_keeps_order:
  assumes "keeps_packets handle" "sd_flow_run handle cs (make_sd_flow mk hash d k) = Some (f, acc)"
  shows "subseq (map snd (sd_sent f) @ sd_waiting f) acc
    \<and> (list_all sd_lossless cs \<longrightarrow> map snd (sd_sent f) @ sd_waiting f = acc)"
proof -
  have "packet_keeper handle"
    using assms(1) by unfold_locales (simp add: keeps_packets_def)
  from packet_keeper.run_pipeline [OF this make_sd_flow_inv assms(2)] show ?thesis
    by (simp add: sd_pipeline_def sd_waiting_def) (simp add: make_sd_flow_def make_work_unit_def)
qed

theorem sd_flow_keeps_order_witness:
  "\<exists>f. sd_flow_run simple_handler
         [Registers 0, Starts_loop, Context_ends (Some 1), Packet_arrives (Some 2), Returns Forward]
         (make_sd_flow (\<lambda>_. ()) (\<lambda>_. 0) 0 CHR ''a'') = Some (f, [1, 2])
     \<and> map snd (sd_sent f) @ sd_waiting f = [1, 2]"
proof -
  let ?cs = "[Registers 0, Starts_loop, Context_ends (Some 1), Packet_arrives (Some 2), Returns Forward]"
  let ?f = "make_sd_flow (\<lambda>_. ()) (\<lambda>_. 0) 0 CHR ''a''"
  obtain f where f: "sd_flow_run simple_handler ?cs ?f = Some (f, [1, 2])"
    by (simp add: simple_handler_def make_sd_flow_def make_work_unit_def user_event_def
        sd_event_registration_def sd_run_async_loop_def sd_destroy_initial_context_def
        sd_handle_packet_send_def sd_preprocess_packet_def sd_accepts_def opt_def upd_client_def
        sd_emplace_context_def sd_loop_fn_post_handler_def sd_internal_packet_forward_def
        register_event_def unregister_all_events_def event_bit_def close_mask_def
        filter_events_def event_happen_def no_generated_events_def on_close_event_def no_event_def)
  have "keeps_packets simple_handler"
    by (simp add: keeps_packets_def simple_handler_def)
  from sd_flow_keeps_order [OF this f] f show ?thesis by auto
qed

text \<open>
  C4. A failing loop: after the loop function threw, the flow has dropped its context and every
  buffered packet without sending anything, the quit promise carries the failure, and from
  then on every packet of the flow is dropped, although its key stays in the flow table until
  the preprocessor closes.
\<close>

theorem sd_failed_flow_drops_everything:
  assumes "sd_flow_inv f" "wu_cur_context (sd_client f) \<noteq> None"
  shows "\<exists>g. sd_async_loop_exception_handler f = Some g \<and> sd_sent g = sd_sent f
    \<and> sd_waiting g = [] \<and> wu_quit_pr (sd_client g) = Some Failed
    \<and> wu_flow_key (sd_client g) = wu_flow_key (sd_client f)
    \<and> (\<forall>handle pkt. sd_handle_packet_send handle pkt g = g)"
proof -
  have "wu_quit_pr (sd_client f) = Some Pending"
    using assms by (auto simp: sd_flow_inv_def Let_def)
  then show ?thesis
    by (simp add: sd_async_loop_exception_handler_def sd_handle_packet_send_def sd_waiting_def Let_def)
qed

theorem sd_failed_flow_drops_everything_witness:
  "\<exists>g. sd_async_loop_exception_handler (sd_emplace_context (Some 1) 1 True
         (sd_run_async_loop (make_sd_flow (\<lambda>_. ()) (\<lambda>_. 0) 0 CHR ''a''))) = Some g
     \<and> sd_handle_packet_send simple_handler (Some 2) g = g"
proof -
  let ?f = "sd_emplace_context (Some (1 :: nat)) 1 True
      (sd_run_async_loop (make_sd_flow (\<lambda>_. ()) (\<lambda>_. 0) 0 CHR ''a''))"
  have "sd_flow_inv ?f" "wu_cur_context (sd_client ?f) \<noteq> None"
    by (simp_all add: sd_flow_inv_def sd_run_async_loop_def make_sd_flow_def make_work_unit_def
        registered.init)
  from sd_failed_flow_drops_everything [OF this] show ?thesis by metis
qed



end
