(* ===== verification/Preprocessors.thy ===== *)
theory Preprocessors
  imports Packet_Merger SD_Async_Flow
begin

text \<open>
  \<open>netstar/preprocessor/\<close>: the preprocessors an async flow is instantiated with, and the flow
  keys they read from a frame. \<open>tcp_ppr\<close> and \<open>udp_ppr\<close> only restart the idle timer;
  \<open>tcp_reorder_ppr\<close> reassembles the TCP payload of one direction of a connection.

  A frame is the byte string of a contiguous \<open>rte_packet\<close>; a timer is whether it is armed
  (its firing is the passive close of the flow). \<open>None\<close> is a failed assertion or a read through
  the null pointer \<open>get_header\<close> returns for a short frame. The main result: however the
  segments of a stream arrive (reordered, overlapping, retransmitted), \<open>tcp_reorder_ppr\<close>
  delivers exactly the bytes of the stream, in order, up to the first one still missing.
\<close>

section \<open>Frames and flow keys\<close>

record l4connid =
  local_ip :: u32
  foreign_ip :: u32
  local_port :: u16
  foreign_port :: u16

definition eth_hdr_size :: nat where
  "eth_hdr_size = 14"

definition ip_hdr_size :: nat where
  "ip_hdr_size = 20"

definition frame_header :: "nat \<Rightarrow> nat \<Rightarrow> bytes \<Rightarrow> bytes option" where
  "frame_header offset sz frame =
     (if offset + sz > length frame then None else Some (take sz (drop offset frame)))"

definition ports_and_addresses :: "nat \<Rightarrow> bytes \<Rightarrow> (u32 \<times> u32 \<times> u16 \<times> u16) option" where
  "ports_and_addresses l4_size frame =
     (case frame_header eth_hdr_size ip_hdr_size frame of
        None \<Rightarrow> None
      | Some ip \<Rightarrow>
          (case frame_header (eth_hdr_size + ip_hdr_size) l4_size frame of
             None \<Rightarrow> None
           | Some l4 \<Rightarrow> Some (read_be (drop 12 ip), read_be (drop 16 ip), read_be l4, read_be (drop 2 l4))))"

definition get_flow_key :: "nat \<Rightarrow> bytes \<Rightarrow> l4connid option" where
  "get_flow_key l4_size frame =
     map_option (\<lambda>(src_ip, dst_ip, src_port, dst_port).
         \<lparr>local_ip = dst_ip, foreign_ip = src_ip, local_port = dst_port, foreign_port = src_port\<rparr>)
       (ports_and_addresses l4_size frame)"

definition get_reverse_flow_key :: "nat \<Rightarrow> bytes \<Rightarrow> l4connid option" where
  "get_reverse_flow_key l4_size frame =
     map_option (\<lambda>(src_ip, dst_ip, src_port, dst_port).
         \<lparr>local_ip = src_ip, foreign_ip = dst_ip, local_port = src_port, foreign_port = dst_port\<rparr>)
       (ports_and_addresses l4_size frame)"

section \<open>tcp\_ppr and udp\_ppr\<close>

record idle_ppr =
  ip_is_client :: bool
  ip_armed :: bool

definition make_idle_ppr :: "bool \<Rightarrow> idle_ppr" where
  "make_idle_ppr is_client = \<lparr>ip_is_client = is_client, ip_armed = True\<rparr>"

definition pkt_in :: nat where
  "pkt_in = 0"

definition rearm :: "bool \<Rightarrow> bool" where
  "rearm armed = (if armed then True else armed)"

definition tcp_ppr_handle_packet_send :: "(idle_ppr, bytes) ppr_handler" where
  "tcp_ppr_handle_packet_send s pkt =
     (s\<lparr>ip_armed := rearm (ip_armed s)\<rparr>, pkt, event_happen pkt_in no_generated_events)"

definition tcp_ppr_handle_packet_recv :: "(idle_ppr, bytes) ppr_handler" where
  "tcp_ppr_handle_packet_recv s pkt = (s, pkt, event_happen pkt_in no_generated_events)"

definition udp_ppr_handle_packet_send :: "(idle_ppr, bytes) ppr_handler" where
  "udp_ppr_handle_packet_send s pkt =
     (s\<lparr>ip_armed := rearm (ip_armed s)\<rparr>, pkt, event_happen pkt_in no_generated_events)"

definition udp_ppr_handle_packet_recv :: "(idle_ppr, bytes) ppr_handler" where
  "udp_ppr_handle_packet_recv s pkt = (s, pkt, event_happen pkt_in no_generated_events)"

definition tcp_ppr_config :: async_flow_config where
  "tcp_ppr_config = \<lparr>max_event_context_queue_size = 5, new_flow_queue_size = 20000,
                     max_flow_table_size = 100000, flow_expire_seconds = 15\<rparr>"

definition udp_ppr_config :: async_flow_config where
  "udp_ppr_config = \<lparr>max_event_context_queue_size = 5, new_flow_queue_size = 1000,
                     max_flow_table_size = 100000, flow_expire_seconds = 5\<rparr>"

definition tcp_reorder_config :: async_flow_config where
  "tcp_reorder_config = \<lparr>max_event_context_queue_size = 5, new_flow_queue_size = 20000,
                         max_flow_table_size = 100000, flow_expire_seconds = 180\<rparr>"

interpretation tcp_ppr: packet_keeper tcp_ppr_handle_packet_send
  by unfold_locales (simp add: tcp_ppr_handle_packet_send_def)

interpretation udp_ppr: packet_keeper udp_ppr_handle_packet_send
  by unfold_locales (simp add: udp_ppr_handle_packet_send_def)

section \<open>tcp\_reorder\_ppr\<close>

definition new_data :: nat where
  "new_data = 1"

definition abnormal_connection :: nat where
  "abnormal_connection = 2"

text \<open>\<open>_rcv_next\<close> and \<open>_rcv_initial\<close> are uninitialised before the SYN; nothing reads them then.\<close>

record tcp_reorder =
  tr_is_client :: bool
  tr_armed :: bool
  tr_seen_syn :: bool
  tr_rcv_next :: tcp_seq
  tr_rcv_initial :: tcp_seq
  tr_rcv_window :: u32
  tr_rcv_data :: "pkt list"
  tr_rcv_out_of_order :: "tcp_seq packet_merger"
  tr_abnormal :: bool

definition make_tcp_reorder :: "bool \<Rightarrow> tcp_seq \<Rightarrow> tcp_seq \<Rightarrow> tcp_reorder" where
  "make_tcp_reorder is_client next0 initial0 =
     \<lparr>tr_is_client = is_client, tr_armed = True, tr_seen_syn = False, tr_rcv_next = next0,
      tr_rcv_initial = initial0, tr_rcv_window = 3737600, tr_rcv_data = [],
      tr_rcv_out_of_order = \<lparr>pm_map = [], pm_linearizations = 0\<rparr>, tr_abnormal = False\<rparr>"

definition segment_acceptable :: "tcp_reorder \<Rightarrow> tcp_seq \<Rightarrow> u32 \<Rightarrow> bool" where
  "segment_acceptable s seg_seq seg_len =
     (let next = tr_rcv_next s; wnd = tr_rcv_window s in
      if seg_len = 0 \<and> wnd = 0 then seg_seq = next
      else if seg_len = 0 \<and> wnd > 0 then seq_le next seg_seq \<and> seq_lt seg_seq (seq_add next wnd)
      else if seg_len > 0 \<and> wnd > 0 then
        seq_le next seg_seq \<and> seq_lt seg_seq (seq_add next wnd)
        \<or> seq_le next (seq_sub (seq_add seg_seq seg_len) 1)
          \<and> seq_lt (seq_sub (seq_add seg_seq seg_len) 1) (seq_add next wnd)
      else False)"

definition insert_out_of_order :: "tcp_seq \<Rightarrow> pkt \<Rightarrow> tcp_reorder \<Rightarrow> tcp_reorder option" where
  "insert_out_of_order seg p s =
     map_option (\<lambda>pm. s\<lparr>tr_rcv_out_of_order := pm\<rparr>)
       (merge tcp_offset_ops seg p (tr_rcv_out_of_order s))"

text \<open>The loop of \<open>merge_out_of_order\<close> over the buffered segments.\<close>

fun merge_ooo :: "tcp_seq \<Rightarrow> pkt list \<Rightarrow> tcp_seq segments \<Rightarrow> bool \<Rightarrow>
    (tcp_seq \<times> pkt list \<times> tcp_seq segments \<times> bool) option" where
  "merge_ooo next data [] merged = Some (next, data, [], merged)"
| "merge_ooo next data ((seg_beg, p) # m) merged =
     (let seg_len = of_nat (pk_len p); seg_end = seq_add seg_beg seg_len in
      if seq_le seg_beg next \<and> seq_lt next seg_end then
        (let trim = seq_diff next seg_beg in
         if trim \<noteq> 0 then
           (case pkt_trim_front (unat (of_int trim :: u64)) p of
              None \<Rightarrow> None
            | Some q \<Rightarrow> merge_ooo (seq_add next (seg_len - of_int trim)) (data @ [q]) m True)
         else merge_ooo (seq_add next seg_len) (data @ [p]) m True)
      else if seq_ge next seg_end then merge_ooo next data m merged
      else Some (next, data, (seg_beg, p) # m, merged))"

definition merge_out_of_order :: "tcp_reorder \<Rightarrow> (tcp_reorder \<times> bool) option" where
  "merge_out_of_order s =
     map_option (\<lambda>(next, data, m, merged).
         (s\<lparr>tr_rcv_next := next, tr_rcv_data := data,
            tr_rcv_out_of_order := (tr_rcv_out_of_order s)\<lparr>pm_map := m\<rparr>\<rparr>, merged))
       (merge_ooo (tr_rcv_next s) (tr_rcv_data s) (pm_map (tr_rcv_out_of_order s)) False)"

definition tr_rearm :: "tcp_reorder \<Rightarrow> tcp_reorder" where
  "tr_rearm s = s\<lparr>tr_armed := rearm (tr_armed s)\<rparr>"

text \<open>The part after the SYN handling: a segment of a connection whose SYN was seen.\<close>

definition reorder_segment :: "tcp_reorder \<Rightarrow> tcp_hdr \<Rightarrow> nat \<Rightarrow> bytes \<Rightarrow> (tcp_reorder \<times> est) option" where
  "reorder_segment s h header_length frame =
     (let seg_len = of_nat (length frame) - of_nat header_length :: u32 in
      if \<not> segment_acceptable s (seq h) seg_len
      then Some (tr_rearm s, event_happen pkt_in no_generated_events)
      else case pkt_trim_front header_length (pkt_of_frag frame) of
             None \<Rightarrow> None
           | Some p \<Rightarrow>
               if of_nat (pk_len p) \<noteq> seg_len then None
               else
                 let dup = (if seq_lt (seq h) (tr_rcv_next s)
                            then min (tr_rcv_next s - seq h) seg_len else 0) in
                 (case (if seq_lt (seq h) (tr_rcv_next s) then pkt_trim_front (unat dup) p else Some p) of
                    None \<Rightarrow> None
                  | Some q \<Rightarrow>
                      (let seg_len' = seg_len - dup; seg_seq = seq_add (seq h) dup in
                       if seg_seq \<noteq> tr_rcv_next s then
                         map_option (\<lambda>t. (tr_rearm t, event_happen pkt_in no_generated_events))
                           (insert_out_of_order seg_seq q s)
                       else if f_rst h then
                         Some (s\<lparr>tr_armed := False\<rparr>,
                               close_event_happen (event_happen pkt_in no_generated_events))
                       else if pk_len q > 0 then
                         map_option (\<lambda>(t, _).
                             (tr_rearm t, event_happen pkt_in (event_happen new_data no_generated_events)))
                           (merge_out_of_order
                              (s\<lparr>tr_rcv_data := tr_rcv_data s @ [q],
                                 tr_rcv_next := seq_add (tr_rcv_next s) seg_len'\<rparr>))
                       else Some (tr_rearm s, event_happen pkt_in no_generated_events))))"

definition tcp_reorder_handle_packet_send :: "tcp_reorder \<Rightarrow> bytes \<Rightarrow> (tcp_reorder \<times> est) option" where
  "tcp_reorder_handle_packet_send s frame =
     (if tr_abnormal s then
        Some (tr_rearm s, event_happen pkt_in (event_happen abnormal_connection no_generated_events))
      else
        case frame_header eth_hdr_size ip_hdr_size frame of
          None \<Rightarrow> None
        | Some iph \<Rightarrow>
            (let ihl = unat (iph ! 0 AND 15) in
             case frame_header (eth_hdr_size + ihl * 4) tcp_hdr_len frame of
               None \<Rightarrow> None
             | Some th \<Rightarrow>
                 (let h = tcp_hdr_read th in
                  if \<not> f_syn h \<and> \<not> tr_seen_syn s then
                    Some (tr_rearm (s\<lparr>tr_abnormal := True,
                             tr_rcv_out_of_order := (tr_rcv_out_of_order s)\<lparr>pm_map := []\<rparr>\<rparr>),
                          event_happen pkt_in (event_happen abnormal_connection no_generated_events))
                  else
                    let s1 = (if f_syn h \<and> \<not> tr_seen_syn s
                              then s\<lparr>tr_seen_syn := True, tr_rcv_next := seq_add (seq h) 1,
                                     tr_rcv_initial := seq h\<rparr>
                              else s)
                    in reorder_segment s1 h (eth_hdr_size + ihl * 4 + unat (data_offset h) * 4) frame)))"

definition read_reordering_buffer :: "tcp_reorder \<Rightarrow> pkt \<times> tcp_reorder" where
  "read_reordering_buffer s = (foldl pkt_append pkt_empty (tr_rcv_data s), s\<lparr>tr_rcv_data := []\<rparr>)"

definition tcp_reorder_handle_packet_recv :: "tcp_reorder \<Rightarrow> bytes \<Rightarrow> tcp_reorder \<times> est" where
  "tcp_reorder_handle_packet_recv s frame = (s, event_happen pkt_in no_generated_events)"

section \<open>Receiving a stream\<close>

lemma at_seq_pos [simp]: "at base (seq_pos base k) = k"
  by (simp add: at_def seq_pos_def)

lemma seq_pos_at: "n < 2 ^ 32 \<Longrightarrow> seq_pos base (at base n) = n"
  by (simp add: at_def seq_pos_def unat_of_nat)

lemma seq_cmp_pos:
  assumes "m < seq_window" "n < seq_window"
  shows "seq_lt (at base m) (at base n) \<longleftrightarrow> m < n" "seq_le (at base m) (at base n) \<longleftrightarrow> m \<le> n"
    "seq_ge (at base m) (at base n) \<longleftrightarrow> n \<le> m" "seq_diff (at base m) (at base n) = int m - int n"
proof -
  have "m < 2 ^ 31" "n < 2 ^ 31"
    using assms by (simp_all add: seq_window_def)
  note w = seq_cmp_window [OF this]
  from seq_cmp_at [OF w, of base] seq_diff_at [OF w, of base]
  show "seq_lt (at base m) (at base n) \<longleftrightarrow> m < n" "seq_le (at base m) (at base n) \<longleftrightarrow> m \<le> n"
    "seq_ge (at base m) (at base n) \<longleftrightarrow> n \<le> m" "seq_diff (at base m) (at base n) = int m - int n"
    by simp_all
qed

text \<open>Taking the front segment: what is left of it after the part already received.\<close>

lemma take_front:
  assumes "stream_seg (seq_pos base) seq_window st (b, p)" "seq_pos base b \<le> k" "k < stop_of (seq_pos base) (b, p)"
  shows "\<exists>q. (if seq_diff (at base k) b \<noteq> 0
              then pkt_trim_front (unat (of_int (seq_diff (at base k) b) :: u64)) p else Some p) = Some q
    \<and> pkt_wf q \<and> pkt_bytes q = piece st k (stop_of (seq_pos base) (b, p))"
proof -
  let ?a = "seq_pos base b" and ?e = "stop_of (seq_pos base) (b, p)"
  have h: "pkt_wf p" "pkt_bytes p = piece st ?a ?e" and e: "?e < seq_window"
    using assms(1) by (auto simp: stream_seg_def holds_def)
  have d: "seq_diff (at base k) b = int (k - ?a)"
    using seq_cmp_pos(4) [of k ?a base] assms(2,3) e by (simp add: of_nat_diff)
  have "k - ?a < 2 ^ 64"
    using assms(3) e by (simp add: seq_window_def)
  then have u: "unat (of_int (int (k - ?a)) :: u64) = k - ?a"
    by (simp add: unat_of_nat)
  have "k - ?a \<le> length (pkt_bytes p)"
    using assms(3) by (simp add: h(2))
  then obtain q where "pkt_trim_front (k - ?a) p = Some q" "pkt_wf q" "pkt_bytes q = drop (k - ?a) (pkt_bytes p)"
    using pkt_trim_front_spec [OF h(1)] by blast
  with h d u assms(2) show ?thesis
    by (auto simp: drop_piece)
qed

lemma merge_ooo_Cons:
  assumes "seq_le b next" "seq_lt next (seq_add b (of_nat (pk_len p)))"
    and "(if seq_diff next b \<noteq> 0 then pkt_trim_front (unat (of_int (seq_diff next b) :: u64)) p else Some p) = Some q"
  shows "merge_ooo next data ((b, p) # m) mg
    = merge_ooo (seq_add next (of_nat (pk_len p) - of_int (seq_diff next b))) (data @ [q]) m True"
  using assms by (auto simp: Let_def split: if_splits)

lemma merge_ooo_spec:
  assumes "list_all (stream_seg (seq_pos base) seq_window st) m" "separated_by (seq_pos base) m"
    and "k < seq_window"
  shows "\<exists>k' ds m' mg'. merge_ooo (at base k) data m mg = Some (at base k', data @ ds, m', mg')
    \<and> k \<le> k' \<and> k' < seq_window \<and> concat (map pkt_bytes ds) = piece st k k' \<and> list_all pkt_wf ds
    \<and> list_all (stream_seg (seq_pos base) seq_window st) m' \<and> separated_by (seq_pos base) m'
    \<and> (\<forall>t \<in> set m'. k' < seq_pos base (fst t))
    \<and> {0..<k} \<union> cover_of (seq_pos base) m = {0..<k'} \<union> cover_of (seq_pos base) m'"
  using assms
proof (induction m arbitrary: k data mg)
  case Nil
  then show ?case by (intro exI [of _ k] exI [of _ "[]"]) (simp add: piece_def)
next
  case (Cons t m)
  obtain b p where t: "t = (b, p)" by (cases t)
  let ?P = "seq_pos base" and ?e = "stop_of (seq_pos base) (b, p)"
  have seg: "stream_seg ?P seq_window st (b, p)" and m: "list_all (stream_seg ?P seq_window st) m"
      "separated_by ?P m" "\<forall>u \<in> set m. ?e < ?P (fst u)"
    using Cons.prems t by auto
  have pe: "?P b + pk_len p = ?e" "?e < seq_window" "?P b \<le> ?e"
    using seg by (auto simp: stream_seg_def stop_of_def)
  have b: "at base (?P b) = b" by simp
  have fin: "seq_add b (of_nat (pk_len p)) = at base ?e"
    using at_seq_add [of base "?P b" "pk_len p"] pe(1) by simp
  note cmp = seq_cmp_pos [of "?P b" k base, unfolded b] seq_cmp_pos [of k ?e base] seq_cmp_pos(4) [of k "?P b" base, unfolded b]
  consider (take) "?P b \<le> k" "k < ?e" | (old) "?e \<le> k" | (gap) "k < ?P b"
    by linarith
  then show ?case
  proof cases
    case take
    then obtain q where q: "(if seq_diff (at base k) b \<noteq> 0
          then pkt_trim_front (unat (of_int (seq_diff (at base k) b) :: u64)) p else Some p) = Some q"
        "pkt_wf q" "pkt_bytes q = piece st k ?e"
      using take_front [OF seg] by blast
    have d: "seq_diff (at base k) b = int k - int (?P b)"
      using cmp(9) take pe Cons.prems(3) by simp
    have ek: "of_nat (?e - k) = (of_nat ?e - of_nat k :: u32)"
      using take by (simp add: of_nat_diff)
    have e: "of_nat ?e = (of_nat (?P b) + of_nat (pk_len p) :: u32)"
      by (simp only: pe(1) [symmetric] of_nat_add)
    have "(of_nat (pk_len p) :: u32) - of_int (seq_diff (at base k) b) = of_nat (?e - k)"
      unfolding d ek e of_int_diff of_int_of_nat_eq diff_diff_eq2 by (simp only: add.commute)
    then have nx: "seq_add (at base k) (of_nat (pk_len p) - of_int (seq_diff (at base k) b)) = at base ?e"
      using at_seq_add [of base k "?e - k"] take by simp
    have step: "merge_ooo (at base k) data (t # m) mg = merge_ooo (at base ?e) (data @ [q]) m True"
      unfolding t nx [symmetric] by (rule merge_ooo_Cons [OF _ _ q(1)])
        (use cmp take pe Cons.prems(3) in \<open>simp_all add: fin\<close>)
    from Cons.IH [OF m(1,2) pe(2), of "data @ [q]" True] obtain k' ds m' mg' where
        i: "merge_ooo (at base ?e) (data @ [q]) m True = Some (at base k', (data @ [q]) @ ds, m', mg')"
        "?e \<le> k'" "k' < seq_window" "concat (map pkt_bytes ds) = piece st ?e k'" "list_all pkt_wf ds"
        "list_all (stream_seg ?P seq_window st) m'" "separated_by ?P m'"
        "\<forall>t \<in> set m'. k' < ?P (fst t)" "{0..<?e} \<union> cover_of ?P m = {0..<k'} \<union> cover_of ?P m'"
      by blast
    have "{0..<k} \<union> cover_of ?P (t # m) = {0..<?e} \<union> cover_of ?P m"
      using take pe by (auto simp: t)
    moreover have "concat (map pkt_bytes (q # ds)) = piece st k k'"
      using i(2,4) q(3) take by (simp add: piece_append)
    ultimately show ?thesis
      using i step take q(2) by (intro exI [of _ k'] exI [of _ "q # ds"] exI [of _ m'] exI [of _ mg']) auto
  next
    case old
    have "merge_ooo (at base k) data (t # m) mg = merge_ooo (at base k) data m mg"
      using cmp old pe Cons.prems(3) by (simp add: t fin Let_def)
    moreover have "{0..<k} \<union> cover_of ?P (t # m) = {0..<k} \<union> cover_of ?P m"
      using old by (auto simp: t)
    ultimately show ?thesis
      using Cons.IH [OF m(1,2) Cons.prems(3), of data mg] by simp
  next
    case gap
    have "merge_ooo (at base k) data (t # m) mg = Some (at base k, data, t # m, mg)"
      using cmp gap pe Cons.prems(3) by (simp add: t fin Let_def)
    moreover have "\<forall>u \<in> set (t # m). k < ?P (fst u)"
      using gap m(3) pe by (fastforce simp: t)
    ultimately show ?thesis
      using Cons.prems by (intro exI [of _ k] exI [of _ "[]"] exI [of _ "t # m"] exI [of _ mg])
        (simp add: piece_def)
  qed
qed

text \<open>Counting positions from a later point of the stream.\<close>

lemma piece_shift: "piece (\<lambda>i. st (d + i)) a b = piece st (d + a) (d + b)"
  by (rule nth_equalityI) (simp_all add: piece_def add.assoc)

lemma seq_pos_rebase:
  assumes "d \<le> seq_pos base k"
  shows "seq_pos (at base d) k = seq_pos base k - d"
proof -
  have "unat (k - base) < 2 ^ 32"
    using unsigned_less [of "k - base"] by simp
  then have "unat (of_nat d :: u32) = d"
    using assms by (simp add: seq_pos_def unat_of_nat)
  with assms show ?thesis
    unfolding seq_pos_def at_def diff_diff_add [symmetric]
    by (simp add: unat_sub word_le_nat_alt)
qed

lemma stream_seg_rebase:
  assumes "stream_seg (seq_pos base) lim st (k, p)" "d \<le> seq_pos base k"
  shows "stream_seg (seq_pos (at base d)) lim (\<lambda>i. st (d + i)) (k, p)"
    "stop_of (seq_pos (at base d)) (k, p) = stop_of (seq_pos base) (k, p) - d"
  using assms seq_pos_rebase [OF assms(2)]
  by (auto simp: stream_seg_def holds_def stop_of_def piece_shift)

lemma segments_rebase:
  assumes "list_all (stream_seg (seq_pos base) lim st) m" "separated_by (seq_pos base) m"
    and "\<forall>t \<in> set m. d < seq_pos base (fst t)"
  shows "list_all (stream_seg (seq_pos (at base d)) lim (\<lambda>i. st (d + i))) m"
    "separated_by (seq_pos (at base d)) m" "\<forall>t \<in> set m. 0 < seq_pos (at base d) (fst t)"
    "(+) d ` cover_of (seq_pos (at base d)) m = cover_of (seq_pos base) m"
proof -
  have seg: "stream_seg (seq_pos base) lim st (k, p)" "d \<le> seq_pos base k" if "(k, p) \<in> set m" for k p
    using assms(1,3) that by (auto simp: list_all_iff less_imp_le)
  show "list_all (stream_seg (seq_pos (at base d)) lim (\<lambda>i. st (d + i))) m"
    using seg stream_seg_rebase(1) by (auto simp: list_all_iff)
  show "\<forall>t \<in> set m. 0 < seq_pos (at base d) (fst t)"
    using assms(3) seq_pos_rebase by (fastforce simp: less_imp_le)
  have "sorted_wrt (\<lambda>s t. stop_of (seq_pos (at base d)) s < seq_pos (at base d) (fst t)) m"
    using assms(2) unfolding separated_by_def
  proof (rule sorted_wrt_mono_rel [rotated])
    fix s t assume st: "s \<in> set m" "t \<in> set m" "stop_of (seq_pos base) s < seq_pos base (fst t)"
    obtain k p j q where [simp]: "s = (k, p)" "t = (j, q)" by (cases s, cases t)
    have "d \<le> stop_of (seq_pos base) (k, p)"
      using seg(2) [of k p] st(1) by (simp add: stop_of_def)
    with st seg [of k p] seg [of j q] stream_seg_rebase(2) [of base lim st k p d] seq_pos_rebase [of d base j]
    show "stop_of (seq_pos (at base d)) s < seq_pos (at base d) (fst t)" by simp
  qed
  then show "separated_by (seq_pos (at base d)) m"
    by (simp add: separated_by_def)
  have "(+) d ` {seq_pos (at base d) k..<stop_of (seq_pos (at base d)) (k, p)}
      = {seq_pos base k..<stop_of (seq_pos base) (k, p)}" if "(k, p) \<in> set m" for k p
  proof -
    have "d \<le> stop_of (seq_pos base) (k, p)"
      using seg(2) [OF that] by (simp add: stop_of_def)
    then show ?thesis
      using seq_pos_rebase [OF seg(2) [OF that]] stream_seg_rebase(2) [OF seg [OF that]] seg(2) [OF that]
      by (simp add: image_add_atLeastLessThan)
  qed
  then show "(+) d ` cover_of (seq_pos (at base d)) m = cover_of (seq_pos base) m"
    by (auto simp: cover_of_def image_UN)
qed

section \<open>The invariant of the reordering\<close>

definition max_window :: nat where
  "max_window = 3737600"

definition reorder_inv :: "(nat \<Rightarrow> byte) \<Rightarrow> tcp_seq \<Rightarrow> nat \<Rightarrow> nat \<Rightarrow> tcp_reorder \<Rightarrow> bool" where
  "reorder_inv st isn r n s \<longleftrightarrow>
     tr_seen_syn s \<and> \<not> tr_abnormal s \<and> tr_rcv_next s = at (isn + 1) n \<and>
     tr_rcv_window s = of_nat max_window \<and>
     r \<le> n \<and> list_all pkt_wf (tr_rcv_data s) \<and> concat (map pkt_bytes (tr_rcv_data s)) = piece st r n \<and>
     list_all (stream_seg (seq_pos (tr_rcv_next s)) seq_window (\<lambda>i. st (n + i)))
       (pm_map (tr_rcv_out_of_order s)) \<and>
     separated_by (seq_pos (tr_rcv_next s)) (pm_map (tr_rcv_out_of_order s)) \<and>
     (\<forall>t \<in> set (pm_map (tr_rcv_out_of_order s)). 0 < seq_pos (tr_rcv_next s) (fst t))"

text \<open>The stream positions received so far: a prefix and the buffered segments.\<close>

definition reorder_received :: "nat \<Rightarrow> tcp_reorder \<Rightarrow> nat set" where
  "reorder_received n s =
     {0..<n} \<union> (+) n ` cover_of (seq_pos (tr_rcv_next s)) (pm_map (tr_rcv_out_of_order s))"

lemma reorder_inv_cong:
  assumes "reorder_inv st isn r n s"
  shows "reorder_inv st isn r n (s\<lparr>tr_armed := b\<rparr>)" "reorder_received n (s\<lparr>tr_armed := b\<rparr>) = reorder_received n s"
    "reorder_inv st isn r n (tr_rearm s)" "reorder_received n (tr_rearm s) = reorder_received n s"
  using assms by (auto simp: reorder_inv_def reorder_received_def tr_rearm_def)

lemma reorder_first_missing:
  assumes "reorder_inv st isn r n s"
  shows "n \<notin> reorder_received n s"
  using assms by (fastforce simp: reorder_inv_def reorder_received_def cover_of_def)

text \<open>Which segments are taken, in positions of the stream.\<close>

definition in_window :: "nat \<Rightarrow> nat \<Rightarrow> nat \<Rightarrow> bool" where
  "in_window n a len \<longleftrightarrow>
     n \<le> a \<and> a < n + max_window \<or> 0 < len \<and> n < a + len \<and> a + len \<le> n + max_window"

definition near :: "nat \<Rightarrow> nat \<Rightarrow> nat \<Rightarrow> bool" where
  "near n a len \<longleftrightarrow> n \<le> a + 2 ^ 30 \<and> a \<le> n + 2 ^ 30 \<and> len < 65536"

lemma near_bounds:
  assumes "near n a len"
  shows "\<bar>int n - int a\<bar> < 2 ^ 31" "\<bar>int a - int (n + max_window)\<bar> < 2 ^ 31"
    "\<bar>int n - int (a + len - 1)\<bar> < 2 ^ 31" "\<bar>int (a + len - 1) - int (n + max_window)\<bar> < 2 ^ 31"
    "\<bar>int a - int n\<bar> < 2 ^ 31"
  using assms by (auto simp: near_def max_window_def)

lemma segment_acceptable_iff:
  assumes inv: "reorder_inv st isn r n s" and near: "near n a len"
  shows "segment_acceptable s (at (isn + 1) a) (of_nat len) \<longleftrightarrow> in_window n a len"
proof -
  let ?b = "isn + 1"
  have nx: "tr_rcv_next s = at ?b n" "tr_rcv_window s = of_nat max_window"
    using inv by (simp_all add: reorder_inv_def)
  have w: "(of_nat max_window :: u32) > 0" "(of_nat max_window :: u32) \<noteq> 0"
    by (simp_all add: max_window_def)
  have l: "(of_nat len :: u32) = 0 \<longleftrightarrow> len = 0" "(of_nat len :: u32) > 0 \<longleftrightarrow> len > 0"
    using near by (auto simp: near_def word_less_nat_alt unat_of_nat word_unat_eq_iff)
  have e: "seq_add (at ?b n) (of_nat max_window) = at ?b (n + max_window)"
    by (rule at_seq_add)
  have y: "seq_sub (seq_add (at ?b a) (of_nat len)) 1 = at ?b (a + len - 1)" if "len > 0"
    using that by (simp add: seq_sub_def seq_add_def at_def of_nat_diff)
  note c = near_bounds [OF near]
  have x: "seq_le (at ?b n) (at ?b a) \<and> seq_lt (at ?b a) (at ?b (n + max_window))
      \<longleftrightarrow> n \<le> a \<and> a < n + max_window"
    using seq_cmp_at(2) [OF c(1)] seq_cmp_at(1) [OF c(2)] by auto
  show ?thesis
  proof (cases "len = 0")
    case True
    then show ?thesis
      using w l x by (simp add: segment_acceptable_def Let_def nx e in_window_def)
  next
    case False
    have "seq_le (at ?b n) (at ?b (a + len - 1)) \<and> seq_lt (at ?b (a + len - 1)) (at ?b (n + max_window))
        \<longleftrightarrow> n \<le> a + len - 1 \<and> a + len - 1 < n + max_window"
      using seq_cmp_at(2) [OF c(3)] seq_cmp_at(1) [OF c(4)] by auto
    also have "\<dots> \<longleftrightarrow> n < a + len \<and> a + len \<le> n + max_window"
      using False by auto
    finally show ?thesis
      using w l x y False by (simp add: segment_acceptable_def Let_def nx e in_window_def)
  qed
qed

lemma pkt_trim_front_slots:
  "pkt_trim_front n p = Some q \<Longrightarrow> length (pk_frags q) \<le> length (pk_frags p) \<and> pk_allocated q = pk_allocated p"
  using trim_front_frags_suffix [of n "pk_frags p"]
  by (fastforce simp: pkt_trim_front_def Let_def split: if_splits prod.splits list.splits)

lemma seq_pos_from:
  "n \<le> a \<Longrightarrow> a - n < 2 ^ 32 \<Longrightarrow> seq_pos (at base n) (at base a) = a - n"
  using seq_pos_at [of "a - n" "at base n"] by (simp add: at_def of_nat_diff)

text \<open>A segment beyond a gap goes to the out-of-order buffer.\<close>

lemma reorder_insert:
  assumes inv: "reorder_inv st isn r n s" and q: "holds st a (a + len) q" "spare_slot q"
    and a: "n < a" "a < n + max_window" "len < 65536"
  shows "\<exists>t. insert_out_of_order (at (isn + 1) a) q s = Some t \<and> reorder_inv st isn r n t
    \<and> reorder_received n t = reorder_received n s \<union> {a..<a + len}"
proof -
  let ?b = "at (isn + 1) n" and ?k = "at (isn + 1) a" and ?pm = "tr_rcv_out_of_order s"
  have nx: "tr_rcv_next s = ?b"
    using inv by (simp add: reorder_inv_def)
  have pos: "seq_pos ?b ?k = a - n"
    using a by (intro seq_pos_from) (simp_all add: max_window_def)
  have stop: "stop_of (seq_pos ?b) (?k, q) = a - n + len"
    using holds_len [OF q(1)] by (simp add: stop_of_def pos)
  have seg: "stream_seg (seq_pos ?b) seq_window (\<lambda>i. st (n + i)) (?k, q)"
    using q(1) a stop by (auto simp: stream_seg_def holds_def pos piece_shift seq_window_def max_window_def)
  obtain pm where pm: "merge tcp_offset_ops ?k q ?pm = Some pm"
      "list_all (stream_seg (seq_pos ?b) seq_window (\<lambda>i. st (n + i))) (pm_map pm)"
      "separated_by (seq_pos ?b) (pm_map pm)"
      "cover_of (seq_pos ?b) (pm_map pm) = {a - n..<a - n + len} \<union> cover_of (seq_pos ?b) (pm_map ?pm)"
      "fst ` set (pm_map pm) \<subseteq> insert ?k (fst ` set (pm_map ?pm))"
    using tcp_off.merge_spec [OF seg _ _ q(2), of ?pm] inv pos stop by (auto simp: reorder_inv_def)
  have "0 < seq_pos ?b (fst t)" if "t \<in> set (pm_map pm)" for t
  proof -
    have "fst t = ?k \<or> (\<exists>u \<in> set (pm_map ?pm). fst t = fst u)"
      using pm(5) that by blast
    then show ?thesis
      using inv pos a(1) by (auto simp: reorder_inv_def)
  qed
  moreover have "(+) n ` {a - n..<a - n + len} = {a..<a + len}"
    using a(1) by (simp add: image_add_atLeastLessThan add.commute)
  ultimately show ?thesis
    using pm inv by (auto simp: insert_out_of_order_def reorder_inv_def reorder_received_def image_Un)
qed

text \<open>A segment in order is delivered, and with it what it makes contiguous.\<close>

lemma reorder_deliver:
  assumes inv: "reorder_inv st isn r n s" and q: "holds st n e q" and e: "n < e" "e - n < seq_window"
  shows "\<exists>t mg n'. merge_out_of_order (s\<lparr>tr_rcv_data := tr_rcv_data s @ [q], tr_rcv_next := at (isn + 1) e\<rparr>)
        = Some (t, mg) \<and> e \<le> n' \<and> reorder_inv st isn r n' t
      \<and> reorder_received n' t = reorder_received n s \<union> {n..<e}"
proof -
  let ?b = "at (isn + 1) n" and ?m = "pm_map (tr_rcv_out_of_order s)" and ?k = "e - n"
  let ?st = "\<lambda>i. st (n + i)"
  have nx: "tr_rcv_next s = ?b" and m: "list_all (stream_seg (seq_pos ?b) seq_window ?st) ?m"
      "separated_by (seq_pos ?b) ?m"
    using inv by (auto simp: reorder_inv_def)
  have k: "at (isn + 1) e = at ?b ?k"
    using e(1) by (simp add: at_def of_nat_diff)
  obtain k' ds m' mg where o: "merge_ooo (at ?b ?k) (tr_rcv_data s @ [q]) ?m False
        = Some (at ?b k', (tr_rcv_data s @ [q]) @ ds, m', mg)"
      "?k \<le> k'" "concat (map pkt_bytes ds) = piece ?st ?k k'" "list_all pkt_wf ds"
      "list_all (stream_seg (seq_pos ?b) seq_window ?st) m'" "separated_by (seq_pos ?b) m'"
      "\<forall>t \<in> set m'. k' < seq_pos ?b (fst t)"
      "{0..<?k} \<union> cover_of (seq_pos ?b) ?m = {0..<k'} \<union> cover_of (seq_pos ?b) m'"
    using merge_ooo_spec [OF m e(2), of "tr_rcv_data s @ [q]" False] by blast
  have b': "at ?b k' = at (isn + 1) (n + k')"
    by (simp add: at_def add.assoc)
  let ?t = "s\<lparr>tr_rcv_data := (tr_rcv_data s @ [q]) @ ds, tr_rcv_next := at ?b k',
      tr_rcv_out_of_order := (tr_rcv_out_of_order s)\<lparr>pm_map := m'\<rparr>\<rparr>"
  have data: "concat (map pkt_bytes ((tr_rcv_data s @ [q]) @ ds)) = piece st r (n + k')"
  proof -
    have "piece ?st ?k k' = piece st e (n + k')"
      using e(1) by (simp add: piece_shift)
    moreover have "piece st n e @ piece st e (n + k') = piece st n (n + k')"
      using e(1) o(2) by (intro piece_append) auto
    moreover have "piece st r n @ piece st n (n + k') = piece st r (n + k')"
      using inv by (intro piece_append) (auto simp: reorder_inv_def)
    ultimately show ?thesis
      using inv q o(3) by (simp add: reorder_inv_def holds_def)
  qed
  note rb = segments_rebase [OF o(5,6,7)]
  have "reorder_inv st isn r (n + k') ?t"
    using inv q o(4) data rb(1-3) b'
    by (simp add: reorder_inv_def holds_def add.assoc del: map_append)
  moreover have "reorder_received (n + k') ?t = reorder_received n s \<union> {n..<e}"
  proof -
    have "(+) (n + k') ` cover_of (seq_pos (at ?b k')) m' = (+) n ` cover_of (seq_pos ?b) m'"
      by (simp add: rb(4) [symmetric] image_image add.assoc)
    then have "reorder_received (n + k') ?t = {0..<n} \<union> (+) n ` ({0..<k'} \<union> cover_of (seq_pos ?b) m')"
      by (auto simp: reorder_received_def image_Un image_add_atLeastLessThan)
    also have "\<dots> = {0..<n} \<union> (+) n ` ({0..<?k} \<union> cover_of (seq_pos ?b) ?m)"
      by (simp only: o(8))
    also have "\<dots> = reorder_received n s \<union> {n..<e}"
      using e(1) by (auto simp: reorder_received_def nx image_Un image_add_atLeastLessThan)
    finally show ?thesis .
  qed
  moreover have "merge_out_of_order (s\<lparr>tr_rcv_data := tr_rcv_data s @ [q], tr_rcv_next := at (isn + 1) e\<rparr>)
      = Some (?t, mg)"
    using o(1) by (simp add: merge_out_of_order_def k)
  ultimately show ?thesis
    using o(2) by (intro exI [of _ ?t] exI [of _ mg] exI [of _ "n + k'"]) auto
qed

text \<open>The part of a segment that is new, as \<open>reorder_segment\<close> cuts it out.\<close>

lemma reorder_trim:
  assumes inv: "reorder_inv st isn r n s" and near: "near n a len" and w: "in_window n a len"
    and p: "holds st a (a + len) p"
  defines "dup \<equiv> (if seq_lt (at (isn + 1) a) (tr_rcv_next s)
                  then min (tr_rcv_next s - at (isn + 1) a) (of_nat len) else 0)"
  shows "\<exists>q. (if seq_lt (at (isn + 1) a) (tr_rcv_next s) then pkt_trim_front (unat dup) p else Some p) = Some q
    \<and> holds st (max a n) (a + len) q \<and> seq_add (at (isn + 1) a) dup = at (isn + 1) (max a n)
    \<and> of_nat len - dup = of_nat (a + len - max a n) \<and> (n < a \<longrightarrow> q = p)"
proof -
  let ?b = "isn + 1"
  have nx: "tr_rcv_next s = at ?b n"
    using inv by (simp add: reorder_inv_def)
  note c = near_bounds [OF near]
  have lt: "seq_lt (at ?b a) (at ?b n) \<longleftrightarrow> a < n"
    using seq_cmp_at(1) [OF c(5)] by simp
  show ?thesis
  proof (cases "a < n")
    case False
    then show ?thesis
      using p lt by (simp add: dup_def nx seq_add_def max_def)
  next
    case True
    then have e: "n < a + len" "n - a < len"
      using w by (auto simp: in_window_def)
    have sz: "n - a < 2 ^ 32" "len < 2 ^ 32"
      using near True by (auto simp: near_def)
    have d: "at ?b n - at ?b a = (of_nat (n - a) :: u32)"
      using True by (simp add: at_def of_nat_diff)
    have "min (of_nat (n - a)) (of_nat len :: u32) = of_nat (n - a)"
      using e sz by (simp add: min_def word_le_nat_alt unat_of_nat)
    then have dup: "dup = of_nat (n - a)"
      using True lt by (simp add: dup_def nx d)
    then have u: "unat dup = n - a"
      using sz by (simp add: unat_of_nat)
    have "n - a \<le> length (pkt_bytes p)"
      using p e by (simp add: holds_def)
    then obtain q where q: "pkt_trim_front (n - a) p = Some q" "pkt_wf q"
        "pkt_bytes q = drop (n - a) (pkt_bytes p)"
      using pkt_trim_front_spec [of p "n - a"] p by (auto simp: holds_def)
    then have "holds st n (a + len) q"
      using p True e by (simp add: holds_def drop_piece)
    moreover have "seq_add (at ?b a) dup = at ?b n"
      using at_seq_add [of ?b a "n - a"] True dup by simp
    moreover have "of_nat len - dup = of_nat (a + len - n)"
      using e True by (simp add: dup of_nat_diff)
    ultimately show ?thesis
      using q(1) True lt u by (simp add: nx max_def)
  qed
qed

definition new_positions :: "nat \<Rightarrow> nat \<Rightarrow> nat \<Rightarrow> nat set" where
  "new_positions n a len = (if in_window n a len then {a..<a + len} else {})"

lemma new_data_event [simp]:
  "\<not> on_event new_data (event_happen pkt_in no_generated_events)"
  "on_event new_data (event_happen pkt_in (event_happen new_data no_generated_events))"
  by (simp_all add: on_event_iff events_of_simps new_data_def pkt_in_def)

lemma reorder_segment_spec:
  assumes inv: "reorder_inv st isn r n s" and near: "near n a len"
    and hl: "hl \<le> length frame" "drop hl frame = piece st a (a + len)"
    and h: "seq h = at (isn + 1) a" "\<not> f_rst h"
  shows "\<exists>t ge n'. reorder_segment s h hl frame = Some (t, ge) \<and> n \<le> n' \<and> reorder_inv st isn r n' t
    \<and> reorder_received n' t = reorder_received n s \<union> new_positions n a len
    \<and> (on_event new_data ge \<longleftrightarrow> n < n')"
proof -
  let ?b = "isn + 1"
  have "length (drop hl frame) = len"
    by (simp add: hl(2))
  then have len: "length frame = hl + len"
    using hl(1) by simp
  have sl: "(of_nat (length frame) - of_nat hl :: u32) = of_nat len"
    by (simp add: len)
  have acc: "segment_acceptable s (seq h) (of_nat len) \<longleftrightarrow> in_window n a len"
    using segment_acceptable_iff [OF inv near] h(1) by simp
  show ?thesis
  proof (cases "in_window n a len")
    case False
    then show ?thesis
      using acc reorder_inv_cong(3,4) [OF inv]
      by (intro exI [of _ "tr_rearm s"] exI [of _ "event_happen pkt_in no_generated_events"] exI [of _ n])
        (simp add: reorder_segment_def sl new_positions_def)
  next
    case w: True
    obtain p where p: "pkt_trim_front hl (pkt_of_frag frame) = Some p" "holds st a (a + len) p"
      using pkt_trim_front_spec [OF pkt_of_frag_spec(2), of hl frame] hl
      by (auto simp: pkt_of_frag_spec holds_def)
    have pl: "pk_len p = len"
      using holds_len [OF p(2)] by simp
    have slot: "spare_slot p"
      using pkt_trim_front_slots [OF p(1)]
      by (simp add: spare_slot_def pkt_of_frag_def impl_allocate_def default_nr_frags_def)
    define dup where "dup = (if seq_lt (at ?b a) (tr_rcv_next s)
        then min (tr_rcv_next s - at ?b a) (of_nat len) else 0)"
    obtain q where q: "(if seq_lt (at ?b a) (tr_rcv_next s) then pkt_trim_front (unat dup) p else Some p) = Some q"
        "holds st (max a n) (a + len) q" "seq_add (at ?b a) dup = at ?b (max a n)"
        "of_nat len - dup = of_nat (a + len - max a n)" "n < a \<Longrightarrow> q = p"
      using reorder_trim [OF inv near w p(2)] unfolding dup_def by blast
    have nx: "tr_rcv_next s = at ?b n"
      using inv by (simp add: reorder_inv_def)
    have ne: "at ?b (max a n) \<noteq> tr_rcv_next s \<longleftrightarrow> n < a"
      using seq_cmp_at(5) [OF near_bounds(5) [OF near], of ?b] nx by (auto simp: max_def)
    have seg: "reorder_segment s h hl frame =
       (if n < a then
          map_option (\<lambda>t. (tr_rearm t, event_happen pkt_in no_generated_events))
            (insert_out_of_order (at ?b (max a n)) q s)
        else if pk_len q > 0 then
          map_option (\<lambda>(t, _). (tr_rearm t, event_happen pkt_in (event_happen new_data no_generated_events)))
            (merge_out_of_order (s\<lparr>tr_rcv_data := tr_rcv_data s @ [q],
               tr_rcv_next := seq_add (tr_rcv_next s) (of_nat len - dup)\<rparr>))
        else Some (tr_rearm s, event_happen pkt_in no_generated_events))"
      unfolding reorder_segment_def Let_def sl h(1) dup_def [symmetric]
      by (simp only: acc [unfolded h(1)] w p(1) option.case pl q(1,3) ne h(2) simp_thms if_True if_False)
    consider (ooo) "n < a" | (deliver) "a \<le> n" "n < a + len" | (empty) "a = n" "len = 0"
      using w by (fastforce simp: in_window_def)
    then show ?thesis
    proof cases
      case ooo
      then have "a < n + max_window" "len < 65536"
        using w near by (auto simp: in_window_def near_def)
      from reorder_insert [OF inv p(2) slot ooo this] ooo q(5)
      obtain t where "insert_out_of_order (at ?b (max a n)) q s = Some t" "reorder_inv st isn r n t"
          "reorder_received n t = reorder_received n s \<union> {a..<a + len}"
        by (auto simp: max_def)
      then show ?thesis
        using ooo w seg reorder_inv_cong(3,4)
        by (intro exI [of _ "tr_rearm t"] exI [of _ "event_happen pkt_in no_generated_events"] exI [of _ n])
          (auto simp: new_positions_def)
    next
      case deliver
      have q': "holds st n (a + len) q"
        using q(2) deliver by (simp add: max_def)
      have e: "a + len - n < seq_window"
        using near deliver by (auto simp: near_def seq_window_def)
      have ql: "pk_len q > 0"
        using holds_len [OF q'] deliver by simp
      have mx: "max a n = n"
        using deliver by simp
      have "seq_add (tr_rcv_next s) (of_nat len - dup) = at ?b (a + len)"
        unfolding q(4) mx nx at_seq_add using deliver by simp
      with reorder_deliver [OF inv q' deliver(2) e] obtain t mg n' where
          t: "merge_out_of_order (s\<lparr>tr_rcv_data := tr_rcv_data s @ [q],
               tr_rcv_next := seq_add (tr_rcv_next s) (of_nat len - dup)\<rparr>) = Some (t, mg)"
          "a + len \<le> n'" "reorder_inv st isn r n' t"
          "reorder_received n' t = reorder_received n s \<union> {n..<a + len}"
        by auto
      have "reorder_received n s \<union> {n..<a + len} = reorder_received n s \<union> {a..<a + len}"
        using deliver(1) by (auto simp: reorder_received_def)
      with t ql deliver w seg reorder_inv_cong(3,4) [OF t(3)] show ?thesis
        by (intro exI [of _ "tr_rearm t"]
            exI [of _ "event_happen pkt_in (event_happen new_data no_generated_events)"] exI [of _ n'])
          (simp add: new_positions_def)
    next
      case empty
      then have "pk_len q = 0"
        using holds_len [OF q(2)] by simp
      with empty w seg reorder_inv_cong(3,4) [OF inv] show ?thesis
        by (intro exI [of _ "tr_rearm s"] exI [of _ "event_happen pkt_in no_generated_events"] exI [of _ n])
          (simp add: new_positions_def)
    qed
  qed
qed

section \<open>Sequences of frames\<close>

definition frame_tcp :: "bytes \<Rightarrow> (tcp_hdr \<times> nat) option" where
  "frame_tcp frame =
     (case frame_header eth_hdr_size ip_hdr_size frame of
        None \<Rightarrow> None
      | Some iph \<Rightarrow>
          (case frame_header (eth_hdr_size + unat (iph ! 0 AND 15) * 4) tcp_hdr_len frame of
             None \<Rightarrow> None
           | Some th \<Rightarrow>
               Some (tcp_hdr_read th,
                     eth_hdr_size + unat (iph ! 0 AND 15) * 4 + unat (data_offset (tcp_hdr_read th)) * 4)))"

text \<open>A frame with the bytes \<open>a\<close> to \<open>a + len\<close> of the stream, and the SYN that opens it.\<close>

definition carries :: "(nat \<Rightarrow> byte) \<Rightarrow> tcp_seq \<Rightarrow> nat \<Rightarrow> nat \<Rightarrow> bytes \<Rightarrow> bool" where
  "carries st isn a len frame \<longleftrightarrow>
     (case frame_tcp frame of
        None \<Rightarrow> False
      | Some (h, hl) \<Rightarrow>
          hl \<le> length frame \<and> drop hl frame = piece st a (a + len) \<and> len < 65536 \<and>
          seq h = at (isn + 1) a \<and> \<not> f_rst h)"

definition opens :: "tcp_seq \<Rightarrow> bytes \<Rightarrow> bool" where
  "opens isn frame \<longleftrightarrow>
     (case frame_tcp frame of None \<Rightarrow> False | Some (h, hl) \<Rightarrow> hl = length frame \<and> f_syn h \<and> seq h = isn)"

lemma handle_segment:
  assumes "tr_seen_syn s" "\<not> tr_abnormal s" "frame_tcp frame = Some (h, hl)"
  shows "tcp_reorder_handle_packet_send s frame = reorder_segment s h hl frame"
  using assms by (auto simp: tcp_reorder_handle_packet_send_def frame_tcp_def Let_def split: option.splits)

lemma handle_syn:
  assumes "opens isn frame"
  shows "\<exists>s ge. tcp_reorder_handle_packet_send (make_tcp_reorder c x y) frame = Some (s, ge)
    \<and> reorder_inv st isn 0 0 s \<and> reorder_received 0 s = {}"
proof -
  obtain h where h: "frame_tcp frame = Some (h, length frame)" "f_syn h" "seq h = isn"
    using assms by (auto simp: opens_def split: option.splits)
  let ?s = "(make_tcp_reorder c x y)\<lparr>tr_seen_syn := True, tr_rcv_next := seq_add isn 1, tr_rcv_initial := isn\<rparr>"
  have "\<not> seq_le (seq_add isn 1) isn"
    using seq_cmp_at(2) [of 1 0 isn] by (simp add: at_def seq_add_def)
  then have "reorder_segment ?s h (length frame) frame
      = Some (tr_rearm ?s, event_happen pkt_in no_generated_events)"
    using h(3) by (simp add: reorder_segment_def segment_acceptable_def make_tcp_reorder_def)
  moreover have "tcp_reorder_handle_packet_send (make_tcp_reorder c x y) frame
      = reorder_segment ?s h (length frame) frame"
    using h by (auto simp: tcp_reorder_handle_packet_send_def frame_tcp_def make_tcp_reorder_def Let_def
        split: option.splits)
  moreover have "reorder_inv st isn 0 0 ?s" "reorder_received 0 ?s = {}"
    by (simp_all add: reorder_inv_def reorder_received_def make_tcp_reorder_def at_def seq_add_def
        max_window_def piece_def separated_by_def cover_of_def)
  ultimately show ?thesis
    using reorder_inv_cong(3,4) [of st isn 0 0 ?s] by auto
qed

lemma handle_carried:
  assumes inv: "reorder_inv st isn r n s" and c: "carries st isn a len frame"
    and near: "n \<le> a + 2 ^ 30" "a \<le> n + 2 ^ 30"
  shows "\<exists>t ge n'. tcp_reorder_handle_packet_send s frame = Some (t, ge) \<and> n \<le> n' \<and> reorder_inv st isn r n' t
    \<and> reorder_received n' t = reorder_received n s \<union> new_positions n a len
    \<and> (on_event new_data ge \<longleftrightarrow> n < n')"
proof -
  obtain h hl where h: "frame_tcp frame = Some (h, hl)" "hl \<le> length frame"
      "drop hl frame = piece st a (a + len)" "len < 65536" "seq h = at (isn + 1) a" "\<not> f_rst h"
    using c by (auto simp: carries_def split: option.splits)
  have "tr_seen_syn s" "\<not> tr_abnormal s"
    using inv by (simp_all add: reorder_inv_def)
  moreover have "near n a len"
    using near h(4) by (simp add: near_def)
  ultimately show ?thesis
    using reorder_segment_spec [OF inv _ h(2,3,5,6)] handle_segment h(1) by simp
qed

fun reorder_run :: "tcp_reorder \<Rightarrow> bytes list \<Rightarrow> tcp_reorder option" where
  "reorder_run s [] = Some s"
| "reorder_run s (f # fs) =
     (case tcp_reorder_handle_packet_send s f of None \<Rightarrow> None | Some (t, _) \<Rightarrow> reorder_run t fs)"

definition covers :: "(nat \<times> nat) list \<Rightarrow> nat set" where
  "covers segs = (\<Union>(a, len) \<in> set segs. {a..<a + len})"

lemma reorder_run_spec:
  assumes "reorder_inv st isn r n s" "n \<le> max_window"
    and "list_all2 (\<lambda>(a, len) f. carries st isn a len f \<and> a + len \<le> max_window) segs fs"
    and "reorder_received n s \<subseteq> {0..<max_window}"
  shows "\<exists>t n'. reorder_run s fs = Some t \<and> reorder_inv st isn r n' t
    \<and> reorder_received n' t = reorder_received n s \<union> covers segs"
  using assms(3) assms(1,2,4)
proof (induction arbitrary: s n rule: list_all2_induct)
  case Nil
  then show ?case by (auto simp: covers_def)
next
  case (Cons ad segs f fs)
  obtain a len where ad: "ad = (a, len)" by (cases ad)
  have c: "carries st isn a len f" "a + len \<le> max_window"
    using Cons.hyps(1) by (simp_all add: ad)
  have "n \<le> a + 2 ^ 30" "a \<le> n + 2 ^ 30"
    using c(2) Cons.prems(2) by (auto simp: max_window_def)
  from handle_carried [OF Cons.prems(1) c(1) this] obtain t ge n' where
      t: "tcp_reorder_handle_packet_send s f = Some (t, ge)" "reorder_inv st isn r n' t"
      "reorder_received n' t = reorder_received n s \<union> new_positions n a len"
    by blast
  have new: "reorder_received n s \<union> new_positions n a len = reorder_received n s \<union> {a..<a + len}"
    using c(2) by (auto simp: new_positions_def in_window_def reorder_received_def)
  then have sub: "reorder_received n' t \<subseteq> {0..<max_window}"
    using t(3) Cons.prems(3) c(2) by auto
  moreover have "{0..<n'} \<subseteq> reorder_received n' t"
    by (auto simp: reorder_received_def)
  ultimately have "n' \<le> max_window"
    by (metis atLeastLessThan_subset_iff le0 not_less_eq_eq order_trans zero_order(3) le_zero_eq)
  from Cons.IH [OF t(2) this sub] obtain u m where
      "reorder_run t fs = Some u" "reorder_inv st isn r m u"
      "reorder_received m u = reorder_received n' t \<union> covers segs"
    by blast
  moreover have "covers (ad # segs) = {a..<a + len} \<union> covers segs"
    by (simp add: covers_def ad)
  ultimately show ?case
    using t new by (intro exI [of _ u] exI [of _ m]) (simp add: Un_assoc)
qed

lemma append_all_bytes:
  assumes "list_all pkt_wf ps" "pkt_wf p"
  shows "pkt_wf (foldl pkt_append p ps) \<and> pkt_bytes (foldl pkt_append p ps) = pkt_bytes p @ concat (map pkt_bytes ps)"
  using assms by (induction ps arbitrary: p) (simp_all add: pkt_append_spec)

lemma read_reordering_buffer_spec:
  assumes "reorder_inv st isn r n s" "read_reordering_buffer s = (p, t)"
  shows "pkt_wf p \<and> pkt_bytes p = piece st r n \<and> reorder_inv st isn n n t
    \<and> reorder_received n t = reorder_received n s"
proof -
  have t: "p = foldl pkt_append pkt_empty (tr_rcv_data s)" "t = s\<lparr>tr_rcv_data := []\<rparr>"
    using assms(2) by (simp_all add: read_reordering_buffer_def)
  have "list_all pkt_wf (tr_rcv_data s)"
    using assms(1) by (simp add: reorder_inv_def)
  from append_all_bytes [OF this pkt_empty_spec(2)] assms(1) show ?thesis
    by (auto simp: t reorder_inv_def reorder_received_def pkt_empty_spec piece_def)
qed

section \<open>Frames with given contents\<close>

text \<open>A frame with an IPv4 and a TCP header without options.\<close>

definition plain_frame :: "tcp_hdr \<Rightarrow> bytes \<Rightarrow> bytes" where
  "plain_frame h payload =
     replicate 14 0 @ (0x45 # replicate 19 0) @ tcp_hdr_write h (replicate 20 0) @ payload"

definition plain_hdr :: "tcp_seq \<Rightarrow> bool \<Rightarrow> tcp_hdr" where
  "plain_hdr s syn =
     \<lparr>src_port = 1000, dst_port = 80, seq = s, ack = 0, rsvd1 = 0, data_offset = 5,
      f_fin = False, f_syn = syn, f_rst = False, f_psh = False, f_ack = \<not> syn, f_urg = False,
      rsvd2 = 0, window = 1000, checksum = 0, urgent = 0\<rparr>"

lemma plain_hdr_simps [simp]:
  "data_offset (plain_hdr s syn) = 5" "f_syn (plain_hdr s syn) = syn" "\<not> f_rst (plain_hdr s syn)"
  "seq (plain_hdr s syn) = s"
  by (simp_all add: plain_hdr_def)

lemma frame_tcp_plain:
  assumes "data_offset h = 5"
  shows "frame_tcp (plain_frame h payload) = Some (h, 54)"
proof -
  let ?t = "tcp_hdr_write h (replicate 20 0)" and ?ip = "0x45 # replicate 19 0 :: bytes"
  have t: "length ?t = 20" "tcp_hdr_read ?t = h"
    using tcp_hdr_write_eq [of "replicate 20 0" h] tcp_hdr_read_write [of "replicate 20 0" h] by simp_all
  have a: "frame_header 14 20 (plain_frame h payload) = Some ?ip"
    using t(1) by (simp add: frame_header_def plain_frame_def)
  have b: "frame_header 34 20 (plain_frame h payload) = Some ?t"
    using t(1) by (simp add: frame_header_def plain_frame_def)
  have c: "unat ((0x45 :: byte) AND 15) = 5"
    by simp
  show ?thesis
    using a b t(2) assms by (simp add: frame_tcp_def eth_hdr_size_def ip_hdr_size_def tcp_hdr_len_def)
qed

lemma length_plain_frame: "length (plain_frame h payload) = 54 + length payload"
  using tcp_hdr_write_eq [of "replicate 20 0" h] by (simp add: plain_frame_def)

lemma drop_plain_frame: "drop 54 (plain_frame h payload) = payload"
  using tcp_hdr_write_eq [of "replicate 20 0" h] by (simp add: plain_frame_def)

lemma carries_plain:
  assumes "length d < 65536" "d = piece st a (a + length d)"
  shows "carries st isn a (length d) (plain_frame (plain_hdr (at (isn + 1) a) False) d)"
  using assms frame_tcp_plain [of "plain_hdr (at (isn + 1) a) False" d]
  by (simp add: carries_def length_plain_frame drop_plain_frame)

lemma opens_plain: "opens isn (plain_frame (plain_hdr isn True) [])"
  using frame_tcp_plain [of "plain_hdr isn True" "[]"]
  by (simp add: opens_def length_plain_frame)

section \<open>Properties\<close>

text \<open>
  TCP reordering, one segment: let the preprocessor have delivered exactly the first \<open>n\<close>
  bytes of a stream and buffer further pieces of it. Any frame with a piece of the stream
  within \<open>2^30\<close> bytes of that point (new, old, overlapping or beyond a gap) is handled without
  a failed assertion; afterwards the received positions are the old ones and, if the segment
  meets the window, those of the segment; the bytes delivered are a longer prefix of the
  stream that ends at the first position not received; and \<open>new_data\<close> is generated exactly
  if the prefix grew. Reading the buffer hands out exactly the delivered, unread bytes.
\<close>

theorem tcp_reorder_segment:
  assumes "reorder_inv st isn r n s" "carries st isn a len frame" "n \<le> a + 2 ^ 30" "a \<le> n + 2 ^ 30"
  shows "\<exists>t ge n'. tcp_reorder_handle_packet_send s frame = Some (t, ge) \<and> n \<le> n'
    \<and> reorder_inv st isn r n' t
    \<and> reorder_received n' t = reorder_received n s \<union> new_positions n a len
    \<and> n' \<notin> reorder_received n' t
    \<and> (on_event new_data ge \<longleftrightarrow> n < n')
    \<and> pkt_bytes (fst (read_reordering_buffer t)) = piece st r n'"
proof -
  obtain t ge n' where t: "tcp_reorder_handle_packet_send s frame = Some (t, ge)" "n \<le> n'"
      "reorder_inv st isn r n' t" "reorder_received n' t = reorder_received n s \<union> new_positions n a len"
      "on_event new_data ge \<longleftrightarrow> n < n'"
    using handle_carried [OF assms] by blast
  with reorder_first_missing [OF t(3)] read_reordering_buffer_spec [OF t(3)] show ?thesis
    by (metis surjective_pairing)
qed

theorem tcp_reorder_segment_witness:
  "\<exists>s ge t ge' n'. tcp_reorder_handle_packet_send (make_tcp_reorder True 0 0) (plain_frame (plain_hdr 7 True) []) = Some (s, ge)
     \<and> tcp_reorder_handle_packet_send s (plain_frame (plain_hdr (at (7 + 1) 0) False) [5, 5]) = Some (t, ge')
     \<and> pkt_bytes (fst (read_reordering_buffer t)) = piece (\<lambda>_. 5) 0 n'"
proof -
  obtain s ge where s: "tcp_reorder_handle_packet_send (make_tcp_reorder True 0 0) (plain_frame (plain_hdr 7 True) [])
        = Some (s, ge)" "reorder_inv (\<lambda>_. 5) 7 0 0 s"
    using handle_syn [OF opens_plain [of 7], of True 0 0] by blast
  have "carries (\<lambda>_. 5) 7 0 2 (plain_frame (plain_hdr (at (7 + 1) 0) False) [5, 5])"
    using carries_plain [of "[5, 5]" "\<lambda>_. 5" 0 7] by (simp add: piece_def upt_rec eval_nat_numeral)
  from tcp_reorder_segment [OF s(2) this] s(1) show ?thesis by auto
qed



text \<open>
  C7. Payload in a SYN: the sequence number of a SYN segment is that of the SYN itself and its
  payload starts one later, but \<open>handle_packet_send\<close> takes the payload to start at the
  segment's sequence number. A SYN that carries two or more bytes therefore delivers its
  payload without the first byte.
\<close>

theorem syn_payload_loses_first_byte:
  assumes "2 \<le> length d" "length d < 65536"
  shows "\<exists>t ge. tcp_reorder_handle_packet_send (make_tcp_reorder c x y) (plain_frame (plain_hdr isn True) d)
      = Some (t, ge)
    \<and> tr_rcv_next t = isn + of_nat (length d) \<and> pkt_bytes (fst (read_reordering_buffer t)) = tl d"
proof -
  let ?f = "plain_frame (plain_hdr isn True) d" and ?h = "plain_hdr isn True" and ?st = "\<lambda>i. d ! i"
  let ?s = "(make_tcp_reorder c x y)\<lparr>tr_seen_syn := True, tr_rcv_next := seq_add isn 1, tr_rcv_initial := isn\<rparr>"
  have st: "piece ?st 0 (length d) = d"
    by (simp add: piece_def map_nth)
  have inv: "reorder_inv ?st (isn - 1) 1 1 ?s" "reorder_received 1 ?s = {0}"
    by (auto simp: reorder_inv_def reorder_received_def make_tcp_reorder_def at_def seq_add_def
        max_window_def piece_def separated_by_def cover_of_def)
  have near: "near 1 0 (length d)"
    using assms by (simp add: near_def)
  have "54 \<le> length ?f" "drop 54 ?f = piece ?st 0 (0 + length d)" "seq ?h = at (isn - 1 + 1) 0" "\<not> f_rst ?h"
    by (simp_all add: length_plain_frame drop_plain_frame st)
  from reorder_segment_spec [OF inv(1) near this] obtain t ge n where
      t: "reorder_segment ?s ?h 54 ?f = Some (t, ge)" "reorder_inv ?st (isn - 1) 1 n t"
      "reorder_received n t = {0} \<union> new_positions 1 0 (length d)"
    unfolding inv(2) by blast
  have "new_positions 1 0 (length d) = {0..<length d}"
    using assms by (simp add: new_positions_def in_window_def max_window_def)
  then have r: "reorder_received n t = {0..<length d}"
    using t(3) assms by auto
  then have n: "n = length d"
    using reorder_first_missing [OF t(2)] r
    by (auto simp: reorder_received_def not_less subset_iff intro: antisym)
  have "tcp_reorder_handle_packet_send (make_tcp_reorder c x y) ?f = reorder_segment ?s ?h 54 ?f"
    using frame_tcp_plain [of ?h d]
    by (auto simp: tcp_reorder_handle_packet_send_def frame_tcp_def make_tcp_reorder_def Let_def
        split: option.splits)
  moreover have "pkt_bytes (fst (read_reordering_buffer t)) = piece ?st 1 (length d)"
    using read_reordering_buffer_spec [OF t(2)] n by (metis surjective_pairing)
  moreover have "piece ?st 1 (length d) = tl d"
    using drop_piece [of 1 ?st 0 "length d"] st by (simp add: drop_Suc)
  moreover have "tr_rcv_next t = isn + of_nat (length d)"
    using t(2) n by (simp add: reorder_inv_def at_def)
  ultimately show ?thesis
    using t(1) by auto
qed

theorem syn_payload_loses_first_byte_witness:
  "\<exists>t ge. tcp_reorder_handle_packet_send (make_tcp_reorder True 0 0) (plain_frame (plain_hdr 100 True) [1, 2, 3])
      = Some (t, ge) \<and> pkt_bytes (fst (read_reordering_buffer t)) = [2, 3]"
  using syn_payload_loses_first_byte [of "[1, 2, 3]" True 0 0 100] by auto

end
