(* ===== verification/Async_Flow.thy ===== *)
theory Async_Flow
  imports SD_Async_Flow
begin

text \<open>
  \<open>netstar/asyncflow/async_flow.hh\<close>: the two-sided async flow, a client and a server work unit
  that hand packets to each other, and its manager.

  The state of a call is one record: the flow's two sides, the manager's flow table (the
  insertion of the reverse key asserts that the key is new, so it matters when the call runs)
  and the packets produced on the send streams. \<open>None\<close> is a failed \<open>assert\<close> or a disengaged
  optional. \<open>reverse_key\<close> is the preprocessor's \<open>get_reverse_flow_key\<close>. A loop function's
  completion is a step of its own; completions inside the invoking call (a future that is
  ready at once) are not modelled here, since the two sides can then re-enter each other.
\<close>

section \<open>The flow\<close>

record ('s, 'p, 'k) af_state =
  af_id :: nat
  af_client :: "('s, 'p, 'k) work_unit"
  af_server :: "('s, 'p, 'k) work_unit"
  af_ic_destroyed :: bool
  af_table :: "('k \<times> nat) list"
  af_sent :: "(nat \<times> 'p) list"

record ('s, 'p, 'k) af_ppr =
  ppr_make :: "bool \<Rightarrow> 's"
  ppr_send :: "('s, 'p) ppr_handler"
  ppr_recv :: "('s, 'p) ppr_handler"
  ppr_reverse_key :: "'p \<Rightarrow> 'k"

definition get_work_unit :: "bool \<Rightarrow> ('s, 'p, 'k) af_state \<Rightarrow> ('s, 'p, 'k) work_unit" where
  "get_work_unit is_client f = (if is_client then af_client f else af_server f)"

definition upd_work_unit :: "bool \<Rightarrow> (('s, 'p, 'k) work_unit \<Rightarrow> ('s, 'p, 'k) work_unit) \<Rightarrow>
    ('s, 'p, 'k) af_state \<Rightarrow> ('s, 'p, 'k) af_state" where
  "upd_work_unit is_client g f =
     (if is_client then f\<lparr>af_client := g (af_client f)\<rparr> else f\<lparr>af_server := g (af_server f)\<rparr>)"

definition af_make :: "('s, 'p, 'k) af_ppr \<Rightarrow> nat \<Rightarrow> nat \<Rightarrow> 'k \<Rightarrow> ('k \<times> nat) list \<Rightarrow> ('s, 'p, 'k) af_state" where
  "af_make ppr i client_direction key table =
     \<lparr>af_id = i,
      af_client = (make_work_unit (ppr_make ppr) True client_direction)\<lparr>wu_flow_key := Some key\<rparr>,
      af_server = make_work_unit (ppr_make ppr) False (get_reverse_direction client_direction),
      af_ic_destroyed = False, af_table = table, af_sent = []\<rparr>"

definition af_close_ppr_and_remove_flow_key :: "bool \<Rightarrow> ('s, 'p, 'k) af_state \<Rightarrow> ('s, 'p, 'k) af_state" where
  "af_close_ppr_and_remove_flow_key is_client f0 =
     (let f = upd_work_unit is_client (\<lambda>w. w\<lparr>wu_ppr_close := True\<rparr>) f0 in
      case wu_flow_key (get_work_unit is_client f) of
        None \<Rightarrow> f
      | Some k \<Rightarrow> upd_work_unit is_client (\<lambda>w. w\<lparr>wu_flow_key := None\<rparr>)
                    (f\<lparr>af_table := filter (\<lambda>e. fst e \<noteq> k) (af_table f)\<rparr>))"

definition af_handler :: "('s, 'p, 'k) af_ppr \<Rightarrow> bool \<Rightarrow> ('s, 'p) ppr_handler" where
  "af_handler ppr is_send = (if is_send then ppr_send ppr else ppr_recv ppr)"

definition af_events :: "bool \<Rightarrow> ('s, 'p, 'k) work_unit \<Rightarrow> est" where
  "af_events is_send w = (if is_send then wu_send_events w else wu_recv_events w)"

definition af_preprocess_packet :: "('s, 'p, 'k) af_ppr \<Rightarrow> bool \<Rightarrow> 'p rte_packet \<Rightarrow> bool \<Rightarrow>
    ('s, 'p, 'k) af_state \<Rightarrow> ('s, 'p, 'k) af_state \<times> 'p rte_packet \<times> est" where
  "af_preprocess_packet ppr is_client pkt is_send f0 =
     (let (s, pkt', ge) = af_handler ppr is_send (wu_ppr (get_work_unit is_client f0)) pkt;
          f = upd_work_unit is_client (\<lambda>w. w\<lparr>wu_ppr := s\<rparr>) f0;
          fe = filter_events (af_events is_send (get_work_unit is_client f)) ge
      in (if on_close_event fe then af_close_ppr_and_remove_flow_key is_client f else f, pkt', fe))"

definition af_emplace_context :: "bool \<Rightarrow> 'p rte_packet \<Rightarrow> est \<Rightarrow> bool \<Rightarrow> ('s, 'p, 'k) af_state \<Rightarrow>
    ('s, 'p, 'k) af_state" where
  "af_emplace_context is_client pkt fe is_send =
     upd_work_unit is_client
       (\<lambda>w. w\<lparr>wu_cur_context := Some \<lparr>pc_pkt = pkt, pc_fe = fe, pc_is_send = is_send\<rparr>\<rparr>)"

definition af_send_packet_out :: "'p rte_packet \<Rightarrow> bool \<Rightarrow> ('s, 'p, 'k) af_state \<Rightarrow> ('s, 'p, 'k) af_state" where
  "af_send_packet_out pkt is_client f =
     (case pkt of
        None \<Rightarrow> f
      | Some p \<Rightarrow> f\<lparr>af_sent := af_sent f @ [(wu_direction (get_work_unit is_client f), p)]\<rparr>)"

definition af_add_new_mapping :: "'k \<Rightarrow> ('s, 'p, 'k) af_state \<Rightarrow> ('s, 'p, 'k) af_state option" where
  "af_add_new_mapping k f =
     (if map_of (af_table f) k = None then Some (f\<lparr>af_table := (k, af_id f) # af_table f\<rparr>) else None)"

text \<open>
  \<open>handle_packet_recv\<close> with \<open>action_after_packet_handle\<close>, \<open>preprocess_and_forward\<close> and
  \<open>internal_packet_forward\<close> for received packets, which leave the flow on this side.
\<close>

definition af_action_recv :: "('s, 'p, 'k) af_ppr \<Rightarrow> 'p rte_packet \<Rightarrow> bool \<Rightarrow> ('s, 'p, 'k) af_state \<Rightarrow>
    ('s, 'p, 'k) af_state" where
  "af_action_recv ppr pkt is_client f0 =
     (let w = get_work_unit is_client f0 in
      if wu_loop_fn w then
        (if wu_cur_context w = None then
           (let (f, pkt', fe) = af_preprocess_packet ppr is_client pkt False f0
            in if no_event fe then af_send_packet_out pkt' is_client f
               else af_emplace_context is_client pkt' fe False f)
         else upd_work_unit is_client
                (\<lambda>w. w\<lparr>wu_buffer_q := wu_buffer_q w @ [\<lparr>bp_pkt = pkt, bp_is_send = False\<rparr>]\<rparr>) f0)
      else
        (let (s, pkt', ge) = ppr_recv ppr (wu_ppr w) pkt;
             f = upd_work_unit is_client (\<lambda>w. w\<lparr>wu_ppr := s\<rparr>) f0
         in af_send_packet_out pkt' is_client
              (if on_close_event ge then af_close_ppr_and_remove_flow_key is_client f else f)))"

definition af_handle_packet_recv :: "('s, 'p, 'k) af_ppr \<Rightarrow> 'p rte_packet \<Rightarrow> bool \<Rightarrow>
    ('s, 'p, 'k) af_state \<Rightarrow> ('s, 'p, 'k) af_state option" where
  "af_handle_packet_recv ppr pkt is_client f =
     (case pkt of
        None \<Rightarrow> Some f
      | Some p \<Rightarrow>
          if wu_ppr_close (get_work_unit is_client f) then Some f
          else if wu_flow_key (get_work_unit is_client f) = None then
            map_option (af_action_recv ppr pkt is_client) (af_add_new_mapping (ppr_reverse_key ppr p) f)
          else Some (af_action_recv ppr pkt is_client f))"

definition af_internal_packet_forward :: "('s, 'p, 'k) af_ppr \<Rightarrow> 'p rte_packet \<Rightarrow> bool \<Rightarrow> bool \<Rightarrow>
    ('s, 'p, 'k) af_state \<Rightarrow> ('s, 'p, 'k) af_state option" where
  "af_internal_packet_forward ppr pkt is_client is_send f =
     (if is_send then af_handle_packet_recv ppr pkt (\<not> is_client) f
      else Some (af_send_packet_out pkt is_client f))"

definition af_preprocess_and_forward :: "('s, 'p, 'k) af_ppr \<Rightarrow> 'p rte_packet \<Rightarrow> bool \<Rightarrow> bool \<Rightarrow>
    ('s, 'p, 'k) af_state \<Rightarrow> ('s, 'p, 'k) af_state option" where
  "af_preprocess_and_forward ppr pkt is_client is_send f0 =
     (let (s, pkt', ge) = af_handler ppr is_send (wu_ppr (get_work_unit is_client f0)) pkt;
          f = upd_work_unit is_client (\<lambda>w. w\<lparr>wu_ppr := s\<rparr>) f0
      in af_internal_packet_forward ppr pkt' is_client is_send
           (if on_close_event ge then af_close_ppr_and_remove_flow_key is_client f else f))"

definition af_action_after_packet_handle :: "('s, 'p, 'k) af_ppr \<Rightarrow> 'p rte_packet \<Rightarrow> bool \<Rightarrow> bool \<Rightarrow>
    ('s, 'p, 'k) af_state \<Rightarrow> ('s, 'p, 'k) af_state option" where
  "af_action_after_packet_handle ppr pkt is_client is_send f0 =
     (let w = get_work_unit is_client f0 in
      if wu_loop_fn w then
        (if wu_cur_context w = None then
           (let (f, pkt', fe) = af_preprocess_packet ppr is_client pkt is_send f0
            in if no_event fe then af_internal_packet_forward ppr pkt' is_client is_send f
               else Some (af_emplace_context is_client pkt' fe is_send f))
         else Some (upd_work_unit is_client
                (\<lambda>w. w\<lparr>wu_buffer_q := wu_buffer_q w @ [\<lparr>bp_pkt = pkt, bp_is_send = is_send\<rparr>]\<rparr>) f0))
      else af_preprocess_and_forward ppr pkt is_client is_send f0)"

lemma af_action_recv_eq:
  "af_action_after_packet_handle ppr pkt is_client False f = Some (af_action_recv ppr pkt is_client f)"
  by (auto simp: af_action_after_packet_handle_def af_action_recv_def af_internal_packet_forward_def
      af_preprocess_and_forward_def af_handler_def Let_def split: prod.splits)

definition af_handle_packet_send :: "('s, 'p, 'k) af_ppr \<Rightarrow> 'p rte_packet \<Rightarrow> nat \<Rightarrow>
    ('s, 'p, 'k) af_state \<Rightarrow> ('s, 'p, 'k) af_state option" where
  "af_handle_packet_send ppr pkt direction f =
     (let is_client = (direction = wu_direction (af_client f)) in
      if wu_ppr_close (get_work_unit is_client f) \<or> \<not> af_ic_destroyed f then Some f
      else af_action_after_packet_handle ppr pkt is_client True f)"

section \<open>The loop\<close>

text \<open>The draining loop of \<open>close_async_loop\<close>; the packet in work is popped after it was forwarded.\<close>

fun af_flush :: "('s, 'p, 'k) af_ppr \<Rightarrow> bool \<Rightarrow> 'p buffered_packet list \<Rightarrow> ('s, 'p, 'k) af_state \<Rightarrow>
    ('s, 'p, 'k) af_state option" where
  "af_flush ppr is_client [] f = Some (upd_work_unit is_client (\<lambda>w. w\<lparr>wu_buffer_q := []\<rparr>) f)"
| "af_flush ppr is_client (b # bs) f =
     (case af_preprocess_and_forward ppr (bp_pkt b) is_client (bp_is_send b) f of
        None \<Rightarrow> None
      | Some g \<Rightarrow> af_flush ppr is_client bs g)"

definition af_close_async_loop :: "('s, 'p, 'k) af_ppr \<Rightarrow> bool \<Rightarrow> ('s, 'p, 'k) af_state \<Rightarrow>
    ('s, 'p, 'k) af_state option" where
  "af_close_async_loop ppr is_client f0 =
     (let f1 = upd_work_unit is_client (\<lambda>w. w\<lparr>wu_loop_fn := False\<rparr>) f0 in
      case af_flush ppr is_client (wu_buffer_q (get_work_unit is_client f1)) f1 of
        None \<Rightarrow> None
      | Some f2 \<Rightarrow>
          (case set_quit Fulfilled (wu_quit_pr (get_work_unit is_client f2)) of
             None \<Rightarrow> None
           | Some _ \<Rightarrow> Some (upd_work_unit is_client (\<lambda>w. w\<lparr>wu_quit_pr := None\<rparr>) f2)))"

fun af_resume :: "('s, 'p, 'k) af_ppr \<Rightarrow> bool \<Rightarrow> 'p buffered_packet list \<Rightarrow> ('s, 'p, 'k) af_state \<Rightarrow>
    ('s, 'p, 'k) af_state option" where
  "af_resume ppr is_client [] f0 =
     (let f = upd_work_unit is_client (\<lambda>w. w\<lparr>wu_buffer_q := []\<rparr>) f0
      in Some (if wu_ppr_close (get_work_unit is_client f)
               then af_emplace_context is_client None make_close_event True f else f))"
| "af_resume ppr is_client (b # bs) f0 =
     (let (f, pkt, fe) = af_preprocess_packet ppr is_client (bp_pkt b) (bp_is_send b) f0
      in if no_event fe then
           (case af_internal_packet_forward ppr pkt is_client (bp_is_send b) f of
              None \<Rightarrow> None
            | Some g \<Rightarrow> af_resume ppr is_client bs g)
         else Some (af_emplace_context is_client pkt fe (bp_is_send b)
                      (upd_work_unit is_client (\<lambda>w. w\<lparr>wu_buffer_q := bs\<rparr>) f)))"

definition af_loop_fn_post_handler :: "('s, 'p, 'k) af_ppr \<Rightarrow> bool \<Rightarrow> af_action \<Rightarrow> ('s, 'p, 'k) af_state \<Rightarrow>
    ('s, 'p, 'k) af_state option" where
  "af_loop_fn_post_handler ppr is_client action f0 =
     (case wu_cur_context (get_work_unit is_client f0) of
        None \<Rightarrow> None
      | Some context \<Rightarrow>
          (case (if action = Forward \<or> action = Close_forward
                 then af_internal_packet_forward ppr (pc_pkt context) is_client (pc_is_send context) f0
                 else Some f0) of
             None \<Rightarrow> None
           | Some f1 \<Rightarrow>
               (let f2 = upd_work_unit is_client (\<lambda>w. w\<lparr>wu_cur_context := None\<rparr>) f1
                in if action = Close_drop \<or> action = Close_forward then af_close_async_loop ppr is_client f2
                   else af_resume ppr is_client (wu_buffer_q (get_work_unit is_client f2)) f2)))"

definition af_async_loop_exception_handler :: "bool \<Rightarrow> ('s, 'p, 'k) af_state \<Rightarrow> ('s, 'p, 'k) af_state option" where
  "af_async_loop_exception_handler is_client f0 =
     (let f1 = upd_work_unit is_client
                 (\<lambda>w. w\<lparr>wu_cur_context := None, wu_loop_fn := False, wu_buffer_q := []\<rparr>)
                 (f0\<lparr>af_ic_destroyed := False\<rparr>)
      in case set_quit Failed (wu_quit_pr (get_work_unit is_client f1)) of
           None \<Rightarrow> None
         | Some q \<Rightarrow> Some (upd_work_unit is_client (\<lambda>w. w\<lparr>wu_quit_pr := Some q\<rparr>) f1))"

definition af_destroy_initial_context :: "('s, 'p, 'k) af_state \<Rightarrow> ('s, 'p, 'k) af_state" where
  "af_destroy_initial_context f = f\<lparr>af_ic_destroyed := True\<rparr>"

definition af_ppr_passive_close :: "bool \<Rightarrow> ('s, 'p, 'k) af_state \<Rightarrow> ('s, 'p, 'k) af_state" where
  "af_ppr_passive_close is_client f0 =
     (let f = af_close_ppr_and_remove_flow_key is_client f0; w = get_work_unit is_client f
      in if wu_loop_fn w \<and> wu_cur_context w = None
         then af_emplace_context is_client None make_close_event True f else f)"

definition af_event_registration :: "bool \<Rightarrow> bool \<Rightarrow> nat \<Rightarrow> ('s, 'p, 'k) af_state \<Rightarrow> ('s, 'p, 'k) af_state" where
  "af_event_registration is_client is_send ev =
     upd_work_unit is_client
       (\<lambda>w. if is_send then w\<lparr>wu_send_events := register_event ev (wu_send_events w)\<rparr>
            else w\<lparr>wu_recv_events := register_event ev (wu_recv_events w)\<rparr>)"

definition af_event_unregistration :: "bool \<Rightarrow> bool \<Rightarrow> nat \<Rightarrow> ('s, 'p, 'k) af_state \<Rightarrow> ('s, 'p, 'k) af_state" where
  "af_event_unregistration is_client is_send ev =
     upd_work_unit is_client
       (\<lambda>w. if is_send then w\<lparr>wu_send_events := unregister_event ev (wu_send_events w)\<rparr>
            else w\<lparr>wu_recv_events := unregister_event ev (wu_recv_events w)\<rparr>)"

definition af_run_async_loop :: "bool \<Rightarrow> ('s, 'p, 'k) af_state \<Rightarrow> ('s, 'p, 'k) af_state" where
  "af_run_async_loop is_client =
     upd_work_unit is_client (\<lambda>w. w\<lparr>wu_loop_fn := True, wu_quit_pr := Some Pending\<rparr>)"

section \<open>The manager\<close>

record ('s, 'p, 'k) af_manager =
  am_flow_table :: "('k \<times> nat) list"
  am_impls :: "('s, 'p, 'k) af_state list"
  am_new_ic_q :: "'p sd_queue_item list"
  am_held :: "'p sd_queue_item list"
  am_out :: "(nat \<times> 'p) list"

text \<open>A flow's functions run on the manager's table and streams.\<close>

definition af_load :: "nat \<Rightarrow> ('s, 'p, 'k) af_manager \<Rightarrow> ('s, 'p, 'k) af_state" where
  "af_load i m = (am_impls m ! i)\<lparr>af_table := am_flow_table m, af_sent := []\<rparr>"

definition af_store :: "nat \<Rightarrow> ('s, 'p, 'k) af_manager \<Rightarrow> ('s, 'p, 'k) af_state \<Rightarrow> ('s, 'p, 'k) af_manager" where
  "af_store i m f =
     m\<lparr>am_impls := (am_impls m)[i := f\<lparr>af_table := [], af_sent := []\<rparr>],
       am_flow_table := af_table f, am_out := am_out m @ af_sent f\<rparr>"

definition af_receive :: "async_flow_config \<Rightarrow> ('s, 'p, 'k) af_ppr \<Rightarrow> nat \<Rightarrow> 'p rte_packet \<Rightarrow> 'k \<Rightarrow>
    ('s, 'p, 'k) af_manager \<Rightarrow> ('s, 'p, 'k) af_manager option" where
  "af_receive cfg ppr direction pkt key m =
     (case map_of (am_flow_table m) key of
        None \<Rightarrow>
          Some (if length (am_new_ic_q m) < new_flow_queue_size cfg
                   \<and> length (am_flow_table m) < max_flow_table_size cfg
                then let i = length (am_impls m) in
                     m\<lparr>am_impls := am_impls m @ [af_make ppr i direction key []],
                       am_flow_table := (key, i) # am_flow_table m,
                       am_new_ic_q := am_new_ic_q m @ [\<lparr>qi_impl = i, qi_pkt = pkt, qi_direction = direction\<rparr>]\<rparr>
                else m)
      | Some i \<Rightarrow> map_option (af_store i m) (af_handle_packet_send ppr pkt direction (af_load i m)))"

definition af_get_initial_context :: "('s, 'p, 'k) af_manager \<Rightarrow> ('s, 'p, 'k) af_manager option" where
  "af_get_initial_context m =
     (case am_new_ic_q m of
        [] \<Rightarrow> None
      | q # qs \<Rightarrow> Some (m\<lparr>am_new_ic_q := qs, am_held := am_held m @ [q]\<rparr>))"

definition af_end_initial_context :: "('s, 'p, 'k) af_ppr \<Rightarrow> nat \<Rightarrow> ('s, 'p, 'k) af_manager \<Rightarrow>
    ('s, 'p, 'k) af_manager option" where
  "af_end_initial_context ppr n m =
     (let q = am_held m ! n; i = qi_impl q;
          m1 = m\<lparr>am_held := take n (am_held m) @ drop (Suc n) (am_held m)\<rparr>
      in map_option (af_store i m1)
           (af_handle_packet_send ppr (qi_pkt q) (qi_direction q)
              (af_destroy_initial_context (af_load i m1))))"

section \<open>The server's flow key\<close>

lemma upd_work_unit_simps [simp]:
  "get_work_unit c (upd_work_unit c g f) = g (get_work_unit c f)"
  "get_work_unit (\<not> c) (upd_work_unit c g f) = get_work_unit (\<not> c) f"
  "af_table (upd_work_unit c g f) = af_table f" "af_sent (upd_work_unit c g f) = af_sent f"
  "af_ic_destroyed (upd_work_unit c g f) = af_ic_destroyed f" "af_id (upd_work_unit c g f) = af_id f"
  "af_server (upd_work_unit False g f) = g (af_server f)" "af_client (upd_work_unit True g f) = g (af_client f)"
  "af_server (upd_work_unit True g f) = af_server f" "af_client (upd_work_unit False g f) = af_client f"
  by (simp_all add: get_work_unit_def upd_work_unit_def)

lemma get_work_unit_simps [simp]:
  "get_work_unit True f = af_client f" "get_work_unit False f = af_server f"
  by (simp_all add: get_work_unit_def)

text \<open>Neither side's functions ever give the server a key.\<close>

abbreviation server_key :: "('s, 'p, 'k) af_state \<Rightarrow> 'k option" where
  "server_key f \<equiv> wu_flow_key (af_server f)"

lemma server_key_upd:
  assumes "\<And>w. wu_flow_key (g w) = wu_flow_key w" "server_key f = None"
  shows "server_key (upd_work_unit c g f) = None"
  using assms by (cases c) simp_all

lemma server_key_close: "server_key f = None \<Longrightarrow> server_key (af_close_ppr_and_remove_flow_key c f) = None"
  by (cases c) (auto simp: af_close_ppr_and_remove_flow_key_def Let_def split: option.splits)

lemma server_key_preprocess:
  "af_preprocess_packet ppr c pkt d f = (g, pkt', fe) \<Longrightarrow> server_key f = None \<Longrightarrow> server_key g = None"
  by (auto simp: af_preprocess_packet_def Let_def intro!: server_key_close server_key_upd
      split: prod.splits if_splits)

lemma server_key_emplace: "server_key f = None \<Longrightarrow> server_key (af_emplace_context c pkt fe d f) = None"
  by (simp add: af_emplace_context_def server_key_upd)

lemma server_key_out [simp]: "server_key (af_send_packet_out pkt c f) = server_key f"
  by (simp add: af_send_packet_out_def split: option.splits)

lemma server_key_add: "af_add_new_mapping k f = Some g \<Longrightarrow> server_key g = server_key f"
  by (auto simp: af_add_new_mapping_def split: if_splits)

lemma server_key_action_recv: "server_key f = None \<Longrightarrow> server_key (af_action_recv ppr pkt c f) = None"
  by (auto simp: af_action_recv_def Let_def intro!: server_key_close server_key_upd server_key_emplace
      dest: server_key_preprocess split: prod.splits)

lemma server_key_forward:
  assumes "af_internal_packet_forward ppr pkt c d f = Some g" "server_key f = None"
  shows "server_key g = None"
  using assms
  by (auto simp: af_internal_packet_forward_def af_handle_packet_recv_def
      intro!: server_key_action_recv dest: server_key_add split: if_splits option.splits)

lemma server_key_preprocess_and_forward:
  assumes "af_preprocess_and_forward ppr pkt c d f = Some g" "server_key f = None"
  shows "server_key g = None"
proof -
  obtain s p ge where h: "af_handler ppr d (wu_ppr (get_work_unit c f)) pkt = (s, p, ge)"
    by (metis prod_cases3)
  let ?f = "upd_work_unit c (\<lambda>w. w\<lparr>wu_ppr := s\<rparr>) f"
  have "server_key (if on_close_event ge then af_close_ppr_and_remove_flow_key c ?f else ?f) = None"
    using assms(2) by (auto intro!: server_key_close server_key_upd)
  with assms(1) h show ?thesis
    by (auto simp: af_preprocess_and_forward_def Let_def intro: server_key_forward)
qed

lemma server_key_send:
  assumes "af_handle_packet_send ppr pkt d f = Some g" "server_key f = None"
  shows "server_key g = None"
  using assms
  by (auto simp: af_handle_packet_send_def af_action_after_packet_handle_def Let_def
      intro!: server_key_emplace server_key_upd
      dest: server_key_preprocess server_key_preprocess_and_forward server_key_forward
      split: if_splits prod.splits)

lemma server_key_flush:
  "af_flush ppr c bs f = Some g \<Longrightarrow> server_key f = None \<Longrightarrow> server_key g = None"
  by (induction bs arbitrary: f)
    (auto intro!: server_key_upd dest: server_key_preprocess_and_forward split: option.splits)

lemma server_key_resume:
  "af_resume ppr c bs f = Some g \<Longrightarrow> server_key f = None \<Longrightarrow> server_key g = None"
proof (induction bs arbitrary: f)
  case Nil
  then show ?case by (auto simp: Let_def intro!: server_key_emplace server_key_upd)
next
  case (Cons b bs)
  obtain h pkt fe where p: "af_preprocess_packet ppr c (bp_pkt b) (bp_is_send b) f = (h, pkt, fe)"
    by (metis prod_cases3)
  have "server_key h = None"
    using server_key_preprocess [OF p] Cons.prems(2) .
  with Cons p show ?case
    by (auto simp: Let_def intro!: server_key_emplace server_key_upd dest: server_key_forward
        split: if_splits option.splits)
qed

lemma server_key_post:
  assumes "af_loop_fn_post_handler ppr c a f = Some g" "server_key f = None"
  shows "server_key g = None"
proof -
  obtain h where h: "server_key h = None"
      "(if a = Close_drop \<or> a = Close_forward
        then af_close_async_loop ppr c (upd_work_unit c (\<lambda>w. w\<lparr>wu_cur_context := None\<rparr>) h)
        else af_resume ppr c (wu_buffer_q (get_work_unit c h)) (upd_work_unit c (\<lambda>w. w\<lparr>wu_cur_context := None\<rparr>) h))
       = Some g"
    using assms
    by (auto simp: af_loop_fn_post_handler_def Let_def dest: server_key_forward split: option.splits if_splits)
  have k: "server_key (upd_work_unit c (\<lambda>w. w\<lparr>wu_cur_context := None\<rparr>) h) = None"
    using h(1) by (intro server_key_upd) simp_all
  show ?thesis
    using h(2) k
    by (auto simp: af_close_async_loop_def Let_def intro!: server_key_upd
        dest!: server_key_flush server_key_resume split: if_splits option.splits)
qed

section \<open>Histories of one flow\<close>

datatype 'p af_op =
    Af_sends "'p rte_packet" nat
  | Af_context_ends
  | Af_returns bool af_action
  | Af_fails bool
  | Af_closes bool
  | Af_registers bool bool nat
  | Af_unregisters bool bool nat
  | Af_runs bool

fun af_exec :: "('s, 'p, 'k) af_ppr \<Rightarrow> 'p af_op \<Rightarrow> ('s, 'p, 'k) af_state \<Rightarrow> ('s, 'p, 'k) af_state option" where
  "af_exec ppr (Af_sends pkt d) f = af_handle_packet_send ppr pkt d f"
| "af_exec ppr Af_context_ends f = Some (af_destroy_initial_context f)"
| "af_exec ppr (Af_returns c a) f = af_loop_fn_post_handler ppr c a f"
| "af_exec ppr (Af_fails c) f = af_async_loop_exception_handler c f"
| "af_exec ppr (Af_closes c) f = Some (af_ppr_passive_close c f)"
| "af_exec ppr (Af_registers c d ev) f = Some (af_event_registration c d ev f)"
| "af_exec ppr (Af_unregisters c d ev) f = Some (af_event_unregistration c d ev f)"
| "af_exec ppr (Af_runs c) f = Some (af_run_async_loop c f)"

inductive af_reachable :: "('s, 'p, 'k) af_ppr \<Rightarrow> ('s, 'p, 'k) af_state \<Rightarrow> bool" for ppr where
  start: "af_reachable ppr (af_make ppr i d k table)"
| step: "af_reachable ppr f \<Longrightarrow> af_exec ppr c f = Some g \<Longrightarrow> af_reachable ppr g"

lemma server_key_exec:
  assumes "af_exec ppr c f = Some g" "server_key f = None"
  shows "server_key g = None"
proof (cases c)
  case (Af_fails x)
  with assms show ?thesis
    by (auto simp: af_async_loop_exception_handler_def Let_def intro!: server_key_upd split: option.splits)
qed (use assms in \<open>auto simp: af_destroy_initial_context_def af_ppr_passive_close_def
      af_event_registration_def af_event_unregistration_def af_run_async_loop_def Let_def
      intro!: server_key_upd server_key_emplace server_key_close
      dest: server_key_send server_key_post\<close>)

lemma af_reachable_server_key: "af_reachable ppr f \<Longrightarrow> server_key f = None"
proof (induction rule: af_reachable.induct)
  case start
  show ?case by (simp add: af_make_def make_work_unit_def)
next
  case step
  then show ?case using server_key_exec by blast
qed

section \<open>Properties\<close>

text \<open>
  The reverse mapping leaks: in no reachable state does the server side of a two-sided flow
  know its flow key (\<open>handle_packet_recv\<close> inserts the key into the table without storing it
  in the work unit), so closing the server side removes nothing from the flow table.
\<close>

theorem af_reverse_mapping_never_removed:
  assumes "af_reachable ppr f"
  shows "wu_flow_key (af_server f) = None \<and> af_table (af_ppr_passive_close False f) = af_table f"
  using af_reachable_server_key [OF assms]
  by (simp add: af_ppr_passive_close_def af_close_ppr_and_remove_flow_key_def af_emplace_context_def Let_def)

theorem af_reverse_mapping_never_removed_witness:
  "af_table (af_ppr_passive_close False (af_make \<lparr>ppr_make = \<lambda>_. (), ppr_send = simple_handler,
      ppr_recv = simple_handler, ppr_reverse_key = \<lambda>p. p\<rparr> 0 0 1 [(1, 0), (2, 0)])) = [(1, 0), (2, 0)]"
proof -
  let ?p = "\<lparr>ppr_make = \<lambda>_. (), ppr_send = simple_handler, ppr_recv = simple_handler,
      ppr_reverse_key = \<lambda>p. p\<rparr>"
  show ?thesis
    using af_reverse_mapping_never_removed [OF af_reachable.start [of ?p 0 0 1 "[(1, 0), (2, 0)]"]]
    by (simp add: af_make_def)
qed

text \<open>A preprocessor that leaves packets alone and does not close.\<close>

definition passes :: "('s, 'p) ppr_handler \<Rightarrow> bool" where
  "passes handle \<longleftrightarrow> (\<forall>s pkt. fst (snd (handle s pkt)) = pkt \<and> \<not> on_close_event (snd (snd (handle s pkt))))"

text \<open>
  C6. Two packets abort the program: take a two-sided flow without loops, whose reverse key is
  not in the table yet. The first packet from the client is sent out on the server's
  direction; the second one of the same connection finds the server's key unset again,
  inserts the reverse key a second time and fails the assertion on the insertion.
\<close>

theorem af_second_packet_aborts:
  assumes "passes (ppr_send ppr)" "passes (ppr_recv ppr)"
    and "af_ic_destroyed f" "\<not> wu_ppr_close (af_client f)" "\<not> wu_ppr_close (af_server f)"
    and "\<not> wu_loop_fn (af_client f)" "\<not> wu_loop_fn (af_server f)" "wu_flow_key (af_server f) = None"
    and "wu_direction (af_client f) = d" "ppr_reverse_key ppr p = ppr_reverse_key ppr q"
    and "map_of (af_table f) (ppr_reverse_key ppr p) = None"
  shows "\<exists>g. af_handle_packet_send ppr (Some p) d f = Some g
    \<and> af_sent g = af_sent f @ [(wu_direction (af_server f), p)]
    \<and> af_handle_packet_send ppr (Some q) d g = None"
proof -
  obtain s1 e1 where h1: "ppr_send ppr (wu_ppr (af_client f)) (Some p) = (s1, Some p, e1)" "\<not> on_close_event e1"
    using assms(1) by (metis passes_def prod.collapse)
  obtain s2 e2 where h2: "ppr_recv ppr (wu_ppr (af_server f)) (Some p) = (s2, Some p, e2)" "\<not> on_close_event e2"
    using assms(2) by (metis passes_def prod.collapse)
  let ?g = "f\<lparr>af_client := (af_client f)\<lparr>wu_ppr := s1\<rparr>, af_server := (af_server f)\<lparr>wu_ppr := s2\<rparr>,
      af_table := (ppr_reverse_key ppr p, af_id f) # af_table f,
      af_sent := af_sent f @ [(wu_direction (af_server f), p)]\<rparr>"
  have "af_handle_packet_send ppr (Some p) d f = Some ?g"
    using assms h1 h2
    by (simp add: af_handle_packet_send_def af_action_after_packet_handle_def af_preprocess_and_forward_def
        af_handler_def af_internal_packet_forward_def af_handle_packet_recv_def af_add_new_mapping_def
        af_action_recv_def af_send_packet_out_def upd_work_unit_def Let_def)
  moreover obtain s3 e3 where h3: "ppr_send ppr s1 (Some q) = (s3, Some q, e3)" "\<not> on_close_event e3"
    using assms(1) by (metis passes_def prod.collapse)
  have "af_handle_packet_send ppr (Some q) d ?g = None"
    using assms h3
    by (simp add: af_handle_packet_send_def af_action_after_packet_handle_def af_preprocess_and_forward_def
        af_handler_def af_internal_packet_forward_def af_handle_packet_recv_def af_add_new_mapping_def
        upd_work_unit_def Let_def)
  ultimately show ?thesis by auto
qed

theorem af_second_packet_aborts_witness:
  "\<exists>g. af_handle_packet_send \<lparr>ppr_make = \<lambda>_. (), ppr_send = simple_handler, ppr_recv = simple_handler,
        ppr_reverse_key = \<lambda>_. CHR ''r''\<rparr> (Some 1) 0
        (af_destroy_initial_context (af_make \<lparr>ppr_make = \<lambda>_. (), ppr_send = simple_handler,
          ppr_recv = simple_handler, ppr_reverse_key = \<lambda>_. CHR ''r''\<rparr> 0 0 CHR ''c'' [(CHR ''c'', 0)])) = Some g
     \<and> af_sent g = [(1, 1)]
     \<and> af_handle_packet_send \<lparr>ppr_make = \<lambda>_. (), ppr_send = simple_handler, ppr_recv = simple_handler,
        ppr_reverse_key = \<lambda>_. CHR ''r''\<rparr> (Some 2) 0 g = None"
proof -
  let ?p = "\<lparr>ppr_make = \<lambda>_. (), ppr_send = simple_handler, ppr_recv = simple_handler,
      ppr_reverse_key = \<lambda>_. CHR ''r''\<rparr>"
  let ?f = "af_destroy_initial_context (af_make ?p 0 0 CHR ''c'' [(CHR ''c'', 0)])"
  have h: "passes simple_handler"
    by (simp add: passes_def simple_handler_def on_close_event_iff events_of_simps)
  have "wu_direction (af_server ?f) = 1" "af_sent ?f = []"
    by (simp_all add: af_destroy_initial_context_def af_make_def make_work_unit_def get_reverse_direction_def)
  with af_second_packet_aborts [of ?p ?f 0 1 2] h show ?thesis
    by (simp add: af_destroy_initial_context_def af_make_def make_work_unit_def)
qed

end
