(* ===== verification/Semaphore.thy ===== *)
theory Semaphore
  imports NS_Prelude
begin

text \<open>
  The waiting structures of the Seastar core: \<open>expiring_fifo\<close> (core/expiring_fifo.hh), a FIFO
  whose entries can expire in place, and \<open>basic_semaphore\<close> (core/semaphore.hh) on top of it.

  \<^item> An expiring FIFO keeps, per entry, the optional payload (absent once expired) and whether
    a timer was armed for it, and beside the list the number of live entries. Its promise is
    the locale \<open>waiting_line\<close>: the live entries behave as a FIFO list. The underlying
    \<open>chunked_fifo\<close> is a list.
  \<^item> A semaphore keeps its counter (an \<open>ssize_t\<close>, here a 64-bit word read signed), the
    exception it was broken with, and its waiters. A promise is a caller-chosen identity, and
    \<open>sem_log\<close> records in order how promises were resolved.
  \<^item> Reading the front of a FIFO that has none is undefined; the operations that may do so
    return an option.
\<close>

section \<open>Expiring FIFO\<close>

record 'a efifo =
  ef_list :: "('a option \<times> bool) list"
  ef_size :: nat

definition ef_init :: "'a efifo" where
  "ef_init = \<lparr>ef_list = [], ef_size = 0\<rparr>"

fun drop_expired :: "('a option \<times> bool) list \<Rightarrow> ('a option \<times> bool) list" where
  "drop_expired ((None, t) # xs) = drop_expired xs"
| "drop_expired xs = xs"

definition drop_expired_front :: "'a efifo \<Rightarrow> 'a efifo" where
  "drop_expired_front q = q\<lparr>ef_list := drop_expired (ef_list q)\<rparr>"

definition ef_empty :: "'a efifo \<Rightarrow> bool" where
  "ef_empty q \<longleftrightarrow> ef_size q = 0"

definition ef_front :: "'a efifo \<Rightarrow> 'a option" where
  "ef_front q = (case ef_list q of [] \<Rightarrow> None | (p, t) # _ \<Rightarrow> p)"

definition ef_push_back :: "'a \<Rightarrow> bool \<Rightarrow> 'a efifo \<Rightarrow> 'a efifo" where
  "ef_push_back x timed q = \<lparr>ef_list = ef_list q @ [(Some x, timed)], ef_size = ef_size q + 1\<rparr>"

definition ef_pop_front :: "'a efifo \<Rightarrow> 'a efifo option" where
  "ef_pop_front q = (case ef_list q of [] \<Rightarrow> None
    | _ # xs \<Rightarrow> Some (drop_expired_front \<lparr>ef_list = xs, ef_size = ef_size q - 1\<rparr>))"

text \<open>The timer callback of the entry at position \<open>i\<close>: it exists while the entry is live and timed.\<close>

definition ef_expire :: "nat \<Rightarrow> 'a efifo \<Rightarrow> ('a \<times> 'a efifo) option" where
  "ef_expire i q = (if i < length (ef_list q) then
      (case ef_list q ! i of (Some x, True) \<Rightarrow>
          Some (x, drop_expired_front
            \<lparr>ef_list = (ef_list q)[i := (None, True)], ef_size = ef_size q - 1\<rparr>)
       | _ \<Rightarrow> None) else None)"

definition live :: "('a option \<times> bool) list \<Rightarrow> 'a list" where
  "live xs = List.map_filter fst xs"

definition ef_live :: "'a efifo \<Rightarrow> 'a list" where
  "ef_live q = live (ef_list q)"

definition ef_inv :: "'a efifo \<Rightarrow> bool" where
  "ef_inv q \<longleftrightarrow> ef_size q = length (ef_live q)
    \<and> (case ef_list q of [] \<Rightarrow> True | (p, t) # _ \<Rightarrow> p \<noteq> None)"

lemma live_simps [simp]:
  "live [] = []"
  "live ((Some x, t) # xs) = x # live xs"
  "live ((None, t) # xs) = live xs"
  "live (xs @ ys) = live xs @ live ys"
  by (simp_all add: live_def map_filter_simps) (simp add: List.map_filter_def)

lemma live_drop_expired [simp]: "live (drop_expired xs) = live xs"
  by (induction xs rule: drop_expired.induct) auto

lemma drop_expired_front_live:
  "case drop_expired xs of [] \<Rightarrow> True | (p, t) # _ \<Rightarrow> p \<noteq> None"
  by (induction xs rule: drop_expired.induct) auto

lemma length_drop_expired: "length (drop_expired xs) \<le> length xs"
  by (induction xs rule: drop_expired.induct) auto

lemma drop_expired_front_spec:
  assumes "ef_size q = length (ef_live q)"
  shows "ef_inv (drop_expired_front q) \<and> ef_live (drop_expired_front q) = ef_live q"
  using assms drop_expired_front_live [of "ef_list q"]
  by (simp add: ef_inv_def drop_expired_front_def ef_live_def)

section \<open>The contract of a waiting line\<close>

locale waiting_line =
  fixes invar :: "'q \<Rightarrow> bool" and waiting :: "'q \<Rightarrow> 'a list" and fresh :: 'q
    and is_empty :: "'q \<Rightarrow> bool" and front :: "'q \<Rightarrow> 'a option"
    and push_back :: "'a \<Rightarrow> bool \<Rightarrow> 'q \<Rightarrow> 'q" and pop_front :: "'q \<Rightarrow> 'q option"
  assumes fresh: "invar fresh \<and> waiting fresh = []"
    and is_empty: "invar q \<Longrightarrow> is_empty q \<longleftrightarrow> waiting q = []"
    and front: "invar q \<Longrightarrow> waiting q = x # xs \<Longrightarrow> front q = Some x"
    and push_back: "invar q \<Longrightarrow> invar (push_back x t q) \<and> waiting (push_back x t q) = waiting q @ [x]"
    and pop_front: "invar q \<Longrightarrow> waiting q = x # xs \<Longrightarrow>
          \<exists>r. pop_front q = Some r \<and> invar r \<and> waiting r = xs"
begin

lemma front_None: "invar q \<Longrightarrow> front q = None \<Longrightarrow> is_empty q"
  using front is_empty by (metis neq_Nil_conv option.distinct(1))

lemma cases_line:
  assumes "invar q"
  obtains "waiting q = []" "is_empty q"
  | x xs r where "waiting q = x # xs" "\<not> is_empty q" "front q = Some x" "pop_front q = Some r"
      "invar r" "waiting r = xs"
  using assms is_empty front pop_front by (metis neq_Nil_conv)

lemma push_not_empty: "invar q \<Longrightarrow> \<not> is_empty (push_back x t q)"
  using push_back is_empty by simp

end

lemma ef_inv_Cons: "ef_inv q \<Longrightarrow> ef_live q = x # xs \<Longrightarrow> \<exists>t ys. ef_list q = (Some x, t) # ys \<and> live ys = xs"
  by (auto simp: ef_inv_def ef_live_def split: list.splits prod.splits option.splits)

interpretation ef: waiting_line ef_inv ef_live ef_init ef_empty ef_front ef_push_back ef_pop_front
proof unfold_locales
  show "ef_inv ef_init \<and> ef_live ef_init = []"
    by (simp add: ef_inv_def ef_init_def ef_live_def)
next
  fix q :: "'a efifo" assume "ef_inv q"
  then show "ef_empty q \<longleftrightarrow> ef_live q = []"
    by (simp add: ef_inv_def ef_empty_def)
next
  fix q :: "'a efifo" and x xs assume "ef_inv q" "ef_live q = x # xs"
  then show "ef_front q = Some x"
    using ef_inv_Cons by (fastforce simp: ef_front_def)
next
  fix q :: "'a efifo" and x t assume "ef_inv q"
  then show "ef_inv (ef_push_back x t q) \<and> ef_live (ef_push_back x t q) = ef_live q @ [x]"
    by (auto simp: ef_inv_def ef_push_back_def ef_live_def split: list.splits)
next
  fix q :: "'a efifo" and x xs assume q: "ef_inv q" "ef_live q = x # xs"
  obtain t ys where ys: "ef_list q = (Some x, t) # ys" "live ys = xs"
    using ef_inv_Cons [OF q] by blast
  have "ef_size q = Suc (length xs)"
    using q by (simp add: ef_inv_def)
  with ys show "\<exists>r. ef_pop_front q = Some r \<and> ef_inv r \<and> ef_live r = xs"
    using drop_expired_front_spec [of "\<lparr>ef_list = ys, ef_size = length xs\<rparr>"]
    by (simp add: ef_pop_front_def ef_live_def)
qed

text \<open>Expiry removes exactly the expired entry, wherever it stands.\<close>

lemma ef_expire_spec:
  assumes "ef_inv q" "ef_expire i q = Some (x, r)"
  shows "\<exists>xs ys. ef_live q = xs @ x # ys \<and> ef_live r = xs @ ys \<and> ef_inv r"
proof -
  have i: "i < length (ef_list q)" "ef_list q ! i = (Some x, True)"
    and r: "r = drop_expired_front \<lparr>ef_list = (ef_list q)[i := (None, True)], ef_size = ef_size q - 1\<rparr>"
    using assms(2) by (auto simp: ef_expire_def split: if_splits prod.splits option.splits bool.splits)
  define a b where "a = take i (ef_list q)" and "b = drop (Suc i) (ef_list q)"
  have q: "ef_list q = a @ (Some x, True) # b"
    using i id_take_nth_drop [of i "ef_list q"] by (simp add: a_def b_def)
  have u: "(ef_list q)[i := (None, True)] = a @ (None, True) # b"
    using i by (simp add: a_def b_def upd_conv_take_nth_drop)
  have l: "ef_live q = live a @ x # live b"
    by (simp add: ef_live_def q)
  have "ef_size q - 1 = length (live a @ live b)"
    using assms(1) l by (simp add: ef_inv_def)
  then have "ef_inv r \<and> ef_live r = live a @ live b"
    using drop_expired_front_spec [of "\<lparr>ef_list = a @ (None, True) # b, ef_size = ef_size q - 1\<rparr>"]
    by (simp add: r u ef_live_def)
  with l show ?thesis by blast
qed

section \<open>Semaphore\<close>

datatype 'e sem_result = Granted | Timed_out | Broken 'e

record ('w, 'e) sem =
  sem_count :: u64
  sem_ex :: "'e option"
  sem_waiters :: "('w \<times> u64) efifo"
  sem_log :: "('w \<times> 'e sem_result) list"

definition sem_init :: "u64 \<Rightarrow> ('w, 'e) sem" where
  "sem_init count = \<lparr>sem_count = count, sem_ex = None, sem_waiters = ef_init, sem_log = []\<rparr>"

definition has_available_units :: "u64 \<Rightarrow> ('w, 'e) sem \<Rightarrow> bool" where
  "has_available_units nr s \<longleftrightarrow> 0 \<le> sint (sem_count s) \<and> nr \<le> sem_count s"

definition may_proceed :: "u64 \<Rightarrow> ('w, 'e) sem \<Rightarrow> bool" where
  "may_proceed nr s \<longleftrightarrow> has_available_units nr s \<and> ef_empty (sem_waiters s)"

definition resolve :: "'w \<Rightarrow> 'e sem_result \<Rightarrow> ('w, 'e) sem \<Rightarrow> ('w, 'e) sem" where
  "resolve w r s = s\<lparr>sem_log := sem_log s @ [(w, r)]\<rparr>"

text \<open>\<open>wait\<close>: \<open>timed\<close> says whether the timeout is before \<open>time_point::max()\<close>.\<close>

definition sem_wait :: "'w \<Rightarrow> u64 \<Rightarrow> bool \<Rightarrow> ('w, 'e) sem \<Rightarrow> ('w, 'e) sem" where
  "sem_wait w nr timed s =
    (if may_proceed nr s then resolve w Granted (s\<lparr>sem_count := sem_count s - nr\<rparr>)
     else case sem_ex s of Some e \<Rightarrow> resolve w (Broken e) s
     | None \<Rightarrow> s\<lparr>sem_waiters := ef_push_back (w, nr) timed (sem_waiters s)\<rparr>)"

lemma ef_pop_front_shorter: "ef_pop_front q = Some r \<Longrightarrow> length (ef_list r) < length (ef_list q)"
  using length_drop_expired [of "tl (ef_list q)"]
  by (auto simp: ef_pop_front_def drop_expired_front_def split: list.splits)

function sem_grant :: "('w, 'e) sem \<Rightarrow> ('w, 'e) sem option" where
  "sem_grant s = (if ef_empty (sem_waiters s) then Some s else
    (case ef_front (sem_waiters s) of None \<Rightarrow> None
     | Some (w, nr) \<Rightarrow>
        if has_available_units nr s then
          (case ef_pop_front (sem_waiters s) of None \<Rightarrow> None
           | Some q \<Rightarrow> sem_grant (resolve w Granted (s\<lparr>sem_count := sem_count s - nr, sem_waiters := q\<rparr>)))
        else Some s))"
  by pat_completeness auto
termination
  by (relation "measure (\<lambda>s. length (ef_list (sem_waiters s)))")
    (auto simp: resolve_def dest: ef_pop_front_shorter)

declare sem_grant.simps [simp del]

definition sem_signal :: "u64 \<Rightarrow> ('w, 'e) sem \<Rightarrow> ('w, 'e) sem option" where
  "sem_signal nr s = (if sem_ex s \<noteq> None then Some s
    else sem_grant (s\<lparr>sem_count := sem_count s + nr\<rparr>))"

definition sem_consume :: "u64 \<Rightarrow> ('w, 'e) sem \<Rightarrow> ('w, 'e) sem" where
  "sem_consume nr s = (if sem_ex s \<noteq> None then s else s\<lparr>sem_count := sem_count s - nr\<rparr>)"

definition sem_try_wait :: "u64 \<Rightarrow> ('w, 'e) sem \<Rightarrow> bool \<times> ('w, 'e) sem" where
  "sem_try_wait nr s = (if may_proceed nr s then (True, s\<lparr>sem_count := sem_count s - nr\<rparr>) else (False, s))"

definition sem_current :: "('w, 'e) sem \<Rightarrow> u64" where
  "sem_current s = (if 0 \<le> sint (sem_count s) then sem_count s else 0)"

definition sem_nr_waiters :: "('w, 'e) sem \<Rightarrow> nat" where
  "sem_nr_waiters s = ef_size (sem_waiters s)"

function sem_break_all :: "'e \<Rightarrow> ('w, 'e) sem \<Rightarrow> ('w, 'e) sem option" where
  "sem_break_all e s = (if ef_empty (sem_waiters s) then Some s else
    (case (ef_front (sem_waiters s), ef_pop_front (sem_waiters s)) of
       (Some (w, nr), Some q) \<Rightarrow> sem_break_all e (resolve w (Broken e) (s\<lparr>sem_waiters := q\<rparr>))
     | _ \<Rightarrow> None))"
  by pat_completeness auto
termination
  by (relation "measure (\<lambda>(e, s). length (ef_list (sem_waiters s)))")
    (auto simp: resolve_def dest: ef_pop_front_shorter [OF sym])

declare sem_break_all.simps [simp del]

definition sem_broken :: "'e \<Rightarrow> ('w, 'e) sem \<Rightarrow> ('w, 'e) sem option" where
  "sem_broken e s = sem_break_all e (s\<lparr>sem_ex := Some e, sem_count := 0\<rparr>)"

text \<open>The expiry of the waiter at position \<open>i\<close> (\<open>expiry_handler\<close> and the entry's timer callback).\<close>

definition sem_expire :: "nat \<Rightarrow> ('w, 'e) sem \<Rightarrow> ('w, 'e) sem option" where
  "sem_expire i s = (case ef_expire i (sem_waiters s) of None \<Rightarrow> None
    | Some ((w, nr), q) \<Rightarrow> Some (resolve w Timed_out (s\<lparr>sem_waiters := q\<rparr>)))"

text \<open>Units held by a \<open>semaphore_units\<close> object: the destructor signals what it still holds.\<close>

definition units_destroy :: "u64 \<Rightarrow> ('w, 'e) sem \<Rightarrow> ('w, 'e) sem option" where
  "units_destroy n s = (if n \<noteq> 0 then sem_signal n s else Some s)"

definition units_release :: "u64 \<Rightarrow> u64 \<times> u64" where
  "units_release n = (n, 0)"

section \<open>Counting units\<close>

abbreviation units :: "('w, 'e) sem \<Rightarrow> int" where
  "units s \<equiv> sint (sem_count s)"

abbreviation queued :: "('w, 'e) sem \<Rightarrow> ('w \<times> u64) list" where
  "queued s \<equiv> ef_live (sem_waiters s)"

lemma sint_of_int:
  assumes "- (2 ^ 63) \<le> k" "k < 2 ^ 63"
  shows "sint (of_int k :: u64) = k"
  using assms by (simp add: signed_of_int signed_take_bit_int_eq_self)

lemma sint_bounds: "- (2 ^ 63) \<le> sint (c :: u64)" "sint (c :: u64) < 2 ^ 63"
  using sint_lt [of c] sint_ge [of c] by simp_all

lemma uint_nonneg: "0 \<le> sint (c :: u64) \<Longrightarrow> uint c = sint c"
proof -
  assume c: "0 \<le> sint c"
  have "uint c = uint (of_int (sint c) :: u64)"
    by simp
  also have "\<dots> = sint c mod 2 ^ 64"
    by (simp only: uint_word_of_int len_num0 len_bit0 len_num1) simp
  also have "\<dots> = sint c"
    using c sint_bounds [of c] by simp
  finally show ?thesis .
qed

lemma has_available_units_iff: "has_available_units nr s \<longleftrightarrow> uint nr \<le> units s"
  using uint_nonneg [of "sem_count s"] uint_ge_0 [of nr]
  by (cases "0 \<le> units s") (auto simp: has_available_units_def word_le_def dest: order_trans [OF uint_ge_0])

lemma sint_diff:
  fixes c n :: u64
  assumes "- (2 ^ 63) \<le> sint c - uint n"
  shows "sint (c - n) = sint c - uint n"
proof -
  have "c - n = of_int (sint c - uint n)"
    by (simp add: of_int_diff)
  moreover have "sint (of_int (sint c - uint n) :: u64) = sint c - uint n"
    using sint_of_int assms sint_bounds(2) [of c] uint_ge_0 [of n] by (meson diff_le_eq le_add_same_cancel1 le_less_trans)
  ultimately show ?thesis by simp
qed

lemma sint_plus:
  fixes c n :: u64
  assumes "sint c + uint n < 2 ^ 63"
  shows "sint (c + n) = sint c + uint n"
proof -
  have "c + n = of_int (sint c + uint n)"
    by simp
  moreover have "sint (of_int (sint c + uint n) :: u64) = sint c + uint n"
    using sint_of_int assms sint_bounds(1) [of c] uint_ge_0 [of n] by (meson le_add_same_cancel1 order_trans)
  ultimately show ?thesis by simp
qed

text \<open>
  A semaphore is settled if its waiting line is well formed and its first waiter, if any, asks
  for more than there is: nobody waits who could proceed.
\<close>

definition settled :: "('w, 'e) sem \<Rightarrow> bool" where
  "settled s \<longleftrightarrow> ef_inv (sem_waiters s)
    \<and> (case queued s of [] \<Rightarrow> True | (w, nr) # _ \<Rightarrow> units s < uint nr)"

definition granted :: "('w \<times> u64) list \<Rightarrow> ('w \<times> 'e sem_result) list" where
  "granted xs = map (\<lambda>(w, nr). (w, Granted)) xs"

definition total_units :: "('w \<times> u64) list \<Rightarrow> int" where
  "total_units xs = (\<Sum>(w, nr)\<leftarrow>xs. uint nr)"

lemma granted_simps [simp]:
  "granted [] = []" "granted ((w, nr) # xs) = (w, Granted) # granted xs"
  by (simp_all add: granted_def)

lemma total_units_simps [simp]:
  "total_units [] = 0" "total_units ((w, nr) # xs) = uint nr + total_units xs"
  by (simp_all add: total_units_def)

lemma resolve_simps [simp]:
  "sem_count (resolve w r s) = sem_count s" "sem_ex (resolve w r s) = sem_ex s"
  "sem_waiters (resolve w r s) = sem_waiters s" "sem_log (resolve w r s) = sem_log s @ [(w, r)]"
  by (simp_all add: resolve_def)

lemma sem_grant_spec:
  assumes "ef_inv (sem_waiters s)"
  shows "\<exists>t k. sem_grant s = Some t \<and> settled t \<and> sem_ex t = sem_ex s
    \<and> k \<le> length (queued s) \<and> queued t = drop k (queued s)
    \<and> sem_log t = sem_log s @ granted (take k (queued s))
    \<and> units t = units s - total_units (take k (queued s)) \<and> (0 < k \<longrightarrow> 0 \<le> units t)"
  using assms
proof (induction s rule: sem_grant.induct)
  case (1 s)
  from 1(2) show ?case
  proof (cases rule: ef.cases_line)
    case 1
    then have "sem_grant s = Some s" "settled s"
      using \<open>ef_inv (sem_waiters s)\<close> by (simp_all add: sem_grant.simps [of s] settled_def)
    then show ?thesis by (intro exI [of _ s] exI [of _ 0]) auto
  next
    case (2 x xs r)
    obtain w nr where x: "x = (w, nr)" by fastforce
    show ?thesis
    proof (cases "has_available_units nr s")
      case False
      then have "sem_grant s = Some s" "settled s"
        using 2 x \<open>ef_inv (sem_waiters s)\<close>
        by (simp_all add: sem_grant.simps [of s] settled_def has_available_units_iff)
      then show ?thesis by (intro exI [of _ s] exI [of _ 0]) auto
    next
      case True
      let ?s = "resolve w Granted (s\<lparr>sem_count := sem_count s - nr, sem_waiters := r\<rparr>)"
      have nr: "uint nr \<le> units s"
        using True by (simp add: has_available_units_iff)
      then have u: "units ?s = units s - uint nr" "0 \<le> units ?s"
        using sint_diff [of "sem_count s" nr] by simp_all
      have "sem_grant s = sem_grant ?s"
        using 2 x True by (simp add: sem_grant.simps [of s])
      with "1.IH" [OF 2(2) 2(3) x [symmetric] True 2(4)] 2 x obtain t k where t: "sem_grant s = Some t" "settled t"
          "sem_ex t = sem_ex s" "k \<le> length xs" "queued t = drop k xs"
          "sem_log t = sem_log s @ (w, Granted) # granted (take k xs)"
          "units t = units ?s - total_units (take k xs)" "0 < k \<longrightarrow> 0 \<le> units t"
        by auto
      from t(7,8) u(2) have "0 \<le> units t"
        by (cases "k = 0") auto
      with t show ?thesis
        using u 2 x by (intro exI [of _ t] exI [of _ "Suc k"]) auto
    qed
  qed
qed

lemma sem_signal_spec:
  assumes "ef_inv (sem_waiters s)" "sem_ex s = None" "units s + uint nr < 2 ^ 63"
  shows "\<exists>t k. sem_signal nr s = Some t \<and> settled t \<and> sem_ex t = None
    \<and> k \<le> length (queued s) \<and> queued t = drop k (queued s)
    \<and> sem_log t = sem_log s @ granted (take k (queued s))
    \<and> units t = units s + uint nr - total_units (take k (queued s))
    \<and> (0 < k \<longrightarrow> 0 \<le> units t)"
  using sem_grant_spec [of "s\<lparr>sem_count := sem_count s + nr\<rparr>"] assms sint_plus [OF assms(3)]
  by (auto simp: sem_signal_def)

lemma sem_break_all_spec:
  assumes "ef_inv (sem_waiters s)"
  shows "\<exists>t. sem_break_all e s = Some t \<and> ef_inv (sem_waiters t) \<and> queued t = []
    \<and> sem_ex t = sem_ex s \<and> sem_count t = sem_count s
    \<and> sem_log t = sem_log s @ map (\<lambda>(w, nr). (w, Broken e)) (queued s)"
  using assms
proof (induction e s rule: sem_break_all.induct)
  case (1 e s)
  from 1(2) show ?case
  proof (cases rule: ef.cases_line)
    case 1
    then show ?thesis
      using \<open>ef_inv (sem_waiters s)\<close> by (simp add: sem_break_all.simps [of e s])
  next
    case (2 x xs r)
    then have "sem_break_all e s = sem_break_all e (resolve (fst x) (Broken e) (s\<lparr>sem_waiters := r\<rparr>))"
      by (cases x) (simp add: sem_break_all.simps [of e s])
    then show ?thesis
      using "1.IH" [OF 2(2) refl 2(3) _ 2(4)] 2 by (cases x) auto
  qed
qed

section \<open>Runs\<close>

datatype ('w, 'e) sem_op = Wait 'w u64 bool | Signal u64 | Try_wait u64 | Consume u64 | Expire nat | Break 'e

fun sem_apply :: "('w, 'e) sem_op \<Rightarrow> ('w, 'e) sem \<Rightarrow> ('w, 'e) sem option" where
  "sem_apply (Wait w nr timed) s = Some (sem_wait w nr timed s)"
| "sem_apply (Signal nr) s = sem_signal nr s"
| "sem_apply (Try_wait nr) s = Some (snd (sem_try_wait nr s))"
| "sem_apply (Consume nr) s = Some (sem_consume nr s)"
| "sem_apply (Expire i) s = sem_expire i s"
| "sem_apply (Break e) s = sem_broken e s"

fun sem_run :: "('w, 'e) sem_op list \<Rightarrow> ('w, 'e) sem \<Rightarrow> ('w, 'e) sem option" where
  "sem_run [] s = Some s"
| "sem_run (p # ps) s = Option.bind (sem_apply p s) (sem_run ps)"

fun deposits :: "('w, 'e) sem_op list \<Rightarrow> int" where
  "deposits [] = 0"
| "deposits (Signal nr # ps) = uint nr + deposits ps"
| "deposits (p # ps) = deposits ps"

fun withdrawals :: "('w, 'e) sem_op list \<Rightarrow> int" where
  "withdrawals [] = 0"
| "withdrawals (Consume nr # ps) = uint nr + withdrawals ps"
| "withdrawals (p # ps) = withdrawals ps"

fun expires :: "('w, 'e) sem_op \<Rightarrow> bool" where
  "expires (Expire i) = True"
| "expires p = False"

lemma deposits_nonneg: "0 \<le> deposits ps"
  by (induction ps rule: deposits.induct) auto

lemma withdrawals_nonneg: "0 \<le> withdrawals ps"
  by (induction ps rule: withdrawals.induct) auto

lemma sem_try_wait_spec:
  assumes "settled s"
  shows "settled (snd (sem_try_wait nr s)) \<and> units (snd (sem_try_wait nr s)) \<le> units s
    \<and> (0 \<le> units s \<longrightarrow> 0 \<le> units (snd (sem_try_wait nr s)))
    \<and> (units s \<le> units (snd (sem_try_wait nr s)) \<or> 0 \<le> units (snd (sem_try_wait nr s)))"
  using assms sint_diff [of "sem_count s" nr] ef.is_empty [of "sem_waiters s"] uint_ge_0 [of nr]
  by (auto simp: sem_try_wait_def settled_def may_proceed_def has_available_units_iff split: list.splits)

lemma sem_wait_spec:
  assumes "settled s"
  shows "settled (sem_wait w nr timed s) \<and> units (sem_wait w nr timed s) \<le> units s
    \<and> (units s \<le> units (sem_wait w nr timed s) \<or> 0 \<le> units (sem_wait w nr timed s))"
proof (cases "may_proceed nr s")
  case True
  then show ?thesis
    using assms sint_diff [of "sem_count s" nr] ef.is_empty [of "sem_waiters s"] uint_ge_0 [of nr]
    by (auto simp: sem_wait_def settled_def may_proceed_def has_available_units_iff split: list.splits)
next
  case False
  show ?thesis
  proof (cases "sem_ex s")
    case None
    have q: "ef_inv (sem_waiters s)"
      using assms by (simp add: settled_def)
    have "queued s = [] \<Longrightarrow> units s < uint nr"
      using False ef.is_empty [OF q] by (simp add: may_proceed_def has_available_units_iff)
    with None False show ?thesis
      using assms ef.push_back [OF q, of "(w, nr)" timed]
      by (auto simp: sem_wait_def settled_def split: list.splits)
  next
    case (Some e)
    with False assms show ?thesis by (auto simp: sem_wait_def settled_def split: list.splits)
  qed
qed

lemma sem_apply_spec:
  assumes "settled s" "\<not> expires p" "max 0 (units s) + deposits [p] < 2 ^ 63"
    and "- (2 ^ 63) \<le> min 0 (units s) - withdrawals [p]"
  shows "\<exists>t. sem_apply p s = Some t \<and> settled t \<and> units t \<le> max 0 (units s) + deposits [p]
    \<and> min 0 (units s) - withdrawals [p] \<le> units t"
proof (cases p)
  case (Wait w nr timed)
  then show ?thesis
    using sem_wait_spec [OF assms(1), of w nr timed] by auto
next
  case (Signal nr)
  show ?thesis
  proof (cases "sem_ex s")
    case None
    have "ef_inv (sem_waiters s)" "units s + uint nr < 2 ^ 63"
      using assms Signal by (auto simp: settled_def)
    from sem_signal_spec [OF this(1) None this(2)] obtain t k where t: "sem_signal nr s = Some t" "settled t"
        "units t = units s + uint nr - total_units (take k (queued s))" "0 < k \<longrightarrow> 0 \<le> units t"
        "sem_log t = sem_log s @ granted (take k (queued s))"
      by blast
    have "0 \<le> total_units xs" for xs :: "('a \<times> u64) list"
      by (induction xs) auto
    from this [of "take k (queued s)"] t show ?thesis
      using Signal by (cases "k = 0") (auto intro: min.coboundedI1 min.coboundedI2)
  next
    case (Some e)
    then show ?thesis
      using assms Signal by (auto simp: sem_signal_def intro: add_increasing2)
  qed
next
  case (Try_wait nr)
  then show ?thesis
    using sem_try_wait_spec [OF assms(1), of nr] by auto
next
  case (Consume nr)
  have "sint (sem_count s - nr) = units s - uint nr"
    using assms Consume by (intro sint_diff) auto
  then show ?thesis
    using assms(1) Consume
    by (auto simp: sem_consume_def settled_def split: list.splits; use uint_ge_0 [of nr] in linarith)
next
  case (Expire i)
  with assms(2) show ?thesis by simp
next
  case (Break e)
  then show ?thesis
    using sem_break_all_spec [of "s\<lparr>sem_ex := Some e, sem_count := 0\<rparr>" e] assms(1)
    by (auto simp: sem_broken_def settled_def)
qed

lemma deposits_Cons: "deposits (p # ps) = deposits [p] + deposits ps"
  by (cases p) auto

lemma withdrawals_Cons: "withdrawals (p # ps) = withdrawals [p] + withdrawals ps"
  by (cases p) auto

lemma sem_run_spec:
  assumes "settled s" "list_all (\<lambda>p. \<not> expires p) ps" "max 0 (units s) + deposits ps < 2 ^ 63"
    and "- (2 ^ 63) \<le> min 0 (units s) - withdrawals ps"
  shows "\<exists>t. sem_run ps s = Some t \<and> settled t"
  using assms
proof (induction ps arbitrary: s)
  case (Cons p ps)
  note nn = deposits_nonneg [of ps] withdrawals_nonneg [of ps] deposits_nonneg [of "[p]"]
    withdrawals_nonneg [of "[p]"]
  obtain t where t: "sem_apply p s = Some t" "settled t" "units t \<le> max 0 (units s) + deposits [p]"
      "min 0 (units s) - withdrawals [p] \<le> units t"
    using sem_apply_spec [of s p] Cons.prems nn deposits_Cons [of p ps] withdrawals_Cons [of p ps] by auto
  have "\<exists>t'. sem_run ps t = Some t' \<and> settled t'"
    using Cons.IH [OF t(2)] Cons.prems t(3,4) nn deposits_Cons [of p ps] withdrawals_Cons [of p ps] by auto
  with t(1) show ?case by simp
qed simp

lemma settled_init: "settled (sem_init n)"
  using ef.fresh by (auto simp: settled_def sem_init_def split: list.splits)

text \<open>The semaphore as its users see it: how many units there are, who waits, who was granted.\<close>

lemma sem_wait_cases:
  assumes "settled s" "sem_ex s = None" "0 < uint nr"
  shows "if uint nr \<le> units s \<and> queued s = [] then
      sem_log (sem_wait w nr timed s) = sem_log s @ [(w, Granted)]
      \<and> units (sem_wait w nr timed s) = units s - uint nr \<and> queued (sem_wait w nr timed s) = []
    else sem_log (sem_wait w nr timed s) = sem_log s
      \<and> units (sem_wait w nr timed s) = units s
      \<and> queued (sem_wait w nr timed s) = queued s @ [(w, nr)]"
  using assms sint_diff [of "sem_count s" nr] ef.is_empty [of "sem_waiters s"]
    ef.push_back [of "sem_waiters s" "(w, nr)" timed]
  by (auto simp: sem_wait_def settled_def may_proceed_def has_available_units_iff)

section \<open>Properties\<close>

text \<open>
  C12. Signalling a semaphore: if the counter does not overflow, the new units go to the waiters
  in the order in which they came, as long as they suffice for the next one; exactly those
  waiters are granted and removed, the counter loses exactly their units without becoming
  negative, and the first waiter
  left, if any, asks for more than the counter holds.
\<close>

theorem semaphore_signal_grants_fifo:
  assumes "ef_inv (sem_waiters s)" "sem_ex s = None" "units s + uint nr < 2 ^ 63"
  shows "\<exists>t k. sem_signal nr s = Some t \<and> k \<le> length (queued s) \<and> queued t = drop k (queued s)
    \<and> sem_log t = sem_log s @ granted (take k (queued s))
    \<and> units t = units s + uint nr - total_units (take k (queued s)) \<and> settled t
    \<and> (0 < k \<longrightarrow> 0 \<le> units t)"
  using sem_signal_spec [OF assms] by blast

theorem semaphore_signal_grants_fifo_witness:
  "\<exists>t k. sem_signal 3 (sem_wait ''b'' 5 False (sem_wait ''a'' 2 False (sem_init 0 :: (string, unit) sem)))
      = Some t \<and> queued t = drop k [(''a'', 2), (''b'', 5)]
    \<and> sem_log t = granted (take k [(''a'', 2), (''b'', 5)]) \<and> k = 1"
proof -
  let ?s = "sem_wait ''b'' 5 False (sem_wait ''a'' 2 False (sem_init 0 :: (string, unit) sem))"
  have i: "ef_inv (sem_waiters ?s)" "sem_ex ?s = None" "units ?s + uint (3 :: u64) < 2 ^ 63"
    and q: "queued ?s = [(''a'', 2), (''b'', 5)]" "units ?s = 0" "sem_log ?s = []"
    by (code_simp)+
  from semaphore_signal_grants_fifo [OF i] obtain t k where t: "sem_signal 3 ?s = Some t"
      "k \<le> length (queued ?s)" "queued t = drop k (queued ?s)" "sem_log t = sem_log ?s @ granted (take k (queued ?s))"
      "units t = units ?s + uint (3 :: u64) - total_units (take k (queued ?s))" "settled t"
      "0 < k \<longrightarrow> 0 \<le> units t"
    by blast
  have "k = 0 \<or> k = 1 \<or> k = 2"
    using t(2) unfolding q by auto
  then have "k = 1"
    using t(3,5,6,7) unfolding q by (auto simp: settled_def)
  with t show ?thesis unfolding q by auto
qed

text \<open>
  C13. No lost wakeup: whatever sequence of waits, signals, opportunistic waits, consumptions and
  breaks is applied to a new semaphore, as long as the counter stays in range the run is
  defined, and at its end no waiter is left at the front whose request the counter covers.
\<close>

theorem semaphore_no_lost_wakeup:
  assumes "list_all (\<lambda>p. \<not> expires p) ps" "0 \<le> sint n"
    and "sint n + deposits ps < 2 ^ 63" "withdrawals ps \<le> 2 ^ 63"
  shows "\<exists>t. sem_run ps (sem_init n) = Some t \<and> settled t"
  using sem_run_spec [OF settled_init assms(1), of n] assms by (simp add: sem_init_def)

theorem semaphore_no_lost_wakeup_witness:
  "\<exists>t. sem_run [Wait (0::nat) 2 False, Try_wait 1, Signal 1, Wait 1 1 True, Consume 4, Signal 9, Break ''x'']
      (sem_init 1) = Some t \<and> settled t"
  by (rule semaphore_no_lost_wakeup) (code_simp)+

text \<open>
  Expiry strands a waiter: a timed waiter for two units stands in front of a waiter for one,
  one unit is there, and the first times out. The entry is dropped, but nothing looks at the new
  front: it stays queued although the counter covers it, and an opportunistic wait for that unit
  is refused as well.
\<close>

theorem semaphore_expiry_strands_waiter:
  "\<exists>t. sem_run [Wait ''slow'' 2 True, Wait ''next'' 1 False, Expire 0] (sem_init 1 :: (string, unit) sem) = Some t
    \<and> queued t = [(''next'', 1)] \<and> units t = 1 \<and> \<not> settled t \<and> \<not> fst (sem_try_wait 1 t)
    \<and> sem_log t = [(''slow'', Timed_out)]"
proof -
  let ?r = "sem_run [Wait ''slow'' 2 True, Wait ''next'' 1 False, Expire 0] (sem_init 1 :: (string, unit) sem)"
  have r: "?r = Some \<lparr>sem_count = 1, sem_ex = None,
      sem_waiters = \<lparr>ef_list = [(Some (''next'', 1), False)], ef_size = 1\<rparr>, sem_log = [(''slow'', Timed_out)]\<rparr>"
    by code_simp
  show ?thesis
    unfolding r by (simp add: ef_live_def settled_def sem_try_wait_def may_proceed_def ef_empty_def)
qed

end
