(* ===== verification/Seastar_Queue.thy ===== *)
theory Seastar_Queue
  imports NS_Prelude
begin

text \<open>
  The bounded queue of the Seastar core (core/queue.hh), which carries packets between a
  producer and a consumer fiber.

  \<^item> The items are a list (the \<open>circular_buffer\<close> underneath refines a list). The two optional
    promises are optional identities, \<open>q_next\<close> numbers the promises made, and \<open>q_log\<close> records
    how each was resolved: a promise that is overwritten while pending is dropped together with
    its continuation.
  \<^item> \<open>pop_eventually\<close> and \<open>push_eventually\<close> are split at their suspension point: the call
    returns at once or names the promise it waits for, and the continuation is an operation of
    its own (\<open>q_pop_resume\<close>, \<open>q_push_resume\<close>), because other calls may run in between.
  \<^item> Popping an empty queue is undefined (\<open>None\<close>).
\<close>

section \<open>State and operations\<close>

datatype 'e outcome = Value_Set | Exception_Set 'e | Dropped

record ('a, 'e) queue =
  q_items :: "'a list"
  q_max :: nat
  q_not_empty :: "nat option"
  q_not_full :: "nat option"
  q_ex :: "'e option"
  q_next :: nat
  q_log :: "(nat \<times> 'e outcome) list"

definition q_init :: "nat \<Rightarrow> ('a, 'e) queue" where
  "q_init max_size = \<lparr>q_items = [], q_max = max_size, q_not_empty = None, q_not_full = None,
    q_ex = None, q_next = 0, q_log = []\<rparr>"

definition settle :: "nat option \<Rightarrow> 'e outcome \<Rightarrow> (nat \<times> 'e outcome) list" where
  "settle p r = (case p of None \<Rightarrow> [] | Some i \<Rightarrow> [(i, r)])"

definition notify_not_empty :: "('a, 'e) queue \<Rightarrow> ('a, 'e) queue" where
  "notify_not_empty q = q\<lparr>q_log := q_log q @ settle (q_not_empty q) Value_Set, q_not_empty := None\<rparr>"

definition notify_not_full :: "('a, 'e) queue \<Rightarrow> ('a, 'e) queue" where
  "notify_not_full q = q\<lparr>q_log := q_log q @ settle (q_not_full q) Value_Set, q_not_full := None\<rparr>"

definition q_is_empty :: "('a, 'e) queue \<Rightarrow> bool" where
  "q_is_empty q \<longleftrightarrow> q_items q = []"

definition q_is_full :: "('a, 'e) queue \<Rightarrow> bool" where
  "q_is_full q \<longleftrightarrow> q_max q \<le> length (q_items q)"

definition q_push :: "'a \<Rightarrow> ('a, 'e) queue \<Rightarrow> bool \<times> ('a, 'e) queue" where
  "q_push a q = (if length (q_items q) < q_max q
    then (True, notify_not_empty (q\<lparr>q_items := q_items q @ [a]\<rparr>)) else (False, q))"

definition q_pop :: "('a, 'e) queue \<Rightarrow> ('a \<times> ('a, 'e) queue) option" where
  "q_pop q = (let q' = (if length (q_items q) = q_max q then notify_not_full q else q) in
    case q_items q' of [] \<Rightarrow> None | a # as \<Rightarrow> Some (a, q'\<lparr>q_items := as\<rparr>))"

text \<open>Waiting for a condition: ready, or the number of the promise that will be resolved.\<close>

definition q_wait_not_empty :: "('a, 'e) queue \<Rightarrow> nat option \<times> ('a, 'e) queue" where
  "q_wait_not_empty q = (if \<not> q_is_empty q then (None, q) else
    (Some (q_next q), q\<lparr>q_log := q_log q @ settle (q_not_empty q) Dropped,
       q_not_empty := Some (q_next q), q_next := q_next q + 1\<rparr>))"

definition q_wait_not_full :: "('a, 'e) queue \<Rightarrow> nat option \<times> ('a, 'e) queue" where
  "q_wait_not_full q = (if \<not> q_is_full q then (None, q) else
    (Some (q_next q), q\<lparr>q_log := q_log q @ settle (q_not_full q) Dropped,
       q_not_full := Some (q_next q), q_next := q_next q + 1\<rparr>))"

datatype ('a, 'e) popped = Item 'a | Failed 'e | Waits nat

definition q_pop_eventually :: "('a, 'e) queue \<Rightarrow> (('a, 'e) popped \<times> ('a, 'e) queue) option" where
  "q_pop_eventually q = (if q_is_empty q then
      (case q_wait_not_empty q of (Some i, q') \<Rightarrow> Some (Waits i, q') | (None, q') \<Rightarrow> None)
    else map_option (\<lambda>(a, q'). (Item a, q')) (q_pop q))"

definition q_pop_resume :: "('a, 'e) queue \<Rightarrow> (('a, 'e) popped \<times> ('a, 'e) queue) option" where
  "q_pop_resume q = (case q_ex q of Some e \<Rightarrow> Some (Failed e, q)
    | None \<Rightarrow> map_option (\<lambda>(a, q'). (Item a, q')) (q_pop q))"

definition q_push_resume :: "'a \<Rightarrow> ('a, 'e) queue \<Rightarrow> ('a, 'e) queue" where
  "q_push_resume a q = notify_not_empty (q\<lparr>q_items := q_items q @ [a]\<rparr>)"

definition q_push_eventually :: "'a \<Rightarrow> ('a, 'e) queue \<Rightarrow> nat option \<times> ('a, 'e) queue" where
  "q_push_eventually a q = (if q_is_full q then q_wait_not_full q else (None, q_push_resume a q))"

text \<open>\<open>consume\<close> with a function that threads a state \<open>'s\<close> of its own.\<close>

fun consume_items :: "('a \<Rightarrow> 's \<Rightarrow> bool \<times> 's) \<Rightarrow> 's \<Rightarrow> 'a list \<Rightarrow> bool \<times> 's \<times> 'a list" where
  "consume_items f st [] = (True, st, [])"
| "consume_items f st (a # as) = (case f a st of
     (True, st') \<Rightarrow> consume_items f st' as
   | (False, st') \<Rightarrow> (False, st', as))"

definition q_consume :: "('a \<Rightarrow> 's \<Rightarrow> bool \<times> 's) \<Rightarrow> 's \<Rightarrow> ('a, 'e) queue \<Rightarrow> bool \<times> 's \<times> ('a, 'e) queue" where
  "q_consume f st q = (case consume_items f st (q_items q) of (running, st', rest) \<Rightarrow>
    let q' = q\<lparr>q_items := rest\<rparr> in
    (running, st', if q_is_full q' then q' else notify_not_full q'))"

definition q_set_max_size :: "nat \<Rightarrow> ('a, 'e) queue \<Rightarrow> ('a, 'e) queue" where
  "q_set_max_size m q = (let q' = q\<lparr>q_max := m\<rparr> in if q_is_full q' then q' else notify_not_full q')"

definition q_abort :: "'e \<Rightarrow> ('a, 'e) queue \<Rightarrow> ('a, 'e) queue" where
  "q_abort e q = q\<lparr>q_items := [], q_ex := Some e,
     q_log := q_log q @ settle (q_not_full q) (Exception_Set e) @ settle (q_not_empty q) (Exception_Set e),
     q_not_full := None, q_not_empty := None\<rparr>"

section \<open>Runs of a producer and a consumer\<close>

datatype ('a, 'e) queue_op =
  Push 'a | Push_eventually 'a | Push_resume 'a
| Pop | Pop_eventually | Pop_resume | Consume nat
| Set_max_size nat | Abort 'e

text \<open>
  One call; beside the new queue, the items it put in and the items it handed out.
  \<open>Consume n\<close> consumes with a function that stops after \<open>n\<close> further items.
\<close>

definition take_items :: "'a \<Rightarrow> nat \<times> 'a list \<Rightarrow> bool \<times> nat \<times> 'a list" where
  "take_items a = (\<lambda>(n, as). (n \<noteq> 0, n - 1, as @ [a]))"

fun out_of :: "('a, 'e) popped \<Rightarrow> 'a list" where
  "out_of (Item a) = [a]"
| "out_of _ = []"

fun q_apply :: "('a, 'e) queue_op \<Rightarrow> ('a, 'e) queue \<Rightarrow> ('a list \<times> 'a list \<times> ('a, 'e) queue) option" where
  "q_apply (Push a) q = (case q_push a q of (b, q') \<Rightarrow> Some (if b then [a] else [], [], q'))"
| "q_apply (Push_eventually a) q = (case q_push_eventually a q of (w, q') \<Rightarrow>
     Some (if w = None then [a] else [], [], q'))"
| "q_apply (Push_resume a) q = Some ([a], [], q_push_resume a q)"
| "q_apply Pop q = map_option (\<lambda>(a, q'). ([], [a], q')) (q_pop q)"
| "q_apply Pop_eventually q = map_option (\<lambda>(r, q'). ([], out_of r, q')) (q_pop_eventually q)"
| "q_apply Pop_resume q = map_option (\<lambda>(r, q'). ([], out_of r, q')) (q_pop_resume q)"
| "q_apply (Consume n) q = (case q_consume take_items (n, []) q of (b, (m, as), q') \<Rightarrow> Some ([], as, q'))"
| "q_apply (Set_max_size m) q = Some ([], [], q_set_max_size m q)"
| "q_apply (Abort e) q = Some ([], [], q_abort e q)"

fun q_run :: "('a, 'e) queue_op list \<Rightarrow> ('a, 'e) queue \<Rightarrow> ('a list \<times> 'a list \<times> ('a, 'e) queue) option" where
  "q_run [] q = Some ([], [], q)"
| "q_run (p # ps) q = (case q_apply p q of None \<Rightarrow> None
    | Some (ins, outs, q') \<Rightarrow> map_option (\<lambda>(ins', outs', q''). (ins @ ins', outs @ outs', q'')) (q_run ps q'))"

text \<open>Nobody waits for what is already there.\<close>

definition q_inv :: "('a, 'e) queue \<Rightarrow> bool" where
  "q_inv q \<longleftrightarrow> (q_not_empty q \<noteq> None \<longrightarrow> q_is_empty q) \<and> (q_not_full q \<noteq> None \<longrightarrow> q_is_full q)"

lemma consume_items_split:
  "consume_items take_items (n, xs) as = (b, (m, ys), rest) \<Longrightarrow> ys @ rest = xs @ as"
proof (induction as arbitrary: n xs)
  case (Cons a as)
  then show ?case
    by (cases "n = 0") (auto simp: take_items_def)
qed simp

lemma notify_items [simp]:
  "q_items (notify_not_empty q) = q_items q" "q_items (notify_not_full q) = q_items q"
  "q_max (notify_not_empty q) = q_max q" "q_max (notify_not_full q) = q_max q"
  "q_not_full (notify_not_empty q) = q_not_full q" "q_not_empty (notify_not_full q) = q_not_empty q"
  "q_not_empty (notify_not_empty q) = None" "q_not_full (notify_not_full q) = None"
  "q_ex (notify_not_empty q) = q_ex q" "q_ex (notify_not_full q) = q_ex q"
  by (simp_all add: notify_not_empty_def notify_not_full_def)

text \<open>What each call does to the items, and that it keeps the invariant.\<close>

lemma q_push_resume_spec:
  "q_inv q \<Longrightarrow> q_inv (q_push_resume a q) \<and> q_items (q_push_resume a q) = q_items q @ [a]"
  by (auto simp: q_push_resume_def q_inv_def q_is_empty_def q_is_full_def)

lemma q_push_spec:
  "q_inv q \<Longrightarrow> q_push a q = (b, q') \<Longrightarrow> q_inv q' \<and> q_items q' = q_items q @ (if b then [a] else [])"
  using q_push_resume_spec [of q a] by (auto simp: q_push_def q_push_resume_def split: if_splits)

lemma q_pop_spec:
  "q_inv q \<Longrightarrow> q_pop q = Some (a, q') \<Longrightarrow> q_inv q' \<and> q_items q = a # q_items q'"
  by (auto simp: q_pop_def Let_def q_inv_def q_is_empty_def q_is_full_def split: list.splits if_splits)

lemma q_pop_None: "q_pop q = None \<longleftrightarrow> q_items q = []"
  by (simp add: q_pop_def Let_def split: list.splits)

lemma q_wait_spec:
  "q_inv q \<Longrightarrow> q_inv (snd (q_wait_not_empty q)) \<and> q_items (snd (q_wait_not_empty q)) = q_items q"
  "q_inv q \<Longrightarrow> q_inv (snd (q_wait_not_full q)) \<and> q_items (snd (q_wait_not_full q)) = q_items q"
  by (auto simp: q_wait_not_empty_def q_wait_not_full_def q_inv_def q_is_empty_def q_is_full_def)

lemma q_push_eventually_spec:
  assumes "q_inv q" "q_push_eventually a q = (w, q')"
  shows "q_inv q' \<and> q_items q' = q_items q @ (if w = None then [a] else [])"
proof (cases "q_is_full q")
  case True
  then have "w \<noteq> None" "q' = snd (q_wait_not_full q)"
    using assms(2) by (auto simp: q_push_eventually_def q_wait_not_full_def)
  with q_wait_spec(2) [OF assms(1)] show ?thesis by simp
qed (use assms q_push_resume_spec [OF assms(1)] in \<open>auto simp: q_push_eventually_def\<close>)

lemma q_pop_eventually_spec:
  assumes "q_inv q" "q_pop_eventually q = Some (r, q')"
  shows "q_inv q' \<and> q_items q = out_of r @ q_items q'"
proof (cases "q_is_empty q")
  case True
  then have "out_of r = []" "q' = snd (q_wait_not_empty q)"
    using assms(2) by (auto simp: q_pop_eventually_def q_wait_not_empty_def)
  with q_wait_spec(1) [OF assms(1)] show ?thesis by simp
qed (use assms q_pop_spec [OF assms(1)] in \<open>auto simp: q_pop_eventually_def\<close>)

lemma q_pop_resume_spec:
  assumes "q_inv q" "q_pop_resume q = Some (r, q')"
  shows "q_inv q' \<and> q_items q = out_of r @ q_items q'"
  using assms q_pop_spec [OF assms(1)] by (auto simp: q_pop_resume_def split: option.splits)

lemma q_consume_spec:
  assumes "q_inv q" "q_consume take_items (n, []) q = (b, (m, as), q')"
  shows "q_inv q' \<and> q_items q = as @ q_items q'"
proof -
  obtain rest where c: "consume_items take_items (n, []) (q_items q) = (b, (m, as), rest)"
    and q': "q' = (if q_is_full (q\<lparr>q_items := rest\<rparr>) then q\<lparr>q_items := rest\<rparr>
        else notify_not_full (q\<lparr>q_items := rest\<rparr>))"
    using assms(2) by (auto simp: q_consume_def Let_def split: prod.splits)
  have "q_items q = as @ rest"
    using consume_items_split [OF c] by simp
  with q' assms(1) show ?thesis
    by (auto simp: q_inv_def q_is_empty_def q_is_full_def)
qed

lemma q_set_max_size_spec:
  "q_inv q \<Longrightarrow> q_inv (q_set_max_size m q) \<and> q_items (q_set_max_size m q) = q_items q"
  by (simp add: q_set_max_size_def Let_def q_inv_def q_is_empty_def q_is_full_def)

lemma q_abort_spec: "q_inv (q_abort e q)"
  by (simp add: q_abort_def q_inv_def)

lemma q_apply_spec:
  assumes "q_inv q" "q_apply p q = Some (ins, outs, q')"
  shows "q_inv q' \<and> ((\<forall>e. p \<noteq> Abort e) \<longrightarrow> q_items q @ ins = outs @ q_items q')"
proof (cases p)
  case (Push a)
  with assms q_push_spec [OF assms(1)] show ?thesis by (auto split: prod.splits)
next
  case (Push_eventually a)
  with assms q_push_eventually_spec [OF assms(1)] show ?thesis by (auto split: prod.splits)
next
  case (Push_resume a)
  with assms q_push_resume_spec [OF assms(1)] show ?thesis by auto
next
  case Pop
  with assms q_pop_spec [OF assms(1)] show ?thesis by auto
next
  case Pop_eventually
  with assms q_pop_eventually_spec [OF assms(1)] show ?thesis by auto
next
  case Pop_resume
  with assms q_pop_resume_spec [OF assms(1)] show ?thesis by auto
next
  case (Consume n)
  with assms q_consume_spec [OF assms(1)] show ?thesis by (auto split: prod.splits)
next
  case (Set_max_size m)
  with assms q_set_max_size_spec [OF assms(1)] show ?thesis by auto
next
  case (Abort e)
  with assms q_abort_spec show ?thesis by auto
qed

lemma q_pop_Some: "q_items q \<noteq> [] \<Longrightarrow> \<exists>a q'. q_pop q = Some (a, q')"
  using q_pop_None [of q] by (metis option.exhaust surj_pair)

lemma q_apply_defined:
  "q_apply p q = None \<longleftrightarrow> q_items q = [] \<and> (p = Pop \<or> p = Pop_resume \<and> q_ex q = None)"
  by (cases p) (auto simp: q_pop_None q_pop_eventually_def q_pop_resume_def q_is_empty_def
      q_wait_not_empty_def dest: q_pop_Some split: prod.splits option.splits)

section \<open>Properties\<close>

text \<open>
  C14. Bounded queue: over any run of pushes, pops, suspended and resumed calls, consumptions and
  limit changes without an abort, the items handed out followed by those still queued are
  exactly the items put in, in order; a consumer waits only on an empty queue and a producer
  only on a full one; and the only undefined next call is to pop (or to resume a pop on) an
  empty queue.
\<close>

theorem queue_is_fifo_without_lost_wakeups:
  assumes "q_run ps (q_init m) = Some (ins, outs, q)" "\<forall>e. Abort e \<notin> set ps"
  shows "ins = outs @ q_items q \<and> (q_not_empty q \<noteq> None \<longrightarrow> q_items q = [])
    \<and> (q_not_full q \<noteq> None \<longrightarrow> q_max q \<le> length (q_items q))
    \<and> (q_apply p q = None \<longleftrightarrow> q_items q = [] \<and> (p = Pop \<or> p = Pop_resume \<and> q_ex q = None))"
proof -
  have "q_inv q \<and> q_items r @ ins = outs @ q_items q" if "q_inv r" "q_run ps r = Some (ins, outs, q)" for r
    using that assms(2)
  proof (induction ps arbitrary: r ins outs)
    case (Cons x xs)
    then obtain i1 o1 r1 i2 o2 where "q_apply x r = Some (i1, o1, r1)" "q_run xs r1 = Some (i2, o2, q)"
        "ins = i1 @ i2" "outs = o1 @ o2"
      by (auto split: option.splits)
    with Cons.IH [of r1 i2 o2] Cons.prems q_apply_spec [of r x i1 o1 r1] show ?case
      by (metis append_assoc list.set_intros(1,2))
  qed simp
  from this [of "q_init m"] assms(1) have "q_inv q" "ins = outs @ q_items q"
    by (simp_all add: q_init_def q_inv_def)
  then show ?thesis
    by (simp add: q_apply_defined q_inv_def q_is_empty_def q_is_full_def)
qed

theorem queue_is_fifo_without_lost_wakeups_witness:
  "\<exists>q. q_run [Pop_eventually, Push (1::nat), Pop_resume, Push_eventually 2, Push_eventually 3, Pop, Push_resume 3]
      (q_init 1 :: (nat, unit) queue) = Some ([1, 2, 3], [1, 2], q) \<and> q_items q = [3]
    \<and> (q_not_empty q \<noteq> None \<longrightarrow> q_items q = [])"
proof -
  let ?ps = "[Pop_eventually, Push (1::nat), Pop_resume, Push_eventually 2, Push_eventually 3, Pop, Push_resume 3]"
  obtain q where r: "q_run ?ps (q_init 1 :: (nat, unit) queue) = Some ([1, 2, 3], [1, 2], q)"
    by (simp add: q_init_def q_pop_eventually_def q_wait_not_empty_def q_is_empty_def q_push_def
        q_pop_resume_def q_push_eventually_def q_push_resume_def q_wait_not_full_def q_is_full_def q_pop_def)
  from queue_is_fifo_without_lost_wakeups [OF r] show ?thesis
    using r by simp
qed

text \<open>
  An aborted queue can hang its consumer: after \<open>abort\<close>, which is to pass the exception to the
  readers, \<open>pop_eventually\<close> does not look at the exception and waits on a fresh promise that
  nothing will fail; if a producer pushes an item later, the consumer wakes up, is given the
  exception, and the item stays in the queue.
\<close>

theorem aborted_queue_still_waits:
  assumes "q_inv q"
  shows "\<exists>i r. q_pop_eventually (q_abort e q) = Some (Waits i, r) \<and> q_not_empty r = Some i
    \<and> (0 < q_max q \<longrightarrow> (\<exists>t. q_push a r = (True, t) \<and> (i, Value_Set) \<in> set (q_log t)
         \<and> q_pop_resume t = Some (Failed e, t) \<and> q_items t = [a]))"
  by (auto simp: q_abort_def q_pop_eventually_def q_wait_not_empty_def q_is_empty_def q_push_def
      q_pop_resume_def notify_not_empty_def settle_def)

theorem aborted_queue_still_waits_witness:
  "\<exists>i r t. q_pop_eventually (q_abort ''x'' (q_init 1 :: (nat, string) queue)) = Some (Waits i, r)
    \<and> q_push 7 r = (True, t) \<and> q_pop_resume t = Some (Failed ''x'', t) \<and> q_items t = [7]"
proof -
  have "q_inv (q_init 1 :: (nat, string) queue)" "0 < q_max (q_init 1 :: (nat, string) queue)"
    by (simp_all add: q_inv_def q_init_def)
  with aborted_queue_still_waits [of "q_init 1 :: (nat, string) queue" "''x''" 7] show ?thesis by blast
qed

end
