(* ===== verification/Rss_Hash.thy ===== *)
theory Rss_Hash
  imports Preprocessors
begin

text \<open>
  Receive-side scaling: the data a flow is hashed by (\<open>forward_hash\<close> of net/net.hh and
  \<open>l4connid::hash\<close> of net/ip.hh), the Toeplitz hash (net/toeplitz.hh), the choice of queue and
  CPU by a device (net/net.hh), and the search for port pairs that make the MICA client and
  server cores meet (netstar/mica/mica_def.cc).

  \<^item> An RSS key is a byte string; a hash over a key of less than four bytes reads past it.
  \<^item> \<open>forward_hash\<close> holds at most 64 bytes, the assertion is \<open>None\<close>.
  \<^item> The reference for the hash is \<open>toeplitz_spec\<close>: the exclusive or of the 32-bit windows of
    the key at the positions of the set data bits.
\<close>

section \<open>Data to be hashed\<close>

type_synonym forward_hash = bytes

definition fh_push8 :: "u8 \<Rightarrow> forward_hash \<Rightarrow> forward_hash option" where
  "fh_push8 b d = (if length d < 64 then Some (d @ [b]) else None)"

definition fh_push16 :: "u16 \<Rightarrow> forward_hash \<Rightarrow> forward_hash option" where
  "fh_push16 b d = Option.bind (fh_push8 (ucast b) d) (fh_push8 (ucast (drop_bit 8 b)))"

definition fh_push32 :: "u32 \<Rightarrow> forward_hash \<Rightarrow> forward_hash option" where
  "fh_push32 b d = Option.bind (fh_push16 (ucast b) d) (fh_push16 (ucast (drop_bit 16 b)))"

section \<open>Toeplitz hash\<close>

definition toeplitz_bit :: "bytes \<Rightarrow> nat \<Rightarrow> u8 \<Rightarrow> nat \<Rightarrow> u32 \<times> u32 \<Rightarrow> u32 \<times> u32" where
  "toeplitz_bit key i d b = (\<lambda>(hash, v).
     (if bit d (7 - b) then hash XOR v else hash,
      (let v' = push_bit 1 v in if i + 4 < length key \<and> bit (key ! (i + 4)) (7 - b) then v' OR 1 else v')))"

fun toeplitz_bytes :: "bytes \<Rightarrow> nat \<Rightarrow> bytes \<Rightarrow> u32 \<times> u32 \<Rightarrow> u32 \<times> u32" where
  "toeplitz_bytes key i [] hv = hv"
| "toeplitz_bytes key i (d # ds) hv = toeplitz_bytes key (Suc i) ds (fold (toeplitz_bit key i d) [0..<8] hv)"

definition toeplitz_hash :: "bytes \<Rightarrow> bytes \<Rightarrow> u32 option" where
  "toeplitz_hash key data = (if length key < 4 then None else
    Some (fst (toeplitz_bytes key 0 data
      (0, push_bit 24 (ucast (key ! 0)) + push_bit 16 (ucast (key ! 1))
        + push_bit 8 (ucast (key ! 2)) + ucast (key ! 3)))))"

definition connid_hash :: "bytes \<Rightarrow> l4connid \<Rightarrow> u32 option" where
  "connid_hash rss_key c = Option.bind (Option.bind (Option.bind (Option.bind
      (fh_push32 (hton (foreign_ip c)) []) (fh_push32 (hton (local_ip c))))
      (fh_push16 (hton (foreign_port c)))) (fh_push16 (hton (local_port c))))
    (toeplitz_hash rss_key)"

section \<open>Queues and CPUs of a device\<close>

record rss_device =
  dev_hw_queues :: nat
  dev_rss_table_bits :: nat
  dev_sw_reta :: "nat \<Rightarrow> u8 list option"

definition hash2qid :: "rss_device \<Rightarrow> u32 \<Rightarrow> nat option" where
  "hash2qid dev hash = (if dev_hw_queues dev = 0 then None else Some (unat hash mod dev_hw_queues dev))"

definition forward_dst :: "rss_device \<Rightarrow> nat \<Rightarrow> u32 \<Rightarrow> nat" where
  "forward_dst dev src_cpuid hash = (case dev_sw_reta dev src_cpuid of None \<Rightarrow> src_cpuid
    | Some reta \<Rightarrow> unat (reta ! (unat (drop_bit (dev_rss_table_bits dev) hash) mod length reta)))"

definition hash2cpu :: "rss_device \<Rightarrow> u32 \<Rightarrow> nat option" where
  "hash2cpu dev hash = map_option (\<lambda>q. forward_dst dev q hash) (hash2qid dev hash)"

section \<open>Meaning of the hash\<close>

definition key_bit :: "bytes \<Rightarrow> nat \<Rightarrow> bool" where
  "key_bit key p \<longleftrightarrow> p div 8 < length key \<and> bit (key ! (p div 8)) (7 - p mod 8)"

definition key_window :: "bytes \<Rightarrow> nat \<Rightarrow> u32" where
  "key_window key p = horner_sum of_bool 2 (map (\<lambda>j. key_bit key (p + (31 - j))) [0..<32])"

definition toeplitz_spec :: "bytes \<Rightarrow> bytes \<Rightarrow> u32" where
  "toeplitz_spec key data = fold (\<lambda>p h. if key_bit data p then h XOR key_window key p else h) [0..<8 * length data] 0"

lemma bit_key_window: "bit (key_window key p) j \<longleftrightarrow> j < 32 \<and> key_bit key (p + (31 - j))"
  by (auto simp: key_window_def bit_horner_sum_bit_word_iff)

lemma key_window_step:
  "key_window key (Suc p) = (let v' = push_bit 1 (key_window key p) in if key_bit key (p + 32) then v' OR 1 else v')"
proof (rule bit_word_eqI)
  fix n assume "n < LENGTH(32)"
  then have n: "n < 32" by simp
  have dbl: "\<not> bit (v * 2) 0" for v :: u32
    by (simp add: bit_0)
  have dbl': "bit (v * 2) (Suc m) \<longleftrightarrow> m < 31 \<and> bit v m" for v :: u32 and m
    using bit_push_bit_iff [of 1 v "Suc m"] by auto
  show "bit (key_window key (Suc p)) n
    = bit (let v' = push_bit 1 (key_window key p) in if key_bit key (p + 32) then v' OR 1 else v') n"
  proof (cases n)
    case 0
    then show ?thesis
      by (auto simp: Let_def bit_key_window bit_push_bit_iff bit_or_iff dbl add.commute)
  next
    case (Suc m)
    then have "Suc p + (31 - n) = p + (31 - m)"
      using n by simp
    with Suc n show ?thesis
      by (auto simp: Let_def bit_key_window bit_or_iff bit_1_iff dbl')
  qed
qed

lemma toeplitz_bit_window:
  assumes "b < 8" "i < length data" "d = data ! i"
  shows "toeplitz_bit key i d b (h, key_window key (8 * i + b))
    = (if key_bit data (8 * i + b) then h XOR key_window key (8 * i + b) else h, key_window key (Suc (8 * i + b)))"
proof -
  have "(8 * i + b) div 8 = i" "(8 * i + b) mod 8 = b"
    and "(8 * i + b + 32) div 8 = i + 4" "(8 * i + b + 32) mod 8 = b"
    using assms(1) by presburger+
  then have "key_bit key (8 * i + b + 32) \<longleftrightarrow> i + 4 < length key \<and> bit (key ! (i + 4)) (7 - b)"
    and "key_bit data (8 * i + b) \<longleftrightarrow> bit d (7 - b)"
    using assms(2,3) by (simp_all only: key_bit_def) simp
  then show ?thesis
    by (simp add: toeplitz_bit_def key_window_step Let_def)
qed

abbreviation spec_from :: "bytes \<Rightarrow> bytes \<Rightarrow> nat \<Rightarrow> nat \<Rightarrow> u32 \<Rightarrow> u32" where
  "spec_from key data m n \<equiv> fold (\<lambda>p h. if key_bit data p then h XOR key_window key p else h) [m..<n]"

lemma toeplitz_byte:
  assumes "i < length data" "k \<le> 8"
  shows "fold (toeplitz_bit key i (data ! i)) [0..<k] (h, key_window key (8 * i))
    = (spec_from key data (8 * i) (8 * i + k) h, key_window key (8 * i + k))"
  using assms(2)
proof (induction k)
  case (Suc k)
  then show ?case
    using toeplitz_bit_window [of k i data "data ! i" key] assms(1) by simp
qed simp

lemma toeplitz_bytes_spec:
  assumes "i + length ds = length data" "ds = drop i data"
  shows "toeplitz_bytes key i ds (h, key_window key (8 * i))
    = (spec_from key data (8 * i) (8 * length data) h, key_window key (8 * length data))"
  using assms
proof (induction ds arbitrary: i h)
  case (Cons d ds)
  have i: "i < length data" "data ! i = d" "drop (Suc i) data = ds"
  proof -
    have e: "drop i data = d # ds"
      using Cons.prems(2) by simp
    then show "i < length data" "data ! i = d"
      using Cons.prems(1) by (simp_all add: nth_via_drop)
    show "drop (Suc i) data = ds"
      unfolding drop_Suc using tl_drop [of i data] e by simp
  qed
  have split: "[8 * i..<8 * length data] = [8 * i..<8 * Suc i] @ [8 * Suc i..<8 * length data]"
    using i(1) upt_add_eq_append [of "8 * i" "8 * Suc i" "8 * length data - 8 * Suc i"] by simp
  have byte: "fold (toeplitz_bit key i d) [0..<8] (h, key_window key (8 * i))
      = (spec_from key data (8 * i) (8 * Suc i) h, key_window key (8 * Suc i))"
    using toeplitz_byte [OF i(1), of 8 key h] i(2) by (simp add: add.commute)
  have "toeplitz_bytes key (Suc i) ds (spec_from key data (8 * i) (8 * Suc i) h, key_window key (8 * Suc i))
    = (spec_from key data (8 * Suc i) (8 * length data) (spec_from key data (8 * i) (8 * Suc i) h),
       key_window key (8 * length data))"
    using Cons.prems(1) i(3) by (intro Cons.IH) simp_all
  then show ?case
    unfolding split fold_append comp_apply toeplitz_bytes.simps byte .
qed simp

lemma window_start:
  assumes "4 \<le> length key"
  shows "push_bit 24 (ucast (key ! 0)) + push_bit 16 (ucast (key ! 1)) + push_bit 8 (ucast (key ! 2))
    + ucast (key ! 3) = key_window key 0"
proof -
  have or: "a + b = a OR b" if "\<And>n. \<not> (bit a n \<and> bit b n)" for a b :: u32
    using that by (intro disjunctive_add) auto
  let ?a = "push_bit 24 (ucast (key ! 0)) :: u32" and ?b = "push_bit 16 (ucast (key ! 1)) :: u32"
    and ?c = "push_bit 8 (ucast (key ! 2)) :: u32" and ?d = "ucast (key ! 3) :: u32"
  note bits = bit_or_iff bit_push_bit_iff bit_ucast_iff
  have "?a + ?b = ?a OR ?b"
    by (rule or) (auto simp: bits dest: bit_imp_le_length)
  moreover have "(?a OR ?b) + ?c = (?a OR ?b) OR ?c"
    by (rule or) (auto simp: bits dest: bit_imp_le_length)
  moreover have "((?a OR ?b) OR ?c) + ?d = ((?a OR ?b) OR ?c) OR ?d"
    by (rule or) (auto simp: bits dest: bit_imp_le_length)
  ultimately have "?a + ?b + ?c + ?d = ((?a OR ?b) OR ?c) OR ?d"
    by (simp only:)
  also have "\<dots> = key_window key 0"
  proof (rule bit_word_eqI)
    fix n assume "n < LENGTH(32)"
    then have n: "n < 32"
      by simp
    define q r where "q = n div 8" and "r = n mod 8"
    have nqr: "n = 8 * q + r" "r < 8"
      by (simp_all add: q_def r_def)
    then have q: "q < 4"
      using n by linarith
    obtain m where m: "m + r = 7"
      using nqr(2) by (intro that [of "7 - r"]) simp
    then have "31 - n = 8 * (3 - q) + m"
      using nqr q by simp
    then have "(31 - n) div 8 = 3 - q" "7 - (31 - n) mod 8 = r"
      using m by simp_all
    moreover have "3 - q < length key"
      using assms by linarith
    ultimately have k: "key_bit key (31 - n) \<longleftrightarrow> bit (key ! (3 - q)) r"
      by (simp add: key_bit_def)
    from q consider "q = 0" | "q = 1" | "q = 2" | "q = 3"
      by linarith
    then have "bit (((?a OR ?b) OR ?c) OR ?d) (8 * q + r) = bit (key ! (3 - q)) r"
      using nqr(2) by cases (auto simp: bits dest: bit_imp_le_length)
    then show "bit (((?a OR ?b) OR ?c) OR ?d) n = bit (key_window key 0) n"
      using n k nqr(1) by (simp add: bit_key_window)
  qed
  finally show ?thesis .
qed

lemma toeplitz_hash_spec: "4 \<le> length key \<Longrightarrow> toeplitz_hash key data = Some (toeplitz_spec key data)"
  using toeplitz_bytes_spec [of 0 data data key 0] window_start [of key]
  by (simp add: toeplitz_hash_def toeplitz_spec_def)

lemma of_nat_div_exp: "(of_nat (unat x div 2 ^ k) :: u8) = ucast (drop_bit k (x :: 'a::len word))"
proof -
  have "unat x div 2 ^ k = unat (drop_bit k x)"
    unfolding unat_drop_bit_eq by (rule drop_bit_eq_div [symmetric])
  then show ?thesis by simp
qed

lemma object_bytes_16: "object_bytes (x :: u16) = [ucast x, ucast (drop_bit 8 x)]"
proof -
  have "nat_le 2 v = [of_nat v, of_nat (v div 256)]" for v
    by (simp add: numeral_2_eq_2)
  then show ?thesis
    using of_nat_div_exp [of x 8] by (simp add: object_bytes_def)
qed

lemma object_bytes_32:
  "object_bytes (x :: u32) = [ucast x, ucast (drop_bit 8 x), ucast (drop_bit 16 x), ucast (drop_bit 24 x)]"
proof -
  have "nat_le 4 v = [of_nat v, of_nat (v div 256), of_nat (v div 65536), of_nat (v div 16777216)]" for v
  proof -
    have "nat_le (Suc (Suc (Suc (Suc 0)))) v = [of_nat v, of_nat (v div 256), of_nat (v div 65536),
        of_nat (v div 16777216)]"
      by (simp flip: div_mult2_eq)
    then show ?thesis
      by (simp only: Suc_1 Suc_numeral Num.add_num_simps flip: One_nat_def)
  qed
  then show ?thesis
    using of_nat_div_exp [of x 8] of_nat_div_exp [of x 16] of_nat_div_exp [of x 24]
    by (simp add: object_bytes_def)
qed

lemma fh_push16_bytes: "length d + 2 \<le> 64 \<Longrightarrow> fh_push16 y d = Some (d @ object_bytes y)"
  by (simp add: fh_push16_def fh_push8_def object_bytes_16)

lemma fh_push32_bytes: "length d + 4 \<le> 64 \<Longrightarrow> fh_push32 y d = Some (d @ object_bytes y)"
proof -
  assume "length d + 4 \<le> 64"
  then have "fh_push32 y d = Some (d @ object_bytes (ucast y :: u16) @ object_bytes (ucast (drop_bit 16 y) :: u16))"
    by (simp add: fh_push32_def fh_push16_bytes)
  moreover have "object_bytes (ucast y :: u16) @ object_bytes (ucast (drop_bit 16 y) :: u16) = object_bytes y"
    unfolding object_bytes_16 object_bytes_32
    by (auto intro!: bit_word_eqI simp: bit_ucast_iff bit_drop_bit_eq)
  ultimately show ?thesis by simp
qed

lemma connid_hash_spec:
  assumes "4 \<le> length key"
  shows "connid_hash key c = Some (toeplitz_spec key
    (rev (object_bytes (foreign_ip c)) @ rev (object_bytes (local_ip c))
      @ rev (object_bytes (foreign_port c)) @ rev (object_bytes (local_port c))))"
  by (simp add: connid_hash_def fh_push32_bytes fh_push16_bytes toeplitz_hash_spec [OF assms]
      hton_def object_bytes_bswap size_of_def)

section \<open>Port pairs for a queue mapping\<close>

text \<open>
  \<open>do_calculate_queue_mapping\<close>: ports are tried in order until every pair of a local and a
  remote queue has one. Parameters: the hash of a connection under the key in use, and the
  local queue it selects (queue 0 with one core, \<open>hash2cpu\<close> otherwise). The result is \<open>None\<close>
  if a queue number is out of range (the vectors are indexed without a check) or if the ports
  run out (the assertion).
\<close>

definition remote_redir_table :: "nat \<Rightarrow> u8 list" where
  "remote_redir_table remote_smp_count = map (\<lambda>i. of_nat (i mod remote_smp_count)) [0..<512]"

record mapping_state =
  ms_res :: "(u16 \<times> u16) list list"
  ms_used :: "bool list list"
  ms_total :: nat

definition mapping_start :: "nat \<Rightarrow> nat \<Rightarrow> mapping_state" where
  "mapping_start local_smp_count remote_smp_count =
    \<lparr>ms_res = replicate local_smp_count (replicate remote_smp_count (0, 0)),
     ms_used = replicate local_smp_count (replicate remote_smp_count False),
     ms_total = local_smp_count * remote_smp_count\<rparr>"

definition conn_queues :: "(l4connid \<Rightarrow> u32) \<Rightarrow> (u32 \<Rightarrow> nat) \<Rightarrow> nat \<Rightarrow> u32 \<Rightarrow> u32 \<Rightarrow> nat \<Rightarrow> nat \<Rightarrow> nat \<times> nat" where
  "conn_queues hash local_queue remote_smp_count local_addr remote_addr local_p remote_p =
    (local_queue (hash \<lparr>local_ip = local_addr, foreign_ip = remote_addr,
        local_port = of_nat local_p, foreign_port = of_nat remote_p\<rparr>),
     unat (remote_redir_table remote_smp_count ! unat (hash \<lparr>local_ip = remote_addr, foreign_ip = local_addr,
        local_port = of_nat remote_p, foreign_port = of_nat local_p\<rparr> AND 511)))"

definition mapping_try :: "(nat \<Rightarrow> nat \<Rightarrow> nat \<times> nat) \<Rightarrow> nat \<Rightarrow> nat \<Rightarrow> mapping_state \<Rightarrow> mapping_state option" where
  "mapping_try queues local_p remote_p s = (case queues local_p remote_p of (x, y) \<Rightarrow>
    if x < length (ms_used s) \<and> y < length (ms_used s ! x) then
      Some (if ms_used s ! x ! y then s else
        \<lparr>ms_res = (ms_res s)[x := (ms_res s ! x)[y := (of_nat local_p, of_nat remote_p)]],
         ms_used = (ms_used s)[x := (ms_used s ! x)[y := True]],
         ms_total = ms_total s - 1\<rparr>)
    else None)"

text \<open>Both loops: the result if all pairs are found, or the state after the last port.\<close>

function scan_remote :: "(nat \<Rightarrow> nat \<Rightarrow> nat \<times> nat) \<Rightarrow> nat \<Rightarrow> nat \<Rightarrow> mapping_state \<Rightarrow> (mapping_state \<times> bool) option" where
  "scan_remote queues local_p remote_p s = (if remote_p < 65535 then
     (case mapping_try queues local_p remote_p s of None \<Rightarrow> None
      | Some t \<Rightarrow> if ms_total t = 0 then Some (t, True) else scan_remote queues local_p (remote_p + 1) t)
   else Some (s, False))"
  by pat_completeness auto
termination
  by (relation "measure (\<lambda>(_, _, r, _). 65535 - r)") auto

function scan_local :: "(nat \<Rightarrow> nat \<Rightarrow> nat \<times> nat) \<Rightarrow> nat \<Rightarrow> mapping_state \<Rightarrow> (mapping_state \<times> bool) option" where
  "scan_local queues local_p s = (if local_p < 65535 then
     (case scan_remote queues local_p 10240 s of None \<Rightarrow> None
      | Some (t, True) \<Rightarrow> Some (t, True)
      | Some (t, False) \<Rightarrow> scan_local queues (local_p + 1) t)
   else Some (s, False))"
  by pat_completeness auto
termination
  by (relation "measure (\<lambda>(_, l, _). 65535 - l)") auto

declare scan_remote.simps [simp del] scan_local.simps [simp del]

definition do_calculate_queue_mapping ::
    "(l4connid \<Rightarrow> u32) \<Rightarrow> (u32 \<Rightarrow> nat) \<Rightarrow> nat \<Rightarrow> nat \<Rightarrow> u32 \<Rightarrow> u32 \<Rightarrow> (u16 \<times> u16) list list option" where
  "do_calculate_queue_mapping hash local_queue local_smp_count remote_smp_count local_addr remote_addr =
    (case scan_local (conn_queues hash local_queue remote_smp_count local_addr remote_addr) 10240
        (mapping_start local_smp_count remote_smp_count) of
      Some (t, True) \<Rightarrow> Some (ms_res t) | _ \<Rightarrow> None)"

definition unused :: "bool list list \<Rightarrow> nat" where
  "unused u = (\<Sum>r\<leftarrow>u. length (filter Not r))"

text \<open>What the search keeps: the shape of the tables, the number of open pairs, and that every
  pair marked as used has ports that lead to its queues.\<close>

definition mapping_inv :: "(nat \<Rightarrow> nat \<Rightarrow> nat \<times> nat) \<Rightarrow> nat \<Rightarrow> nat \<Rightarrow> mapping_state \<Rightarrow> bool" where
  "mapping_inv queues m n s \<longleftrightarrow> length (ms_res s) = m \<and> length (ms_used s) = m
    \<and> (\<forall>x<m. length (ms_res s ! x) = n \<and> length (ms_used s ! x) = n)
    \<and> ms_total s = unused (ms_used s)
    \<and> (\<forall>x<m. \<forall>y<n. ms_used s ! x ! y \<longrightarrow>
         (case ms_res s ! x ! y of (l, r) \<Rightarrow> queues (unat l) (unat r) = (x, y)))"

lemma unused_update:
  assumes "x < length u" "y < length (u ! x)" "\<not> u ! x ! y"
  shows "unused (u[x := (u ! x)[y := True]]) = unused u - 1"
proof -
  have row: "length (filter Not (r[y := True])) = length (filter Not r) - 1 \<and> 0 < length (filter Not r)"
    if "y < length r" "\<not> r ! y" for r
  proof -
    have "r = take y r @ r ! y # drop (Suc y) r"
      using that(1) by (rule id_take_nth_drop)
    then have "length (filter Not r) = length (filter Not (take y r)) + 1 + length (filter Not (drop (Suc y) r))"
      using that(2) by (metis (no_types, lifting) add.assoc filter.simps(2) filter_append length_Cons
          length_append plus_1_eq_Suc)
    moreover have "r[y := True] = take y r @ True # drop (Suc y) r"
      using that(1) by (rule upd_conv_take_nth_drop)
    ultimately show ?thesis by simp
  qed
  have u: "u = take x u @ u ! x # drop (Suc x) u"
    using assms(1) by (rule id_take_nth_drop)
  have v: "u[x := (u ! x)[y := True]] = take x u @ (u ! x)[y := True] # drop (Suc x) u"
    using assms(1) by (rule upd_conv_take_nth_drop)
  have "unused u = unused (take x u) + length (filter Not (u ! x)) + unused (drop (Suc x) u)"
    by (subst u) (simp add: unused_def)
  moreover have "unused (u[x := (u ! x)[y := True]])
      = unused (take x u) + length (filter Not ((u ! x)[y := True])) + unused (drop (Suc x) u)"
    unfolding v by (simp add: unused_def)
  ultimately show ?thesis
    using row [OF assms(2,3)] by linarith
qed

lemma mapping_try_inv:
  assumes "mapping_inv queues m n s" "mapping_try queues l r s = Some t" "l < 65536" "r < 65536"
  shows "mapping_inv queues m n t"
proof -
  obtain x y where q: "queues l r = (x, y)"
    by fastforce
  have xy: "x < m" "y < n"
    using assms(1,2) q by (auto simp: mapping_try_def mapping_inv_def split: if_splits)
  show ?thesis
  proof (cases "ms_used s ! x ! y")
    case True
    then show ?thesis
      using assms(1,2) q by (simp add: mapping_try_def split: if_splits)
  next
    case False
    have lr: "unat (of_nat l :: u16) = l" "unat (of_nat r :: u16) = r"
      using assms(3,4) by (simp_all add: unat_of_nat)
    have t: "t = \<lparr>ms_res = (ms_res s)[x := (ms_res s ! x)[y := (of_nat l, of_nat r)]],
         ms_used = (ms_used s)[x := (ms_used s ! x)[y := True]], ms_total = ms_total s - 1\<rparr>"
      using assms(2) q False by (simp add: mapping_try_def split: if_splits)
    have len: "length (ms_res s) = m" "length (ms_used s) = m"
        "\<And>i. i < m \<Longrightarrow> length (ms_res s ! i) = n \<and> length (ms_used s ! i) = n"
      and old: "\<And>i j. i < m \<Longrightarrow> j < n \<Longrightarrow> ms_used s ! i ! j \<Longrightarrow>
         (case ms_res s ! i ! j of (l, r) \<Rightarrow> queues (unat l) (unat r) = (i, j))"
      and tot: "ms_total s = unused (ms_used s)"
      using assms(1) unfolding mapping_inv_def by simp_all
    have "unused (ms_used t) = unused (ms_used s) - 1"
      using unused_update [of x "ms_used s" y] xy len False by (simp add: t)
    moreover have "\<forall>i<m. length (ms_res t ! i) = n \<and> length (ms_used t ! i) = n"
    proof (intro allI impI)
      fix i assume "i < m"
      with len(1,2) len(3) [of i] show "length (ms_res t ! i) = n \<and> length (ms_used t ! i) = n"
        by (cases "i = x") (simp_all add: t)
    qed
    moreover have "case ms_res t ! i ! j of (l, r) \<Rightarrow> queues (unat l) (unat r) = (i, j)"
      if "i < m" "j < n" "ms_used t ! i ! j" for i j
    proof (cases "i = x \<and> j = y")
      case True
      then show ?thesis
        using that lr q len xy by (simp add: t)
    next
      case False
      then have "ms_used t ! i ! j = ms_used s ! i ! j" "ms_res t ! i ! j = ms_res s ! i ! j"
        using that(1) len(1,2) by (cases "i = x"; simp add: t)+
      then show ?thesis
        using old that by simp
    qed
    ultimately show ?thesis
      unfolding mapping_inv_def using len tot by (simp add: t)
  qed
qed

lemma scan_remote_inv:
  assumes "mapping_inv queues m n s" "scan_remote queues l r s = Some (t, b)" "l < 65536"
  shows "mapping_inv queues m n t \<and> (b \<longrightarrow> ms_total t = 0)"
  using assms
proof (induction queues l r s rule: scan_remote.induct)
  case (1 queues l r s)
  show ?case
  proof (cases "r < 65535")
    case True
    then obtain u where u: "mapping_try queues l r s = Some u"
        "(if ms_total u = 0 then Some (u, True) else scan_remote queues l (r + 1) u) = Some (t, b)"
      using "1.prems"(2) by (auto simp: scan_remote.simps [of queues l r s] split: option.splits)
    have "mapping_inv queues m n u"
      using mapping_try_inv [OF "1.prems"(1) u(1)] "1.prems"(3) True by simp
    then show ?thesis
      using "1.IH" [OF True u(1)] u(2) "1.prems"(3) by (auto split: if_splits)
  qed (use 1 in \<open>auto simp: scan_remote.simps [of queues l r s]\<close>)
qed

lemma scan_local_inv:
  assumes "mapping_inv queues m n s" "scan_local queues l s = Some (t, b)"
  shows "mapping_inv queues m n t \<and> (b \<longrightarrow> ms_total t = 0)"
  using assms
proof (induction queues l s rule: scan_local.induct)
  case (1 queues l s)
  show ?case
  proof (cases "l < 65535")
    case True
    then obtain u c where u: "scan_remote queues l 10240 s = Some (u, c)"
        "(if c then Some (u, True) else scan_local queues (l + 1) u) = Some (t, b)"
      using "1.prems"(2) by (auto simp: scan_local.simps [of queues l s] split: option.splits bool.splits)
    have "mapping_inv queues m n u \<and> (c \<longrightarrow> ms_total u = 0)"
      using scan_remote_inv [OF "1.prems"(1) u(1)] True by simp
    then show ?thesis
      using "1.IH" [OF True u(1) refl] u(2) by (cases c) auto
  qed (use 1 in \<open>auto simp: scan_local.simps [of queues l s]\<close>)
qed

lemma mapping_start_inv: "mapping_inv queues m n (mapping_start m n)"
  by (simp add: mapping_inv_def mapping_start_def unused_def sum_list_replicate)

lemma unused_zero: "unused u = 0 \<Longrightarrow> x < length u \<Longrightarrow> y < length (u ! x) \<Longrightarrow> u ! x ! y"
  unfolding unused_def by (auto simp: filter_empty_conv) (metis nth_mem)

section \<open>Properties\<close>

text \<open>
  C21. The Toeplitz hash: for a key of at least four bytes, the bit-serial computation with its
  shifting register equals the exclusive or, over the set bits of the data, of the 32 key bits
  that start at the position of the bit (zero beyond the key); and the hash of a connection is
  that of its foreign address, local address, foreign port and local port in network order.
\<close>

theorem toeplitz_is_window_xor:
  assumes "4 \<le> length key"
  shows "toeplitz_hash key data = Some (toeplitz_spec key data)
    \<and> connid_hash key c = Some (toeplitz_spec key
        (rev (object_bytes (foreign_ip c)) @ rev (object_bytes (local_ip c))
          @ rev (object_bytes (foreign_port c)) @ rev (object_bytes (local_port c))))"
  using toeplitz_hash_spec [OF assms] connid_hash_spec [OF assms] by blast

theorem toeplitz_is_window_xor_witness:
  "toeplitz_hash [0x6d, 0x5a, 0x56, 0xda, 0x25] [0x80, 0x01] = Some (toeplitz_spec [0x6d, 0x5a, 0x56, 0xda, 0x25] [0x80, 0x01])"
  using toeplitz_is_window_xor [of "[0x6d, 0x5a, 0x56, 0xda, 0x25]" "[0x80, 0x01]"] by simp

text \<open>
  The queue mapping: when the search for port pairs succeeds, the table has one entry for
  every local and remote core, and a packet sent from remote to local with the ports of entry
  \<open>(x, y)\<close> is hashed to local queue \<open>x\<close> while one in the other direction is hashed to remote
  queue \<open>y\<close>.
\<close>

theorem queue_mapping_directs_packets:
  assumes "do_calculate_queue_mapping hash local_queue m n la ra = Some res" "x < m" "y < n"
  shows "length res = m \<and> length (res ! x) = n \<and> (case res ! x ! y of (l, r) \<Rightarrow>
      local_queue (hash \<lparr>local_ip = la, foreign_ip = ra, local_port = l, foreign_port = r\<rparr>) = x
      \<and> unat (remote_redir_table n ! unat (hash \<lparr>local_ip = ra, foreign_ip = la, local_port = r, foreign_port = l\<rparr>
          AND 511)) = y)"
proof -
  let ?q = "conn_queues hash local_queue n la ra"
  obtain t where t: "scan_local ?q 10240 (mapping_start m n) = Some (t, True)" "res = ms_res t"
    using assms(1) by (auto simp: do_calculate_queue_mapping_def split: option.splits prod.splits bool.splits)
  have "mapping_inv ?q m n t" "ms_total t = 0"
    using scan_local_inv [OF mapping_start_inv t(1)] by simp_all
  moreover from this have "ms_used t ! x ! y"
    using unused_zero [of "ms_used t" x y] assms(2,3) by (simp add: mapping_inv_def)
  ultimately show ?thesis
    using assms(2,3) t(2) by (auto simp: mapping_inv_def conn_queues_def split: prod.splits)
qed

theorem queue_mapping_directs_packets_witness:
  "\<exists>res. do_calculate_queue_mapping (\<lambda>c. 7) (\<lambda>_. 0) 1 1 1 2 = Some res \<and> length res = 1 \<and> length (res ! 0) = 1"
proof -
  have tab: "remote_redir_table (Suc 0) ! 7 = 0"
    by (simp add: remote_redir_table_def)
  obtain res where "do_calculate_queue_mapping (\<lambda>c. 7) (\<lambda>_. 0) 1 1 1 2 = Some res"
    by (simp add: do_calculate_queue_mapping_def scan_local.simps [of _ 10240] scan_remote.simps [of _ 10240 10240]
        mapping_try_def conn_queues_def mapping_start_def tab)
  with queue_mapping_directs_packets [OF this, of 0 0] show ?thesis by auto
qed

end
