(* ===== verification/Net_Headers.thy ===== *)
theory Net_Headers
  imports Byte_Order
begin

text \<open>
  The headers of the native network stack as records with their network-order bytes: Ethernet
  and MAC addresses (net/ethernet.hh, net/ethernet.cc), IPv4 addresses and headers
  (net/ip.hh, net/ip.cc), UDP (net/udp.hh), ICMP (net/ip.hh) and ARP for IPv4 (net/arp.hh).

  A header in host order is the record; \<open>*_bytes\<close> is the memory after \<open>hton\<close>, \<open>*_read\<close> the
  record after \<open>ntoh\<close>. Bit fields follow the x86-64 layout: the field declared first takes the
  low bits. A MAC address is the list of its six bytes. The collection \<open>hdr_codec\<close> has the
  round trips.
\<close>

named_theorems hdr_codec \<open>round trips of the header codecs\<close>

type_synonym mac = bytes

abbreviation be_bytes :: "'a::len word \<Rightarrow> bytes" where
  "be_bytes x \<equiv> produce_be x"

lemma length_be_bytes [simp]: "length (be_bytes x) = size_of x"
  by (simp add: produce_be_def size_of_def)

lemma read_be_bytes [hdr_codec]: "8 dvd LENGTH('a) \<Longrightarrow> read_be (be_bytes x @ p) = (x :: 'a::len word)"
  by (simp add: produce_be_def read_be_object)

lemma read_be_bytes_end [hdr_codec]: "8 dvd LENGTH('a) \<Longrightarrow> read_be (be_bytes x) = (x :: 'a::len word)"
  using read_be_bytes [of x "[]"] by simp

lemma be_bytes_read [hdr_codec]:
  "8 dvd LENGTH('a) \<Longrightarrow> length p = size_of (0 :: 'a::len word) \<Longrightarrow> be_bytes (read_be p :: 'a word) = p"
  using write_be_read_be [where 'a = 'a, of p]
  by (simp add: write_be_def produce_be_def size_of_cong [of "read_be p :: 'a word" 0])

section \<open>Ethernet\<close>

definition broadcast_mac :: mac where
  "broadcast_mac = [0xff, 0xff, 0xff, 0xff, 0xff, 0xff]"

record eth_hdr =
  eth_dst_mac :: mac
  eth_src_mac :: mac
  eth_proto :: u16

definition eth_hdr_bytes :: "eth_hdr \<Rightarrow> bytes" where
  "eth_hdr_bytes h = eth_dst_mac h @ eth_src_mac h @ be_bytes (eth_proto h)"

definition eth_hdr_read :: "bytes \<Rightarrow> eth_hdr" where
  "eth_hdr_read p = \<lparr>eth_dst_mac = take 6 p, eth_src_mac = take 6 (drop 6 p), eth_proto = read_be (drop 12 p)\<rparr>"

definition eth_ipv4 :: u16 where "eth_ipv4 = 0x0800"
definition eth_arp :: u16 where "eth_arp = 0x0806"

text \<open>\<open>operator<<\<close> prints two lower-case hexadecimal digits per byte, separated by colons.\<close>

definition hex_digit :: "nat \<Rightarrow> char" where
  "hex_digit n = ''0123456789abcdef'' ! n"

definition print_byte :: "byte \<Rightarrow> string" where
  "print_byte b = [hex_digit (unat b div 16), hex_digit (unat b mod 16)]"

fun print_mac :: "mac \<Rightarrow> string" where
  "print_mac [] = []"
| "print_mac [b] = print_byte b"
| "print_mac (b # bs) = print_byte b @ '':'' @ print_mac bs"

text \<open>
  \<open>boost::split\<close> at colons, and \<open>std::stoi(x, nullptr, 16)\<close>: leading white space and a sign are
  skipped, an optional \<open>0x\<close> prefix is accepted, the longest run of hexadecimal digits is read
  and the rest ignored; no digit, or a value beyond \<open>int\<close>, throws. The value is then cut to a byte.
\<close>

fun split_at_colon :: "string \<Rightarrow> string list" where
  "split_at_colon [] = [[]]"
| "split_at_colon (c # cs) = (if c = CHR '':'' then [] # split_at_colon cs
    else case split_at_colon cs of [] \<Rightarrow> [[c]] | w # ws \<Rightarrow> (c # w) # ws)"

definition hex_value :: "char \<Rightarrow> nat option" where
  "hex_value c = (let n = of_char c in
    if 48 \<le> n \<and> n \<le> 57 then Some (n - 48)
    else if 97 \<le> n \<and> n \<le> 102 then Some (n - 87)
    else if 65 \<le> n \<and> n \<le> 70 then Some (n - 55) else None)"

fun hex_run :: "nat \<Rightarrow> string \<Rightarrow> nat" where
  "hex_run acc [] = acc"
| "hex_run acc (c # cs) = (case hex_value c of None \<Rightarrow> acc | Some d \<Rightarrow> hex_run (16 * acc + d) cs)"

definition is_space :: "char \<Rightarrow> bool" where
  "is_space c \<longleftrightarrow> c = CHR '' '' \<or> (9 \<le> (of_char c :: nat) \<and> (of_char c :: nat) \<le> 13)"

definition strip_0x :: "string \<Rightarrow> string" where
  "strip_0x s = (case s of z # x # d # r \<Rightarrow>
     if z = CHR ''0'' \<and> (x = CHR ''x'' \<or> x = CHR ''X'') \<and> hex_value d \<noteq> None then d # r else s | _ \<Rightarrow> s)"

definition stoi16 :: "string \<Rightarrow> int option" where
  "stoi16 s = (let s1 = dropWhile is_space s;
      neg = (case s1 of c # _ \<Rightarrow> c = CHR ''-'' | [] \<Rightarrow> False);
      s2 = strip_0x (case s1 of c # r \<Rightarrow> if c = CHR ''-'' \<or> c = CHR ''+'' then r else s1 | [] \<Rightarrow> s1)
    in case s2 of [] \<Rightarrow> None | c # r \<Rightarrow>
      if hex_value c = None then None
      else let v = (if neg then - int (hex_run 0 s2) else int (hex_run 0 s2))
           in if - (2 ^ 31) \<le> v \<and> v < 2 ^ 31 then Some v else None)"

fun stoi_all :: "string list \<Rightarrow> bytes option" where
  "stoi_all [] = Some []"
| "stoi_all (s # ss) = (case stoi16 s of None \<Rightarrow> None | Some v \<Rightarrow> map_option ((#) (of_int v)) (stoi_all ss))"

definition parse_ethernet_address :: "string \<Rightarrow> mac option" where
  "parse_ethernet_address addr = (let v = split_at_colon addr in
    if length v \<noteq> 6 then None else stoi_all v)"

section \<open>IPv4\<close>

record ip_hdr =
  ip_ihl :: u8
  ip_ver :: u8
  ip_dscp :: u8
  ip_ecn :: u8
  ip_len :: u16
  ip_id :: u16
  ip_frag :: u16
  ip_ttl :: u8
  ip_proto :: u8
  ip_csum :: u16
  ip_src :: u32
  ip_dst :: u32

definition ip_hdr_bytes :: "ip_hdr \<Rightarrow> bytes" where
  "ip_hdr_bytes h = [take_bit 4 (ip_ihl h) OR push_bit 4 (ip_ver h), take_bit 6 (ip_dscp h) OR push_bit 6 (ip_ecn h)]
    @ be_bytes (ip_len h) @ be_bytes (ip_id h) @ be_bytes (ip_frag h) @ [ip_ttl h, ip_proto h]
    @ be_bytes (ip_csum h) @ be_bytes (ip_src h) @ be_bytes (ip_dst h)"

definition ip_hdr_read :: "bytes \<Rightarrow> ip_hdr" where
  "ip_hdr_read p = \<lparr>ip_ihl = take_bit 4 (p ! 0), ip_ver = drop_bit 4 (p ! 0),
    ip_dscp = take_bit 6 (p ! 1), ip_ecn = drop_bit 6 (p ! 1),
    ip_len = read_be (drop 2 p), ip_id = read_be (drop 4 p), ip_frag = read_be (drop 6 p),
    ip_ttl = p ! 8, ip_proto = p ! 9, ip_csum = read_be (drop 10 p),
    ip_src = read_be (drop 12 p), ip_dst = read_be (drop 16 p)\<rparr>"

definition ip_mf :: "ip_hdr \<Rightarrow> bool" where
  "ip_mf h \<longleftrightarrow> bit (ip_frag h) 13"

definition ip_df :: "ip_hdr \<Rightarrow> bool" where
  "ip_df h \<longleftrightarrow> bit (ip_frag h) 14"

definition ip_offset :: "ip_hdr \<Rightarrow> u16" where
  "ip_offset h = push_bit 3 (ip_frag h)"

text \<open>The bit fields fit their widths.\<close>

definition ip_hdr_ok :: "ip_hdr \<Rightarrow> bool" where
  "ip_hdr_ok h \<longleftrightarrow> take_bit 4 (ip_ihl h) = ip_ihl h \<and> take_bit 4 (ip_ver h) = ip_ver h
    \<and> take_bit 6 (ip_dscp h) = ip_dscp h \<and> take_bit 2 (ip_ecn h) = ip_ecn h"

section \<open>UDP and ICMP\<close>

record udp_hdr =
  udp_src_port :: u16
  udp_dst_port :: u16
  udp_len :: u16
  udp_cksum :: u16

definition udp_hdr_bytes :: "udp_hdr \<Rightarrow> bytes" where
  "udp_hdr_bytes h = be_bytes (udp_src_port h) @ be_bytes (udp_dst_port h) @ be_bytes (udp_len h) @ be_bytes (udp_cksum h)"

definition udp_hdr_read :: "bytes \<Rightarrow> udp_hdr" where
  "udp_hdr_read p = \<lparr>udp_src_port = read_be p, udp_dst_port = read_be (drop 2 p),
    udp_len = read_be (drop 4 p), udp_cksum = read_be (drop 6 p)\<rparr>"

definition icmp_echo_reply :: u8 where "icmp_echo_reply = 0"
definition icmp_echo_request :: u8 where "icmp_echo_request = 8"

section \<open>ARP\<close>

record arp_hdr =
  ah_htype :: u16
  ah_ptype :: u16
  ah_hlen :: u8
  ah_plen :: u8
  ah_oper :: u16
  ah_sender_hwaddr :: mac
  ah_sender_paddr :: u32
  ah_target_hwaddr :: mac
  ah_target_paddr :: u32

definition arp_hdr_write :: "arp_hdr \<Rightarrow> bytes" where
  "arp_hdr_write h = produce_be (ah_htype h) @ produce_be (ah_ptype h) @ produce_be (ah_hlen h)
    @ produce_be (ah_plen h) @ produce_be (ah_oper h) @ ah_sender_hwaddr h @ produce_be (ah_sender_paddr h)
    @ ah_target_hwaddr h @ produce_be (ah_target_paddr h)"

definition arp_hdr_read :: "bytes \<Rightarrow> arp_hdr" where
  "arp_hdr_read p0 = (let (htype, p1) = consume_be p0; (ptype, p2) = consume_be p1;
     (hlen, p3) = consume_be p2; (plen, p4) = consume_be p3; (oper, p5) = consume_be p4;
     (shw, p6) = (take 6 p5, drop 6 p5); (sp, p7) = consume_be p6;
     (thw, p8) = (take 6 p7, drop 6 p7); (tp, p9) = consume_be p8
   in \<lparr>ah_htype = htype, ah_ptype = ptype, ah_hlen = hlen, ah_plen = plen, ah_oper = oper,
       ah_sender_hwaddr = shw, ah_sender_paddr = sp, ah_target_hwaddr = thw, ah_target_paddr = tp\<rparr>)"

definition arp_hdr_size :: nat where
  "arp_hdr_size = 8 + 2 * (6 + 4)"

section \<open>Round trips\<close>

lemma eth_hdr_read_bytes [hdr_codec]:
  assumes "length (eth_dst_mac h) = 6" "length (eth_src_mac h) = 6"
  shows "eth_hdr_read (eth_hdr_bytes h @ p) = h"
  using assms by (simp add: eth_hdr_read_def eth_hdr_bytes_def read_be_bytes)

lemma udp_hdr_read_bytes [hdr_codec]: "udp_hdr_read (udp_hdr_bytes h @ p) = h"
  by (simp add: udp_hdr_read_def udp_hdr_bytes_def read_be_bytes)

lemma arp_hdr_read_write [hdr_codec]:
  assumes "length (ah_sender_hwaddr h) = 6" "length (ah_target_hwaddr h) = 6"
  shows "arp_hdr_read (arp_hdr_write h @ p) = h"
  using assms by (simp add: arp_hdr_read_def arp_hdr_write_def consume_be_produce_be Let_def)

lemma length_hdrs [simp]:
  "length (ip_hdr_bytes h) = 20" "length (udp_hdr_bytes u) = 8"
  by (simp_all add: ip_hdr_bytes_def udp_hdr_bytes_def)

lemma bit_fields:
  fixes a b :: u8
  assumes "n + k = 8" "take_bit k b = b"
  shows "take_bit n (take_bit n a OR push_bit n b) = take_bit n a"
    "drop_bit n (take_bit n a OR push_bit n b) = b"
proof -
  show "take_bit n (take_bit n a OR push_bit n b) = take_bit n a"
    by (rule bit_word_eqI) (auto simp: bit_simps)
  have "n + m < 8" if "bit b m" for m
    using that assms bit_take_bit_iff [of k b m] by simp
  then show "drop_bit n (take_bit n a OR push_bit n b) = b"
    using assms(1) by (intro bit_word_eqI) (auto simp: bit_simps)
qed

lemma ip_hdr_read_bytes [hdr_codec]:
  assumes "ip_hdr_ok h"
  shows "ip_hdr_read (ip_hdr_bytes h @ p) = h"
  using assms bit_fields [of 4 4 "ip_ver h" "ip_ihl h"] bit_fields [of 6 2 "ip_ecn h" "ip_dscp h"]
  by (simp add: ip_hdr_read_def ip_hdr_bytes_def ip_hdr_ok_def read_be_bytes nth_append)

text \<open>MAC addresses as text.\<close>

lemma hex_value_digit: "n < 16 \<Longrightarrow> hex_value (hex_digit n) = Some n"
proof -
  assume "n < 16"
  then have "n \<in> set [0..<16]"
    by simp
  moreover have "\<forall>n\<in>set [0..<16]. hex_value (hex_digit n) = Some n"
    by code_simp
  ultimately show ?thesis by blast
qed

lemma hex_digit_plain: "n < 16 \<Longrightarrow> hex_digit n \<noteq> CHR '':'' \<and> \<not> is_space (hex_digit n)
    \<and> hex_digit n \<noteq> CHR ''-'' \<and> hex_digit n \<noteq> CHR ''+'' \<and> hex_digit n \<noteq> CHR ''x'' \<and> hex_digit n \<noteq> CHR ''X''"
proof -
  assume "n < 16"
  then have "n \<in> set [0..<16]"
    by simp
  moreover have "\<forall>n\<in>set [0..<16]. hex_digit n \<noteq> CHR '':'' \<and> \<not> is_space (hex_digit n)
    \<and> hex_digit n \<noteq> CHR ''-'' \<and> hex_digit n \<noteq> CHR ''+'' \<and> hex_digit n \<noteq> CHR ''x'' \<and> hex_digit n \<noteq> CHR ''X''"
    by code_simp
  ultimately show ?thesis by blast
qed

lemma byte_digits: "unat (b :: byte) div 16 < 16" "unat (b :: byte) mod 16 < 16"
  using unsigned_less [where 'a = nat, of b] by simp_all

lemma stoi16_print_byte: "stoi16 (print_byte b) = Some (int (unat b))"
proof -
  let ?d = "hex_digit (unat b div 16)" and ?e = "hex_digit (unat b mod 16)"
  note d = hex_digit_plain [OF byte_digits(1) [of b]] hex_value_digit [OF byte_digits(1) [of b]]
    hex_value_digit [OF byte_digits(2) [of b]]
  have "hex_run 0 [?d, ?e] = unat b"
    by (simp add: d)
  moreover have "- 2147483648 \<le> uint b"
    by (rule order_trans [of _ 0]) simp_all
  moreover have "uint b < 2147483648"
    using uint_lt2p [of b] by simp
  ultimately show ?thesis
    using d by (simp add: stoi16_def print_byte_def strip_0x_def Let_def)
qed

lemma split_at_colon_byte:
  "split_at_colon (print_byte b) = [print_byte b]"
  "split_at_colon (print_byte b @ '':'' @ s) = print_byte b # split_at_colon s"
  using hex_digit_plain [OF byte_digits(1) [of b]] hex_digit_plain [OF byte_digits(2) [of b]]
  by (simp_all add: print_byte_def)

lemma split_print_mac: "bs \<noteq> [] \<Longrightarrow> split_at_colon (print_mac bs) = map print_byte bs"
proof (induction bs rule: print_mac.induct)
  case (3 b c cs)
  have "split_at_colon (print_byte b @ '':'' @ print_mac (c # cs)) = print_byte b # map print_byte (c # cs)"
    using 3 split_at_colon_byte(2) [of b "print_mac (c # cs)"] by simp
  then show ?case by simp
qed (simp_all add: split_at_colon_byte)

lemma stoi_all_print: "stoi_all (map print_byte bs) = Some bs"
  by (induction bs) (simp_all add: stoi16_print_byte)

lemma parse_print_mac:
  assumes "length m = 6"
  shows "parse_ethernet_address (print_mac m) = Some m"
  using assms split_print_mac [of m] by (cases m) (simp_all add: parse_ethernet_address_def stoi_all_print Let_def del: list.map)

end
