(* ===== verification/Arp.thy ===== *)
theory Arp
  imports Net_Headers Net_Packet "HOL-Library.Multiset"
begin

text \<open>
  Address resolution (net/arp.hh, net/arp.cc) for IPv4: \<open>arp_for<ipv4>\<close> with its table, the
  resolutions in progress and the packets it queues.

  \<^item> The table is a map. The resolutions in progress are an association list from addresses to
    the waiters' promises; the periodic timer of a resolution runs exactly while it is in the
    list (\<open>arp_timeout\<close> is its callback).
  \<^item> A promise is a number, \<open>arp_next\<close> counts the promises made, and \<open>arp_log\<close> records their
    resolution.
  \<^item> Replies are learned on all cores, through \<open>arp_learn\<close> or through the list of other
    instances set by the stack; \<open>arp_learns\<close> collects these messages (\<open>None\<close>: every core).
\<close>

section \<open>State and operations\<close>

datatype arp_result = Resolved mac | Arp_timeout_error

record arp_for =
  arp_l2self :: mac
  arp_l3self :: u32
  arp_table :: "u32 \<Rightarrow> mac option"
  arp_in_progress :: "(u32 \<times> nat list) list"
  arp_packetq :: "(mac \<times> bytes) list"
  arp_next :: nat
  arp_log :: "(nat \<times> arp_result) list"
  arp_others :: nat
  arp_learns :: "(nat option \<times> mac \<times> u32) list"

definition broadcast_ip :: u32 where
  "broadcast_ip = 0xffffffff"

definition max_waiters :: nat where
  "max_waiters = 512"

definition arp_init :: "mac \<Rightarrow> arp_for" where
  "arp_init l2 = \<lparr>arp_l2self = l2, arp_l3self = broadcast_ip,
    arp_table = Map.empty(broadcast_ip \<mapsto> broadcast_mac), arp_in_progress = [], arp_packetq = [],
    arp_next = 0, arp_log = [], arp_others = 0, arp_learns = []\<rparr>"

text \<open>\<open>set_self_addr\<close> with the two static entries patched in for the test bed
  (10.10.0.1 and 10.10.0.3).\<close>

definition test_bed_ip :: "u8 \<Rightarrow> u32" where
  "test_bed_ip n = 0x0a0a0000 + ucast n"

definition set_self_addr :: "u32 \<Rightarrow> arp_for \<Rightarrow> arp_for" where
  "set_self_addr addr s =
    (let t = ((arp_table s)(arp_l3self s := None))(addr \<mapsto> arp_l2self s);
         t1 = (if addr = test_bed_ip 1 then t(test_bed_ip 3 \<mapsto> [0x3c, 0xfd, 0xfe, 0x06, 0x09, 0x60]) else t);
         t2 = (if addr = test_bed_ip 3 then t1(test_bed_ip 1 \<mapsto> [0x3c, 0xfd, 0xfe, 0x06, 0x09, 0x62]) else t1)
     in s\<lparr>arp_table := t2, arp_l3self := addr\<rparr>)"

definition set_other_arp_fors :: "nat \<Rightarrow> arp_for \<Rightarrow> arp_for" where
  "set_other_arp_fors n s = s\<lparr>arp_others := n\<rparr>"

definition make_query_packet :: "u32 \<Rightarrow> arp_for \<Rightarrow> bytes" where
  "make_query_packet paddr s = arp_hdr_write \<lparr>ah_htype = 1, ah_ptype = eth_ipv4, ah_hlen = 6, ah_plen = 4,
    ah_oper = 1, ah_sender_hwaddr = arp_l2self s, ah_sender_paddr = arp_l3self s,
    ah_target_hwaddr = broadcast_mac, ah_target_paddr = paddr\<rparr>"

definition arp_send :: "mac \<Rightarrow> bytes \<Rightarrow> arp_for \<Rightarrow> arp_for" where
  "arp_send to p s = s\<lparr>arp_packetq := arp_packetq s @ [(to, p)]\<rparr>"

definition send_query :: "u32 \<Rightarrow> arp_for \<Rightarrow> arp_for" where
  "send_query paddr s = arp_send broadcast_mac (make_query_packet paddr s) s"

definition arp_get_packet :: "arp_for \<Rightarrow> (mac \<times> bytes) option \<times> arp_for" where
  "arp_get_packet s = (case arp_packetq s of [] \<Rightarrow> (None, s) | p # ps \<Rightarrow> (Some p, s\<lparr>arp_packetq := ps\<rparr>))"

datatype lookup_result = Known mac | Queue_full | Pending nat

definition add_waiter :: "u32 \<Rightarrow> nat \<Rightarrow> (u32 \<times> nat list) list \<Rightarrow> (u32 \<times> nat list) list" where
  "add_waiter paddr i = map (\<lambda>(k, ws). if k = paddr then (k, ws @ [i]) else (k, ws))"

definition arp_lookup :: "u32 \<Rightarrow> arp_for \<Rightarrow> lookup_result \<times> arp_for" where
  "arp_lookup paddr s = (case arp_table s paddr of Some l2 \<Rightarrow> (Known l2, s)
    | None \<Rightarrow>
      (let s1 = (case map_of (arp_in_progress s) paddr of Some _ \<Rightarrow> s
            | None \<Rightarrow> send_query paddr (s\<lparr>arp_in_progress := arp_in_progress s @ [(paddr, [])]\<rparr>))
       in case map_of (arp_in_progress s1) paddr of None \<Rightarrow> (Queue_full, s1)
          | Some ws \<Rightarrow>
            if max_waiters \<le> length ws then (Queue_full, s1)
            else (Pending (arp_next s1), s1\<lparr>arp_in_progress := add_waiter paddr (arp_next s1) (arp_in_progress s1),
                   arp_next := arp_next s1 + 1\<rparr>)))"

definition resolve_all :: "nat list \<Rightarrow> arp_result \<Rightarrow> (nat \<times> arp_result) list" where
  "resolve_all ws r = map (\<lambda>w. (w, r)) ws"

definition arp_timeout :: "u32 \<Rightarrow> arp_for \<Rightarrow> arp_for option" where
  "arp_timeout paddr s = (case map_of (arp_in_progress s) paddr of None \<Rightarrow> None
    | Some ws \<Rightarrow> Some ((send_query paddr s)\<lparr>arp_log := arp_log s @ resolve_all ws Arp_timeout_error,
        arp_in_progress := map (\<lambda>(k, v). if k = paddr then (k, []) else (k, v)) (arp_in_progress s)\<rparr>))"

definition arp_learn :: "mac \<Rightarrow> u32 \<Rightarrow> arp_for \<Rightarrow> arp_for" where
  "arp_learn hwaddr paddr s =
    (let s1 = s\<lparr>arp_table := (arp_table s)(paddr \<mapsto> hwaddr)\<rparr> in
     case map_of (arp_in_progress s) paddr of None \<Rightarrow> s1
     | Some ws \<Rightarrow> s1\<lparr>arp_log := arp_log s @ resolve_all ws (Resolved hwaddr),
         arp_in_progress := filter (\<lambda>kv. fst kv \<noteq> paddr) (arp_in_progress s)\<rparr>)"

definition handle_request :: "arp_hdr \<Rightarrow> arp_for \<Rightarrow> arp_for" where
  "handle_request ah s = (if ah_target_paddr ah = arp_l3self s \<and> arp_l3self s \<noteq> broadcast_ip then
      arp_send (ah_sender_hwaddr ah) (arp_hdr_write (ah\<lparr>ah_oper := 2, ah_target_hwaddr := ah_sender_hwaddr ah,
        ah_target_paddr := ah_sender_paddr ah, ah_sender_hwaddr := arp_l2self s, ah_sender_paddr := arp_l3self s\<rparr>)) s
    else s)"

text \<open>\<open>received\<close>, on the bytes of the packet; \<open>smp_count\<close> is the number of cores.\<close>

definition arp_received :: "nat \<Rightarrow> bytes \<Rightarrow> arp_for \<Rightarrow> arp_for" where
  "arp_received smp_count p s = (if length p < arp_hdr_size then s else
    (let h = arp_hdr_read p in
     if ah_hlen h \<noteq> 6 \<or> ah_plen h \<noteq> 4 then s
     else if ah_oper h = 1 then handle_request h s
     else if ah_oper h = 2 then
       (if arp_others s = 0 then s\<lparr>arp_learns := arp_learns s @ [(None, ah_sender_hwaddr h, ah_sender_paddr h)]\<rparr>
        else if arp_others s = smp_count then
          s\<lparr>arp_learns := arp_learns s @ map (\<lambda>i. (Some i, ah_sender_hwaddr h, ah_sender_paddr h)) [0..<smp_count]\<rparr>
        else s)
     else s))"

text \<open>\<open>arp::process_packet\<close>: dispatch on the protocol type; only IPv4 is registered.\<close>

definition arp_process_packet :: "nat \<Rightarrow> bytes \<Rightarrow> arp_for \<Rightarrow> arp_for" where
  "arp_process_packet smp_count p s = (if length p < 4 then s
    else if (read_be (drop 2 p) :: u16) = eth_ipv4 then arp_received smp_count p s else s)"

section \<open>Runs\<close>

datatype arp_op = Lookup u32 | Timer u32 | Learn mac u32 | Receive bytes | Set_self u32 | Get_packet

fun arp_apply :: "nat \<Rightarrow> arp_op \<Rightarrow> arp_for \<Rightarrow> arp_for" where
  "arp_apply n (Lookup a) s = snd (arp_lookup a s)"
| "arp_apply n (Timer a) s = (case arp_timeout a s of None \<Rightarrow> s | Some t \<Rightarrow> t)"
| "arp_apply n (Learn l2 a) s = arp_learn l2 a s"
| "arp_apply n (Receive p) s = arp_process_packet n p s"
| "arp_apply n (Set_self a) s = set_self_addr a s"
| "arp_apply n Get_packet s = snd (arp_get_packet s)"

definition waiting :: "arp_for \<Rightarrow> nat list" where
  "waiting s = concat (map snd (arp_in_progress s))"

text \<open>Every promise made waits or was resolved, exactly once; no resolution has too many waiters.\<close>

definition arp_inv :: "arp_for \<Rightarrow> bool" where
  "arp_inv s \<longleftrightarrow> distinct (map fst (arp_in_progress s))
    \<and> mset (map fst (arp_log s)) + mset (waiting s) = mset [0..<arp_next s]
    \<and> (\<forall>(k, ws)\<in>set (arp_in_progress s). length ws \<le> max_waiters)"

lemma map_of_split:
  assumes "distinct (map fst m)" "map_of m k = Some ws"
  obtains a b where "m = a @ (k, ws) # b" "k \<notin> fst ` set a" "k \<notin> fst ` set b"
proof -
  obtain a b where "m = a @ (k, ws) # b"
    using map_of_SomeD [OF assms(2)] by (meson split_list)
  with assms(1) that show thesis by force
qed

lemma map_other: "k \<notin> fst ` set a \<Longrightarrow> map (\<lambda>(k', v). if k' = k then (k', f v) else (k', v)) a = a"
  by (induction a) auto

lemma filter_other: "k \<notin> fst ` set a \<Longrightarrow> filter (\<lambda>kv. fst kv \<noteq> k) a = a"
  by (induction a) auto

lemma arp_inv_cong:
  "arp_inv s \<Longrightarrow> arp_in_progress t = arp_in_progress s \<Longrightarrow> arp_log t = arp_log s
    \<Longrightarrow> arp_next t = arp_next s \<Longrightarrow> arp_inv t"
  by (simp add: arp_inv_def waiting_def)

lemma arp_send_simps [simp]:
  "arp_in_progress (send_query a s) = arp_in_progress s" "arp_log (send_query a s) = arp_log s"
  "arp_next (send_query a s) = arp_next s" "arp_table (send_query a s) = arp_table s"
  "arp_packetq (send_query a s) = arp_packetq s @ [(broadcast_mac, make_query_packet a s)]"
  by (simp_all add: send_query_def arp_send_def)

lemma arp_inv_timeout: "arp_inv s \<Longrightarrow> arp_timeout a s = Some t \<Longrightarrow> arp_inv t"
proof -
  assume i: "arp_inv s" and t: "arp_timeout a s = Some t"
  obtain ws where ws: "map_of (arp_in_progress s) a = Some ws"
    using t by (auto simp: arp_timeout_def split: option.splits)
  obtain x y where m: "arp_in_progress s = x @ (a, ws) # y" "a \<notin> fst ` set x" "a \<notin> fst ` set y"
    using i ws by (auto simp: arp_inv_def intro: map_of_split)
  have "arp_in_progress t = x @ (a, []) # y" "arp_log t = arp_log s @ resolve_all ws Arp_timeout_error"
      "arp_next t = arp_next s"
    using t ws m map_other [of a x "\<lambda>_. []"] map_other [of a y "\<lambda>_. []"]
    by (auto simp: arp_timeout_def)
  with i m show ?thesis
    by (auto simp: arp_inv_def waiting_def resolve_all_def comp_def ac_simps)
qed

lemma arp_inv_learn: "arp_inv s \<Longrightarrow> arp_inv (arp_learn l2 a s)"
proof (cases "map_of (arp_in_progress s) a")
  case None
  assume "arp_inv s"
  then show ?thesis
    by (rule arp_inv_cong) (simp_all add: arp_learn_def None Let_def)
next
  case (Some ws)
  assume i: "arp_inv s"
  obtain x y where m: "arp_in_progress s = x @ (a, ws) # y" "a \<notin> fst ` set x" "a \<notin> fst ` set y"
    using i Some by (auto simp: arp_inv_def intro: map_of_split)
  have "arp_in_progress (arp_learn l2 a s) = x @ y"
      "arp_log (arp_learn l2 a s) = arp_log s @ resolve_all ws (Resolved l2)"
      "arp_next (arp_learn l2 a s) = arp_next s"
    using Some m filter_other [of a x] filter_other [of a y] by (auto simp: arp_learn_def Let_def)
  with i m show ?thesis
    by (auto simp: arp_inv_def waiting_def resolve_all_def comp_def ac_simps)
qed

lemma arp_inv_lookup: "arp_inv s \<Longrightarrow> arp_inv (snd (arp_lookup a s))"
proof (cases "arp_table s a")
  case None
  assume i: "arp_inv s"
  define s1 where "s1 = (case map_of (arp_in_progress s) a of Some _ \<Rightarrow> s
            | None \<Rightarrow> send_query a (s\<lparr>arp_in_progress := arp_in_progress s @ [(a, [])]\<rparr>))"
  have i1: "arp_inv s1"
    using i by (auto simp: s1_def arp_inv_def waiting_def map_of_eq_None_iff split: option.splits)
  have l: "arp_lookup a s = (case map_of (arp_in_progress s1) a of None \<Rightarrow> (Queue_full, s1)
          | Some ws \<Rightarrow> if max_waiters \<le> length ws then (Queue_full, s1)
            else (Pending (arp_next s1), s1\<lparr>arp_in_progress := add_waiter a (arp_next s1) (arp_in_progress s1),
                   arp_next := arp_next s1 + 1\<rparr>))"
    by (simp only: arp_lookup_def None option.case Let_def s1_def)
  show ?thesis
  proof (cases "map_of (arp_in_progress s1) a")
    case None
    with l i1 show ?thesis by simp
  next
    case (Some ws)
    obtain x y where m: "arp_in_progress s1 = x @ (a, ws) # y" "a \<notin> fst ` set x" "a \<notin> fst ` set y"
      using i1 Some by (auto simp: arp_inv_def intro: map_of_split)
    have "add_waiter a i (arp_in_progress s1) = x @ (a, ws @ [i]) # y" for i
      using m map_other [of a x "\<lambda>v. v @ [i]"] map_other [of a y "\<lambda>v. v @ [i]"] by (simp add: add_waiter_def)
    with l i1 m Some show ?thesis
      by (auto simp: arp_inv_def waiting_def atLeast0_lessThan_Suc)
  qed
qed (simp add: arp_lookup_def)

lemma arp_inv_apply: "arp_inv s \<Longrightarrow> arp_inv (arp_apply n p s)"
proof (cases p)
  case (Receive d)
  assume "arp_inv s"
  then show ?thesis
    by (rule arp_inv_cong)
      (simp_all add: Receive arp_process_packet_def arp_received_def handle_request_def arp_send_def Let_def)
next
  case (Set_self a)
  assume "arp_inv s"
  then show ?thesis
    by (rule arp_inv_cong) (simp_all add: Set_self set_self_addr_def Let_def)
next
  case Get_packet
  assume "arp_inv s"
  then show ?thesis
    by (rule arp_inv_cong) (simp_all add: Get_packet arp_get_packet_def split: list.splits)
qed (auto simp: arp_inv_lookup arp_inv_learn split: option.splits dest: arp_inv_timeout)

lemma arp_inv_run: "arp_inv (fold (arp_apply n) ps (arp_init l2))"
proof -
  have "arp_inv (arp_init l2)"
    by (simp add: arp_inv_def arp_init_def waiting_def)
  then show ?thesis
    by (induction ps arbitrary: l2 rule: rev_induct) (auto intro: arp_inv_apply)
qed

lemma arp_learn_resolves:
  assumes "map_of (arp_in_progress s) a = Some ws" "w \<in> set ws"
  shows "(w, Resolved l2) \<in> set (arp_log (arp_learn l2 a s))
    \<and> map_of (arp_in_progress (arp_learn l2 a s)) a = None \<and> fst (arp_lookup a (arp_learn l2 a s)) = Known l2"
  using assms
  by (simp add: arp_learn_def Let_def resolve_all_def arp_lookup_def map_of_filter_neq)

section \<open>Properties\<close>

text \<open>
  C25. Address resolution loses no waiter: after any sequence of lookups, timer expiries, learned
  addresses, received packets, address changes and transmissions, every promise handed out was
  resolved exactly once or is still waiting; no resolution has more than 512 waiters; and when
  the address of a resolution is learned, each of its waiters is given exactly that hardware
  address, the resolution ends, and further lookups are answered at once.
\<close>

theorem arp_waiters_resolved_once:
  assumes "s = fold (arp_apply n) ps (arp_init l2)"
    and "map_of (arp_in_progress s) a = Some ws" "w \<in> set ws"
  shows "mset (map fst (arp_log s)) + mset (waiting s) = mset [0..<arp_next s]
    \<and> length ws \<le> max_waiters
    \<and> (w, Resolved hw) \<in> set (arp_log (arp_learn hw a s))
    \<and> map_of (arp_in_progress (arp_learn hw a s)) a = None
    \<and> fst (arp_lookup a (arp_learn hw a s)) = Known hw"
proof -
  have "arp_inv s"
    unfolding assms(1) by (rule arp_inv_run)
  then show ?thesis
    using arp_learn_resolves [OF assms(2,3), of hw] map_of_SomeD [OF assms(2)] by (auto simp: arp_inv_def)
qed

theorem arp_waiters_resolved_once_witness:
  "\<exists>s. s = fold (arp_apply 1) [Lookup 9, Lookup 9, Timer 9, Lookup 9] (arp_init [1,2,3,4,5,6])
    \<and> (2, Resolved [7,7,7,7,7,7]) \<in> set (arp_log (arp_learn [7,7,7,7,7,7] 9 s))"
proof -
  define s where "s = fold (arp_apply 1) [Lookup 9, Lookup 9, Timer 9, Lookup 9] (arp_init [1,2,3,4,5,6])"
  have "map_of (arp_in_progress s) 9 = Some [2]"
    by (simp add: s_def arp_lookup_def arp_init_def arp_timeout_def add_waiter_def max_waiters_def
        broadcast_ip_def Let_def)
  from arp_waiters_resolved_once [OF s_def this, of 2 "[7,7,7,7,7,7]"] s_def show ?thesis by auto
qed

text \<open>
  The broadcast address is forgotten: a new instance answers a lookup of the broadcast address
  from its table. Setting the host address erases the entry of the previous own address, which
  at first is the broadcast address; from then on a lookup of the broadcast address sends an ARP
  query and waits.
\<close>

theorem arp_self_address_forgets_broadcast:
  assumes "a \<noteq> broadcast_ip"
  shows "fst (arp_lookup broadcast_ip (arp_init l2)) = Known broadcast_mac
    \<and> fst (arp_lookup broadcast_ip (set_self_addr a (arp_init l2))) = Pending 0"
proof -
  have "test_bed_ip 1 \<noteq> broadcast_ip" "test_bed_ip 3 \<noteq> broadcast_ip"
    by (simp_all add: test_bed_ip_def broadcast_ip_def)
  with assms show ?thesis
    by (simp add: arp_lookup_def arp_init_def set_self_addr_def Let_def max_waiters_def)
qed

theorem arp_self_address_forgets_broadcast_witness:
  "fst (arp_lookup broadcast_ip (set_self_addr 0x0a000001 (arp_init [1,2,3,4,5,6]))) = Pending 0"
  using arp_self_address_forgets_broadcast [of "0x0a000001" "[1,2,3,4,5,6]"] by (simp add: broadcast_ip_def)

end
