(* ===== verification/Ip_Checksum.thy ===== *)
theory Ip_Checksum
  imports Byte_Order Net_Packet
begin

text \<open>
  The Internet checksum (net/ip_checksum.hh, net/ip_checksum.cc): \<open>checksummer\<close> accumulates
  data in 8-byte, 2-byte and single-byte steps into a 128-bit integer and folds it at the end.
  The accumulator is a natural number: it only grows, and stays far below \<open>2^127\<close> for the data
  a machine can hold (the lemmas carry the bound). The state \<open>odd\<close> remembers a dangling byte.

  The reference is the one's complement sum of 16-bit words (RFC 1071), \<open>rfc1071_sum\<close>. The
  lemmas relate both through \<open>oc_eq\<close>: equality modulo 65535 that keeps zero apart.
\<close>

section \<open>The checksummer\<close>

record checksummer =
  cs_csum :: nat
  cs_odd :: bool

definition cs_init :: checksummer where
  "cs_init = \<lparr>cs_csum = 0, cs_odd = False\<rparr>"

fun sum_quads :: "nat \<Rightarrow> bytes \<Rightarrow> nat \<times> bytes" where
  "sum_quads csum data = (if 8 \<le> length data
    then sum_quads (csum + unat (ntohq (object_value (take 8 data)))) (drop 8 data) else (csum, data))"

fun sum_pairs :: "nat \<Rightarrow> bytes \<Rightarrow> nat \<times> bytes" where
  "sum_pairs csum data = (if 2 \<le> length data
    then sum_pairs (csum + unat (ntoh (object_value (take 2 data) :: u16))) (drop 2 data) else (csum, data))"

declare sum_quads.simps [simp del] sum_pairs.simps [simp del]

text \<open>
  \<open>sum(data, len)\<close>. With a dangling byte and no data it reads past the end and its length
  wraps around, which is undefined.
\<close>

definition cs_sum :: "bytes \<Rightarrow> checksummer \<Rightarrow> checksummer option" where
  "cs_sum data c = (if cs_odd c \<and> data = [] then None else
    let (c0, d0) = (if cs_odd c then (cs_csum c + unat (hd data), tl data) else (cs_csum c, data));
        (c1, d1) = sum_quads c0 d0;
        (c2, d2) = sum_pairs c1 d1;
        c3 = (if d2 \<noteq> [] then c2 + unat (hd d2) * 256 else c2)
    in Some \<lparr>cs_csum = c3, cs_odd = (cs_odd c \<noteq> odd (length data))\<rparr>)"

definition cs_sum8 :: "u8 \<Rightarrow> checksummer \<Rightarrow> checksummer" where
  "cs_sum8 data c = \<lparr>cs_csum = cs_csum c + (if cs_odd c then unat data else unat data * 256),
    cs_odd = (\<not> cs_odd c)\<rparr>"

definition cs_sum16 :: "u16 \<Rightarrow> checksummer \<Rightarrow> checksummer" where
  "cs_sum16 data c = (if cs_odd c then cs_sum8 (ucast data) (cs_sum8 (ucast (drop_bit 8 data)) c)
    else c\<lparr>cs_csum := cs_csum c + unat data\<rparr>)"

definition cs_sum32 :: "u32 \<Rightarrow> checksummer \<Rightarrow> checksummer" where
  "cs_sum32 data c = (if cs_odd c then cs_sum16 (ucast (drop_bit 16 data)) (cs_sum16 (ucast data) c)
    else c\<lparr>cs_csum := cs_csum c + unat data\<rparr>)"

fun cs_sum_frags :: "bytes list \<Rightarrow> checksummer \<Rightarrow> checksummer option" where
  "cs_sum_frags [] c = Some c"
| "cs_sum_frags (f # fs) c = Option.bind (cs_sum f c) (cs_sum_frags fs)"

definition cs_sum_packet :: "pkt \<Rightarrow> checksummer \<Rightarrow> checksummer option" where
  "cs_sum_packet p c = cs_sum_frags (map fr_data (pk_frags p)) c"

definition fold64 :: "nat \<Rightarrow> nat" where
  "fold64 n = n mod 2 ^ 64 + n div 2 ^ 64"

definition fold16 :: "nat \<Rightarrow> nat" where
  "fold16 n = n mod 2 ^ 16 + n div 2 ^ 16"

definition cs_get :: "checksummer \<Rightarrow> u16" where
  "cs_get c = (let csum1 = fold64 (cs_csum c);
     s = fold64 csum1 mod 2 ^ 64;
     s2 = s mod 2 ^ 16 + s div 2 ^ 16 mod 2 ^ 16 + s div 2 ^ 32 mod 2 ^ 16 + s div 2 ^ 48;
     s4 = fold16 (fold16 s2)
   in hton (NOT (of_nat s4 :: u16)))"

definition ip_checksum :: "bytes \<Rightarrow> u16 option" where
  "ip_checksum data = map_option cs_get (cs_sum data cs_init)"

section \<open>One's complement arithmetic\<close>

definition oc_eq :: "nat \<Rightarrow> nat \<Rightarrow> bool" where
  "oc_eq m n \<longleftrightarrow> m mod 65535 = n mod 65535 \<and> (m = 0 \<longleftrightarrow> n = 0)"

definition oc_norm :: "nat \<Rightarrow> nat" where
  "oc_norm n = (if n = 0 then 0 else if n mod 65535 = 0 then 65535 else n mod 65535)"

lemma oc_eq_refl [simp]: "oc_eq n n"
  by (simp add: oc_eq_def)

lemma oc_eq_trans [trans]: "oc_eq a b \<Longrightarrow> oc_eq b c \<Longrightarrow> oc_eq a c"
  by (simp add: oc_eq_def)

lemma oc_eq_sym: "oc_eq a b \<Longrightarrow> oc_eq b a"
  by (simp add: oc_eq_def)

lemma oc_eq_add: "oc_eq a b \<Longrightarrow> oc_eq c d \<Longrightarrow> oc_eq (a + c) (b + d)"
  unfolding oc_eq_def by (metis add_eq_0_iff_both_eq_0 mod_add_cong)

lemma oc_eq_norm: "oc_eq m n \<Longrightarrow> oc_norm m = oc_norm n"
  by (simp add: oc_eq_def oc_norm_def)

lemma oc_norm_small: "n \<le> 65535 \<Longrightarrow> oc_norm n = n"
  by (cases "n = 65535") (simp_all add: oc_norm_def)

lemma oc_norm_eq: "oc_eq m n \<Longrightarrow> n \<le> 65535 \<Longrightarrow> n = oc_norm m"
  using oc_eq_norm oc_norm_small by metis

lemma oc_eq_fold:
  assumes "b mod 65535 = 1"
  shows "oc_eq (n mod b + n div b) n"
proof -
  have "0 < b"
    using assms by (cases b) auto
  have "n mod 65535 = (b * (n div b) + n mod b) mod 65535"
    by simp
  also have "\<dots> = (b mod 65535 * (n div b) + n mod b) mod 65535"
    by (metis mod_add_left_eq mod_mult_left_eq)
  also have "\<dots> = (n mod b + n div b) mod 65535"
    by (simp add: assms add.commute)
  finally show ?thesis
    using \<open>0 < b\<close> by (auto simp: oc_eq_def)
qed

lemma oc_eq_folds: "oc_eq (fold64 n) n" "oc_eq (fold16 n) n"
  using oc_eq_fold [of "2 ^ 64" n] oc_eq_fold [of "2 ^ 16" n] by (simp_all add: fold64_def fold16_def)

text \<open>Four 16-bit digits at once.\<close>

definition fold_quad :: "nat \<Rightarrow> nat" where
  "fold_quad s = s mod 2 ^ 16 + s div 2 ^ 16 mod 2 ^ 16 + s div 2 ^ 32 mod 2 ^ 16 + s div 2 ^ 48"

lemma oc_eq_fold_quad: "oc_eq (fold_quad s) s"
proof -
  define r where "r = s div 2 ^ 16"
  define t where "t = r div 2 ^ 16"
  have "s div 2 ^ 32 = t" "s div 2 ^ 48 = t div 2 ^ 16"
    by (simp_all add: r_def t_def div_mult2_eq flip: div_mult2_eq)
  then have "fold_quad s = s mod 2 ^ 16 + (r mod 2 ^ 16 + (t mod 2 ^ 16 + t div 2 ^ 16))"
    by (simp add: fold_quad_def r_def)
  also have "oc_eq \<dots> (s mod 2 ^ 16 + (r mod 2 ^ 16 + t))"
    by (intro oc_eq_add oc_eq_refl oc_eq_fold) simp
  also have "oc_eq \<dots> (s mod 2 ^ 16 + r)"
    unfolding t_def by (intro oc_eq_add oc_eq_refl oc_eq_fold) simp
  also have "oc_eq \<dots> s"
    unfolding r_def by (intro oc_eq_fold) simp
  finally show ?thesis .
qed

lemma fold64_bound: "n < 2 ^ 96 \<Longrightarrow> fold64 (fold64 n) < 2 ^ 64"
proof -
  assume n: "n < 2 ^ 96"
  let ?m = "fold64 n"
  have "n div 2 ^ 64 < 2 ^ 32"
    using n by (simp add: less_mult_imp_div_less)
  moreover have "n mod 2 ^ 64 < 2 ^ 64"
    by simp
  ultimately have m: "?m < 2 ^ 64 + 2 ^ 32"
    unfolding fold64_def by linarith
  show ?thesis
  proof (cases "?m < 2 ^ 64")
    case True
    then show ?thesis by (simp add: fold64_def [of ?m])
  next
    case False
    then have "?m div 2 ^ 64 = 1" "?m mod 2 ^ 64 = ?m - 2 ^ 64"
      using m by (simp_all add: div_nat_eqI mod_if)
    then show ?thesis
      using m by (simp add: fold64_def [of ?m])
  qed
qed

lemma fold_quad_bound: "s < 2 ^ 64 \<Longrightarrow> fold_quad s \<le> 4 * 65535"
proof -
  assume "s < 2 ^ 64"
  then have "s div 2 ^ 48 < 2 ^ 16"
    by (simp add: less_mult_imp_div_less)
  moreover have "s mod 2 ^ 16 < 2 ^ 16" "s div 2 ^ 16 mod 2 ^ 16 < 2 ^ 16" "s div 2 ^ 32 mod 2 ^ 16 < 2 ^ 16"
    by simp_all
  ultimately show ?thesis
    unfolding fold_quad_def by simp
qed

lemma fold16_bound:
  assumes "n \<le> 4 * 65535"
  shows "fold16 (fold16 n) \<le> 65535"
proof -
  define q r where "q = n div 2 ^ 16" and "r = n mod 2 ^ 16"
  have n: "n = 65536 * q + r" "r < 65536"
    by (simp_all add: q_def r_def)
  have m: "fold16 n = r + q"
    by (simp add: fold16_def q_def r_def)
  have le: "fold16 n \<le> 65537"
    using assms n m by linarith
  show ?thesis
  proof (cases "fold16 n < 65536")
    case True
    then show ?thesis by (simp add: fold16_def [of "fold16 n"])
  next
    case False
    then have "fold16 n = 65536 \<or> fold16 n = 65537"
      using le by linarith
    then show ?thesis
      by (auto simp: fold16_def [of "fold16 n"])
  qed
qed

lemma cs_get_norm:
  assumes "cs_csum c < 2 ^ 96"
  shows "cs_get c = hton (of_nat (65535 - oc_norm (cs_csum c)))"
proof -
  define s where "s = fold64 (fold64 (cs_csum c))"
  have s: "s < 2 ^ 64" "oc_eq s (cs_csum c)"
    unfolding s_def by (rule fold64_bound [OF assms]) (rule oc_eq_trans [OF oc_eq_folds(1) oc_eq_folds(1)])
  define v where "v = fold16 (fold16 (fold_quad s))"
  have v: "v \<le> 65535"
    unfolding v_def by (rule fold16_bound [OF fold_quad_bound [OF s(1)]])
  have "oc_eq v s"
    unfolding v_def
    by (rule oc_eq_trans [OF oc_eq_trans [OF oc_eq_folds(2) oc_eq_folds(2)] oc_eq_fold_quad])
  then have v': "oc_eq v (cs_csum c)"
    using s(2) by (rule oc_eq_trans)
  have "NOT (of_nat v :: u16) = of_nat (65535 - v)"
  proof -
    have "(of_nat 65535 :: u16) = - 1"
      by simp
    then show ?thesis
      unfolding of_nat_diff [OF v] by (simp only: not_eq_complement) simp
  qed
  moreover have "v = oc_norm (cs_csum c)"
    using oc_norm_eq [OF oc_eq_sym [OF v'] v] .
  moreover have "cs_get c = hton (NOT (of_nat v :: u16))"
    using s(1) by (simp add: cs_get_def Let_def v_def fold_quad_def s_def)
  ultimately show ?thesis by simp
qed

section \<open>The bytes that were summed\<close>

text \<open>The sum of the 16-bit words of a byte string that starts at an odd or even position.\<close>

fun word_sum :: "bool \<Rightarrow> bytes \<Rightarrow> nat" where
  "word_sum ph [] = 0"
| "word_sum ph (b # bs) = (if ph then unat b else 256 * unat b) + word_sum (\<not> ph) bs"

lemma word_sum_append:
  "word_sum ph (xs @ ys) = word_sum ph xs + word_sum (ph \<noteq> odd (length xs)) ys"
proof (induction xs arbitrary: ph)
  case (Cons x xs)
  show ?case
    using Cons [of "\<not> ph"] by (cases ph; cases "even (length xs)") simp_all
qed simp

lemma word_sum_zero: "word_sum ph bs = 0 \<longleftrightarrow> (\<forall>b\<in>set bs. b = 0)"
  by (induction bs arbitrary: ph) (auto simp: unat_eq_0)

lemma be_nat_zero: "be_nat bs = 0 \<longleftrightarrow> (\<forall>b\<in>set bs. b = 0)"
  by (induction bs) (auto simp: unat_eq_0)

lemma be_nat_word_sum: "even (length bs) \<Longrightarrow> oc_eq (be_nat bs) (word_sum False bs)"
proof (induction bs rule: induct_list012)
  case (3 a b bs)
  let ?w = "unat a * 256 + unat b" and ?k = "256 ^ length bs :: nat"
  obtain k where k: "length bs = 2 * k"
    using 3 by auto
  have "?k mod 65535 = 1"
  proof -
    have "?k = 65536 ^ k"
      by (simp add: k power_mult)
    also have "\<dots> mod 65535 = (65536 mod 65535) ^ k mod 65535"
      by (simp only: power_mod)
    finally show ?thesis by simp
  qed
  then have "(?w * ?k) mod 65535 = ?w mod 65535"
    by (metis mod_mult_right_eq mult.right_neutral)
  then have "oc_eq (?w * ?k) ?w"
    by (simp add: oc_eq_def)
  then have "oc_eq (?w * ?k + be_nat bs) (?w + word_sum False bs)"
    using "3.IH"(1) 3 by (intro oc_eq_add) auto
  moreover have "be_nat (a # b # bs) = ?w * ?k + be_nat bs"
    by (simp add: algebra_simps)
  ultimately show ?case
    by (simp add: algebra_simps)
qed (simp_all add: oc_eq_def)

lemma read_quad: "8 \<le> length d \<Longrightarrow> unat (ntohq (object_value (take 8 d))) = be_nat (take 8 d)"
  using read_be_eq [where 'a = 64, of d] by (simp add: read_be_def be_to_cpu_def ntohq_def)

lemma read_pair: "2 \<le> length d \<Longrightarrow> unat (ntoh (object_value (take 2 d)) :: u16) = be_nat (take 2 d)"
  using read_be_eq [where 'a = 16, of d] by (simp add: read_be_def be_to_cpu_def ntoh_def)

definition summed :: "nat \<Rightarrow> bytes \<Rightarrow> nat \<Rightarrow> bytes \<Rightarrow> bool" where
  "summed c d c' d' \<longleftrightarrow> (\<exists>pre. d = pre @ d' \<and> even (length pre)
    \<and> oc_eq c' (c + word_sum False pre) \<and> c' \<le> c + 2 ^ 64 * length pre)"

lemma summed_refl: "summed c d c d"
  by (auto simp: summed_def intro!: exI [of _ "[]"])

lemma summed_chunk:
  assumes "summed (c + be_nat (take n d)) (drop n d) c' d'" "even n" "0 < n" "n \<le> 8" "n \<le> length d"
  shows "summed c d c' d'"
proof -
  let ?v = "be_nat (take n d)"
  obtain pre where pre: "drop n d = pre @ d'" "even (length pre)"
      "oc_eq c' (c + ?v + word_sum False pre)" "c' \<le> c + ?v + 2 ^ 64 * length pre"
    using assms(1) by (auto simp: summed_def)
  have "?v < 256 ^ n"
    using be_nat_bound [of "take n d"] assms(5) by simp
  also have "(256 :: nat) ^ n \<le> 256 ^ 8"
    using assms(4) by (rule power_increasing) simp
  finally have b: "?v \<le> 2 ^ 64 * n"
    using assms(3) by (simp add: less_imp_le trans_le_add1 order.trans)
  have "oc_eq (c + ?v + word_sum False pre) (c + word_sum False (take n d) + word_sum False pre)"
    using assms(2,5) by (intro oc_eq_add oc_eq_refl be_nat_word_sum) simp
  then have "oc_eq c' (c + word_sum False (take n d @ pre))"
    using oc_eq_trans [OF pre(3)] assms(2,5) by (simp add: word_sum_append add.assoc)
  moreover have "d = (take n d @ pre) @ d'"
    using pre(1) by (metis append_assoc append_take_drop_id)
  moreover have "c' \<le> c + 2 ^ 64 * length (take n d @ pre)"
    using pre(4) b assms(5) by (simp add: algebra_simps)
  ultimately show ?thesis
    using pre(2) assms(2,5) unfolding summed_def by (intro exI [of _ "take n d @ pre"]) simp
qed

lemma sum_quads_spec: "sum_quads c d = (c', d') \<Longrightarrow> summed c d c' d' \<and> length d' < 8"
proof (induction c d rule: sum_quads.induct)
  case (1 c d)
  show ?case
  proof (cases "8 \<le> length d")
    case True
    then show ?thesis
      using 1 summed_chunk [of c 8 d c' d'] by (simp add: read_quad sum_quads.simps [of c d])
  qed (use 1(2) in \<open>auto simp: sum_quads.simps [of c d] summed_refl\<close>)
qed

lemma sum_pairs_spec: "sum_pairs c d = (c', d') \<Longrightarrow> summed c d c' d' \<and> length d' < 2"
proof (induction c d rule: sum_pairs.induct)
  case (1 c d)
  show ?case
  proof (cases "2 \<le> length d")
    case True
    then show ?thesis
      using 1 summed_chunk [of c 2 d c' d'] by (simp add: read_pair sum_pairs.simps [of c d])
  qed (use 1(2) in \<open>auto simp: sum_pairs.simps [of c d] summed_refl\<close>)
qed

lemma summed_trans: "summed c d c1 d1 \<Longrightarrow> summed c1 d1 c2 d2 \<Longrightarrow> summed c d c2 d2"
proof -
  assume "summed c d c1 d1" "summed c1 d1 c2 d2"
  then obtain p q where p: "d = p @ d1" "even (length p)" "oc_eq c1 (c + word_sum False p)"
      "c1 \<le> c + 2 ^ 64 * length p"
    and q: "d1 = q @ d2" "even (length q)" "oc_eq c2 (c1 + word_sum False q)" "c2 \<le> c1 + 2 ^ 64 * length q"
    by (auto simp: summed_def)
  have "oc_eq c2 (c + word_sum False (p @ q))"
    using oc_eq_trans [OF q(3) oc_eq_add [OF p(3) oc_eq_refl]] p(2) by (simp add: word_sum_append add.assoc)
  moreover have "c2 \<le> c + 2 ^ 64 * length (p @ q)"
    using p(4) q(4) by (simp add: algebra_simps)
  ultimately show ?thesis
    using p q unfolding summed_def by (intro exI [of _ "p @ q"]) simp
qed

text \<open>The even-aligned part of \<open>sum\<close>, and \<open>sum\<close> as a whole.\<close>

lemma sum_aligned:
  assumes "sum_quads c d = (c1, d1)" "sum_pairs c1 d1 = (c2, d2)"
    and "c3 = (if d2 \<noteq> [] then c2 + unat (hd d2) * 256 else c2)"
  shows "oc_eq c3 (c + word_sum False d) \<and> c3 \<le> c + 2 ^ 64 * length d"
proof -
  obtain p where p: "d = p @ d2" "even (length p)" "oc_eq c2 (c + word_sum False p)" "c2 \<le> c + 2 ^ 64 * length p"
    and l: "length d2 < 2"
    using summed_trans [of c d c1 d1 c2 d2] sum_quads_spec [OF assms(1)] sum_pairs_spec [OF assms(2)]
    unfolding summed_def by blast
  show ?thesis
  proof (cases d2)
    case Nil
    with p assms(3) show ?thesis by simp
  next
    case (Cons b bs)
    have "unat b * 256 \<le> 2 ^ 64"
      using unsigned_less [where 'a = nat, of b] by simp
    with Cons p l assms(3) oc_eq_add [OF p(3) oc_eq_refl [of "unat b * 256"]] show ?thesis
      by (simp add: word_sum_append algebra_simps)
  qed
qed

lemma cs_sum_spec:
  assumes "cs_odd c \<longrightarrow> d \<noteq> []"
  shows "\<exists>c'. cs_sum d c = Some c' \<and> oc_eq (cs_csum c') (cs_csum c + word_sum (cs_odd c) d)
    \<and> cs_csum c' \<le> cs_csum c + 2 ^ 64 * length d \<and> cs_odd c' = (cs_odd c \<noteq> odd (length d))"
proof -
  define c0 d0 where "c0 = (if cs_odd c then cs_csum c + unat (hd d) else cs_csum c)"
    and "d0 = (if cs_odd c then tl d else d)"
  obtain c1 d1 c2 d2 where q: "sum_quads c0 d0 = (c1, d1)" "sum_pairs c1 d1 = (c2, d2)"
    by fastforce
  let ?c = "if d2 \<noteq> [] then c2 + unat (hd d2) * 256 else c2"
  have s: "cs_sum d c = Some \<lparr>cs_csum = ?c, cs_odd = (cs_odd c \<noteq> odd (length d))\<rparr>"
    using assms q by (simp add: cs_sum_def c0_def d0_def Let_def split: if_splits)
  have a: "oc_eq ?c (c0 + word_sum False d0)" "?c \<le> c0 + 2 ^ 64 * length d0"
    using sum_aligned [OF q refl] by simp_all
  have "c0 + word_sum False d0 = cs_csum c + word_sum (cs_odd c) d"
    using assms by (cases d) (auto simp: c0_def d0_def)
  moreover have "c0 + 2 ^ 64 * length d0 \<le> cs_csum c + 2 ^ 64 * length d"
  proof (cases d)
    case (Cons b bs)
    have "unat b \<le> 2 ^ 64"
      using unsigned_less [where 'a = nat, of b] by simp
    then show ?thesis
      using Cons by (simp add: c0_def d0_def)
  qed (use assms in \<open>simp add: c0_def d0_def\<close>)
  ultimately have "oc_eq ?c (cs_csum c + word_sum (cs_odd c) d)" "?c \<le> cs_csum c + 2 ^ 64 * length d"
    using a by simp_all
  with s show ?thesis by simp
qed

text \<open>Fragments can be summed one after the other unless an empty one follows a dangling byte.\<close>

fun summable :: "bool \<Rightarrow> bytes list \<Rightarrow> bool" where
  "summable ph [] = True"
| "summable ph (f # fs) = ((ph \<longrightarrow> f \<noteq> []) \<and> summable (ph \<noteq> odd (length f)) fs)"

lemma nonempty_summable: "\<forall>f\<in>set fs. f \<noteq> [] \<Longrightarrow> summable ph fs"
  by (induction fs arbitrary: ph) auto

lemma cs_sum_frags_spec:
  assumes "summable (cs_odd c) fs"
  shows "\<exists>c'. cs_sum_frags fs c = Some c' \<and> oc_eq (cs_csum c') (cs_csum c + word_sum (cs_odd c) (concat fs))
    \<and> cs_csum c' \<le> cs_csum c + 2 ^ 64 * length (concat fs)"
  using assms
proof (induction fs arbitrary: c)
  case (Cons f fs)
  obtain c1 where c1: "cs_sum f c = Some c1" "oc_eq (cs_csum c1) (cs_csum c + word_sum (cs_odd c) f)"
      "cs_csum c1 \<le> cs_csum c + 2 ^ 64 * length f" "cs_odd c1 = (cs_odd c \<noteq> odd (length f))"
    using cs_sum_spec [of c f] Cons.prems by auto
  obtain c2 where c2: "cs_sum_frags fs c1 = Some c2"
      "oc_eq (cs_csum c2) (cs_csum c1 + word_sum (cs_odd c1) (concat fs))"
      "cs_csum c2 \<le> cs_csum c1 + 2 ^ 64 * length (concat fs)"
    using Cons.IH [of c1] Cons.prems c1(4) by auto
  have "oc_eq (cs_csum c2) (cs_csum c + word_sum (cs_odd c) (f @ concat fs))"
    using oc_eq_trans [OF c2(2) oc_eq_add [OF c1(2) oc_eq_refl]] c1(4)
    by (simp add: word_sum_append add.assoc)
  moreover have "cs_csum c2 \<le> cs_csum c + 2 ^ 64 * length (f @ concat fs)"
    using c1(3) c2(3) by (simp add: algebra_simps)
  ultimately show ?case
    using c1(1) c2(1) by simp
qed simp

section \<open>RFC 1071\<close>

fun words16 :: "bytes \<Rightarrow> nat list" where
  "words16 [] = []"
| "words16 [b] = [256 * unat b]"
| "words16 (a # b # bs) = (256 * unat a + unat b) # words16 bs"

definition end_around_add :: "nat \<Rightarrow> nat \<Rightarrow> nat" where
  "end_around_add a b = (if a + b > 65535 then a + b - 65535 else a + b)"

definition rfc1071_sum :: "bytes \<Rightarrow> nat" where
  "rfc1071_sum bs = foldl end_around_add 0 (words16 bs)"

definition rfc1071_checksum :: "bytes \<Rightarrow> nat" where
  "rfc1071_checksum bs = 65535 - rfc1071_sum bs"

lemma sum_words16: "sum_list (words16 bs) = word_sum False bs"
  by (induction bs rule: words16.induct) auto

lemma words16_bound: "w \<in> set (words16 bs) \<Longrightarrow> w \<le> 65535"
proof (induction bs rule: words16.induct)
  case (2 b)
  then show ?case using unsigned_less [where 'a = nat, of b] by simp
next
  case (3 a b bs)
  then show ?case using unsigned_less [where 'a = nat, of b] unsigned_less [where 'a = nat, of a] by auto
qed simp

lemma end_around_add_norm:
  assumes "a \<le> 65535" "b \<le> 65535"
  shows "end_around_add a b \<le> 65535 \<and> oc_eq (end_around_add a b) (a + b)"
proof (cases "a + b > 65535")
  case True
  then have "a + b = (a + b - 65535) + 65535"
    by simp
  then have "(a + b) mod 65535 = (a + b - 65535) mod 65535"
    by (metis mod_add_self2)
  with True assms show ?thesis
    by (auto simp: end_around_add_def oc_eq_def)
qed (simp add: end_around_add_def)

lemma foldl_end_around:
  assumes "\<forall>w\<in>set ws. w \<le> 65535" "a \<le> 65535"
  shows "foldl end_around_add a ws \<le> 65535 \<and> oc_eq (foldl end_around_add a ws) (a + sum_list ws)"
  using assms
proof (induction ws arbitrary: a)
  case (Cons w ws)
  let ?b = "end_around_add a w"
  have b: "?b \<le> 65535" "oc_eq ?b (a + w)"
    using end_around_add_norm [of a w] Cons.prems by auto
  then have "foldl end_around_add ?b ws \<le> 65535" "oc_eq (foldl end_around_add ?b ws) (?b + sum_list ws)"
    using Cons.IH [of ?b] Cons.prems by auto
  with oc_eq_trans [OF this(2) oc_eq_add [OF b(2) oc_eq_refl]] show ?case
    by (simp add: add.assoc)
qed simp

lemma rfc1071_norm: "rfc1071_sum bs = oc_norm (word_sum False bs)"
  using foldl_end_around [of "words16 bs" 0] words16_bound
  by (auto simp: rfc1071_sum_def sum_words16 intro!: oc_norm_eq oc_eq_sym)

lemma cs_get_of_frags:
  assumes "\<forall>f\<in>set fs. f \<noteq> []" "length (concat fs) < 2 ^ 32"
  shows "\<exists>c. cs_sum_frags fs cs_init = Some c \<and> cs_get c = hton (of_nat (rfc1071_checksum (concat fs)))"
proof -
  obtain c where c: "cs_sum_frags fs cs_init = Some c" "oc_eq (cs_csum c) (word_sum False (concat fs))"
      "cs_csum c \<le> 2 ^ 64 * length (concat fs)"
    using cs_sum_frags_spec [of cs_init fs] nonempty_summable [OF assms(1)] by (auto simp: cs_init_def)
  have "cs_csum c < 2 ^ 96"
    using c(3) assms(2) by simp
  then show ?thesis
    using c(1) by (simp add: cs_get_norm oc_eq_norm [OF c(2)] rfc1071_checksum_def rfc1071_norm)
qed

lemma ip_checksum_eq:
  assumes "length d < 2 ^ 32"
  shows "ip_checksum d = Some (hton (of_nat (rfc1071_checksum d)))"
proof (cases d)
  case Nil
  then show ?thesis
    by (simp add: ip_checksum_def cs_sum_def cs_init_def cs_get_norm sum_quads.simps [of 0 "[]"] sum_pairs.simps [of 0 "[]"]
        rfc1071_checksum_def rfc1071_sum_def oc_norm_def)
next
  case Cons
  then show ?thesis
    using cs_get_of_frags [of "[d]"] assms by (auto simp: ip_checksum_def bind_eq_Some_conv)
qed

section \<open>Properties\<close>

text \<open>
  C20. The checksum of a packet is the Internet checksum: however the bytes are cut into non-empty
  fragments (odd lengths included), summing the fragments one after the other and folding gives
  the complement, in network order, of the one's complement sum of the 16-bit words of the
  whole, and \<open>ip_checksum\<close> of the whole gives the same.
\<close>

theorem checksum_is_rfc1071:
  assumes "\<forall>f\<in>set (map fr_data (pk_frags p)). f \<noteq> []" "length (pkt_bytes p) < 2 ^ 32"
  shows "\<exists>c. cs_sum_packet p cs_init = Some c
    \<and> cs_get c = hton (of_nat (rfc1071_checksum (pkt_bytes p)))
    \<and> ip_checksum (pkt_bytes p) = Some (cs_get c)"
proof -
  have b: "pkt_bytes p = concat (map fr_data (pk_frags p))"
    by (simp add: pkt_bytes_def frags_bytes_def)
  show ?thesis
    using cs_get_of_frags [OF assms(1)] ip_checksum_eq [OF assms(2)] assms(2)
    by (auto simp: cs_sum_packet_def b)
qed

theorem checksum_is_rfc1071_witness:
  "\<exists>c. cs_sum_packet (pkt_of_frags [[0x45, 0x00, 0x01], [0xff], [0x80, 0x7f, 0x03]]) cs_init = Some c
    \<and> cs_get c = hton (of_nat (rfc1071_checksum [0x45, 0x00, 0x01, 0xff, 0x80, 0x7f, 0x03]))"
proof -
  let ?p = "pkt_of_frags [[0x45, 0x00, 0x01], [0xff], [0x80, 0x7f, 0x03]]"
  have "\<forall>f\<in>set (map fr_data (pk_frags ?p)). f \<noteq> []" "length (pkt_bytes ?p) < 2 ^ 32"
    by (simp_all add: pkt_of_frags_def pkt_bytes_def frags_bytes_def external_def)
  from checksum_is_rfc1071 [OF this] show ?thesis
    by (auto simp: pkt_of_frags_spec)
qed

lemma word_sum_checksum_bytes:
  assumes "n \<le> 65535"
  shows "word_sum False (object_bytes (hton (of_nat n :: u16))) = n"
proof -
  let ?b = "object_bytes (hton (of_nat n :: u16))"
  have "?b = rev (object_bytes (of_nat n :: u16))"
    by (simp add: hton_def object_bytes_bswap)
  then have "be_nat ?b = n"
    using assms by (simp add: be_nat_def object_bytes_def le_nat_nat_le unat_of_nat)
  moreover have "length ?b = 2"
    by simp
  then obtain x y where "?b = [x, y]"
    by (metis (no_types, opaque_lifting) One_nat_def Suc_1 length_0_conv length_Suc_conv)
  ultimately show ?thesis by simp
qed

lemma ip_checksum_stored:
  assumes "even (length a)" "length a + 2 + length b < 2 ^ 32"
    and "ip_checksum (a @ [0, 0] @ b) = Some c"
  shows "ip_checksum (a @ object_bytes c @ b) = Some 0"
proof -
  let ?d = "a @ [0, 0] @ b" and ?e = "a @ object_bytes c @ b"
  define s where "s = word_sum False ?d"
  have c: "c = hton (of_nat (65535 - oc_norm s))"
    using assms(2,3) ip_checksum_eq [of ?d] by (simp add: rfc1071_checksum_def rfc1071_norm s_def)
  have "word_sum False ?e = word_sum False a + (65535 - oc_norm s) + word_sum False b"
    unfolding word_sum_append c using assms(1) word_sum_checksum_bytes [of "65535 - oc_norm s"] by simp
  also have "\<dots> = s + (65535 - oc_norm s)"
    using assms(1) by (simp add: s_def word_sum_append)
  finally have e: "word_sum False ?e = s + (65535 - oc_norm s)" .
  have "oc_norm s \<le> 65535" "oc_eq (oc_norm s) s"
    by (simp_all add: oc_norm_def oc_eq_def less_imp_le)
  then have "oc_eq (s + (65535 - oc_norm s)) 65535"
    using oc_eq_add [OF oc_eq_sym [OF \<open>oc_eq (oc_norm s) s\<close>] oc_eq_refl [of "65535 - oc_norm s"]] by simp
  then have "oc_norm (word_sum False ?e) = 65535"
    unfolding e using oc_eq_norm oc_norm_small by fastforce
  then have "rfc1071_checksum ?e = 0"
    by (simp only: rfc1071_checksum_def rfc1071_norm diff_self_eq_0)
  moreover have "hton (0 :: u16) = 0"
    by code_simp
  ultimately show ?thesis
    using ip_checksum_eq [of ?e] assms(2) by (simp only: length_append length_object_bytes) simp
qed

text \<open>
  A stored checksum verifies: take data with a zeroed two-byte checksum field at an even
  offset, compute the checksum over it and store it in the field as the code does (a plain
  store of the returned value). Then the checksum over the result is zero, which is what the
  receiving side tests.
\<close>

theorem checksum_verifies:
  assumes "even (length a)" "length a + 2 + length b < 2 ^ 32"
    and "ip_checksum (a @ [0, 0] @ b) = Some c"
  shows "ip_checksum (a @ object_bytes c @ b) = Some 0"
  using assms by (rule ip_checksum_stored)

theorem checksum_verifies_witness:
  "\<exists>c. ip_checksum ([0x45, 0x00] @ [0, 0] @ [0x12]) = Some c
    \<and> ip_checksum ([0x45, 0x00] @ object_bytes c @ [0x12]) = Some 0"
proof -
  obtain c where "ip_checksum ([0x45, 0x00] @ [0, 0] @ [0x12]) = Some c"
    using ip_checksum_eq [of "[0x45, 0x00] @ [0, 0] @ [0x12]"] by simp
  with checksum_verifies [of "[0x45, 0x00]" "[0x12]" c] show ?thesis by simp
qed

end
