(* ===== verification/Ipv4.thy ===== *)
theory Ipv4
  imports Arp Ip_Checksum Packet_Merger Rss_Hash "HOL-Library.AList"
begin

text \<open>
  IPv4 (net/ip.hh, net/ip.cc): input with checks, reassembly and delivery to the transport
  protocols, output with fragmentation, the memory limit and the timeout of reassembly, and
  ICMP echo.

  \<^item> \<open>ipv4\<close> is the state; what a call hands to a transport protocol or to another core is
    recorded in \<open>ip_out\<close>. The environment \<open>ip_env\<close> has what the code reads from the network
    interface: features, RSS key and device, this core, the hardware address, and
    \<open>sizeof(packet::impl)\<close>, which the memory accounting adds to every packet.
  \<^item> The fragment table is an association list; memory counters are 32-bit words as in the code.
  \<^item> \<open>None\<close> is undefined behaviour or a failed assertion of a packet operation.
  \<^item> The locale \<open>fragment_eviction\<close> states what the two ways of giving up fragments promise.
\<close>

section \<open>State\<close>

record hw_features =
  tx_csum_ip_offload :: bool
  tx_csum_l4_offload :: bool
  rx_csum_offload :: bool
  rx_lro :: bool
  tx_tso :: bool
  tx_ufo :: bool
  hw_mtu :: u16
  max_packet_len :: u16

record ip_env =
  env_hw :: hw_features
  env_rss_key :: bytes
  env_dev :: rss_device
  env_cpu :: nat
  env_mac :: mac
  env_impl_size :: nat

record frag_id =
  fid_src :: u32
  fid_dst :: u32
  fid_identification :: u16
  fid_protocol :: u8

record ip_fragment =
  if_header :: pkt
  if_data :: "u32 packet_merger"
  if_rx_time :: nat
  if_mem_size :: u32
  if_last :: bool

definition new_fragment :: ip_fragment where
  "new_fragment = \<lparr>if_header = pkt_empty, if_data = \<lparr>pm_map = [], pm_linearizations = 0\<rparr>,
    if_rx_time = 0, if_mem_size = 0, if_last = False\<rparr>"

record l4packet =
  l4_to :: u32
  l4_pkt :: pkt
  l4_dst :: mac
  l4_proto :: u8

datatype ip_event = Deliver u8 pkt u32 u32 | Forward nat pkt

record ipv4 =
  ip_host :: u32
  ip_gw :: u32
  ip_netmask :: u32
  ip_arp :: arp_for
  ip_filter :: "(pkt \<Rightarrow> ip_hdr \<Rightarrow> mac \<Rightarrow> bool) option"
  ip_frags :: "(frag_id \<times> ip_fragment) list"
  ip_frags_age :: "frag_id list"
  ip_frag_mem :: u32
  ip_frag_timer :: bool
  ip_packetq :: "(mac \<times> pkt) list"
  ip_providers :: "l4packet list list"
  ip_provider_idx :: nat
  ip_out :: "ip_event list"

definition frag_timeout_seconds :: nat where "frag_timeout_seconds = 30"
definition frag_low_thresh :: u32 where "frag_low_thresh = 3 * 1024 * 1024"
definition frag_high_thresh :: u32 where "frag_high_thresh = 4 * 1024 * 1024"
definition ip_packet_len_max :: nat where "ip_packet_len_max = 65535"

definition proto_icmp :: u8 where "proto_icmp = 1"
definition proto_tcp :: u8 where "proto_tcp = 6"
definition proto_udp :: u8 where "proto_udp = 17"

definition has_l4 :: "u8 \<Rightarrow> bool" where
  "has_l4 p \<longleftrightarrow> p = proto_icmp \<or> p = proto_tcp \<or> p = proto_udp"

definition set_host_address :: "u32 \<Rightarrow> ipv4 \<Rightarrow> ipv4" where
  "set_host_address a s = s\<lparr>ip_host := a, ip_arp := set_self_addr a (ip_arp s)\<rparr>"

definition set_gw_address :: "u32 \<Rightarrow> ipv4 \<Rightarrow> ipv4" where
  "set_gw_address a s = s\<lparr>ip_gw := a\<rparr>"

definition set_netmask_address :: "u32 \<Rightarrow> ipv4 \<Rightarrow> ipv4" where
  "set_netmask_address a s = s\<lparr>ip_netmask := a\<rparr>"

definition in_my_netmask :: "u32 \<Rightarrow> ipv4 \<Rightarrow> bool" where
  "in_my_netmask a s \<longleftrightarrow> (a XOR ip_host s) AND ip_netmask s = 0"

definition get_l2_dst_address :: "u32 \<Rightarrow> ipv4 \<Rightarrow> lookup_result \<times> ipv4" where
  "get_l2_dst_address to s =
    (case arp_lookup (if in_my_netmask to s then to else ip_gw s) (ip_arp s) of (r, a) \<Rightarrow> (r, s\<lparr>ip_arp := a\<rparr>))"

section \<open>Reassembly bookkeeping\<close>

definition pkt_memory :: "ip_env \<Rightarrow> pkt \<Rightarrow> u32" where
  "pkt_memory env p = of_nat (pk_len p + env_impl_size env)"

definition get_frag :: "frag_id \<Rightarrow> ipv4 \<Rightarrow> ip_fragment" where
  "get_frag i s = (case map_of (ip_frags s) i of None \<Rightarrow> new_fragment | Some f \<Rightarrow> f)"

definition put_frag :: "frag_id \<Rightarrow> ip_fragment \<Rightarrow> ipv4 \<Rightarrow> ipv4" where
  "put_frag i f s = s\<lparr>ip_frags := AList.update i f (ip_frags s)\<rparr>"

definition frag_drop :: "frag_id \<Rightarrow> u32 \<Rightarrow> ipv4 \<Rightarrow> ipv4" where
  "frag_drop i dropped_size s = s\<lparr>ip_frags := AList.delete i (ip_frags s),
    ip_frag_mem := ip_frag_mem s - dropped_size\<rparr>"

text \<open>The loop of \<open>frag_limit_mem\<close>, along the list of fragments by age.\<close>

fun drop_oldest :: "u32 \<Rightarrow> frag_id list \<Rightarrow> ipv4 \<Rightarrow> ipv4" where
  "drop_oldest drop_size [] s = s\<lparr>ip_frags_age := []\<rparr>"
| "drop_oldest drop_size (i # is) s = (if drop_size = 0 then s\<lparr>ip_frags_age := i # is\<rparr>
    else let dropped = if_mem_size (get_frag i s)
         in drop_oldest (drop_size - min drop_size dropped) is (frag_drop i dropped s))"

definition frag_limit_mem :: "ipv4 \<Rightarrow> ipv4" where
  "frag_limit_mem s = (if ip_frag_mem s \<le> frag_high_thresh then s
    else drop_oldest (ip_frag_mem s - frag_low_thresh) (ip_frags_age s) s)"

fun drop_expired_frags :: "nat \<Rightarrow> frag_id list \<Rightarrow> ipv4 \<Rightarrow> ipv4" where
  "drop_expired_frags now [] s = s\<lparr>ip_frags_age := []\<rparr>"
| "drop_expired_frags now (i # is) s = (let f = get_frag i s in
     if now > if_rx_time f + frag_timeout_seconds then drop_expired_frags now is (frag_drop i (if_mem_size f) s)
     else (put_frag i f s)\<lparr>ip_frags_age := i # is\<rparr>)"

definition frag_timeout :: "nat \<Rightarrow> ipv4 \<Rightarrow> ipv4" where
  "frag_timeout now s0 = (let s = s0\<lparr>ip_frag_timer := False\<rparr> in
    if ip_frags s = [] then s else
    let t = drop_expired_frags now (ip_frags_age s) s in
    if ip_frags t \<noteq> [] then t\<lparr>ip_frag_timer := True\<rparr> else t\<lparr>ip_frag_mem := 0\<rparr>)"

definition frag_merge :: "ip_env \<Rightarrow> ip_hdr \<Rightarrow> u16 \<Rightarrow> pkt \<Rightarrow> ip_fragment \<Rightarrow> (u32 \<times> ip_fragment) option" where
  "frag_merge env h offset p f =
    (let hdr_len = unat (ip_ihl h) * 4 in
     case (if offset = 0 then pkt_share 0 hdr_len p else Some (if_header f, p)) of None \<Rightarrow> None
     | Some (hdr, p1) \<Rightarrow>
       (case pkt_trim_front hdr_len p1 of None \<Rightarrow> None
        | Some p2 \<Rightarrow>
          (case merge uint32_offset_ops (ucast offset) p2 (if_data f) of None \<Rightarrow> None
           | Some data \<Rightarrow>
             (let mem = pkt_memory env hdr + (\<Sum>(k, q)\<leftarrow>pm_map data. pkt_memory env q)
              in Some (mem - if_mem_size f, f\<lparr>if_header := hdr, if_data := data, if_mem_size := mem\<rparr>)))))"

definition frag_is_complete :: "ip_fragment \<Rightarrow> bool option" where
  "frag_is_complete f = (case pm_map (if_data f) of [] \<Rightarrow> None
    | (offset, _) # rest \<Rightarrow> Some (if_last f \<and> rest = [] \<and> offset = 0))"

definition get_assembled_packet :: "mac \<Rightarrow> mac \<Rightarrow> ip_fragment \<Rightarrow> pkt option" where
  "get_assembled_packet from to f = (case pm_map (if_data f) of [] \<Rightarrow> None
    | (_, ip_data) # _ \<Rightarrow>
      (case prepend_header (eth_hdr_bytes \<lparr>eth_dst_mac = to, eth_src_mac = from, eth_proto = eth_ipv4\<rparr>) (if_header f) of
         None \<Rightarrow> None
       | Some p1 \<Rightarrow>
         (let p2 = pkt_append p1 ip_data in
          case pkt_update_header 14 20 (\<lambda>iph. take 2 iph @ object_bytes (hton (of_nat (pk_len p2 - 14) :: u16))
                @ take 2 (drop 4 iph) @ [0, 0] @ drop 8 iph) p2 of
            Some (Some p3) \<Rightarrow> Some (p3\<lparr>pk_offload := default_offload_info\<lparr>oi_reassembled := True\<rparr>\<rparr>)
          | _ \<Rightarrow> None)))"

section \<open>Input\<close>

text \<open>
  The checks on a packet before anything else is looked at: the header is there, its checksum is
  right, the packet is as long as it says, and the datagram it belongs to is not too long. The
  result is \<open>Some None\<close> if the packet is dropped.
\<close>

definition ip_accept :: "ip_env \<Rightarrow> pkt \<Rightarrow> (ip_hdr \<times> pkt) option option" where
  "ip_accept env p0 = (case pkt_get_header 0 20 p0 of None \<Rightarrow> None
    | Some (None, _) \<Rightarrow> Some None
    | Some (Some iph, p) \<Rightarrow>
      if \<not> rx_csum_offload (env_hw env) \<and> \<not> oi_reassembled (pk_offload p) \<and> ip_checksum iph \<noteq> Some 0
      then Some None
      else (let h = ip_hdr_read iph; len = unat (ip_len h) in
        if pk_len p < len then Some None
        else case (if pk_len p > len then pkt_trim_back (pk_len p - len) p else Some p) of None \<Rightarrow> None
          | Some q \<Rightarrow> if unat (ip_offset h) + pk_len q > ip_packet_len_max then Some None else Some (Some (h, q))))"

text \<open>\<open>forward\<close> of the transport protocols: the ports as they stand in the packet.\<close>

definition l4_forward :: "u8 \<Rightarrow> nat \<Rightarrow> pkt \<Rightarrow> forward_hash \<Rightarrow> (forward_hash \<times> pkt) option" where
  "l4_forward proto off p d = (if proto = proto_icmp then Some (d, p)
    else case pkt_get_header off (if proto = proto_tcp then 20 else 8) p of None \<Rightarrow> None
      | Some (None, q) \<Rightarrow> Some (d, q)
      | Some (Some th, q) \<Rightarrow> if length d + 4 \<le> 64 then Some (d @ take 4 th, q) else None)"

text \<open>
  \<open>forward\<close> of IP, by which the receiving core chooses the core of a frame; a frame without a
  complete IP header at \<open>off\<close> dereferences a null pointer.
\<close>

definition ip_forward :: "nat \<Rightarrow> pkt \<Rightarrow> forward_hash \<Rightarrow> (forward_hash \<times> pkt) option" where
  "ip_forward off p d0 = (case pkt_get_header off 20 p of
      Some (Some iph, q) \<Rightarrow>
        (let h = ip_hdr_read iph in
         Option.bind (Option.bind (fh_push32 (object_value (take 4 (drop 12 iph))) d0)
           (fh_push32 (object_value (take 4 (drop 16 iph))))) (\<lambda>d.
         if has_l4 (ip_proto h) \<and> \<not> ip_mf h \<and> ip_offset h = 0 then l4_forward (ip_proto h) (off + 20) q d
         else Some (d, q)))
    | _ \<Rightarrow> None)"

definition reassembled_cpu :: "ip_env \<Rightarrow> ip_hdr \<Rightarrow> pkt \<Rightarrow> (nat \<times> pkt) option" where
  "reassembled_cpu env h p =
    Option.bind (Option.bind (fh_push32 (hton (ip_src h)) []) (fh_push32 (hton (ip_dst h)))) (\<lambda>d.
    Option.bind (l4_forward (ip_proto h) 0 p d) (\<lambda>(d', q).
    Option.bind (toeplitz_hash (env_rss_key env) d') (\<lambda>hash.
    map_option (\<lambda>cpu. (cpu, q)) (hash2cpu (env_dev env) hash))))"

definition set_first :: "pkt \<Rightarrow> ip_fragment \<Rightarrow> ip_fragment" where
  "set_first q f = f\<lparr>if_data := (if_data f)\<lparr>pm_map :=
     (case pm_map (if_data f) of [] \<Rightarrow> [] | (k, _) # r \<Rightarrow> (k, q) # r)\<rparr>\<rparr>"

text \<open>A complete datagram is delivered here or forwarded to the core its flow belongs to.\<close>

definition deliver_reassembled :: "ip_env \<Rightarrow> ip_hdr \<Rightarrow> mac \<Rightarrow> ip_fragment \<Rightarrow> ip_event list option" where
  "deliver_reassembled env h from f = (if \<not> has_l4 (ip_proto h) then Some [] else
    case pm_map (if_data f) of [] \<Rightarrow> None
    | (_, ip_data) # _ \<Rightarrow>
      (case reassembled_cpu env h ip_data of None \<Rightarrow> None
       | Some (cpu, q) \<Rightarrow>
         if cpu = env_cpu env then Some [Deliver (ip_proto h) q (ip_src h) (ip_dst h)]
         else map_option (\<lambda>p. [Forward cpu p]) (get_assembled_packet from (env_mac env) (set_first q f))))"

definition frag_id_of :: "ip_hdr \<Rightarrow> frag_id" where
  "frag_id_of h = \<lparr>fid_src = ip_src h, fid_dst = ip_dst h, fid_identification = ip_id h, fid_protocol = ip_proto h\<rparr>"

definition receive_fragment :: "ip_env \<Rightarrow> nat \<Rightarrow> ip_hdr \<Rightarrow> pkt \<Rightarrow> mac \<Rightarrow> ipv4 \<Rightarrow> ipv4 option" where
  "receive_fragment env now h p from s0 =
    (let s1 = frag_limit_mem s0; i = frag_id_of h; f0 = get_frag i s1;
         f1 = (if ip_mf h then f0 else f0\<lparr>if_last := True\<rparr>);
         f2 = (if if_mem_size f1 = 0 then f1\<lparr>if_rx_time := now\<rparr> else f1);
         age = (if if_mem_size f1 = 0 then ip_frags_age s1 @ [i] else ip_frags_age s1)
     in case frag_merge env h (ip_offset h) p f2 of None \<Rightarrow> None
        | Some (added_size, f) \<Rightarrow>
          (let s2 = (put_frag i f s1)\<lparr>ip_frags_age := age, ip_frag_mem := ip_frag_mem s1 + added_size\<rparr> in
           case frag_is_complete f of None \<Rightarrow> None
           | Some True \<Rightarrow>
             (case deliver_reassembled env h from f of None \<Rightarrow> None
              | Some ev \<Rightarrow> let s3 = frag_drop i (if_mem_size f) s2 in
                  Some (s3\<lparr>ip_frags_age := filter (\<lambda>j. j \<noteq> i) (ip_frags_age s3), ip_out := ip_out s3 @ ev\<rparr>))
           | Some False \<Rightarrow> Some (s2\<lparr>ip_frag_timer := True\<rparr>)))"

definition learn_source :: "ip_hdr \<Rightarrow> mac \<Rightarrow> ipv4 \<Rightarrow> ipv4" where
  "learn_source h from s = (if in_my_netmask (ip_src h) s \<and> ip_src h \<noteq> ip_host s
    then s\<lparr>ip_arp := arp_learn from (ip_src h) (ip_arp s)\<rparr> else s)"

definition handle_received_packet :: "ip_env \<Rightarrow> nat \<Rightarrow> pkt \<Rightarrow> mac \<Rightarrow> ipv4 \<Rightarrow> ipv4 option" where
  "handle_received_packet env now p0 from s0 = (case ip_accept env p0 of None \<Rightarrow> None
    | Some None \<Rightarrow> Some s0
    | Some (Some (h, p)) \<Rightarrow>
      (let s = learn_source h from s0 in
       if (case ip_filter s of None \<Rightarrow> False | Some handle \<Rightarrow> handle p h from) then Some s
       else if ip_dst h \<noteq> ip_host s then Some s
       else if ip_mf h \<or> ip_offset h \<noteq> 0 then receive_fragment env now h p from s
       else if \<not> has_l4 (ip_proto h) then Some s
       else case pkt_trim_front (unat (ip_ihl h) * 4) p of None \<Rightarrow> None
         | Some q \<Rightarrow> Some (s\<lparr>ip_out := ip_out s @ [Deliver (ip_proto h) q (ip_src h) (ip_dst h)]\<rparr>)))"

section \<open>Output\<close>

definition needs_frag :: "pkt \<Rightarrow> u8 \<Rightarrow> hw_features \<Rightarrow> bool" where
  "needs_frag p proto hw \<longleftrightarrow> \<not> (pk_len p + 20 \<le> unat (hw_mtu hw))
    \<and> \<not> (proto = proto_tcp \<and> tx_tso hw \<or> proto = proto_udp \<and> tx_ufo hw)"

definition tx_ip_hdr :: "u32 \<Rightarrow> u32 \<Rightarrow> u8 \<Rightarrow> bool \<Rightarrow> nat \<Rightarrow> u16 \<Rightarrow> u16 \<Rightarrow> ip_hdr" where
  "tx_ip_hdr host to proto frag len remaining offset =
    \<lparr>ip_ihl = 5, ip_ver = 4, ip_dscp = 0, ip_ecn = 0, ip_len = of_nat len, ip_id = 0,
     ip_frag = (if frag then push_bit 13 (of_bool (remaining > 0)) OR offset div 8 else 0),
     ip_ttl = 64, ip_proto = proto, ip_csum = 0, ip_src = host, ip_dst = to\<rparr>"

definition send_header :: "ip_env \<Rightarrow> u32 \<Rightarrow> u8 \<Rightarrow> u32 \<Rightarrow> bool \<Rightarrow> nat \<Rightarrow> u16 \<Rightarrow> u16 \<Rightarrow> bytes option" where
  "send_header env to proto host frag len remaining offset =
    (let h = ip_hdr_bytes (tx_ip_hdr host to proto frag len remaining offset)
     in if tx_csum_ip_offload (env_hw env) then Some h
        else map_option (\<lambda>c. take 10 h @ object_bytes c @ drop 12 h) (ip_checksum h))"

definition send_pkt :: "ip_env \<Rightarrow> u32 \<Rightarrow> u8 \<Rightarrow> mac \<Rightarrow> bool \<Rightarrow> pkt \<Rightarrow> u16 \<Rightarrow> u16 \<Rightarrow> ipv4 \<Rightarrow> ipv4 option" where
  "send_pkt env to proto e_dst frag p remaining offset s =
    Option.bind (send_header env to proto (ip_host s) frag (pk_len p + 20) remaining offset) (\<lambda>h.
    Option.bind (prepend_header h p) (\<lambda>q.
      let q' = (if tx_csum_ip_offload (env_hw env) then q\<lparr>pk_offload := (pk_offload q)\<lparr>oi_needs_ip_csum := True\<rparr>\<rparr> else q)
      in Some (s\<lparr>ip_packetq := ip_packetq s @ [(e_dst, q')]\<rparr>)))"

text \<open>The fragmenting loop; with an MTU of 20 it makes no progress, which the model reports as \<open>None\<close>.\<close>

function send_frags :: "ip_env \<Rightarrow> u32 \<Rightarrow> u8 \<Rightarrow> mac \<Rightarrow> pkt \<Rightarrow> u16 \<Rightarrow> u16 \<Rightarrow> ipv4 \<Rightarrow> ipv4 option" where
  "send_frags env to proto e_dst p remaining offset s = (if remaining = 0 then Some s else
    (let can_send = min (hw_mtu (env_hw env) - 20) remaining in
     if can_send = 0 then None else
     (case pkt_share (unat offset) (unat can_send) p of None \<Rightarrow> None
      | Some (q, p') \<Rightarrow>
        (case send_pkt env to proto e_dst True q (remaining - can_send) offset s of None \<Rightarrow> None
         | Some t \<Rightarrow> send_frags env to proto e_dst p' (remaining - can_send) (offset + can_send) t))))"
  by pat_completeness auto
termination
proof (relation "measure (\<lambda>(_, _, _, _, _, r, _, _). unat r)", goal_cases)
  case (2 env to proto e_dst p remaining offset s can_send x q p' t)
  then have "can_send \<le> remaining" "0 < unat can_send"
    by (simp_all add: unat_gt_0)
  then show ?case
    by (simp add: unat_sub word_le_nat_alt)
qed simp

declare send_frags.simps [simp del]

definition ip_send :: "ip_env \<Rightarrow> u32 \<Rightarrow> u8 \<Rightarrow> pkt \<Rightarrow> mac \<Rightarrow> ipv4 \<Rightarrow> ipv4 option" where
  "ip_send env to proto p e_dst s = (if needs_frag p proto (env_hw env)
    then send_frags env to proto e_dst p (of_nat (pk_len p)) 0 s
    else send_pkt env to proto e_dst False p 0 0 s)"

text \<open>\<open>get_packet\<close>: ask the providers in turn, starting where the last call stopped.\<close>

fun poll_providers :: "nat \<Rightarrow> l4packet list list \<Rightarrow> nat \<Rightarrow> l4packet option \<times> l4packet list list \<times> nat" where
  "poll_providers 0 ps idx = (None, ps, idx)"
| "poll_providers (Suc n) ps idx = (let next_idx = (if idx + 1 = length ps then 0 else idx + 1) in
    case ps ! idx of [] \<Rightarrow> poll_providers n ps next_idx
    | x # xs \<Rightarrow> (Some x, ps[idx := xs], next_idx))"

definition ip_get_packet :: "ip_env \<Rightarrow> ipv4 \<Rightarrow> ((mac \<times> pkt) option \<times> ipv4) option" where
  "ip_get_packet env s = map_option (\<lambda>t. case ip_packetq t of [] \<Rightarrow> (None, t)
      | x # xs \<Rightarrow> (Some x, t\<lparr>ip_packetq := xs\<rparr>))
    (if ip_packetq s \<noteq> [] then Some s else
     case poll_providers (length (ip_providers s)) (ip_providers s) (ip_provider_idx s) of
       (None, ps, idx) \<Rightarrow> Some (s\<lparr>ip_providers := ps, ip_provider_idx := idx\<rparr>)
     | (Some l4, ps, idx) \<Rightarrow> ip_send env (l4_to l4) (l4_proto l4) (l4_pkt l4) (l4_dst l4)
         (s\<lparr>ip_providers := ps, ip_provider_idx := idx\<rparr>))"

section \<open>ICMP echo\<close>

text \<open>\<open>icmp::received\<close> up to the reservation of queue space: the reply made of a request.
  The checksum runs over \<open>p.len()\<close> bytes from the header on, contiguous only in the first fragment.\<close>

definition icmp_reply :: "pkt \<Rightarrow> pkt option option" where
  "icmp_reply p0 = (case pkt_get_header 0 8 p0 of None \<Rightarrow> None
    | Some (None, _) \<Rightarrow> Some None
    | Some (Some hdr, p) \<Rightarrow>
      if hd hdr \<noteq> icmp_echo_request then Some None
      else (case pkt_update_header 0 8 (\<lambda>h. [icmp_echo_reply, 0, 0, 0] @ drop 4 h) p of
          Some (Some q) \<Rightarrow>
            (if fr_size (hd (pk_frags q)) < pk_len q then None
             else case ip_checksum (take (pk_len q) (fr_data (hd (pk_frags q)))) of None \<Rightarrow> None
              | Some c \<Rightarrow>
                (case pkt_update_header 0 8 (\<lambda>h. take 2 h @ object_bytes c @ drop 4 h) q of
                   Some (Some r) \<Rightarrow> Some (Some r) | _ \<Rightarrow> None))
        | _ \<Rightarrow> None))"

section \<open>Accounting of fragment memory\<close>

definition frag_total :: "(frag_id \<times> ip_fragment) list \<Rightarrow> u32" where
  "frag_total m = (\<Sum>(i, f)\<leftarrow>m. if_mem_size f)"

text \<open>The counter is the memory of the fragments kept, and every fragment kept can be found by age.\<close>

definition frag_ok :: "ipv4 \<Rightarrow> bool" where
  "frag_ok s \<longleftrightarrow> distinct (map fst (ip_frags s)) \<and> fst ` set (ip_frags s) \<subseteq> set (ip_frags_age s)
    \<and> ip_frag_mem s = frag_total (ip_frags s)"

lemma frag_total_delete:
  "distinct (map fst m) \<Longrightarrow> frag_total (AList.delete i m)
    = frag_total m - (case map_of m i of None \<Rightarrow> 0 | Some f \<Rightarrow> if_mem_size f)"
proof (induction m)
  case (Cons a m)
  then show ?case
    by (cases "fst a = i") (auto simp: frag_total_def AList.delete_eq filter_id_conv image_iff split: option.splits)
qed (simp add: frag_total_def)

lemma frag_total_update:
  "distinct (map fst m) \<Longrightarrow> frag_total (AList.update i f m)
    = frag_total m + if_mem_size f - (case map_of m i of None \<Rightarrow> 0 | Some g \<Rightarrow> if_mem_size g)"
proof (induction m)
  case (Cons a m)
  then show ?case
    by (cases a) (auto simp: frag_total_def split: option.splits)
qed (simp add: frag_total_def)

lemma if_mem_size_get_frag:
  "if_mem_size (get_frag i s) = (case map_of (ip_frags s) i of None \<Rightarrow> 0 | Some f \<Rightarrow> if_mem_size f)"
  by (simp add: get_frag_def new_fragment_def split: option.splits)

lemma frag_drop_ok:
  assumes "distinct (map fst (ip_frags s))" "ip_frag_mem s = frag_total (ip_frags s)"
  shows "distinct (map fst (ip_frags (frag_drop i (if_mem_size (get_frag i s)) s)))
    \<and> ip_frag_mem (frag_drop i (if_mem_size (get_frag i s)) s)
        = frag_total (ip_frags (frag_drop i (if_mem_size (get_frag i s)) s))"
  using assms by (simp add: frag_drop_def frag_total_delete if_mem_size_get_frag distinct_delete)

lemma frag_drop_simps [simp]:
  "map_of (ip_frags (frag_drop i n s)) = (map_of (ip_frags s))(i := None)"
  "fst ` set (ip_frags (frag_drop i n s)) = fst ` set (ip_frags s) - {i}"
proof -
  have "set (map fst (AList.delete i (ip_frags s))) = set (map fst (ip_frags s)) - {i}"
    by (simp add: delete_keys)
  then show "map_of (ip_frags (frag_drop i n s)) = (map_of (ip_frags s))(i := None)"
    "fst ` set (ip_frags (frag_drop i n s)) = fst ` set (ip_frags s) - {i}"
    by (simp_all add: frag_drop_def delete_conv')
qed

lemma put_frag_same: "map_of (ip_frags s) i = Some f \<Longrightarrow> put_frag i f s = s"
  by (simp add: put_frag_def update_triv)

lemma drop_oldest_spec:
  assumes "distinct (map fst (ip_frags s))" "ip_frag_mem s = frag_total (ip_frags s)"
    "fst ` set (ip_frags s) \<subseteq> set is"
  shows "frag_ok (drop_oldest d is s) \<and> map_of (ip_frags (drop_oldest d is s)) \<subseteq>\<^sub>m map_of (ip_frags s)"
  using assms
proof (induction d "is" s rule: drop_oldest.induct)
  case (2 d i "is" s)
  show ?case
  proof (cases "d = 0")
    case False
    let ?n = "if_mem_size (get_frag i s)" and ?s = "frag_drop i (if_mem_size (get_frag i s)) s"
    have o: "distinct (map fst (ip_frags ?s))" "ip_frag_mem ?s = frag_total (ip_frags ?s)"
        "fst ` set (ip_frags ?s) \<subseteq> set is"
      using frag_drop_ok [OF "2.prems"(1,2), of i] "2.prems"(3) by auto
    have "frag_ok (drop_oldest (d - min d ?n) is ?s)
      \<and> map_of (ip_frags (drop_oldest (d - min d ?n) is ?s)) \<subseteq>\<^sub>m map_of (ip_frags ?s)"
      using "2.IH" [OF False refl o] .
    moreover have "map_of (ip_frags ?s) \<subseteq>\<^sub>m map_of (ip_frags s)"
      by (simp add: map_le_def)
    ultimately have "frag_ok (drop_oldest (d - min d ?n) is ?s)
      \<and> map_of (ip_frags (drop_oldest (d - min d ?n) is ?s)) \<subseteq>\<^sub>m map_of (ip_frags s)"
      using map_le_trans by blast
    then show ?thesis
      using False by (simp add: Let_def)
  qed (use 2 in \<open>auto simp: frag_ok_def\<close>)
qed (simp add: frag_ok_def)

lemma drop_expired_frags_spec:
  assumes "distinct (map fst (ip_frags s))" "ip_frag_mem s = frag_total (ip_frags s)"
    "fst ` set (ip_frags s) \<subseteq> set is"
  shows "frag_ok (drop_expired_frags now is s)
    \<and> (\<forall>i f. map_of (ip_frags (drop_expired_frags now is s)) i = Some f
        \<longrightarrow> map_of (ip_frags s) i = Some f \<or> f = new_fragment)"
  using assms
proof (induction now "is" s rule: drop_expired_frags.induct)
  case (2 now i "is" s)
  let ?f = "get_frag i s"
  show ?case
  proof (cases "now > if_rx_time ?f + frag_timeout_seconds")
    case True
    let ?s = "frag_drop i (if_mem_size ?f) s"
    have o: "distinct (map fst (ip_frags ?s))" "ip_frag_mem ?s = frag_total (ip_frags ?s)"
        "fst ` set (ip_frags ?s) \<subseteq> set is"
      using frag_drop_ok [OF "2.prems"(1,2), of i] "2.prems"(3) by auto
    have "frag_ok (drop_expired_frags now is ?s)
      \<and> (\<forall>j f. map_of (ip_frags (drop_expired_frags now is ?s)) j = Some f
          \<longrightarrow> map_of (ip_frags ?s) j = Some f \<or> f = new_fragment)"
      using "2.IH" [OF refl True o] .
    then show ?thesis
      using True by (auto simp: Let_def split: if_splits)
  next
    case False
    then have e: "drop_expired_frags now (i # is) s = (put_frag i ?f s)\<lparr>ip_frags_age := i # is\<rparr>"
      by (simp add: Let_def)
    show ?thesis
      unfolding e using "2.prems"
      by (auto simp: frag_ok_def put_frag_def frag_total_update distinct_update update_conv'
          dom_update [unfolded dom_map_of_conv_image_fst] if_mem_size_get_frag [symmetric] get_frag_def
          split: if_splits option.splits)
  qed
qed (simp add: frag_ok_def)

locale fragment_eviction =
  fixes evict :: "ipv4 \<Rightarrow> ipv4"
  assumes evict_ok: "frag_ok s \<Longrightarrow> frag_ok (evict s)"
    and evict_keeps: "frag_ok s \<Longrightarrow> map_of (ip_frags (evict s)) i = Some f \<Longrightarrow>
          map_of (ip_frags s) i = Some f \<or> f = new_fragment"
    and evict_frame: "ip_host (evict s) = ip_host s" "ip_out (evict s) = ip_out s"
          "ip_packetq (evict s) = ip_packetq s" "ip_arp (evict s) = ip_arp s"
begin

lemma evicted_or_kept: "frag_ok s \<Longrightarrow> get_frag i (evict s) = get_frag i s \<or> get_frag i (evict s) = new_fragment"
  using evict_keeps [of s i] by (auto simp: get_frag_def split: option.splits)

end

lemma drop_oldest_frame:
  "ip_host (drop_oldest d is s) = ip_host s \<and> ip_out (drop_oldest d is s) = ip_out s
    \<and> ip_packetq (drop_oldest d is s) = ip_packetq s \<and> ip_arp (drop_oldest d is s) = ip_arp s"
  by (induction d "is" s rule: drop_oldest.induct) (auto simp: Let_def frag_drop_def)

lemma drop_expired_frags_frame:
  "ip_host (drop_expired_frags d is s) = ip_host s \<and> ip_out (drop_expired_frags d is s) = ip_out s
    \<and> ip_packetq (drop_expired_frags d is s) = ip_packetq s \<and> ip_arp (drop_expired_frags d is s) = ip_arp s"
  by (induction d "is" s rule: drop_expired_frags.induct) (auto simp: Let_def frag_drop_def put_frag_def)

interpretation limit: fragment_eviction frag_limit_mem
proof
  fix s i f assume s: "frag_ok s"
  note d = drop_oldest_spec [of s "ip_frags_age s" "ip_frag_mem s - frag_low_thresh"]
  show "frag_ok (frag_limit_mem s)"
    using s d by (auto simp: frag_limit_mem_def frag_ok_def)
  assume "map_of (ip_frags (frag_limit_mem s)) i = Some f"
  then show "map_of (ip_frags s) i = Some f \<or> f = new_fragment"
    using s d by (auto simp: frag_limit_mem_def frag_ok_def map_le_def dom_def split: if_splits)
qed (simp_all add: frag_limit_mem_def drop_oldest_frame)

interpretation expiry: fragment_eviction "frag_timeout now" for now
proof
  fix s i f assume s: "frag_ok s"
  let ?s = "s\<lparr>ip_frag_timer := False\<rparr>"
  have o: "distinct (map fst (ip_frags ?s))" "ip_frag_mem ?s = frag_total (ip_frags ?s)"
      "fst ` set (ip_frags ?s) \<subseteq> set (ip_frags_age ?s)"
    using s by (simp_all add: frag_ok_def)
  note d = drop_expired_frags_spec [OF o, of now]
  show "frag_ok (frag_timeout now s)"
    using s d by (auto simp: frag_timeout_def Let_def frag_ok_def frag_total_def)
  assume "map_of (ip_frags (frag_timeout now s)) i = Some f"
  then show "map_of (ip_frags s) i = Some f \<or> f = new_fragment"
    using d by (auto simp: frag_timeout_def Let_def split: if_splits)
qed (simp_all add: frag_timeout_def Let_def drop_expired_frags_frame)

lemma frag_merge_size: "frag_merge env h off p f = Some (a, g) \<Longrightarrow> a = if_mem_size g - if_mem_size f"
  by (auto simp: frag_merge_def Let_def split: option.splits prod.splits)

lemma receive_fragment_ok:
  assumes "frag_ok s" "receive_fragment env now h p from s = Some t"
  shows "frag_ok t"
proof -
  define s1 i where "s1 = frag_limit_mem s" and "i = frag_id_of h"
  define f1 where "f1 = (if ip_mf h then get_frag i s1 else (get_frag i s1)\<lparr>if_last := True\<rparr>)"
  define f2 where "f2 = (if if_mem_size f1 = 0 then f1\<lparr>if_rx_time := now\<rparr> else f1)"
  define age where "age = (if if_mem_size f1 = 0 then ip_frags_age s1 @ [i] else ip_frags_age s1)"
  have m: "if_mem_size f2 = if_mem_size (get_frag i s1)" "if_mem_size f1 = if_mem_size (get_frag i s1)"
    by (simp_all add: f1_def f2_def)
  note rf = assms(2) [unfolded receive_fragment_def Let_def, folded s1_def i_def, folded f1_def, folded f2_def age_def]
  obtain a f where f: "frag_merge env h (ip_offset h) p f2 = Some (a, f)"
    using rf by (cases "frag_merge env h (ip_offset h) p f2") auto
  define s2 where "s2 = (put_frag i f s1)\<lparr>ip_frags_age := age, ip_frag_mem := ip_frag_mem s1 + a\<rparr>"
  have o1: "frag_ok s1"
    using limit.evict_ok [OF assms(1)] by (simp add: s1_def)
  have i_age: "i \<in> set age"
  proof (cases "map_of (ip_frags s1) i")
    case None
    then show ?thesis by (simp add: age_def m if_mem_size_get_frag)
  next
    case (Some g)
    then have "i \<in> fst ` set (ip_frags s1)"
      by (force dest: map_of_SomeD)
    with o1 show ?thesis by (auto simp: age_def frag_ok_def)
  qed
  have o2: "frag_ok s2"
    using o1 i_age frag_merge_size [OF f]
    by (auto simp: frag_ok_def s2_def put_frag_def distinct_update dom_update frag_total_update m
        if_mem_size_get_frag [symmetric] age_def)
  have drop: "frag_ok ((frag_drop i (if_mem_size f) s2)\<lparr>ip_frags_age := filter (\<lambda>j. j \<noteq> i) (ip_frags_age s2),
      ip_out := x\<rparr>)" for x
  proof -
    have "get_frag i s2 = f"
      by (simp add: get_frag_def s2_def put_frag_def update_conv')
    then show ?thesis
      using o2 frag_drop_ok [of s2 i] by (auto simp: frag_ok_def)
  qed
  have frag_drop_age: "ip_frags_age (frag_drop i n s2) = ip_frags_age s2" "ip_out (frag_drop i n s2) = ip_out s2" for n
    by (simp_all add: frag_drop_def)
  note rf2 = rf [unfolded f option.case prod.case, folded s2_def, unfolded frag_drop_age]
  show ?thesis
  proof (cases "frag_is_complete f")
    case (Some b)
    with rf2 have "t = s2\<lparr>ip_frag_timer := True\<rparr> \<or> (\<exists>x. t = (frag_drop i (if_mem_size f) s2)
        \<lparr>ip_frags_age := filter (\<lambda>j. j \<noteq> i) (ip_frags_age s2), ip_out := x\<rparr>)"
      by (cases b) (auto split: option.splits)
    moreover have "frag_ok (s2\<lparr>ip_frag_timer := True\<rparr>)"
      using o2 by (simp add: frag_ok_def)
    ultimately show ?thesis
      using drop by metis
  qed (use rf2 in simp)
qed

lemma handle_received_cases:
  assumes "handle_received_packet env now p from s = Some t"
  obtains "t = s" | h where "t = learn_source h from s"
    | h x where "t = (learn_source h from s)\<lparr>ip_out := x\<rparr>"
    | h q where "receive_fragment env now h q from (learn_source h from s) = Some t"
proof (cases "ip_accept env p")
  case None
  with assms show thesis by (simp add: handle_received_packet_def)
next
  case (Some r)
  show thesis
  proof (cases r)
    case None
    with Some assms that(1) show thesis by (simp add: handle_received_packet_def)
  next
    fix hq assume "r = Some hq"
    moreover obtain h q where "hq = (h, q)" by fastforce
    ultimately have "receive_fragment env now h q from (learn_source h from s) = Some t
      \<or> t = learn_source h from s \<or> (\<exists>x. t = (learn_source h from s)\<lparr>ip_out := x\<rparr>)"
      using Some assms by (auto simp: handle_received_packet_def Let_def split: if_splits option.splits)
    with that(2-4) show thesis by blast
  qed
qed

lemma handle_received_ok:
  assumes "frag_ok s" "handle_received_packet env now p from s = Some t"
  shows "frag_ok t"
proof -
  have l: "frag_ok (learn_source h from s)" for h
    using assms(1) by (simp add: learn_source_def frag_ok_def)
  from assms(2) show ?thesis
  proof (cases rule: handle_received_cases)
    case (3 h x)
    with l [of h] show ?thesis by (simp add: frag_ok_def)
  qed (use assms(1) l receive_fragment_ok [OF l] in simp_all)
qed

text \<open>How far eviction gets, if the sizes do not overflow the 32-bit counter.\<close>

definition frag_bytes_kept :: "ipv4 \<Rightarrow> nat" where
  "frag_bytes_kept s = (\<Sum>(i, f)\<leftarrow>ip_frags s. unat (if_mem_size f))"

lemma unat_frag_total: "(\<Sum>(i, f)\<leftarrow>m. unat (if_mem_size f)) < 2 ^ 32 \<Longrightarrow> unat (frag_total m) = (\<Sum>(i, f)\<leftarrow>m. unat (if_mem_size f))"
proof (induction m)
  case (Cons a m)
  obtain i f where a: "a = (i, f)"
    by fastforce
  with Cons have "unat (frag_total m) = (\<Sum>(i, f)\<leftarrow>m. unat (if_mem_size f))"
    by simp
  with Cons.prems a show ?case
    by (simp add: frag_total_def unat_add_no_wrap)
qed (simp add: frag_total_def)

lemma frag_kept_split:
  assumes "distinct (map fst (ip_frags s))"
  shows "frag_bytes_kept s = unat (if_mem_size (get_frag i s)) + frag_bytes_kept (frag_drop i n s)"
proof -
  have "(\<Sum>(i, f)\<leftarrow>m. unat (if_mem_size f))
      = (case map_of m i of None \<Rightarrow> 0 | Some f \<Rightarrow> unat (if_mem_size f))
        + (\<Sum>(i, f)\<leftarrow>AList.delete i m. unat (if_mem_size f))" if "distinct (map fst m)" for m
    using that
  proof (induction m)
    case (Cons a m)
    then show ?case
      by (cases a; cases "fst a = i") (auto simp: AList.delete_eq filter_id_conv image_iff split: option.splits)
  qed simp
  from this [OF assms] show ?thesis
    by (simp add: frag_bytes_kept_def frag_drop_def if_mem_size_get_frag split: option.splits)
qed

lemma drop_oldest_bound:
  assumes "distinct (map fst (ip_frags s))" "ip_frag_mem s = frag_total (ip_frags s)"
    "fst ` set (ip_frags s) \<subseteq> set is" "frag_bytes_kept s < 2 ^ 32"
    "unat (ip_frag_mem s) \<le> unat low + unat d"
  shows "ip_frag_mem (drop_oldest d is s) \<le> low"
  using assms
proof (induction d "is" s rule: drop_oldest.induct)
  case (1 d s)
  then show ?case by (simp add: frag_total_def)
next
  case (2 d i "is" s)
  show ?case
  proof (cases "d = 0")
    case True
    then show ?thesis
      using 2 by (simp add: word_le_nat_alt)
  next
    case False
    let ?n = "if_mem_size (get_frag i s)" and ?s = "frag_drop i (if_mem_size (get_frag i s)) s"
    have o: "distinct (map fst (ip_frags ?s))" "ip_frag_mem ?s = frag_total (ip_frags ?s)"
        "fst ` set (ip_frags ?s) \<subseteq> set is"
      using frag_drop_ok [OF "2.prems"(1,2), of i] "2.prems"(3) by auto
    have split: "frag_bytes_kept s = unat ?n + frag_bytes_kept ?s"
      using "2.prems"(1) frag_kept_split by simp
    have u: "unat (ip_frag_mem s) = frag_bytes_kept s" "unat (ip_frag_mem ?s) = frag_bytes_kept ?s"
      using unat_frag_total [of "ip_frags s"] unat_frag_total [of "ip_frags ?s"] "2.prems"(2,4) o(2) split
      by (simp_all add: frag_bytes_kept_def)
    have "unat (d - min d ?n) = unat d - min (unat d) (unat ?n)"
      by (simp add: unat_sub min_def word_le_nat_alt)
    then have "unat (ip_frag_mem ?s) \<le> unat low + unat (d - min d ?n)"
      using "2.prems"(5) u split by linarith
    then show ?thesis
      using "2.IH" [OF False refl o] "2.prems"(4) split False by (simp add: Let_def)
  qed
qed

text \<open>
  C23. The memory accounting of IP reassembly is exact. Whatever packet is received, the counter
  \<open>_frag_mem\<close> stays the sum of the sizes of the fragments kept, no fragment is kept twice, and
  every one kept is found through the age list, so that it can be evicted; the timeout keeps this
  as well. Unless the sizes overflow the 32-bit counter, \<open>frag_limit_mem\<close> brings a state above the
  high threshold down to the low one.
\<close>

theorem fragment_memory_accounted:
  assumes "frag_ok s" "handle_received_packet env now p from s = Some t"
  shows "frag_ok t \<and> frag_ok (frag_timeout later t) \<and> frag_ok (frag_limit_mem t)
    \<and> (frag_bytes_kept t < 2 ^ 32 \<longrightarrow> ip_frag_mem (frag_limit_mem t)
        \<le> (if ip_frag_mem t \<le> frag_high_thresh then frag_high_thresh else frag_low_thresh))"
proof (intro conjI impI)
  show t: "frag_ok t"
    using assms by (rule handle_received_ok)
  then show "frag_ok (frag_timeout later t)" "frag_ok (frag_limit_mem t)"
    by (rule expiry.evict_ok, rule limit.evict_ok)
  assume b: "frag_bytes_kept t < 2 ^ 32"
  have "unat (ip_frag_mem t - frag_low_thresh) = unat (ip_frag_mem t) - unat frag_low_thresh"
    if "\<not> ip_frag_mem t \<le> frag_high_thresh"
  proof -
    have "frag_low_thresh \<le> frag_high_thresh"
      by (simp add: frag_low_thresh_def frag_high_thresh_def)
    with that show ?thesis by (intro unat_sub) simp
  qed
  with t b drop_oldest_bound [of t "ip_frags_age t" frag_low_thresh "ip_frag_mem t - frag_low_thresh"]
  show "ip_frag_mem (frag_limit_mem t)
      \<le> (if ip_frag_mem t \<le> frag_high_thresh then frag_high_thresh else frag_low_thresh)"
    by (simp add: frag_limit_mem_def frag_ok_def)
qed

section \<open>Merging a fragment\<close>

definition frag_stream :: "(nat \<Rightarrow> byte) \<Rightarrow> ip_fragment \<Rightarrow> bool" where
  "frag_stream st f \<longleftrightarrow> list_all (stream_seg unat frag_window st) (pm_map (if_data f)) \<and> separated_by unat (pm_map (if_data f))"

definition frag_memory :: "ip_env \<Rightarrow> ip_fragment \<Rightarrow> u32" where
  "frag_memory env f = pkt_memory env (if_header f) + (\<Sum>(k, q)\<leftarrow>pm_map (if_data f). pkt_memory env q)"

lemma frag_merge_spec:
  assumes wf: "pkt_wf p" and len: "unat (ip_ihl h) * 4 < length (pkt_bytes p)"
    and data: "drop (unat (ip_ihl h) * 4) (pkt_bytes p) = piece st (unat off) e" and e: "e < 2 ^ 32"
    and f: "frag_stream st f"
  shows "\<exists>g. frag_merge env h off p f = Some (if_mem_size g - if_mem_size f, g) \<and> frag_stream st g
    \<and> cover_of unat (pm_map (if_data g)) = {unat off..<e} \<union> cover_of unat (pm_map (if_data f))
    \<and> fst ` set (pm_map (if_data g)) \<subseteq> insert (ucast off) (fst ` set (pm_map (if_data f)))
    \<and> if_last g = if_last f \<and> if_mem_size g = frag_memory env g
    \<and> (off = 0 \<and> pk_len (if_header g) = unat (ip_ihl h) * 4 \<or> if_header g = if_header f)"
proof -
  let ?hl = "unat (ip_ihl h) * 4"
  obtain hdr p1 where p1: "(if off = 0 then pkt_share 0 ?hl p else Some (if_header f, p)) = Some (hdr, p1)"
      "pkt_wf p1" "pkt_bytes p1 = pkt_bytes p" "off = 0 \<and> pk_len hdr = ?hl \<or> hdr = if_header f"
  proof (cases "off = 0")
    case True
    then show thesis
      using pkt_share_spec [OF wf, of 0 ?hl] len that by (auto simp: pkt_wf_def)
  qed (use that wf in auto)
  obtain p2 where p2: "pkt_trim_front ?hl p1 = Some p2" "pkt_wf p2" "pkt_bytes p2 = piece st (unat off) e"
    using pkt_trim_front_spec [OF p1(2), of ?hl] p1(3) len data by auto
  have "length (drop ?hl (pkt_bytes p)) = e - unat off"
    by (simp only: data length_piece)
  then have "unat off < e"
    using len by simp
  then have k: "pk_len p2 = e - unat off" "unat (ucast off :: u32) = unat off"
    using p2(2,3) e by (simp_all add: pkt_wf_def unsigned_ucast_eq take_bit_nat_eq_self)
  have "stream_seg unat frag_window st (ucast off :: u32, p2)" "spare_slot p2"
    using p2 e \<open>unat off < e\<close>
    by (auto simp: stream_seg_def holds_def stop_of_def k frag_window_def spare_slot_def)
  from frag_off.merge_spec [OF this(1) _ _ this(2), of "if_data f"] f
  obtain data' where m: "merge uint32_offset_ops (ucast off) p2 (if_data f) = Some data'"
      "list_all (stream_seg unat frag_window st) (pm_map data')" "separated_by unat (pm_map data')"
      "cover_of unat (pm_map data') = {unat off..<e} \<union> cover_of unat (pm_map (if_data f))"
      "fst ` set (pm_map data') \<subseteq> insert (ucast off) (fst ` set (pm_map (if_data f)))"
    using \<open>unat off < e\<close> by (auto simp: frag_stream_def stop_of_def k)
  let ?g = "f\<lparr>if_header := hdr, if_data := data', if_mem_size := pkt_memory env hdr + (\<Sum>(k, q)\<leftarrow>pm_map data'. pkt_memory env q)\<rparr>"
  have "frag_merge env h off p f = Some (if_mem_size ?g - if_mem_size f, ?g)"
    using p1(1) p2(1) m(1) by (simp add: frag_merge_def Let_def)
  then show ?thesis
    using m(2-5) p1(4) by (intro exI [of _ ?g]) (simp add: frag_stream_def frag_memory_def)
qed

section \<open>From host to host\<close>

lemma tx_ip_hdr_ok [simp]: "ip_hdr_ok ((tx_ip_hdr host to proto frag len remaining offset)\<lparr>ip_csum := c\<rparr>)"
  by (simp add: ip_hdr_ok_def tx_ip_hdr_def)

lemma div_8_word: "(a :: u16) div 8 = drop_bit 3 a"
  by (simp add: drop_bit_eq_div)

lemma tx_ip_hdr_simps [simp]:
  "ip_ihl (tx_ip_hdr host to proto frag len remaining offset) = 5"
  "ip_len (tx_ip_hdr host to proto frag len remaining offset) = of_nat len"
  "ip_id (tx_ip_hdr host to proto frag len remaining offset) = 0"
  "ip_proto (tx_ip_hdr host to proto frag len remaining offset) = proto"
  "ip_src (tx_ip_hdr host to proto frag len remaining offset) = host"
  "ip_dst (tx_ip_hdr host to proto frag len remaining offset) = to"
  by (simp_all add: tx_ip_hdr_def)

text \<open>The fragment field: the offset is sent in units of eight bytes, what is below is lost.\<close>

lemma tx_ip_frag [simp]:
  "ip_mf (tx_ip_hdr host to proto frag len remaining offset) \<longleftrightarrow> frag \<and> remaining > 0"
  "ip_offset (tx_ip_hdr host to proto frag len remaining offset) = (if frag then push_bit 3 (drop_bit 3 offset) else 0)"
proof -
  have "\<not> bit (drop_bit 3 offset) 13"
    by (auto simp: bit_simps dest: bit_imp_le_length)
  then show "ip_mf (tx_ip_hdr host to proto frag len remaining offset) \<longleftrightarrow> frag \<and> remaining > 0"
    by (auto simp: tx_ip_hdr_def ip_mf_def bit_simps div_8_word)
  show "ip_offset (tx_ip_hdr host to proto frag len remaining offset) = (if frag then push_bit 3 (drop_bit 3 offset) else 0)"
    by (rule bit_word_eqI) (auto simp: tx_ip_hdr_def ip_offset_def bit_simps div_8_word)
qed

lemma ip_csum_frag [simp]: "ip_mf (h\<lparr>ip_csum := c\<rparr>) = ip_mf h" "ip_offset (h\<lparr>ip_csum := c\<rparr>) = ip_offset h"
  by (simp_all add: ip_mf_def ip_offset_def)

lemma ip_hdr_bytes_csum:
  "ip_hdr_bytes (h\<lparr>ip_csum := c\<rparr>) = take 10 (ip_hdr_bytes h) @ be_bytes c @ drop 12 (ip_hdr_bytes h)"
  by (simp add: ip_hdr_bytes_def)

lemma be_bytes_0: "be_bytes (0 :: u16) = [0, 0]"
  by code_simp

lemma send_header_spec:
  fixes host to proto frag len remaining offset
  defines "h \<equiv> tx_ip_hdr host to proto frag len remaining offset"
  shows "\<exists>c. send_header env to proto host frag len remaining offset = Some (ip_hdr_bytes (h\<lparr>ip_csum := c\<rparr>))
    \<and> (tx_csum_ip_offload (env_hw env) \<or> ip_checksum (ip_hdr_bytes (h\<lparr>ip_csum := c\<rparr>)) = Some 0)"
proof (cases "tx_csum_ip_offload (env_hw env)")
  case True
  then show ?thesis
    by (intro exI [of _ 0]) (simp add: send_header_def h_def tx_ip_hdr_def)
next
  case False
  let ?a = "take 10 (ip_hdr_bytes h)" and ?b = "drop 12 (ip_hdr_bytes h)"
  obtain c where c: "ip_checksum (ip_hdr_bytes h) = Some c"
    using ip_checksum_eq [of "ip_hdr_bytes h"] by simp
  have "h\<lparr>ip_csum := 0\<rparr> = h"
    by (simp add: h_def tx_ip_hdr_def)
  then have h: "ip_hdr_bytes h = ?a @ [0, 0] @ ?b"
    using ip_hdr_bytes_csum [of 0 h] by (simp add: be_bytes_0)
  have "be_bytes (read_be (object_bytes c) :: u16) = object_bytes c"
    by (simp add: be_bytes_read size_of_def)
  then have e: "ip_hdr_bytes (h\<lparr>ip_csum := read_be (object_bytes c)\<rparr>) = ?a @ object_bytes c @ ?b"
    by (simp add: ip_hdr_bytes_csum)
  have "ip_checksum (?a @ object_bytes c @ ?b) = Some 0"
    using c h by (intro ip_checksum_stored) simp_all
  with False c e show ?thesis
    by (intro exI [of _ "read_be (object_bytes c)"]) (simp add: send_header_def h_def Let_def)
qed

text \<open>A frame that carries a well-formed datagram, possibly followed by padding, passes the checks.\<close>

lemma ip_accept_frame:
  assumes wf: "pkt_wf p" and b: "pkt_bytes p = ip_hdr_bytes h @ d @ pad"
    and h: "ip_hdr_ok h" "unat (ip_len h) = 20 + length d" "unat (ip_offset h) + 20 + length d \<le> 65535"
    and c: "rx_csum_offload (env_hw env) \<or> ip_checksum (ip_hdr_bytes h) = Some 0"
  shows "\<exists>q. ip_accept env p = Some (Some (h, q)) \<and> pkt_wf q \<and> pkt_bytes q = ip_hdr_bytes h @ d"
proof -
  obtain q where q: "pkt_get_header 0 20 p = Some (Some (ip_hdr_bytes h), q)" "pkt_bytes q = pkt_bytes p" "pkt_wf q"
    using pkt_get_header_spec [OF wf, of 20 0] by (auto simp: b)
  have len: "pk_len q = 20 + length d + length pad"
    using q(2,3) by (simp add: pkt_wf_def b)
  obtain r where r: "(if pk_len q > 20 + length d then pkt_trim_back (pk_len q - (20 + length d)) q else Some q) = Some r"
    "pkt_wf r" "pkt_bytes r = ip_hdr_bytes h @ d"
  proof (cases "pad = []")
    case False
    then show thesis
      using pkt_trim_back_spec [OF q(3), of "length pad"] that q(2) len by (auto simp: b)
  qed (use that q len in \<open>simp add: b\<close>)
  moreover have "ip_hdr_read (ip_hdr_bytes h) = h"
    using ip_hdr_read_bytes [OF h(1), of "[]"] by simp
  moreover have "pk_len r = 20 + length d"
    using r(2,3) by (simp add: pkt_wf_def)
  ultimately show ?thesis
    using q(1) len h(2,3) c by (auto simp: ip_accept_def Let_def ip_packet_len_max_def)
qed

lemma handle_atomic_datagram:
  assumes "ip_accept env p0 = Some (Some (h, p))" "pkt_wf p" "ip_filter s = None" "ip_dst h = ip_host s"
    "\<not> ip_mf h" "ip_offset h = 0" "has_l4 (ip_proto h)" "unat (ip_ihl h) * 4 \<le> pk_len p"
  shows "\<exists>q. handle_received_packet env now p0 from s = Some ((learn_source h from s)
        \<lparr>ip_out := ip_out s @ [Deliver (ip_proto h) q (ip_src h) (ip_dst h)]\<rparr>)
    \<and> pkt_wf q \<and> pkt_bytes q = drop (unat (ip_ihl h) * 4) (pkt_bytes p)"
proof -
  have f: "ip_filter (learn_source h from s) = None" "ip_host (learn_source h from s) = ip_host s"
    "ip_out (learn_source h from s) = ip_out s"
    using assms(3) by (simp_all add: learn_source_def)
  obtain q where "pkt_trim_front (unat (ip_ihl h) * 4) p = Some q" "pkt_wf q"
    "pkt_bytes q = drop (unat (ip_ihl h) * 4) (pkt_bytes p)"
    using pkt_trim_front_spec [OF assms(2), of "unat (ip_ihl h) * 4"] assms(2,8) by (auto simp: pkt_wf_def)
  then show ?thesis
    using assms(1,4-7) f by (intro exI [of _ q]) (simp add: handle_received_packet_def Let_def)
qed

lemma send_pkt_spec:
  assumes "pkt_wf p" "pkt_room p"
  shows "\<exists>q c. send_pkt env to proto e_dst frag p remaining offset s = Some (s\<lparr>ip_packetq := ip_packetq s @ [(e_dst, q)]\<rparr>)
    \<and> pkt_wf q
    \<and> pkt_bytes q = ip_hdr_bytes ((tx_ip_hdr (ip_host s) to proto frag (pk_len p + 20) remaining offset)\<lparr>ip_csum := c\<rparr>)
        @ pkt_bytes p
    \<and> (tx_csum_ip_offload (env_hw env)
       \<or> ip_checksum (ip_hdr_bytes ((tx_ip_hdr (ip_host s) to proto frag (pk_len p + 20) remaining offset)\<lparr>ip_csum := c\<rparr>)) = Some 0)"
proof -
  let ?h = "tx_ip_hdr (ip_host s) to proto frag (pk_len p + 20) remaining offset"
  obtain c where c: "send_header env to proto (ip_host s) frag (pk_len p + 20) remaining offset
        = Some (ip_hdr_bytes (?h\<lparr>ip_csum := c\<rparr>))"
      "tx_csum_ip_offload (env_hw env) \<or> ip_checksum (ip_hdr_bytes (?h\<lparr>ip_csum := c\<rparr>)) = Some 0"
    using send_header_spec by blast
  obtain q where q: "prepend_header (ip_hdr_bytes (?h\<lparr>ip_csum := c\<rparr>)) p = Some q" "pkt_wf q"
      "pkt_bytes q = ip_hdr_bytes (?h\<lparr>ip_csum := c\<rparr>) @ pkt_bytes p"
    using prepend_header_spec [OF assms] by blast
  have o: "pkt_wf (q\<lparr>pk_offload := x\<rparr>) = pkt_wf q" "pkt_bytes (q\<lparr>pk_offload := x\<rparr>) = pkt_bytes q" for x
    by (simp_all add: pkt_wf_def pkt_bytes_def)
  show ?thesis
    using c q o
    by (cases "tx_csum_ip_offload (env_hw env)") (auto simp: send_pkt_def Let_def)
qed

definition sample_ip_env :: ip_env where
  "sample_ip_env = \<lparr>env_hw = \<lparr>tx_csum_ip_offload = False, tx_csum_l4_offload = False, rx_csum_offload = True,
      rx_lro = False, tx_tso = False, tx_ufo = False, hw_mtu = 1500, max_packet_len = 65535\<rparr>,
    env_rss_key = replicate 40 0x6d, env_dev = \<lparr>dev_hw_queues = 1, dev_rss_table_bits = 0, dev_sw_reta = (\<lambda>_. None)\<rparr>,
    env_cpu = 0, env_mac = [1, 2, 3, 4, 5, 6], env_impl_size = 200\<rparr>"

definition sample_host :: "u32 \<Rightarrow> ipv4" where
  "sample_host a = \<lparr>ip_host = a, ip_gw = 0, ip_netmask = 0, ip_arp = arp_init [1, 2, 3, 4, 5, 6],
    ip_filter = None, ip_frags = [], ip_frags_age = [], ip_frag_mem = 0, ip_frag_timer = False,
    ip_packetq = [], ip_providers = [], ip_provider_idx = 0, ip_out = []\<rparr>"

lemma sample_simps [simp]:
  "rx_csum_offload (env_hw sample_ip_env)" "\<not> tx_csum_ip_offload (env_hw sample_ip_env)" "hw_mtu (env_hw sample_ip_env) = 1500"
  "env_impl_size sample_ip_env = 200" "ip_host (sample_host a) = a" "ip_filter (sample_host a) = None"
  "ip_out (sample_host a) = []" "ip_packetq (sample_host a) = []" "ip_frags (sample_host a) = []"
  by (simp_all add: sample_ip_env_def sample_host_def)

text \<open>An atomic datagram on its way from the sender to the transport protocol of the receiver.\<close>

lemma ip_datagram_arrives:
  assumes "pkt_wf p" "pkt_room p" "\<not> needs_frag p proto (env_hw env)" "pk_len p + 20 \<le> 65535" "has_l4 proto"
    and "\<not> tx_csum_ip_offload (env_hw env) \<or> rx_csum_offload (env_hw env')"
    and "ip_host r = to" "ip_filter r = None"
  shows "\<exists>q. ip_send env to proto p e_dst s = Some (s\<lparr>ip_packetq := ip_packetq s @ [(e_dst, q)]\<rparr>)
    \<and> (\<forall>w pad. pkt_wf w \<and> pkt_bytes w = pkt_bytes q @ pad \<longrightarrow>
        (\<exists>r' d. handle_received_packet env' now w from r = Some r'
          \<and> ip_out r' = ip_out r @ [Deliver proto d (ip_host s) to] \<and> pkt_wf d \<and> pkt_bytes d = pkt_bytes p
          \<and> ip_frags r' = ip_frags r))"
proof -
  let ?h = "\<lambda>c. (tx_ip_hdr (ip_host s) to proto False (pk_len p + 20) 0 0)\<lparr>ip_csum := c\<rparr>"
  obtain q c where q: "send_pkt env to proto e_dst False p 0 0 s = Some (s\<lparr>ip_packetq := ip_packetq s @ [(e_dst, q)]\<rparr>)"
      "pkt_bytes q = ip_hdr_bytes (?h c) @ pkt_bytes p"
      "tx_csum_ip_offload (env_hw env) \<or> ip_checksum (ip_hdr_bytes (?h c)) = Some 0"
    using send_pkt_spec [OF assms(1,2)] by blast
  have len: "length (pkt_bytes p) = pk_len p" "unat (of_nat (pk_len p + 20) :: u16) = pk_len p + 20"
    using assms(1,4) by (simp_all only: pkt_wf_def) (rule of_nat_inverse [OF refl], simp)
  have "\<exists>r' d. handle_received_packet env' now w from r = Some r'
      \<and> ip_out r' = ip_out r @ [Deliver proto d (ip_host s) to] \<and> pkt_wf d \<and> pkt_bytes d = pkt_bytes p
      \<and> ip_frags r' = ip_frags r"
    if w: "pkt_wf w" "pkt_bytes w = pkt_bytes q @ pad" for w pad
  proof -
    obtain v where v: "ip_accept env' w = Some (Some (?h c, v))" "pkt_wf v" "pkt_bytes v = ip_hdr_bytes (?h c) @ pkt_bytes p"
      using ip_accept_frame [OF w(1), of "?h c" "pkt_bytes p" pad env'] w(2) q(2,3) assms(4,6) len
      by auto
    have "pk_len v = 20 + pk_len p"
      using v(2,3) len by (simp add: pkt_wf_def)
    then show ?thesis
      using handle_atomic_datagram [OF v(1,2) assms(8), of now "from"] assms(5,7) v(3)
      by (auto simp: learn_source_def)
  qed
  with q(1) assms(3) show ?thesis
    by (auto simp: ip_send_def)
qed

text \<open>
  C22. A datagram that needs no fragmentation arrives. What \<open>send\<close> puts on the wire for a packet
  \<open>p\<close>, with any link-layer padding behind it, is delivered by the host it is addressed to exactly
  once, to the protocol it was sent with, with the sender's address and exactly the bytes of \<open>p\<close>.
  The IP checksum has to be computed by the sender or its check be offloaded at the receiver.
\<close>

theorem ip_datagram_delivered:
  assumes "pkt_wf p" "pkt_room p" "\<not> needs_frag p proto (env_hw env)" "pk_len p + 20 \<le> 65535" "has_l4 proto"
    and "\<not> tx_csum_ip_offload (env_hw env) \<or> rx_csum_offload (env_hw env')"
    and "ip_host r = to" "ip_filter r = None"
  shows "\<exists>q. ip_send env to proto p e_dst s = Some (s\<lparr>ip_packetq := ip_packetq s @ [(e_dst, q)]\<rparr>)
    \<and> (\<forall>w pad. pkt_wf w \<and> pkt_bytes w = pkt_bytes q @ pad \<longrightarrow>
        (\<exists>r' d. handle_received_packet env' now w from r = Some r'
          \<and> ip_out r' = ip_out r @ [Deliver proto d (ip_host s) to] \<and> pkt_wf d \<and> pkt_bytes d = pkt_bytes p
          \<and> ip_frags r' = ip_frags r))"
  using assms by (rule ip_datagram_arrives)

theorem ip_datagram_delivered_witness:
  "\<exists>q r' d. ip_send sample_ip_env 0x0a000002 17 (pkt_copy [1, 2, 3]) [9, 9, 9, 9, 9, 9] (sample_host 0x0a000001)
      = Some ((sample_host 0x0a000001)\<lparr>ip_packetq := [([9, 9, 9, 9, 9, 9], q)]\<rparr>)
    \<and> handle_received_packet sample_ip_env 0 (pkt_copy (pkt_bytes q @ replicate 23 0)) [8, 8, 8, 8, 8, 8] (sample_host 0x0a000002)
        = Some r' \<and> ip_out r' = [Deliver 17 d 0x0a000001 0x0a000002] \<and> pkt_bytes d = [1, 2, 3]"
proof -
  have n: "\<not> needs_frag (pkt_copy [1, 2, 3]) 17 (env_hw sample_ip_env)" "pk_len (pkt_copy [1, 2, 3]) + 20 \<le> 65535" "has_l4 17"
    using pkt_copy_spec(2) [of "[1, 2, 3]"]
    by (simp_all add: needs_frag_def pkt_wf_def pkt_copy_spec has_l4_def proto_udp_def)
  obtain q where q: "ip_send sample_ip_env 0x0a000002 17 (pkt_copy [1, 2, 3]) [9, 9, 9, 9, 9, 9] (sample_host 0x0a000001)
      = Some ((sample_host 0x0a000001)\<lparr>ip_packetq := [([9, 9, 9, 9, 9, 9], q)]\<rparr>)"
    "\<forall>w pad. pkt_wf w \<and> pkt_bytes w = pkt_bytes q @ pad \<longrightarrow>
      (\<exists>r' d. handle_received_packet sample_ip_env 0 w [8, 8, 8, 8, 8, 8] (sample_host 0x0a000002) = Some r'
        \<and> ip_out r' = [Deliver 17 d 0x0a000001 0x0a000002] \<and> pkt_wf d \<and> pkt_bytes d = [1, 2, 3] \<and> ip_frags r' = [])"
    using ip_datagram_delivered [OF pkt_copy_spec(2,3) n, of sample_ip_env "sample_host 0x0a000002" "0x0a000002"
        "[9, 9, 9, 9, 9, 9]" "sample_host 0x0a000001" 0 "[8, 8, 8, 8, 8, 8]"] by (auto simp: pkt_copy_spec)
  from q(2) [THEN spec, THEN spec, of "pkt_copy (pkt_bytes q @ replicate 23 0)" "replicate 23 0"] q(1) show ?thesis
    by (auto simp: pkt_copy_spec)
qed

text \<open>
  C24. The length of the IP header is not checked against the packet: an atomic datagram for this
  host whose header length field exceeds the packet fails the assertion in \<open>trim_front\<close>, on
  data that any sender controls.
\<close>

theorem ip_header_length_unchecked:
  assumes "pkt_wf p" "pkt_bytes p = ip_hdr_bytes h @ d" "ip_hdr_ok h" "unat (ip_len h) = 20 + length d"
    "rx_csum_offload (env_hw env) \<or> ip_checksum (ip_hdr_bytes h) = Some 0"
    "ip_filter s = None" "ip_dst h = ip_host s" "\<not> ip_mf h" "ip_offset h = 0" "has_l4 (ip_proto h)"
  shows "handle_received_packet env now p from s = None \<longleftrightarrow> 20 + length d < unat (ip_ihl h) * 4"
proof -
  have "20 + length d \<le> 65535"
    using assms(4) unsigned_less [where 'a = nat, of "ip_len h"] by simp
  then obtain v where v: "ip_accept env p = Some (Some (h, v))" "pkt_wf v" "pkt_bytes v = ip_hdr_bytes h @ d"
    using ip_accept_frame [OF assms(1), of h d "[]" env] assms(2-5,9) by auto
  have len: "pk_len v = 20 + length d"
    using v(2,3) by (simp add: pkt_wf_def)
  show ?thesis
  proof (cases "20 + length d < unat (ip_ihl h) * 4")
    case True
    then have "pkt_trim_front (unat (ip_ihl h) * 4) v = None"
      by (simp add: pkt_trim_front_def len)
    with True v(1) assms(6-10) show ?thesis
      by (simp add: handle_received_packet_def Let_def learn_source_def)
  next
    case False
    then have "unat (ip_ihl h) * 4 \<le> pk_len v"
      by (simp add: len)
    from handle_atomic_datagram [OF v(1,2) assms(6-10) this, of now "from"] False show ?thesis
      by auto
  qed
qed

definition sample_ip_hdr :: ip_hdr where
  "sample_ip_hdr = \<lparr>ip_ihl = 5, ip_ver = 4, ip_dscp = 0, ip_ecn = 0, ip_len = 28, ip_id = 0, ip_frag = 0,
    ip_ttl = 64, ip_proto = 17, ip_csum = 0, ip_src = 0x0a000001, ip_dst = 0x0a000002\<rparr>"

theorem ip_header_length_unchecked_witness:
  "handle_received_packet sample_ip_env 0 (pkt_copy (ip_hdr_bytes (sample_ip_hdr\<lparr>ip_ihl := 15\<rparr>) @ replicate 8 1))
      [8, 8, 8, 8, 8, 8] (sample_host 0x0a000002) = None"
  using ip_header_length_unchecked [of "pkt_copy (ip_hdr_bytes (sample_ip_hdr\<lparr>ip_ihl := 15\<rparr>) @ replicate 8 1)"
      "sample_ip_hdr\<lparr>ip_ihl := 15\<rparr>" "replicate 8 1" sample_ip_env "sample_host 0x0a000002" 0 "[8, 8, 8, 8, 8, 8]"]
  by (simp add: pkt_copy_spec sample_ip_env_def sample_host_def sample_ip_hdr_def ip_hdr_ok_def ip_mf_def ip_offset_def
      has_l4_def proto_udp_def)

text \<open>The first fragment of a longer datagram, for the accounting.\<close>

theorem fragment_memory_accounted_witness:
  "\<exists>t. handle_received_packet sample_ip_env 5 (pkt_copy (ip_hdr_bytes (sample_ip_hdr\<lparr>ip_frag := 0x2000\<rparr>) @ replicate 8 7))
      [9, 9, 9, 9, 9, 9] (sample_host 0x0a000002) = Some t
    \<and> frag_ok t \<and> frag_ok (frag_timeout 40 t) \<and> frag_ok (frag_limit_mem t)"
proof -
  let ?h = "sample_ip_hdr\<lparr>ip_frag := 0x2000\<rparr>" and ?s = "sample_host 0x0a000002"
  let ?p = "pkt_copy (ip_hdr_bytes ?h @ replicate 8 7)"
  have h: "ip_hdr_ok ?h" "unat (ip_len ?h) = 20 + length (replicate 8 7 :: bytes)" "ip_offset ?h = 0" "ip_mf ?h"
      "ip_dst ?h = 0x0a000002" "unat (ip_ihl ?h) * 4 = 20"
    by (simp_all add: sample_ip_hdr_def ip_hdr_ok_def ip_offset_def ip_mf_def bit_simps)
  obtain v where v: "ip_accept sample_ip_env ?p = Some (Some (?h, v))" "pkt_wf v" "pkt_bytes v = ip_hdr_bytes ?h @ replicate 8 7"
    using ip_accept_frame [OF pkt_copy_spec(2), of "ip_hdr_bytes ?h @ replicate 8 7" ?h "replicate 8 7" "[]" sample_ip_env] h
    by (auto simp: pkt_copy_spec)
  have "frag_stream (\<lambda>_. 7) new_fragment"
    by (simp add: frag_stream_def new_fragment_def separated_by_def)
  then have n: "frag_stream (\<lambda>_. 7) (new_fragment\<lparr>if_rx_time := 5\<rparr>)"
    by (simp add: frag_stream_def)
  obtain g where "frag_merge sample_ip_env ?h 0 v (new_fragment\<lparr>if_rx_time := 5\<rparr>) = Some (if_mem_size g - 0, g)"
      "if_last g = False" "cover_of unat (pm_map (if_data g)) = {0..<8}"
    using frag_merge_spec [OF v(2) _ _ _ n, of ?h 0 8 sample_ip_env] v(3) h(6)
    by (auto simp: piece_def map_replicate_const new_fragment_def cover_of_def)
  moreover from this(3) have "frag_is_complete g \<noteq> None" "frag_is_complete g \<noteq> Some True"
    using calculation(2) by (auto simp: frag_is_complete_def cover_of_def split: list.splits)
  moreover have "frag_limit_mem (learn_source ?h [9, 9, 9, 9, 9, 9] ?s) = learn_source ?h [9, 9, 9, 9, 9, 9] ?s"
    by (simp add: frag_limit_mem_def learn_source_def sample_host_def)
  moreover have "get_frag i (learn_source ?h [9, 9, 9, 9, 9, 9] ?s) = new_fragment" for i
    by (simp add: get_frag_def learn_source_def)
  ultimately have "handle_received_packet sample_ip_env 5 ?p [9, 9, 9, 9, 9, 9] ?s \<noteq> None"
    using v(1) h(3-5)
    by (auto simp: handle_received_packet_def receive_fragment_def Let_def learn_source_def new_fragment_def
        split: option.splits bool.splits)
  then obtain t where "handle_received_packet sample_ip_env 5 ?p [9, 9, 9, 9, 9, 9] ?s = Some t"
    by auto
  moreover have "frag_ok ?s"
    by (simp add: frag_ok_def sample_host_def frag_total_def)
  ultimately show ?thesis
    using fragment_memory_accounted by blast
qed

end
