(* ===== verification/Ip_Reassembly.thy ===== *)
theory Ip_Reassembly
  imports Ipv4 "HOL-Library.Multiset"
begin

text \<open>
  Fragmentation and reassembly from end to end: what \<open>ipv4::send\<close> cuts into fragments is put
  together again by \<open>ipv4::handle_received_packet\<close>, in whatever order the fragments arrive.

  \<^item> \<open>frag_cuts\<close> are the positions at which a datagram is cut; \<open>send_frags_spec\<close> relates the
    sending loop to them.
  \<^item> \<open>reasm\<close> is the invariant of a receiver that has some of the fragments; \<open>receive_step\<close>
    shows that one more fragment extends it, or completes and delivers the datagram.
\<close>

section \<open>Cutting\<close>

function frag_cuts :: "nat \<Rightarrow> nat \<Rightarrow> nat \<Rightarrow> (nat \<times> nat) list" where
  "frag_cuts k a n = (if a < n \<and> 0 < k then (a, min (a + k) n) # frag_cuts k (min (a + k) n) n else [])"
  by pat_completeness auto
termination
  by (relation "measure (\<lambda>(k, a, n). n - a)") auto

declare frag_cuts.simps [simp del]

lemma frag_cuts_range:
  "(x, y) \<in> set (frag_cuts k a n) \<Longrightarrow> a \<le> x \<and> x < y \<and> y = min (x + k) n \<and> k dvd x - a"
proof (induction k a n rule: frag_cuts.induct)
  case (1 k a n)
  show ?case
  proof (cases "a < n \<and> 0 < k")
    case True
    then consider "x = a" "y = min (a + k) n" | "(x, y) \<in> set (frag_cuts k (min (a + k) n) n)"
      using "1.prems" by (subst (asm) frag_cuts.simps) auto
    then show ?thesis
    proof cases
      case 2
      with "1.IH" [OF True] have i: "min (a + k) n \<le> x" "x < y" "y = min (x + k) n" "k dvd x - min (a + k) n"
        by auto
      then have k: "a + k \<le> x" "min (a + k) n = a + k"
        by auto
      then have "x - a = (x - (a + k)) + k"
        by simp
      then have "k dvd x - a"
        using i(4) k(2) by (simp only: dvd_add_triv_right_iff)
      then show ?thesis
        using i k by auto
    qed (use True in auto)
  qed (use "1.prems" in \<open>subst (asm) frag_cuts.simps, auto\<close>)
qed

lemma frag_cuts_sorted: "sorted_wrt (\<lambda>s t. snd s \<le> fst t) (frag_cuts k a n)"
proof (induction k a n rule: frag_cuts.induct)
  case (1 k a n)
  then show ?case
    by (subst frag_cuts.simps) (auto dest: frag_cuts_range)
qed

lemma frag_cuts_cover:
  "0 < k \<Longrightarrow> (\<Union>(x, y) \<in> set (frag_cuts k a n). {x..<y}) = {a..<n}"
proof (induction k a n rule: frag_cuts.induct)
  case (1 k a n)
  show ?case
  proof (cases "a < n")
    case True
    with 1 have "(\<Union>(x, y) \<in> set (frag_cuts k a n). {x..<y}) = {a..<min (a + k) n} \<union> {min (a + k) n..<n}"
      by (subst frag_cuts.simps) auto
    then show ?thesis
      using True by auto
  qed (simp add: frag_cuts.simps)
qed

lemma frag_cuts_disjoint:
  assumes "(x, y) \<in> set (frag_cuts k a n)" "(u, v) \<in> set (frag_cuts k a n)" "(x, y) \<noteq> (u, v)"
  shows "{x..<y} \<inter> {u..<v} = {}"
proof -
  obtain i j where "i < length (frag_cuts k a n)" "frag_cuts k a n ! i = (x, y)"
      "j < length (frag_cuts k a n)" "frag_cuts k a n ! j = (u, v)"
    using assms(1,2) by (metis in_set_conv_nth)
  moreover from this assms(3) have "i < j \<or> j < i"
    by (metis nat_neq_iff)
  ultimately have "y \<le> u \<or> v \<le> x"
    using frag_cuts_sorted [of k a n] by (auto simp: sorted_wrt_iff_nth_less) (metis fst_conv snd_conv)+
  then show ?thesis
    by auto
qed

lemma frag_cuts_distinct: "distinct (frag_cuts k a n)"
proof (induction k a n rule: frag_cuts.induct)
  case (1 k a n)
  then show ?case
    by (subst frag_cuts.simps) (auto dest: frag_cuts_range)
qed

section \<open>Sending\<close>

definition frag_hdr :: "u32 \<Rightarrow> u32 \<Rightarrow> u8 \<Rightarrow> nat \<Rightarrow> nat \<times> nat \<Rightarrow> ip_hdr" where
  "frag_hdr host to proto n c = tx_ip_hdr host to proto True (snd c - fst c + 20) (of_nat (n - snd c)) (of_nat (fst c))"

definition frag_frame :: "bool \<Rightarrow> u32 \<Rightarrow> u32 \<Rightarrow> u8 \<Rightarrow> bytes \<Rightarrow> bytes \<Rightarrow> nat \<times> nat \<Rightarrow> bool" where
  "frag_frame offload host to proto d bs c \<longleftrightarrow> (\<exists>cs.
    let h = (frag_hdr host to proto (length d) c)\<lparr>ip_csum := cs\<rparr> in
    bs = ip_hdr_bytes h @ take (snd c - fst c) (drop (fst c) d)
    \<and> (offload \<or> ip_checksum (ip_hdr_bytes h) = Some 0))"

lemma pkt_share_room: "pkt_share off n p = Some (s, q) \<Longrightarrow> pkt_room s"
proof -
  assume "pkt_share off n p = Some (s, q)"
  then obtain ds where "s = (allocate_if_needed pkt_empty (length (pk_frags (unuse_internal_data p))))
      \<lparr>pk_frags := map external ds, pk_len := sum_list (map length ds), pk_offload := pk_offload (unuse_internal_data p)\<rparr>"
    by (auto simp: pkt_share_def Let_def split: option.splits)
  moreover have "pkt_room (allocate_if_needed pkt_empty m)" for m
    by (simp add: pkt_empty_spec)
  ultimately show ?thesis
    by (simp add: pkt_room_def frags_room_outside)
qed

lemma send_frags_spec:
  assumes "20 < unat (hw_mtu (env_hw env))" "length d \<le> 65515" "a \<le> length d" "pkt_wf p" "pkt_bytes p = d"
  shows "\<exists>qs. send_frags env to proto e_dst p (of_nat (length d - a)) (of_nat a) s
      = Some (s\<lparr>ip_packetq := ip_packetq s @ map (Pair e_dst) qs\<rparr>) \<and> list_all pkt_wf qs
    \<and> list_all2 (\<lambda>q. frag_frame (tx_csum_ip_offload (env_hw env)) (ip_host s) to proto d (pkt_bytes q)) qs
        (frag_cuts (unat (hw_mtu (env_hw env)) - 20) a (length d))"
  using assms(3-)
proof (induction "unat (hw_mtu (env_hw env)) - 20" a "length d" arbitrary: p s rule: frag_cuts.induct)
  case (1 a)
  let ?k = "unat (hw_mtu (env_hw env)) - 20" and ?n = "length d"
  show ?case
  proof (cases "a < ?n")
    case False
    with 1 have "a = ?n"
      by simp
    then show ?thesis
      by (intro exI [of _ "[]"]) (simp add: send_frags.simps frag_cuts.simps)
  next
    case True
    define y where "y = min (a + ?k) ?n"
    let ?rem = "of_nat (?n - a) :: u16" and ?can = "min (hw_mtu (env_hw env) - 20) (of_nat (length d - a))"
    have y: "a < y" "y \<le> ?n"
      using True assms(1) by (auto simp: y_def)
    have u: "unat (of_nat m :: u16) = m" if "m \<le> ?n" for m
      using that assms(2) by (intro of_nat_inverse [OF refl]) simp
    have can: "unat ?can = y - a"
    proof -
      have "unat (hw_mtu (env_hw env) - 20) = ?k"
        using assms(1) by (simp add: unat_sub word_le_nat_alt)
      with u [of "?n - a"] show ?thesis
        by (auto simp: min_def word_le_nat_alt y_def)
    qed
    have can': "?can = of_nat (y - a)"
      using arg_cong [OF can, of "of_nat :: nat \<Rightarrow> u16"] by simp
    have nz: "?rem \<noteq> 0" "?can \<noteq> 0"
      using u [of "?n - a"] True can y(1) by (auto simp flip: unat_eq_0)
    have w: "?rem - ?can = of_nat (?n - y)" "of_nat a + ?can = (of_nat y :: u16)"
      unfolding can' using y True by (simp_all flip: of_nat_diff of_nat_add)
    obtain q p' where q: "pkt_share a (y - a) p = Some (q, p')" "pkt_bytes q = take (y - a) (drop a d)"
        "pkt_bytes p' = d" "pkt_wf q" "pkt_wf p'"
      using pkt_share_spec [OF 1(3), of a "y - a"] 1(4) y by auto
    have len: "pk_len q = y - a"
      using q(2,4) y by (simp add: pkt_wf_def)
    obtain r c where r: "send_pkt env to proto e_dst True q (of_nat (?n - y)) (of_nat a) s
          = Some (s\<lparr>ip_packetq := ip_packetq s @ [(e_dst, r)]\<rparr>)" "pkt_wf r"
        "frag_frame (tx_csum_ip_offload (env_hw env)) (ip_host s) to proto d (pkt_bytes r) (a, y)"
      using send_pkt_spec [OF q(4) pkt_share_room [OF q(1)], of env to proto e_dst True "of_nat (?n - y)" "of_nat a" s] q(2)
      by (auto simp: frag_frame_def frag_hdr_def Let_def len)
    let ?s = "s\<lparr>ip_packetq := ip_packetq s @ [(e_dst, r)]\<rparr>"
    have ua: "unat (of_nat a :: u16) = a"
      using u [of a] True by simp
    obtain qs where qs: "send_frags env to proto e_dst p' (of_nat (?n - y)) (of_nat y) ?s
          = Some (?s\<lparr>ip_packetq := ip_packetq ?s @ map (Pair e_dst) qs\<rparr>)" "list_all pkt_wf qs"
        "list_all2 (\<lambda>q. frag_frame (tx_csum_ip_offload (env_hw env)) (ip_host ?s) to proto d (pkt_bytes q)) qs (frag_cuts ?k y ?n)"
      using 1(1) [of p' ?s] True assms(1) y(2) q(3,5) by (auto simp: y_def)
    have "send_frags env to proto e_dst p ?rem (of_nat a) s
        = send_frags env to proto e_dst p' (of_nat (?n - y)) (of_nat y) ?s"
      using nz can q(1) r(1) w
      by (subst send_frags.simps) (simp add: Let_def ua)
    moreover have "frag_cuts ?k a ?n = (a, y) # frag_cuts ?k y ?n"
      using True assms(1) by (subst frag_cuts.simps) (simp add: y_def)
    ultimately show ?thesis
      using qs r(2,3) by (intro exI [of _ "r # qs"]) simp
  qed
qed

section \<open>What the receiver has\<close>

abbreviation extent :: "(nat \<times> nat) set \<Rightarrow> nat set" where
  "extent D \<equiv> (\<Union>(x, y) \<in> D. {x..<y})"

definition reasm :: "ip_env \<Rightarrow> bytes \<Rightarrow> (nat \<times> nat) set \<Rightarrow> ip_fragment \<Rightarrow> bool" where
  "reasm env d D f \<longleftrightarrow> frag_stream (\<lambda>i. d ! i) f \<and> cover_of unat (pm_map (if_data f)) = extent D
    \<and> fst ` set (pm_map (if_data f)) \<subseteq> (\<lambda>(x, y). of_nat x) ` D
    \<and> (if_last f \<longleftrightarrow> length d \<in> snd ` D) \<and> pk_len (if_header f) \<le> 20
    \<and> if_mem_size f = (if D = {} then 0 else frag_memory env f)"

definition pieces_of :: "nat \<Rightarrow> (nat \<times> nat) set \<Rightarrow> bool" where
  "pieces_of n D \<longleftrightarrow> finite D \<and> (\<forall>(x, y) \<in> D. x < y \<and> y \<le> n)"

lemma pieces_ofD: "pieces_of n D \<Longrightarrow> (x, y) \<in> D \<Longrightarrow> x < y \<and> y \<le> n"
  by (auto simp: pieces_of_def)

lemma extentI: "(x, y) \<in> D \<Longrightarrow> x \<le> i \<Longrightarrow> i < y \<Longrightarrow> i \<in> extent D"
  by (rule UN_I) auto

lemma extent_bound: "pieces_of n D \<Longrightarrow> extent D \<subseteq> {0..<n}"
  by (auto dest: pieces_ofD)

lemma reasm_new: "reasm env d {} new_fragment"
  by (simp add: reasm_def new_fragment_def frag_stream_def separated_by_def cover_of_def pkt_empty_def impl_allocate_def)

lemma separated_sum:
  "separated_by unat m \<Longrightarrow> (\<Sum>(k, q)\<leftarrow>m. pk_len q) = card (cover_of unat m)"
proof (induction m)
  case (Cons s m)
  have "{unat (fst s)..<stop_of unat s} \<inter> cover_of unat m = {}"
    using Cons.prems by (auto simp: separated_by_def cover_of_def)
  moreover have "finite (cover_of unat m)"
    by (simp add: cover_of_def)
  moreover have "cover_of unat (s # m) = {unat (fst s)..<stop_of unat s} \<union> cover_of unat m"
    by (auto simp: cover_of_def)
  ultimately have "card (cover_of unat (s # m)) = pk_len (snd s) + card (cover_of unat m)"
    by (simp add: card_Un_disjoint stop_of_def)
  with Cons show ?case
    by (simp add: separated_by_def split: prod.splits)
qed (simp add: cover_of_def)

lemma separated_distinct: "separated_by unat m \<Longrightarrow> distinct (map fst m)"
  by (induction m) (auto simp: separated_by_def stop_of_def)

lemma reasm_memory:
  assumes r: "reasm env d D f" and D: "pieces_of (length d) D" "D \<noteq> {}"
    and room: "(card D + 1) * env_impl_size env + length d + 20 \<le> unat frag_high_thresh"
  shows "if_mem_size f \<noteq> 0 \<and> if_mem_size f \<le> frag_high_thresh"
proof -
  let ?m = "pm_map (if_data f)" and ?i = "env_impl_size env"
  let ?N = "pk_len (if_header f) + ?i + (\<Sum>(k, q)\<leftarrow>?m. pk_len q + ?i)"
  have sum: "(\<Sum>(k, q)\<leftarrow>m. pk_len q + ?i) = (\<Sum>(k, q)\<leftarrow>m. pk_len q) + length m * ?i" for m :: "(u32 \<times> pkt) list"
    by (induction m) auto
  have mem: "if_mem_size f = of_nat ?N"
  proof -
    have "(\<Sum>(k, q)\<leftarrow>m. pkt_memory env q) = of_nat (\<Sum>(k, q)\<leftarrow>m. pk_len q + ?i)" for m :: "(u32 \<times> pkt) list"
      by (induction m) (auto simp: pkt_memory_def)
    with r D(2) show ?thesis
      by (simp add: reasm_def frag_memory_def pkt_memory_def)
  qed
  have sep: "distinct (map fst ?m)" "separated_by unat ?m"
    using r separated_distinct by (auto simp: reasm_def frag_stream_def)
  have "card (fst ` set ?m) \<le> card ((\<lambda>(x, y). of_nat x :: u32) ` D)"
    using r D(1) by (intro card_mono) (auto simp: reasm_def pieces_of_def)
  moreover have "card ((\<lambda>(x, y). of_nat x :: u32) ` D) \<le> card D"
    using D(1) by (intro card_image_le) (simp add: pieces_of_def)
  ultimately have len: "length ?m \<le> card D" and lens: "(\<Sum>(k, q)\<leftarrow>?m. pk_len q) = card (extent D)"
    using separated_sum [OF sep(2)] sep(1) r distinct_card [of "map fst ?m"] by (simp_all add: reasm_def)
  obtain x y where "(x, y) \<in> D"
    using D(2) by fastforce
  then have "x \<in> extent D"
    using pieces_ofD [OF D(1)] by (intro extentI) auto
  moreover note ext = extent_bound [OF D(1)]
  ultimately have "0 < card (extent D)" "card (extent D) \<le> length d"
    using card_mono [OF _ ext] finite_subset [OF ext] by (auto simp: card_gt_0_iff)
  moreover have "pk_len (if_header f) \<le> 20"
    using r by (simp add: reasm_def)
  moreover have "length ?m * ?i \<le> card D * ?i"
    using len by (rule mult_le_mono1)
  moreover have "(card D + 1) * ?i = card D * ?i + ?i"
    by simp
  ultimately have N: "0 < ?N" "?N \<le> unat frag_high_thresh"
    using room unfolding sum lens by linarith+
  then have "unat (of_nat ?N :: u32) = ?N"
    by (intro of_nat_inverse [OF refl]) (simp add: frag_high_thresh_def)
  with N mem show ?thesis
    by (metis word_le_nat_alt less_irrefl unat_0)
qed

text \<open>Completeness is recognised exactly when every position is there.\<close>

lemma reasm_complete:
  assumes r: "reasm env d D f" and D: "pieces_of (length d) D" "D \<noteq> {}" and n: "length d < 2 ^ 16"
  shows "frag_is_complete f = Some (extent D = {0..<length d})"
    and "extent D = {0..<length d} \<Longrightarrow> \<exists>q. pm_map (if_data f) = [(0, q)] \<and> pkt_wf q \<and> pkt_bytes q = d"
proof -
  let ?m = "pm_map (if_data f)"
  have c: "cover_of unat ?m = extent D" and sep: "separated_by unat ?m"
      and seg: "list_all (stream_seg unat frag_window (\<lambda>i. d ! i)) ?m"
    using r by (auto simp: reasm_def frag_stream_def)
  obtain x y where xy: "(x, y) \<in> D"
    using D(2) by fastforce
  then have x: "x \<in> extent D" "0 < length d"
    using pieces_ofD [OF D(1) xy] extentI [OF xy, of x] by linarith+
  then obtain s m where m: "?m = s # m"
    using c by (cases ?m) (auto simp: cover_of_def)
  have low: "unat (fst t) < length d" if "t \<in> set ?m" for t
  proof -
    have "fst t \<in> (\<lambda>(x, y). of_nat x) ` D"
      using r that by (auto simp: reasm_def)
    then obtain u v where u: "(u, v) \<in> D" "fst t = of_nat u"
      by auto
    then have "u < length d"
      using pieces_ofD [OF D(1) u(1)] by simp
    moreover from this n have "unat (of_nat u :: u32) = u"
      by (intro of_nat_inverse [OF refl]) simp
    ultimately show ?thesis
      by (simp add: u)
  qed
  have full: "m = [] \<and> unat (fst s) = 0 \<and> stop_of unat s = length d" if e: "extent D = {0..<length d}"
  proof -
    have "m = []"
    proof (cases m)
      case (Cons t m')
      then have "stop_of unat s < unat (fst t)"
        using sep m by (simp add: separated_by_def)
      then have "stop_of unat s \<in> cover_of unat ?m"
        using low [of t] Cons m c e by simp
      then show ?thesis
        using sep by (auto simp: m cover_of_def separated_by_def)
    qed
    moreover from this have i: "{unat (fst s)..<stop_of unat s} = {0..<length d}"
      using c e m by (simp add: cover_of_def)
    moreover from i x(2) have "0 \<in> {unat (fst s)..<stop_of unat s}"
      by simp
    then have "unat (fst s) = 0"
      by simp
    moreover have "stop_of unat s - unat (fst s) = length d"
      using arg_cong [OF i, of card] by (simp only: card_atLeastLessThan)
    ultimately show ?thesis
      by simp
  qed
  have l: "length d \<in> snd ` D" if "length d - 1 \<in> extent D"
  proof -
    from that obtain u v where "(u, v) \<in> D" "length d - 1 < v"
      by auto
    moreover from this have "v \<le> length d"
      using pieces_ofD [OF D(1)] by blast
    ultimately show ?thesis
      using x(2) by (intro image_eqI [of _ _ "(u, v)"]) auto
  qed
  have all: "extent D = {0..<length d}" if one: "length d \<in> snd ` D" "m = []" "fst s = 0"
  proof -
    have e: "extent D = {0..<stop_of unat s}"
      using c m one(2,3) by (simp add: cover_of_def)
    obtain u where u: "(u, length d) \<in> D"
      using one(1) by auto
    then have "length d - 1 \<in> extent D"
      using pieces_ofD [OF D(1) u] by (intro extentI [OF u]) auto
    then have "length d \<le> stop_of unat s"
      unfolding e by auto
    moreover note extent_bound [OF D(1)]
    ultimately show ?thesis
      unfolding e by auto
  qed
  show "frag_is_complete f = Some (extent D = {0..<length d})"
  proof (cases "extent D = {0..<length d}")
    case True
    with full l x(2) r show ?thesis
      by (cases s) (auto simp: frag_is_complete_def m reasm_def unat_eq_0)
  next
    case False
    with all r show ?thesis
      by (cases s) (auto simp: frag_is_complete_def m reasm_def)
  qed
  assume e: "extent D = {0..<length d}"
  then have "holds (\<lambda>i. d ! i) 0 (length d) (snd s)"
    using full [OF e] seg by (simp add: m stream_seg_def)
  with full [OF e] show "\<exists>q. ?m = [(0, q)] \<and> pkt_wf q \<and> pkt_bytes q = d"
    by (cases s) (auto simp: m holds_def piece_def map_nth unat_eq_0)
qed

section \<open>Receiving\<close>

definition holding :: "ip_env \<Rightarrow> bytes \<Rightarrow> frag_id \<Rightarrow> (nat \<times> nat) set \<Rightarrow> ipv4 \<Rightarrow> bool" where
  "holding env d i D s \<longleftrightarrow> (\<exists>f. reasm env d D f \<and> ip_frags s = (if D = {} then [] else [(i, f)])
    \<and> (D = {} \<longrightarrow> f = new_fragment) \<and> ip_frag_mem s = if_mem_size f)"

lemma reassembled_cpu_own:
  assumes "pkt_wf p" "4 \<le> length (env_rss_key env)" "\<forall>x. hash2cpu (env_dev env) x = Some (env_cpu env)"
  shows "\<exists>q. reassembled_cpu env h p = Some (env_cpu env, q) \<and> pkt_wf q \<and> pkt_bytes q = pkt_bytes p"
proof -
  let ?d = "object_bytes (hton (ip_src h)) @ object_bytes (hton (ip_dst h))"
  have len: "length ?d = 8"
    by (simp add: size_of_def)
  let ?n = "if ip_proto h = proto_tcp then 20 else 8 :: nat"
  have pos: "0 < ?n"
    by simp
  obtain q where "pkt_get_header 0 ?n p = Some (if 0 + ?n \<le> length (pkt_bytes p) then Some (take ?n (drop 0 (pkt_bytes p))) else None, q)"
      "pkt_bytes q = pkt_bytes p" "pkt_wf q"
    using pkt_get_header_spec [OF assms(1) pos, of 0] by blast
  then have "\<exists>d' r. l4_forward (ip_proto h) 0 p ?d = Some (d', r) \<and> (r = p \<or> r = q)"
    by (cases "ip_proto h = proto_icmp"; cases "0 + ?n \<le> length (pkt_bytes p)") (simp_all add: l4_forward_def len del: length_append)
  then obtain d' r where q: "l4_forward (ip_proto h) 0 p ?d = Some (d', r)" "pkt_wf r" "pkt_bytes r = pkt_bytes p"
    using assms(1) \<open>pkt_wf q\<close> \<open>pkt_bytes q = pkt_bytes p\<close> by auto
  have "Option.bind (fh_push32 (hton (ip_src h)) []) (fh_push32 (hton (ip_dst h))) = Some ?d"
    by (simp add: fh_push32_bytes size_of_def)
  with q assms(2,3) show ?thesis
    by (simp add: reassembled_cpu_def toeplitz_hash_spec)
qed

lemma word_offset_8: "8 dvd x \<Longrightarrow> push_bit 3 (drop_bit 3 (of_nat x :: u16)) = of_nat x"
proof -
  assume "8 dvd x"
  then have "take_bit 3 (of_nat x :: u16) = of_nat 0"
    unfolding take_bit_of_nat by (simp add: take_bit_eq_mod)
  then show ?thesis
    using bits_ident [of 3 "of_nat x :: u16"] by simp
qed

lemma frag_hdr_simps [simp]:
  assumes "8 dvd x" "x < y" "y \<le> n" "n < 2 ^ 16"
  shows "ip_offset (frag_hdr host to proto n (x, y)) = of_nat x"
    "ip_mf (frag_hdr host to proto n (x, y)) \<longleftrightarrow> y < n"
    "frag_id_of ((frag_hdr host to proto n (x, y))\<lparr>ip_csum := c\<rparr>) = frag_id_of (tx_ip_hdr host to proto True 0 0 0)"
proof -
  have "(0 :: u16) < of_nat (n - y) \<longleftrightarrow> y < n"
    using of_nat_inverse [OF refl, of "n - y", where 'a = 16] assms(4) by (auto simp: word_less_nat_alt)
  then show "ip_offset (frag_hdr host to proto n (x, y)) = of_nat x"
    "ip_mf (frag_hdr host to proto n (x, y)) \<longleftrightarrow> y < n"
    "frag_id_of ((frag_hdr host to proto n (x, y))\<lparr>ip_csum := c\<rparr>) = frag_id_of (tx_ip_hdr host to proto True 0 0 0)"
    using assms by (simp_all add: frag_hdr_def word_offset_8 frag_id_of_def)
qed

text \<open>One more fragment, not the one that completes the datagram or the one that does.\<close>

lemma receive_step:
  fixes host to proto d x y c
  defines "h \<equiv> (frag_hdr host to proto (length d) (x, y))\<lparr>ip_csum := c\<rparr>"
    and "i \<equiv> frag_id_of (tx_ip_hdr host to proto True 0 0 0)"
  assumes s: "holding env d i D s" and D: "pieces_of (length d) D"
    and xy: "8 dvd x" "x < y" "y \<le> length d" and n: "length d < 2 ^ 16"
    and p: "pkt_wf p" "pkt_bytes p = ip_hdr_bytes h @ take (y - x) (drop x d)"
    and room: "(card (insert (x, y) D) + 1) * env_impl_size env + length d + 20 \<le> unat frag_high_thresh"
  shows "extent (insert (x, y) D) \<noteq> {0..<length d} \<Longrightarrow>
      \<exists>t. receive_fragment env now h p from s = Some t \<and> holding env d i (insert (x, y) D) t
        \<and> ip_out t = ip_out s \<and> ip_host t = ip_host s \<and> ip_filter t = ip_filter s"
    and "extent (insert (x, y) D) = {0..<length d} \<Longrightarrow> has_l4 proto \<Longrightarrow>
      4 \<le> length (env_rss_key env) \<Longrightarrow> \<forall>x. hash2cpu (env_dev env) x = Some (env_cpu env) \<Longrightarrow>
      \<exists>t q. receive_fragment env now h p from s = Some t \<and> ip_frags t = [] \<and> ip_frag_mem t = 0
        \<and> ip_out t = ip_out s @ [Deliver proto q host to] \<and> pkt_wf q \<and> pkt_bytes q = d"
proof -
  let ?D = "insert (x, y) D"
  obtain f where f: "reasm env d D f" "ip_frags s = (if D = {} then [] else [(i, f)])"
      "D = {} \<longrightarrow> f = new_fragment" "ip_frag_mem s = if_mem_size f"
    using s by (auto simp: holding_def)
  have D': "pieces_of (length d) ?D" "?D \<noteq> {}"
    using D xy by (auto simp: pieces_of_def)
  have "card D \<le> card ?D"
    using D by (intro card_mono) (auto simp: pieces_of_def)
  then have roomD: "(card D + 1) * env_impl_size env + length d + 20 \<le> unat frag_high_thresh"
    using room mult_le_mono1 [of "card D + 1" "card ?D + 1" "env_impl_size env"] by linarith
  have lim: "frag_limit_mem s = s" and zero: "if_mem_size f = 0 \<longleftrightarrow> D = {}"
    using reasm_memory [OF f(1) D _ roomD] f(1,4) by (auto simp: frag_limit_mem_def reasm_def frag_high_thresh_def)
  have get: "get_frag i s = f"
    using f(2,3) by (simp add: get_frag_def)
  define f1 where "f1 = (if ip_mf h then f else f\<lparr>if_last := True\<rparr>)"
  define f2 where "f2 = (if if_mem_size f1 = 0 then f1\<lparr>if_rx_time := now\<rparr> else f1)"
  have h: "ip_offset h = of_nat x" "ip_mf h \<longleftrightarrow> y < length d" "frag_id_of h = i" "unat (ip_ihl h) * 4 = 20"
      "ip_proto h = proto" "ip_src h = host" "ip_dst h = to"
    using xy n by (simp_all add: h_def i_def) (simp_all add: frag_hdr_def)
  have f2: "if_data f2 = if_data f" "if_header f2 = if_header f" "if_mem_size f2 = if_mem_size f"
      "if_last f2 \<longleftrightarrow> if_last f \<or> \<not> y < length d"
    using h(2) by (simp_all add: f1_def f2_def)
  have u: "unat (of_nat x :: u16) = x" "unat (of_nat x :: u32) = x"
    using xy n by (auto intro!: of_nat_inverse [OF refl])
  then have "(ucast (of_nat x :: u16) :: u32) = of_nat x"
    using xy n by (simp only: word_unat_eq_iff unsigned_ucast_eq) (simp add: take_bit_nat_eq_self)
  note ux = u(1) this
  have "take (y - x) (drop x d) = piece (\<lambda>i. d ! i) x y"
    using xy by (intro nth_equalityI) (auto simp: piece_def)
  then have "unat (ip_ihl h) * 4 < length (pkt_bytes p)" "y < 2 ^ 32" "frag_stream (\<lambda>i. d ! i) f2"
      "drop (unat (ip_ihl h) * 4) (pkt_bytes p) = piece (\<lambda>i. d ! i) (unat (of_nat x :: u16)) y"
    using f(1) p(2) xy n h(4) u(1) by (simp_all add: reasm_def frag_stream_def f2)
  note spec = frag_merge_spec [OF p(1) this(1,4,2,3), of env, unfolded ux f2 h(4)]
  obtain g where g: "frag_merge env h (of_nat x) p f2 = Some (if_mem_size g - if_mem_size f, g)" "frag_stream (\<lambda>i. d ! i) g"
      "cover_of unat (pm_map (if_data g)) = {x..<y} \<union> cover_of unat (pm_map (if_data f))"
      "fst ` set (pm_map (if_data g)) \<subseteq> insert (of_nat x) (fst ` set (pm_map (if_data f)))"
      "if_last g = if_last f2" "if_mem_size g = frag_memory env g"
      "pk_len (if_header g) = 20 \<or> if_header g = if_header f"
    using spec f2(4) by blast
  have fD: "fst ` set (pm_map (if_data f)) \<subseteq> (\<lambda>(x, y). of_nat x) ` D" "cover_of unat (pm_map (if_data f)) = extent D"
      "if_last f \<longleftrightarrow> length d \<in> snd ` D" "pk_len (if_header f) \<le> 20"
    using f(1) by (simp_all add: reasm_def)
  have "if_last g \<longleftrightarrow> length d \<in> snd ` ?D"
    using fD(3) xy(3) g(5) f2(4) by auto
  moreover have "fst ` set (pm_map (if_data g)) \<subseteq> (\<lambda>(x, y). of_nat x) ` ?D"
    using subset_trans [OF g(4) insert_mono [OF fD(1)]] by simp
  moreover have "pk_len (if_header g) \<le> 20"
    using g(7) fD(4) by auto
  ultimately have rg: "reasm env d ?D g"
    using g(2,3,6) fD(2) by (simp add: reasm_def)
  define s2 where "s2 = (put_frag i g s)\<lparr>ip_frags_age := (if if_mem_size f1 = 0 then ip_frags_age s @ [i] else ip_frags_age s),
      ip_frag_mem := ip_frag_mem s + (if_mem_size g - if_mem_size f)\<rparr>"
  have s2: "ip_frags s2 = [(i, g)]" "ip_frag_mem s2 = if_mem_size g" "ip_out s2 = ip_out s" "ip_host s2 = ip_host s"
      "ip_filter s2 = ip_filter s"
    using f(2,4) by (simp_all add: s2_def put_frag_def)
  have rf: "receive_fragment env now h p from s = (case frag_is_complete g of None \<Rightarrow> None
      | Some True \<Rightarrow> (case deliver_reassembled env h from g of None \<Rightarrow> None
          | Some ev \<Rightarrow> let s3 = frag_drop i (if_mem_size g) s2 in
              Some (s3\<lparr>ip_frags_age := filter (\<lambda>j. j \<noteq> i) (ip_frags_age s3), ip_out := ip_out s3 @ ev\<rparr>))
      | Some False \<Rightarrow> Some (s2\<lparr>ip_frag_timer := True\<rparr>))"
    unfolding receive_fragment_def Let_def lim h(1,3) get f1_def [symmetric]
    unfolding f2_def [symmetric] g(1) option.case prod.case s2_def [symmetric] ..
  note complete = reasm_complete [OF rg D' n]
  show "\<exists>t. receive_fragment env now h p from s = Some t \<and> holding env d i ?D t
      \<and> ip_out t = ip_out s \<and> ip_host t = ip_host s \<and> ip_filter t = ip_filter s"
    if "extent ?D \<noteq> {0..<length d}"
    using complete(1) that rg s2 unfolding rf holding_def by simp
  assume e: "extent ?D = {0..<length d}" "has_l4 proto"
    and k: "4 \<le> length (env_rss_key env)" "\<forall>x. hash2cpu (env_dev env) x = Some (env_cpu env)"
  obtain q where q: "pm_map (if_data g) = [(0, q)]" "pkt_wf q" "pkt_bytes q = d"
    using complete(2) [OF e(1)] by auto
  obtain q' where q': "reassembled_cpu env h q = Some (env_cpu env, q')" "pkt_wf q'" "pkt_bytes q' = d"
    using reassembled_cpu_own [OF q(2) k] q(3) by metis
  have "deliver_reassembled env h from g = Some [Deliver proto q' host to]"
    using e(2) q(1) q'(1) by (simp add: deliver_reassembled_def h)
  then show "\<exists>t q. receive_fragment env now h p from s = Some t \<and> ip_frags t = [] \<and> ip_frag_mem t = 0
      \<and> ip_out t = ip_out s @ [Deliver proto q host to] \<and> pkt_wf q \<and> pkt_bytes q = d"
    using complete(1) e(1) q'(2,3) s2 unfolding rf by (simp add: Let_def frag_drop_def)
qed

lemma handle_fragment_frame:
  assumes fr: "frag_frame offload host to proto d (pkt_bytes w) (x, y)" "pkt_wf w" "\<not> offload \<or> rx_csum_offload (env_hw env)"
    and xy: "8 dvd x" "x < y" "y \<le> length d" "y < length d \<or> 0 < x" and n: "length d \<le> 65515"
    and s: "ip_host s = to" "ip_filter s = None"
  obtains c p s' where "handle_received_packet env now w from s
      = receive_fragment env now ((frag_hdr host to proto (length d) (x, y))\<lparr>ip_csum := c\<rparr>) p from s'"
    "pkt_wf p" "pkt_bytes p = ip_hdr_bytes ((frag_hdr host to proto (length d) (x, y))\<lparr>ip_csum := c\<rparr>) @ take (y - x) (drop x d)"
    "ip_frags s' = ip_frags s" "ip_frag_mem s' = ip_frag_mem s" "ip_out s' = ip_out s" "ip_host s' = to" "ip_filter s' = None"
proof -
  obtain c where c: "pkt_bytes w = ip_hdr_bytes ((frag_hdr host to proto (length d) (x, y))\<lparr>ip_csum := c\<rparr>) @ take (y - x) (drop x d)"
      "offload \<or> ip_checksum (ip_hdr_bytes ((frag_hdr host to proto (length d) (x, y))\<lparr>ip_csum := c\<rparr>)) = Some 0"
    using fr(1) by (auto simp: frag_frame_def Let_def)
  let ?h = "(frag_hdr host to proto (length d) (x, y))\<lparr>ip_csum := c\<rparr>"
  have ux: "unat (of_nat x :: u16) = x" "unat (of_nat (y - x + 20) :: u16) = y - x + 20"
    by (rule of_nat_inverse [OF refl], use xy n in simp)+
  have h: "ip_offset ?h = of_nat x" "ip_mf ?h \<longleftrightarrow> y < length d" "ip_dst ?h = to" "ip_hdr_ok ?h" "ip_len ?h = of_nat (y - x + 20)"
    using xy n by (simp_all del: of_nat_add) (simp_all add: frag_hdr_def del: of_nat_add)
  have l: "length (take (y - x) (drop x d)) = y - x"
    using xy by simp
  have "unat (ip_len ?h) = 20 + length (take (y - x) (drop x d))"
      "unat (ip_offset ?h) + 20 + length (take (y - x) (drop x d)) \<le> 65535"
    unfolding h(1,5) l ux using xy n by linarith+
  moreover have "rx_csum_offload (env_hw env) \<or> ip_checksum (ip_hdr_bytes ?h) = Some 0"
    using c(2) fr(3) by blast
  moreover have "pkt_bytes w = ip_hdr_bytes ?h @ take (y - x) (drop x d) @ []"
    using c(1) by simp
  ultimately obtain p where p: "ip_accept env w = Some (Some (?h, p))" "pkt_wf p"
      "pkt_bytes p = ip_hdr_bytes ?h @ take (y - x) (drop x d)"
    using ip_accept_frame [OF fr(2) _ h(4)] by blast
  have "of_nat x \<noteq> (0 :: u16)" if "0 < x"
    using that ux(1) by (metis unat_0 less_irrefl)
  then have "ip_mf ?h \<or> ip_offset ?h \<noteq> 0"
    using xy(4) h(1,2) by auto
  then have "handle_received_packet env now w from s = receive_fragment env now ?h p from (learn_source ?h from s)"
    using p(1) s h(3) by (simp add: handle_received_packet_def Let_def learn_source_def)
  with p(2,3) s show thesis
    by (intro that [of c p "learn_source ?h from s"]) (simp_all add: learn_source_def)
qed

fun receive_all :: "ip_env \<Rightarrow> (nat \<times> pkt) list \<Rightarrow> mac \<Rightarrow> ipv4 \<Rightarrow> ipv4 option" where
  "receive_all env [] from s = Some s"
| "receive_all env ((now, w) # ws) from s = (case handle_received_packet env now w from s of None \<Rightarrow> None
    | Some t \<Rightarrow> receive_all env ws from t)"

lemma holding_cong:
  "holding env d i D s \<Longrightarrow> ip_frags s' = ip_frags s \<Longrightarrow> ip_frag_mem s' = ip_frag_mem s \<Longrightarrow> holding env d i D s'"
  by (simp add: holding_def)

lemma receive_all_spec:
  fixes host to proto d k
  defines "cuts \<equiv> frag_cuts k 0 (length d)" and "i \<equiv> frag_id_of (tx_ip_hdr host to proto True 0 0 0)"
  assumes k: "8 dvd k" "0 < k" "k < length d" and n: "length d \<le> 65515"
    and off: "\<not> offload \<or> rx_csum_offload (env_hw env)"
    and room: "(length cuts + 1) * env_impl_size env + length d + 20 \<le> unat frag_high_thresh"
    and l4: "has_l4 proto" "4 \<le> length (env_rss_key env)" "\<forall>x. hash2cpu (env_dev env) x = Some (env_cpu env)"
  shows "list_all2 (\<lambda>(now, w) c. pkt_wf w \<and> frag_frame offload host to proto d (pkt_bytes w) c) ws cs \<Longrightarrow>
    distinct cs \<Longrightarrow> set cs \<inter> D = {} \<Longrightarrow> set cs \<union> D = set cuts \<Longrightarrow> cs \<noteq> [] \<Longrightarrow>
    holding env d i D s \<Longrightarrow> ip_host s = to \<Longrightarrow> ip_filter s = None \<Longrightarrow>
    \<exists>t q. receive_all env ws from s = Some t \<and> ip_frags t = [] \<and> ip_frag_mem t = 0
      \<and> ip_out t = ip_out s @ [Deliver proto q host to] \<and> pkt_wf q \<and> pkt_bytes q = d"
proof (induction cs arbitrary: ws D s)
  case (Cons c cs)
  obtain x y where c: "c = (x, y)"
    by fastforce
  obtain now w ws' where ws: "ws = (now, w) # ws'" "pkt_wf w" "frag_frame offload host to proto d (pkt_bytes w) (x, y)"
      "list_all2 (\<lambda>(now, w) c. pkt_wf w \<and> frag_frame offload host to proto d (pkt_bytes w) c) ws' cs"
    using Cons.prems(1) by (auto simp: list_all2_Cons2 c)
  let ?D = "insert (x, y) D"
  have xy: "(x, y) \<in> set cuts" and sub: "?D \<subseteq> set cuts"
    using Cons.prems(4) by (auto simp: c)
  have bounds: "x < y" "y = min (x + k) (length d)" "k dvd x"
    using frag_cuts_range [OF xy [unfolded cuts_def]] by auto
  have xy': "8 dvd x" "x < y" "y \<le> length d" "y < length d \<or> 0 < x"
    using bounds k dvd_trans [OF k(1)] by auto
  have pieces: "pieces_of (length d) D"
    using finite_subset [OF sub] frag_cuts_range sub by (fastforce simp: pieces_of_def cuts_def)
  have "card ?D \<le> length cuts"
    using card_mono [OF _ sub] card_length [of cuts] by simp
  then have room': "(card ?D + 1) * env_impl_size env + length d + 20 \<le> unat frag_high_thresh"
    using room mult_le_mono1 [of "card ?D + 1" "length cuts + 1" "env_impl_size env"] by linarith
  obtain cs' p s' where p: "handle_received_packet env now w from s
        = receive_fragment env now ((frag_hdr host to proto (length d) (x, y))\<lparr>ip_csum := cs'\<rparr>) p from s'"
      "pkt_wf p" "pkt_bytes p = ip_hdr_bytes ((frag_hdr host to proto (length d) (x, y))\<lparr>ip_csum := cs'\<rparr>) @ take (y - x) (drop x d)"
      "ip_frags s' = ip_frags s" "ip_frag_mem s' = ip_frag_mem s" "ip_out s' = ip_out s" "ip_host s' = to" "ip_filter s' = None"
    using handle_fragment_frame [OF ws(3,2) off xy' n Cons.prems(7,8)] by metis
  have n': "length d < 2 ^ 16"
    using n by simp
  note step = receive_step [OF holding_cong [OF Cons.prems(6) p(4,5), unfolded i_def] pieces xy'(1-3) n' p(2,3) room',
      of now "from", folded i_def, folded p(1)]
  show ?case
  proof (cases "cs = []")
    case True
    then have "?D = set cuts"
      using Cons.prems(4) by (simp add: c)
    then have "extent ?D = {0..<length d}"
      using frag_cuts_cover [OF k(2), of 0 "length d"] by (simp add: cuts_def)
    from step(2) [OF this l4] True ws(1,4) p(6) show ?thesis
      by auto
  next
    case False
    then obtain u v where uv: "(u, v) \<in> set cs"
      by (cases cs) auto
    then have "(u, v) \<in> set cuts" "(u, v) \<notin> ?D"
      using Cons.prems(2,3,4) by (auto simp: c)
    then have "u \<notin> extent ?D" "u < length d"
      using frag_cuts_disjoint [of u v k 0 "length d"] frag_cuts_range [of u v k 0 "length d"] sub
      by (fastforce simp: cuts_def)+
    then have "extent ?D \<noteq> {0..<length d}"
      by (metis atLeastLessThan_iff le0)
    from step(1) [OF this] obtain t where t: "handle_received_packet env now w from s = Some t" "holding env d i ?D t"
        "ip_out t = ip_out s" "ip_host t = to" "ip_filter t = None"
      using p(6-8) by auto
    have "set cs \<inter> ?D = {}" "set cs \<union> ?D = set cuts" "distinct cs"
      using Cons.prems(2-4) by (auto simp: c)
    from Cons.IH [OF ws(4) this(3,1,2) False t(2,4,5)] t(1,3) show ?thesis
      by (simp add: ws(1))
  qed
qed simp

lemma list_all2_memD: "list_all2 P xs ys \<Longrightarrow> x \<in> set xs \<Longrightarrow> \<exists>y\<in>set ys. P x y"
  by (induction rule: list_all2_induct) auto

lemma length_frag_cuts: "length (frag_cuts k a n) \<le> (n - a) div k + 1"
proof (induction k a n rule: frag_cuts.induct)
  case (1 k a n)
  show ?case
  proof (cases "a < n \<and> 0 < k \<and> a + k \<le> n")
    case True
    then have "length (frag_cuts k a n) = Suc (length (frag_cuts k (a + k) n))"
      by (subst frag_cuts.simps) simp
    moreover have "length (frag_cuts k (a + k) n) \<le> (n - (a + k)) div k + 1"
      using 1 True by (simp add: min_def)
    moreover have "(n - a) div k = Suc ((n - (a + k)) div k)"
      using le_div_geq [of k "n - a"] True by (simp add: le_diff_conv2)
    ultimately show ?thesis
      by simp
  next
    case False
    then have "frag_cuts k a n = [] \<or> frag_cuts k a n = [(a, n)]"
      by (subst (1 2) frag_cuts.simps) (auto simp: min_def frag_cuts.simps [of k n n])
    then show ?thesis
      by auto
  qed
qed

text \<open>
  C26. Fragmentation and reassembly are inverse. If the MTU less the IP header is a multiple of
  eight, a datagram that \<open>send\<close> has to fragment goes out as packets no longer than the MTU, and a
  host with nothing in reassembly delivers it exactly once, to the protocol it was sent with, with
  the sender's address and exactly the original bytes, in whatever order the fragments arrive and
  whenever they do; nothing is left behind in the fragment table or in the memory counter. The
  receiver needs room for the fragments below its memory limit and must be the core that the
  datagram hashes to.
\<close>

theorem fragmented_datagram_delivered:
  assumes p: "pkt_wf p" "needs_frag p proto (env_hw env)" "pk_len p \<le> 65515" "has_l4 proto"
    and mtu: "20 < unat (hw_mtu (env_hw env))" "8 dvd unat (hw_mtu (env_hw env)) - 20"
    and r: "ip_host r = to" "ip_filter r = None" "ip_frags r = []" "ip_frag_mem r = 0"
    and env': "\<not> tx_csum_ip_offload (env_hw env) \<or> rx_csum_offload (env_hw env')" "4 \<le> length (env_rss_key env')"
      "\<forall>x. hash2cpu (env_dev env') x = Some (env_cpu env')"
      "(pk_len p div (unat (hw_mtu (env_hw env)) - 20) + 2) * env_impl_size env' + pk_len p + 20 \<le> unat frag_high_thresh"
  shows "\<exists>qs. ip_send env to proto p e_dst s = Some (s\<lparr>ip_packetq := ip_packetq s @ map (Pair e_dst) qs\<rparr>)
    \<and> (\<forall>q\<in>set qs. pkt_wf q \<and> pk_len q \<le> unat (hw_mtu (env_hw env)))
    \<and> (\<forall>ws. (\<forall>(now, w)\<in>set ws. pkt_wf w) \<and> mset (map (\<lambda>(now, w). pkt_bytes w) ws) = mset (map pkt_bytes qs) \<longrightarrow>
        (\<exists>r' q. receive_all env' ws from r = Some r' \<and> ip_out r' = ip_out r @ [Deliver proto q (ip_host s) to]
          \<and> pkt_wf q \<and> pkt_bytes q = pkt_bytes p \<and> ip_frags r' = [] \<and> ip_frag_mem r' = 0))"
proof -
  let ?k = "unat (hw_mtu (env_hw env)) - 20" and ?d = "pkt_bytes p" and ?off = "tx_csum_ip_offload (env_hw env)"
  let ?cuts = "frag_cuts ?k 0 (length ?d)"
  have len: "length ?d = pk_len p" and k: "?k < length ?d"
    using p(1,2) mtu(1) by (auto simp: pkt_wf_def needs_frag_def)
  obtain qs where qs: "send_frags env to proto e_dst p (of_nat (length ?d - 0)) (of_nat 0) s
        = Some (s\<lparr>ip_packetq := ip_packetq s @ map (Pair e_dst) qs\<rparr>)" "list_all pkt_wf qs"
      "list_all2 (\<lambda>q. frag_frame ?off (ip_host s) to proto ?d (pkt_bytes q)) qs ?cuts"
    using send_frags_spec [OF mtu(1), of ?d 0 p to proto e_dst s] p(1,3) len by auto
  have size: "pkt_wf q \<and> pk_len q \<le> unat (hw_mtu (env_hw env))" if "q \<in> set qs" for q
  proof -
    note q = that
    obtain x y where "(x, y) \<in> set ?cuts" "frag_frame ?off (ip_host s) to proto ?d (pkt_bytes q) (x, y)" "pkt_wf q"
      using list_all2_memD [OF qs(3) q] qs(2) q by (auto simp: list_all_iff)
    moreover from this(1) have "y - x \<le> ?k"
      using frag_cuts_range by fastforce
    ultimately show ?thesis
      using mtu(1) by (auto simp: frag_frame_def pkt_wf_def Let_def)
  qed
  have deliver: "\<exists>r' q. receive_all env' ws from r = Some r' \<and> ip_frags r' = [] \<and> ip_frag_mem r' = 0
      \<and> ip_out r' = ip_out r @ [Deliver proto q (ip_host s) to] \<and> pkt_wf q \<and> pkt_bytes q = ?d"
    if ws: "\<forall>(now, w)\<in>set ws. pkt_wf w" "mset (map (\<lambda>(now, w). pkt_bytes w) ws) = mset (map pkt_bytes qs)" for ws
  proof -
    have "list_all2 (frag_frame ?off (ip_host s) to proto ?d) (map pkt_bytes qs) ?cuts"
      using qs(3) by (simp add: list_all2_map1)
    from list_all2_reorder_left_invariance [OF this ws(2)]
    obtain cs where cs: "list_all2 (frag_frame ?off (ip_host s) to proto ?d) (map (\<lambda>(now, w). pkt_bytes w) ws) cs"
        "mset cs = mset ?cuts"
      by blast
    have fr: "list_all2 (\<lambda>(now, w) c. pkt_wf w \<and> frag_frame ?off (ip_host s) to proto ?d (pkt_bytes w) c) ws cs"
      using cs(1) ws(1) by (simp add: list_all2_conv_all_nth case_prod_beta)
    have set: "set cs = set ?cuts" and dist: "distinct cs"
      using cs(2) frag_cuts_distinct mset_eq_imp_distinct_iff mset_eq_setD by blast+
    have "?cuts \<noteq> []"
      using k mtu(1) by (subst frag_cuts.simps) auto
    then have cs': "set cs \<inter> {} = {}" "set cs \<union> {} = set ?cuts" "cs \<noteq> []"
      using set by auto
    have hold: "holding env' ?d (frag_id_of (tx_ip_hdr (ip_host s) to proto True 0 0 0)) {} r"
      using r reasm_new by (simp add: holding_def new_fragment_def)
    have "(length ?cuts + 1) * env_impl_size env' \<le> (pk_len p div ?k + 2) * env_impl_size env'"
      using length_frag_cuts [of ?k 0 "length ?d"] len by (intro mult_le_mono1) simp
    then have room: "(length ?cuts + 1) * env_impl_size env' + length ?d + 20 \<le> unat frag_high_thresh"
      using env'(4) len by linarith
    have "0 < ?k" "length ?d \<le> 65515"
      using mtu(1) p(3) len by auto
    from receive_all_spec [OF mtu(2) this(1) k this(2) env'(1) room p(4) env'(2,3) fr dist cs' hold r(1,2)]
    show ?thesis .
  qed
  have "ip_send env to proto p e_dst s = Some (s\<lparr>ip_packetq := ip_packetq s @ map (Pair e_dst) qs\<rparr>)"
    using p(2) qs(1) len by (simp add: ip_send_def)
  with size deliver show ?thesis
    by (intro exI [of _ qs]) blast
qed

theorem fragmented_datagram_delivered_witness:
  "\<exists>qs r' q. ip_send (sample_ip_env\<lparr>env_hw := (env_hw sample_ip_env)\<lparr>hw_mtu := 36\<rparr>\<rparr>) 0x0a000002 17 (pkt_copy (replicate 40 7))
      [9, 9, 9, 9, 9, 9] (sample_host 0x0a000001) = Some ((sample_host 0x0a000001)\<lparr>ip_packetq := map (Pair [9, 9, 9, 9, 9, 9]) qs\<rparr>)
    \<and> receive_all sample_ip_env (map (Pair 3) (rev qs)) [8, 8, 8, 8, 8, 8] (sample_host 0x0a000002) = Some r'
    \<and> ip_out r' = [Deliver 17 q 0x0a000001 0x0a000002] \<and> pkt_bytes q = replicate 40 7"
proof -
  let ?env = "sample_ip_env\<lparr>env_hw := (env_hw sample_ip_env)\<lparr>hw_mtu := 36\<rparr>\<rparr>" and ?p = "pkt_copy (replicate 40 7)"
  have len: "pk_len ?p = 40"
    using pkt_copy_spec(2) [of "replicate 40 7"] by (simp add: pkt_wf_def pkt_copy_spec)
  have p: "needs_frag ?p 17 (env_hw ?env)" "pk_len ?p \<le> 65515" "has_l4 17" "20 < unat (hw_mtu (env_hw ?env))"
      "8 dvd unat (hw_mtu (env_hw ?env)) - 20"
    using len by (simp_all add: needs_frag_def has_l4_def proto_udp_def proto_tcp_def sample_ip_env_def)
  have e: "\<not> tx_csum_ip_offload (env_hw ?env) \<or> rx_csum_offload (env_hw sample_ip_env)" "4 \<le> length (env_rss_key sample_ip_env)"
      "\<forall>x. hash2cpu (env_dev sample_ip_env) x = Some (env_cpu sample_ip_env)" "ip_frag_mem (sample_host a) = 0" for a
    by (simp_all add: sample_ip_env_def sample_host_def hash2cpu_def hash2qid_def forward_dst_def)
  have room: "(pk_len ?p div (unat (hw_mtu (env_hw ?env)) - 20) + 2) * env_impl_size sample_ip_env + pk_len ?p + 20 \<le> unat frag_high_thresh"
    by (simp add: len frag_high_thresh_def)
  note delivered = fragmented_datagram_delivered [of ?p 17 ?env "sample_host 0x0a000002" "0x0a000002" sample_ip_env
      "[9, 9, 9, 9, 9, 9]" "sample_host 0x0a000001" "[8, 8, 8, 8, 8, 8]",
      OF pkt_copy_spec(2) p(1-5) sample_simps(5,6,9) e(4) e(1-3) room, unfolded sample_simps append_Nil pkt_copy_spec]
  then obtain qs where qs: "ip_send ?env 0x0a000002 17 ?p [9, 9, 9, 9, 9, 9] (sample_host 0x0a000001)
        = Some ((sample_host 0x0a000001)\<lparr>ip_packetq := map (Pair [9, 9, 9, 9, 9, 9]) qs\<rparr>)" "\<forall>q\<in>set qs. pkt_wf q"
      "\<forall>ws. (\<forall>(now, w)\<in>set ws. pkt_wf w) \<and> mset (map (\<lambda>(now, w). pkt_bytes w) ws) = mset (map pkt_bytes qs) \<longrightarrow>
        (\<exists>r' q. receive_all sample_ip_env ws [8, 8, 8, 8, 8, 8] (sample_host 0x0a000002) = Some r'
          \<and> ip_out r' = [Deliver 17 q 0x0a000001 0x0a000002] \<and> pkt_wf q \<and> pkt_bytes q = replicate 40 7
          \<and> ip_frags r' = [] \<and> ip_frag_mem r' = 0)"
    by blast
  have "\<forall>(now, w)\<in>set (map (Pair 3) (rev qs)). pkt_wf w"
      "mset (map (\<lambda>(now, w). pkt_bytes w) (map (Pair 3) (rev qs))) = mset (map pkt_bytes qs)"
    using qs(2) by (simp_all add: comp_def)
  with qs(3) [THEN spec, of "map (Pair 3) (rev qs)"] qs(1) show ?thesis
    by blast
qed

end
