(* ===== verification/Udp_Channel.thy ===== *)
theory Udp_Channel
  imports Ipv4 Semaphore Seastar_Queue
begin

text \<open>
  UDP on IPv4 (net/udp.cc, net/udp.hh, \<open>ipv4_udp\<close> of net/ip.hh): ports and channels, received
  datagrams, and sending under the limit of the send buffer.

  \<^item> The channel states are shared (\<open>lw_shared_ptr\<close>) by the table of ports, the channel object
    and the deleters of packets: they are cells of \<open>udp_states\<close>, named by their index.
  \<^item> A packet being sent carries a deleter that gives its bytes back to the channel's send
    buffer. The model keeps this hold (cell and length) beside the packet at every station:
    granted but not yet continued (\<open>udp_ready\<close>), waiting for the link address
    (\<open>udp_resolving\<close>), queued for IP (\<open>udp_packetq\<close>), handed to IP (\<open>udp_in_flight\<close>).
  \<^item> The operations that use IP take and return its state beside that of UDP. \<open>None\<close> is
    undefined behaviour.
\<close>

section \<open>State\<close>

record ipv4_addr =
  ia_ip :: u32
  ia_port :: u16

record udp_datagram =
  dg_src :: ipv4_addr
  dg_dst :: ipv4_addr
  dg_data :: pkt

datatype channel_exception = EBADF | EPIPE

type_synonym hold = "nat \<times> u64"

record send_request =
  sr_port :: u16
  sr_dst :: ipv4_addr
  sr_pkt :: pkt
  sr_hold :: hold

record udp_channel_state =
  ucs_queue :: "(udp_datagram, channel_exception) queue"
  ucs_space :: "(send_request, unit) sem"

definition send_buffer_size :: u64 where "send_buffer_size = 212992"

definition new_channel_state :: "nat \<Rightarrow> udp_channel_state" where
  "new_channel_state queue_size = \<lparr>ucs_queue = q_init queue_size, ucs_space = sem_init send_buffer_size\<rparr>"

record udp =
  udp_channels :: "u16 \<Rightarrow> nat option"
  udp_queue_size :: int
  udp_next_anonymous_port :: u16
  udp_packetq :: "(hold \<times> l4packet) list"
  udp_states :: "udp_channel_state list"
  udp_ready :: "send_request list"
  udp_resolving :: "(nat \<times> hold \<times> u32 \<times> pkt) list"
  udp_in_flight :: "hold list"

record native_channel =
  nc_port :: u16
  nc_closed :: bool
  nc_state :: nat

definition min_anonymous_port :: u16 where "min_anonymous_port = 32768"
definition default_queue_size :: int where "default_queue_size = 1024"

definition udp_init :: udp where
  "udp_init = \<lparr>udp_channels = Map.empty, udp_queue_size = default_queue_size,
    udp_next_anonymous_port = min_anonymous_port, udp_packetq = [], udp_states = [], udp_ready = [],
    udp_resolving = [], udp_in_flight = []\<rparr>"

definition set_queue_size :: "int \<Rightarrow> udp \<Rightarrow> udp" where
  "set_queue_size n u = u\<lparr>udp_queue_size := n\<rparr>"

abbreviation chan :: "udp \<Rightarrow> nat \<Rightarrow> udp_channel_state" where
  "chan u i \<equiv> udp_states u ! i"

definition set_chan :: "nat \<Rightarrow> udp_channel_state \<Rightarrow> udp \<Rightarrow> udp" where
  "set_chan i c u = u\<lparr>udp_states := (udp_states u)[i := c]\<rparr>"

section \<open>Ports\<close>

text \<open>\<open>port + 1\<close> is computed as an \<open>int\<close>, then converted to 16 bits.\<close>

definition next_port :: "u16 \<Rightarrow> u16" where
  "next_port port = (if uint port + 1 = 0 then min_anonymous_port else of_int (uint port + 1))"

lemma next_port_Suc [simp]: "next_port port = port + 1"
proof -
  have "uint port + 1 \<noteq> 0"
    using uint_ge_0 [of port] by linarith
  then show ?thesis by (simp add: next_port_def)
qed

datatype udp_error = Specific_ip | Address_in_use | No_free_port

text \<open>The search for a free anonymous port: the port, or nothing when it is back at the start.\<close>

function find_port :: "u16 \<Rightarrow> (u16 \<Rightarrow> bool) \<Rightarrow> u16 \<Rightarrow> u16 option" where
  "find_port starting_port used port = (if used port then
      (if starting_port = next_port port then None else find_port starting_port used (next_port port))
    else Some port)"
  by pat_completeness auto
termination
proof (relation "measure (\<lambda>(start, _, port). unat (start - port - 1))", goal_cases)
  case (2 start used port)
  have "unat (x - 1) < unat x" if "x \<noteq> 0" for x :: u16
    using that by (simp add: unat_minus_one unat_gt_0)
  from this [of "start - port - 1"] 2 show ?case
    by (simp add: diff_diff_eq)
qed simp

declare find_port.simps [simp del]

definition make_channel :: "ipv4_addr \<Rightarrow> udp \<Rightarrow> udp_error + native_channel \<times> udp" where
  "make_channel addr u = (if ia_ip addr \<noteq> 0 then Inl Specific_ip
    else case (if ia_port addr \<noteq> 0
        then (if udp_channels u (ia_port addr) \<noteq> None then Inl Address_in_use else Inr (ia_port addr, udp_next_anonymous_port u))
        else case find_port (udp_next_anonymous_port u) (\<lambda>p. udp_channels u p \<noteq> None) (udp_next_anonymous_port u) of
            None \<Rightarrow> Inl No_free_port | Some p \<Rightarrow> Inr (p, next_port p)) of
      Inl e \<Rightarrow> Inl e
    | Inr (bind_port, next_anonymous) \<Rightarrow>
        (let i = length (udp_states u) in
         Inr (\<lparr>nc_port = bind_port, nc_closed = False, nc_state = i\<rparr>,
           u\<lparr>udp_next_anonymous_port := next_anonymous, udp_channels := (udp_channels u)(bind_port \<mapsto> i),
             udp_states := udp_states u @ [new_channel_state (nat (udp_queue_size u mod 2 ^ 64))]\<rparr>)))"

text \<open>\<open>unregister\<close> erases the port's entry; erasing one that is not there is undefined.\<close>

definition unregister :: "u16 \<Rightarrow> udp \<Rightarrow> udp option" where
  "unregister port u = (if udp_channels u port = None then None
    else Some (u\<lparr>udp_channels := (udp_channels u)(port := None)\<rparr>))"

section \<open>Receiving\<close>

definition native_datagram :: "u32 \<Rightarrow> u32 \<Rightarrow> pkt \<Rightarrow> udp_datagram option" where
  "native_datagram src dst p0 = (case pkt_get_header 0 8 p0 of Some (Some hdr, p) \<Rightarrow>
      (let h = udp_hdr_read hdr in
       map_option (\<lambda>q. \<lparr>dg_src = \<lparr>ia_ip = src, ia_port = udp_src_port h\<rparr>,
         dg_dst = \<lparr>ia_ip = dst, ia_port = udp_dst_port h\<rparr>, dg_data = q\<rparr>) (pkt_trim_front 8 p))
    | _ \<Rightarrow> None)"

definition udp_received :: "pkt \<Rightarrow> u32 \<Rightarrow> u32 \<Rightarrow> udp \<Rightarrow> udp option" where
  "udp_received p from to u = (case native_datagram from to p of None \<Rightarrow> None
    | Some dgram \<Rightarrow>
      (case udp_channels u (ia_port (dg_dst dgram)) of None \<Rightarrow> Some u
       | Some i \<Rightarrow> Some (set_chan i ((chan u i)\<lparr>ucs_queue := snd (q_push dgram (ucs_queue (chan u i)))\<rparr>) u)))"

text \<open>\<open>receive\<close> of a channel, and its continuation when the promise it waited for is resolved.\<close>

definition channel_receive ::
    "native_channel \<Rightarrow> udp \<Rightarrow> ((udp_datagram, channel_exception) popped \<times> udp) option" where
  "channel_receive c u = (let st = chan u (nc_state c) in
    map_option (\<lambda>(r, q). (r, set_chan (nc_state c) (st\<lparr>ucs_queue := q\<rparr>) u)) (q_pop_eventually (ucs_queue st)))"

definition channel_receive_resume ::
    "native_channel \<Rightarrow> udp \<Rightarrow> ((udp_datagram, channel_exception) popped \<times> udp) option" where
  "channel_receive_resume c u = (let st = chan u (nc_state c) in
    map_option (\<lambda>(r, q). (r, set_chan (nc_state c) (st\<lparr>ucs_queue := q\<rparr>) u)) (q_pop_resume (ucs_queue st)))"

definition channel_abort :: "channel_exception \<Rightarrow> native_channel \<Rightarrow> udp \<Rightarrow> udp" where
  "channel_abort e c u = (let st = chan u (nc_state c) in
    set_chan (nc_state c) (st\<lparr>ucs_queue := q_abort e (ucs_queue st)\<rparr>) u)"

definition channel_close :: "native_channel \<Rightarrow> udp \<Rightarrow> (native_channel \<times> udp) option" where
  "channel_close c u = map_option (\<lambda>v. (c\<lparr>nc_closed := True\<rparr>, channel_abort EPIPE c v))
    (unregister (nc_port c) (channel_abort EBADF c u))"

definition channel_destroy :: "native_channel \<Rightarrow> udp \<Rightarrow> udp option" where
  "channel_destroy c u = (if \<not> nc_closed c then map_option snd (channel_close c u) else Some u)"

section \<open>Sending\<close>

text \<open>The waiters that an operation on a semaphore has granted their units.\<close>

definition newly_granted :: "('w, 'e) sem \<Rightarrow> ('w, 'e) sem \<Rightarrow> 'w list" where
  "newly_granted old new = map fst (filter (\<lambda>(w, r). r = Granted) (drop (length (sem_log old)) (sem_log new)))"

text \<open>\<open>complete_send\<close>, run by the deleter of a packet: waiting senders are continued later.\<close>

definition complete_send :: "hold \<Rightarrow> udp \<Rightarrow> udp option" where
  "complete_send h u = (let i = fst h; st = chan u i in
    map_option (\<lambda>t. (set_chan i (st\<lparr>ucs_space := t\<rparr>) u)\<lparr>udp_ready := udp_ready u @ newly_granted (ucs_space st) t\<rparr>)
      (sem_signal (snd h) (ucs_space st)))"

text \<open>The sum of the pseudo header: \<open>sum_many\<close> of the addresses, a zero byte, protocol and length.\<close>

definition pseudo_header_checksum :: "u8 \<Rightarrow> u32 \<Rightarrow> u32 \<Rightarrow> u16 \<Rightarrow> checksummer \<Rightarrow> checksummer" where
  "pseudo_header_checksum proto src dst len c = cs_sum16 len (cs_sum8 proto (cs_sum8 0 (cs_sum32 dst (cs_sum32 src c))))"

text \<open>The packet that \<open>ipv4_udp::send\<close> makes: header, checksum or its seed for the hardware, offload information.\<close>

definition udp_packet :: "ip_env \<Rightarrow> u32 \<Rightarrow> u16 \<Rightarrow> ipv4_addr \<Rightarrow> pkt \<Rightarrow> pkt option" where
  "udp_packet env src sport dst p0 =
    Option.bind (prepend_header (udp_hdr_bytes \<lparr>udp_src_port = sport, udp_dst_port = ia_port dst,
      udp_len = of_nat (pk_len p0 + 8), udp_cksum = 0\<rparr>) p0) (\<lambda>p.
    let csum = pseudo_header_checksum proto_udp src (ia_ip dst) (of_nat (pk_len p)) cs_init;
        hw = tx_csum_l4_offload (env_hw env) \<and> \<not> needs_frag p proto_udp (env_hw env)
    in Option.bind (if hw then Some (NOT (cs_get csum)) else map_option cs_get (cs_sum_packet p csum)) (\<lambda>cksum.
       case pkt_update_header 0 8 (\<lambda>h. take 6 h @ object_bytes cksum) p of
         Some (Some q) \<Rightarrow> Some (q\<lparr>pk_offload := default_offload_info\<lparr>oi_needs_csum := hw, oi_protocol := Udp\<rparr>\<rparr>)
       | _ \<Rightarrow> None))"

text \<open>
  \<open>ipv4_udp::send\<close>. The link address is known, or the packet waits for it; when too many wait,
  the future fails, the continuation is not run and the packet is destroyed.
\<close>

definition udp_send :: "ip_env \<Rightarrow> send_request \<Rightarrow> ipv4 \<times> udp \<Rightarrow> (ipv4 \<times> udp) option" where
  "udp_send env r = (\<lambda>(s, u).
    Option.bind (udp_packet env (ip_host s) (sr_port r) (sr_dst r) (sr_pkt r)) (\<lambda>p.
    case get_l2_dst_address (ia_ip (sr_dst r)) s of
      (Known e_dst, t) \<Rightarrow> Some (t, u\<lparr>udp_packetq := udp_packetq u
        @ [(sr_hold r, \<lparr>l4_to = ia_ip (sr_dst r), l4_pkt = p, l4_dst = e_dst, l4_proto = proto_udp\<rparr>)]\<rparr>)
    | (lookup_result.Pending k, t) \<Rightarrow> Some (t, u\<lparr>udp_resolving := udp_resolving u @ [(k, sr_hold r, ia_ip (sr_dst r), p)]\<rparr>)
    | (Queue_full, t) \<Rightarrow> map_option (Pair t) (complete_send (sr_hold r) u)))"

text \<open>The continuation of \<open>send\<close> when the promise \<open>k\<close> of the resolution is settled.\<close>

definition udp_l2_settled :: "nat \<Rightarrow> arp_result \<Rightarrow> udp \<Rightarrow> udp option" where
  "udp_l2_settled k res u = (case map_of (udp_resolving u) k of None \<Rightarrow> None
    | Some (h, to, p) \<Rightarrow>
      (let v = u\<lparr>udp_resolving := remove1 (k, h, to, p) (udp_resolving u)\<rparr> in
       case res of
         Resolved e_dst \<Rightarrow> Some (v\<lparr>udp_packetq := udp_packetq v
           @ [(h, \<lparr>l4_to = to, l4_pkt = p, l4_dst = e_dst, l4_proto = proto_udp\<rparr>)]\<rparr>)
       | Arp_timeout_error \<Rightarrow> complete_send h v))"

text \<open>The packet provider that the constructor registers with IP.\<close>

definition udp_provide :: "udp \<Rightarrow> l4packet option \<times> udp" where
  "udp_provide u = (case udp_packetq u of [] \<Rightarrow> (None, u)
    | (h, l4p) # rest \<Rightarrow> (Some l4p, u\<lparr>udp_packetq := rest, udp_in_flight := udp_in_flight u @ [h]\<rparr>))"

text \<open>The last reference to a packet handed to IP is gone.\<close>

definition udp_packet_gone :: "hold \<Rightarrow> udp \<Rightarrow> udp option" where
  "udp_packet_gone h u = (if h \<in> set (udp_in_flight u)
    then complete_send h (u\<lparr>udp_in_flight := remove1 h (udp_in_flight u)\<rparr>) else None)"

text \<open>\<open>send\<close> of a channel: wait for space, then send; the continuation runs at once if there is space.\<close>

definition channel_send :: "ip_env \<Rightarrow> native_channel \<Rightarrow> ipv4_addr \<Rightarrow> pkt \<Rightarrow> ipv4 \<times> udp \<Rightarrow> (ipv4 \<times> udp) option" where
  "channel_send env c dst p = (\<lambda>(s, u).
    (let i = nc_state c; st = chan u i; len = of_nat (pk_len p);
         r = \<lparr>sr_port = nc_port c, sr_dst = dst, sr_pkt = p, sr_hold = (i, len)\<rparr>;
         w = sem_wait r len False (ucs_space st); v = set_chan i (st\<lparr>ucs_space := w\<rparr>) u
     in if newly_granted (ucs_space st) w = [] then Some (s, v) else udp_send env r (s, v)))"

definition channel_send_text :: "ip_env \<Rightarrow> native_channel \<Rightarrow> ipv4_addr \<Rightarrow> bytes \<Rightarrow> ipv4 \<times> udp \<Rightarrow> (ipv4 \<times> udp) option" where
  "channel_send_text env c dst msg = channel_send env c dst (pkt_of_frag (takeWhile (\<lambda>b. b \<noteq> 0) msg))"

text \<open>The continuation of a \<open>send\<close> that had to wait.\<close>

definition channel_send_resume :: "ip_env \<Rightarrow> ipv4 \<times> udp \<Rightarrow> (ipv4 \<times> udp) option" where
  "channel_send_resume env = (\<lambda>(s, u). case udp_ready u of [] \<Rightarrow> None
    | r # rs \<Rightarrow> udp_send env r (s, u\<lparr>udp_ready := rs\<rparr>))"

section \<open>The search for a port\<close>

text \<open>The ports from \<open>start\<close> up to but not including \<open>port\<close> are taken.\<close>

definition used_up_to :: "u16 \<Rightarrow> (u16 \<Rightarrow> bool) \<Rightarrow> u16 \<Rightarrow> bool" where
  "used_up_to start used port \<longleftrightarrow> (\<forall>k < unat (port - start). used (start + of_nat k))"

lemma used_up_to_next:
  assumes "used_up_to start used port" "used port" "port + 1 \<noteq> start"
  shows "used_up_to start used (port + 1)"
proof -
  have "port + 1 - start \<noteq> 0"
    using assms(3) by simp
  then have "unat (port + 1 - start) = Suc (unat (port - start))"
    using unat_minus_one [of "port + 1 - start"] by (simp add: unat_gt_0 algebra_simps)
  moreover have "start + of_nat (unat (port - start)) = port"
    by simp
  ultimately show ?thesis
    using assms(1,2) unfolding used_up_to_def by (metis less_Suc_eq)
qed

lemma used_up_to_all:
  assumes "used_up_to start used port" "used port" "port + 1 = start"
  shows "used p"
proof -
  have "port - start = - 1"
    using assms(3) by (simp flip: assms(3))
  moreover have "unat (- 1 :: u16) = 65535"
    by (simp add: unsigned_minus_1_eq_mask mask_eq_exp_minus_1)
  ultimately have n: "unat (port - start) = 65535"
    by simp
  show ?thesis
  proof (cases "unat (p - start) < 65535")
    case True
    then have "used (start + of_nat (unat (p - start)))"
      using assms(1) n unfolding used_up_to_def by metis
    then show ?thesis by simp
  next
    case False
    then have "unat (p - start) = unat (port - start)"
      using unsigned_less [where 'a = nat, of "p - start"] n by simp
    then have "p - start = port - start"
      by (rule unsigned_word_eqI)
    with assms(2) show ?thesis by simp
  qed
qed

lemma find_port_spec:
  "used_up_to start used port \<Longrightarrow>
    (case find_port start used port of None \<Rightarrow> \<forall>p. used p | Some p \<Rightarrow> \<not> used p \<and> used_up_to start used p)"
proof (induction start used port rule: find_port.induct)
  case (1 start used port)
  note unfold = find_port.simps [of start used port]
  consider "\<not> used port" | "used port" "port + 1 = start" | "used port" "port + 1 \<noteq> start"
    by blast
  then show ?case
  proof cases
    case 1
    then show ?thesis
      using \<open>used_up_to start used port\<close> by (simp add: unfold)
  next
    case 2
    then have all: "\<forall>p. used p"
      using used_up_to_all [OF \<open>used_up_to start used port\<close>] by blast
    have none: "find_port start used port = None"
      unfolding unfold using 2 by simp
    show ?thesis
      unfolding none option.case by (rule all)
  next
    case 3
    then have "find_port start used port = find_port start used (port + 1)"
      unfolding unfold by auto
    then show ?thesis
      using 3 "1.IH" used_up_to_next [OF \<open>used_up_to start used port\<close>] by auto
  qed
qed

section \<open>The packet that is sent\<close>

text \<open>A header is put in front of the first fragment's data, or into a fragment of its own.\<close>

definition headed :: "bytes \<Rightarrow> bytes list \<Rightarrow> bytes list \<Rightarrow> bool" where
  "headed hdr ds es \<longleftrightarrow> es = hdr # ds \<or> (\<exists>d r. ds = d # r \<and> es = (hdr @ d) # r)"

lemma unuse_frag_data: "map fr_data (pk_frags (unuse_internal_data p)) = map fr_data (pk_frags p)"
  using using_internal_data_cases [of p] by (auto simp: unuse_internal_data_def external_def)

lemma allocate_frag_data: "map fr_data (pk_frags (allocate_if_needed p n)) = map fr_data (pk_frags p)"
  using using_internal_data_cases [of p] by (auto simp: allocate_if_needed_def impl_copy_def)

lemma allocate_headroom_frags:
  assumes "allocate_headroom hdr p = Some (Some q)"
  shows "headed hdr (map fr_data (pk_frags p)) (map fr_data (pk_frags q))"
  using assms using_internal_data_cases [of p] allocate_frag_data [of "p\<lparr>pk_len := pk_len p + length hdr\<rparr>" 1]
  by (auto simp: allocate_headroom_def Let_def headed_def using_internal_data_def split: if_splits)

lemma prepend_header_frags:
  assumes "prepend_header hdr p = Some q"
  shows "headed hdr (map fr_data (pk_frags p)) (map fr_data (pk_frags q))"
  using assms allocate_headroom_frags [of hdr p q] allocate_headroom_frags [of hdr "unuse_internal_data p" q]
    allocate_frag_data [of "(unuse_internal_data p)\<lparr>pk_len := pk_len p + length hdr\<rparr>" 1]
  by (auto simp: prepend_header_def Let_def unuse_frag_data headed_def external_def split: option.splits)

lemma summable_headed:
  "headed hdr ds es \<Longrightarrow> even (length hdr) \<Longrightarrow> summable False ds \<Longrightarrow> summable False es"
  by (auto simp: headed_def)

text \<open>Writing to a header that the first fragment contains.\<close>

lemma update_first_frag:
  assumes "pk_frags p = f # fs" "n \<le> fr_size f" "0 < n" "pkt_wf p" "pkt_room p"
    and "length (g (take n (fr_data f))) = n"
  shows "\<exists>q. pkt_update_header 0 n g p = Some (Some q) \<and> pkt_wf q \<and> pkt_room q
    \<and> pkt_bytes q = g (take n (pkt_bytes p)) @ drop n (pkt_bytes p) \<and> pk_len q = pk_len p"
proof -
  let ?q = "p\<lparr>pk_frags := f\<lparr>fr_data := g (take n (fr_data f)) @ drop n (fr_data f)\<rparr> # fs\<rparr>"
  have b: "pkt_bytes p = fr_data f @ frags_bytes fs"
    using assms(1) by (simp add: pkt_bytes_def)
  have u: "pkt_update_header 0 n g p = Some (Some ?q)"
    using assms(1-4) by (auto simp: pkt_update_header_def Let_def pkt_wf_def b)
  moreover have c: "pkt_bytes ?q = g (take n (pkt_bytes p)) @ drop n (pkt_bytes p)"
    using assms(2) by (simp add: b) (simp add: pkt_bytes_def)
  moreover have "pkt_wf ?q"
    using assms(1,2,4,6) by (auto simp: pkt_wf_def pkt_bytes_def)
  moreover have "pkt_room ?q"
    using assms(1,2,3,5,6) by (auto simp: pkt_room_def fr_outside_def fr_inside_def split: option.splits)
  ultimately show ?thesis by auto
qed


text \<open>The pseudo header as bytes, and its sum.\<close>

definition udp_pseudo_hdr :: "u32 \<Rightarrow> u32 \<Rightarrow> u16 \<Rightarrow> bytes" where
  "udp_pseudo_hdr src dst len = be_bytes src @ be_bytes dst @ [0, proto_udp] @ be_bytes len"

lemma be_nat_be_bytes:
  "be_nat (be_bytes (a :: u32)) = unat a" "be_nat (be_bytes (c :: u16)) = unat c"
  using read_be_eq [where 'a = 32, of "be_bytes a"] read_be_eq [where 'a = 16, of "be_bytes c"]
    read_be_bytes_end [of a] read_be_bytes_end [of c] by (simp_all add: size_of_def)

lemma be_bytes_sum:
  "oc_eq (unat (a :: u32)) (word_sum False (be_bytes a))" "oc_eq (unat (c :: u16)) (word_sum False (be_bytes c))"
  using be_nat_word_sum [of "be_bytes a"] be_nat_word_sum [of "be_bytes c"]
  by (simp_all add: be_nat_be_bytes size_of_def)

lemma pseudo_header_sum:
  "cs_odd (pseudo_header_checksum proto_udp src dst len cs_init) = False"
  "oc_eq (cs_csum (pseudo_header_checksum proto_udp src dst len cs_init)) (word_sum False (udp_pseudo_hdr src dst len))"
  "cs_csum (pseudo_header_checksum proto_udp src dst len cs_init) < 2 ^ 34"
proof -
  let ?c = "pseudo_header_checksum proto_udp src dst len cs_init"
  have c: "?c = \<lparr>cs_csum = unat src + unat dst + 17 + unat len, cs_odd = False\<rparr>"
    by (simp add: pseudo_header_checksum_def cs_init_def cs_sum32_def cs_sum8_def cs_sum16_def proto_udp_def)
  have "word_sum False (udp_pseudo_hdr src dst len)
      = word_sum False (be_bytes src) + word_sum False (be_bytes dst) + 17 + word_sum False (be_bytes len)"
    by (simp add: udp_pseudo_hdr_def word_sum_append size_of_def proto_udp_def)
  moreover have "oc_eq (unat src + unat dst + 17 + unat len)
      (word_sum False (be_bytes src) + word_sum False (be_bytes dst) + 17 + word_sum False (be_bytes len))"
    by (intro oc_eq_add be_bytes_sum oc_eq_refl)
  ultimately show "oc_eq (cs_csum ?c) (word_sum False (udp_pseudo_hdr src dst len))"
    by (simp add: c)
  show "cs_odd ?c = False" "cs_csum ?c < 2 ^ 34"
    using unsigned_less [where 'a = nat, of src] unsigned_less [where 'a = nat, of dst]
      unsigned_less [where 'a = nat, of len] by (simp_all add: c)
qed

text \<open>What is computed over a packet after the pseudo header is the checksum of both.\<close>

lemma packet_checksum:
  assumes "summable False (map fr_data (pk_frags p))" "length (pkt_bytes p) < 2 ^ 31"
  shows "\<exists>c. cs_sum_packet p (pseudo_header_checksum proto_udp src dst len cs_init) = Some c
    \<and> ip_checksum (udp_pseudo_hdr src dst len @ pkt_bytes p) = Some (cs_get c)"
proof -
  let ?p = "pseudo_header_checksum proto_udp src dst len cs_init" and ?h = "udp_pseudo_hdr src dst len"
  note ps = pseudo_header_sum [of src dst len]
  have b: "concat (map fr_data (pk_frags p)) = pkt_bytes p"
    by (simp add: pkt_bytes_def frags_bytes_def)
  obtain c where c: "cs_sum_packet p ?p = Some c" "oc_eq (cs_csum c) (cs_csum ?p + word_sum False (pkt_bytes p))"
      "cs_csum c \<le> cs_csum ?p + 2 ^ 64 * length (pkt_bytes p)"
    using cs_sum_frags_spec [of ?p "map fr_data (pk_frags p)"] assms(1) ps(1) b by (auto simp: cs_sum_packet_def)
  have h: "length ?h = 12"
    by (simp add: udp_pseudo_hdr_def size_of_def)
  have "oc_eq (cs_csum c) (word_sum False (?h @ pkt_bytes p))"
    using oc_eq_trans [OF c(2) oc_eq_add [OF ps(2) oc_eq_refl]] h by (simp add: word_sum_append)
  moreover have "cs_csum c < 2 ^ 96"
    using c(3) ps(3) assms(2) by simp
  ultimately have "cs_get c = hton (of_nat (rfc1071_checksum (?h @ pkt_bytes p)))"
    by (simp add: cs_get_norm oc_eq_norm rfc1071_checksum_def rfc1071_norm)
  then show ?thesis
    using c(1) ip_checksum_eq [of "?h @ pkt_bytes p"] assms(2) h by simp
qed

lemma object_bytes_sum:
  "word_sum False (object_bytes (y :: u16)) = 256 * (unat y mod 256) + unat y div 256"
proof -
  have "unat y div 256 < 256"
    using unsigned_less [where 'a = nat, of y] by simp
  then show ?thesis
    by (simp add: object_bytes_def unat_of_nat numeral_2_eq_2 unsigned_ucast_eq take_bit_eq_mod)
qed

lemma not_bytes_sum: "word_sum False (object_bytes (NOT y :: u16)) = 65535 - word_sum False (object_bytes y)"
proof -
  define v where "v = unat y"
  define h l where "h = v div 256" and "l = v mod 256"
  have v: "v = 256 * h + l" "l < 256" "h < 256"
    using unsigned_less [where 'a = nat, of y] by (simp_all add: h_def l_def v_def)
  have "NOT y = of_nat (65535 - v)"
  proof -
    have "(of_nat v :: u16) = y"
      by (simp add: v_def)
    moreover have "(of_nat 65535 :: u16) = - 1" "v \<le> 65535"
      using v by simp_all
    ultimately show ?thesis
      by (simp only: of_nat_diff not_eq_complement) simp
  qed
  then have "unat (NOT y) = 65535 - v"
    by (simp add: unat_of_nat)
  also have "\<dots> = 256 * (255 - h) + (255 - l)"
    using v by simp
  finally have "unat (NOT y) mod 256 = 255 - l" "unat (NOT y) div 256 = 255 - h"
    by simp_all
  then show ?thesis
    using v by (simp add: object_bytes_sum flip: v_def h_def l_def)
qed

lemma ip_checksum_cong:
  assumes "oc_eq (word_sum False d) (word_sum False e)" "length d < 2 ^ 32" "length e < 2 ^ 32"
  shows "ip_checksum d = ip_checksum e"
  using assms by (simp add: ip_checksum_eq rfc1071_checksum_def rfc1071_norm oc_eq_norm)

text \<open>The seed for the hardware is the folded sum of the pseudo header.\<close>

lemma checksum_seed:
  "oc_eq (word_sum False (object_bytes (NOT (cs_get (pseudo_header_checksum proto_udp src dst len cs_init)))))
    (word_sum False (udp_pseudo_hdr src dst len))"
proof -
  let ?c = "pseudo_header_checksum proto_udp src dst len cs_init"
  note ps = pseudo_header_sum [of src dst len]
  define n where "n = oc_norm (cs_csum ?c)"
  have n: "n \<le> 65535" "oc_eq n (cs_csum ?c)"
    by (simp_all add: n_def oc_norm_def oc_eq_def less_imp_le)
  have "cs_get ?c = hton (of_nat (65535 - n))"
    using cs_get_norm [of ?c] ps(3) by (simp add: n_def)
  then have "word_sum False (object_bytes (NOT (cs_get ?c))) = n"
    using word_sum_checksum_bytes [of "65535 - n"] n(1) by (simp add: not_bytes_sum)
  then show ?thesis
    using oc_eq_trans [OF n(2) ps(2)] by simp
qed

text \<open>The bytes of the packet, and its checksum field.\<close>

definition sent_udp_hdr :: "u16 \<Rightarrow> ipv4_addr \<Rightarrow> nat \<Rightarrow> u16 \<Rightarrow> udp_hdr" where
  "sent_udp_hdr sport dst len ck = \<lparr>udp_src_port = sport, udp_dst_port = ia_port dst, udp_len = of_nat len, udp_cksum = ck\<rparr>"

lemma sent_udp_hdr_bytes:
  "udp_hdr_bytes (sent_udp_hdr sport dst len ck) = take 6 (udp_hdr_bytes (sent_udp_hdr sport dst len 0)) @ be_bytes ck"
  by (simp add: sent_udp_hdr_def udp_hdr_bytes_def size_of_def)

definition hw_checksum :: "ip_env \<Rightarrow> nat \<Rightarrow> bool" where
  "hw_checksum env len \<longleftrightarrow> tx_csum_l4_offload (env_hw env) \<and> (len + 20 \<le> unat (hw_mtu (env_hw env)) \<or> tx_ufo (env_hw env))"

lemma udp_packet_spec:
  fixes src :: u32 and dst :: ipv4_addr
  assumes "pkt_wf p" "pkt_room p" "summable False (map fr_data (pk_frags p))" "pk_len p + 8 < 2 ^ 31"
  defines "pseudo \<equiv> udp_pseudo_hdr src (ia_ip dst) (of_nat (pk_len p + 8))"
  shows "\<exists>q ck. udp_packet env src sport dst p = Some q \<and> pkt_wf q \<and> pkt_room q \<and> pk_len q = pk_len p + 8
    \<and> pkt_bytes q = udp_hdr_bytes (sent_udp_hdr sport dst (pk_len p + 8) ck) @ pkt_bytes p
    \<and> oi_needs_csum (pk_offload q) = hw_checksum env (pk_len p + 8)
    \<and> (if hw_checksum env (pk_len p + 8) then ip_checksum (pkt_bytes q)
          = ip_checksum (pseudo @ udp_hdr_bytes (sent_udp_hdr sport dst (pk_len p + 8) 0) @ pkt_bytes p)
       else ip_checksum (pseudo @ pkt_bytes q) = Some 0)"
proof -
  let ?h = "udp_hdr_bytes (sent_udp_hdr sport dst (pk_len p + 8) 0)" and ?hw = "hw_checksum env (pk_len p + 8)"
  let ?ps = "pseudo_header_checksum proto_udp src (ia_ip dst) (of_nat (pk_len p + 8)) cs_init"
  have lp: "length (pkt_bytes p) = pk_len p" and lh: "length ?h = 8" "length pseudo = 12"
    using assms(1) by (simp_all add: pkt_wf_def pseudo_def udp_pseudo_hdr_def size_of_def)
  obtain a where a: "prepend_header ?h p = Some a" "pkt_bytes a = ?h @ pkt_bytes p" "pkt_wf a" "pkt_room a"
    using prepend_header_spec [OF assms(1,2), of ?h] by blast
  have la: "pk_len a = pk_len p + 8"
    using a(2,3) lh lp by (simp add: pkt_wf_def)
  note hd = prepend_header_frags [OF a(1)]
  obtain f fs where f: "pk_frags a = f # fs" "8 \<le> fr_size f"
    using hd lh by (auto simp: headed_def map_eq_Cons_conv)
  have sa: "summable False (map fr_data (pk_frags a))"
    by (rule summable_headed [OF hd _ assms(3)]) (simp add: lh)
  obtain c where c: "cs_sum_packet a ?ps = Some c" "ip_checksum (pseudo @ pkt_bytes a) = Some (cs_get c)"
    using packet_checksum [OF sa] assms(4) lh lp a(2) unfolding pseudo_def by fastforce
  define ck where "ck = (if ?hw then NOT (cs_get ?ps) else cs_get c)"
  obtain b where b: "pkt_update_header 0 8 (\<lambda>h. take 6 h @ object_bytes ck) a = Some (Some b)" "pkt_wf b" "pkt_room b"
      "pkt_bytes b = take 6 ?h @ object_bytes ck @ pkt_bytes p" "pk_len b = pk_len p + 8"
    using update_first_frag [OF f _ a(3,4), of "\<lambda>h. take 6 h @ object_bytes ck"] f(2) lh a(2) la by auto
  let ?q = "b\<lparr>pk_offload := default_offload_info\<lparr>oi_needs_csum := ?hw, oi_protocol := Udp\<rparr>\<rparr>"
  have "(tx_csum_l4_offload (env_hw env) \<and> \<not> needs_frag a proto_udp (env_hw env)) = ?hw"
    by (simp add: la hw_checksum_def needs_frag_def proto_udp_def proto_tcp_def)
  then have "udp_packet env src sport dst p = Some ?q"
    using a(1) c(1) b(1) by (cases ?hw) (auto simp add: udp_packet_def simp flip: sent_udp_hdr_def simp add: Let_def la ck_def simp del: of_nat_add)
  moreover have q: "pkt_bytes ?q = pkt_bytes b" "pkt_wf ?q" "pkt_room ?q" "pk_len ?q = pk_len p + 8"
    using b(2,3,5) by (simp_all add: pkt_bytes_def pkt_wf_def pkt_room_def)
  moreover have "object_bytes ck = be_bytes (ntoh ck)"
    by (simp add: produce_be_def cpu_to_be_def ntoh_def bswap_bswap)
  then have "pkt_bytes b = udp_hdr_bytes (sent_udp_hdr sport dst (pk_len p + 8) (ntoh ck)) @ pkt_bytes p"
    by (simp add: b(4) sent_udp_hdr_bytes [of sport dst _ "ntoh ck"])
  moreover have h0: "?h = take 6 ?h @ [0, 0]"
    using sent_udp_hdr_bytes [of sport dst "pk_len p + 8" 0] be_bytes_0 by simp
  then have h0': "?h @ pkt_bytes p = take 6 ?h @ [0, 0] @ pkt_bytes p"
    by (metis append_assoc)
  have "if ?hw then ip_checksum (pkt_bytes b) = ip_checksum (pseudo @ ?h @ pkt_bytes p)
      else ip_checksum (pseudo @ pkt_bytes b) = Some 0"
  proof (cases ?hw)
    case True
    have "word_sum False (pkt_bytes b)
        = word_sum False (object_bytes ck) + (word_sum False (take 6 ?h) + word_sum False (pkt_bytes p))"
      using lh by (simp add: b(4) word_sum_append)
    moreover have "word_sum False (pseudo @ ?h @ pkt_bytes p)
        = word_sum False pseudo + (word_sum False (take 6 ?h) + word_sum False (pkt_bytes p))"
      unfolding h0' using lh by (simp add: word_sum_append)
    moreover have "oc_eq (word_sum False (object_bytes ck)) (word_sum False pseudo)"
      using True checksum_seed by (simp add: ck_def pseudo_def)
    ultimately have "oc_eq (word_sum False (pkt_bytes b)) (word_sum False (pseudo @ ?h @ pkt_bytes p))"
      by (metis oc_eq_add oc_eq_refl)
    then show ?thesis
      using True ip_checksum_cong [of "pkt_bytes b" "pseudo @ ?h @ pkt_bytes p"] assms(4) lh lp by (simp add: b(4))
  next
    case False
    have "ip_checksum ((pseudo @ take 6 ?h) @ [0, 0] @ pkt_bytes p) = Some ck"
      using False c(2) a(2) h0' by (simp add: ck_def)
    from ip_checksum_stored [OF _ _ this] False show ?thesis
      using assms(4) lh lp by (simp add: b(4))
  qed
  ultimately show ?thesis by auto
qed

section \<open>A datagram on its way\<close>

text \<open>A send that finds space and knows the link address queues the packet for IP.\<close>

lemma sem_wait_granted:
  assumes "settled m" "queued m = []" "uint nr \<le> units m"
  shows "sem_wait w nr timed m = resolve w Granted (m\<lparr>sem_count := sem_count m - nr\<rparr>)"
  using assms ef.is_empty [of "sem_waiters m"]
  by (simp add: sem_wait_def may_proceed_def settled_def has_available_units_iff)

definition next_hop :: "u32 \<Rightarrow> ipv4 \<Rightarrow> u32" where
  "next_hop to s = (if in_my_netmask to s then to else ip_gw s)"

lemma get_l2_known: "arp_table (ip_arp s) (next_hop to s) = Some mac \<Longrightarrow> get_l2_dst_address to s = (Known mac, s)"
  by (simp add: get_l2_dst_address_def next_hop_def arp_lookup_def)

lemma channel_send_queues:
  assumes "udp_packet env (ip_host s) (nc_port c) dst p = Some q"
    and "arp_table (ip_arp s) (next_hop (ia_ip dst) s) = Some mac"
    and "settled (ucs_space (chan u (nc_state c)))" "queued (ucs_space (chan u (nc_state c))) = []"
    and "uint (of_nat (pk_len p) :: u64) \<le> units (ucs_space (chan u (nc_state c)))"
  shows "\<exists>v. channel_send env c dst p (s, u) = Some (s, v)
    \<and> udp_packetq v = udp_packetq u @ [((nc_state c, of_nat (pk_len p)),
        \<lparr>l4_to = ia_ip dst, l4_pkt = q, l4_dst = mac, l4_proto = proto_udp\<rparr>)]"
  using assms sem_wait_granted [OF assms(3-5)] get_l2_known [OF assms(2)]
  by (auto simp: channel_send_def Let_def newly_granted_def udp_send_def set_chan_def)

lemma native_datagram_spec:
  assumes "pkt_wf p" "pkt_bytes p = udp_hdr_bytes h @ d"
  shows "\<exists>q. native_datagram src dst p = Some \<lparr>dg_src = \<lparr>ia_ip = src, ia_port = udp_src_port h\<rparr>,
      dg_dst = \<lparr>ia_ip = dst, ia_port = udp_dst_port h\<rparr>, dg_data = q\<rparr> \<and> pkt_wf q \<and> pkt_bytes q = d"
proof -
  obtain a where a: "pkt_get_header 0 8 p = Some (Some (udp_hdr_bytes h), a)" "pkt_bytes a = pkt_bytes p" "pkt_wf a"
    using pkt_get_header_spec [OF assms(1), of 8 0] by (auto simp: assms(2))
  obtain q where "pkt_trim_front 8 a = Some q" "pkt_bytes q = d" "pkt_wf q"
    using pkt_trim_front_spec [OF a(3), of 8] by (auto simp: a(2) assms(2))
  then show ?thesis
    using a(1) udp_hdr_read_bytes [of h "[]"] by (simp add: native_datagram_def Let_def)
qed

lemma udp_received_queues:
  assumes "native_datagram src dst p = Some g" "udp_channels u (ia_port (dg_dst g)) = Some j"
    and "j < length (udp_states u)" "length (q_items (ucs_queue (chan u j))) < q_max (ucs_queue (chan u j))"
  shows "\<exists>v. udp_received p src dst u = Some v
    \<and> q_items (ucs_queue (chan v j)) = q_items (ucs_queue (chan u j)) @ [g]
    \<and> q_not_empty (ucs_queue (chan v j)) = None"
  using assms by (auto simp: udp_received_def set_chan_def q_push_def)

section \<open>Properties\<close>

text \<open>
  C27. A UDP datagram arrives. A channel with free space in its send buffer sends a packet that
  fits the MTU to a host whose link address is known: the send completes at once, the provider
  hands the packet to IP, and what IP puts on the wire, with any padding, is delivered by the
  addressed host to its UDP, which appends to the queue of the channel bound to the destination
  port, unless that is full, exactly one datagram, with the sender's address and port and exactly
  the bytes sent, and wakes a reader that waits for it.
\<close>

theorem udp_datagram_delivered:
  assumes "pkt_wf p" "pkt_room p" "summable False (map fr_data (pk_frags p))"
    and "pk_len p + 28 \<le> unat (hw_mtu (env_hw env))"
    and "arp_table (ip_arp s) (next_hop (ia_ip dst) s) = Some mac" "udp_packetq u = []"
    and "settled (ucs_space (chan u (nc_state c)))" "queued (ucs_space (chan u (nc_state c))) = []"
    and "int (pk_len p) \<le> units (ucs_space (chan u (nc_state c)))"
    and "\<not> tx_csum_ip_offload (env_hw env) \<or> rx_csum_offload (env_hw env')"
    and "ip_host r = ia_ip dst" "ip_filter r = None"
    and "udp_channels v (ia_port dst) = Some j" "j < length (udp_states v)"
    and "length (q_items (ucs_queue (chan v j))) < q_max (ucs_queue (chan v j))"
  shows "\<exists>u1 l4 u2 q. channel_send env c dst p (s, u) = Some (s, u1) \<and> udp_provide u1 = (Some l4, u2)
    \<and> ip_send env (l4_to l4) (l4_proto l4) (l4_pkt l4) (l4_dst l4) s
        = Some (s\<lparr>ip_packetq := ip_packetq s @ [(mac, q)]\<rparr>)
    \<and> (\<forall>w pad. pkt_wf w \<and> pkt_bytes w = pkt_bytes q @ pad \<longrightarrow>
        (\<exists>r' d v' g. handle_received_packet env' now w from r = Some r'
          \<and> ip_out r' = ip_out r @ [Deliver proto_udp d (ip_host s) (ia_ip dst)]
          \<and> udp_received d (ip_host s) (ia_ip dst) v = Some v'
          \<and> q_items (ucs_queue (chan v' j)) = q_items (ucs_queue (chan v j)) @ [g]
          \<and> q_not_empty (ucs_queue (chan v' j)) = None
          \<and> dg_src g = \<lparr>ia_ip = ip_host s, ia_port = nc_port c\<rparr> \<and> dg_dst g = dst
          \<and> pkt_bytes (dg_data g) = pkt_bytes p))"
proof -
  have mtu: "pk_len p + 28 \<le> 65535"
    using assms(4) unsigned_less [where 'a = nat, of "hw_mtu (env_hw env)"] by simp
  then obtain q ck where q: "udp_packet env (ip_host s) (nc_port c) dst p = Some q" "pkt_wf q" "pkt_room q"
      "pk_len q = pk_len p + 8"
      "pkt_bytes q = udp_hdr_bytes (sent_udp_hdr (nc_port c) dst (pk_len p + 8) ck) @ pkt_bytes p"
    using udp_packet_spec [OF assms(1-3), where src = "ip_host s" and env = env and sport = "nc_port c" and dst = dst] by auto
  let ?l4 = "\<lparr>l4_to = ia_ip dst, l4_pkt = q, l4_dst = mac, l4_proto = proto_udp\<rparr>"
  have "uint (of_nat (pk_len p) :: u64) = int (pk_len p)"
    using mtu by (simp add: uint_nat unat_of_nat)
  then obtain u1 where u1: "channel_send env c dst p (s, u) = Some (s, u1)"
      "udp_packetq u1 = [((nc_state c, of_nat (pk_len p)), ?l4)]"
    using channel_send_queues [OF q(1) assms(5,7,8)] assms(6,9) by auto
  then obtain u2 where u2: "udp_provide u1 = (Some ?l4, u2)"
    by (simp add: udp_provide_def)
  have n: "\<not> needs_frag q proto_udp (env_hw env)" "pk_len q + 20 \<le> 65535" "has_l4 proto_udp"
    using assms(4) mtu q(4) by (simp_all add: needs_frag_def has_l4_def)
  obtain x where x: "ip_send env (ia_ip dst) proto_udp q mac s = Some (s\<lparr>ip_packetq := ip_packetq s @ [(mac, x)]\<rparr>)"
    and deliver: "\<And>w pad. pkt_wf w \<Longrightarrow> pkt_bytes w = pkt_bytes x @ pad \<Longrightarrow>
      \<exists>r' d. handle_received_packet env' now w from r = Some r'
        \<and> ip_out r' = ip_out r @ [Deliver proto_udp d (ip_host s) (ia_ip dst)] \<and> pkt_wf d \<and> pkt_bytes d = pkt_bytes q"
    using ip_datagram_arrives [OF q(2,3) n assms(10-12), of mac s now "from"] by blast
  have "\<exists>v' g. udp_received d (ip_host s) (ia_ip dst) v = Some v'
      \<and> q_items (ucs_queue (chan v' j)) = q_items (ucs_queue (chan v j)) @ [g]
      \<and> q_not_empty (ucs_queue (chan v' j)) = None
      \<and> dg_src g = \<lparr>ia_ip = ip_host s, ia_port = nc_port c\<rparr> \<and> dg_dst g = dst \<and> pkt_bytes (dg_data g) = pkt_bytes p"
    if d: "pkt_wf d" "pkt_bytes d = pkt_bytes q" for d
  proof -
    obtain g where g: "native_datagram (ip_host s) (ia_ip dst) d = Some g"
        "dg_src g = \<lparr>ia_ip = ip_host s, ia_port = nc_port c\<rparr>" "dg_dst g = dst" "pkt_bytes (dg_data g) = pkt_bytes p"
      using native_datagram_spec [OF d(1), of "sent_udp_hdr (nc_port c) dst (pk_len p + 8) ck" "pkt_bytes p"
          "ip_host s" "ia_ip dst"] d(2) q(5) by (auto simp: sent_udp_hdr_def)
    with udp_received_queues [OF g(1), of v j] assms(13-15) show ?thesis
      by auto
  qed
  then have "\<exists>r' d v' g. handle_received_packet env' now w from r = Some r'
      \<and> ip_out r' = ip_out r @ [Deliver proto_udp d (ip_host s) (ia_ip dst)]
      \<and> udp_received d (ip_host s) (ia_ip dst) v = Some v'
      \<and> q_items (ucs_queue (chan v' j)) = q_items (ucs_queue (chan v j)) @ [g]
      \<and> q_not_empty (ucs_queue (chan v' j)) = None
      \<and> dg_src g = \<lparr>ia_ip = ip_host s, ia_port = nc_port c\<rparr> \<and> dg_dst g = dst \<and> pkt_bytes (dg_data g) = pkt_bytes p"
    if "pkt_wf w" "pkt_bytes w = pkt_bytes x @ pad" for w pad
    using deliver [OF that] by blast
  with u1(1) u2 x show ?thesis
    by (intro exI [of _ u1] exI [of _ ?l4] exI [of _ u2] exI [of _ x]) simp
qed

definition sample_udp :: "u16 \<Rightarrow> udp" where
  "sample_udp port = udp_init\<lparr>udp_channels := [port \<mapsto> 0], udp_states := [new_channel_state 1024]\<rparr>"

theorem udp_datagram_delivered_witness:
  "\<exists>s u1 l4 u2 q r' d v' g. channel_send sample_ip_env \<lparr>nc_port = 1000, nc_closed = False, nc_state = 0\<rparr>
      \<lparr>ia_ip = 0x0a000002, ia_port = 53\<rparr> (pkt_copy [1, 2, 3]) (s, sample_udp 1000) = Some (s, u1)
    \<and> udp_provide u1 = (Some l4, u2)
    \<and> ip_send sample_ip_env (l4_to l4) (l4_proto l4) (l4_pkt l4) (l4_dst l4) s
        = Some (s\<lparr>ip_packetq := [([9, 9, 9, 9, 9, 9], q)]\<rparr>)
    \<and> handle_received_packet sample_ip_env 0 (pkt_copy (pkt_bytes q @ replicate 12 0)) [8, 8, 8, 8, 8, 8]
        (sample_host 0x0a000002) = Some r'
    \<and> udp_received d (ip_host s) 0x0a000002 (sample_udp 53) = Some v' \<and> q_items (ucs_queue (chan v' 0)) = [g]
    \<and> dg_src g = \<lparr>ia_ip = 0x0a000001, ia_port = 1000\<rparr> \<and> pkt_bytes (dg_data g) = [1, 2, 3]"
proof -
  define s where "s = (sample_host 0x0a000001)\<lparr>ip_arp := arp_learn [9, 9, 9, 9, 9, 9] 0x0a000002 (arp_init [1, 2, 3, 4, 5, 6])\<rparr>"
  define dst where "dst = \<lparr>ia_ip = 0x0a000002, ia_port = 53\<rparr>"
  define c where "c = \<lparr>nc_port = 1000, nc_closed = False, nc_state = 0\<rparr>"
  let ?p = "pkt_copy [1, 2, 3]"
  note wf = pkt_copy_spec(2,3) [of "[1, 2, 3]"]
  have p: "summable False (map fr_data (pk_frags ?p))" "pk_len ?p + 28 \<le> unat (hw_mtu (env_hw sample_ip_env))"
    by (simp_all add: pkt_copy_def Let_def internal_data_size_def)
  have a: "arp_table (ip_arp s) (next_hop (ia_ip dst) s) = Some [9, 9, 9, 9, 9, 9]"
    by (simp add: s_def dst_def next_hop_def in_my_netmask_def sample_host_def arp_learn_def arp_init_def)
  have u: "udp_packetq (sample_udp 1000) = []" "settled (ucs_space (chan (sample_udp 1000) (nc_state c)))"
      "queued (ucs_space (chan (sample_udp 1000) (nc_state c))) = []"
      "int (pk_len ?p) \<le> units (ucs_space (chan (sample_udp 1000) (nc_state c)))"
    using settled_init [of send_buffer_size, where 'a = send_request and 'b = unit] ef.fresh [where 'a = "send_request \<times> u64"]
    by (simp_all add: c_def sample_udp_def udp_init_def new_channel_state_def pkt_copy_def Let_def internal_data_size_def)
      (simp_all add: sem_init_def send_buffer_size_def)
  have v: "udp_channels (sample_udp 53) (ia_port dst) = Some 0" "0 < length (udp_states (sample_udp 53))"
      "length (q_items (ucs_queue (chan (sample_udp 53) 0))) < q_max (ucs_queue (chan (sample_udp 53) 0))"
      "q_items (ucs_queue (chan (sample_udp 53) 0)) = []"
    by (simp_all add: dst_def sample_udp_def udp_init_def new_channel_state_def q_init_def)
  have e: "\<not> tx_csum_ip_offload (env_hw sample_ip_env) \<or> rx_csum_offload (env_hw sample_ip_env)"
      "ip_host (sample_host 0x0a000002) = ia_ip dst" "ip_filter (sample_host 0x0a000002) = None"
    by (simp_all add: dst_def)
  note delivered = udp_datagram_delivered [OF wf p a u e v(1-3), of 0 "[8, 8, 8, 8, 8, 8]"]
  then obtain u1 l4 u2 q where sent: "channel_send sample_ip_env c dst ?p (s, sample_udp 1000) = Some (s, u1)"
      "udp_provide u1 = (Some l4, u2)"
      "ip_send sample_ip_env (l4_to l4) (l4_proto l4) (l4_pkt l4) (l4_dst l4) s
        = Some (s\<lparr>ip_packetq := ip_packetq s @ [([9, 9, 9, 9, 9, 9], q)]\<rparr>)"
    and recv: "\<forall>w pad. pkt_wf w \<and> pkt_bytes w = pkt_bytes q @ pad \<longrightarrow>
      (\<exists>r' d v' g. handle_received_packet sample_ip_env 0 w [8, 8, 8, 8, 8, 8] (sample_host 0x0a000002) = Some r'
        \<and> ip_out r' = ip_out (sample_host 0x0a000002) @ [Deliver proto_udp d (ip_host s) (ia_ip dst)]
        \<and> udp_received d (ip_host s) (ia_ip dst) (sample_udp 53) = Some v'
        \<and> q_items (ucs_queue (chan v' 0)) = q_items (ucs_queue (chan (sample_udp 53) 0)) @ [g]
        \<and> q_not_empty (ucs_queue (chan v' 0)) = None
        \<and> dg_src g = \<lparr>ia_ip = ip_host s, ia_port = nc_port c\<rparr> \<and> dg_dst g = dst
        \<and> pkt_bytes (dg_data g) = pkt_bytes ?p)"
    by blast
  obtain r' d v' g where "handle_received_packet sample_ip_env 0 (pkt_copy (pkt_bytes q @ replicate 12 0)) [8, 8, 8, 8, 8, 8]
        (sample_host 0x0a000002) = Some r'"
      "udp_received d (ip_host s) 0x0a000002 (sample_udp 53) = Some v'" "q_items (ucs_queue (chan v' 0)) = [g]"
      "dg_src g = \<lparr>ia_ip = ip_host s, ia_port = 1000\<rparr>" "pkt_bytes (dg_data g) = pkt_bytes ?p"
    using recv [THEN spec, THEN spec, of "pkt_copy (pkt_bytes q @ replicate 12 0)" "replicate 12 0"] v(4) by (auto simp: pkt_copy_spec dst_def c_def)
  moreover from this(4,5) have "dg_src g = \<lparr>ia_ip = 0x0a000001, ia_port = 1000\<rparr>" "pkt_bytes (dg_data g) = [1, 2, 3]"
    by (simp_all add: pkt_copy_spec s_def)
  moreover have "ip_packetq s = []"
    by (simp add: s_def sample_host_def)
  ultimately show ?thesis
    using sent unfolding dst_def c_def by (metis append_Nil)
qed

text \<open>
  C30. The UDP checksum. The packet made for a datagram is its payload behind a UDP header with the
  ports and the length. If the checksum is computed here, the Internet checksum over pseudo header
  and packet is zero; if it is left to the hardware, the field holds the folded sum of the pseudo
  header, so that the checksum over the packet alone, which the hardware puts there, is that over
  pseudo header and packet.
\<close>

theorem udp_checksum_covers_pseudo_header:
  assumes "pkt_wf p" "pkt_room p" "summable False (map fr_data (pk_frags p))" "pk_len p + 8 < 2 ^ 31"
  shows "\<exists>q ck. udp_packet env src sport dst p = Some q
    \<and> pkt_bytes q = udp_hdr_bytes (sent_udp_hdr sport dst (pk_len p + 8) ck) @ pkt_bytes p
    \<and> (if oi_needs_csum (pk_offload q)
       then ip_checksum (pkt_bytes q) = ip_checksum (udp_pseudo_hdr src (ia_ip dst) (of_nat (pk_len p + 8))
              @ udp_hdr_bytes (sent_udp_hdr sport dst (pk_len p + 8) 0) @ pkt_bytes p)
       else ip_checksum (udp_pseudo_hdr src (ia_ip dst) (of_nat (pk_len p + 8)) @ pkt_bytes q) = Some 0)"
  using udp_packet_spec [OF assms, where src = src and env = env and sport = sport and dst = dst] by metis

theorem udp_checksum_covers_pseudo_header_witness:
  "\<exists>q ck. udp_packet sample_ip_env 0x0a000001 1000 \<lparr>ia_ip = 0x0a000002, ia_port = 53\<rparr> (pkt_of_frags [[1, 2, 3], [4]]) = Some q
    \<and> pkt_bytes q = udp_hdr_bytes (sent_udp_hdr 1000 \<lparr>ia_ip = 0x0a000002, ia_port = 53\<rparr> 12 ck) @ [1, 2, 3, 4]"
proof -
  let ?p = "pkt_of_frags [[1, 2, 3], [4]]"
  have "summable False (map fr_data (pk_frags ?p))" "pk_len ?p + 8 < 2 ^ 31" "pk_len ?p + 8 = 12"
    by (simp_all add: pkt_of_frags_def external_def)
  with udp_checksum_covers_pseudo_header [of ?p, where env = sample_ip_env and src = "0x0a000001" and sport = "1000"
        and dst = "\<lparr>ia_ip = 0x0a000002, ia_port = 53\<rparr>"]
  show ?thesis
    by (auto simp: pkt_of_frags_spec)
qed

text \<open>
  C31. The search for an anonymous port ends: it takes the first port, counting up from the next
  anonymous port and on from 0 after 65535, that no channel is bound to, registers the channel
  there with an empty state of its own, and remembers the port after it; it fails only if all
  65536 ports are taken. The intended range from 32768 is not kept: the counter wraps to 0.
\<close>

theorem make_channel_finds_port:
  "case make_channel \<lparr>ia_ip = 0, ia_port = 0\<rparr> u of
    Inl e \<Rightarrow> e = No_free_port \<and> (\<forall>p. udp_channels u p \<noteq> None)
  | Inr (c, v) \<Rightarrow> udp_channels u (nc_port c) = None
      \<and> (\<forall>k < unat (nc_port c - udp_next_anonymous_port u). udp_channels u (udp_next_anonymous_port u + of_nat k) \<noteq> None)
      \<and> udp_channels v = (udp_channels u)(nc_port c \<mapsto> nc_state c) \<and> udp_next_anonymous_port v = nc_port c + 1
      \<and> udp_states v = udp_states u @ [new_channel_state (nat (udp_queue_size u mod 2 ^ 64))]
      \<and> nc_state c = length (udp_states u) \<and> \<not> nc_closed c"
proof -
  let ?start = "udp_next_anonymous_port u" and ?used = "\<lambda>p. udp_channels u p \<noteq> None"
  have "used_up_to ?start ?used ?start"
    by (simp add: used_up_to_def)
  from find_port_spec [OF this] show ?thesis
    by (cases "find_port ?start ?used ?start") (simp_all add: make_channel_def Let_def used_up_to_def)
qed

theorem make_channel_finds_port_witness:
  "\<exists>c v. make_channel \<lparr>ia_ip = 0, ia_port = 0\<rparr> (udp_init\<lparr>udp_channels := [65535 \<mapsto> 0], udp_next_anonymous_port := 65535\<rparr>)
    = Inr (c, v) \<and> nc_port c = 0"
proof -
  let ?u = "udp_init\<lparr>udp_channels := [65535 \<mapsto> 0], udp_next_anonymous_port := 65535\<rparr>"
  have "udp_channels ?u 0 = None"
    by simp
  then have "\<not> (\<forall>p. udp_channels ?u p \<noteq> None)"
    by blast
  then obtain c v where m: "make_channel \<lparr>ia_ip = 0, ia_port = 0\<rparr> ?u = Inr (c, v)"
    using make_channel_finds_port [of ?u]
    by (cases "make_channel \<lparr>ia_ip = 0, ia_port = 0\<rparr> ?u") (auto simp del: not_None_eq not_all fun_upd_apply)
  then have c: "nc_port c \<noteq> 65535" "\<forall>k < unat (nc_port c - 65535). udp_channels ?u (65535 + of_nat k) \<noteq> None"
    using make_channel_finds_port [of ?u] by auto
  have "\<not> 1 < unat (nc_port c - 65535)"
    using c(2) [THEN spec, of 1] by auto
  moreover have "unat (nc_port c - 65535) \<noteq> 0"
    using c(1) by (simp add: unat_eq_0)
  ultimately have "unat (nc_port c - 65535) = unat (1 :: u16)"
    by simp
  then have "nc_port c - 65535 = 1"
    by (rule unsigned_word_eqI)
  then have "nc_port c = 1 + 65535"
    by (simp only: diff_eq_eq)
  with m show ?thesis by simp
qed

text \<open>
  A datagram shorter than its header is fatal: \<open>received\<close> does not check that the header is
  there, so exactly the packets of fewer than 8 bytes make it dereference a null pointer.
\<close>

theorem udp_short_datagram_undefined:
  assumes "pkt_wf p"
  shows "udp_received p src dst u = None \<longleftrightarrow> length (pkt_bytes p) < 8"
proof (cases "length (pkt_bytes p) < 8")
  case True
  then show ?thesis
    using pkt_get_header_spec [OF assms, of 8 0] by (auto simp: udp_received_def native_datagram_def)
next
  case False
  then obtain h a where a: "pkt_get_header 0 8 p = Some (Some h, a)" "pkt_bytes a = pkt_bytes p" "pkt_wf a"
    using pkt_get_header_spec [OF assms, of 8 0] by auto
  then obtain q where "pkt_trim_front 8 a = Some q"
    using pkt_trim_front_spec [OF a(3), of 8] False by auto
  with a(1) False show ?thesis
    by (auto simp: udp_received_def native_datagram_def Let_def split: option.splits)
qed

theorem udp_short_datagram_undefined_witness: "udp_received (pkt_copy [0, 53, 0]) 1 2 udp_init = None"
  using udp_short_datagram_undefined [OF pkt_copy_spec(2), of "[0, 53, 0]" 1 2 udp_init] by (simp add: pkt_copy_spec)

end
