(* ===== verification/Udp_Accounting.thy ===== *)
theory Udp_Accounting
  imports Udp_Channel
begin

text \<open>
  Invariants of UDP over all runs: \<open>udp_step\<close> is everything that can happen to the channels, in
  any order, with anything else happening to IP in between. Shown are the accounting of the send
  buffers (\<open>space_inv\<close>) and the well-formedness of the state (\<open>udp_wf\<close>).
\<close>

section \<open>The send buffer\<close>

definition held :: "nat \<Rightarrow> hold list \<Rightarrow> int" where
  "held i hs = (\<Sum>(j, l)\<leftarrow>hs. if j = i then uint l else 0)"

definition packet_holds :: "udp \<Rightarrow> hold list" where
  "packet_holds u = map sr_hold (udp_ready u) @ map (fst \<circ> snd) (udp_resolving u) @ map fst (udp_packetq u) @ udp_in_flight u"

definition space_ok :: "nat \<Rightarrow> hold list \<Rightarrow> (send_request, unit) sem \<Rightarrow> bool" where
  "space_ok i hs m \<longleftrightarrow> settled m \<and> sem_ex m = None \<and> 0 \<le> units m \<and> units m + held i hs = uint send_buffer_size
    \<and> list_all (\<lambda>(r, nr). sr_hold r = (i, nr)) (queued m)"

text \<open>The invariant, for the packets that hold space (\<open>hs\<close>).\<close>

definition space_inv :: "hold list \<Rightarrow> udp \<Rightarrow> bool" where
  "space_inv hs u \<longleftrightarrow> (\<forall>i < length (udp_states u). space_ok i hs (ucs_space (chan u i)))
    \<and> (\<forall>h\<in>set hs. fst h < length (udp_states u))"

lemma held_simps [simp]:
  "held i [] = 0" "held i ((j, l) # hs) = (if j = i then uint l else 0) + held i hs"
  "held i (xs @ ys) = held i xs + held i ys"
  by (simp_all add: held_def)

lemma held_nonneg: "0 \<le> held i hs"
  by (induction hs) auto

lemma held_Cons: "held i (h # hs) = held i [h] + held i hs"
  by (cases h) simp

lemma held_remove1: "x \<in> set xs \<Longrightarrow> held i (map f (remove1 x xs)) = held i (map f xs) - held i [f x]"
  by (induction xs) (auto simp: held_Cons [of i _ "map f _"] simp del: held_simps(2))

lemma space_inv_cong:
  assumes "space_inv hs u" "udp_states v = udp_states u" "\<And>i. held i gs = held i hs" "set gs \<subseteq> set hs"
  shows "space_inv gs v"
  using assms by (auto simp: space_inv_def space_ok_def)

lemma space_inv_queue [simp]:
  "space_inv hs (set_chan i ((chan u i)\<lparr>ucs_queue := q\<rparr>) u) = space_inv hs u"
proof -
  have "ucs_space ((udp_states u)[i := (chan u i)\<lparr>ucs_queue := q\<rparr>] ! k) = ucs_space (chan u k)"
    if "k < length (udp_states u)" for k
    using that by (cases "k = i") simp_all
  then show ?thesis
    by (simp add: space_inv_def set_chan_def)
qed

lemma holds_set_chan [simp]: "packet_holds (set_chan i c u) = packet_holds u"
  by (simp add: packet_holds_def set_chan_def)

lemma space_inv_space:
  assumes "space_inv hs u" "i < length (udp_states u)" "space_ok i gs m"
    and "\<And>j. j \<noteq> i \<Longrightarrow> held j gs = held j hs" "\<forall>h\<in>set gs. fst h < length (udp_states u)"
  shows "space_inv gs (set_chan i ((chan u i)\<lparr>ucs_space := m\<rparr>) u)"
  unfolding space_inv_def
proof (intro conjI allI impI)
  fix k
  let ?v = "set_chan i ((chan u i)\<lparr>ucs_space := m\<rparr>) u"
  assume "k < length (udp_states ?v)"
  then have k: "k < length (udp_states u)"
    by (simp add: set_chan_def)
  show "space_ok k gs (ucs_space (chan ?v k))"
  proof (cases "k = i")
    case True
    with assms(2,3) show ?thesis by (simp add: set_chan_def)
  next
    case False
    with assms(1,4) k show ?thesis
      by (simp add: set_chan_def space_inv_def space_ok_def)
  qed
qed (use assms(5) in \<open>simp add: set_chan_def\<close>)

text \<open>Granting waiters moves their units from the counter to the packets.\<close>

lemma held_granted:
  assumes "list_all (\<lambda>(r, nr). sr_hold r = (i, nr)) xs"
  shows "held j (map sr_hold (map fst xs)) = (if j = i then total_units xs else 0)"
  using assms by (induction xs) auto

lemma newly_granted_log:
  "sem_log t = sem_log m @ granted xs \<Longrightarrow> newly_granted m t = map fst xs"
  by (simp add: newly_granted_def granted_def filter_map comp_def case_prod_beta)

lemma complete_send_ok:
  assumes "space_inv (h # packet_holds u) u"
  shows "\<exists>v. complete_send h u = Some v \<and> space_inv (packet_holds v) v"
proof -
  obtain i l where h: "h = (i, l)" by fastforce
  let ?m = "ucs_space (chan u i)"
  have i: "i < length (udp_states u)" and ok: "space_ok i (h # packet_holds u) ?m"
    using assms h by (auto simp: space_inv_def)
  have m: "ef_inv (sem_waiters ?m)" "sem_ex ?m = None"
    using ok by (simp_all add: space_ok_def settled_def)
  have "units ?m + uint l \<le> uint send_buffer_size"
    using ok h held_nonneg [of i "packet_holds u"] by (simp add: space_ok_def)
  then have "units ?m + uint l < 2 ^ 63"
    by (simp add: send_buffer_size_def)
  then obtain t k where t: "sem_signal l ?m = Some t" "settled t" "sem_ex t = None" "queued t = drop k (queued ?m)"
      "sem_log t = sem_log ?m @ granted (take k (queued ?m))"
      "units t = units ?m + uint l - total_units (take k (queued ?m))" "0 < k \<longrightarrow> 0 \<le> units t"
    using sem_signal_spec [of ?m l] m by blast
  have all: "list_all (\<lambda>(r, nr). sr_hold r = (i, nr)) (queued ?m)"
    using ok by (simp add: space_ok_def)
  have all': "list_all (\<lambda>(r, nr). sr_hold r = (i, nr)) (take k (queued ?m))"
      "list_all (\<lambda>(r, nr). sr_hold r = (i, nr)) (drop k (queued ?m))"
    using all by (metis append_take_drop_id list_all_append)+
  let ?g = "map fst (take k (queued ?m))"
  let ?v = "(set_chan i ((chan u i)\<lparr>ucs_space := t\<rparr>) u)\<lparr>udp_ready := udp_ready u @ ?g\<rparr>"
  have c: "complete_send h u = Some ?v"
    using t(1) newly_granted_log [OF t(5)] by (simp add: complete_send_def h Let_def)
  have hv: "held j (packet_holds ?v) = held j (packet_holds u) + (if j = i then total_units (take k (queued ?m)) else 0)" for j
    using held_granted [OF all'(1), of j] by (simp add: packet_holds_def set_chan_def)
  have "0 \<le> units t"
    using t(6,7) ok uint_ge_0 [of l] by (cases "k = 0") (auto simp: space_ok_def)
  then have "space_ok i (packet_holds ?v) t"
    using t(2-4,6) ok all'(2) hv [of i] by (simp add: space_ok_def h)
  moreover have "held j (packet_holds ?v) = held j (h # packet_holds u)" if "j \<noteq> i" for j
    using that hv [of j] by (simp add: h)
  moreover have "\<forall>x\<in>set (packet_holds ?v). fst x < length (udp_states u)"
  proof -
    have "fst x = i" if "x \<in> set (map sr_hold ?g)" for x
      using that all'(1) by (auto simp: list_all_iff)
    then show ?thesis
      using assms i by (auto simp: space_inv_def packet_holds_def set_chan_def)
  qed
  ultimately have "space_inv (packet_holds ?v) (set_chan i ((chan u i)\<lparr>ucs_space := t\<rparr>) u)"
    using space_inv_space [OF assms i] by blast
  then have "space_inv (packet_holds ?v) ?v"
    by (rule space_inv_cong) simp_all
  with c show ?thesis by blast
qed

lemma udp_send_cases:
  assumes "udp_send env r (s, u) = Some (t, v)"
  obtains (queued) l4p where "v = u\<lparr>udp_packetq := udp_packetq u @ [(sr_hold r, l4p)]\<rparr>"
  | (resolving) k x where "v = u\<lparr>udp_resolving := udp_resolving u @ [(k, sr_hold r, x)]\<rparr>"
  | (dropped) "complete_send (sr_hold r) u = Some v"
proof -
  obtain res t' where l2: "get_l2_dst_address (ia_ip (sr_dst r)) s = (res, t')"
    by fastforce
  from that show thesis
    using assms by (cases res) (auto simp: udp_send_def l2 bind_eq_Some_conv)
qed

lemma udp_send_ok:
  assumes "space_inv (sr_hold r # packet_holds u) u" "udp_send env r (s, u) = Some (t, v)"
  shows "space_inv (packet_holds v) v"
proof -
  obtain j l where h: "sr_hold r = (j, l)"
    by fastforce
  from assms(2) show ?thesis
  proof (cases rule: udp_send_cases)
    case dropped
    with complete_send_ok [OF assms(1)] show ?thesis by auto
  qed (use assms(1) in \<open>auto intro!: space_inv_cong [OF assms(1)] simp: packet_holds_def h simp del: set_map\<close>)
qed

lemma channel_send_ok:
  assumes "space_inv (packet_holds u) u" "nc_state c < length (udp_states u)"
    and "channel_send env c dst p (s, u) = Some (t, v)"
  shows "space_inv (packet_holds v) v"
proof -
  define i len where "i = nc_state c" and "len = (of_nat (pk_len p) :: u64)"
  define m r where "m = ucs_space (chan u i)"
    and "r = \<lparr>sr_port = nc_port c, sr_dst = dst, sr_pkt = p, sr_hold = (i, len)\<rparr>"
  let ?w = "sem_wait r len False m"
  let ?u = "set_chan i ((chan u i)\<lparr>ucs_space := ?w\<rparr>) u"
  have i: "i < length (udp_states u)" and ok: "space_ok i (packet_holds u) m"
    using assms(1,2) by (auto simp: space_inv_def i_def m_def)
  then have m: "settled m" "sem_ex m = None"
    by (simp_all add: space_ok_def)
  have w: "settled ?w" "sem_ex ?w = None"
    using sem_wait_spec [OF m(1)] m(2) by (simp_all add: sem_wait_def)
  have fsts: "\<forall>h\<in>set ((i, len) # packet_holds u). fst h < length (udp_states u)"
    using assms(1) i by (auto simp: space_inv_def)
  show ?thesis
  proof (cases "may_proceed len m")
    case True
    then have q: "sem_waiters ?w = sem_waiters m" "units ?w = units m - uint len" "0 \<le> units ?w"
        "newly_granted m ?w = [r]"
      using sint_diff [of "sem_count m" len]
      by (simp_all add: sem_wait_def newly_granted_def may_proceed_def has_available_units_iff)
    then have "space_ok i ((i, len) # packet_holds u) ?w"
      using ok w by (simp add: space_ok_def)
    then have "space_inv (sr_hold r # packet_holds ?u) ?u"
      using space_inv_space [OF assms(1) i _ _ fsts] by (simp add: r_def)
    moreover have "udp_send env r (s, ?u) = Some (t, v)"
      using assms(3) q(4) unfolding m_def r_def by (simp add: channel_send_def Let_def i_def len_def)
    ultimately show ?thesis
      by (rule udp_send_ok)
  next
    case False
    then have w': "?w = m\<lparr>sem_waiters := ef_push_back (r, len) False (sem_waiters m)\<rparr>"
      using m(2) by (simp add: sem_wait_def)
    have "queued ?w = queued m @ [(r, len)]" "units ?w = units m"
      using ef.push_back [of "sem_waiters m" "(r, len)" False] m(1) by (simp_all add: w' settled_def)
    moreover have "sr_hold r = (i, len)"
      by (simp add: r_def)
    ultimately have "space_ok i (packet_holds u) ?w"
      using ok w by (simp add: space_ok_def)
    then have "space_inv (packet_holds ?u) ?u"
      using space_inv_space [OF assms(1) i] fsts by simp
    moreover have "newly_granted m ?w = []"
      by (simp add: newly_granted_def w')
    then have "v = ?u"
      using assms(3) unfolding m_def r_def by (simp add: channel_send_def Let_def i_def len_def)
    ultimately show ?thesis by simp
  qed
qed

text \<open>Everything that can happen to UDP; \<open>network\<close> is what else happens to IP in between.\<close>

inductive udp_step :: "ip_env \<Rightarrow> ipv4 \<times> udp \<Rightarrow> ipv4 \<times> udp \<Rightarrow> bool" for env where
  make: "make_channel addr u = Inr (c, v) \<Longrightarrow> udp_step env (s, u) (s, v)"
| close: "nc_state c < length (udp_states u) \<Longrightarrow> channel_close c u = Some (c', v) \<Longrightarrow> udp_step env (s, u) (s, v)"
| destroy: "nc_state c < length (udp_states u) \<Longrightarrow> channel_destroy c u = Some v \<Longrightarrow> udp_step env (s, u) (s, v)"
| receive: "nc_state c < length (udp_states u) \<Longrightarrow> channel_receive c u = Some (r, v) \<Longrightarrow> udp_step env (s, u) (s, v)"
| receive_resume: "nc_state c < length (udp_states u) \<Longrightarrow> channel_receive_resume c u = Some (r, v) \<Longrightarrow>
    udp_step env (s, u) (s, v)"
| send: "nc_state c < length (udp_states u) \<Longrightarrow> channel_send env c dst p (s, u) = Some sv \<Longrightarrow> udp_step env (s, u) sv"
| send_resume: "channel_send_resume env (s, u) = Some sv \<Longrightarrow> udp_step env (s, u) sv"
| l2_settled: "udp_l2_settled k res u = Some v \<Longrightarrow> udp_step env (s, u) (s, v)"
| provide: "udp_provide u = (l4p, v) \<Longrightarrow> udp_step env (s, u) (s, v)"
| packet_gone: "udp_packet_gone h u = Some v \<Longrightarrow> udp_step env (s, u) (s, v)"
| received: "udp_received p from to u = Some v \<Longrightarrow> udp_step env (s, u) (s, v)"
| queue_size: "udp_step env (s, u) (s, set_queue_size n u)"
| network: "udp_step env (s, u) (s', u)"

lemma queue_ops_ok:
  "channel_receive c u = Some (r, v) \<Longrightarrow> space_inv (packet_holds v) v = space_inv (packet_holds u) u"
  "channel_receive_resume c u = Some (r, v) \<Longrightarrow> space_inv (packet_holds v) v = space_inv (packet_holds u) u"
  "udp_received p from to u = Some v \<Longrightarrow> space_inv (packet_holds v) v = space_inv (packet_holds u) u"
  "space_inv (packet_holds (channel_abort e c u)) (channel_abort e c u) = space_inv (packet_holds u) u"
  by (auto simp: channel_receive_def channel_receive_resume_def udp_received_def channel_abort_def Let_def
      split: option.splits)

lemma space_inv_frame:
  "udp_states v = udp_states u \<Longrightarrow> packet_holds v = packet_holds u \<Longrightarrow>
    space_inv (packet_holds v) v = space_inv (packet_holds u) u"
  by (simp add: space_inv_def)

lemma unregister_ok:
  "unregister p u = Some v \<Longrightarrow> space_inv (packet_holds v) v = space_inv (packet_holds u) u"
  by (rule space_inv_frame) (auto simp: unregister_def packet_holds_def split: if_splits)

lemma channel_close_ok:
  "channel_close c u = Some (c', v) \<Longrightarrow> space_inv (packet_holds v) v = space_inv (packet_holds u) u"
  by (auto simp: channel_close_def queue_ops_ok(4) dest: unregister_ok)

lemma make_channel_ok:
  assumes "make_channel addr u = Inr (c, v)" "space_inv (packet_holds u) u"
  shows "space_inv (packet_holds v) v"
proof -
  obtain n where v: "udp_states v = udp_states u @ [new_channel_state n]" "packet_holds v = packet_holds u"
    using assms(1) by (auto simp: make_channel_def packet_holds_def Let_def split: sum.splits if_splits option.splits)
  have fsts: "\<forall>h\<in>set (packet_holds u). fst h < length (udp_states u)"
    using assms(2) by (simp add: space_inv_def)
  have "held (length (udp_states u)) hs = 0" if "\<forall>h\<in>set hs. fst h < length (udp_states u)" for hs
    using that by (induction hs) auto
  from this [OF fsts] have "space_ok (length (udp_states u)) (packet_holds u) (ucs_space (new_channel_state n))"
    using settled_init [of 212992, where 'a = send_request and 'b = unit] ef.fresh [where 'a = "send_request \<times> u64"]
    by (simp add: space_ok_def new_channel_state_def sem_init_def send_buffer_size_def)
  then show ?thesis
    using assms(2) fsts unfolding space_inv_def v
    by (auto simp: nth_append less_Suc_eq)
qed

lemma l2_settled_ok:
  assumes "udp_l2_settled k res u = Some v" "space_inv (packet_holds u) u"
  shows "space_inv (packet_holds v) v"
proof -
  obtain h to p where x: "map_of (udp_resolving u) k = Some (h, to, p)"
    using assms(1) by (auto simp: udp_l2_settled_def split: option.splits)
  then have x': "(k, h, to, p) \<in> set (udp_resolving u)"
    by (rule map_of_SomeD)
  let ?u = "u\<lparr>udp_resolving := remove1 (k, h, to, p) (udp_resolving u)\<rparr>"
  obtain j l where h: "h = (j, l)"
    by fastforce
  have "space_inv (h # packet_holds ?u) ?u"
  proof (rule space_inv_cong [OF assms(2)])
    show "held i (h # packet_holds ?u) = held i (packet_holds u)" for i
      using held_remove1 [OF x', of i "fst \<circ> snd"] by (simp add: packet_holds_def h)
    have "h \<in> (fst \<circ> snd) ` set (udp_resolving u)"
      using image_eqI [OF _ x', of h "fst \<circ> snd"] by simp
    then show "set (h # packet_holds ?u) \<subseteq> set (packet_holds u)"
      using image_mono [OF set_remove1_subset [of "(k, h, to, p)" "udp_resolving u"], of "fst \<circ> snd"]
      unfolding packet_holds_def set_append list.set set_map by simp blast
  qed simp
  note u = this
  show ?thesis
  proof (cases res)
    case (Resolved mac)
    then have v: "v = ?u\<lparr>udp_packetq := udp_packetq ?u
        @ [(h, \<lparr>l4_to = to, l4_pkt = p, l4_dst = mac, l4_proto = proto_udp\<rparr>)]\<rparr>"
      using assms(1) x by (simp add: udp_l2_settled_def Let_def)
    show ?thesis
      unfolding v by (rule space_inv_cong [OF u]) (auto simp: packet_holds_def h)
  next
    case Arp_timeout_error
    then show ?thesis
      using assms(1) x complete_send_ok [OF u] by (auto simp: udp_l2_settled_def Let_def)
  qed
qed

lemma packet_gone_ok:
  assumes "h \<in> set (udp_in_flight u)" "space_inv (packet_holds u) u"
  shows "\<exists>v. udp_packet_gone h u = Some v \<and> space_inv (packet_holds v) v"
proof -
  let ?u = "u\<lparr>udp_in_flight := remove1 h (udp_in_flight u)\<rparr>"
  obtain j l where h: "h = (j, l)"
    by fastforce
  have "space_inv (h # packet_holds ?u) ?u"
  proof (rule space_inv_cong [OF assms(2)])
    show "held i (h # packet_holds ?u) = held i (packet_holds u)" for i
      using held_remove1 [OF assms(1), of i id] by (simp add: packet_holds_def h)
    show "set (h # packet_holds ?u) \<subseteq> set (packet_holds u)"
      using assms(1) set_remove1_subset [of h "udp_in_flight u"] by (auto simp: packet_holds_def)
  qed simp
  from complete_send_ok [OF this] assms(1) show ?thesis
    by (simp add: udp_packet_gone_def)
qed

lemma provide_ok:
  assumes "udp_provide u = (l4p, v)" "space_inv (packet_holds u) u"
  shows "space_inv (packet_holds v) v"
proof (cases "udp_packetq u")
  case (Cons x rest)
  then have v: "v = u\<lparr>udp_packetq := rest, udp_in_flight := udp_in_flight u @ [fst x]\<rparr>"
    using assms(1) by (auto simp: udp_provide_def split: prod.splits)
  obtain j l where x: "fst x = (j, l)"
    by fastforce
  show ?thesis
    by (rule space_inv_cong [OF assms(2)]) (auto simp: v packet_holds_def Cons x simp del: set_map)
qed (use assms in \<open>simp add: udp_provide_def\<close>)

lemma udp_step_ok:
  "udp_step env su tv \<Longrightarrow> space_inv (packet_holds (snd su)) (snd su) \<Longrightarrow> space_inv (packet_holds (snd tv)) (snd tv)"
proof (induction rule: udp_step.induct)
  case (destroy c u v s)
  then show ?case
    using channel_close_ok [of c u] by (auto simp: channel_destroy_def split: if_splits)
next
  case (send c u dst p s sv)
  then show ?case
    using channel_send_ok by (cases sv) auto
next
  case (send_resume s u sv)
  then obtain r rs where r: "udp_ready u = r # rs" "udp_send env r (s, u\<lparr>udp_ready := rs\<rparr>) = Some sv"
    by (auto simp: channel_send_resume_def split: list.splits)
  have "packet_holds u = sr_hold r # packet_holds (u\<lparr>udp_ready := rs\<rparr>)"
    by (simp add: packet_holds_def r(1))
  then have "space_inv (sr_hold r # packet_holds (u\<lparr>udp_ready := rs\<rparr>)) (u\<lparr>udp_ready := rs\<rparr>)"
    using send_resume(2) by (simp add: space_inv_def)
  with r(2) show ?case
    using udp_send_ok by (cases sv) auto
next
  case (provide u l4p v s)
  then show ?case
    using provide_ok by simp
next
  case (packet_gone h u v s)
  then show ?case
    using packet_gone_ok [of h u] by (auto simp: udp_packet_gone_def split: if_splits)
next
  case (queue_size s u n)
  then show ?case
    using space_inv_frame [of "set_queue_size n u" u] by (simp add: set_queue_size_def packet_holds_def)
qed (simp_all add: make_channel_ok channel_close_ok queue_ops_ok l2_settled_ok)

section \<open>Well-formed states\<close>

definition queue_ok :: "('a, 'e) queue \<Rightarrow> bool" where
  "queue_ok q \<longleftrightarrow> q_inv q \<and> length (q_items q) \<le> q_max q"

text \<open>Ports name different existing cells, and the queues keep their bound.\<close>

definition udp_wf :: "udp \<Rightarrow> bool" where
  "udp_wf u \<longleftrightarrow> (\<forall>p i. udp_channels u p = Some i \<longrightarrow> i < length (udp_states u))
    \<and> inj_on (udp_channels u) (dom (udp_channels u))
    \<and> (\<forall>c\<in>set (udp_states u). queue_ok (ucs_queue c))"

lemma queue_ok_init: "queue_ok (q_init n)"
  by (simp add: queue_ok_def q_init_def q_inv_def)

lemma queue_ok_push:
  assumes "queue_ok q"
  shows "queue_ok (snd (q_push a q))"
proof -
  have "q_inv (snd (q_push a q))"
    using q_push_spec [of q a "fst (q_push a q)" "snd (q_push a q)"] assms by (simp add: queue_ok_def)
  then show ?thesis
    using assms by (cases "length (q_items q) < q_max q") (simp_all add: queue_ok_def q_push_def)
qed

lemma q_pop_max: "q_pop q = Some (a, q') \<Longrightarrow> q_max q' = q_max q"
  by (auto simp: q_pop_def Let_def split: list.splits if_splits)

lemma queue_ok_pop: "queue_ok q \<Longrightarrow> q_pop q = Some (a, q') \<Longrightarrow> queue_ok q'"
  using q_pop_spec [of q a q'] q_pop_max [of q a q'] by (simp add: queue_ok_def)

lemma queue_ok_pop_eventually:
  assumes "queue_ok q" "q_pop_eventually q = Some (r, q')"
  shows "queue_ok q'"
proof (cases "q_is_empty q")
  case True
  then have "q' = snd (q_wait_not_empty q)"
    using assms(2) by (auto simp: q_pop_eventually_def q_wait_not_empty_def)
  moreover have "q_max (snd (q_wait_not_empty q)) = q_max q"
    by (simp add: q_wait_not_empty_def)
  ultimately show ?thesis
    using q_wait_spec(1) [of q] assms(1) by (simp add: queue_ok_def)
qed (use assms queue_ok_pop [of q] in \<open>auto simp: q_pop_eventually_def\<close>)

lemma queue_ok_pop_resume: "queue_ok q \<Longrightarrow> q_pop_resume q = Some (r, q') \<Longrightarrow> queue_ok q'"
  using queue_ok_pop [of q] by (auto simp: q_pop_resume_def split: option.splits)

lemma queue_ok_abort: "queue_ok (q_abort e q)"
  using q_abort_spec [of e q] by (simp add: queue_ok_def) (simp add: q_abort_def)

lemma udp_wf_set_chan:
  assumes "udp_wf u" "i < length (udp_states u)" "queue_ok (ucs_queue c)"
  shows "udp_wf (set_chan i c u)"
  using assms set_update_subset_insert [of "udp_states u" i c] by (auto simp: udp_wf_def set_chan_def)

lemma udp_wf_chan: "udp_wf u \<Longrightarrow> i < length (udp_states u) \<Longrightarrow> queue_ok (ucs_queue (chan u i))"
  by (simp add: udp_wf_def)

lemma udp_wf_frame:
  "udp_channels v = udp_channels u \<Longrightarrow> udp_states v = udp_states u \<Longrightarrow> udp_wf v = udp_wf u"
  by (simp add: udp_wf_def)

lemma complete_send_wf:
  assumes "udp_wf u" "fst h < length (udp_states u)" "complete_send h u = Some v"
  shows "udp_wf v"
proof -
  obtain t where v: "v = (set_chan (fst h) ((chan u (fst h))\<lparr>ucs_space := t\<rparr>) u)
      \<lparr>udp_ready := udp_ready u @ newly_granted (ucs_space (chan u (fst h))) t\<rparr>"
    using assms(3) by (auto simp: complete_send_def Let_def)
  have "udp_wf (set_chan (fst h) ((chan u (fst h))\<lparr>ucs_space := t\<rparr>) u)"
    using udp_wf_set_chan [OF assms(1,2)] udp_wf_chan [OF assms(1,2)] by simp
  then show ?thesis
    using udp_wf_frame [of v "set_chan (fst h) ((chan u (fst h))\<lparr>ucs_space := t\<rparr>) u"] by (simp add: v)
qed

lemma udp_send_wf:
  assumes "udp_wf u" "fst (sr_hold r) < length (udp_states u)" "udp_send env r (s, u) = Some (t, v)"
  shows "udp_wf v"
proof -
  have "udp_channels v = udp_channels u \<and> udp_states v = udp_states u \<or> complete_send (sr_hold r) u = Some v"
    using assms(3) by (cases rule: udp_send_cases) simp_all
  then show ?thesis
    using complete_send_wf [OF assms(1,2)] udp_wf_frame [of v u] assms(1) by blast
qed

text \<open>Together with the accounting, every step keeps the state well formed.\<close>

definition udp_ok :: "udp \<Rightarrow> bool" where
  "udp_ok u \<longleftrightarrow> space_inv (packet_holds u) u \<and> udp_wf u"

lemma packet_holds_states: "udp_ok u \<Longrightarrow> h \<in> set (packet_holds u) \<Longrightarrow> fst h < length (udp_states u)"
  by (simp add: udp_ok_def space_inv_def)

lemma queue_op_wf:
  assumes "udp_wf u" "i < length (udp_states u)" "queue_ok (ucs_queue (chan u i)) \<Longrightarrow> queue_ok q"
  shows "udp_wf (set_chan i ((chan u i)\<lparr>ucs_queue := q\<rparr>) u)"
  using udp_wf_set_chan [OF assms(1,2)] assms(3) udp_wf_chan [OF assms(1,2)] by simp

lemma queue_ops_wf:
  assumes "udp_wf u" "nc_state c < length (udp_states u)"
  shows "channel_receive c u = Some (r, v) \<Longrightarrow> udp_wf v"
    and "channel_receive_resume c u = Some (r, v) \<Longrightarrow> udp_wf v"
    and "udp_wf (channel_abort e c u)"
  by (auto simp: channel_receive_def channel_receive_resume_def channel_abort_def Let_def intro!: queue_op_wf [OF assms]
      intro: queue_ok_pop_eventually queue_ok_pop_resume queue_ok_abort)

lemma channel_close_wf:
  assumes "udp_wf u" "nc_state c < length (udp_states u)" "channel_close c u = Some (c', v)"
  shows "udp_wf v"
proof -
  let ?a = "channel_abort EBADF c u"
  obtain b where b: "unregister (nc_port c) ?a = Some b" "v = channel_abort EPIPE c b"
    using assms(3) by (auto simp: channel_close_def)
  have a: "udp_wf ?a" "length (udp_states ?a) = length (udp_states u)"
    using queue_ops_wf(3) [OF assms(1,2)] by (simp_all add: channel_abort_def set_chan_def Let_def)
  have "udp_wf b \<and> udp_states b = udp_states ?a"
    using a(1) b(1) by (auto simp: unregister_def udp_wf_def inj_on_def dom_def split: if_splits)
  then show ?thesis
    using queue_ops_wf(3) [of b c] a(2) b(2) assms(2) by simp
qed

lemma make_channel_wf:
  assumes "udp_wf u" "make_channel addr u = Inr (c, v)"
  shows "udp_wf v"
proof -
  have "udp_channels v = (udp_channels u)(nc_port c \<mapsto> length (udp_states u))"
      "\<exists>n. udp_states v = udp_states u @ [new_channel_state n]"
    using assms(2) by (auto simp: make_channel_def Let_def split: sum.splits if_splits option.splits)
  then show ?thesis
    using assms(1) by (fastforce simp: udp_wf_def new_channel_state_def queue_ok_init inj_on_def split: if_splits)
qed

lemma channel_send_wf:
  assumes "udp_wf u" "nc_state c < length (udp_states u)" "channel_send env c dst p (s, u) = Some (t, v)"
  shows "udp_wf v"
proof -
  define i len where "i = nc_state c" and "len = (of_nat (pk_len p) :: u64)"
  define r where "r = \<lparr>sr_port = nc_port c, sr_dst = dst, sr_pkt = p, sr_hold = (i, len)\<rparr>"
  let ?w = "sem_wait r len False (ucs_space (chan u i))"
  let ?u = "set_chan i ((chan u i)\<lparr>ucs_space := ?w\<rparr>) u"
  have u: "udp_wf ?u" "fst (sr_hold r) < length (udp_states ?u)"
    using udp_wf_set_chan [OF assms(1,2)] udp_wf_chan [OF assms(1,2)] assms(2)
    by (simp_all add: i_def r_def) (simp add: set_chan_def)
  have "v = ?u \<or> udp_send env r (s, ?u) = Some (t, v)"
    using assms(3) by (simp add: channel_send_def Let_def i_def len_def r_def split: if_splits)
  then show ?thesis
    using u udp_send_wf by blast
qed

lemma l2_settled_wf:
  assumes "udp_ok u" "udp_l2_settled k res u = Some v"
  shows "udp_wf v"
proof -
  obtain h to p where x: "map_of (udp_resolving u) k = Some (h, to, p)"
    using assms(2) by (auto simp: udp_l2_settled_def split: option.splits)
  let ?u = "u\<lparr>udp_resolving := remove1 (k, h, to, p) (udp_resolving u)\<rparr>"
  have "h \<in> set (packet_holds u)"
    using image_eqI [OF _ map_of_SomeD [OF x], of h "fst \<circ> snd"] by (simp add: packet_holds_def)
  then have h: "fst h < length (udp_states ?u)"
    using packet_holds_states [OF assms(1)] by simp
  have u: "udp_wf ?u"
    using assms(1) udp_wf_frame [of ?u u] by (simp add: udp_ok_def)
  then show ?thesis
    using assms(2) x complete_send_wf [OF u h] udp_wf_frame [of v ?u]
    by (cases res) (auto simp: udp_l2_settled_def Let_def)
qed

lemma udp_received_wf:
  assumes "udp_wf u" "udp_received p from to u = Some v"
  shows "udp_wf v"
proof -
  have "i < length (udp_states u)" if "udp_channels u q = Some i" for q i
    using assms(1) that by (auto simp: udp_wf_def)
  then show ?thesis
    using assms
    by (auto simp: udp_received_def split: option.splits intro!: queue_op_wf [OF assms(1)] queue_ok_push)
qed

lemma udp_step_udp_ok: "udp_step env su tv \<Longrightarrow> udp_ok (snd su) \<Longrightarrow> udp_ok (snd tv)"
proof -
  assume step: "udp_step env su tv" and ok: "udp_ok (snd su)"
  from step ok have "udp_wf (snd tv)"
  proof cases
    case (destroy c u v s)
    with ok show ?thesis
      using channel_close_wf [of u c] by (auto simp: udp_ok_def channel_destroy_def split: if_splits)
  next
    case (send c u dst p s)
    with ok show ?thesis
      using channel_send_wf [of u c env dst p s] by (cases tv) (auto simp: udp_ok_def)
  next
    case (send_resume s u)
    then obtain r rs where r: "udp_ready u = r # rs" "udp_send env r (s, u\<lparr>udp_ready := rs\<rparr>) = Some tv"
      by (auto simp: channel_send_resume_def split: list.splits)
    have "fst (sr_hold r) < length (udp_states u)" "udp_wf (u\<lparr>udp_ready := rs\<rparr>)"
      using packet_holds_states [of u "sr_hold r"] ok send_resume(1) r(1) udp_wf_frame [of "u\<lparr>udp_ready := rs\<rparr>" u]
      by (simp_all add: udp_ok_def packet_holds_def)
    then show ?thesis
      using udp_send_wf [of "u\<lparr>udp_ready := rs\<rparr>" r] r(2) by (cases tv) simp
  next
    case (provide u l4p v s)
    with ok show ?thesis
      using udp_wf_frame [of v u] by (auto simp: udp_ok_def udp_provide_def split: list.splits)
  next
    case (packet_gone h u v s)
    then have h: "h \<in> set (udp_in_flight u)"
      by (auto simp: udp_packet_gone_def split: if_splits)
    then have "fst h < length (udp_states u)"
      using ok packet_gone packet_holds_states [of u h] by (simp add: packet_holds_def)
    then show ?thesis
      using packet_gone h ok complete_send_wf [of "u\<lparr>udp_in_flight := remove1 h (udp_in_flight u)\<rparr>" h v]
        udp_wf_frame [of "u\<lparr>udp_in_flight := remove1 h (udp_in_flight u)\<rparr>" u]
      by (simp add: udp_packet_gone_def udp_ok_def)
  next
    case (queue_size s u n)
    with ok show ?thesis
      using udp_wf_frame [of "set_queue_size n u" u] by (simp add: udp_ok_def set_queue_size_def)
  qed (auto simp: udp_ok_def intro: make_channel_wf channel_close_wf queue_ops_wf udp_received_wf l2_settled_wf [unfolded udp_ok_def])
  with udp_step_ok [OF step] ok show ?thesis
    by (simp add: udp_ok_def)
qed

lemma udp_reachable_ok: "(udp_step env)\<^sup>*\<^sup>* (s, udp_init) (t, u) \<Longrightarrow> udp_ok u"
proof (induction rule: rtranclp_induct2)
  case refl
  show ?case
    by (simp add: udp_ok_def space_inv_def udp_wf_def udp_init_def packet_holds_def)
next
  case (step t u t' u')
  then show ?case
    using udp_step_udp_ok by fastforce
qed

section \<open>Properties\<close>

text \<open>
  C28. The send buffer of a channel is accounted for: whatever happens to UDP and IP, the free
  space of every channel plus the packets that still hold some is the size of the buffer, a
  send waits only if it asks for more than is free, hence only as long as others hold space
  unless it is longer than the whole buffer, and the end of a packet always gives its space back.
\<close>

theorem udp_send_buffer_accounted:
  assumes "(udp_step env)\<^sup>*\<^sup>* (s, udp_init) (t, u)" "i < length (udp_states u)"
  defines "m \<equiv> ucs_space (chan u i)"
  shows "0 \<le> units m \<and> units m + held i (packet_holds u) = 212992
    \<and> (\<forall>r nr rest. queued m = (r, nr) # rest \<longrightarrow> units m < uint nr
        \<and> (held i (packet_holds u) = 0 \<longrightarrow> 212992 < uint nr))
    \<and> (\<forall>h\<in>set (udp_in_flight u). udp_packet_gone h u \<noteq> None)"
proof -
  have inv: "space_inv (packet_holds u) u"
    using udp_reachable_ok [OF assms(1)] by (simp add: udp_ok_def)
  then have "space_ok i (packet_holds u) m"
    using assms(2) by (simp add: space_inv_def m_def)
  then show ?thesis
    using packet_gone_ok [OF _ inv] by (fastforce simp: space_ok_def settled_def send_buffer_size_def)
qed

theorem udp_send_buffer_accounted_witness:
  "\<exists>u. (udp_step sample_ip_env)\<^sup>*\<^sup>* (sample_host 1, udp_init) (sample_host 1, u) \<and> length (udp_states u) = 1
    \<and> units (ucs_space (chan u 0)) + held 0 (packet_holds u) = 212992"
proof -
  obtain c v where m: "make_channel \<lparr>ia_ip = 0, ia_port = 7\<rparr> udp_init = Inr (c, v)" and l: "length (udp_states v) = 1"
    by (simp add: make_channel_def udp_init_def Let_def)
  from udp_step.make [OF m, of sample_ip_env "sample_host 1"]
  have r: "(udp_step sample_ip_env)\<^sup>*\<^sup>* (sample_host 1, udp_init) (sample_host 1, v)"
    by blast
  from udp_send_buffer_accounted [OF r, of 0] l r show ?thesis
    by auto
qed



end
