(* ===== verification/Mica_Wire.thy ===== *)
theory Mica_Wire
  imports Net_Headers Net_Packet Bit_Ops
begin

text \<open>
  The wire format of the MICA client (netstar/mica/mica_def.hh, mica_client.cc, and the parts of
  mica_client.hh that build and read packets) and the buffer that keys and values are kept in
  (netstar/mica/extendable_buffer.hh).

  \<^item> A request header is a plain struct in host byte order; \<open>rq_bytes\<close> and \<open>rq_read\<close> are its layout.
  \<^item> A batch is a packet of the 48 byte batch header and, for every request, the header, the
    key and the value, key and value rounded up to eight bytes. \<open>request_packet\<close> builds it with the
    packet operations the code uses; \<open>walk\<close> is the loop of \<open>receive\<close> that takes one apart.
  \<^item> New memory is not initialised: \<open>eb_fill\<close> takes the contents of a new buffer as an argument.
\<close>

section \<open>Buffers for keys and values\<close>

record ebuf =
  eb_buf :: bytes
  eb_len :: nat

definition roundup8 :: "nat \<Rightarrow> nat" where
  "roundup8 n = unat (roundup 8 (of_nat n :: u64))"

definition eb_new :: "(nat \<Rightarrow> bytes) \<Rightarrow> nat \<Rightarrow> ebuf" where
  "eb_new mem n = \<lparr>eb_buf = mem (roundup8 n), eb_len = 0\<rparr>"

definition eb_clear :: "ebuf \<Rightarrow> ebuf" where
  "eb_clear b = b\<lparr>eb_len := 0\<rparr>"

definition eb_fill :: "(nat \<Rightarrow> bytes) \<Rightarrow> bytes \<Rightarrow> ebuf \<Rightarrow> ebuf" where
  "eb_fill mem src b =
    (let size = length src; buf = (if length (eb_buf b) < roundup8 size then mem (roundup8 size) else eb_buf b)
     in \<lparr>eb_buf = src @ drop size buf, eb_len = size\<rparr>)"

definition eb_data :: "ebuf \<Rightarrow> bytes option" where
  "eb_data b = (if eb_len b = 0 then None else Some (take (eb_len b) (eb_buf b)))"

definition eb_fragment :: "ebuf \<Rightarrow> bytes" where
  "eb_fragment b = take (roundup8 (eb_len b)) (eb_buf b)"

definition eb_get_temp_buffer :: "ebuf \<Rightarrow> bytes \<times> ebuf" where
  "eb_get_temp_buffer b = (eb_buf b, \<lparr>eb_buf = [], eb_len = 0\<rparr>)"

text \<open>\<open>kv_wrapper\<close> of an object: its length and the rounded-up copy.\<close>

definition kv_wrapper :: "(nat \<Rightarrow> bytes) \<Rightarrow> bytes \<Rightarrow> nat \<times> bytes" where
  "kv_wrapper mem t = (length t, fst (eb_get_temp_buffer (eb_fill mem t \<lparr>eb_buf = [], eb_len = 0\<rparr>)))"

section \<open>Request headers\<close>

record request_hd =
  rq_operation :: u8
  rq_result :: u8
  rq_reserved0 :: u16
  rq_kv_length_vec :: u32
  rq_key_hash :: u64
  rq_opaque :: u32
  rq_reserved1 :: u32

definition rq_size :: nat where "rq_size = 24"

definition rq_bytes :: "request_hd \<Rightarrow> bytes" where
  "rq_bytes h = [rq_operation h, rq_result h] @ object_bytes (rq_reserved0 h) @ object_bytes (rq_kv_length_vec h)
    @ object_bytes (rq_key_hash h) @ object_bytes (rq_opaque h) @ object_bytes (rq_reserved1 h)"

definition rq_read :: "bytes \<Rightarrow> request_hd" where
  "rq_read p = \<lparr>rq_operation = p ! 0, rq_result = p ! 1, rq_reserved0 = object_value (take 2 (drop 2 p)),
    rq_kv_length_vec = object_value (take 4 (drop 4 p)), rq_key_hash = object_value (take 8 (drop 8 p)),
    rq_opaque = object_value (take 4 (drop 16 p)), rq_reserved1 = object_value (take 4 (drop 20 p))\<rparr>"

definition kv_length_vec :: "u64 \<Rightarrow> u64 \<Rightarrow> u32" where
  "kv_length_vec key_len val_len = ucast (push_bit 24 key_len OR val_len)"

definition key_len_of :: "request_hd \<Rightarrow> nat" where
  "key_len_of h = unat (drop_bit 24 (rq_kv_length_vec h))"

definition val_len_of :: "request_hd \<Rightarrow> nat" where
  "val_len_of h = unat (rq_kv_length_vec h AND (push_bit 24 1 - 1))"

definition opaque :: "u16 \<Rightarrow> u16 \<Rightarrow> u32" where
  "opaque rd_index epoch = push_bit 16 (ucast rd_index) OR ucast epoch"

definition opaque_rd :: "u32 \<Rightarrow> nat" where
  "opaque_rd o' = unat (drop_bit 16 o')"

definition opaque_epoch :: "u32 \<Rightarrow> u16" where
  "opaque_epoch o' = ucast (o' AND (push_bit 16 1 - 1))"

section \<open>Batches\<close>

record endpoint_info =
  ei_eth_addr :: mac
  ei_ip_addr :: u32
  ei_udp_port :: u16

definition batch_header_size :: nat where "batch_header_size = 48"
definition max_req_len :: nat where "max_req_len = 1518 - 4 - batch_header_size"

definition batch_header_bytes :: "endpoint_info \<Rightarrow> endpoint_info \<Rightarrow> bytes" where
  "batch_header_bytes local remote =
    eth_hdr_bytes \<lparr>eth_dst_mac = ei_eth_addr remote, eth_src_mac = ei_eth_addr local, eth_proto = eth_ipv4\<rparr>
    @ ip_hdr_bytes \<lparr>ip_ihl = 5, ip_ver = 4, ip_dscp = 0, ip_ecn = 0, ip_len = 34, ip_id = 0, ip_frag = 0, ip_ttl = 64,
        ip_proto = 17, ip_csum = 0, ip_src = ei_ip_addr local, ip_dst = ei_ip_addr remote\<rparr>
    @ udp_hdr_bytes \<lparr>udp_src_port = ei_udp_port local, udp_dst_port = ei_udp_port remote, udp_len = 0, udp_cksum = 0\<rparr>
    @ [0x78, 0, 0, 0, 0, 0]"

text \<open>\<open>build_requet_batch_header\<close>: the six pieces are prepended one by one, then made contiguous.\<close>

definition build_batch_header :: "endpoint_info \<Rightarrow> endpoint_info \<Rightarrow> pkt option" where
  "build_batch_header local remote =
    Option.bind (prepend_header [0, 0, 0, 0] pkt_empty) (\<lambda>p1.
    Option.bind (prepend_header [0] p1) (\<lambda>p2.
    Option.bind (prepend_header [0x78] p2) (\<lambda>p3.
    Option.bind (prepend_header (udp_hdr_bytes \<lparr>udp_src_port = ei_udp_port local, udp_dst_port = ei_udp_port remote,
      udp_len = 0, udp_cksum = 0\<rparr>) p3) (\<lambda>p4.
    Option.bind (prepend_header (ip_hdr_bytes \<lparr>ip_ihl = 5, ip_ver = 4, ip_dscp = 0, ip_ecn = 0,
      ip_len = of_nat (pk_len p4 + 20), ip_id = 0, ip_frag = 0, ip_ttl = 64, ip_proto = 17, ip_csum = 0,
      ip_src = ei_ip_addr local, ip_dst = ei_ip_addr remote\<rparr>) p4) (\<lambda>p5.
    Option.bind (prepend_header (eth_hdr_bytes \<lparr>eth_dst_mac = ei_eth_addr remote, eth_src_mac = ei_eth_addr local,
      eth_proto = eth_ipv4\<rparr>) p5) (\<lambda>p6.
    Option.bind (pkt_linearize (p6\<lparr>pk_offload := default_offload_info\<lparr>oi_needs_csum := False, oi_protocol := Udp\<rparr>\<rparr>)) (\<lambda>p7.
    if length (pk_frags p7) = 1 then Some p7 else None)))))))"

definition append_static :: "bytes \<Rightarrow> pkt \<Rightarrow> pkt" where
  "append_static buf p = (if buf = [] then p else pkt_append_frag p buf)"

type_synonym request = "request_hd \<times> bytes \<times> bytes"

definition append_frags :: "request \<Rightarrow> pkt \<Rightarrow> pkt" where
  "append_frags r p = (case r of (h, key, val) \<Rightarrow> append_static val (append_static key (append_static (rq_bytes h) p)))"

definition setup_ip_udp_length :: "pkt \<Rightarrow> pkt option" where
  "setup_ip_udp_length p =
    (case pkt_update_header 14 20 (\<lambda>h. take 2 h @ object_bytes (hton (of_nat (pk_len p - 14) :: u16)) @ drop 4 h) p of
       Some (Some q) \<Rightarrow>
         (case pkt_update_header 34 8 (\<lambda>h. take 4 h @ object_bytes (hton (of_nat (pk_len p - 14 - 20) :: u16)) @ drop 6 h) q of
            Some (Some r) \<Rightarrow> Some r | _ \<Rightarrow> None)
     | _ \<Rightarrow> None)"

definition setup_request_num :: "nat \<Rightarrow> pkt \<Rightarrow> pkt option" where
  "setup_request_num n p = (case pkt_update_header 43 1 (\<lambda>_. [of_nat n]) p of Some (Some q) \<Rightarrow> Some q | _ \<Rightarrow> None)"

text \<open>The packet that \<open>send_request_packet\<close> hands to the port.\<close>

definition request_packet :: "bytes \<Rightarrow> request list \<Rightarrow> pkt option" where
  "request_packet header rs =
    Option.bind (setup_ip_udp_length (fold append_frags rs (append_static header pkt_empty))) (\<lambda>p.
    Option.bind (setup_request_num (length rs) p) pkt_linearize)"

section \<open>Reading a batch\<close>

text \<open>
  \<open>is_valid\<close> and \<open>is_response\<close>. The header pointers are taken before the length is checked and
  used after it; taking them may make the start of the packet contiguous.
\<close>

definition batch_header_ok :: "nat \<Rightarrow> bytes \<Rightarrow> bool" where
  "batch_header_ok len b \<longleftrightarrow>
    (let eth = eth_hdr_read b; ip = ip_hdr_read (drop 14 b); udp = udp_hdr_read (drop 34 b); magic = b ! 42 in
     eth_proto eth = eth_ipv4 \<and> \<not> (ip_ihl ip \<noteq> 5 \<and> ip_ver ip \<noteq> 4) \<and> \<not> (ip_id ip \<noteq> 0 \<or> ip_frag ip \<noteq> 0)
     \<and> unat (ip_len ip) = len - 14 \<and> ip_proto ip = 17 \<and> unat (udp_len udp) = len - 14 - 20
     \<and> \<not> (udp_cksum udp \<noteq> 0 \<or> ip_csum ip \<noteq> 0) \<and> \<not> (magic \<noteq> 0x78 \<and> magic \<noteq> 0x79))"

definition is_valid :: "pkt \<Rightarrow> (bool \<times> pkt) option" where
  "is_valid p0 =
    Option.bind (pkt_get_header 0 14 p0) (\<lambda>(_, p1).
    Option.bind (pkt_get_header 14 20 p1) (\<lambda>(_, p2).
    Option.bind (pkt_get_header 34 8 p2) (\<lambda>(_, p3).
    Option.bind (pkt_get_header 0 48 p3) (\<lambda>(rbh, p).
    case rbh of None \<Rightarrow> Some (False, p) | Some b \<Rightarrow> Some (batch_header_ok (pk_len p) b, p)))))"

definition is_response :: "pkt \<Rightarrow> bool option" where
  "is_response p = (case pkt_get_header 0 48 p of Some (Some b, _) \<Rightarrow> Some (b ! 42 = 0x79) | _ \<Rightarrow> None)"

definition response_len :: "request_hd \<Rightarrow> nat" where
  "response_len h = rq_size + roundup8 (key_len_of h) + roundup8 (val_len_of h)"

lemma pkt_get_header_len: "pkt_get_header off n p = Some (h, q) \<Longrightarrow> pk_len q = pk_len p"
  by (auto simp: pkt_get_header_def pkt_linearize_at_def Let_def split: if_splits option.splits prod.splits)

lemma pkt_share_len: "pkt_share off n p = Some (s, q) \<Longrightarrow> pk_len q = pk_len p"
  by (auto simp: pkt_share_def Let_def split: option.splits)

text \<open>
  The loop of \<open>receive\<close> from \<open>offset\<close> on, as the list of what it visits: the header and the slice
  shared out for it. \<open>None\<close> is a null header or a slice beyond the packet.
\<close>

function walk :: "nat \<Rightarrow> pkt \<Rightarrow> (request_hd \<times> pkt) list option" where
  "walk offset p = (if \<not> offset < pk_len p then Some [] else
    case pkt_get_header offset rq_size p of
      Some (Some b, q) \<Rightarrow>
        (let h = rq_read b in
         case pkt_share offset (response_len h) q of None \<Rightarrow> None
         | Some (chunk, r) \<Rightarrow> map_option ((#) (h, chunk)) (walk (offset + response_len h) r))
    | _ \<Rightarrow> None)"
  by pat_completeness auto
termination
  by (relation "measure (\<lambda>(offset, p). pk_len p - offset)")
    (auto simp: response_len_def rq_size_def dest!: pkt_get_header_len pkt_share_len)

declare walk.simps [simp del]

text \<open>\<open>mica_response\<close>: accessors of one response, which starts with its header.\<close>

definition resp_hd :: "pkt \<Rightarrow> request_hd option" where
  "resp_hd p = (case pkt_get_header 0 rq_size p of Some (Some b, _) \<Rightarrow> Some (rq_read b) | _ \<Rightarrow> None)"

definition get_key_len :: "pkt \<Rightarrow> nat option" where
  "get_key_len p = map_option key_len_of (resp_hd p)"

definition get_roundup_key_len :: "pkt \<Rightarrow> nat option" where
  "get_roundup_key_len p = map_option roundup8 (get_key_len p)"

definition get_val_len :: "pkt \<Rightarrow> nat option" where
  "get_val_len p = map_option val_len_of (resp_hd p)"

definition get_roundup_val_len :: "pkt \<Rightarrow> nat option" where
  "get_roundup_val_len p = map_option roundup8 (get_val_len p)"

text \<open>\<open>release_into\<close> hands over the fragments in turn; the last one is returned.\<close>

definition get_val_tb :: "pkt \<Rightarrow> bytes option" where
  "get_val_tb p = Option.bind (get_roundup_key_len p) (\<lambda>k. Option.bind (get_roundup_val_len p) (\<lambda>v.
    map_option (\<lambda>(s, _). fold (\<lambda>frag _. frag) (pkt_release s) []) (pkt_share (rq_size + k) v p)))"

section \<open>Layouts are inverse\<close>

lemma length_rq_bytes [simp]: "length (rq_bytes h) = rq_size"
  by (simp add: rq_bytes_def rq_size_def size_of_def)

lemma rq_read_bytes [hdr_codec]: "rq_read (rq_bytes h @ p) = h"
  by (simp add: rq_read_def rq_bytes_def size_of_def object_value_bytes)

lemma word_low_bits: "unat (w :: 'a::len word) < 2 ^ n \<Longrightarrow> bit w m \<Longrightarrow> m < n"
proof -
  assume a: "unat w < 2 ^ n" "bit w m"
  then have "take_bit n w = w"
    by (simp add: word_unat_eq_iff unsigned_take_bit_eq take_bit_nat_eq_self)
  with a(2) show "m < n"
    by (metis bit_take_bit_iff)
qed

lemma mask_word: "push_bit n 1 - 1 = (mask n :: 'a::len word)"
  by (simp add: mask_eq_exp_minus_1 push_bit_eq_mult)

lemma unat_ucast_small: "unat (w :: 'a::len word) < 2 ^ LENGTH('b) \<Longrightarrow> unat (ucast w :: 'b::len word) = unat w"
  by (simp add: unsigned_ucast_eq take_bit_nat_eq_self)

lemma kv_lengths:
  assumes k: "unat key_len < 2 ^ 8" and v: "unat val_len < 2 ^ 24" and h: "rq_kv_length_vec h = kv_length_vec key_len val_len"
  shows "key_len_of h = unat key_len" "val_len_of h = unat val_len"
proof -
  have "drop_bit 24 (kv_length_vec key_len val_len) = ucast key_len"
    unfolding kv_length_vec_def
    by (rule bit_word_eqI) (auto simp: bit_simps dest: word_low_bits [OF k] word_low_bits [OF v])
  then show "key_len_of h = unat key_len"
    using k by (simp add: key_len_of_def h unat_ucast_small)
  have "kv_length_vec key_len val_len AND mask 24 = ucast val_len"
    unfolding kv_length_vec_def
    by (rule bit_word_eqI) (auto simp: bit_simps dest: word_low_bits [OF v])
  moreover have "unat (ucast val_len :: u32) = unat val_len"
    using v by (simp add: unat_ucast_small)
  ultimately show "val_len_of h = unat val_len"
    unfolding val_len_of_def h mask_word by simp
qed

lemma opaque_fields [simp]: "opaque_rd (opaque i e) = unat i" "opaque_epoch (opaque i e) = e"
proof -
  have "drop_bit 16 (opaque i e) = ucast i"
    unfolding opaque_def by (rule bit_word_eqI) (auto simp: bit_simps dest: bit_imp_le_length)
  then show "opaque_rd (opaque i e) = unat i"
    using unsigned_less [where 'a = nat, of i] by (simp add: opaque_rd_def unat_ucast_small)
  show "opaque_epoch (opaque i e) = e"
    unfolding opaque_epoch_def opaque_def mask_word by (rule bit_word_eqI) (auto simp: bit_simps)
qed

text \<open>What the buffer promises: the data comes back, and the fragment is the data rounded up.\<close>

lemma roundup8_bounds:
  assumes "n < 2 ^ 32"
  shows "n \<le> roundup8 n" "roundup8 n < n + 8" "8 dvd roundup8 n"
proof -
  have "unat (of_nat n :: u64) = n"
    using assms by (intro of_nat_inverse [OF refl]) simp
  then show "n \<le> roundup8 n" "roundup8 n < n + 8" "8 dvd roundup8 n"
    using roundup_8_bounds [of "of_nat n"] assms by (simp_all add: roundup8_def)
qed

lemma eb_fill_spec:
  assumes "length src < 2 ^ 32" "\<And>n. length (mem n) = n"
  shows "eb_data (eb_fill mem src b) = (if src = [] then None else Some src)"
    "length (eb_fragment (eb_fill mem src b)) = roundup8 (length src)"
    "take (length src) (eb_fragment (eb_fill mem src b)) = src"
proof -
  note r = roundup8_bounds [OF assms(1)]
  show "eb_data (eb_fill mem src b) = (if src = [] then None else Some src)"
    by (simp add: eb_data_def eb_fill_def Let_def)
  show "length (eb_fragment (eb_fill mem src b)) = roundup8 (length src)"
    using r assms(2) by (auto simp: eb_fragment_def eb_fill_def Let_def min_def)
  show "take (length src) (eb_fragment (eb_fill mem src b)) = src"
    using r by (simp add: eb_fragment_def eb_fill_def Let_def min_def)
qed

lemma kv_wrapper_spec:
  assumes "length t < 2 ^ 32" "\<And>n. length (mem n) = n"
  shows "fst (kv_wrapper mem t) = length t" "length (snd (kv_wrapper mem t)) = roundup8 (length t)"
    "take (length t) (snd (kv_wrapper mem t)) = t"
  using roundup8_bounds [OF assms(1)] assms(2)
  by (auto simp: kv_wrapper_def eb_get_temp_buffer_def eb_fill_def Let_def)

section \<open>Building and taking apart\<close>

definition request_bytes :: "request \<Rightarrow> bytes" where
  "request_bytes r = (case r of (h, key, val) \<Rightarrow> rq_bytes h @ key @ val)"

definition request_ok :: "request \<Rightarrow> bool" where
  "request_ok r \<longleftrightarrow> (case r of (h, key, val) \<Rightarrow> length key = roundup8 (key_len_of h) \<and> length val = roundup8 (val_len_of h))"

lemma length_request_bytes: "request_ok r \<Longrightarrow> length (request_bytes r) = response_len (fst r)"
  by (auto simp: request_bytes_def request_ok_def response_len_def)

lemma append_static_spec:
  assumes "pkt_wf p"
  shows "pkt_wf (append_static d p)" "pkt_bytes (append_static d p) = pkt_bytes p @ d"
  using pkt_append_frag_spec [OF assms, of d] assms by (auto simp: append_static_def)

lemma append_frags_spec:
  assumes "pkt_wf p"
  shows "pkt_wf (append_frags r p)" "pkt_bytes (append_frags r p) = pkt_bytes p @ request_bytes r"
  using assms by (auto simp: append_frags_def request_bytes_def append_static_spec split: prod.splits)

lemma fold_append_frags_spec:
  "pkt_wf p \<Longrightarrow> pkt_wf (fold append_frags rs p) \<and> pkt_bytes (fold append_frags rs p) = pkt_bytes p @ concat (map request_bytes rs)"
  by (induction rs arbitrary: p) (auto simp: append_frags_spec)

lemma pkt_linearize_bytes:
  assumes "pkt_wf p" "0 < pk_len p"
  shows "\<exists>q. pkt_linearize p = Some q \<and> pkt_wf q \<and> pkt_bytes q = pkt_bytes p \<and> pk_len q = pk_len p"
  using pkt_linearize_spec [of p] assms by (auto simp: pkt_wf_def)

lemma object_bytes_hton: "object_bytes (hton x) = be_bytes (x :: u16)"
  by (simp add: hton_def produce_be_def cpu_to_be_def)

lemma ip_hdr_bytes_len: "ip_hdr_bytes (h\<lparr>ip_len := n\<rparr>) = take 2 (ip_hdr_bytes h) @ be_bytes n @ drop 4 (ip_hdr_bytes h)"
  by (simp add: ip_hdr_bytes_def size_of_def)

lemma udp_hdr_bytes_len: "udp_hdr_bytes (u\<lparr>udp_len := n\<rparr>) = take 4 (udp_hdr_bytes u) @ be_bytes n @ drop 6 (udp_hdr_bytes u)"
  by (simp add: udp_hdr_bytes_def size_of_def)

lemma setup_ip_udp_length_spec:
  assumes wf: "pkt_wf p" and b: "pkt_bytes p = eth @ ip_hdr_bytes h @ udp_hdr_bytes u @ rest" and l: "length eth = 14"
  shows "\<exists>q. setup_ip_udp_length p = Some q \<and> pkt_wf q
    \<and> pkt_bytes q = eth @ ip_hdr_bytes (h\<lparr>ip_len := of_nat (28 + length rest)\<rparr>)
        @ udp_hdr_bytes (u\<lparr>udp_len := of_nat (8 + length rest)\<rparr>) @ rest"
proof -
  have len: "pk_len p = 42 + length rest"
    using wf l by (simp add: pkt_wf_def b)
  let ?f = "\<lambda>x. take 2 x @ object_bytes (hton (of_nat (pk_len p - 14) :: u16)) @ drop 4 x"
  let ?g = "\<lambda>x. take 4 x @ object_bytes (hton (of_nat (pk_len p - 14 - 20) :: u16)) @ drop 6 x"
  obtain q where q: "pkt_update_header 14 20 ?f p = Some (Some q)" "pkt_wf q"
      "pkt_bytes q = eth @ ip_hdr_bytes (h\<lparr>ip_len := of_nat (28 + length rest)\<rparr>) @ udp_hdr_bytes u @ rest"
    using pkt_update_header_spec [OF wf, of 20 14 ?f] l
    by (auto simp: b len object_bytes_hton ip_hdr_bytes_len size_of_def simp del: of_nat_add)
  obtain r where r: "pkt_update_header 34 8 ?g q = Some (Some r)" "pkt_wf r"
      "pkt_bytes r = eth @ ip_hdr_bytes (h\<lparr>ip_len := of_nat (28 + length rest)\<rparr>)
        @ udp_hdr_bytes (u\<lparr>udp_len := of_nat (8 + length rest)\<rparr>) @ rest"
    using pkt_update_header_spec [OF q(2), of 8 34 ?g] l
    by (auto simp: q(3) len object_bytes_hton udp_hdr_bytes_len size_of_def simp del: of_nat_add)
  from q(1) r show ?thesis
    by (simp add: setup_ip_udp_length_def)
qed

text \<open>The headers of a batch with \<open>n\<close> requests of \<open>len\<close> bytes in all.\<close>

definition sent_header :: "endpoint_info \<Rightarrow> endpoint_info \<Rightarrow> nat \<Rightarrow> nat \<Rightarrow> bytes" where
  "sent_header local remote n len =
    eth_hdr_bytes \<lparr>eth_dst_mac = ei_eth_addr remote, eth_src_mac = ei_eth_addr local, eth_proto = eth_ipv4\<rparr>
    @ ip_hdr_bytes \<lparr>ip_ihl = 5, ip_ver = 4, ip_dscp = 0, ip_ecn = 0, ip_len = of_nat (34 + len), ip_id = 0, ip_frag = 0,
        ip_ttl = 64, ip_proto = 17, ip_csum = 0, ip_src = ei_ip_addr local, ip_dst = ei_ip_addr remote\<rparr>
    @ udp_hdr_bytes \<lparr>udp_src_port = ei_udp_port local, udp_dst_port = ei_udp_port remote, udp_len = of_nat (14 + len), udp_cksum = 0\<rparr>
    @ [0x78, of_nat n, 0, 0, 0, 0]"

definition ei_ok :: "endpoint_info \<Rightarrow> bool" where
  "ei_ok e \<longleftrightarrow> length (ei_eth_addr e) = 6"

lemma length_eth_hdr: "length (eth_dst_mac e) = 6 \<Longrightarrow> length (eth_src_mac e) = 6 \<Longrightarrow> length (eth_hdr_bytes e) = 14"
  by (simp add: eth_hdr_bytes_def size_of_def)

lemma length_sent_header: "ei_ok local \<Longrightarrow> ei_ok remote \<Longrightarrow> length (sent_header local remote n len) = 48"
  by (simp add: sent_header_def ei_ok_def length_eth_hdr)

lemma request_packet_spec:
  assumes ei: "ei_ok local" "ei_ok remote"
  shows "\<exists>q. request_packet (batch_header_bytes local remote) rs = Some q \<and> pkt_wf q
    \<and> pkt_bytes q = sent_header local remote (length rs) (length (concat (map request_bytes rs))) @ concat (map request_bytes rs)"
proof -
  let ?d = "concat (map request_bytes rs)"
  let ?p = "fold append_frags rs (append_static (batch_header_bytes local remote) pkt_empty)"
  let ?eth = "eth_hdr_bytes \<lparr>eth_dst_mac = ei_eth_addr remote, eth_src_mac = ei_eth_addr local, eth_proto = eth_ipv4\<rparr>"
  have eth: "length ?eth = 14"
    using ei by (simp add: ei_ok_def length_eth_hdr)
  have p: "pkt_wf ?p" "pkt_bytes ?p = batch_header_bytes local remote @ ?d"
    using fold_append_frags_spec [OF append_static_spec(1) [OF pkt_empty_spec(2)]] append_static_spec(2) [OF pkt_empty_spec(2)]
    by (simp_all add: pkt_empty_spec)
  let ?tail = "[0x78, 0, 0, 0, 0, 0] @ ?d"
  have "pkt_bytes ?p = ?eth @ ip_hdr_bytes \<lparr>ip_ihl = 5, ip_ver = 4, ip_dscp = 0, ip_ecn = 0, ip_len = 34, ip_id = 0, ip_frag = 0,
        ip_ttl = 64, ip_proto = 17, ip_csum = 0, ip_src = ei_ip_addr local, ip_dst = ei_ip_addr remote\<rparr>
      @ udp_hdr_bytes \<lparr>udp_src_port = ei_udp_port local, udp_dst_port = ei_udp_port remote, udp_len = 0, udp_cksum = 0\<rparr> @ ?tail"
    using p(2) by (simp only: batch_header_bytes_def append_assoc)
  note written = setup_ip_udp_length_spec [OF p(1) this eth]
  from written obtain q where q: "setup_ip_udp_length ?p = Some q" "pkt_wf q"
      and b: "pkt_bytes q = ?eth @ ip_hdr_bytes (\<lparr>ip_ihl = 5, ip_ver = 4, ip_dscp = 0, ip_ecn = 0, ip_len = 34, ip_id = 0,
          ip_frag = 0, ip_ttl = 64, ip_proto = 17, ip_csum = 0, ip_src = ei_ip_addr local, ip_dst = ei_ip_addr remote\<rparr>
          \<lparr>ip_len := of_nat (28 + length ?tail)\<rparr>)
        @ udp_hdr_bytes (\<lparr>udp_src_port = ei_udp_port local, udp_dst_port = ei_udp_port remote, udp_len = 0, udp_cksum = 0\<rparr>
          \<lparr>udp_len := of_nat (8 + length ?tail)\<rparr>) @ ?tail"
    by (elim exE conjE)
  have q3: "pkt_bytes q = sent_header local remote 0 (length ?d) @ ?d"
    unfolding b sent_header_def by simp
  let ?h = "sent_header local remote (length rs) (length ?d)"
  obtain r where r: "setup_request_num (length rs) q = Some r" "pkt_wf r" "pkt_bytes r = ?h @ ?d"
    using pkt_update_header_spec [OF q(2), of 1 43 "\<lambda>_. [of_nat (length rs)]"] eth length_sent_header [OF ei]
    by (auto simp: setup_request_num_def q3 sent_header_def simp del: of_nat_add)
  have "0 < pk_len r"
    using r(2,3) length_sent_header [OF ei, of "length rs" "length ?d"] by (simp add: pkt_wf_def)
  from pkt_linearize_bytes [OF r(2) this] r(1,3) q(1) show ?thesis
    by (auto simp: request_packet_def)
qed

lemma get_header_keeps:
  assumes "pkt_wf p" "0 < n"
  shows "\<exists>q. pkt_get_header off n p = Some (if off + n \<le> pk_len p then Some (take n (drop off (pkt_bytes p))) else None, q)
    \<and> pkt_wf q \<and> pkt_bytes q = pkt_bytes p \<and> pk_len q = pk_len p"
proof -
  have "length (pkt_bytes p) = pk_len p"
    using assms(1) by (simp add: pkt_wf_def)
  with pkt_get_header_spec [OF assms, of off] show ?thesis
    by (auto dest: pkt_get_header_len)
qed

lemma is_valid_spec:
  assumes "pkt_wf p"
  shows "\<exists>q. is_valid p = Some (48 \<le> pk_len p \<and> batch_header_ok (pk_len p) (take 48 (pkt_bytes p)), q)
    \<and> pkt_wf q \<and> pkt_bytes q = pkt_bytes p \<and> pk_len q = pk_len p"
proof -
  have ex: "\<exists>h q. pkt_get_header off n p = Some (h, q) \<and> pkt_wf q \<and> pkt_bytes q = pkt_bytes p \<and> pk_len q = pk_len p"
    if "pkt_wf p" "0 < n" for off n p
    using get_header_keeps [OF that] by blast
  obtain h1 p1 where p1: "pkt_get_header 0 14 p = Some (h1, p1)" "pkt_wf p1" "pkt_bytes p1 = pkt_bytes p" "pk_len p1 = pk_len p"
    using ex [OF assms, of 14 0] by auto
  obtain h2 p2 where p2: "pkt_get_header 14 20 p1 = Some (h2, p2)" "pkt_wf p2" "pkt_bytes p2 = pkt_bytes p" "pk_len p2 = pk_len p"
    using ex [OF p1(2), of 20 14] p1 by auto
  obtain h3 p3 where p3: "pkt_get_header 34 8 p2 = Some (h3, p3)" "pkt_wf p3" "pkt_bytes p3 = pkt_bytes p" "pk_len p3 = pk_len p"
    using ex [OF p2(2), of 8 34] p2 by auto
  obtain p4 where p4: "pkt_get_header 0 48 p3 = Some (if 48 \<le> pk_len p then Some (take 48 (pkt_bytes p)) else None, p4)"
      "pkt_wf p4" "pkt_bytes p4 = pkt_bytes p" "pk_len p4 = pk_len p"
    using get_header_keeps [OF p3(2), of 48 0] p3 by auto
  show ?thesis
    using p1(1) p2(1) p3(1) p4 by (cases "48 \<le> pk_len p") (simp_all add: is_valid_def)
qed

lemma is_response_spec:
  assumes "pkt_wf p" "48 \<le> pk_len p"
  shows "is_response p = Some (pkt_bytes p ! 42 = 0x79)"
  using get_header_keeps [OF assms(1), of 48 0] assms(2) by (auto simp: is_response_def)

lemma walk_spec:
  assumes "list_all request_ok rs" "pkt_wf p" "pkt_bytes p = pre @ concat (map request_bytes rs)"
  shows "\<exists>cs. walk (length pre) p = Some (zip (map fst rs) cs) \<and> map pkt_bytes cs = map request_bytes rs \<and> list_all pkt_wf cs"
  using assms
proof (induction rs arbitrary: pre p)
  case Nil
  then have "\<not> length pre < pk_len p"
    by (simp add: pkt_wf_def)
  then show ?case
    by (simp add: walk.simps)
next
  case (Cons r rs)
  let ?n = "response_len (fst r)"
  have ok: "length (request_bytes r) = ?n" "request_ok r"
    using Cons.prems(1) by (simp_all add: length_request_bytes)
  have h: "rq_read (take rq_size (request_bytes r)) = fst r" "rq_size \<le> ?n" "0 < rq_size"
    using rq_read_bytes [of "fst r" "[]"]
    by (auto simp: request_bytes_def response_len_def rq_size_def split: prod.splits)
  have len: "pk_len p = length pre + ?n + length (concat (map request_bytes rs))"
    using Cons.prems(2,3) ok(1) by (simp add: pkt_wf_def)
  obtain q where q: "pkt_get_header (length pre) rq_size p = Some (Some (take rq_size (request_bytes r)), q)"
      "pkt_wf q" "pkt_bytes q = pkt_bytes p"
    using get_header_keeps [OF Cons.prems(2) h(3), of "length pre"] Cons.prems(3) len h(2) ok(1) by auto
  obtain c p' where c: "pkt_share (length pre) ?n q = Some (c, p')" "pkt_bytes c = request_bytes r" "pkt_wf c"
      "pkt_bytes p' = pkt_bytes p" "pkt_wf p'"
    using pkt_share_spec [OF q(2), of "length pre" ?n] q(3) Cons.prems(3) ok(1) by auto
  have "pkt_bytes p' = (pre @ request_bytes r) @ concat (map request_bytes rs)"
    using c(4) Cons.prems(3) by simp
  from Cons.IH [OF _ c(5) this] Cons.prems(1) ok(1) obtain cs where
      "walk (length pre + ?n) p' = Some (zip (map fst rs) cs)" "map pkt_bytes cs = map request_bytes rs" "list_all pkt_wf cs"
    by auto
  moreover have "length pre < pk_len p"
    using len h(2,3) by simp
  ultimately show ?case
    using q(1) h(1) c(1,2,3) by (intro exI [of _ "c # cs"]) (simp add: walk.simps [of "length pre" p])
qed

lemma share_frags_single:
  "n + m \<le> fr_size f \<Longrightarrow> share_frags n m [f] = Some (if m = 0 then [] else [take m (drop n (fr_data f))])"
  by (simp add: Let_def)

lemma get_val_tb_spec:
  assumes wf: "pkt_wf p" and f: "pk_frags p = [f]" and b: "pkt_bytes p = request_bytes (h, k, v)" and ok: "request_ok (h, k, v)"
  shows "get_val_tb p = Some v"
proof -
  have len: "pk_len p = rq_size + length k + length v"
    using wf b by (simp add: pkt_wf_def request_bytes_def)
  have "resp_hd p = Some h"
    using get_header_keeps [OF wf, of rq_size 0] len b rq_read_bytes [of h "[]"]
    by (auto simp: resp_hd_def request_bytes_def rq_size_def)
  then have lens: "get_roundup_key_len p = Some (length k)" "get_roundup_val_len p = Some (length v)"
    using ok by (simp_all add: get_roundup_key_len_def get_key_len_def get_roundup_val_len_def get_val_len_def request_ok_def)
  obtain g where g: "pk_frags (unuse_internal_data p) = [g]" "fr_data g = rq_bytes h @ k @ v"
    using f b by (cases "using_internal_data p")
      (auto simp: unuse_internal_data_def external_def pkt_bytes_def request_bytes_def)
  have "skip_frags (rq_size + length k) [g] = Some (rq_size + length k, [g]) \<or> v = []
      \<and> skip_frags (rq_size + length k) [g] = Some (0, [])"
    using g(2) by auto
  then have "map_option (\<lambda>(s, _). pkt_release s) (pkt_share (rq_size + length k) (length v) p) = Some (if v = [] then [] else [v])"
    using g share_frags_single [of "rq_size + length k" "length v" g]
    by (auto simp: pkt_share_def Let_def pkt_release_def external_def)
  then show ?thesis
    by (auto simp: get_val_tb_def lens split: if_splits prod.splits)
qed

text \<open>The batch header, as the constructor of an assembler builds it.\<close>

definition compact :: "bytes \<Rightarrow> pkt \<Rightarrow> bool" where
  "compact d p \<longleftrightarrow> pk_frags p = [\<lparr>fr_data = d, fr_base = Some (int (internal_data_size - length d))\<rparr>]
    \<and> pk_headroom p = internal_data_size - length d \<and> pk_len p = length d \<and> 1 \<le> pk_allocated p \<and> 0 < length d
    \<and> length d \<le> internal_data_size"

lemma prepend_compact:
  assumes "compact d p" "length h + length d \<le> internal_data_size"
  shows "\<exists>q. prepend_header h p = Some q \<and> compact (h @ d) q"
proof -
  have "using_internal_data (p\<lparr>pk_len := n\<rparr>)" for n
    using assms(1) by (auto simp: using_internal_data_def compact_def)
  then show ?thesis
    using assms by (auto simp: prepend_header_def allocate_headroom_def compact_def Let_def)
qed

lemma prepend_empty:
  assumes "0 < length h" "length h \<le> internal_data_size"
  shows "\<exists>q. prepend_header h pkt_empty = Some q \<and> compact h q"
  using assms
  by (auto simp: prepend_header_def allocate_headroom_def compact_def Let_def pkt_empty_def impl_allocate_def
      using_internal_data_def allocate_if_needed_def default_nr_frags_def)

lemma linearize_compact:
  assumes "compact d p"
  shows "\<exists>q. pkt_linearize p = Some q \<and> pk_frags q = [external d]"
  using assms
  by (auto simp: pkt_linearize_def pkt_linearize_at_def compact_def Let_def unuse_internal_data_def using_internal_data_def)

lemma build_batch_header_spec:
  assumes "ei_ok local" "ei_ok remote"
  shows "\<exists>p. build_batch_header local remote = Some p \<and> pk_frags p = [external (batch_header_bytes local remote)]"
proof -
  note ei = assms [unfolded ei_ok_def]
  obtain p1 where p1: "prepend_header [0, 0, 0, 0] pkt_empty = Some p1" "compact [0, 0, 0, 0] p1"
    using prepend_empty [of "[0, 0, 0, 0]"] by (auto simp: internal_data_size_def)
  obtain p2 where p2: "prepend_header [0] p1 = Some p2" "compact [0, 0, 0, 0, 0] p2"
    using prepend_compact [OF p1(2), of "[0]"] by (auto simp: internal_data_size_def)
  obtain p3 where p3: "prepend_header [0x78] p2 = Some p3" "compact [0x78, 0, 0, 0, 0, 0] p3"
    using prepend_compact [OF p2(2), of "[0x78]"] by (auto simp: internal_data_size_def)
  let ?u = "udp_hdr_bytes \<lparr>udp_src_port = ei_udp_port local, udp_dst_port = ei_udp_port remote, udp_len = 0, udp_cksum = 0\<rparr>"
  obtain p4 where p4: "prepend_header ?u p3 = Some p4" "compact (?u @ [0x78, 0, 0, 0, 0, 0]) p4"
    using prepend_compact [OF p3(2), of ?u] by (auto simp: internal_data_size_def)
  then have l4: "pk_len p4 = 14"
    by (simp add: compact_def)
  let ?i = "ip_hdr_bytes \<lparr>ip_ihl = 5, ip_ver = 4, ip_dscp = 0, ip_ecn = 0, ip_len = 34, ip_id = 0, ip_frag = 0,
    ip_ttl = 64, ip_proto = 17, ip_csum = 0, ip_src = ei_ip_addr local, ip_dst = ei_ip_addr remote\<rparr>"
  obtain p5 where p5: "prepend_header ?i p4 = Some p5" "compact (?i @ ?u @ [0x78, 0, 0, 0, 0, 0]) p5"
    using prepend_compact [OF p4(2), of ?i] by (auto simp: internal_data_size_def)
  let ?e = "eth_hdr_bytes \<lparr>eth_dst_mac = ei_eth_addr remote, eth_src_mac = ei_eth_addr local, eth_proto = eth_ipv4\<rparr>"
  obtain p6 where p6: "prepend_header ?e p5 = Some p6" "compact (?e @ ?i @ ?u @ [0x78, 0, 0, 0, 0, 0]) p6"
    using prepend_compact [OF p5(2), of ?e] ei by (auto simp: internal_data_size_def length_eth_hdr)
  then have "compact (batch_header_bytes local remote) (p6\<lparr>pk_offload := x\<rparr>)" for x
    by (simp add: compact_def batch_header_bytes_def)
  from linearize_compact [OF this] obtain p7 where
      "pkt_linearize (p6\<lparr>pk_offload := default_offload_info\<lparr>oi_needs_csum := False, oi_protocol := Udp\<rparr>\<rparr>) = Some p7"
      "pk_frags p7 = [external (batch_header_bytes local remote)]"
    by blast
  with p1(1) p2(1) p3(1) p4(1) p5(1) p6(1) l4 show ?thesis
    by (simp add: build_batch_header_def)
qed

lemma sent_header_ok:
  assumes "ei_ok local" "ei_ok remote" "len + 34 < 2 ^ 16"
  shows "batch_header_ok (48 + len) (sent_header local remote n len)" "sent_header local remote n len ! 42 = 0x78"
proof -
  let ?e = "\<lparr>eth_dst_mac = ei_eth_addr remote, eth_src_mac = ei_eth_addr local, eth_proto = eth_ipv4\<rparr>"
  let ?i = "\<lparr>ip_ihl = 5, ip_ver = 4, ip_dscp = 0, ip_ecn = 0, ip_len = of_nat (34 + len), ip_id = 0, ip_frag = 0,
    ip_ttl = 64, ip_proto = 17, ip_csum = 0, ip_src = ei_ip_addr local, ip_dst = ei_ip_addr remote\<rparr>"
  let ?u = "\<lparr>udp_src_port = ei_udp_port local, udp_dst_port = ei_udp_port remote, udp_len = of_nat (14 + len), udp_cksum = 0\<rparr>"
  let ?t = "[0x78, of_nat n, 0, 0, 0, 0]"
  have e: "length (eth_hdr_bytes ?e) = 14"
    using assms by (simp add: ei_ok_def length_eth_hdr)
  have h: "sent_header local remote n len = eth_hdr_bytes ?e @ ip_hdr_bytes ?i @ udp_hdr_bytes ?u @ ?t"
    by (simp only: sent_header_def)
  have d: "drop 14 (sent_header local remote n len) = ip_hdr_bytes ?i @ udp_hdr_bytes ?u @ ?t"
      "drop 34 (sent_header local remote n len) = udp_hdr_bytes ?u @ ?t"
    unfolding h using e by (simp_all del: of_nat_add)
  have "eth_hdr_read (sent_header local remote n len) = ?e"
    unfolding h using eth_hdr_read_bytes [of ?e] assms by (simp add: ei_ok_def del: of_nat_add)
  moreover have "ip_hdr_read (ip_hdr_bytes ?i @ udp_hdr_bytes ?u @ ?t) = ?i"
    by (rule ip_hdr_read_bytes) (simp add: ip_hdr_ok_def)
  moreover have "unat (of_nat (34 + len) :: u16) = 34 + len" "unat (of_nat (14 + len) :: u16) = 14 + len"
    by (rule of_nat_inverse [OF refl], use assms(3) in simp)+
  moreover show m: "sent_header local remote n len ! 42 = 0x78"
    unfolding h using e by (simp add: nth_append del: of_nat_add)
  ultimately show "batch_header_ok (48 + len) (sent_header local remote n len)"
    unfolding batch_header_ok_def Let_def d m udp_hdr_read_bytes by simp
qed

text \<open>
  C38. What an assembler sends is a well-formed batch. For requests whose keys and values are
  rounded up as the headers say and that fit into a packet, the packet is no longer than an
  Ethernet frame, passes the client's own validity check as a request, and the loop of \<open>receive\<close>,
  which walks responses of the same layout, visits exactly the requests of the batch in order,
  with the bytes that were put in. The header it starts with is the one that the constructor
  of the assembler built.
\<close>

theorem mica_batch_round_trip:
  assumes "ei_ok local" "ei_ok remote" "list_all request_ok rs" "length (concat (map request_bytes rs)) \<le> max_req_len"
  shows "\<exists>header p q cs. build_batch_header local remote = Some header
    \<and> request_packet (fr_data (hd (pk_frags header))) rs = Some p \<and> pk_len p \<le> 1514
    \<and> is_valid p = Some (True, q) \<and> is_response p = Some False
    \<and> walk batch_header_size p = Some (zip (map fst rs) cs) \<and> map pkt_bytes cs = map request_bytes rs"
proof -
  let ?d = "concat (map request_bytes rs)"
  let ?h = "sent_header local remote (length rs) (length ?d)"
  obtain header where header: "build_batch_header local remote = Some header"
      "fr_data (hd (pk_frags header)) = batch_header_bytes local remote"
    using build_batch_header_spec [OF assms(1,2)] by (auto simp: external_def)
  obtain p where p: "request_packet (batch_header_bytes local remote) rs = Some p" "pkt_wf p" "pkt_bytes p = ?h @ ?d"
    using request_packet_spec [OF assms(1,2)] by blast
  have lh: "length ?h = 48"
    using assms(1,2) by (rule length_sent_header)
  have len: "pk_len p = 48 + length ?d" "length ?d \<le> 1466"
    using p(2,3) lh assms(4) by (simp_all add: pkt_wf_def max_req_len_def batch_header_size_def)
  have ok: "batch_header_ok (pk_len p) (take 48 (pkt_bytes p))" "pkt_bytes p ! 42 = 0x78"
    using sent_header_ok [OF assms(1,2), of "length ?d" "length rs"] len lh by (simp_all add: p(3) nth_append)
  obtain q where "is_valid p = Some (True, q)"
    using is_valid_spec [OF p(2)] ok(1) len(1) by auto
  moreover have "is_response p = Some False"
    using is_response_spec [OF p(2)] ok(2) len(1) by simp
  moreover obtain cs where "walk 48 p = Some (zip (map fst rs) cs)" "map pkt_bytes cs = map request_bytes rs"
    using walk_spec [OF assms(3) p(2,3)] lh by auto
  ultimately show ?thesis
    using header p(1) len by (auto simp: batch_header_size_def)
qed

theorem mica_batch_round_trip_witness:
  "\<exists>header p q cs. build_batch_header \<lparr>ei_eth_addr = [1, 2, 3, 4, 5, 6], ei_ip_addr = 1, ei_udp_port = 9\<rparr>
        \<lparr>ei_eth_addr = [6, 5, 4, 3, 2, 1], ei_ip_addr = 2, ei_udp_port = 8\<rparr> = Some header
    \<and> request_packet (fr_data (hd (pk_frags header)))
        [(\<lparr>rq_operation = 5, rq_result = 0, rq_reserved0 = 0, rq_kv_length_vec = kv_length_vec 8 0, rq_key_hash = 77,
           rq_opaque = opaque 3 4, rq_reserved1 = 0\<rparr>, replicate 8 7, [])] = Some p \<and> pk_len p \<le> 1514
    \<and> is_valid p = Some (True, q) \<and> is_response p = Some False
    \<and> walk batch_header_size p = Some (zip [\<lparr>rq_operation = 5, rq_result = 0, rq_reserved0 = 0,
        rq_kv_length_vec = kv_length_vec 8 0, rq_key_hash = 77, rq_opaque = opaque 3 4, rq_reserved1 = 0\<rparr>] cs)"
proof -
  let ?h = "\<lparr>rq_operation = 5, rq_result = 0, rq_reserved0 = 0, rq_kv_length_vec = kv_length_vec 8 0, rq_key_hash = 77,
    rq_opaque = opaque 3 4, rq_reserved1 = 0\<rparr>"
  have "key_len_of ?h = 8" "val_len_of ?h = 0"
    using kv_lengths [of 8 0 ?h] by simp_all
  then have "list_all request_ok [(?h, replicate 8 7, [])]"
    by (simp add: request_ok_def roundup8_def roundup_def)
  then show ?thesis
    using mica_batch_round_trip [of "\<lparr>ei_eth_addr = [1, 2, 3, 4, 5, 6], ei_ip_addr = 1, ei_udp_port = 9\<rparr>"
        "\<lparr>ei_eth_addr = [6, 5, 4, 3, 2, 1], ei_ip_addr = 2, ei_udp_port = 8\<rparr>" "[(?h, replicate 8 7, [])]"]
    by (simp add: ei_ok_def request_bytes_def max_req_len_def batch_header_size_def rq_size_def) metis
qed

end
