(* ===== verification/Mica_Client.thy ===== *)
theory Mica_Client
  imports Mica_Wire Semaphore
begin

text \<open>
  The MICA client (netstar/mica/mica_client.hh): a pool of request descriptors, one assembler per
  partition of the server that batches requests into packets, retransmission on timeout with an
  epoch that tells late responses apart, and a semaphore that makes queries wait for a descriptor.

  \<^item> \<open>req_desc\<close>, \<open>assembler\<close> and \<open>mica_client\<close> are the three classes; one definition per member
    function. The mc\_assert checks are compiled out, as in the source.
  \<^item> A promise is named by the query it belongs to; \<open>mc_log\<close> records how queries were answered.
    A query that had to wait continues as a task of its own (\<open>mc_run_next\<close>), in the order in which
    the semaphore granted them.
  \<^item> The hash of a key is a parameter. \<open>None\<close> is undefined behaviour or a loop that does not end.
  \<^item> \<open>mc_sent\<close> collects the requests of all packets sent, for the properties.
  \<^item> The locale \<open>unit_pool\<close> is what the client relies on in the semaphore.
\<close>

section \<open>Request descriptors\<close>

record query =
  q_id :: nat
  q_op :: u8
  q_key_len :: u64
  q_key :: bytes
  q_val_len :: u64
  q_val :: bytes

datatype action = Recycle_rd | Resend_rd | No_action

datatype outcome = Response request_hd pkt | Kill_flow

record req_desc =
  rd_index :: u16
  rd_epoch :: u16
  rd_retry :: nat
  rd_armed :: bool
  rd_hd :: request_hd
  rd_key_len :: u64
  rd_key :: bytes
  rd_val_len :: u64
  rd_val :: bytes
  rd_pr :: "query option"
  rd_size :: nat

definition max_retries :: nat where "max_retries = 5"

text \<open>The header of a new descriptor is not initialised.\<close>

definition rd_new :: "request_hd \<Rightarrow> nat \<Rightarrow> req_desc" where
  "rd_new h i = \<lparr>rd_index = of_nat i, rd_epoch = 0, rd_retry = 0, rd_armed = False, rd_hd = h, rd_key_len = 0, rd_key = [],
    rd_val_len = 0, rd_val = [], rd_pr = None, rd_size = rq_size\<rparr>"

definition setup_request_header :: "(bytes \<Rightarrow> u64 \<Rightarrow> u64) \<Rightarrow> u8 \<Rightarrow> req_desc \<Rightarrow> req_desc" where
  "setup_request_header hash op rd = rd\<lparr>rd_hd := (rd_hd rd)\<lparr>rq_operation := op, rq_result := 0,
    rq_key_hash := hash (rd_key rd) (rd_key_len rd), rq_opaque := opaque (rd_index rd) (rd_epoch rd), rq_reserved0 := 0,
    rq_kv_length_vec := kv_length_vec (rd_key_len rd) (rd_val_len rd)\<rparr>\<rparr>"

definition new_action :: "(bytes \<Rightarrow> u64 \<Rightarrow> u64) \<Rightarrow> query \<Rightarrow> req_desc \<Rightarrow> req_desc" where
  "new_action hash q rd = setup_request_header hash (q_op q)
    (rd\<lparr>rd_key_len := q_key_len q, rd_key := q_key q, rd_val_len := q_val_len q, rd_val := q_val q,
        rd_size := rq_size + length (q_key q) + length (q_val q)\<rparr>)"

definition obtain_future :: "query \<Rightarrow> req_desc \<Rightarrow> req_desc" where
  "obtain_future q rd = rd\<lparr>rd_pr := Some q\<rparr>"

definition request_of :: "req_desc \<Rightarrow> request" where
  "request_of rd = (rd_hd rd, rd_key rd, rd_val rd)"

definition arm_timer :: "req_desc \<Rightarrow> req_desc" where
  "arm_timer rd = rd\<lparr>rd_armed := True\<rparr>"

definition adjust_request_header_opaque :: "req_desc \<Rightarrow> req_desc" where
  "adjust_request_header_opaque rd = rd\<lparr>rd_hd := (rd_hd rd)\<lparr>rq_opaque := opaque (rd_index rd) (rd_epoch rd)\<rparr>\<rparr>"

definition normal_recycle_prep :: "req_desc \<Rightarrow> req_desc" where
  "normal_recycle_prep rd = rd\<lparr>rd_epoch := rd_epoch rd + 1, rd_retry := 0, rd_armed := False, rd_pr := None\<rparr>"

definition timeout_recycle_prep :: "req_desc \<Rightarrow> req_desc" where
  "timeout_recycle_prep rd = rd\<lparr>rd_epoch := rd_epoch rd + 1, rd_retry := 0, rd_pr := None\<rparr>"

definition match_response :: "request_hd \<Rightarrow> pkt \<Rightarrow> req_desc \<Rightarrow> (action \<times> (query \<times> outcome) list \<times> req_desc) option" where
  "match_response res_hd chunk rd = (if opaque_epoch (rq_opaque res_hd) \<noteq> rd_epoch rd then Some (No_action, [], rd)
    else case rd_pr rd of None \<Rightarrow> None
      | Some q \<Rightarrow> Some (Recycle_rd, [(q, Response res_hd chunk)], normal_recycle_prep rd))"

definition timeout_handler :: "req_desc \<Rightarrow> (action \<times> (query \<times> outcome) list \<times> req_desc) option" where
  "timeout_handler rd0 = (let rd = rd0\<lparr>rd_retry := rd_retry rd0 + 1\<rparr> in
    if rd_retry rd = max_retries then
      (case rd_pr rd of None \<Rightarrow> None | Some q \<Rightarrow> Some (Recycle_rd, [(q, Kill_flow)], timeout_recycle_prep rd))
    else Some (Resend_rd, [], adjust_request_header_opaque (rd\<lparr>rd_epoch := rd_epoch rd + 1\<rparr>)))"

section \<open>Assemblers and the client\<close>

record assembler =
  ra_header :: bytes
  ra_remaining :: nat
  ra_rd_idxs :: "nat list"
  ra_send_stream :: "nat list"

record mica_client =
  mc_rds :: "req_desc list"
  mc_ras :: "assembler list"
  mc_sem :: "(query, unit) sem"
  mc_recycled :: "nat list"
  mc_which_ra :: nat
  mc_run :: nat
  mc_next :: nat
  mc_log :: "(query \<times> outcome) list"
  mc_out :: "(nat \<times> pkt) list"
  mc_sent :: "request list"

definition total_request_descriptor_count :: nat where "total_request_descriptor_count = 2048"

definition ra_new :: "endpoint_info \<Rightarrow> endpoint_info \<Rightarrow> assembler option" where
  "ra_new remote local = map_option (\<lambda>p. \<lparr>ra_header = fr_data (hd (pk_frags p)), ra_remaining = max_req_len,
    ra_rd_idxs = [], ra_send_stream = []\<rparr>) (build_batch_header local remote)"

fun ra_new_all :: "(endpoint_info \<times> endpoint_info) list \<Rightarrow> assembler list option" where
  "ra_new_all [] = Some []"
| "ra_new_all ((remote, local) # es) = Option.bind (ra_new remote local) (\<lambda>ra. map_option ((#) ra) (ra_new_all es))"

definition bootup :: "(nat \<Rightarrow> request_hd) \<Rightarrow> (endpoint_info \<times> endpoint_info) list \<Rightarrow> mica_client option" where
  "bootup hds es = map_option (\<lambda>ras. \<lparr>mc_rds = map (\<lambda>i. rd_new (hds i) i) [0..<total_request_descriptor_count],
    mc_ras = ras, mc_sem = sem_init (of_nat total_request_descriptor_count),
    mc_recycled = [0..<total_request_descriptor_count], mc_which_ra = 0, mc_run = 0, mc_next = 0, mc_log = [],
    mc_out = [], mc_sent = []\<rparr>) (ra_new_all es)"

definition upd_rd :: "nat \<Rightarrow> (req_desc \<Rightarrow> req_desc) \<Rightarrow> mica_client \<Rightarrow> mica_client" where
  "upd_rd j f s = s\<lparr>mc_rds := (mc_rds s)[j := f (mc_rds s ! j)]\<rparr>"

definition upd_ra :: "nat \<Rightarrow> (assembler \<Rightarrow> assembler) \<Rightarrow> mica_client \<Rightarrow> mica_client" where
  "upd_ra i f s = s\<lparr>mc_ras := (mc_ras s)[i := f (mc_ras s ! i)]\<rparr>"

definition send_request_packet :: "nat \<Rightarrow> mica_client \<Rightarrow> mica_client option" where
  "send_request_packet i s =
    (let ra = mc_ras s ! i; idxs = ra_rd_idxs ra in
     if \<not> list_all (\<lambda>j. j < length (mc_rds s)) idxs then None else
     let rs = map (\<lambda>j. request_of (mc_rds s ! j)) idxs in
     map_option (\<lambda>p. upd_ra i (\<lambda>ra. ra\<lparr>ra_rd_idxs := [], ra_remaining := max_req_len\<rparr>)
         (fold (\<lambda>j. upd_rd j arm_timer) idxs (s\<lparr>mc_out := mc_out s @ [(i, p)], mc_sent := mc_sent s @ rs\<rparr>)))
       (request_packet (ra_header ra) rs))"

partial_function (option) consume_send_stream :: "nat \<Rightarrow> mica_client \<Rightarrow> mica_client option" where
  "consume_send_stream i s = (case ra_send_stream (mc_ras s ! i) of [] \<Rightarrow> Some s
    | j # rest \<Rightarrow>
      if \<not> j < length (mc_rds s) then None
      else if ra_remaining (mc_ras s ! i) < rd_size (mc_rds s ! j)
      then Option.bind (send_request_packet i s) (consume_send_stream i)
      else consume_send_stream i (upd_ra i (\<lambda>ra. ra\<lparr>ra_rd_idxs := ra_rd_idxs ra @ [j], ra_send_stream := rest,
        ra_remaining := ra_remaining ra - rd_size (mc_rds s ! j)\<rparr>) s))"

definition append_new_request_descriptor :: "nat \<Rightarrow> nat \<Rightarrow> mica_client \<Rightarrow> mica_client option" where
  "append_new_request_descriptor i j s =
    consume_send_stream i (upd_ra i (\<lambda>ra. ra\<lparr>ra_send_stream := ra_send_stream ra @ [j]\<rparr>) s)"

definition force_send :: "nat \<Rightarrow> mica_client \<Rightarrow> mica_client option" where
  "force_send i s = (if length (ra_rd_idxs (mc_ras s ! i)) > 0 then send_request_packet i s else Some s)"

definition check_request_assemblers :: "nat \<Rightarrow> mica_client \<Rightarrow> mica_client option" where
  "check_request_assemblers i s = (if \<not> i < length (mc_ras s) then None
    else Option.bind (consume_send_stream i s) (force_send i))"

text \<open>The periodic timer: the next five assemblers.\<close>

fun check_ras :: "nat \<Rightarrow> mica_client \<Rightarrow> mica_client option" where
  "check_ras 0 s = Some s"
| "check_ras (Suc n) s = Option.bind (check_request_assemblers (mc_which_ra s) s) (\<lambda>t.
     check_ras n (t\<lparr>mc_which_ra := (mc_which_ra t + 1) mod length (mc_ras t)\<rparr>))"

definition check_ras_timer :: "mica_client \<Rightarrow> mica_client option" where
  "check_ras_timer s = check_ras 5 s"

definition calc_partition_id :: "u64 \<Rightarrow> nat \<Rightarrow> nat" where
  "calc_partition_id key_hash partition_count = unat (drop_bit 48 key_hash) mod partition_count"

definition send_request_descriptor :: "nat \<Rightarrow> mica_client \<Rightarrow> mica_client option" where
  "send_request_descriptor j s = (if mc_ras s = [] then None
    else append_new_request_descriptor (calc_partition_id (rq_key_hash (rd_hd (mc_rds s ! j))) (length (mc_ras s))) j s)"

text \<open>The common part of \<open>query\<close>, run at once or when the semaphore has granted a descriptor.\<close>

definition start_query :: "(bytes \<Rightarrow> u64 \<Rightarrow> u64) \<Rightarrow> query \<Rightarrow> mica_client \<Rightarrow> mica_client option" where
  "start_query hash q s = (case mc_recycled s of [] \<Rightarrow> None
    | j # rest \<Rightarrow> if \<not> j < length (mc_rds s) then None else
        map_option (upd_rd j (obtain_future q))
          (send_request_descriptor j (upd_rd j (new_action hash q) (s\<lparr>mc_recycled := rest\<rparr>))))"

definition mc_query :: "(bytes \<Rightarrow> u64 \<Rightarrow> u64) \<Rightarrow> u8 \<Rightarrow> u64 \<Rightarrow> bytes \<Rightarrow> u64 \<Rightarrow> bytes \<Rightarrow> mica_client \<Rightarrow> mica_client option" where
  "mc_query hash op key_len key val_len val s =
    (let q = \<lparr>q_id = mc_next s, q_op = op, q_key_len = key_len, q_key = key, q_val_len = val_len, q_val = val\<rparr>;
         t = s\<lparr>mc_next := mc_next s + 1\<rparr> in
     case sem_try_wait 1 (mc_sem t) of
       (True, m) \<Rightarrow> start_query hash q (t\<lparr>mc_sem := m\<rparr>)
     | (False, m) \<Rightarrow> Some (t\<lparr>mc_sem := sem_wait q 1 False m\<rparr>))"

definition mc_run_next :: "(bytes \<Rightarrow> u64 \<Rightarrow> u64) \<Rightarrow> mica_client \<Rightarrow> mica_client option" where
  "mc_run_next hash s = (if mc_run s < length (sem_log (mc_sem s)) then
     (case sem_log (mc_sem s) ! mc_run s of (q, r) \<Rightarrow>
        (let t = s\<lparr>mc_run := mc_run s + 1\<rparr> in if r = Granted then start_query hash q t else Some t))
     else Some s)"

definition recycle :: "nat \<Rightarrow> mica_client \<Rightarrow> mica_client option" where
  "recycle j s = map_option (\<lambda>m. s\<lparr>mc_recycled := mc_recycled s @ [j], mc_sem := m\<rparr>) (sem_signal 1 (mc_sem s))"

definition apply_action :: "nat \<Rightarrow> (action \<times> (query \<times> outcome) list \<times> req_desc) \<Rightarrow> mica_client \<Rightarrow> mica_client option" where
  "apply_action j r s = (case r of (a, answers, rd) \<Rightarrow>
    (let t = upd_rd j (\<lambda>_. rd) (s\<lparr>mc_log := mc_log s @ answers\<rparr>) in
     case a of No_action \<Rightarrow> Some t | Recycle_rd \<Rightarrow> recycle j t | Resend_rd \<Rightarrow> send_request_descriptor j t))"

text \<open>The timer of a descriptor fires, which disarms it.\<close>

definition check_request_descriptor_timeout :: "nat \<Rightarrow> mica_client \<Rightarrow> mica_client option" where
  "check_request_descriptor_timeout j s0 = (if \<not> j < length (mc_rds s0) then None else
    let s = upd_rd j (\<lambda>rd. rd\<lparr>rd_armed := False\<rparr>) s0 in
    Option.bind (timeout_handler (mc_rds s ! j)) (\<lambda>r. apply_action j r s))"

definition handle_response :: "request_hd \<times> pkt \<Rightarrow> mica_client \<Rightarrow> mica_client option" where
  "handle_response r s = (case r of (h, chunk) \<Rightarrow>
    (let j = opaque_rd (rq_opaque h) in
     if \<not> j < length (mc_rds s) then None
     else Option.bind (match_response h chunk (mc_rds s ! j)) (\<lambda>a. apply_action j a s)))"

fun handle_responses :: "(request_hd \<times> pkt) list \<Rightarrow> mica_client \<Rightarrow> mica_client option" where
  "handle_responses [] s = Some s"
| "handle_responses (r # rs) s = Option.bind (handle_response r s) (handle_responses rs)"

definition mc_receive :: "pkt \<Rightarrow> mica_client \<Rightarrow> mica_client option" where
  "mc_receive p0 s = Option.bind (is_valid p0) (\<lambda>(valid, p).
    if \<not> valid then Some s else
    Option.bind (is_response p) (\<lambda>response.
    if \<not> response \<or> length (pk_frags p) \<noteq> 1 then Some s else
    Option.bind (walk batch_header_size p) (\<lambda>rs. handle_responses rs s)))"

text \<open>What happens to a client, and the runs of it.\<close>

datatype event = Query u8 u64 bytes u64 bytes | Run_next | Ras_timer | Timeout nat | Receive pkt

fun mc_apply :: "(bytes \<Rightarrow> u64 \<Rightarrow> u64) \<Rightarrow> event \<Rightarrow> mica_client \<Rightarrow> mica_client option" where
  "mc_apply hash (Query op key_len key val_len val) s = mc_query hash op key_len key val_len val s"
| "mc_apply hash Run_next s = mc_run_next hash s"
| "mc_apply hash Ras_timer s = check_ras_timer s"
| "mc_apply hash (Timeout j) s = check_request_descriptor_timeout j s"
| "mc_apply hash (Receive p) s = mc_receive p s"

text \<open>
  The environment: requests fit into a packet, only armed timers fire, and every response in a
  packet that parses echoes a request that was sent, with fewer than \<open>2 ^ 16 - 1\<close> later
  transmissions of the same descriptor.
\<close>

definition for_rd :: "nat \<Rightarrow> request \<Rightarrow> bool" where
  "for_rd j r \<longleftrightarrow> opaque_rd (rq_opaque (fst r)) = j"

definition echoes :: "request_hd \<Rightarrow> nat \<Rightarrow> request list \<Rightarrow> bool" where
  "echoes h k rs \<longleftrightarrow> k < length rs \<and> rq_opaque (fst (rs ! k)) = rq_opaque h
    \<and> length (filter (for_rd (opaque_rd (rq_opaque h))) (drop (Suc k) rs)) < 2 ^ 16 - 1"

definition received :: "pkt \<Rightarrow> (request_hd \<times> pkt) list option" where
  "received p0 = Option.bind (is_valid p0) (\<lambda>(valid, p).
    if \<not> valid then Some [] else
    Option.bind (is_response p) (\<lambda>response.
    if \<not> response \<or> length (pk_frags p) \<noteq> 1 then Some [] else walk batch_header_size p))"

fun mc_admits :: "event \<Rightarrow> mica_client \<Rightarrow> bool" where
  "mc_admits (Query op key_len key val_len val) s \<longleftrightarrow> rq_size + length key + length val \<le> max_req_len"
| "mc_admits (Timeout j) s \<longleftrightarrow> j < length (mc_rds s) \<and> rd_armed (mc_rds s ! j)"
| "mc_admits (Receive p) s \<longleftrightarrow> (case received p of None \<Rightarrow> False
    | Some rs \<Rightarrow> \<forall>(h, chunk) \<in> set rs. \<exists>k < length (mc_sent s). echoes h k (mc_sent s))"
| "mc_admits _ s \<longleftrightarrow> True"

inductive mc_reach :: "(bytes \<Rightarrow> u64 \<Rightarrow> u64) \<Rightarrow> mica_client \<Rightarrow> bool" for hash where
  boot: "bootup hds es = Some s \<Longrightarrow> es \<noteq> [] \<Longrightarrow> \<forall>(remote, local) \<in> set es. ei_ok remote \<and> ei_ok local \<Longrightarrow> mc_reach hash s"
| step: "mc_reach hash s \<Longrightarrow> mc_admits ev s \<Longrightarrow> mc_apply hash ev s = Some t \<Longrightarrow> mc_reach hash t"


section \<open>The pool of descriptors\<close>

text \<open>What the client relies on in the semaphore, when it is used one unit at a time.\<close>

locale unit_pool =
  fixes invar :: "'p \<Rightarrow> bool" and avail :: "'p \<Rightarrow> nat" and waiting :: "'p \<Rightarrow> 'w list" and woken :: "'p \<Rightarrow> 'w list"
    and ask :: "'p \<Rightarrow> bool \<times> 'p" and await :: "'w \<Rightarrow> 'p \<Rightarrow> 'p" and give :: "'p \<Rightarrow> 'p option"
  assumes ask_some: "invar p \<Longrightarrow> 0 < avail p \<Longrightarrow>
      \<exists>q. ask p = (True, q) \<and> invar q \<and> Suc (avail q) = avail p \<and> waiting q = waiting p \<and> woken q = woken p"
    and ask_none: "invar p \<Longrightarrow> avail p = 0 \<Longrightarrow> ask p = (False, p)"
    and await_spec: "invar p \<Longrightarrow> avail p = 0 \<Longrightarrow> invar (await w p) \<and> avail (await w p) = 0
      \<and> waiting (await w p) = waiting p @ [w] \<and> woken (await w p) = woken p"
    and give_idle: "invar p \<Longrightarrow> avail p < 2 ^ 62 \<Longrightarrow> waiting p = [] \<Longrightarrow>
      \<exists>q. give p = Some q \<and> invar q \<and> avail q = Suc (avail p) \<and> waiting q = [] \<and> woken q = woken p"
    and give_waiting: "invar p \<Longrightarrow> avail p < 2 ^ 62 \<Longrightarrow> waiting p = w # ws \<Longrightarrow>
      \<exists>q. give p = Some q \<and> invar q \<and> avail q = avail p \<and> waiting q = ws \<and> woken q = woken p @ [w]"
begin

text \<open>A unit given is available or has woken someone; nobody is lost or overtaken.\<close>

lemma give_spec:
  assumes "invar p" "avail p < 2 ^ 62"
  shows "\<exists>q. give p = Some q \<and> invar q \<and> avail q + length (woken q) = Suc (avail p + length (woken p))
    \<and> woken q @ waiting q = woken p @ waiting p"
  using give_idle [OF assms] give_waiting [OF assms] by (cases "waiting p") fastforce+

lemma ask_spec:
  assumes "invar p"
  shows "(\<exists>q. ask p = (True, q) \<and> invar q \<and> Suc (avail q) = avail p \<and> waiting q = waiting p \<and> woken q = woken p)
    \<or> ask p = (False, p) \<and> invar (await w p) \<and> avail (await w p) = avail p
      \<and> waiting (await w p) = waiting p @ [w] \<and> woken (await w p) = woken p"
  using ask_some [OF assms] ask_none [OF assms] await_spec [OF assms] by (cases "avail p = 0") auto

end

definition sem_unit_inv :: "('w, 'e) sem \<Rightarrow> bool" where
  "sem_unit_inv m \<longleftrightarrow> settled m \<and> sem_ex m = None \<and> 0 \<le> units m \<and> list_all (\<lambda>(w, nr). nr = 1) (queued m)
    \<and> list_all (\<lambda>(w, r). r = Granted) (sem_log m)"

definition sem_avail :: "('w, 'e) sem \<Rightarrow> nat" where "sem_avail m = nat (units m)"
definition sem_waiting :: "('w, 'e) sem \<Rightarrow> 'w list" where "sem_waiting m = map fst (queued m)"
definition sem_woken :: "('w, 'e) sem \<Rightarrow> 'w list" where "sem_woken m = map fst (sem_log m)"

lemmas sem_unit_defs = sem_unit_inv_def sem_avail_def sem_waiting_def sem_woken_def

lemma sem_unit_waiting: "sem_unit_inv m \<Longrightarrow> queued m = (w, nr) # ws \<Longrightarrow> units m = 0 \<and> nr = 1"
  by (auto simp: sem_unit_inv_def settled_def)

lemma may_proceed_unit: "sem_unit_inv m \<Longrightarrow> may_proceed 1 m \<longleftrightarrow> 0 < units m"
proof -
  assume m: "sem_unit_inv m"
  then have e: "ef_empty (sem_waiters m) \<longleftrightarrow> queued m = []"
    by (intro ef.is_empty) (simp add: sem_unit_inv_def settled_def)
  show ?thesis
  proof (cases "queued m")
    case Nil
    then show ?thesis
      using m e by (auto simp: may_proceed_def has_available_units_iff)
  next
    case (Cons x xs)
    then show ?thesis
      using e sem_unit_waiting [OF m, of "fst x" "snd x" xs] by (simp add: may_proceed_def)
  qed
qed

lemma sem_unit_give:
  assumes "sem_unit_inv m" "nat (units m) < 2 ^ 62"
  shows "\<exists>t. sem_signal 1 m = Some t \<and> sem_unit_inv t
    \<and> (case queued m of [] \<Rightarrow> units t = units m + 1 \<and> queued t = [] \<and> sem_log t = sem_log m
       | (w, nr) # ws \<Rightarrow> units t = 0 \<and> queued t = ws \<and> sem_log t = sem_log m @ [(w, Granted)])"
proof -
  have p: "ef_inv (sem_waiters m)" "sem_ex m = None" "units m + uint (1 :: u64) < 2 ^ 63" "0 \<le> units m"
    and l: "list_all (\<lambda>(w, nr). nr = 1) (queued m)" "list_all (\<lambda>(w, r). r = Granted) (sem_log m)"
    using assms by (auto simp: sem_unit_inv_def settled_def)
  from sem_signal_spec [OF p(1-3)] obtain t k where t: "sem_signal 1 m = Some t" "settled t" "sem_ex t = None"
      "k \<le> length (queued m)" "queued t = drop k (queued m)" "sem_log t = sem_log m @ granted (take k (queued m))"
      "units t = units m + uint (1 :: u64) - total_units (take k (queued m))" "0 < k \<longrightarrow> 0 \<le> units t"
    by (elim exE conjE)
  have tot: "total_units xs = int (length xs)" if "list_all (\<lambda>(w, nr). nr = 1) xs" for xs :: "('a \<times> u64) list"
    using that by (induction xs) auto
  have k: "units t = units m + 1 - int k"
    using t(4,7) tot [of "take k (queued m)"] l(1) by (simp add: list_all_length)
  have "list_all (\<lambda>(w, nr). nr = 1) (queued t)"
    using l(1) t(5) by (simp add: list_all_length)
  then have inv: "sem_unit_inv t"
    using t(2,3,6,8) p(4) k l(2)
    by (cases "k = 0") (auto simp: sem_unit_inv_def granted_def list_all_iff)
  show ?thesis
  proof (cases "queued m")
    case Nil
    with t k inv show ?thesis by auto
  next
    case (Cons x xs)
    obtain w nr where x: "x = (w, nr)" by fastforce
    have u: "units m = 0"
      using sem_unit_waiting [OF assms(1)] Cons x by simp
    have "k \<noteq> 0"
      using sem_unit_waiting [OF inv, of w nr xs] k u Cons x t(5) by (cases k) simp_all
    moreover have "k \<le> 1"
      using k u t(8) by auto
    ultimately have "k = 1" by simp
    with t k u inv Cons x show ?thesis by auto
  qed
qed

interpretation rd_pool: unit_pool sem_unit_inv sem_avail sem_waiting sem_woken "sem_try_wait 1"
  "\<lambda>w. sem_wait w 1 False" "sem_signal 1"
proof unfold_locales
  fix p :: "('a, 'b) sem" assume p: "sem_unit_inv p" "0 < sem_avail p"
  then have "queued p = []" "0 < units p"
    using sem_unit_waiting [OF p(1)] by (cases "queued p"; fastforce simp: sem_avail_def)+
  then show "\<exists>q. sem_try_wait 1 p = (True, q) \<and> sem_unit_inv q \<and> Suc (sem_avail q) = sem_avail p
      \<and> sem_waiting q = sem_waiting p \<and> sem_woken q = sem_woken p"
    using may_proceed_unit [OF p(1)] p(1) sint_diff [of "sem_count p" 1]
    by (auto simp: sem_try_wait_def sem_unit_defs settled_def)
next
  fix p :: "('a, 'b) sem" assume p: "sem_unit_inv p" "sem_avail p = 0"
  then have u: "\<not> may_proceed 1 p" "units p = 0"
    using may_proceed_unit [OF p(1)] by (auto simp: sem_unit_defs)
  then show "sem_try_wait 1 p = (False, p)"
    by (simp add: sem_try_wait_def)
  show "sem_unit_inv (sem_wait w 1 False p) \<and> sem_avail (sem_wait w 1 False p) = 0
      \<and> sem_waiting (sem_wait w 1 False p) = sem_waiting p @ [w] \<and> sem_woken (sem_wait w 1 False p) = sem_woken p" for w
    using sem_wait_cases [of p 1 w False] sem_wait_spec [of p w 1 False] p u
    by (auto simp: sem_unit_defs) (auto simp: sem_wait_def)
next
  fix p :: "('a, 'b) sem" assume p: "sem_unit_inv p" "sem_avail p < 2 ^ 62" "sem_waiting p = []"
  with sem_unit_give [OF p(1)] show "\<exists>q. sem_signal 1 p = Some q \<and> sem_unit_inv q \<and> sem_avail q = Suc (sem_avail p)
      \<and> sem_waiting q = [] \<and> sem_woken q = sem_woken p"
    by (auto simp: sem_avail_def sem_waiting_def sem_woken_def sem_unit_inv_def nat_add_distrib)
next
  fix p :: "('a, 'b) sem" and w ws assume p: "sem_unit_inv p" "sem_avail p < 2 ^ 62" "sem_waiting p = w # ws"
  then obtain nr xs where q: "queued p = (w, nr) # xs" "ws = map fst xs"
    by (auto simp: sem_waiting_def)
  with sem_unit_give [OF p(1)] sem_unit_waiting [OF p(1) q(1)] p(2)
  show "\<exists>q. sem_signal 1 p = Some q \<and> sem_unit_inv q \<and> sem_avail q = sem_avail p
      \<and> sem_waiting q = ws \<and> sem_woken q = sem_woken p @ [w]"
    by (auto simp: sem_avail_def sem_waiting_def sem_woken_def)
qed

section \<open>Assembling batches\<close>

text \<open>Arming a timer is all that sending does to a descriptor.\<close>

definition same_request :: "req_desc \<Rightarrow> req_desc \<Rightarrow> bool" where
  "same_request a b \<longleftrightarrow> b = a\<lparr>rd_armed := rd_armed b\<rparr>"

lemma same_request_refl [simp]: "same_request a a"
  by (simp add: same_request_def)

lemma same_request_trans: "same_request a b \<Longrightarrow> same_request b c \<Longrightarrow> same_request a c"
  by (cases a; cases b; cases c) (simp add: same_request_def)

lemma same_request_fields:
  assumes "same_request a b"
  shows "request_of b = request_of a" "rd_size b = rd_size a" "rd_pr b = rd_pr a" "rd_index b = rd_index a"
    "rd_epoch b = rd_epoch a" "rd_retry b = rd_retry a" "rd_hd b = rd_hd a" "rd_key b = rd_key a" "rd_val b = rd_val a"
  using assms by (cases a; cases b; simp add: same_request_def request_of_def)+

lemma upd_rd_simps [simp]:
  "mc_ras (upd_rd j f s) = mc_ras s" "mc_sem (upd_rd j f s) = mc_sem s" "mc_recycled (upd_rd j f s) = mc_recycled s"
  "mc_which_ra (upd_rd j f s) = mc_which_ra s" "mc_run (upd_rd j f s) = mc_run s" "mc_next (upd_rd j f s) = mc_next s"
  "mc_log (upd_rd j f s) = mc_log s" "mc_out (upd_rd j f s) = mc_out s" "mc_sent (upd_rd j f s) = mc_sent s"
  "mc_rds (upd_rd j f s) = (mc_rds s)[j := f (mc_rds s ! j)]"
  by (simp_all add: upd_rd_def)

lemma upd_ra_simps [simp]:
  "mc_rds (upd_ra i f s) = mc_rds s" "mc_sem (upd_ra i f s) = mc_sem s" "mc_recycled (upd_ra i f s) = mc_recycled s"
  "mc_which_ra (upd_ra i f s) = mc_which_ra s" "mc_run (upd_ra i f s) = mc_run s" "mc_next (upd_ra i f s) = mc_next s"
  "mc_log (upd_ra i f s) = mc_log s" "mc_out (upd_ra i f s) = mc_out s" "mc_sent (upd_ra i f s) = mc_sent s"
  "mc_ras (upd_ra i f s) = (mc_ras s)[i := f (mc_ras s ! i)]"
  by (simp_all add: upd_ra_def)

lemma arm_all_rds:
  "mc_rds (fold (\<lambda>j. upd_rd j arm_timer) js s)
    = map (\<lambda>k. if k \<in> set js then arm_timer (mc_rds s ! k) else mc_rds s ! k) [0..<length (mc_rds s)]"
proof (induction js arbitrary: s)
  case (Cons j js)
  have a: "arm_timer (arm_timer r) = arm_timer r" for r
    by (simp add: arm_timer_def)
  have "mc_rds (fold (\<lambda>j. upd_rd j arm_timer) (j # js) s) = mc_rds (fold (\<lambda>j. upd_rd j arm_timer) js (upd_rd j arm_timer s))"
    by simp
  also have "\<dots> = map (\<lambda>k. if k \<in> set (j # js) then arm_timer (mc_rds s ! k) else mc_rds s ! k) [0..<length (mc_rds s)]"
    unfolding Cons.IH by (rule nth_equalityI) (simp, case_tac "j = i", simp_all add: a)
  finally show ?case .
qed (simp add: map_nth)

lemma arm_all_rest:
  "fold (\<lambda>j. upd_rd j arm_timer) js s = s\<lparr>mc_rds := mc_rds (fold (\<lambda>j. upd_rd j arm_timer) js s)\<rparr>"
proof (induction js arbitrary: s)
  case (Cons j js)
  show ?case
    using Cons.IH [of "upd_rd j arm_timer s"] by (simp add: upd_rd_def)
qed simp

text \<open>The whole effect of sending a batch.\<close>

definition batch_sent :: "nat \<Rightarrow> pkt \<Rightarrow> mica_client \<Rightarrow> mica_client" where
  "batch_sent i p s = s\<lparr>
    mc_rds := map (\<lambda>k. if k \<in> set (ra_rd_idxs (mc_ras s ! i)) then arm_timer (mc_rds s ! k) else mc_rds s ! k)
      [0..<length (mc_rds s)],
    mc_ras := (mc_ras s)[i := (mc_ras s ! i)\<lparr>ra_rd_idxs := [], ra_remaining := max_req_len\<rparr>],
    mc_out := mc_out s @ [(i, p)],
    mc_sent := mc_sent s @ map (\<lambda>j. request_of (mc_rds s ! j)) (ra_rd_idxs (mc_ras s ! i))\<rparr>"

lemma send_state:
  "upd_ra i (\<lambda>ra. ra\<lparr>ra_rd_idxs := [], ra_remaining := max_req_len\<rparr>)
      (fold (\<lambda>j. upd_rd j arm_timer) (ra_rd_idxs (mc_ras s ! i)) (s\<lparr>mc_out := mc_out s @ [(i, p)],
        mc_sent := mc_sent s @ map (\<lambda>j. request_of (mc_rds s ! j)) (ra_rd_idxs (mc_ras s ! i))\<rparr>)) = batch_sent i p s"
  by (subst arm_all_rest) (simp add: arm_all_rds batch_sent_def upd_ra_def)

lemma send_request_packet_Some: "send_request_packet i s = Some t \<Longrightarrow> \<exists>p. t = batch_sent i p s"
  by (auto simp: send_request_packet_def Let_def send_state split: if_splits)

definition ra_ready :: "nat \<Rightarrow> mica_client \<Rightarrow> bool" where
  "ra_ready i s \<longleftrightarrow> i < length (mc_ras s) \<and> list_all (\<lambda>j. j < length (mc_rds s)) (ra_rd_idxs (mc_ras s ! i))
    \<and> (\<exists>local remote. ei_ok local \<and> ei_ok remote \<and> ra_header (mc_ras s ! i) = batch_header_bytes local remote)"

lemma send_request_packet_spec:
  assumes "ra_ready i s"
  shows "\<exists>p. send_request_packet i s = Some (batch_sent i p s) \<and> pkt_wf p
    \<and> pk_len p = 48 + length (concat (map (\<lambda>j. request_bytes (request_of (mc_rds s ! j))) (ra_rd_idxs (mc_ras s ! i))))"
proof -
  obtain l r where e: "ei_ok l" "ei_ok r" "ra_header (mc_ras s ! i) = batch_header_bytes l r"
    using assms by (auto simp: ra_ready_def)
  let ?js = "ra_rd_idxs (mc_ras s ! i)"
  let ?rs = "map (\<lambda>j. request_of (mc_rds s ! j)) ?js"
  from request_packet_spec [OF e(1,2), of ?rs] obtain p where p: "request_packet (batch_header_bytes l r) ?rs = Some p" "pkt_wf p"
      "pkt_bytes p = sent_header l r (length ?rs) (length (concat (map request_bytes ?rs))) @ concat (map request_bytes ?rs)"
    by blast
  have "pk_len p = 48 + length (concat (map request_bytes ?rs))"
    using p(2,3) length_sent_header [OF e(1,2)] by (simp add: pkt_wf_def)
  moreover have "send_request_packet i s = Some (batch_sent i p s)"
    using assms p(1) e(3) by (simp add: send_request_packet_def Let_def ra_ready_def send_state)
  ultimately show ?thesis
    using p(2) by (auto simp: o_def)
qed

lemma batch_sent_simps [simp]:
  "mc_sem (batch_sent i p s) = mc_sem s" "mc_recycled (batch_sent i p s) = mc_recycled s"
  "mc_which_ra (batch_sent i p s) = mc_which_ra s" "mc_run (batch_sent i p s) = mc_run s"
  "mc_next (batch_sent i p s) = mc_next s" "mc_log (batch_sent i p s) = mc_log s"
  "mc_out (batch_sent i p s) = mc_out s @ [(i, p)]" "length (mc_rds (batch_sent i p s)) = length (mc_rds s)"
  "length (mc_ras (batch_sent i p s)) = length (mc_ras s)"
  "mc_sent (batch_sent i p s) = mc_sent s @ map (\<lambda>j. request_of (mc_rds s ! j)) (ra_rd_idxs (mc_ras s ! i))"
  by (simp_all add: batch_sent_def)

lemma batch_sent_rds:
  "k < length (mc_rds s) \<Longrightarrow> mc_rds (batch_sent i p s) ! k
    = (if k \<in> set (ra_rd_idxs (mc_ras s ! i)) then arm_timer (mc_rds s ! k) else mc_rds s ! k)"
  by (simp add: batch_sent_def)

lemma batch_sent_same: "k < length (mc_rds s) \<Longrightarrow> same_request (mc_rds s ! k) (mc_rds (batch_sent i p s) ! k)"
  by (simp add: batch_sent_rds same_request_def arm_timer_def)

lemma batch_sent_ras:
  "k < length (mc_ras s) \<Longrightarrow> mc_ras (batch_sent i p s) ! k
    = (if k = i then (mc_ras s ! i)\<lparr>ra_rd_idxs := [], ra_remaining := max_req_len\<rparr> else mc_ras s ! k)"
  by (simp add: batch_sent_def nth_list_update)

lemma ra_ready_batch_sent: "ra_ready i s \<Longrightarrow> ra_ready i (batch_sent i p s)"
  by (auto simp: ra_ready_def batch_sent_ras)

text \<open>One round of the loop moves the next descriptor into the batch.\<close>

definition push_rd :: "nat \<Rightarrow> mica_client \<Rightarrow> mica_client" where
  "push_rd i s = (case ra_send_stream (mc_ras s ! i) of [] \<Rightarrow> s | j # rest \<Rightarrow>
    upd_ra i (\<lambda>ra. ra\<lparr>ra_rd_idxs := ra_rd_idxs ra @ [j], ra_send_stream := rest,
        ra_remaining := ra_remaining ra - rd_size (mc_rds s ! j)\<rparr>) s)"

lemma consume_done: "ra_send_stream (mc_ras s ! i) = [] \<Longrightarrow> consume_send_stream i s = Some s"
  by (simp add: consume_send_stream.simps)

lemma consume_fits:
  assumes "ra_send_stream (mc_ras s ! i) = j # rest" "j < length (mc_rds s)" "rd_size (mc_rds s ! j) \<le> ra_remaining (mc_ras s ! i)"
  shows "consume_send_stream i s = consume_send_stream i (push_rd i s)"
  using assms by (simp add: consume_send_stream.simps [of i s] push_rd_def)

lemma consume_full:
  assumes "ra_send_stream (mc_ras s ! i) = j # rest" "j < length (mc_rds s)" "rd_size (mc_rds s ! j) \<le> max_req_len" "ra_ready i s"
    and "ra_remaining (mc_ras s ! i) < rd_size (mc_rds s ! j)"
  shows "\<exists>p. send_request_packet i s = Some (batch_sent i p s)
    \<and> consume_send_stream i s = consume_send_stream i (push_rd i (batch_sent i p s))"
proof -
  obtain p where p: "send_request_packet i s = Some (batch_sent i p s)"
    using send_request_packet_spec [OF assms(4)] by blast
  have i: "i < length (mc_ras s)"
    using assms(4) by (simp add: ra_ready_def)
  then have "consume_send_stream i (batch_sent i p s) = consume_send_stream i (push_rd i (batch_sent i p s))"
    using assms(1-3) same_request_fields [OF batch_sent_same [OF assms(2), of i p]]
    by (intro consume_fits [of _ _ j rest]) (simp_all add: batch_sent_ras)
  moreover have "consume_send_stream i s = consume_send_stream i (batch_sent i p s)"
    using assms p by (simp add: consume_send_stream.simps [of i s])
  ultimately show ?thesis
    using p by auto
qed

lemma push_rd_simps [simp]:
  "mc_rds (push_rd i s) = mc_rds s" "mc_sent (push_rd i s) = mc_sent s" "length (mc_ras (push_rd i s)) = length (mc_ras s)"
  "mc_sem (push_rd i s) = mc_sem s" "mc_recycled (push_rd i s) = mc_recycled s" "mc_which_ra (push_rd i s) = mc_which_ra s"
  "mc_run (push_rd i s) = mc_run s" "mc_next (push_rd i s) = mc_next s" "mc_log (push_rd i s) = mc_log s"
  "mc_out (push_rd i s) = mc_out s"
  by (simp_all add: push_rd_def split: list.splits)

lemma push_rd_ra:
  assumes "ra_send_stream (mc_ras s ! i) = j # rest" "k < length (mc_ras s)"
  shows "mc_ras (push_rd i s) ! k = (if k = i then (mc_ras s ! i)\<lparr>ra_rd_idxs := ra_rd_idxs (mc_ras s ! i) @ [j],
    ra_send_stream := rest, ra_remaining := ra_remaining (mc_ras s ! i) - rd_size (mc_rds s ! j)\<rparr> else mc_ras s ! k)"
  using assms by (simp add: push_rd_def nth_list_update)

lemma ra_ready_push_rd:
  assumes "ra_ready i s" "ra_send_stream (mc_ras s ! i) = j # rest" "j < length (mc_rds s)"
  shows "ra_ready i (push_rd i s)"
proof -
  have "i < length (mc_ras s)"
    using assms(1) by (simp add: ra_ready_def)
  from push_rd_ra [OF assms(2) this] assms show ?thesis
    by (simp add: ra_ready_def)
qed

text \<open>The requests of an assembler that wait for their packet, in order.\<close>

definition backlog :: "nat \<Rightarrow> mica_client \<Rightarrow> request list" where
  "backlog i s = map (\<lambda>j. request_of (mc_rds s ! j)) (ra_rd_idxs (mc_ras s ! i) @ ra_send_stream (mc_ras s ! i))"

definition stream_fits :: "nat \<Rightarrow> mica_client \<Rightarrow> bool" where
  "stream_fits i s \<longleftrightarrow>
    list_all (\<lambda>j. j < length (mc_rds s) \<and> rd_size (mc_rds s ! j) \<le> max_req_len) (ra_send_stream (mc_ras s ! i))"

lemma push_rd_step:
  assumes "ra_ready i s" "stream_fits i s" "ra_send_stream (mc_ras s ! i) = j # rest"
  shows "ra_ready i (push_rd i s)" "stream_fits i (push_rd i s)" "ra_send_stream (mc_ras (push_rd i s) ! i) = rest"
    "mc_sent (push_rd i s) @ backlog i (push_rd i s) = mc_sent s @ backlog i s"
proof -
  have i: "i < length (mc_ras s)" and j: "j < length (mc_rds s)"
    using assms by (auto simp: ra_ready_def stream_fits_def)
  show "ra_ready i (push_rd i s)"
    by (rule ra_ready_push_rd [OF assms(1,3) j])
  show "stream_fits i (push_rd i s)" "ra_send_stream (mc_ras (push_rd i s) ! i) = rest"
    "mc_sent (push_rd i s) @ backlog i (push_rd i s) = mc_sent s @ backlog i s"
    using assms(2,3) push_rd_ra [OF assms(3) i] by (simp_all add: stream_fits_def backlog_def)
qed

lemma batch_sent_step:
  assumes "ra_ready i s" "stream_fits i s"
  shows "ra_ready i (batch_sent i p s)" "stream_fits i (batch_sent i p s)"
    "ra_send_stream (mc_ras (batch_sent i p s) ! i) = ra_send_stream (mc_ras s ! i)"
    "mc_sent (batch_sent i p s) @ backlog i (batch_sent i p s) = mc_sent s @ backlog i s"
proof -
  have i: "i < length (mc_ras s)"
    using assms(1) by (simp add: ra_ready_def)
  have f: "request_of (mc_rds (batch_sent i p s) ! k) = request_of (mc_rds s ! k)"
      "rd_size (mc_rds (batch_sent i p s) ! k) = rd_size (mc_rds s ! k)" if "k < length (mc_rds s)" for k
    using same_request_fields [OF batch_sent_same [OF that, of i p]] by simp_all
  show "ra_ready i (batch_sent i p s)"
    by (rule ra_ready_batch_sent [OF assms(1)])
  show s: "ra_send_stream (mc_ras (batch_sent i p s) ! i) = ra_send_stream (mc_ras s ! i)"
    using i by (simp add: batch_sent_ras)
  show "stream_fits i (batch_sent i p s)"
    using assms(2) f by (auto simp: stream_fits_def s list_all_iff)
  show "mc_sent (batch_sent i p s) @ backlog i (batch_sent i p s) = mc_sent s @ backlog i s"
    using i f assms(2) by (simp add: backlog_def batch_sent_ras stream_fits_def list_all_iff)
qed

text \<open>
  C36. Filling batches terminates: if every request waiting in the stream of an assembler fits into
  an empty packet, \<open>consume_send_stream\<close> returns with the stream empty, whatever was in the batch
  before; the requests it has sent followed by those left in the batch are those of before, in the
  same order.
\<close>

theorem consume_send_stream_returns:
  assumes "ra_ready i s" "stream_fits i s"
  shows "\<exists>t. consume_send_stream i s = Some t \<and> ra_ready i t \<and> ra_send_stream (mc_ras t ! i) = []
    \<and> mc_sent t @ backlog i t = mc_sent s @ backlog i s"
  using assms
proof (induction "ra_send_stream (mc_ras s ! i)" arbitrary: s)
  case Nil
  then show ?case by (auto simp: consume_done)
next
  case (Cons j rest)
  have j: "j < length (mc_rds s)" "rd_size (mc_rds s ! j) \<le> max_req_len"
    using Cons.prems(2) by (auto simp: stream_fits_def Cons.hyps(2) [symmetric])
  note stream = Cons.hyps(2) [symmetric]
  show ?case
  proof (cases "rd_size (mc_rds s ! j) \<le> ra_remaining (mc_ras s ! i)")
    case True
    note step = push_rd_step [OF Cons.prems stream]
    show ?thesis
      using Cons.hyps(1) [OF step(3) [symmetric] step(1,2)] step(4) consume_fits [OF stream j(1) True] by simp
  next
    case False
    then obtain p where p: "consume_send_stream i s = consume_send_stream i (push_rd i (batch_sent i p s))"
      using consume_full [OF stream j Cons.prems(1)] by auto
    note sent = batch_sent_step [OF Cons.prems, of p]
    note step = push_rd_step [OF sent(1,2) sent(3) [unfolded stream]]
    show ?thesis
      using Cons.hyps(1) [OF step(3) [symmetric] step(1,2)] step(4) sent(4) p by simp
  qed
qed

text \<open>A client of three descriptors and one assembler, with room for one more request in the batch.\<close>

definition sample_endpoint :: endpoint_info where
  "sample_endpoint = \<lparr>ei_eth_addr = [2, 0, 0, 0, 0, 1], ei_ip_addr = 0x0A000001, ei_udp_port = 1024\<rparr>"

definition sample_query :: "nat \<Rightarrow> bytes \<Rightarrow> query" where
  "sample_query i val = \<lparr>q_id = i, q_op = 2, q_key_len = 8, q_key = replicate 8 (of_nat i), q_val_len = of_nat (length val), q_val = val\<rparr>"

definition sample_rd :: "nat \<Rightarrow> bytes \<Rightarrow> req_desc" where
  "sample_rd i val = new_action (\<lambda>_ _. 0) (sample_query i val) (rd_new \<lparr>rq_operation = 0, rq_result = 0, rq_reserved0 = 0,
    rq_kv_length_vec = 0, rq_key_hash = 0, rq_opaque = 0, rq_reserved1 = 0\<rparr> i)"

definition sample_client :: "bytes \<Rightarrow> mica_client" where
  "sample_client val = \<lparr>mc_rds = map (\<lambda>i. sample_rd i val) [0, 1, 2],
    mc_ras = [\<lparr>ra_header = batch_header_bytes sample_endpoint sample_endpoint, ra_remaining = 50, ra_rd_idxs = [0], ra_send_stream = [1, 2]\<rparr>],
    mc_sem = sem_init 0, mc_recycled = [], mc_which_ra = 0, mc_run = 0, mc_next = 3, mc_log = [], mc_out = [], mc_sent = []\<rparr>"

lemma sample_client_simps:
  "mc_rds (sample_client val) = [sample_rd 0 val, sample_rd 1 val, sample_rd 2 val]"
  "mc_ras (sample_client val) = [\<lparr>ra_header = batch_header_bytes sample_endpoint sample_endpoint, ra_remaining = 50,
     ra_rd_idxs = [0], ra_send_stream = [1, 2]\<rparr>]"
  "mc_sent (sample_client val) = []" "rd_size (sample_rd i val) = 32 + length val" "ei_ok sample_endpoint"
  by (simp_all add: sample_client_def sample_rd_def new_action_def setup_request_header_def sample_query_def rq_size_def
      ei_ok_def sample_endpoint_def)

theorem consume_send_stream_returns_witness:
  "\<exists>t. consume_send_stream 0 (sample_client [1, 2, 3]) = Some t \<and> ra_send_stream (mc_ras t ! 0) = []
    \<and> mc_sent t @ backlog 0 t = map (\<lambda>i. request_of (sample_rd i [1, 2, 3])) [0, 1, 2]"
proof -
  have "\<exists>local remote. ei_ok local \<and> ei_ok remote \<and>
      batch_header_bytes sample_endpoint sample_endpoint = batch_header_bytes local remote"
    using sample_client_simps(5) by blast
  then have "ra_ready 0 (sample_client [1, 2, 3])" "stream_fits 0 (sample_client [1, 2, 3])"
    by (simp_all add: ra_ready_def stream_fits_def sample_client_simps max_req_len_def batch_header_size_def)
  from consume_send_stream_returns [OF this] show ?thesis
    by (auto simp: backlog_def sample_client_simps)
qed



end
