(* ===== verification/Mica_Invariant.thy ===== *)
theory Mica_Invariant
  imports Mica_Client "HOL-Library.Multiset"
begin

text \<open>
  The invariant of the MICA client and what follows from it.

  \<^item> \<open>place\<close> says where a descriptor is: in the pool, in the batch of an assembler, on its way (timer
    armed), or in the hands of the function that runs.
  \<^item> \<open>core\<close> is the invariant of descriptors, assemblers and packets. The epoch of a descriptor is the
    number of its transmissions, less one while its timer is armed.
  \<^item> \<open>client_inv\<close> adds promises, the pool and the account of all queries; every event keeps it.
\<close>

section \<open>The invariant\<close>

datatype place = Hand | Idle | Queued nat | Flying

abbreviation rd_count :: nat where
  "rd_count \<equiv> total_request_descriptor_count"

definition sends :: "nat \<Rightarrow> request list \<Rightarrow> request list" where
  "sends j rs = filter (for_rd j) rs"

definition rd_inv :: "nat \<Rightarrow> place \<Rightarrow> request list \<Rightarrow> req_desc \<Rightarrow> bool" where
  "rd_inv j l sent rd \<longleftrightarrow> rd_index rd = of_nat j \<and> (rd_armed rd \<longleftrightarrow> l = Flying)
    \<and> rd_epoch rd = of_nat (length (sends j sent) - (if l = Flying then 1 else 0))
    \<and> (\<forall>m < length (sends j sent). rq_opaque (fst (sends j sent ! m)) = opaque (of_nat j) (of_nat m))
    \<and> (l = Flying \<longrightarrow> sends j sent \<noteq> [] \<and> last (sends j sent) = request_of rd)
    \<and> (if l = Idle then rd_retry rd = 0 else rd_retry rd < max_retries
        \<and> rq_opaque (rd_hd rd) = opaque (of_nat j) (rd_epoch rd)
        \<and> rd_size rd = length (request_bytes (request_of rd)) \<and> rd_size rd \<le> max_req_len)"

definition ra_inv :: "(nat \<Rightarrow> place) \<Rightarrow> req_desc list \<Rightarrow> nat \<Rightarrow> assembler \<Rightarrow> bool" where
  "ra_inv loc rds i ra \<longleftrightarrow> distinct (ra_rd_idxs ra) \<and> set (ra_rd_idxs ra) = {j. j < rd_count \<and> loc j = Queued i}
    \<and> ra_remaining ra + sum_list (map (\<lambda>j. rd_size (rds ! j)) (ra_rd_idxs ra)) = max_req_len
    \<and> (\<exists>local remote. ei_ok local \<and> ei_ok remote \<and> ra_header ra = batch_header_bytes local remote)"

definition core :: "(nat \<Rightarrow> place) \<Rightarrow> mica_client \<Rightarrow> bool" where
  "core loc s \<longleftrightarrow> length (mc_rds s) = rd_count \<and> mc_which_ra s < length (mc_ras s)
    \<and> (\<forall>j < rd_count. rd_inv j (loc j) (mc_sent s) (mc_rds s ! j))
    \<and> distinct (mc_recycled s) \<and> set (mc_recycled s) = {j. j < rd_count \<and> loc j = Idle}
    \<and> (\<forall>i < length (mc_ras s). ra_inv loc (mc_rds s) i (mc_ras s ! i))
    \<and> (\<forall>j < rd_count. \<forall>i. loc j = Queued i \<longrightarrow> i < length (mc_ras s))
    \<and> (\<forall>r \<in> set (mc_sent s). opaque_rd (rq_opaque (fst r)) < rd_count)
    \<and> (\<forall>(i, p) \<in> set (mc_out s). pk_len p \<le> 1514)"

text \<open>What sending leaves alone, and how places move meanwhile.\<close>

definition frame :: "mica_client \<Rightarrow> mica_client \<Rightarrow> bool" where
  "frame s t \<longleftrightarrow> mc_sem t = mc_sem s \<and> mc_recycled t = mc_recycled s \<and> mc_run t = mc_run s \<and> mc_next t = mc_next s
    \<and> mc_log t = mc_log s \<and> length (mc_ras t) = length (mc_ras s) \<and> length (mc_rds t) = length (mc_rds s)
    \<and> (\<forall>k < length (mc_rds s). same_request (mc_rds s ! k) (mc_rds t ! k))
    \<and> map ra_send_stream (mc_ras t) = map ra_send_stream (mc_ras s)"

definition adv :: "(nat \<Rightarrow> place) \<Rightarrow> (nat \<Rightarrow> place) \<Rightarrow> bool" where
  "adv loc loc' \<longleftrightarrow> (\<forall>k. loc' k = loc k \<or> (\<exists>i. loc k = Queued i \<and> loc' k = Flying))"

definition fly :: "nat \<Rightarrow> (nat \<Rightarrow> place) \<Rightarrow> nat \<Rightarrow> place" where
  "fly i loc j = (if loc j = Queued i then Flying else loc j)"

lemma frame_refl [simp]: "frame s s"
  by (simp add: frame_def)

lemma frame_trans: "frame s t \<Longrightarrow> frame t u \<Longrightarrow> frame s u"
  by (auto simp: frame_def intro: same_request_trans)

lemma adv_refl [simp]: "adv loc loc"
  by (simp add: adv_def)

lemma adv_trans: "adv a b \<Longrightarrow> adv b c \<Longrightarrow> adv a c"
  unfolding adv_def by (metis place.distinct)

lemma adv_fly: "adv loc (fly i loc)"
  by (auto simp: adv_def fly_def)

lemma fly_leaves: "fly i loc k \<noteq> Queued i"
  by (simp add: fly_def)

lemma adv_Idle: "adv loc loc' \<Longrightarrow> loc' k = Idle \<longleftrightarrow> loc k = Idle"
  unfolding adv_def by (metis place.distinct)

lemma adv_Hand: "adv loc loc' \<Longrightarrow> loc' k = Hand \<longleftrightarrow> loc k = Hand"
  unfolding adv_def by (metis place.distinct)

section \<open>Sending keeps it\<close>

lemma rd_index_small: "j < rd_count \<Longrightarrow> unat (of_nat j :: u16) = j"
  by (intro of_nat_inverse [OF refl]) (simp add: total_request_descriptor_count_def)

lemma filter_single: "distinct xs \<Longrightarrow> filter (\<lambda>k. k = j) xs = (if j \<in> set xs then [j] else [])"
  by (induction xs) auto

lemma sends_append [simp]: "sends j (xs @ ys) = sends j xs @ sends j ys"
  by (simp add: sends_def)

lemma coreD:
  assumes "core loc s"
  shows "length (mc_rds s) = rd_count" "j < rd_count \<Longrightarrow> rd_inv j (loc j) (mc_sent s) (mc_rds s ! j)"
    "i < length (mc_ras s) \<Longrightarrow> ra_inv loc (mc_rds s) i (mc_ras s ! i)"
  using assms by (auto simp: core_def)

lemma core_ready:
  assumes "core loc s" "i < length (mc_ras s)"
  shows "ra_ready i s"
  using coreD(3) [OF assms] assms by (auto simp: ra_ready_def ra_inv_def core_def list_all_iff)

lemma rd_inv_for_rd:
  assumes "rd_inv k l sent rd" "l \<noteq> Idle" "k < rd_count"
  shows "for_rd j (request_of rd) \<longleftrightarrow> k = j" "opaque_rd (rq_opaque (fst (request_of rd))) < rd_count"
  using assms rd_index_small [OF assms(3)] by (auto simp: rd_inv_def for_rd_def request_of_def)

lemma sends_batch:
  assumes "core loc s" "i < length (mc_ras s)"
  shows "sends j (map (\<lambda>k. request_of (mc_rds s ! k)) (ra_rd_idxs (mc_ras s ! i)))
    = (if j < rd_count \<and> loc j = Queued i then [request_of (mc_rds s ! j)] else [])"
proof -
  let ?js = "ra_rd_idxs (mc_ras s ! i)"
  have js: "distinct ?js" "set ?js = {j. j < rd_count \<and> loc j = Queued i}"
    using coreD(3) [OF assms] by (auto simp: ra_inv_def)
  have "for_rd j (request_of (mc_rds s ! k)) \<longleftrightarrow> k = j" if "k \<in> set ?js" for k
    using that rd_inv_for_rd(1) [OF coreD(2) [OF assms(1)]] js(2) by simp
  then have "sends j (map (\<lambda>k. request_of (mc_rds s ! k)) ?js) = map (\<lambda>k. request_of (mc_rds s ! k)) (filter (\<lambda>k. k = j) ?js)"
    by (auto simp: sends_def filter_map o_def cong: filter_cong)
  then show ?thesis
    using filter_single [OF js(1), of j] js(2) by auto
qed

lemma rd_inv_sent:
  assumes "rd_inv j (Queued i) sent rd" "sends j rs = [request_of rd]"
  shows "rd_inv j Flying (sent @ rs) (arm_timer rd)"
  using assms
  by (auto simp: rd_inv_def arm_timer_def request_of_def nth_append less_Suc_eq)

lemma rd_inv_sends: "sends j sent = sends j sent' \<Longrightarrow> rd_inv j l sent rd \<longleftrightarrow> rd_inv j l sent' rd"
  by (simp only: rd_inv_def)

lemma core_batch_len:
  assumes "core loc s" "i < length (mc_ras s)"
  shows "length (concat (map (\<lambda>j. request_bytes (request_of (mc_rds s ! j))) (ra_rd_idxs (mc_ras s ! i)))) \<le> max_req_len"
proof -
  let ?js = "ra_rd_idxs (mc_ras s ! i)"
  have ra: "ra_inv loc (mc_rds s) i (mc_ras s ! i)"
    by (rule coreD(3) [OF assms])
  then have "length (request_bytes (request_of (mc_rds s ! j))) = rd_size (mc_rds s ! j)" if "j \<in> set ?js" for j
    using that coreD(2) [OF assms(1), of j] by (auto simp: ra_inv_def rd_inv_def)
  then have "length (concat (map (\<lambda>j. request_bytes (request_of (mc_rds s ! j))) ?js)) = sum_list (map (\<lambda>j. rd_size (mc_rds s ! j)) ?js)"
    by (simp add: length_concat o_def cong: map_cong)
  with ra show ?thesis by (simp add: ra_inv_def)
qed

lemma core_batch_sent:
  assumes c: "core loc s" and i: "i < length (mc_ras s)" and p: "pk_len p \<le> 1514"
  shows "core (fly i loc) (batch_sent i p s)"
proof -
  let ?t = "batch_sent i p s"
  note len = coreD(1) [OF c]
  have idxs: "set (ra_rd_idxs (mc_ras s ! i)) = {j. j < rd_count \<and> loc j = Queued i}"
    using coreD(3) [OF c i] by (simp add: ra_inv_def)
  have rd: "rd_inv j (fly i loc j) (mc_sent ?t) (mc_rds ?t ! j)" if j: "j < rd_count" for j
  proof (cases "loc j = Queued i")
    case True
    have "mc_rds ?t ! j = arm_timer (mc_rds s ! j)"
      using True j by (simp add: batch_sent_rds len idxs)
    moreover have "rd_inv j (Queued i) (mc_sent s) (mc_rds s ! j)"
      using coreD(2) [OF c j] True by simp
    moreover have "sends j (map (\<lambda>k. request_of (mc_rds s ! k)) (ra_rd_idxs (mc_ras s ! i))) = [request_of (mc_rds s ! j)]"
      using sends_batch [OF c i, of j] True j by simp
    ultimately show ?thesis
      using True by (simp add: rd_inv_sent fly_def)
  next
    case False
    have "mc_rds ?t ! j = mc_rds s ! j"
      using False j by (simp add: batch_sent_rds len idxs)
    moreover have "sends j (mc_sent ?t) = sends j (mc_sent s)"
      using sends_batch [OF c i, of j] False by simp
    ultimately show ?thesis
      using False coreD(2) [OF c j] rd_inv_sends [of j "mc_sent ?t" "mc_sent s"] by (simp add: fly_def)
  qed
  have ra: "ra_inv (fly i loc) (mc_rds ?t) k (mc_ras ?t ! k)" if k: "k < length (mc_ras s)" for k
  proof -
    have "rd_size (mc_rds ?t ! j) = rd_size (mc_rds s ! j)" if "j < rd_count" for j
      using same_request_fields(2) [OF batch_sent_same, of j s] that len by simp
    then have sizes: "map (\<lambda>j. rd_size (mc_rds ?t ! j)) (ra_rd_idxs (mc_ras s ! k)) = map (\<lambda>j. rd_size (mc_rds s ! j)) (ra_rd_idxs (mc_ras s ! k))"
      using coreD(3) [OF c k] by (intro map_cong) (auto simp: ra_inv_def)
    have fl: "fly i loc j = Queued k \<longleftrightarrow> k \<noteq> i \<and> loc j = Queued k" for j
      by (auto simp: fly_def)
    show ?thesis
    proof (cases "k = i")
      case True
      then show ?thesis
        using coreD(3) [OF c k] k by (auto simp: ra_inv_def batch_sent_ras fly_def)
    next
      case False
      then show ?thesis
        using coreD(3) [OF c k] fl unfolding ra_inv_def batch_sent_ras [OF k] if_not_P [OF False] sizes by simp
    qed
  qed
  have "opaque_rd (rq_opaque (fst (request_of (mc_rds s ! j)))) < rd_count" if "j \<in> set (ra_rd_idxs (mc_ras s ! i))" for j
    using that rd_inv_for_rd(2) [OF coreD(2) [OF c]] idxs by simp
  with c p rd ra show ?thesis
    by (auto simp: core_def fly_def split: if_splits)
qed

lemma core_send:
  assumes "core loc s" "i < length (mc_ras s)"
  shows "\<exists>p. send_request_packet i s = Some (batch_sent i p s) \<and> core (fly i loc) (batch_sent i p s) \<and> frame s (batch_sent i p s)"
proof -
  obtain p where p: "send_request_packet i s = Some (batch_sent i p s)"
      "pk_len p = 48 + length (concat (map (\<lambda>j. request_bytes (request_of (mc_rds s ! j))) (ra_rd_idxs (mc_ras s ! i))))"
    using send_request_packet_spec [OF core_ready [OF assms]] by blast
  have "pk_len p \<le> 1514"
    using core_batch_len [OF assms] p(2) by (simp add: max_req_len_def batch_header_size_def)
  moreover have "frame s (batch_sent i p s)"
    by (auto simp: frame_def batch_sent_same intro!: nth_equalityI) (auto simp: batch_sent_ras)
  ultimately show ?thesis
    using p(1) core_batch_sent [OF assms] by blast
qed

lemma core_push_rd:
  assumes c: "core loc s" and i: "i < length (mc_ras s)" and j: "j < rd_count" "loc j = Hand"
    and st: "ra_send_stream (mc_ras s ! i) = j # rest" and room: "rd_size (mc_rds s ! j) \<le> ra_remaining (mc_ras s ! i)"
  shows "core (loc(j := Queued i)) (push_rd i s)"
proof -
  have "rd_inv k ((loc(j := Queued i)) k) (mc_sent s) (mc_rds s ! k)" if "k < rd_count" for k
    using coreD(2) [OF c that] j by (auto simp: rd_inv_def)
  moreover have "ra_inv (loc(j := Queued i)) (mc_rds s) k (mc_ras (push_rd i s) ! k)" if k: "k < length (mc_ras s)" for k
  proof (cases "k = i")
    case True
    have "{l. l < rd_count \<and> (loc(j := Queued i)) l = Queued i} = insert j {l. l < rd_count \<and> loc l = Queued i}"
      using j by auto
    moreover have "j \<notin> {l. l < rd_count \<and> loc l = Queued i}"
      using j by simp
    ultimately show ?thesis
      using coreD(3) [OF c k] room push_rd_ra [OF st k] by (simp add: ra_inv_def True)
  next
    case False
    have "{l. l < rd_count \<and> (loc(j := Queued i)) l = Queued k} = {l. l < rd_count \<and> loc l = Queued k}"
      using j False by auto
    then show ?thesis
      using coreD(3) [OF c k] False by (simp only: push_rd_ra [OF st k] ra_inv_def if_False)
  qed
  moreover have "{l. l < rd_count \<and> (loc(j := Queued i)) l = Idle} = {l. l < rd_count \<and> loc l = Idle}"
    using j by auto
  moreover have "\<forall>k < rd_count. \<forall>l. (loc(j := Queued i)) k = Queued l \<longrightarrow> l < length (mc_ras s)"
    using c i unfolding core_def by auto
  ultimately show ?thesis
    using c unfolding core_def by simp
qed

definition streams_empty :: "mica_client \<Rightarrow> bool" where
  "streams_empty s \<longleftrightarrow> (\<forall>i < length (mc_ras s). ra_send_stream (mc_ras s ! i) = [])"

lemma frame_streams: "frame s t \<Longrightarrow> streams_empty s \<Longrightarrow> streams_empty t"
  unfolding frame_def streams_empty_def by (metis nth_map)

lemma core_append:
  assumes c: "core loc s" and st: "streams_empty s" and i: "i < length (mc_ras s)" and j: "j < rd_count" "loc j = Hand"
  shows "\<exists>t loc'. append_new_request_descriptor i j s = Some t \<and> core loc' t \<and> frame s t \<and> adv (loc(j := Queued i)) loc'"
proof -
  let ?u = "upd_ra i (\<lambda>ra. ra\<lparr>ra_send_stream := ra_send_stream ra @ [j]\<rparr>) s"
  have stream: "ra_send_stream (mc_ras ?u ! i) = [j]"
    using i st by (simp add: streams_empty_def)
  have ra: "ra_inv loc (mc_rds s) k (mc_ras ?u ! k)" if "k < length (mc_ras s)" for k
    using coreD(3) [OF c that] i by (cases "k = i") (simp_all add: ra_inv_def)
  have cu: "core loc ?u" and iu: "i < length (mc_ras ?u)"
    using c ra i by (simp_all add: core_def)
  have size: "j < length (mc_rds ?u)" "rd_size (mc_rds ?u ! j) \<le> max_req_len"
    using coreD(1) [OF c] coreD(2) [OF c j(1)] j by (simp_all add: rd_inv_def)
  have pushed: "consume_send_stream i (push_rd i v) = Some (push_rd i v)" "frame s (push_rd i v)" 
    if "ra_send_stream (mc_ras v ! i) = [j]" "frame ?u v" for v
  proof -
    have iv: "i < length (mc_ras v)"
      using that(2) i by (simp add: frame_def)
    from push_rd_ra [OF that(1) this] show "consume_send_stream i (push_rd i v) = Some (push_rd i v)"
      by (intro consume_done) simp
    have "map ra_send_stream (mc_ras (push_rd i v)) = (map ra_send_stream (mc_ras v))[i := []]"
      using push_rd_ra [OF that(1)] iv by (auto intro!: nth_equalityI simp: nth_list_update)
    also have "\<dots> = (map ra_send_stream (mc_ras ?u))[i := []]"
      using that(2) by (simp add: frame_def)
    also have "\<dots> = map ra_send_stream (mc_ras s)"
      using st i by (auto intro!: nth_equalityI simp: nth_list_update streams_empty_def)
    finally show "frame s (push_rd i v)"
      using that(2) by (simp add: frame_def)
  qed
  show ?thesis
  proof (cases "rd_size (mc_rds ?u ! j) \<le> ra_remaining (mc_ras ?u ! i)")
    case True
    show ?thesis
      using consume_fits [OF stream size(1) True] core_push_rd [OF cu iu j stream True] pushed [OF stream frame_refl]
      by (auto simp: append_new_request_descriptor_def intro!: exI [of _ "loc(j := Queued i)"])
  next
    case False
    then obtain p where p: "send_request_packet i ?u = Some (batch_sent i p ?u)"
        "consume_send_stream i ?u = consume_send_stream i (push_rd i (batch_sent i p ?u))"
      using consume_full [OF stream size core_ready [OF cu iu]] by auto
    let ?v = "batch_sent i p ?u"
    from core_send [OF cu iu] p(1) obtain p' where p': "?v = batch_sent i p' ?u" "core (fly i loc) ?v" "frame ?u ?v"
      by auto
    have sv: "ra_send_stream (mc_ras ?v ! i) = [j]" and rv: "ra_remaining (mc_ras ?v ! i) = max_req_len"
      using stream iu by (simp_all add: batch_sent_ras)
    have szv: "rd_size (mc_rds ?v ! j) \<le> ra_remaining (mc_ras ?v ! i)"
      using same_request_fields(2) [OF batch_sent_same [OF size(1), of i p]] size(2) rv by simp
    have "core ((fly i loc)(j := Queued i)) (push_rd i ?v)"
      using core_push_rd [OF p'(2) _ j(1) _ sv szv] j(2) iu by (simp add: fly_def)
    moreover have "adv (loc(j := Queued i)) ((fly i loc)(j := Queued i))"
      by (auto simp: adv_def fly_def)
    ultimately show ?thesis
      using p(2) pushed [OF sv p'(3)] by (auto simp: append_new_request_descriptor_def)
  qed
qed

lemma core_send_descriptor:
  assumes "core loc s" "streams_empty s" "j < rd_count" "loc j = Hand"
  shows "\<exists>t loc' i. send_request_descriptor j s = Some t \<and> core loc' t \<and> frame s t \<and> adv (loc(j := Queued i)) loc'"
proof -
  have n: "mc_ras s \<noteq> []"
    using assms(1) by (auto simp: core_def)
  then have "calc_partition_id h (length (mc_ras s)) < length (mc_ras s)" for h
    by (simp add: calc_partition_id_def)
  from core_append [OF assms(1,2) this assms(3,4)] n show ?thesis
    unfolding send_request_descriptor_def by auto blast
qed

lemma core_check_ras:
  assumes "core loc s" "streams_empty s"
  shows "\<exists>t loc'. check_ras n s = Some t \<and> core loc' t \<and> frame s t \<and> adv loc loc'
    \<and> mc_which_ra t = (mc_which_ra s + n) mod length (mc_ras s)
    \<and> (\<forall>d < n. \<forall>k < rd_count. loc' k \<noteq> Queued ((mc_which_ra s + d) mod length (mc_ras s)))"
  using assms
proof (induction n arbitrary: s loc)
  case 0
  moreover have "mc_which_ra s = mc_which_ra s mod length (mc_ras s)"
    using 0 by (simp add: core_def)
  ultimately show ?case
    by (auto intro!: exI [of _ loc])
next
  case (Suc n)
  let ?i = "mc_which_ra s"
  have i: "?i < length (mc_ras s)"
    using Suc.prems(1) by (simp add: core_def)
  have "\<exists>u loc1. check_request_assemblers ?i s = Some u \<and> core loc1 u \<and> frame s u \<and> adv loc loc1
    \<and> mc_which_ra u = ?i \<and> (\<forall>k < rd_count. loc1 k \<noteq> Queued ?i)"
  proof (cases "ra_rd_idxs (mc_ras s ! ?i) = []")
    case True
    then have "\<forall>k < rd_count. loc k \<noteq> Queued ?i"
      using coreD(3) [OF Suc.prems(1) i] by (auto simp: ra_inv_def)
    with True show ?thesis
      using Suc.prems i by (auto simp: check_request_assemblers_def force_send_def streams_empty_def consume_done intro: exI [of _ loc])
  next
    case False
    then show ?thesis
      using core_send [OF Suc.prems(1) i] adv_fly [of loc ?i] Suc.prems(2) i
      by (auto simp: check_request_assemblers_def force_send_def streams_empty_def consume_done fly_leaves intro!: exI [of _ "fly ?i loc"])
  qed
  then obtain u loc1 where u: "check_request_assemblers ?i s = Some u" "core loc1 u" "frame s u" "adv loc loc1"
      "mc_which_ra u = ?i" "\<forall>k < rd_count. loc1 k \<noteq> Queued ?i"
    by blast
  let ?n = "length (mc_ras s)"
  let ?v = "u\<lparr>mc_which_ra := (mc_which_ra u + 1) mod length (mc_ras u)\<rparr>"
  have n: "length (mc_ras u) = ?n" "0 < ?n"
    using u(3) i by (auto simp: frame_def)
  have "(mc_which_ra u + 1) mod ?n < ?n"
    by (rule mod_less_divisor [OF n(2)])
  then have v: "core loc1 ?v" "frame s ?v" "mc_which_ra ?v = (?i + 1) mod ?n" "length (mc_ras ?v) = ?n"
    using u(2,3,5) n by (simp_all add: core_def frame_def)
  from Suc.IH [OF v(1) frame_streams [OF v(2) Suc.prems(2)]] obtain t loc' where t: "check_ras n ?v = Some t" "core loc' t"
      "frame ?v t" "adv loc1 loc'" "mc_which_ra t = ((?i + 1) mod ?n + n) mod ?n"
      "\<forall>d < n. \<forall>k < rd_count. loc' k \<noteq> Queued (((?i + 1) mod ?n + d) mod ?n)"
    unfolding v(3,4) by blast
  have "loc' k \<noteq> Queued ((?i + d) mod ?n)" if "d < Suc n" "k < rd_count" for d k
  proof (cases d)
    case 0
    have "loc' k = loc1 k \<or> loc' k = Flying"
      using t(4) by (auto simp: adv_def)
    then show ?thesis
      using u(6) that(2) i 0 by auto
  next
    case (Suc e)
    then show ?thesis
      using t(6) that by (simp add: mod_simps)
  qed
  moreover have "mc_which_ra t = (?i + Suc n) mod ?n"
    using t(5) by (simp add: mod_simps)
  moreover have "check_ras (Suc n) s = Some t"
    using u(1) t(1) by simp
  ultimately show ?case
    using t(2) frame_trans [OF v(2) t(3)] adv_trans [OF u(4) t(4)] by blast
qed

section \<open>Descriptors change hands\<close>

lemma core_fields [simp]:
  "core loc (s\<lparr>mc_sem := m\<rparr>) = core loc s" "core loc (s\<lparr>mc_log := l\<rparr>) = core loc s"
  "core loc (s\<lparr>mc_run := r\<rparr>) = core loc s" "core loc (s\<lparr>mc_next := n\<rparr>) = core loc s"
  by (simp_all add: core_def)

text \<open>A descriptor outside the batches may change, and with it the pool.\<close>

lemma core_update_rd:
  assumes c: "core loc s" and j: "j < rd_count" and q: "\<And>i. loc j \<noteq> Queued i" "\<And>i. l \<noteq> Queued i"
    and rd: "rd_inv j l (mc_sent s) rd" and r: "distinct rec" "set rec = {k. k < rd_count \<and> (loc(j := l)) k = Idle}"
  shows "core (loc(j := l)) (s\<lparr>mc_rds := (mc_rds s)[j := rd], mc_recycled := rec\<rparr>)"
proof -
  have rds: "rd_inv k ((loc(j := l)) k) (mc_sent s) ((mc_rds s)[j := rd] ! k)" if "k < rd_count" for k
    using coreD(2) [OF c that] coreD(1) [OF c] rd j by (cases "k = j") simp_all
  have ra: "ra_inv (loc(j := l)) ((mc_rds s)[j := rd]) i (mc_ras s ! i)" if i: "i < length (mc_ras s)" for i
  proof -
    have idxs: "set (ra_rd_idxs (mc_ras s ! i)) = {k. k < rd_count \<and> loc k = Queued i}"
      using coreD(3) [OF c i] by (simp add: ra_inv_def)
    have s: "{k. k < rd_count \<and> (loc(j := l)) k = Queued i} = {k. k < rd_count \<and> loc k = Queued i}"
      using q by auto
    have m: "map (\<lambda>k. rd_size ((mc_rds s)[j := rd] ! k)) (ra_rd_idxs (mc_ras s ! i)) = map (\<lambda>k. rd_size (mc_rds s ! k)) (ra_rd_idxs (mc_ras s ! i))"
      using q(1) by (intro map_cong refl) (auto simp: idxs intro!: arg_cong [of _ _ rd_size] nth_list_update_neq)
    show ?thesis
      using coreD(3) [OF c i] unfolding ra_inv_def s m .
  qed
  show ?thesis
    using c rds ra r q unfolding core_def by simp
qed

lemma core_obtain_future:
  assumes "core loc s" "j < rd_count"
  shows "core loc (upd_rd j (obtain_future q) s)"
proof -
  let ?f = "\<lambda>k. (mc_rds s)[j := obtain_future q (mc_rds s ! j)] ! k"
  have f: "?f k = (if k = j then obtain_future q (mc_rds s ! k) else mc_rds s ! k)" for k
    using assms coreD(1) [OF assms(1)] by simp
  have "rd_inv k l sent (obtain_future q rd) = rd_inv k l sent rd" for k l sent rd
    by (simp add: obtain_future_def rd_inv_def request_of_def)
  then have "rd_inv k l sent (?f k) = rd_inv k l sent (mc_rds s ! k)" for k l sent
    unfolding f by simp
  moreover have sz: "rd_size (?f k) = rd_size (mc_rds s ! k)" for k
    unfolding f by (simp add: obtain_future_def)
  have "ra_inv loc ((mc_rds s)[j := obtain_future q (mc_rds s ! j)]) i ra = ra_inv loc (mc_rds s) i ra" for i ra
    unfolding ra_inv_def sz ..
  ultimately show ?thesis
    using assms(1) unfolding core_def by simp
qed

definition carries :: "query \<Rightarrow> request \<Rightarrow> bool" where
  "carries q r \<longleftrightarrow> rq_operation (fst r) = q_op q \<and> rq_kv_length_vec (fst r) = kv_length_vec (q_key_len q) (q_val_len q)
    \<and> snd r = (q_key q, q_val q)"

definition promises :: "(nat \<Rightarrow> place) \<Rightarrow> mica_client \<Rightarrow> bool" where
  "promises loc s \<longleftrightarrow> (\<forall>j < rd_count. if loc j = Idle then rd_pr (mc_rds s ! j) = None
    else \<exists>q. rd_pr (mc_rds s ! j) = Some q \<and> carries q (request_of (mc_rds s ! j)))"

lemma promises_frame:
  assumes "promises loc s" "frame s t" "adv loc loc'" "core loc'' s"
  shows "promises loc' t"
proof -
  have "rd_pr (mc_rds t ! j) = rd_pr (mc_rds s ! j)" "request_of (mc_rds t ! j) = request_of (mc_rds s ! j)" if "j < rd_count" for j
    using assms(2) that coreD(1) [OF assms(4)] by (auto simp: frame_def dest: same_request_fields)
  with assms(1) adv_Idle [OF assms(3)] show ?thesis
    by (simp add: promises_def)
qed

lemma promises_fields [simp]:
  "promises loc (s\<lparr>mc_sem := m\<rparr>) = promises loc s" "promises loc (s\<lparr>mc_log := l\<rparr>) = promises loc s"
  "promises loc (s\<lparr>mc_run := r\<rparr>) = promises loc s" "promises loc (s\<lparr>mc_next := n\<rparr>) = promises loc s"
  "promises loc (s\<lparr>mc_recycled := rec\<rparr>) = promises loc s"
  by (simp_all add: promises_def)

lemma promises_update:
  assumes "promises loc s" "core loc' s" "if l = Idle then rd_pr rd = None else \<exists>q. rd_pr rd = Some q \<and> carries q (request_of rd)"
  shows "promises (loc(j := l)) (s\<lparr>mc_rds := (mc_rds s)[j := rd], mc_recycled := rec\<rparr>)"
  using assms coreD(1) [OF assms(2)] by (auto simp: promises_def nth_list_update)

text \<open>The queries of all descriptors.\<close>

definition open_query :: "req_desc \<Rightarrow> query list" where
  "open_query rd = (case rd_pr rd of None \<Rightarrow> [] | Some q \<Rightarrow> [q])"

definition open_queries :: "mica_client \<Rightarrow> query list" where
  "open_queries s = concat (map open_query (mc_rds s))"

lemma mset_concat_update:
  "j < length xs \<Longrightarrow> mset (concat (map f (xs[j := y]))) + mset (f (xs ! j)) = mset (concat (map f xs)) + mset (f y)"
  by (induction xs arbitrary: j) (auto split: nat.splits)

lemma frame_open_queries: "frame s t \<Longrightarrow> open_queries t = open_queries s"
proof -
  assume f: "frame s t"
  then have "rd_pr (mc_rds t ! i) = rd_pr (mc_rds s ! i)" if "i < length (mc_rds s)" for i
    using that same_request_fields(3) by (auto simp: frame_def)
  then have "map open_query (mc_rds t) = map open_query (mc_rds s)"
    using f by (intro nth_equalityI) (simp_all add: frame_def open_query_def)
  then show ?thesis by (simp add: open_queries_def)
qed

definition q_fits :: "query \<Rightarrow> bool" where
  "q_fits q \<longleftrightarrow> rq_size + length (q_key q) + length (q_val q) \<le> max_req_len"

lemma length_request_of: "length (request_bytes (request_of rd)) = rq_size + length (rd_key rd) + length (rd_val rd)"
  by (simp add: request_bytes_def request_of_def)

lemma rd_inv_new_action:
  assumes "rd_inv j Idle sent rd" "q_fits q"
  shows "rd_inv j Hand sent (new_action hash q rd)" "carries q (request_of (new_action hash q rd))"
  using assms unfolding rd_inv_def
  by (simp_all add: new_action_def setup_request_header_def q_fits_def max_retries_def carries_def request_of_def request_bytes_def)

text \<open>The descriptors between two events.\<close>

definition working :: "(nat \<Rightarrow> place) \<Rightarrow> mica_client \<Rightarrow> bool" where
  "working loc s \<longleftrightarrow> core loc s \<and> promises loc s \<and> streams_empty s \<and> (\<forall>k. loc k \<noteq> Hand)"

lemma streams_empty_fields [simp]:
  "streams_empty (s\<lparr>mc_sem := m\<rparr>) = streams_empty s" "streams_empty (s\<lparr>mc_log := l\<rparr>) = streams_empty s"
  "streams_empty (s\<lparr>mc_run := r\<rparr>) = streams_empty s" "streams_empty (s\<lparr>mc_next := n\<rparr>) = streams_empty s"
  "streams_empty (s\<lparr>mc_rds := rds, mc_recycled := rec\<rparr>) = streams_empty s"
  "streams_empty (s\<lparr>mc_rds := rds\<rparr>) = streams_empty s"
  by (simp_all add: streams_empty_def)

lemma working_fields [simp]:
  "working loc (s\<lparr>mc_sem := m\<rparr>) = working loc s" "working loc (s\<lparr>mc_log := l\<rparr>) = working loc s"
  "working loc (s\<lparr>mc_run := r\<rparr>) = working loc s" "working loc (s\<lparr>mc_next := n\<rparr>) = working loc s"
  by (simp_all add: working_def)

lemma working_frame:
  assumes "working loc s" "core loc' t" "frame s t" "adv loc loc'"
  shows "working loc' t"
  using assms promises_frame [of loc s t loc' loc] frame_streams [of s t] adv_Hand [of loc loc']
  by (auto simp: working_def)

text \<open>A descriptor in hand is queued with its assembler.\<close>

lemma send_in_hand:
  assumes "core (loc(j := Hand)) s" "streams_empty s" "j < rd_count" "\<And>k. loc k \<noteq> Hand"
    and "\<And>k. k < rd_count \<Longrightarrow> k \<noteq> j \<Longrightarrow> if loc k = Idle then rd_pr (mc_rds s ! k) = None
      else \<exists>q. rd_pr (mc_rds s ! k) = Some q \<and> carries q (request_of (mc_rds s ! k))"
  shows "\<exists>t loc'. send_request_descriptor j s = Some t \<and> core loc' t \<and> frame s t \<and> loc' j \<noteq> Idle \<and> (\<forall>k. loc' k \<noteq> Hand)
    \<and> (\<forall>k < rd_count. k \<noteq> j \<longrightarrow> (if loc' k = Idle then rd_pr (mc_rds t ! k) = None
      else \<exists>q. rd_pr (mc_rds t ! k) = Some q \<and> carries q (request_of (mc_rds t ! k))))
    \<and> rd_pr (mc_rds t ! j) = rd_pr (mc_rds s ! j) \<and> request_of (mc_rds t ! j) = request_of (mc_rds s ! j)"
proof -
  obtain t loc' i where t: "send_request_descriptor j s = Some t" "core loc' t" "frame s t" "adv (loc(j := Hand, j := Queued i)) loc'"
    using core_send_descriptor [OF assms(1-3)] by auto
  have f: "rd_pr (mc_rds t ! k) = rd_pr (mc_rds s ! k)" "request_of (mc_rds t ! k) = request_of (mc_rds s ! k)" if "k < rd_count" for k
    using t(3) that coreD(1) [OF assms(1)] same_request_fields(1,3) by (auto simp: frame_def)
  have "loc' k = Idle \<longleftrightarrow> k \<noteq> j \<and> loc k = Idle" "loc' k \<noteq> Hand" for k
    using adv_Idle [OF t(4), of k] adv_Hand [OF t(4), of k] assms(4) by auto
  with t(1-3) f assms(3,5) show ?thesis by auto
qed

lemma core_bound: "core loc s \<Longrightarrow> mc_recycled s = j # rest \<Longrightarrow> j < rd_count \<and> loc j = Idle \<and> distinct rest
    \<and> set rest = {k. k < rd_count \<and> (loc(j := l)) k = Idle} - (if l = Idle then {j} else {})"
  by (auto simp: core_def)

lemma start_query_working:
  assumes w: "working loc s" and r: "mc_recycled s = j # rest" and q: "q_fits q"
  shows "\<exists>t loc'. start_query hash q s = Some t \<and> working loc' t \<and> mc_recycled t = rest \<and> mc_sem t = mc_sem s \<and> mc_run t = mc_run s
    \<and> mc_next t = mc_next s \<and> mc_log t = mc_log s \<and> length (mc_ras t) = length (mc_ras s) \<and> mset (open_queries t) = add_mset q (mset (open_queries s))"
proof -
  have c: "core loc s" "promises loc s" "streams_empty s" "\<And>k. loc k \<noteq> Hand"
    using w by (auto simp: working_def)
  have j: "j < rd_count" "loc j = Idle" "distinct rest" "set rest = {k. k < rd_count \<and> (loc(j := Hand)) k = Idle}"
    using core_bound [OF c(1) r, of Hand] by auto
  let ?rd = "new_action hash q (mc_rds s ! j)"
  let ?u = "s\<lparr>mc_rds := (mc_rds s)[j := ?rd], mc_recycled := rest\<rparr>"
  note len = coreD(1) [OF c(1)]
  have rd: "rd_inv j Hand (mc_sent s) ?rd" "carries q (request_of ?rd)"
    using rd_inv_new_action [of j "mc_sent s" _ q] coreD(2) [OF c(1) j(1)] j(2) q by auto
  have u: "core (loc(j := Hand)) ?u" "streams_empty ?u"
    using core_update_rd [OF c(1) j(1) _ _ rd(1) j(3,4)] j(2) c(3) by simp_all
  have old: "if loc k = Idle then rd_pr (mc_rds ?u ! k) = None
      else \<exists>q. rd_pr (mc_rds ?u ! k) = Some q \<and> carries q (request_of (mc_rds ?u ! k))" if "k < rd_count" "k \<noteq> j" for k
    using c(2) that by (simp add: promises_def)
  obtain t loc' where t: "send_request_descriptor j ?u = Some t" "core loc' t" "frame ?u t" "loc' j \<noteq> Idle" "\<forall>k. loc' k \<noteq> Hand"
      "\<forall>k < rd_count. k \<noteq> j \<longrightarrow> (if loc' k = Idle then rd_pr (mc_rds t ! k) = None
        else \<exists>q. rd_pr (mc_rds t ! k) = Some q \<and> carries q (request_of (mc_rds t ! k)))"
      "rd_pr (mc_rds t ! j) = rd_pr (mc_rds ?u ! j)" "request_of (mc_rds t ! j) = request_of (mc_rds ?u ! j)"
    using send_in_hand [OF u j(1) c(4) old] by blast
  let ?v = "upd_rd j (obtain_future q) t"
  have lt: "length (mc_rds t) = rd_count"
    by (rule coreD(1) [OF t(2)])
  have "upd_rd j (new_action hash q) (s\<lparr>mc_recycled := rest\<rparr>) = ?u"
    by (simp add: upd_rd_def)
  from t(1) [folded this] have "send_request_descriptor j (upd_rd j (new_action hash q) (s\<lparr>mc_recycled := rest\<rparr>)) = Some t" .
  then have "start_query hash q s = Some ?v"
    using r j(1) len by (simp add: start_query_def)
  moreover have "promises loc' ?v"
    using t(4,6,8) rd(2) j(1) lt len by (auto simp: promises_def nth_list_update obtain_future_def request_of_def)
  then have "working loc' ?v"
    using core_obtain_future [OF t(2) j(1)] frame_streams [OF t(3) u(2)] t(5)
    by (auto simp: working_def streams_empty_def)
  moreover have "mset (open_queries ?v) = add_mset q (mset (open_queries s))"
  proof -
    have n: "rd_pr (mc_rds s ! j) = None" "rd_pr (mc_rds t ! j) = None"
      using c(2) j(1,2) t(7) len by (auto simp: promises_def new_action_def setup_request_header_def)
    have "mset (open_queries ?v) = mset (open_queries t) + {#q#}"
      using mset_concat_update [of j "mc_rds t" open_query "obtain_future q (mc_rds t ! j)"] j(1) lt n
      by (simp add: open_queries_def open_query_def obtain_future_def)
    moreover have "mset (open_queries t) = mset (open_queries s)"
      using frame_open_queries [OF t(3)] mset_concat_update [of j "mc_rds s" open_query ?rd] j(1) len n
      by (simp add: open_queries_def open_query_def new_action_def setup_request_header_def)
    ultimately show ?thesis by simp
  qed
  ultimately show ?thesis
    using t(3) by (auto simp: frame_def)
qed

section \<open>The whole client\<close>

text \<open>Queries that wait for a descriptor or have just been granted one.\<close>

definition outstanding :: "mica_client \<Rightarrow> query list" where
  "outstanding s = drop (mc_run s) (sem_woken (mc_sem s)) @ sem_waiting (mc_sem s)"

definition pooled :: "mica_client \<Rightarrow> bool" where
  "pooled s \<longleftrightarrow> sem_unit_inv (mc_sem s) \<and> mc_run s \<le> length (sem_woken (mc_sem s))
    \<and> sem_avail (mc_sem s) + length (sem_woken (mc_sem s)) = length (mc_recycled s) + mc_run s
    \<and> list_all q_fits (outstanding s)"

text \<open>The ids of all queries: answered, in a descriptor, or waiting.\<close>

definition all_queries :: "mica_client \<Rightarrow> nat multiset" where
  "all_queries s = image_mset q_id (mset (map fst (mc_log s)) + mset (open_queries s) + mset (outstanding s))"

definition client_inv :: "(nat \<Rightarrow> place) \<Rightarrow> mica_client \<Rightarrow> bool" where
  "client_inv loc s \<longleftrightarrow> working loc s \<and> pooled s \<and> all_queries s = mset [0..<mc_next s]"

lemma recycled_small: "core loc s \<Longrightarrow> length (mc_recycled s) \<le> rd_count"
proof -
  assume c: "core loc s"
  then have "set (mc_recycled s) \<subseteq> {0..<rd_count}"
    by (auto simp: core_def)
  from card_mono [OF _ this] show ?thesis
    using c distinct_card [of "mc_recycled s"] by (simp add: core_def)
qed

lemma recycle_inv:
  assumes c: "client_inv loc s" and j: "j < rd_count" "loc j = Flying" "rd_pr (mc_rds s ! j) = Some q"
    and rd: "rd_inv j Idle (mc_sent s) rd" "rd_pr rd = None"
  shows "\<exists>t. apply_action j (Recycle_rd, [(q, x)], rd) s = Some t \<and> client_inv (loc(j := Idle)) t
    \<and> mc_sent t = mc_sent s \<and> mc_log t = mc_log s @ [(q, x)]"
proof -
  have w: "core loc s" "promises loc s" "streams_empty s" "\<And>k. loc k \<noteq> Hand" and p: "pooled s" 
    and a: "all_queries s = mset [0..<mc_next s]"
    using c by (auto simp: client_inv_def working_def)
  let ?rec = "mc_recycled s @ [j]"
  let ?u = "s\<lparr>mc_log := mc_log s @ [(q, x)], mc_rds := (mc_rds s)[j := rd], mc_recycled := ?rec\<rparr>"
  have rec: "distinct ?rec" "set ?rec = {k. k < rd_count \<and> (loc(j := Idle)) k = Idle}"
    using w(1) j by (auto simp: core_def)
  have "core loc (s\<lparr>mc_log := mc_log s @ [(q, x)]\<rparr>)" "promises loc (s\<lparr>mc_log := mc_log s @ [(q, x)]\<rparr>)"
    using w by simp_all
  from core_update_rd [OF this(1) j(1) _ _ _ rec] promises_update [OF this(2,1), of Idle rd j ?rec] have u: "working (loc(j := Idle)) ?u"
    using rd j(2) w(3,4) by (auto simp: working_def streams_empty_def)
  have "sem_avail (mc_sem s) < 2 ^ 62"
    using p recycled_small [OF w(1)] by (auto simp: pooled_def total_request_descriptor_count_def)
  then obtain m where m: "sem_signal 1 (mc_sem s) = Some m" "sem_unit_inv m"
      "sem_avail m + length (sem_woken m) = Suc (sem_avail (mc_sem s) + length (sem_woken (mc_sem s)))"
      "sem_woken m @ sem_waiting m = sem_woken (mc_sem s) @ sem_waiting (mc_sem s)"
      "length (sem_woken (mc_sem s)) \<le> length (sem_woken m)"
    using rd_pool.give_idle [of "mc_sem s"] rd_pool.give_waiting [of "mc_sem s"] p
    by (cases "sem_waiting (mc_sem s)") (fastforce simp: pooled_def)+
  let ?t = "?u\<lparr>mc_sem := m\<rparr>"
  have o: "outstanding ?t = outstanding s"
  proof -
    have "drop (mc_run s) (sem_woken m @ sem_waiting m) = drop (mc_run s) (sem_woken (mc_sem s) @ sem_waiting (mc_sem s))"
      by (simp only: m(4))
    then show ?thesis
      using m(5) p by (simp add: outstanding_def pooled_def)
  qed
  have "mset (open_queries s) = add_mset q (mset (open_queries ?t))"
    using mset_concat_update [of j "mc_rds s" open_query rd] j(1,3) rd(2) coreD(1) [OF w(1)]
    by (simp add: open_queries_def open_query_def)
  then have "all_queries ?t = all_queries s"
    by (simp add: all_queries_def o)
  then have "client_inv (loc(j := Idle)) ?t"
    using u a p m o by (simp add: client_inv_def pooled_def)
  moreover have "apply_action j (Recycle_rd, [(q, x)], rd) s = Some ?t"
    using m(1) by (simp add: apply_action_def recycle_def upd_rd_def)
  ultimately show ?thesis by auto
qed

text \<open>The epoch tells late responses apart.\<close>

lemma of_nat_u16_close:
  assumes "(of_nat m :: u16) = of_nat e" "m \<le> e" "e < m + 2 ^ 16"
  shows "m = e"
proof -
  have "m mod 2 ^ 16 = e mod 2 ^ 16"
    using assms(1) by (simp add: word_of_nat_eq_iff take_bit_eq_mod)
  then have "2 ^ 16 dvd e - m"
    using assms(2) by (metis mod_eq_dvd_iff_nat)
  moreover have "e - m < 2 ^ 16"
    using assms(2,3) by linarith
  ultimately have "e - m = 0"
    using nat_dvd_not_less [of "e - m" "2 ^ 16"] by blast
  with assms(2) show ?thesis by simp
qed

lemma epoch_match:
  assumes c: "core loc s" and e: "echoes h k (mc_sent s)" and j: "j = opaque_rd (rq_opaque h)"
  shows "j < rd_count"
    "opaque_epoch (rq_opaque h) = rd_epoch (mc_rds s ! j) \<Longrightarrow>
      loc j = Flying \<and> mc_sent s ! k = request_of (mc_rds s ! j) \<and> sends j (drop (Suc k) (mc_sent s)) = []"
proof -
  let ?rs = "mc_sent s"
  have k: "k < length ?rs" "rq_opaque (fst (?rs ! k)) = rq_opaque h" "length (sends j (drop (Suc k) ?rs)) < 2 ^ 16 - 1"
    using e j by (auto simp: echoes_def sends_def)
  have "opaque_rd (rq_opaque (fst (?rs ! k))) < rd_count"
    using c nth_mem [OF k(1)] unfolding core_def by blast
  then show jn: "j < rd_count"
    by (simp add: j k(2))
  assume ep: "opaque_epoch (rq_opaque h) = rd_epoch (mc_rds s ! j)"
  note rd = coreD(2) [OF c jn]
  let ?m = "length (sends j (take k ?rs))" and ?d = "length (sends j (drop (Suc k) ?rs))"
  have "?rs = take k ?rs @ ?rs ! k # drop (Suc k) ?rs"
    by (rule id_take_nth_drop [OF k(1)])
  then have "sends j ?rs = sends j (take k ?rs @ [?rs ! k] @ drop (Suc k) ?rs)"
    by simp
  also have "sends j [?rs ! k] = [?rs ! k]"
    using k(2) j by (simp add: sends_def for_rd_def)
  then have "sends j (take k ?rs @ [?rs ! k] @ drop (Suc k) ?rs) = sends j (take k ?rs) @ ?rs ! k # sends j (drop (Suc k) ?rs)"
    unfolding sends_append by simp
  finally have s: "sends j ?rs = sends j (take k ?rs) @ ?rs ! k # sends j (drop (Suc k) ?rs)" .
  have "\<forall>m < length (sends j ?rs). rq_opaque (fst (sends j ?rs ! m)) = opaque (of_nat j) (of_nat m)"
    using rd by (simp add: rd_inv_def)
  from this [rule_format, of ?m] have "rq_opaque h = opaque (of_nat j) (of_nat ?m)"
    using k(2) by (simp add: s)
  then have w: "(of_nat ?m :: u16) = of_nat (?m + Suc ?d - (if loc j = Flying then 1 else 0))"
    using ep rd by (simp add: rd_inv_def s)
  have "?m = ?m + Suc ?d - (if loc j = Flying then 1 else 0)"
    by (rule of_nat_u16_close [OF w]) (use k(3) in auto)
  then have "loc j = Flying" "?d = 0"
    by (auto split: if_splits)
  with rd show "loc j = Flying \<and> ?rs ! k = request_of (mc_rds s ! j) \<and> sends j (drop (Suc k) ?rs) = []"
    by (simp add: rd_inv_def s)
qed

lemma epoch_next: "0 < n \<Longrightarrow> (of_nat (n - 1) :: u16) + 1 = of_nat n"
  by (cases n) simp_all

lemma rd_inv_recycle:
  assumes "rd_inv j Flying sent rd"
  shows "rd_inv j Idle sent (normal_recycle_prep rd)" "rd_inv j Idle sent (timeout_recycle_prep (rd\<lparr>rd_armed := False, rd_retry := n\<rparr>))"
  using assms epoch_next [of "length (sends j sent)"]
  by (simp_all add: rd_inv_def normal_recycle_prep_def timeout_recycle_prep_def)

lemma handle_response_inv:
  assumes c: "client_inv loc s" and e: "echoes h k (mc_sent s)"
  shows "\<exists>t loc'. handle_response (h, chunk) s = Some t \<and> client_inv loc' t \<and> mc_sent t = mc_sent s
    \<and> (mc_log t = mc_log s \<or> (\<exists>q. mc_log t = mc_log s @ [(q, Response h chunk)] \<and> carries q (mc_sent s ! k)
        \<and> sends (opaque_rd (rq_opaque h)) (drop (Suc k) (mc_sent s)) = []))"
proof -
  let ?j = "opaque_rd (rq_opaque h)"
  have w: "core loc s" "promises loc s"
    using c by (auto simp: client_inv_def working_def)
  note m = epoch_match [OF w(1) e refl]
  have j: "?j < length (mc_rds s)"
    using m(1) coreD(1) [OF w(1)] by simp
  show ?thesis
  proof (cases "opaque_epoch (rq_opaque h) = rd_epoch (mc_rds s ! ?j)")
    case False
    have "apply_action ?j (No_action, [], mc_rds s ! ?j) s = Some s"
      by (simp add: apply_action_def upd_rd_def)
    then show ?thesis
      using False c j by (auto simp: handle_response_def match_response_def)
  next
    case True
    then have fl: "loc ?j = Flying" "mc_sent s ! k = request_of (mc_rds s ! ?j)" "sends ?j (drop (Suc k) (mc_sent s)) = []"
      using m(2) by auto
    obtain q where q: "rd_pr (mc_rds s ! ?j) = Some q" "carries q (request_of (mc_rds s ! ?j))"
      using w(2) [unfolded promises_def, rule_format, OF m(1)] fl(1) by auto
    have "rd_inv ?j Idle (mc_sent s) (normal_recycle_prep (mc_rds s ! ?j))" "rd_pr (normal_recycle_prep (mc_rds s ! ?j)) = None"
      using rd_inv_recycle(1) coreD(2) [OF w(1) m(1)] fl(1) by (simp, simp add: normal_recycle_prep_def)
    from recycle_inv [OF c m(1) fl(1) q(1) this, of "Response h chunk"] obtain t where
        "apply_action ?j (Recycle_rd, [(q, Response h chunk)], normal_recycle_prep (mc_rds s ! ?j)) s = Some t"
        "client_inv (loc(?j := Idle)) t" "mc_sent t = mc_sent s" "mc_log t = mc_log s @ [(q, Response h chunk)]"
      by blast
    then show ?thesis
      using True j q fl(2,3) by (auto simp: handle_response_def match_response_def)
  qed
qed

lemma handle_responses_inv:
  assumes "client_inv loc s" "\<forall>(h, chunk) \<in> set rs. \<exists>k < length (mc_sent s). echoes h k (mc_sent s)"
  shows "\<exists>t loc'. handle_responses rs s = Some t \<and> client_inv loc' t"
  using assms
proof (induction rs arbitrary: s loc)
  case (Cons r rs)
  obtain h chunk where r: "r = (h, chunk)" by fastforce
  then obtain k where "echoes h k (mc_sent s)"
    using Cons.prems(2) by auto
  from handle_response_inv [OF Cons.prems(1) this, of chunk] obtain t loc' where t: "handle_response r s = Some t"
      "client_inv loc' t" "mc_sent t = mc_sent s"
    unfolding r by blast
  with Cons.IH [OF t(2)] Cons.prems(2) show ?case by auto
qed auto

lemma mc_receive_received: "mc_receive p s = Option.bind (received p) (\<lambda>rs. handle_responses rs s)"
  by (cases "is_valid p") (auto simp: mc_receive_def received_def split: prod.splits option.splits bind_splits)

section \<open>Every event keeps it\<close>

lemma client_inv_frame:
  assumes "client_inv loc s" "core loc' t" "frame s t" "adv loc loc'"
  shows "client_inv loc' t"
  using assms working_frame [of loc s loc' t] frame_open_queries [of s t]
  by (auto simp: client_inv_def pooled_def outstanding_def all_queries_def frame_def)

lemma timer_inv:
  assumes "client_inv loc s"
  shows "\<exists>t loc'. check_ras_timer s = Some t \<and> client_inv loc' t \<and> frame s t \<and> adv loc loc'
    \<and> mc_which_ra t = (mc_which_ra s + 5) mod length (mc_ras s)
    \<and> (\<forall>d < 5. \<forall>k < rd_count. loc' k \<noteq> Queued ((mc_which_ra s + d) mod length (mc_ras s)))"
proof -
  have "core loc s" "streams_empty s"
    using assms by (simp_all add: client_inv_def working_def)
  from core_check_ras [OF this, of 5] show ?thesis
    unfolding check_ras_timer_def using client_inv_frame [OF assms] by blast
qed

lemma rd_inv_resend:
  assumes "rd_inv j Flying sent rd" "rd_retry rd + 1 \<noteq> max_retries"
  shows "rd_inv j Hand sent (adjust_request_header_opaque (rd\<lparr>rd_armed := False, rd_retry := rd_retry rd + 1, rd_epoch := rd_epoch rd + 1\<rparr>))"
  using assms epoch_next [of "length (sends j sent)"]
  by (auto simp: rd_inv_def adjust_request_header_opaque_def length_request_of)

lemma timeout_inv:
  assumes c: "client_inv loc s" and j: "j < rd_count" "rd_armed (mc_rds s ! j)"
  shows "\<exists>t loc'. check_request_descriptor_timeout j s = Some t \<and> client_inv loc' t"
proof -
  have w: "core loc s" "promises loc s" "streams_empty s" "\<And>k. loc k \<noteq> Hand"
    using c by (auto simp: client_inv_def working_def)
  note rd = coreD(2) [OF w(1) j(1)] and len = coreD(1) [OF w(1)]
  have fl: "loc j = Flying"
    using rd j(2) by (simp add: rd_inv_def)
  obtain q where q: "rd_pr (mc_rds s ! j) = Some q" "carries q (request_of (mc_rds s ! j))"
    using w(2) [unfolded promises_def, rule_format, OF j(1)] fl by auto
  let ?rd = "(mc_rds s ! j)\<lparr>rd_armed := False\<rparr>"
  have act: "apply_action j r (upd_rd j (\<lambda>rd. rd\<lparr>rd_armed := False\<rparr>) s) = apply_action j r s" for r
    by (simp add: apply_action_def upd_rd_def Let_def split: prod.splits)
  have t: "check_request_descriptor_timeout j s = Option.bind (timeout_handler ?rd) (\<lambda>r. apply_action j r s)"
    using j(1) len by (simp add: check_request_descriptor_timeout_def Let_def act)
  show ?thesis
  proof (cases "rd_retry (mc_rds s ! j) + 1 = max_retries")
    case True
    let ?rd' = "timeout_recycle_prep (?rd\<lparr>rd_retry := rd_retry ?rd + 1\<rparr>)"
    have "rd_inv j Idle (mc_sent s) ?rd'" "rd_pr ?rd' = None"
      using rd_inv_recycle(2) [of j "mc_sent s" "mc_rds s ! j"] rd fl by (simp, simp add: timeout_recycle_prep_def)
    from recycle_inv [OF c j(1) fl q(1) this, of Kill_flow] show ?thesis
      using True q(1) by (auto simp: t timeout_handler_def Let_def)
  next
    case False
    let ?rd' = "adjust_request_header_opaque (?rd\<lparr>rd_retry := rd_retry ?rd + 1, rd_epoch := rd_epoch ?rd + 1\<rparr>)"
    let ?u = "s\<lparr>mc_rds := (mc_rds s)[j := ?rd']\<rparr>"
    have rd': "rd_inv j Hand (mc_sent s) ?rd'" "rd_pr ?rd' = Some q" "carries q (request_of ?rd')"
      using rd_inv_resend [of j "mc_sent s" "mc_rds s ! j"] rd fl False q
      by (simp_all add: adjust_request_header_opaque_def carries_def request_of_def)
    have rec: "distinct (mc_recycled s)" "set (mc_recycled s) = {k. k < rd_count \<and> (loc(j := Hand)) k = Idle}"
      using w(1) fl by (auto simp: core_def)
    have u: "core (loc(j := Hand)) ?u" "streams_empty ?u"
      using core_update_rd [OF w(1) j(1) _ _ rd'(1) rec] fl w(3) by simp_all
    have old: "if loc k = Idle then rd_pr (mc_rds ?u ! k) = None
        else \<exists>q. rd_pr (mc_rds ?u ! k) = Some q \<and> carries q (request_of (mc_rds ?u ! k))" if "k < rd_count" "k \<noteq> j" for k
      using w(2) that by (simp add: promises_def)
    obtain t loc' where t': "send_request_descriptor j ?u = Some t" "core loc' t" "frame ?u t" "loc' j \<noteq> Idle" "\<forall>k. loc' k \<noteq> Hand"
        "\<forall>k < rd_count. k \<noteq> j \<longrightarrow> (if loc' k = Idle then rd_pr (mc_rds t ! k) = None
          else \<exists>q. rd_pr (mc_rds t ! k) = Some q \<and> carries q (request_of (mc_rds t ! k)))"
        "rd_pr (mc_rds t ! j) = rd_pr (mc_rds ?u ! j)" "request_of (mc_rds t ! j) = request_of (mc_rds ?u ! j)"
      using send_in_hand [OF u j(1) w(4) old] by blast
    have "rd_pr (mc_rds t ! j) = Some q \<and> carries q (request_of (mc_rds t ! j))"
      using t'(7,8) rd'(2,3) j(1) len by simp
    then have "working loc' t"
      using t'(2,4,5,6) frame_streams [OF t'(3) u(2)] by (auto simp: working_def promises_def)
    moreover have "mset (open_queries t) = mset (open_queries s)"
      using frame_open_queries [OF t'(3)] mset_concat_update [of j "mc_rds s" open_query ?rd'] j(1) len q(1) rd'(2)
      by (simp add: open_queries_def open_query_def)
    ultimately have "client_inv loc' t"
      using c t'(3) by (simp add: client_inv_def pooled_def outstanding_def all_queries_def frame_def)
    then show ?thesis
      using False t'(1) by (auto simp: t timeout_handler_def Let_def apply_action_def upd_rd_def)
  qed
qed

lemma start_inv:
  assumes "working loc s" "sem_unit_inv (mc_sem s)" "mc_run s \<le> length (sem_woken (mc_sem s))" "list_all q_fits (outstanding s)" "q_fits q"
    and "Suc (sem_avail (mc_sem s) + length (sem_woken (mc_sem s))) = length (mc_recycled s) + mc_run s"
    and "add_mset (q_id q) (all_queries s) = mset [0..<mc_next s]"
  shows "\<exists>t loc'. start_query hash q s = Some t \<and> client_inv loc' t \<and> mc_next t = mc_next s"
proof -
  obtain j rest where r: "mc_recycled s = j # rest"
    using assms(3,6) by (cases "mc_recycled s") auto
  from start_query_working [OF assms(1) r assms(5), of hash] obtain t loc' where t: "start_query hash q s = Some t" "working loc' t"
      "mc_recycled t = rest" "mc_sem t = mc_sem s" "mc_run t = mc_run s" "mc_next t = mc_next s" "mc_log t = mc_log s"
      "mset (open_queries t) = add_mset q (mset (open_queries s))"
    by blast
  have "outstanding t = outstanding s"
    using t(4,5) by (simp add: outstanding_def)
  then have "client_inv loc' t"
    using t assms r by (simp add: client_inv_def pooled_def all_queries_def)
  with t(1,6) show ?thesis by blast
qed

lemma query_inv:
  assumes c: "client_inv loc s" and f: "rq_size + length key + length val \<le> max_req_len"
  shows "\<exists>t loc'. mc_query hash op key_len key val_len val s = Some t \<and> client_inv loc' t \<and> mc_next t = Suc (mc_next s)"
proof -
  let ?q = "\<lparr>q_id = mc_next s, q_op = op, q_key_len = key_len, q_key = key, q_val_len = val_len, q_val = val\<rparr>"
  let ?t = "s\<lparr>mc_next := mc_next s + 1\<rparr>"
  have q: "q_fits ?q"
    using f by (simp add: q_fits_def)
  have p: "sem_unit_inv (mc_sem s)" "working loc s" "pooled s" "all_queries s = mset [0..<mc_next s]"
    using c by (auto simp: client_inv_def pooled_def)
  from rd_pool.ask_spec [OF p(1), of ?q] show ?thesis
  proof (elim disjE exE conjE)
    fix m assume m: "sem_try_wait 1 (mc_sem s) = (True, m)" "sem_unit_inv m" "Suc (sem_avail m) = sem_avail (mc_sem s)"
      "sem_waiting m = sem_waiting (mc_sem s)" "sem_woken m = sem_woken (mc_sem s)"
    let ?u = "?t\<lparr>mc_sem := m\<rparr>"
    have "\<exists>t loc'. start_query hash ?q ?u = Some t \<and> client_inv loc' t \<and> mc_next t = mc_next ?u"
      by (rule start_inv [where loc = loc]) (use p m q in \<open>simp_all add: pooled_def outstanding_def all_queries_def open_queries_def\<close>)
    with m(1) show ?thesis
      by (simp add: mc_query_def Let_def)
  next
    let ?m = "sem_wait ?q 1 False (mc_sem s)"
    assume m: "sem_try_wait 1 (mc_sem s) = (False, mc_sem s)" "sem_unit_inv ?m" "sem_avail ?m = sem_avail (mc_sem s)"
      "sem_waiting ?m = sem_waiting (mc_sem s) @ [?q]" "sem_woken ?m = sem_woken (mc_sem s)"
    have "client_inv loc (?t\<lparr>mc_sem := ?m\<rparr>)"
      using p m q by (simp add: client_inv_def pooled_def outstanding_def all_queries_def open_queries_def)
    with m(1) show ?thesis
      by (auto simp: mc_query_def Let_def)
  qed
qed

lemma run_next_inv:
  assumes c: "client_inv loc s"
  shows "\<exists>t loc'. mc_run_next hash s = Some t \<and> client_inv loc' t"
proof (cases "mc_run s < length (sem_log (mc_sem s))")
  case False
  then show ?thesis
    using c by (auto simp: mc_run_next_def)
next
  case True
  have p: "working loc s" "pooled s" "all_queries s = mset [0..<mc_next s]"
    using c by (auto simp: client_inv_def)
  obtain q r where qr: "sem_log (mc_sem s) ! mc_run s = (q, r)" by fastforce
  then have "r = Granted" "sem_woken (mc_sem s) ! mc_run s = q"
    using p(2) True nth_mem [OF True] by (auto simp: pooled_def sem_unit_inv_def list_all_iff sem_woken_def)
  moreover have "drop (mc_run s) (sem_woken (mc_sem s)) = sem_woken (mc_sem s) ! mc_run s # drop (Suc (mc_run s)) (sem_woken (mc_sem s))"
    by (rule Cons_nth_drop_Suc [symmetric]) (simp add: True sem_woken_def)
  ultimately have o: "r = Granted" "outstanding s = q # outstanding (s\<lparr>mc_run := mc_run s + 1\<rparr>)"
    by (simp_all add: outstanding_def)
  let ?u = "s\<lparr>mc_run := mc_run s + 1\<rparr>"
  have "\<exists>t loc'. start_query hash q ?u = Some t \<and> client_inv loc' t \<and> mc_next t = mc_next ?u"
    by (rule start_inv [where loc = loc])
      (use p o True in \<open>simp_all add: pooled_def all_queries_def open_queries_def sem_woken_def\<close>)
  then show ?thesis
    using True qr o(1) by (auto simp: mc_run_next_def Let_def)
qed

lemma ra_new_all_spec:
  assumes "ra_new_all es = Some ras" "\<forall>(remote, local) \<in> set es. ei_ok remote \<and> ei_ok local"
  shows "length ras = length es \<and> (\<forall>ra \<in> set ras. ra_rd_idxs ra = [] \<and> ra_remaining ra = max_req_len \<and> ra_send_stream ra = []
    \<and> (\<exists>local remote. ei_ok local \<and> ei_ok remote \<and> ra_header ra = batch_header_bytes local remote))"
  using assms
proof (induction es arbitrary: ras)
  case (Cons e es)
  obtain remote local where e: "e = (remote, local)" by fastforce
  then have ok: "ei_ok local" "ei_ok remote"
    using Cons.prems(2) by auto
  from build_batch_header_spec [OF this] obtain p where "build_batch_header local remote = Some p"
      "pk_frags p = [external (batch_header_bytes local remote)]"
    by blast
  then have ra: "ra_new remote local = Some \<lparr>ra_header = batch_header_bytes local remote, ra_remaining = max_req_len,
      ra_rd_idxs = [], ra_send_stream = []\<rparr>"
    by (simp add: ra_new_def external_def)
  with Cons.prems(1) e obtain ras' where r: "ra_new_all es = Some ras'" "ras = the (ra_new remote local) # ras'"
    by auto
  have IH: "length ras' = length es \<and> (\<forall>ra \<in> set ras'. ra_rd_idxs ra = [] \<and> ra_remaining ra = max_req_len \<and> ra_send_stream ra = []
      \<and> (\<exists>local remote. ei_ok local \<and> ei_ok remote \<and> ra_header ra = batch_header_bytes local remote))"
    using Cons.IH [OF r(1)] Cons.prems(2) by simp
  have "\<exists>l r. ei_ok l \<and> ei_ok r \<and> batch_header_bytes local remote = batch_header_bytes l r"
    using ok by blast
  with IH r(2) ra show ?case by simp
qed simp

lemma boot_inv:
  assumes b: "bootup hds es = Some s" and e: "es \<noteq> []" "\<forall>(remote, local) \<in> set es. ei_ok remote \<and> ei_ok local"
  shows "client_inv (\<lambda>_. Idle) s" "mc_next s = 0" "length (mc_ras s) = length es"
proof -
  obtain ras where r: "ra_new_all es = Some ras" and s: "s = \<lparr>mc_rds = map (\<lambda>i. rd_new (hds i) i) [0..<rd_count],
      mc_ras = ras, mc_sem = sem_init (of_nat rd_count), mc_recycled = [0..<rd_count], mc_which_ra = 0, mc_run = 0,
      mc_next = 0, mc_log = [], mc_out = [], mc_sent = []\<rparr>"
    using b by (auto simp: bootup_def)
  note ras = ra_new_all_spec [OF r e(2)]
  have "ra_inv (\<lambda>_. Idle) (mc_rds s) i (ras ! i)" if "i < length ras" for i
    using ras nth_mem [OF that] by (simp add: ra_inv_def)
  moreover have "rd_inv j Idle [] (rd_new (hds j) j)" for j
    by (simp add: rd_inv_def rd_new_def sends_def)
  moreover have "set [0..<rd_count] = {j. j < rd_count}"
    by auto
  moreover have "0 < length ras"
    using ras e(1) by auto
  ultimately have "core (\<lambda>_. Idle) s"
    by (simp add: s core_def)
  moreover have "promises (\<lambda>_. Idle) s"
    by (simp add: s promises_def rd_new_def)
  moreover have "streams_empty s"
    using ras by (simp add: s streams_empty_def)
  moreover have "pooled s"
    by (simp add: s pooled_def outstanding_def sem_unit_defs settled_init)
      (simp add: sem_init_def ef.fresh total_request_descriptor_count_def)
  moreover have "open_queries s = []"
    by (simp add: s open_queries_def open_query_def rd_new_def)
  then have "all_queries s = mset [0..<mc_next s]"
    by (simp add: s all_queries_def outstanding_def sem_unit_defs sem_init_def ef.fresh)
  ultimately show "client_inv (\<lambda>_. Idle) s"
    by (simp add: client_inv_def working_def)
  show "mc_next s = 0" "length (mc_ras s) = length es"
    using ras by (simp_all add: s)
qed

lemma step_inv:
  assumes c: "client_inv loc s" and a: "mc_admits ev s"
  shows "\<exists>t loc'. mc_apply hash ev s = Some t \<and> client_inv loc' t"
proof (cases ev)
  case (Query op key_len key val_len val)
  then show ?thesis
    using query_inv [OF c, of key val hash op key_len val_len] a by auto
next
  case Run_next
  then show ?thesis
    using run_next_inv [OF c] by simp
next
  case Ras_timer
  then show ?thesis
    using timer_inv [OF c] by auto
next
  case (Timeout j)
  have "length (mc_rds s) = rd_count"
    using c by (simp add: client_inv_def working_def core_def)
  then show ?thesis
    using timeout_inv [OF c, of j] a Timeout by simp
next
  case (Receive p)
  with a obtain rs where "received p = Some rs" "\<forall>(h, chunk) \<in> set rs. \<exists>k < length (mc_sent s). echoes h k (mc_sent s)"
    by (auto split: option.splits)
  then show ?thesis
    using handle_responses_inv [OF c, of rs] Receive by (simp add: mc_receive_received)
qed

lemma reach_inv: "mc_reach hash s \<Longrightarrow> \<exists>loc. client_inv loc s"
proof (induction rule: mc_reach.induct)
  case (boot hds es s)
  then show ?case using boot_inv(1) by blast
next
  case (step s ev t)
  then show ?case using step_inv [of _ s ev hash] by fastforce
qed

text \<open>No descriptor is lost: each is in the pool or holds a query.\<close>

lemma open_queries_count:
  assumes "working loc s"
  shows "length (mc_recycled s) + length (open_queries s) = rd_count"
proof -
  have w: "core loc s" "promises loc s"
    using assms by (simp_all add: working_def)
  have "length (concat (map open_query rds)) = length (filter (\<lambda>rd. rd_pr rd \<noteq> None) rds)" for rds
    by (induction rds) (auto simp: open_query_def)
  then have "length (open_queries s) = card {j. j < rd_count \<and> rd_pr (mc_rds s ! j) \<noteq> None}"
    using coreD(1) [OF w(1)] by (simp add: open_queries_def length_filter_conv_card)
  also have "{j. j < rd_count \<and> rd_pr (mc_rds s ! j) \<noteq> None} = {..<rd_count} - set (mc_recycled s)"
    using w by (auto simp: promises_def core_def split: if_splits)
  also have "card \<dots> = rd_count - length (mc_recycled s)"
  proof -
    have "distinct (mc_recycled s)" "set (mc_recycled s) \<subseteq> {..<rd_count}"
      using w(1) by (auto simp: core_def)
    then show ?thesis
      by (simp add: card_Diff_subset distinct_card)
  qed
  finally show ?thesis
    using recycled_small [OF w(1)] by simp
qed

text \<open>A client with one partition, its first query sent by the timer.\<close>

definition zero_hd :: request_hd where
  "zero_hd = \<lparr>rq_operation = 0, rq_result = 0, rq_reserved0 = 0, rq_kv_length_vec = 0, rq_key_hash = 0, rq_opaque = 0, rq_reserved1 = 0\<rparr>"

definition sample_boot :: "mica_client option" where
  "sample_boot = bootup (\<lambda>_. zero_hd) [(sample_endpoint, sample_endpoint)]"

lemma sample_boot_reach: "\<exists>s. sample_boot = Some s \<and> mc_reach hash s \<and> mc_next s = 0 \<and> length (mc_ras s) = 1"
proof -
  obtain p where "build_batch_header sample_endpoint sample_endpoint = Some p"
    using build_batch_header_spec [of sample_endpoint sample_endpoint] sample_client_simps(5) by blast
  then obtain s where s: "sample_boot = Some s"
    by (simp add: sample_boot_def bootup_def ra_new_def)
  note b = s [unfolded sample_boot_def]
  have e: "[(sample_endpoint, sample_endpoint)] \<noteq> []"
      "\<forall>(remote, local) \<in> set [(sample_endpoint, sample_endpoint)]. ei_ok remote \<and> ei_ok local"
    using sample_client_simps(5) by simp_all
  from mc_reach.boot [OF b e] boot_inv [OF b e] s show ?thesis by auto
qed

lemma sample_query_reach:
  "\<exists>s t. sample_boot = Some s \<and> mc_apply hash (Query 2 8 (replicate 8 1) 0 []) s = Some t \<and> mc_reach hash t \<and> mc_next t = 1
    \<and> length (mc_ras t) = 1 \<and> open_queries t \<noteq> []"
proof -
  obtain s where s: "sample_boot = Some s" "mc_reach hash s" "mc_next s = 0" "length (mc_ras s) = 1"
    using sample_boot_reach by blast
  let ?ev = "Query 2 8 (replicate 8 1) 0 []"
  let ?q = "\<lparr>q_id = 0, q_op = 2, q_key_len = 8, q_key = replicate 8 1, q_val_len = 0, q_val = []\<rparr>"
  have fits: "mc_admits ?ev s" "q_fits ?q"
    by (simp_all add: q_fits_def rq_size_def max_req_len_def batch_header_size_def)
  have b: "bootup (\<lambda>_. zero_hd) [(sample_endpoint, sample_endpoint)] = Some s"
    using s(1) by (simp add: sample_boot_def)
  have f: "mc_recycled s = [0..<rd_count]" "mc_sem s = sem_init (of_nat rd_count)"
    using b by (auto simp: bootup_def)
  have "0 < rd_count"
    by (simp add: total_request_descriptor_count_def)
  then have r: "mc_recycled s = 0 # [1..<rd_count]"
    unfolding f(1) by (simp add: upt_conv_Cons)
  have "client_inv (\<lambda>_. Idle) s"
    by (rule boot_inv(1) [OF b]) (use sample_client_simps(5) in simp_all)
  moreover have "0 < sem_avail (mc_sem s)"
    unfolding f(2) by (simp add: sem_avail_def sem_init_def total_request_descriptor_count_def)
  ultimately have w: "working (\<lambda>_. Idle) s" and m: "\<exists>m. sem_try_wait 1 (mc_sem s) = (True, m)"
    using rd_pool.ask_some [of "mc_sem s"] by (auto simp: client_inv_def pooled_def)
  from m obtain m where m: "sem_try_wait 1 (mc_sem s) = (True, m)" by blast
  let ?u = "s\<lparr>mc_next := 1, mc_sem := m\<rparr>"
  obtain t where t: "start_query hash ?q ?u = Some t" "mc_next t = 1" "length (mc_ras t) = 1"
      "mset (open_queries t) = add_mset ?q (mset (open_queries ?u))"
    using start_query_working [of "\<lambda>_. Idle" ?u 0 "[1..<rd_count]" ?q hash] w r fits(2) s(4) by auto
  have a: "mc_apply hash ?ev s = Some t"
    using m t(1) s(3) by (simp add: mc_query_def Let_def)
  have "open_queries t \<noteq> []"
    using t(4) by auto
  with s(1) a mc_reach.step [OF s(2) fits(1) a] t(2,3) show ?thesis by blast
qed

section \<open>Properties\<close>

text \<open>
  C33. The client is never stuck: in every state that a booted client can reach, a query that fits
  into a packet, a task of the semaphore, the periodic timer, the timeout of an armed descriptor and a
  packet whose responses echo requests sent before (not more than 65534 transmissions of the
  same descriptor ago) are all handled: no function dereferences an empty promise, an index out of
  range or an empty pool, every loop ends, and all packets handed to the port are at most
  1514 bytes long.
\<close>

theorem mica_client_never_stuck:
  assumes "mc_reach hash s" "mc_admits ev s"
  shows "\<exists>t. mc_apply hash ev s = Some t \<and> mc_reach hash t \<and> (\<forall>(i, p) \<in> set (mc_out t). pk_len p \<le> 1514)"
proof -
  obtain loc where "client_inv loc s"
    using reach_inv [OF assms(1)] by blast
  from step_inv [OF this assms(2), of hash] obtain t loc' where t: "mc_apply hash ev s = Some t" "client_inv loc' t"
    by blast
  from t(2) have "\<forall>(i, p) \<in> set (mc_out t). pk_len p \<le> 1514"
    unfolding client_inv_def working_def core_def by (elim conjE)
  with t(1) mc_reach.step [OF assms t(1)] show ?thesis by blast
qed

theorem mica_client_never_stuck_witness:
  "\<exists>s t. sample_boot = Some s \<and> mc_apply (\<lambda>_ _. 0) (Query 2 8 (replicate 8 1) 0 []) s = Some t \<and> (\<forall>(i, p) \<in> set (mc_out t). pk_len p \<le> 1514)"
proof -
  obtain s where s: "sample_boot = Some s" "mc_reach (\<lambda>_ _. 0) s"
    using sample_boot_reach by blast
  have "mc_admits (Query 2 8 (replicate 8 1) 0 []) s"
    by (simp add: rq_size_def max_req_len_def batch_header_size_def)
  from mica_client_never_stuck [OF s(2) this] s(1) show ?thesis by blast
qed

text \<open>
  C32. No query is lost and none is answered twice: in every reachable state the queries issued so
  far are exactly the answered ones, the ones held by a descriptor and the ones waiting for a
  descriptor, each once; and every descriptor is in the pool or holds one query.
\<close>

theorem mica_queries_accounted:
  assumes "mc_reach hash s"
  shows "image_mset q_id (mset (map fst (mc_log s)) + mset (open_queries s) + mset (outstanding s)) = mset [0..<mc_next s]
    \<and> distinct (map (q_id \<circ> fst) (mc_log s))
    \<and> length (mc_recycled s) + length (open_queries s) = total_request_descriptor_count"
proof -
  obtain loc where c: "client_inv loc s"
    using reach_inv [OF assms] by blast
  then have a: "image_mset q_id (mset (map fst (mc_log s)) + mset (open_queries s) + mset (outstanding s)) = mset [0..<mc_next s]"
    by (simp add: client_inv_def all_queries_def)
  then have "mset (map (q_id \<circ> fst) (mc_log s) @ map q_id (open_queries s @ outstanding s)) = mset [0..<mc_next s]"
    by (simp add: multiset.map_comp add.assoc)
  then have "distinct (map (q_id \<circ> fst) (mc_log s) @ map q_id (open_queries s @ outstanding s))"
    using mset_eq_imp_distinct_iff distinct_upt by blast
  with a open_queries_count [of loc s] c show ?thesis
    by (simp add: client_inv_def)
qed

theorem mica_queries_accounted_witness:
  "\<exists>s. mc_reach (\<lambda>_ _. 0) s \<and> mc_next s = 1
    \<and> image_mset q_id (mset (map fst (mc_log s)) + mset (open_queries s) + mset (outstanding s)) = {#0#}"
proof -
  obtain s where s: "mc_reach (\<lambda>_ _. 0) s" "mc_next s = 1"
    using sample_query_reach by blast
  from mica_queries_accounted [OF s(1)] s show ?thesis by auto
qed

text \<open>
  C34. Late responses do no harm: a response that echoes the \<open>k\<close>-th request sent (with at most 65534
  later transmissions of the same descriptor) either changes no answer, or it answers
  exactly one query; then request \<open>k\<close> carried that query's operation, lengths, key and value,
  and nothing was sent for this descriptor after it.
\<close>

theorem mica_late_responses_ignored:
  assumes "mc_reach hash s" "echoes h k (mc_sent s)"
  shows "\<exists>t. handle_response (h, chunk) s = Some t \<and> (mc_log t = mc_log s
    \<or> (\<exists>q. mc_log t = mc_log s @ [(q, Response h chunk)] \<and> carries q (mc_sent s ! k)
        \<and> sends (opaque_rd (rq_opaque h)) (drop (Suc k) (mc_sent s)) = []))"
  using reach_inv [OF assms(1)] handle_response_inv [OF _ assms(2), of _ chunk] by blast

lemma sample_sent_reach: "\<exists>s. mc_reach hash s \<and> mc_sent s \<noteq> []"
proof -
  obtain s where s: "mc_reach hash s" "length (mc_ras s) = 1" "open_queries s \<noteq> []"
    using sample_query_reach by blast
  obtain loc where c: "client_inv loc s"
    using reach_inv [OF s(1)] by blast
  obtain t loc' where t: "check_ras_timer s = Some t" "client_inv loc' t" "frame s t"
      "\<forall>d < 5. \<forall>k < rd_count. loc' k \<noteq> Queued ((mc_which_ra s + d) mod length (mc_ras s))"
    using timer_inv [OF c] by blast
  have w: "core loc' t" "promises loc' t" "\<And>k. loc' k \<noteq> Hand" "length (mc_rds t) = rd_count"
    using t(2) by (auto simp: client_inv_def working_def core_def)
  obtain j where j: "j < rd_count" "rd_pr (mc_rds t ! j) \<noteq> None"
  proof -
    have "open_queries t \<noteq> []"
      using s(3) frame_open_queries [OF t(3)] by simp
    then show thesis
      using w(4) that by (auto simp: open_queries_def open_query_def in_set_conv_nth split: option.splits)
  qed
  have "loc' j \<noteq> Idle"
    using j w(2) by (auto simp: promises_def)
  moreover have "loc' j \<noteq> Queued i" for i
    using t(4) [rule_format, of 0 j] j(1) s(2) w(1) t(3) by (auto simp: core_def frame_def)
  ultimately have "loc' j = Flying"
    using w(3) [of j] by (cases "loc' j") auto
  then have "mc_sent t \<noteq> []"
    using coreD(2) [OF w(1) j(1)] by (auto simp: rd_inv_def sends_def)
  with mc_reach.step [OF s(1), of Ras_timer] t(1) show ?thesis by auto
qed

theorem mica_late_responses_ignored_witness:
  "\<exists>s h k t. mc_reach (\<lambda>_ _. 0) s \<and> echoes h k (mc_sent s) \<and> handle_response (h, pkt_empty) s = Some t \<and> (mc_log t = mc_log s
    \<or> (\<exists>q. mc_log t = mc_log s @ [(q, Response h pkt_empty)] \<and> carries q (mc_sent s ! k)
        \<and> sends (opaque_rd (rq_opaque h)) (drop (Suc k) (mc_sent s)) = []))"
proof -
  obtain s where s: "mc_reach (\<lambda>_ _. 0) s" "mc_sent s \<noteq> []"
    using sample_sent_reach by blast
  let ?k = "length (mc_sent s) - 1"
  have e: "echoes (fst (mc_sent s ! ?k)) ?k (mc_sent s)"
    using s(2) by (simp add: echoes_def)
  from mica_late_responses_ignored [OF s(1) e, of pkt_empty] s(1) e show ?thesis by blast
qed

text \<open>
  C35. The periodic timer flushes: it always returns, having emptied the batches of the next five
  assemblers in turn; every request that was in one of them has been sent and its timer is armed.
\<close>

theorem mica_timer_flushes:
  assumes "mc_reach hash s"
  shows "\<exists>t. check_ras_timer s = Some t \<and> mc_which_ra t = (mc_which_ra s + 5) mod length (mc_ras s)
    \<and> (\<forall>d < 5. let i = (mc_which_ra s + d) mod length (mc_ras s) in ra_rd_idxs (mc_ras t ! i) = []
        \<and> (\<forall>j \<in> set (ra_rd_idxs (mc_ras s ! i)). request_of (mc_rds s ! j) \<in> set (mc_sent t) \<and> rd_armed (mc_rds t ! j)))"
proof -
  obtain loc where c: "client_inv loc s"
    using reach_inv [OF assms] by blast
  obtain t loc' where t: "check_ras_timer s = Some t" "client_inv loc' t" "frame s t" "adv loc loc'"
      "mc_which_ra t = (mc_which_ra s + 5) mod length (mc_ras s)"
      "\<forall>d < 5. \<forall>k < rd_count. loc' k \<noteq> Queued ((mc_which_ra s + d) mod length (mc_ras s))"
    using timer_inv [OF c] by blast
  have co: "core loc s" "core loc' t"
    using c t(2) by (simp_all add: client_inv_def working_def)
  have "ra_rd_idxs (mc_ras t ! i) = [] \<and> (\<forall>j \<in> set (ra_rd_idxs (mc_ras s ! i)). request_of (mc_rds s ! j) \<in> set (mc_sent t) \<and> rd_armed (mc_rds t ! j))"
    if d: "d < 5" "i = (mc_which_ra s + d) mod length (mc_ras s)" for d i
  proof -
    have i: "i < length (mc_ras s)"
      using co(1) d(2) by (auto simp: core_def intro!: mod_less_divisor)
    have n: "loc' k \<noteq> Queued i" if "k < rd_count" for k
      using t(6) d that by blast
    have "ra_inv loc' (mc_rds t) i (mc_ras t ! i)"
      using coreD(3) [OF co(2)] i t(3) by (simp add: frame_def)
    with n have "set (ra_rd_idxs (mc_ras t ! i)) = {}"
      unfolding ra_inv_def by auto
    moreover have "request_of (mc_rds s ! j) \<in> set (mc_sent t) \<and> rd_armed (mc_rds t ! j)" if j: "j \<in> set (ra_rd_idxs (mc_ras s ! i))" for j
    proof -
      have jn: "j < rd_count" "loc j = Queued i"
        using j coreD(3) [OF co(1) i] by (auto simp: ra_inv_def)
      then have "loc' j = Flying"
        using t(4) n [OF jn(1)] unfolding adv_def by metis
      with coreD(2) [OF co(2) jn(1)] have f: "sends j (mc_sent t) \<noteq> []" "last (sends j (mc_sent t)) = request_of (mc_rds t ! j)" "rd_armed (mc_rds t ! j)"
        by (simp_all add: rd_inv_def)
      have "last (sends j (mc_sent t)) \<in> set (mc_sent t)"
        using last_in_set [OF f(1)] by (simp add: sends_def)
      moreover have "request_of (mc_rds t ! j) = request_of (mc_rds s ! j)"
        using t(3) jn(1) coreD(1) [OF co(1)] same_request_fields(1) by (auto simp: frame_def)
      ultimately show ?thesis
        using f by simp
    qed
    ultimately show ?thesis by simp
  qed
  with t(1,5) show ?thesis
    by (simp add: Let_def)
qed

theorem mica_timer_flushes_witness:
  "\<exists>s t. mc_reach (\<lambda>_ _. 0) s \<and> mc_next s = 1 \<and> check_ras_timer s = Some t \<and> mc_which_ra t = (mc_which_ra s + 5) mod length (mc_ras s)"
proof -
  obtain s where s: "mc_reach (\<lambda>_ _. 0) s" "mc_next s = 1"
    using sample_query_reach by blast
  from mica_timer_flushes [OF s(1)] s show ?thesis by blast
qed

end
