(* ===== verification/Aho_Corasick.thy ===== *)
theory Aho_Corasick
  imports NS_Prelude "HOL-Library.Sublist" "HOL-Library.Multiset"
begin

text \<open>
  The multi-pattern matcher of the intrusion detection example: netstar/aho-corasick/aho.h with its
  queue (ds\_queue.h), and the scan of one packet (process\_batch of tests/netstar/http\_ids.cc).

  \<^item> A queue is the chain of its nodes from head to tail together with its counter.
  \<^item> The state array is a function from indices; tables hold numbers below \<open>2 ^ 16\<close>. What malloc
    leaves in \<open>out_arr\<close> is a parameter.
  \<^item> \<open>None\<close> is a failed assertion, an access outside the state array or a loop that does not end;
    printing is left out.
  \<^item> \<open>lsuf\<close> is the specification: the longest suffix of the text that is a prefix of a pattern.
\<close>

section \<open>Queues\<close>

record ds_queue =
  dq_data :: "nat list"
  dq_count :: nat

definition ds_queue_init :: ds_queue where
  "ds_queue_init = \<lparr>dq_data = [], dq_count = 0\<rparr>"

definition ds_queue_add :: "nat \<Rightarrow> ds_queue \<Rightarrow> ds_queue" where
  "ds_queue_add x q = \<lparr>dq_data = dq_data q @ [x], dq_count = dq_count q + 1\<rparr>"

definition ds_queue_remove :: "ds_queue \<Rightarrow> (nat \<times> ds_queue) option" where
  "ds_queue_remove q = (case dq_data q of [] \<Rightarrow> None
    | x # rest \<Rightarrow> let c = dq_count q - 1 in
        if rest = [] \<and> c \<noteq> 0 then None else Some (x, \<lparr>dq_data = rest, dq_count = c\<rparr>))"

definition ds_queue_is_empty :: "ds_queue \<Rightarrow> bool" where
  "ds_queue_is_empty q \<longleftrightarrow> dq_count q = 0"

definition ds_queue_size :: "ds_queue \<Rightarrow> nat" where
  "ds_queue_size q = dq_count q"

section \<open>Building the automaton\<close>

definition AHO_MAX_STATES :: nat where "AHO_MAX_STATES = 32768"
definition AHO_FAIL :: nat where "AHO_FAIL = 65535"

record aho_state =
  st_G :: "u8 \<Rightarrow> nat"
  st_F :: nat
  st_output :: ds_queue
  st_out_arr :: "nat \<Rightarrow> nat"

record aho_dfa =
  dfa_id :: int
  dfa_num_used_states :: nat
  dfa_root :: "nat \<Rightarrow> aho_state"

definition all_bytes :: "u8 list" where
  "all_bytes = map of_nat [0..<256]"

definition aho_init :: "(nat \<Rightarrow> nat \<Rightarrow> nat) \<Rightarrow> int \<Rightarrow> aho_dfa" where
  "aho_init mem i = \<lparr>dfa_id = i, dfa_num_used_states = 0,
    dfa_root = (\<lambda>s. \<lparr>st_G = (\<lambda>_. AHO_FAIL), st_F = AHO_FAIL, st_output = ds_queue_init, st_out_arr = mem s\<rparr>)\<rparr>"

text \<open>The two loops of \<open>aho_add_pattern\<close>: follow existing transitions, then add states.\<close>

fun descend :: "(nat \<Rightarrow> aho_state) \<Rightarrow> nat \<Rightarrow> bytes \<Rightarrow> nat \<times> bytes" where
  "descend st state [] = (state, [])"
| "descend st state (c # cs) =
    (if st_G (st state) c = AHO_FAIL then (state, c # cs) else descend st (st_G (st state) c) cs)"

definition set_G :: "nat \<Rightarrow> u8 \<Rightarrow> nat \<Rightarrow> (nat \<Rightarrow> aho_state) \<Rightarrow> nat \<Rightarrow> aho_state" where
  "set_G s c n st = st(s := (st s)\<lparr>st_G := (st_G (st s))(c := n mod 2 ^ 16)\<rparr>)"

fun grow :: "aho_dfa \<Rightarrow> nat \<Rightarrow> bytes \<Rightarrow> (aho_dfa \<times> nat) option" where
  "grow d state [] = Some (d, state)"
| "grow d state (c # cs) =
    (let n = dfa_num_used_states d + 1 in
     if \<not> n \<le> AHO_MAX_STATES - 2 then None
     else grow (d\<lparr>dfa_num_used_states := n, dfa_root := set_G state c n (dfa_root d)\<rparr>) n cs)"

definition add_output :: "nat \<Rightarrow> nat \<Rightarrow> (nat \<Rightarrow> aho_state) \<Rightarrow> nat \<Rightarrow> aho_state" where
  "add_output s x st = st(s := (st s)\<lparr>st_output := ds_queue_add x (st_output (st s))\<rparr>)"

definition aho_add_pattern :: "bytes \<Rightarrow> nat \<Rightarrow> aho_dfa \<Rightarrow> aho_dfa option" where
  "aho_add_pattern content index d =
    (if \<not> length content \<le> 100000 then None else
     case descend (dfa_root d) 0 content of (state, rest) \<Rightarrow>
     Option.bind (grow d state rest) (\<lambda>(d', state').
       if state' = 0 then None else Some (d'\<lparr>dfa_root := add_output state' index (dfa_root d')\<rparr>)))"

text \<open>The loop that looks for a state with a transition along the failure function.\<close>

partial_function (option) follow :: "(nat \<Rightarrow> aho_state) \<Rightarrow> u8 \<Rightarrow> nat \<Rightarrow> nat option" where
  "follow st c s = (if \<not> s < AHO_MAX_STATES then None
    else if st_G (st s) c = AHO_FAIL then follow st c (st_F (st s)) else Some s)"

definition set_F :: "nat \<Rightarrow> nat \<Rightarrow> (nat \<Rightarrow> aho_state) \<Rightarrow> nat \<Rightarrow> aho_state" where
  "set_F s n st = st(s := (st s)\<lparr>st_F := n mod 2 ^ 16\<rparr>)"

definition root_loops :: "(nat \<Rightarrow> aho_state) \<Rightarrow> nat \<Rightarrow> aho_state" where
  "root_loops st = st(0 := (st 0)\<lparr>st_G := (\<lambda>c. if st_G (st 0) c = AHO_FAIL then 0 else st_G (st 0) c)\<rparr>)"

fun root_children :: "u8 list \<Rightarrow> (nat \<Rightarrow> aho_state) \<Rightarrow> ds_queue \<Rightarrow> ((nat \<Rightarrow> aho_state) \<times> ds_queue) option" where
  "root_children [] st q = Some (st, q)"
| "root_children (c # cs) st q =
    (let next = st_G (st 0) c in
     if next = 0 then root_children cs st q
     else if \<not> next < AHO_MAX_STATES then None
     else root_children cs (set_F next 0 st) (ds_queue_add next q))"

text \<open>
  One child. The patterns of the failure state are appended while its queue is walked; with the
  child itself as failure state the walk would not end.
\<close>

definition ff_child :: "nat \<Rightarrow> u8 \<Rightarrow> (nat \<Rightarrow> aho_state) \<Rightarrow> ds_queue \<Rightarrow> ((nat \<Rightarrow> aho_state) \<times> ds_queue) option" where
  "ff_child cur c st q =
    (let child = st_G (st cur) c in
     if child = AHO_FAIL then Some (st, q)
     else if \<not> child < AHO_MAX_STATES then None
     else Option.bind (follow st c (st_F (st cur))) (\<lambda>best.
       let fail = st_G (st best) c; st' = set_F child fail st in
       if \<not> fail < AHO_MAX_STATES \<or> fail = child \<and> dq_data (st_output (st' child)) \<noteq> [] then None
       else Some (fold (add_output child) (dq_data (st_output (st' fail))) st', ds_queue_add child q)))"

fun ff_children :: "nat \<Rightarrow> u8 list \<Rightarrow> (nat \<Rightarrow> aho_state) \<Rightarrow> ds_queue \<Rightarrow> ((nat \<Rightarrow> aho_state) \<times> ds_queue) option" where
  "ff_children cur [] st q = Some (st, q)"
| "ff_children cur (c # cs) st q = Option.bind (ff_child cur c st q) (\<lambda>(st', q'). ff_children cur cs st' q')"

partial_function (option) ff_traverse :: "(nat \<Rightarrow> aho_state) \<Rightarrow> ds_queue \<Rightarrow> (nat \<Rightarrow> aho_state) option" where
  "ff_traverse st q = (if ds_queue_is_empty q then Some st
    else Option.bind (ds_queue_remove q) (\<lambda>x. case x of (cur, q') \<Rightarrow>
      if \<not> cur < AHO_MAX_STATES then None
      else Option.bind (ff_children cur all_bytes st q') (\<lambda>y. case y of (st', q'') \<Rightarrow> ff_traverse st' q'')))"

definition aho_build_ff :: "aho_dfa \<Rightarrow> aho_dfa option" where
  "aho_build_ff d = Option.bind (root_children all_bytes (root_loops (dfa_root d)) ds_queue_init) (\<lambda>(st, q).
    map_option (\<lambda>st'. d\<lparr>dfa_root := st'\<rparr>) (ff_traverse st q))"

text \<open>\<open>aho_preprocess_dfa\<close>: outputs into the array, missing transitions into the table.\<close>

definition copy_out :: "nat \<Rightarrow> (nat \<Rightarrow> aho_state) \<Rightarrow> nat \<Rightarrow> aho_state" where
  "copy_out i st = st(i := (st i)\<lparr>st_out_arr := (\<lambda>j. if j < dq_count (st_output (st i))
    then dq_data (st_output (st i)) ! j mod 2 ^ 16 else st_out_arr (st i) j)\<rparr>)"

fun fill_G :: "nat \<Rightarrow> u8 list \<Rightarrow> (nat \<Rightarrow> aho_state) \<Rightarrow> (nat \<Rightarrow> aho_state) option" where
  "fill_G i [] st = Some st"
| "fill_G i (c # cs) st =
    (if st_G (st i) c \<noteq> AHO_FAIL then fill_G i cs st
     else Option.bind (follow st c i) (\<lambda>s. fill_G i cs (set_G i c (st_G (st s) c) st)))"

definition preprocess_state :: "nat \<Rightarrow> (nat \<Rightarrow> aho_state) \<Rightarrow> (nat \<Rightarrow> aho_state) option" where
  "preprocess_state i st =
    (if \<not> dq_count (st_output (st i)) < 16 \<or> length (dq_data (st_output (st i))) < dq_count (st_output (st i)) then None
     else fill_G i all_bytes (copy_out i st))"

fun preprocess_states :: "nat list \<Rightarrow> (nat \<Rightarrow> aho_state) \<Rightarrow> (nat \<Rightarrow> aho_state) option" where
  "preprocess_states [] st = Some st"
| "preprocess_states (i # ids) st = Option.bind (preprocess_state i st) (preprocess_states ids)"

definition aho_preprocess_dfa :: "aho_dfa \<Rightarrow> aho_dfa option" where
  "aho_preprocess_dfa d = map_option (\<lambda>st. d\<lparr>dfa_root := st\<rparr>)
    (preprocess_states [0..<dfa_num_used_states d + 1] (dfa_root d))"

text \<open>The whole construction for one automaton, as the constructor of \<open>IPS\<close> runs it.\<close>

fun add_patterns :: "(nat \<times> bytes) list \<Rightarrow> aho_dfa \<Rightarrow> aho_dfa option" where
  "add_patterns [] d = Some d"
| "add_patterns ((i, p) # ps) d = Option.bind (aho_add_pattern p i d) (add_patterns ps)"

definition aho_build :: "(nat \<Rightarrow> nat \<Rightarrow> nat) \<Rightarrow> int \<Rightarrow> (nat \<times> bytes) list \<Rightarrow> aho_dfa option" where
  "aho_build mem i ps = Option.bind (add_patterns ps (aho_init mem i)) (\<lambda>d.
    Option.bind (aho_build_ff d) aho_preprocess_dfa)"

section \<open>Scanning a packet\<close>

record ips_flow_state =
  ips_state :: nat
  ips_alert :: bool

text \<open>The loop over the bytes: the state where a match is seen, or the state at the end.\<close>

fun scan :: "(nat \<Rightarrow> aho_state) \<Rightarrow> nat \<Rightarrow> bytes \<Rightarrow> nat \<times> nat list option" where
  "scan st state [] = (state, None)"
| "scan st state (b # bs) =
    (let count = dq_count (st_output (st state)) in
     if count \<noteq> 0 then (state, Some (map (st_out_arr (st state)) [0..<count]))
     else scan st (st_G (st state) b) bs)"

definition process_batch :: "aho_dfa \<Rightarrow> bytes \<Rightarrow> ips_flow_state \<Rightarrow> ips_flow_state \<times> nat list" where
  "process_batch d content ips =
    (if dfa_num_used_states d \<le> ips_state ips then (ips\<lparr>ips_alert := False\<rparr>, [])
     else case scan (dfa_root d) (ips_state ips) content of
       (s, Some ids) \<Rightarrow> (\<lparr>ips_state = s, ips_alert = True\<rparr>, ids)
     | (s, None) \<Rightarrow> (ips\<lparr>ips_state := s\<rparr>, []))"

section \<open>The longest suffix that is a prefix of a pattern\<close>

fun lsuf :: "bytes set \<Rightarrow> bytes \<Rightarrow> bytes" where
  "lsuf P [] = []"
| "lsuf P (a # w) = (if a # w \<in> P then a # w else lsuf P w)"

lemma lsuf_suffix: "suffix (lsuf P w) w"
  by (induction w) (auto intro: suffix_ConsI)

lemma lsuf_in: "[] \<in> P \<Longrightarrow> lsuf P w \<in> P"
  by (induction w) auto

lemma lsuf_longest: "suffix v w \<Longrightarrow> v \<in> P \<Longrightarrow> suffix v (lsuf P w)"
  by (induction w) (auto simp: suffix_Cons)

lemma lsuf_self: "w \<in> P \<Longrightarrow> lsuf P w = w"
  by (cases w) auto

definition prefix_closed :: "bytes set \<Rightarrow> bool" where
  "prefix_closed P \<longleftrightarrow> [] \<in> P \<and> (\<forall>x y. x @ y \<in> P \<longrightarrow> x \<in> P)"

lemma lsuf_step:
  assumes "prefix_closed P"
  shows "lsuf P (lsuf P w @ [c]) = lsuf P (w @ [c])"
proof -
  have n: "[] \<in> P" and cl: "\<And>x y. x @ y \<in> P \<Longrightarrow> x \<in> P"
    using assms by (auto simp: prefix_closed_def)
  let ?v = "lsuf P (w @ [c])" and ?u = "lsuf P (lsuf P w @ [c])"
  have "suffix (lsuf P w @ [c]) (w @ [c])"
    using lsuf_suffix [of P w] by simp
  from lsuf_longest [OF suffix_order.trans [OF lsuf_suffix this] lsuf_in [OF n]] have "suffix ?u ?v" .
  moreover have "suffix ?v ?u"
  proof (cases ?v rule: rev_cases)
    case (snoc x a)
    have "suffix (x @ [a]) (w @ [c])"
      using lsuf_suffix [of P "w @ [c]"] snoc by simp
    then have a: "a = c" "suffix x w"
      by simp_all
    moreover have "x \<in> P"
      using cl [of x "[a]"] lsuf_in [OF n, of "w @ [c]"] snoc by simp
    ultimately have "suffix (x @ [c]) (lsuf P w @ [c])"
      using lsuf_longest by simp
    then show ?thesis
      using lsuf_longest lsuf_in [OF n] snoc a(1) by metis
  qed simp
  ultimately show ?thesis
    by (rule suffix_order.antisym)
qed

lemma lsuf_fail:
  assumes "prefix_closed P" "x @ [c] \<notin> P" "x \<noteq> []"
  shows "lsuf P (x @ [c]) = lsuf P (lsuf P (tl x) @ [c])"
  using assms by (cases x) (simp_all add: lsuf_step)

section \<open>The trie of the patterns\<close>

definition q_ok :: "ds_queue \<Rightarrow> bool" where
  "q_ok q \<longleftrightarrow> dq_count q = length (dq_data q)"

lemma q_ok_simps [simp]:
  "q_ok ds_queue_init" "q_ok (ds_queue_add x q) = q_ok q" "dq_data (ds_queue_add x q) = dq_data q @ [x]" "dq_data ds_queue_init = []"
  by (simp_all add: q_ok_def ds_queue_init_def ds_queue_add_def)

abbreviation outs :: "(nat \<Rightarrow> aho_state) \<Rightarrow> nat \<Rightarrow> nat list" where
  "outs st s \<equiv> dq_data (st_output (st s))"

lemma upd_simps [simp]:
  "st_G (set_F s n st t) = st_G (st t)" "st_F (set_F s n st t) = (if t = s then n mod 2 ^ 16 else st_F (st t))"
  "st_output (set_F s n st t) = st_output (st t)"
  "st_G (add_output s x st t) = st_G (st t)" "st_F (add_output s x st t) = st_F (st t)"
  "st_output (add_output s x st t) = (if t = s then ds_queue_add x (st_output (st t)) else st_output (st t))"
  "st_F (set_G s c n st t) = st_F (st t)" "st_output (set_G s c n st t) = st_output (st t)"
  "st_G (set_G s c n st t) = (if t = s then (st_G (st s))(c := n mod 2 ^ 16) else st_G (st t))"
  "st_out_arr (set_G s c n st t) = st_out_arr (st t)"
  by (simp_all add: set_F_def add_output_def set_G_def)

text \<open>The labels of the states are the strings in \<open>P\<close>; unused states are untouched.\<close>

definition trie :: "(nat \<Rightarrow> bytes) \<Rightarrow> bytes set \<Rightarrow> (bytes \<Rightarrow> nat list) \<Rightarrow> aho_dfa \<Rightarrow> bool" where
  "trie lab P own d \<longleftrightarrow> (let n = dfa_num_used_states d; st = dfa_root d in
    n \<le> AHO_MAX_STATES - 2 \<and> lab 0 = [] \<and> inj_on lab {0..n} \<and> lab ` {0..n} = P
    \<and> (\<forall>s \<le> n. \<forall>c. if lab s @ [c] \<in> P then st_G (st s) c \<le> n \<and> lab (st_G (st s) c) = lab s @ [c] else st_G (st s) c = AHO_FAIL)
    \<and> (\<forall>s \<le> n. outs st s = own (lab s)) \<and> (\<forall>s. q_ok (st_output (st s)))
    \<and> (\<forall>s > n. st_G (st s) = (\<lambda>_. AHO_FAIL) \<and> outs st s = []))"

lemma trieD:
  assumes "trie lab P own d"
  shows "dfa_num_used_states d \<le> AHO_MAX_STATES - 2" "lab 0 = []" "inj_on lab {0..dfa_num_used_states d}"
    "lab ` {0..dfa_num_used_states d} = P"
    "s \<le> dfa_num_used_states d \<Longrightarrow> lab s @ [c] \<in> P \<Longrightarrow>
      st_G (dfa_root d s) c \<le> dfa_num_used_states d \<and> lab (st_G (dfa_root d s) c) = lab s @ [c]"
    "s \<le> dfa_num_used_states d \<Longrightarrow> lab s @ [c] \<notin> P \<Longrightarrow> st_G (dfa_root d s) c = AHO_FAIL"
    "s \<le> dfa_num_used_states d \<Longrightarrow> outs (dfa_root d) s = own (lab s)" "q_ok (st_output (dfa_root d s))"
    "dfa_num_used_states d < s \<Longrightarrow> st_G (dfa_root d s) = (\<lambda>_. AHO_FAIL) \<and> outs (dfa_root d) s = []"
proof -
  let ?n = "dfa_num_used_states d"
  from assms have *: "?n \<le> AHO_MAX_STATES - 2" "lab 0 = []" "inj_on lab {0..?n}" "lab ` {0..?n} = P"
    "\<forall>s \<le> ?n. \<forall>c. if lab s @ [c] \<in> P then st_G (dfa_root d s) c \<le> ?n \<and> lab (st_G (dfa_root d s) c) = lab s @ [c] else st_G (dfa_root d s) c = AHO_FAIL"
    "\<forall>s \<le> ?n. outs (dfa_root d) s = own (lab s)" "\<forall>s. q_ok (st_output (dfa_root d s))"
    "\<forall>s > ?n. st_G (dfa_root d s) = (\<lambda>_. AHO_FAIL) \<and> outs (dfa_root d) s = []"
    unfolding trie_def Let_def by - (elim conjE, assumption)+
  show "?n \<le> AHO_MAX_STATES - 2" "lab 0 = []" "inj_on lab {0..?n}" "lab ` {0..?n} = P"
    by (fact *)+
  show "s \<le> ?n \<Longrightarrow> lab s @ [c] \<in> P \<Longrightarrow> st_G (dfa_root d s) c \<le> ?n \<and> lab (st_G (dfa_root d s) c) = lab s @ [c]"
    "s \<le> ?n \<Longrightarrow> lab s @ [c] \<notin> P \<Longrightarrow> st_G (dfa_root d s) c = AHO_FAIL"
    using *(5) by metis+
  show "s \<le> ?n \<Longrightarrow> outs (dfa_root d) s = own (lab s)" "q_ok (st_output (dfa_root d s))"
    "?n < s \<Longrightarrow> st_G (dfa_root d s) = (\<lambda>_. AHO_FAIL) \<and> outs (dfa_root d) s = []"
    using *(6-8) by blast+
qed

lemma trieI:
  assumes "n = dfa_num_used_states d" "st = dfa_root d" "n \<le> AHO_MAX_STATES - 2" "lab 0 = []" "inj_on lab {0..n}" "lab ` {0..n} = P"
    and "\<And>s c. s \<le> n \<Longrightarrow> if lab s @ [c] \<in> P then st_G (st s) c \<le> n \<and> lab (st_G (st s) c) = lab s @ [c] else st_G (st s) c = AHO_FAIL"
    and "\<And>s. s \<le> n \<Longrightarrow> outs st s = own (lab s)" "\<And>s. q_ok (st_output (st s))"
    and "\<And>s. n < s \<Longrightarrow> st_G (st s) = (\<lambda>_. AHO_FAIL) \<and> outs st s = []"
  shows "trie lab P own d"
  using assms unfolding trie_def Let_def by blast

lemma trie_init: "trie (\<lambda>_. []) {[]} (\<lambda>_. []) (aho_init mem i)"
  by (auto simp: trie_def aho_init_def Let_def)

lemma fail_big: "n \<le> AHO_MAX_STATES - 2 \<Longrightarrow> n < AHO_MAX_STATES \<and> n < AHO_FAIL \<and> n mod 2 ^ 16 = n"
  by (simp add: AHO_MAX_STATES_def AHO_FAIL_def)

lemma descend_spec:
  assumes t: "trie lab P own d" and P: "prefix_closed P" and s: "s \<le> dfa_num_used_states d"
    and r: "descend (dfa_root d) s p = (s', rest)"
  shows "\<exists>pre. p = pre @ rest \<and> s' \<le> dfa_num_used_states d \<and> lab s' = lab s @ pre
    \<and> (\<forall>y. y \<noteq> [] \<longrightarrow> prefix y rest \<longrightarrow> lab s' @ y \<notin> P)"
  using s r
proof (induction p arbitrary: s)
  case Nil
  then show ?case by auto
next
  case (Cons c cs)
  note n = trieD(1) [OF t]
  show ?case
  proof (cases "lab s @ [c] \<in> P")
    case True
    note g = trieD(5) [OF t Cons.prems(1) True]
    have "st_G (dfa_root d s) c \<noteq> AHO_FAIL"
      using g fail_big [OF n] by auto
    with Cons.prems(2) have "descend (dfa_root d) (st_G (dfa_root d s) c) cs = (s', rest)"
      by simp
    from Cons.IH [OF _ this] g obtain pre where "cs = pre @ rest" "s' \<le> dfa_num_used_states d" "lab s' = lab s @ [c] @ pre"
        "\<forall>y. y \<noteq> [] \<longrightarrow> prefix y rest \<longrightarrow> lab s' @ y \<notin> P"
      by auto
    then show ?thesis
      by (intro exI [of _ "c # pre"]) simp
  next
    case False
    then have "st_G (dfa_root d s) c = AHO_FAIL"
      by (rule trieD(6) [OF t Cons.prems(1)])
    then have e: "s' = s" "rest = c # cs"
      using Cons.prems(2) by simp_all
    have "lab s @ y \<notin> P" if y: "y \<noteq> []" "prefix y (c # cs)" for y
    proof
      assume "lab s @ y \<in> P"
      moreover obtain z where "y = c # z"
        using y by (cases y) auto
      ultimately have "lab s @ [c] \<in> P"
        using P by (metis append.assoc append_Cons append_Nil prefix_closed_def)
      with False show False ..
    qed
    then show ?thesis
      using e Cons.prems(1) by (intro exI [of _ "[]"]) simp
  qed
qed

lemma trie_extend:
  assumes t: "trie lab P own d" and s: "s \<le> dfa_num_used_states d" and new: "lab s @ [c] \<notin> P" and cl: "prefix_closed P"
    and n: "n = dfa_num_used_states d + 1" "n \<le> AHO_MAX_STATES - 2" and own: "own (lab s @ [c]) = []"
  shows "trie (lab(n := lab s @ [c])) (insert (lab s @ [c]) P) own
    (d\<lparr>dfa_num_used_states := n, dfa_root := set_G s c n (dfa_root d)\<rparr>)"
proof -
  let ?l = "lab(n := lab s @ [c])" and ?m = "dfa_num_used_states d" and ?x = "lab s @ [c]"
  have m: "{0..n} = insert n {0..?m}"
    using n(1) by auto
  have img: "lab ` {0..?m} = P"
    by (rule trieD(4) [OF t])
  have ext: "?x @ [b] \<notin> P" for b
  proof
    assume "?x @ [b] \<in> P"
    then have "?x \<in> P" using cl unfolding prefix_closed_def by blast
    with new show False ..
  qed
  have nn: "n mod 2 ^ 16 = n" "n \<noteq> AHO_FAIL" "s \<noteq> n"
    using fail_big [OF n(2)] s n(1) by auto
  have neq: "lab u \<noteq> ?x" if "u \<le> ?m" for u
    using new imageI [of u "{0..?m}" lab] that unfolding img by auto
  have inj: "inj_on ?l {0..n}"
    using trieD(3) [OF t] neq neq [symmetric] n(1) unfolding m by (auto simp: inj_on_def)
  have im: "?l ` {0..n} = insert ?x P"
    unfolding m using img n(1) by auto
  have g: "if ?l u @ [b] \<in> insert ?x P
      then st_G (set_G s c n (dfa_root d) u) b \<le> n \<and> ?l (st_G (set_G s c n (dfa_root d) u) b) = ?l u @ [b]
      else st_G (set_G s c n (dfa_root d) u) b = AHO_FAIL" if u: "u \<le> n" for u b
  proof (cases "u = n")
    case True
    have "st_G (dfa_root d n) b = AHO_FAIL"
      using trieD(9) [OF t, of n] n(1) by simp
    then show ?thesis
      using True ext [of b] nn by simp
  next
    case False
    then have um: "u \<le> ?m"
      using u n(1) by simp
    show ?thesis
    proof (cases "u = s \<and> b = c")
      case True
      then show ?thesis
        using nn by simp
    next
      case nsc: False
      then have "st_G (set_G s c n (dfa_root d) u) b = st_G (dfa_root d u) b"
        by auto
      moreover have "lab u @ [b] \<noteq> ?x"
        using nsc inj_onD [OF trieD(3) [OF t], of u s] um s by auto
      ultimately show ?thesis
        using trieD(5,6) [OF t um, of b] False n(1) by auto
    qed
  qed
  have o: "outs (set_G s c n (dfa_root d)) u = own (?l u)" if "u \<le> n" for u
    using trieD(7) [OF t, of u] trieD(9) [OF t, of n] own that n(1) by auto
  have r: "st_G (set_G s c n (dfa_root d) u) = (\<lambda>_. AHO_FAIL) \<and> outs (set_G s c n (dfa_root d)) u = []" if "n < u" for u
    using trieD(9) [OF t, of u] that n(1) s by simp
  show ?thesis
    by (rule trieI [OF _ _ n(2) _ inj im g o _ r]) (use trieD(2,8) [OF t] n(1) in simp_all)
qed

lemma grow_spec:
  assumes "trie lab P own d" "prefix_closed P" "s \<le> dfa_num_used_states d"
    and "\<And>y. y \<noteq> [] \<Longrightarrow> prefix y rest \<Longrightarrow> lab s @ y \<notin> P" "\<And>x. x \<notin> P \<Longrightarrow> own x = []"
    and "dfa_num_used_states d + length rest \<le> AHO_MAX_STATES - 2"
  shows "\<exists>d' s' lab'. grow d s rest = Some (d', s') \<and> trie lab' (P \<union> {lab s @ y |y. prefix y rest}) own d'
    \<and> s' \<le> dfa_num_used_states d' \<and> lab' s' = lab s @ rest \<and> dfa_num_used_states d' = dfa_num_used_states d + length rest"
  using assms
proof (induction rest arbitrary: d s lab P)
  case Nil
  have "lab s \<in> P"
    using trieD(4) [OF Nil.prems(1)] Nil.prems(3) by auto
  then have "P \<union> {lab s @ y |y. prefix y []} = P" by auto
  with Nil show ?case by (auto intro!: exI [of _ lab])
next
  case (Cons c cs)
  let ?n = "dfa_num_used_states d + 1"
  let ?d = "d\<lparr>dfa_num_used_states := ?n, dfa_root := set_G s c ?n (dfa_root d)\<rparr>"
  let ?x = "lab s @ [c]"
  have new: "?x \<notin> P"
    using Cons.prems(4) [of "[c]"] by simp
  have n: "?n \<le> AHO_MAX_STATES - 2"
    using Cons.prems(6) by simp
  have t: "trie (lab(?n := ?x)) (insert ?x P) own ?d"
    by (rule trie_extend [OF Cons.prems(1,3) new Cons.prems(2) refl n Cons.prems(5) [OF new]])
  have ls: "lab s \<in> P"
    using trieD(4) [OF Cons.prems(1)] Cons.prems(3) by auto
  have cl: "prefix_closed (insert ?x P)"
    using Cons.prems(2) ls by (auto simp: prefix_closed_def append_eq_append_conv2 append_eq_Cons_conv) metis+
  have fresh: "?x @ y \<notin> insert ?x P" if "y \<noteq> []" "prefix y cs" for y
    using Cons.prems(4) [of "c # y"] that by simp
  have own: "own z = []" if "z \<notin> insert ?x P" for z
    using Cons.prems(5) that by simp
  from Cons.IH [OF t cl, of ?n] fresh own Cons.prems(6)
  obtain d' s' lab' where r: "grow ?d ?n cs = Some (d', s')" "trie lab' (insert ?x P \<union> {?x @ y |y. prefix y cs}) own d'"
      "s' \<le> dfa_num_used_states d'" "lab' s' = ?x @ cs" "dfa_num_used_states d' = ?n + length cs"
    by auto
  have e: "insert ?x P \<union> {?x @ y |y. prefix y cs} = P \<union> {lab s @ y |y. prefix y (c # cs)}"
  proof -
    have "{lab s @ y |y. prefix y (c # cs)} = insert (lab s) {?x @ y |y. prefix y cs}"
      by (auto simp: prefix_Cons)
    moreover have "?x \<in> {?x @ y |y. prefix y cs}"
      by auto
    ultimately show ?thesis
      using ls by auto
  qed
  have "grow d s (c # cs) = Some (d', s')"
    using r(1) n by (simp add: Let_def)
  with r e show ?case by auto
qed

text \<open>The prefixes of a list of patterns, and the patterns that end at a string.\<close>

definition prefs :: "(nat \<times> bytes) list \<Rightarrow> bytes set" where
  "prefs ps = insert [] {x. \<exists>(i, p) \<in> set ps. prefix x p}"

definition ends :: "(nat \<times> bytes) list \<Rightarrow> bytes \<Rightarrow> nat list" where
  "ends ps x = map fst (filter (\<lambda>(i, p). p = x) ps)"

lemma prefix_closed_prefs: "prefix_closed (prefs ps)"
  by (auto simp: prefix_closed_def prefs_def) (metis append_prefixD case_prodI)

lemma finite_prefs: "finite (prefs ps)"
proof -
  have "prefs ps = insert [] (\<Union>(i, p) \<in> set ps. set (prefixes p))"
    by (force simp: prefs_def)
  then show ?thesis by auto
qed

lemma prefs_snoc: "prefs (ps @ [(i, p)]) = prefs ps \<union> {y. prefix y p}"
  by (auto simp: prefs_def)

lemma ends_snoc: "ends (ps @ [(i, p)]) x = ends ps x @ (if p = x then [i] else [])"
  by (simp add: ends_def)

lemma ends_outside: "x \<notin> prefs ps \<Longrightarrow> ends ps x = []"
  by (auto simp: ends_def prefs_def filter_empty_conv)

lemma trie_card: "trie lab P own d \<Longrightarrow> card P = dfa_num_used_states d + 1"
  using card_image [OF trieD(3)] trieD(4) by fastforce

lemma add_pattern_spec:
  assumes t: "trie lab (prefs ps) (ends ps) d" and p: "p \<noteq> []" "length p \<le> 100000"
    and b: "card (prefs (ps @ [(i, p)])) \<le> AHO_MAX_STATES - 1"
  shows "\<exists>d' lab'. aho_add_pattern p i d = Some d' \<and> trie lab' (prefs (ps @ [(i, p)])) (ends (ps @ [(i, p)])) d'"
proof -
  let ?P = "prefs ps" and ?Q = "prefs (ps @ [(i, p)])"
  obtain s rest where r: "descend (dfa_root d) 0 p = (s, rest)" by fastforce
  from descend_spec [OF t prefix_closed_prefs _ r] trieD(2) [OF t] obtain pre where pre: "p = pre @ rest"
      "s \<le> dfa_num_used_states d" "lab s = pre" "\<And>y. y \<noteq> [] \<Longrightarrow> prefix y rest \<Longrightarrow> lab s @ y \<notin> ?P"
    by auto
  have "pre \<in> ?P"
    using trieD(4) [OF t] pre(2,3) by auto
  then have "z \<in> ?P" if "prefix z pre" for z
    using that prefix_closed_prefs [of ps] unfolding prefix_closed_def prefix_def by blast
  then have Q: "?P \<union> {lab s @ y |y. prefix y rest} = ?Q"
    using pre(1,3) by (auto simp: prefs_snoc prefix_append)
  have "{lab s @ y |y. y \<noteq> [] \<and> prefix y rest} = (\<lambda>y. lab s @ y) ` (set (prefixes rest) - {[]})"
    by auto
  moreover have "inj_on (\<lambda>y. lab s @ y) X" for X
    by (auto simp: inj_on_def)
  ultimately have c: "card {lab s @ y |y. y \<noteq> [] \<and> prefix y rest} = length rest"
    by (simp add: card_image card_Diff_singleton distinct_card)
  let ?N = "{lab s @ y |y. y \<noteq> [] \<and> prefix y rest}"
  have q: "?Q = ?P \<union> ?N"
    unfolding Q [symmetric] using \<open>pre \<in> ?P\<close> pre(3) by auto
  have "?P \<inter> ?N = {}"
    using pre(4) by blast
  moreover have "finite ?N"
    by (rule finite_subset [OF _ finite_prefs [of "ps @ [(i, p)]"]]) (simp only: q Un_upper2)
  ultimately have "card ?Q = card ?P + length rest"
    unfolding q using c card_Un_disjoint [OF finite_prefs [of ps], of ?N] by simp
  then have room: "dfa_num_used_states d + length rest \<le> AHO_MAX_STATES - 2"
    using b trie_card [OF t] by (simp add: AHO_MAX_STATES_def)
  from grow_spec [OF t prefix_closed_prefs pre(2) pre(4) ends_outside room] obtain d' s' lab' where
      g: "grow d s rest = Some (d', s')" "trie lab' ?Q (ends ps) d'" "s' \<le> dfa_num_used_states d'" "lab' s' = p"
    unfolding Q using pre(1,3) by auto
  have s0: "s' \<noteq> 0"
    using trieD(2) [OF g(2)] g(4) p(1) by metis
  have lab: "lab' u = p \<longleftrightarrow> u = s'" if "u \<le> dfa_num_used_states d'" for u
    using inj_onD [OF trieD(3) [OF g(2)], of u s'] that g(3,4) by auto
  have "trie lab' ?Q (ends (ps @ [(i, p)])) (d'\<lparr>dfa_root := add_output s' i (dfa_root d')\<rparr>)"
  proof (rule trieI [OF refl refl])
    show "outs (dfa_root (d'\<lparr>dfa_root := add_output s' i (dfa_root d')\<rparr>)) u = ends (ps @ [(i, p)]) (lab' u)"
      if "u \<le> dfa_num_used_states (d'\<lparr>dfa_root := add_output s' i (dfa_root d')\<rparr>)" for u
      using trieD(7) [OF g(2), of u] lab [of u] that by (cases "u = s'") (auto simp: ends_snoc)
  qed (use trieD(1-6,8,9) [OF g(2)] g(3) in auto)
  moreover have "aho_add_pattern p i d = Some (d'\<lparr>dfa_root := add_output s' i (dfa_root d')\<rparr>)"
    using p(2) r g(1) s0 by (simp add: aho_add_pattern_def)
  ultimately show ?thesis by blast
qed

lemma add_patterns_spec:
  assumes "trie lab (prefs qs) (ends qs) d" "\<forall>(i, p) \<in> set ps. p \<noteq> [] \<and> length p \<le> 100000"
    and "card (prefs (qs @ ps)) \<le> AHO_MAX_STATES - 1"
  shows "\<exists>d' lab'. add_patterns ps d = Some d' \<and> trie lab' (prefs (qs @ ps)) (ends (qs @ ps)) d'"
  using assms
proof (induction ps arbitrary: qs d lab)
  case (Cons x ps)
  obtain i p where x: "x = (i, p)" by fastforce
  have "prefs (qs @ [(i, p)]) \<subseteq> prefs (qs @ x # ps)"
    by (auto simp: prefs_def x)
  from card_mono [OF finite_prefs this] Cons.prems(3) have "card (prefs (qs @ [(i, p)])) \<le> AHO_MAX_STATES - 1"
    by simp
  from add_pattern_spec [OF Cons.prems(1) _ _ this] Cons.prems(2) obtain d1 lab1 where
      d1: "aho_add_pattern p i d = Some d1" "trie lab1 (prefs (qs @ [(i, p)])) (ends (qs @ [(i, p)])) d1"
    by (auto simp: x)
  from Cons.IH [OF d1(2)] Cons.prems(2,3) d1(1) show ?case
    by (auto simp: x)
qed auto

section \<open>The failure function\<close>

text \<open>
  The table during the later phases: a transition that is there leads to the longest suffix, the
  others are missing in the trie; the root has all of them.
\<close>

definition gtab :: "(nat \<Rightarrow> bytes) \<Rightarrow> bytes set \<Rightarrow> nat \<Rightarrow> (nat \<Rightarrow> aho_state) \<Rightarrow> bool" where
  "gtab lab P n st \<longleftrightarrow> (\<forall>s \<le> n. \<forall>c. if st_G (st s) c = AHO_FAIL then s \<noteq> 0 \<and> lab s @ [c] \<notin> P
    else st_G (st s) c \<le> n \<and> lab (st_G (st s) c) = lsuf P (lab s @ [c]))"

definition ff_ok :: "(nat \<Rightarrow> bytes) \<Rightarrow> bytes set \<Rightarrow> nat \<Rightarrow> (nat \<Rightarrow> aho_state) \<Rightarrow> nat \<Rightarrow> bool" where
  "ff_ok lab P n st s \<longleftrightarrow> st_F (st s) \<le> n \<and> lab (st_F (st s)) = lsuf P (tl (lab s))"

lemma lsuf_shorter: "length (lsuf P w) \<le> length w"
  using suffix_length_le [OF lsuf_suffix] .

text \<open>Following failures ends, at a state whose transition is the right one.\<close>

lemma follow_spec:
  assumes g: "gtab lab P n st" and P: "prefix_closed P" and n: "n \<le> AHO_MAX_STATES - 2" and l: "lab 0 = []" "inj_on lab {0..n}"
    and f: "\<And>s. s \<le> n \<Longrightarrow> s \<noteq> 0 \<Longrightarrow> length (lab s) \<le> k \<Longrightarrow> ff_ok lab P n st s"
    and s: "s \<le> n" "length (lab s) \<le> k"
  shows "\<exists>t. follow st c s = Some t \<and> t \<le> n \<and> st_G (st t) c \<noteq> AHO_FAIL \<and> st_G (st t) c \<le> n \<and> lab (st_G (st t) c) = lsuf P (lab s @ [c])"
  using s
proof (induction "length (lab s)" arbitrary: s rule: less_induct)
  case less
  have b: "s < AHO_MAX_STATES"
    using less.prems(1) fail_big [OF n] by simp
  show ?case
  proof (cases "st_G (st s) c = AHO_FAIL")
    case False
    then show ?thesis
      using g less.prems(1) b by (auto simp: gtab_def follow.simps [of st c s])
  next
    case True
    then have s: "s \<noteq> 0" "lab s @ [c] \<notin> P"
      using g less.prems(1) by (auto simp: gtab_def)
    then have ne: "lab s \<noteq> []"
      using l inj_onD [OF l(2), of s 0] less.prems(1) by auto
    let ?t = "st_F (st s)"
    have t: "?t \<le> n" "lab ?t = lsuf P (tl (lab s))"
      using f [OF less.prems(1) s(1) less.prems(2)] by (auto simp: ff_ok_def)
    have len: "length (lab ?t) < length (lab s)"
      using lsuf_shorter [of P "tl (lab s)"] ne t(2) by (cases "lab s") auto
    from less.hyps [OF len t(1)] len less.prems(2) obtain u where "follow st c ?t = Some u" "u \<le> n" "st_G (st u) c \<noteq> AHO_FAIL"
        "st_G (st u) c \<le> n" "lab (st_G (st u) c) = lsuf P (lab ?t @ [c])"
      by auto
    moreover have "lsuf P (lab ?t @ [c]) = lsuf P (lab s @ [c])"
      using lsuf_fail [OF P s(2) ne] t(2) by simp
    ultimately show ?thesis
      using b True by (simp add: follow.simps [of st c s])
  qed
qed

text \<open>The patterns that end at a string are those equal to it and those that end at its failure.\<close>

definition matches :: "(nat \<times> bytes) list \<Rightarrow> bytes \<Rightarrow> nat list" where
  "matches ps w = map fst (filter (\<lambda>(i, p). suffix p w) ps)"

lemma pattern_in_prefs: "(i, p) \<in> set ps \<Longrightarrow> p \<in> prefs ps"
  by (auto simp: prefs_def)

lemma matches_lsuf: "matches ps (lsuf (prefs ps) w) = matches ps w"
proof -
  have "suffix p (lsuf (prefs ps) w) \<longleftrightarrow> suffix p w" if "(i, p) \<in> set ps" for i p
    using lsuf_longest [OF _ pattern_in_prefs [OF that], of w] lsuf_suffix suffix_order.trans by blast
  then show ?thesis
    by (auto simp: matches_def intro!: arg_cong [of _ _ "map fst"] filter_cong)
qed

lemma matches_fail:
  assumes "x \<noteq> []"
  shows "mset (matches ps x) = mset (ends ps x) + mset (matches ps (lsuf (prefs ps) (tl x)))"
proof -
  have "mset (matches ps x) = mset (ends ps x) + mset (matches ps (tl x))"
  proof (induction ps)
    case (Cons q ps)
    have "suffix p x \<longleftrightarrow> p = x \<or> suffix p (tl x)" "\<not> suffix x (tl x)" for p
      using assms by (cases x; auto simp: suffix_Cons dest: suffix_length_le)+
    with Cons show ?case
      by (cases q) (auto simp: matches_def ends_def)
  qed (simp add: matches_def ends_def)
  then show ?thesis by (simp add: matches_lsuf)
qed

text \<open>Labels of the states, and the table between the phases: the trie with loops at the root.\<close>

definition labels :: "(nat \<Rightarrow> bytes) \<Rightarrow> bytes set \<Rightarrow> nat \<Rightarrow> bool" where
  "labels lab P n \<longleftrightarrow> n \<le> AHO_MAX_STATES - 2 \<and> lab 0 = [] \<and> inj_on lab {0..n} \<and> lab ` {0..n} = P \<and> prefix_closed P"

definition gtree :: "(nat \<Rightarrow> bytes) \<Rightarrow> bytes set \<Rightarrow> nat \<Rightarrow> (nat \<Rightarrow> aho_state) \<Rightarrow> bool" where
  "gtree lab P n st \<longleftrightarrow> (\<forall>s \<le> n. \<forall>c. if lab s @ [c] \<in> P then st_G (st s) c \<le> n \<and> lab (st_G (st s) c) = lab s @ [c]
    else st_G (st s) c = (if s = 0 then 0 else AHO_FAIL))"

lemma labelsD:
  assumes "labels lab P n"
  shows "n \<le> AHO_MAX_STATES - 2" "lab 0 = []" "inj_on lab {0..n}" "lab ` {0..n} = P" "prefix_closed P"
    "s \<le> n \<Longrightarrow> t \<le> n \<Longrightarrow> lab s = lab t \<Longrightarrow> s = t" "s \<le> n \<Longrightarrow> lab s = [] \<Longrightarrow> s = 0" "s \<le> n \<Longrightarrow> lab s \<in> P"
    "n \<noteq> AHO_FAIL" "s \<le> n \<Longrightarrow> s < AHO_MAX_STATES" "s \<le> n \<Longrightarrow> s mod 2 ^ 16 = s" "s \<le> n \<Longrightarrow> s \<noteq> AHO_FAIL"
proof -
  show *: "n \<le> AHO_MAX_STATES - 2" "lab 0 = []" "inj_on lab {0..n}" "lab ` {0..n} = P" "prefix_closed P"
    using assms by (simp_all add: labels_def)
  show "s \<le> n \<Longrightarrow> t \<le> n \<Longrightarrow> lab s = lab t \<Longrightarrow> s = t"
    using inj_onD [OF *(3)] by simp
  show "s \<le> n \<Longrightarrow> lab s = [] \<Longrightarrow> s = 0"
    using inj_onD [OF *(3), of s 0] *(2) by simp
  show "s \<le> n \<Longrightarrow> lab s \<in> P"
    using *(4) by auto
  show "n \<noteq> AHO_FAIL" "s \<le> n \<Longrightarrow> s < AHO_MAX_STATES" "s \<le> n \<Longrightarrow> s mod 2 ^ 16 = s" "s \<le> n \<Longrightarrow> s \<noteq> AHO_FAIL"
    using *(1) fail_big [of s] fail_big [of n] by auto
qed

lemma gtreeD:
  assumes "gtree lab P n st" "s \<le> n"
  shows "lab s @ [c] \<in> P \<Longrightarrow> st_G (st s) c \<le> n \<and> lab (st_G (st s) c) = lab s @ [c]"
    "lab s @ [c] \<notin> P \<Longrightarrow> st_G (st s) c = (if s = 0 then 0 else AHO_FAIL)"
  using assms unfolding gtree_def by (metis)+

lemma gtree_gtab:
  assumes "gtree lab P n st" "labels lab P n"
  shows "gtab lab P n st"
  unfolding gtab_def
proof (intro allI impI)
  fix s c assume s: "s \<le> n"
  show "if st_G (st s) c = AHO_FAIL then s \<noteq> 0 \<and> lab s @ [c] \<notin> P
      else st_G (st s) c \<le> n \<and> lab (st_G (st s) c) = lsuf P (lab s @ [c])"
  proof (cases "lab s @ [c] \<in> P")
    case True
    then show ?thesis
      using gtreeD(1) [OF assms(1) s True] labelsD(12) [OF assms(2), of "st_G (st s) c"] by (simp add: lsuf_self)
  next
    case False
    then show ?thesis
      using gtreeD(2) [OF assms(1) s False] labelsD(2) [OF assms(2)] labelsD(12) [OF assms(2), of 0]
      by (cases "s = 0") auto
  qed
qed

lemma fold_add_output [simp]:
  "st_G (fold (add_output s) xs st t) = st_G (st t)" "st_F (fold (add_output s) xs st t) = st_F (st t)"
  "outs (fold (add_output s) xs st) t = (if t = s then outs st t @ xs else outs st t)"
  "q_ok (st_output (fold (add_output s) xs st t)) = q_ok (st_output (st t))"
  by (induction xs arbitrary: st) simp_all

text \<open>
  The traversal: \<open>pp\<close> are the states taken from the queue (the root first), \<open>bs\<close> the bytes whose
  transitions from the current state \<open>cur\<close> have not been looked at yet.
\<close>

definition reached :: "(nat \<Rightarrow> aho_state) \<Rightarrow> nat list \<Rightarrow> nat \<Rightarrow> u8 list \<Rightarrow> nat set" where
  "reached st pp cur bs = insert 0 {st_G (st p) c |p c. p \<in> set pp \<and> st_G (st p) c \<noteq> AHO_FAIL \<and> \<not> (p = cur \<and> c \<in> set bs)}"

definition bfs :: "(nat \<Rightarrow> bytes) \<Rightarrow> (nat \<times> bytes) list \<Rightarrow> nat \<Rightarrow> (nat \<Rightarrow> aho_state) \<Rightarrow> nat list \<Rightarrow> ds_queue \<Rightarrow> nat \<Rightarrow> u8 list \<Rightarrow> bool" where
  "bfs lab ps n st pp q cur bs \<longleftrightarrow> gtree lab (prefs ps) n st \<and> q_ok q \<and> (\<forall>s. q_ok (st_output (st s)))
    \<and> distinct (pp @ dq_data q) \<and> 0 \<in> set pp \<and> cur \<in> set pp \<and> set (pp @ dq_data q) \<subseteq> {0..n}
    \<and> set (pp @ dq_data q) = reached st pp cur bs
    \<and> sorted (map (\<lambda>s. length (lab s)) (dq_data q))
    \<and> (\<forall>t \<in> set (dq_data q). length (lab cur) \<le> length (lab t) \<and> length (lab t) \<le> length (lab cur) + 1)
    \<and> (\<forall>s \<le> n. if s \<in> set (pp @ dq_data q) then (s \<noteq> 0 \<longrightarrow> ff_ok lab (prefs ps) n st s) \<and> mset (outs st s) = mset (matches ps (lab s))
        else outs st s = ends ps (lab s))"

lemma bfsD:
  assumes "bfs lab ps n st pp q cur bs"
  shows "gtree lab (prefs ps) n st" "q_ok q" "q_ok (st_output (st s))"
    "distinct (pp @ dq_data q)" "0 \<in> set pp" "cur \<in> set pp" "set (pp @ dq_data q) \<subseteq> {0..n}"
    "set (pp @ dq_data q) = reached st pp cur bs" "sorted (map (\<lambda>s. length (lab s)) (dq_data q))"
    "t \<in> set (dq_data q) \<Longrightarrow> length (lab cur) \<le> length (lab t) \<and> length (lab t) \<le> length (lab cur) + 1"
    "s \<le> n \<Longrightarrow> s \<in> set (pp @ dq_data q) \<Longrightarrow> (s \<noteq> 0 \<longrightarrow> ff_ok lab (prefs ps) n st s) \<and> mset (outs st s) = mset (matches ps (lab s))"
    "s \<le> n \<Longrightarrow> s \<notin> set (pp @ dq_data q) \<Longrightarrow> outs st s = ends ps (lab s)"
proof -
  from assms have *: "gtree lab (prefs ps) n st" "q_ok q" "\<forall>s. q_ok (st_output (st s))"
    "distinct (pp @ dq_data q)" "0 \<in> set pp" "cur \<in> set pp" "set (pp @ dq_data q) \<subseteq> {0..n}"
    "set (pp @ dq_data q) = reached st pp cur bs" "sorted (map (\<lambda>s. length (lab s)) (dq_data q))"
    "\<forall>t \<in> set (dq_data q). length (lab cur) \<le> length (lab t) \<and> length (lab t) \<le> length (lab cur) + 1"
    "\<forall>s \<le> n. if s \<in> set (pp @ dq_data q) then (s \<noteq> 0 \<longrightarrow> ff_ok lab (prefs ps) n st s) \<and> mset (outs st s) = mset (matches ps (lab s))
        else outs st s = ends ps (lab s)"
    unfolding bfs_def by - (elim conjE, assumption)+
  show "gtree lab (prefs ps) n st" "q_ok q" "distinct (pp @ dq_data q)" "0 \<in> set pp" "cur \<in> set pp" "set (pp @ dq_data q) \<subseteq> {0..n}"
    "set (pp @ dq_data q) = reached st pp cur bs" "sorted (map (\<lambda>s. length (lab s)) (dq_data q))"
    by (fact *)+
  show "q_ok (st_output (st s))"
    "t \<in> set (dq_data q) \<Longrightarrow> length (lab cur) \<le> length (lab t) \<and> length (lab t) \<le> length (lab cur) + 1"
    using *(3,10) by blast+
  show "s \<le> n \<Longrightarrow> s \<in> set (pp @ dq_data q) \<Longrightarrow> (s \<noteq> 0 \<longrightarrow> ff_ok lab (prefs ps) n st s) \<and> mset (outs st s) = mset (matches ps (lab s))"
    "s \<le> n \<Longrightarrow> s \<notin> set (pp @ dq_data q) \<Longrightarrow> outs st s = ends ps (lab s)"
    using *(11) by metis+
qed

lemma parent_state:
  assumes "labels lab P n" "s \<le> n" "s \<noteq> 0"
  shows "\<exists>p c. p \<le> n \<and> lab s = lab p @ [c]"
proof -
  obtain x c where x: "lab s = x @ [c]"
    using labelsD(7) [OF assms(1,2)] assms(3) by (cases "lab s" rule: rev_cases) auto
  then have "x \<in> P"
    using labelsD(5,8) [OF assms(1)] assms(2) unfolding prefix_closed_def by metis
  then obtain p where "p \<le> n" "lab p = x"
    using labelsD(4) [OF assms(1)] by auto
  with x show ?thesis by auto
qed

lemma tree_child:
  assumes "gtree lab P n st" "labels lab P n" "p \<le> n" "s \<le> n" "lab s = lab p @ [c]"
  shows "st_G (st p) c = s" "s \<noteq> AHO_FAIL"
  using gtreeD(1) [OF assms(1,3), of c] labelsD(6) [OF assms(2), of "st_G (st p) c" s] labelsD(8) [OF assms(2,4)]
    labelsD(12) [OF assms(2,4)] assms by auto

text \<open>All states of a level are reached before the next level is.\<close>

lemma level_reached:
  assumes L: "labels lab (prefs ps) n" and b: "bfs lab ps n st pp q cur bs" and s: "s \<le> n"
    and d: "length (lab s) \<le> length (lab cur) \<or> dq_data q = [] \<and> bs = []"
  shows "s \<in> set (pp @ dq_data q)"
  using s d
proof (induction "length (lab s)" arbitrary: s rule: less_induct)
  case less
  show ?case
  proof (cases "s = 0")
    case True
    then show ?thesis
      using bfsD(5) [OF b] by simp
  next
    case False
    obtain p c where p: "p \<le> n" "lab s = lab p @ [c]"
      using parent_state [OF L less.prems(1) False] by blast
    have "p \<in> set (pp @ dq_data q)"
      using less.hyps [of p] p less.prems(2) by auto
    then have "p \<in> set pp"
      using bfsD(10) [OF b, of p] p(2) less.prems(2) by auto
    moreover have "\<not> (p = cur \<and> c \<in> set bs)"
      using p(2) less.prems(2) by auto
    ultimately have "st_G (st p) c \<in> reached st pp cur bs"
      using tree_child [OF bfsD(1) [OF b] L p(1) less.prems(1) p(2)] by (auto simp: reached_def)
    then show ?thesis
      using tree_child(1) [OF bfsD(1) [OF b] L p(1) less.prems(1) p(2)] bfsD(8) [OF b] by simp
  qed
qed

lemma reached_cong: "(\<And>s. st_G (st' s) = st_G (st s)) \<Longrightarrow> reached st' pp cur bs = reached st pp cur bs"
  by (simp add: reached_def)

lemma gtree_cong: "(\<And>s. st_G (st' s) = st_G (st s)) \<Longrightarrow> gtree lab P n st' = gtree lab P n st"
  by (simp add: gtree_def)

lemma reached_step:
  "cur \<in> set pp \<Longrightarrow> reached st pp cur bs = (if st_G (st cur) c = AHO_FAIL then reached st pp cur (c # bs)
    else insert (st_G (st cur) c) (reached st pp cur (c # bs)))" if "c \<notin> set bs"
  using that by (auto simp: reached_def)

text \<open>A child that is not yet reached gets its failure state and outputs, and joins the queue.\<close>

lemma bfs_child:
  assumes L: "labels lab (prefs ps) n" and b: "bfs lab ps n st pp q cur (c # bs)" and c: "c \<notin> set bs"
    and k: "child = st_G (st cur) c" "child \<le> n" "child \<notin> set (pp @ dq_data q)" "lab child = lab cur @ [c]"
    and f: "st_F (st' child) \<le> n" "lab (st_F (st' child)) = lsuf (prefs ps) (tl (lab child))"
    and same: "\<And>s. st_G (st' s) = st_G (st s)" "\<And>s. s \<noteq> child \<Longrightarrow> st_F (st' s) = st_F (st s) \<and> outs st' s = outs st s"
    and o: "mset (outs st' child) = mset (matches ps (lab child))" "\<And>s. q_ok (st_output (st' s))"
  shows "bfs lab ps n st' pp (ds_queue_add child q) cur bs"
  unfolding bfs_def
proof (intro conjI)
  have nf: "child \<noteq> AHO_FAIL"
    using labelsD(12) [OF L k(2)] .
  show "gtree lab (prefs ps) n st'"
    using bfsD(1) [OF b] gtree_cong [OF same(1)] by simp
  show "q_ok (ds_queue_add child q)" "\<forall>s. q_ok (st_output (st' s))" "distinct (pp @ dq_data (ds_queue_add child q))"
    "0 \<in> set pp" "cur \<in> set pp" "set (pp @ dq_data (ds_queue_add child q)) \<subseteq> {0..n}"
    using bfsD(2-7) [OF b] o(2) k(2,3) by auto
  have "set (pp @ dq_data (ds_queue_add child q)) = insert child (set (pp @ dq_data q))"
    by auto
  also have "\<dots> = reached st' pp cur bs"
    unfolding reached_cong [OF same(1)] reached_step [OF c bfsD(6) [OF b]] bfsD(8) [OF b] using k(1) nf by simp
  finally show "set (pp @ dq_data (ds_queue_add child q)) = reached st' pp cur bs" .
  show "sorted (map (\<lambda>s. length (lab s)) (dq_data (ds_queue_add child q)))"
    using bfsD(9) [OF b] bfsD(10) [OF b] k(4) by (auto simp: sorted_append)
  show "\<forall>t \<in> set (dq_data (ds_queue_add child q)). length (lab cur) \<le> length (lab t) \<and> length (lab t) \<le> length (lab cur) + 1"
    using bfsD(10) [OF b] k(4) by auto
  show "\<forall>s \<le> n. if s \<in> set (pp @ dq_data (ds_queue_add child q))
      then (s \<noteq> 0 \<longrightarrow> ff_ok lab (prefs ps) n st' s) \<and> mset (outs st' s) = mset (matches ps (lab s)) else outs st' s = ends ps (lab s)"
  proof (intro allI impI)
    fix s assume s: "s \<le> n"
    show "if s \<in> set (pp @ dq_data (ds_queue_add child q))
      then (s \<noteq> 0 \<longrightarrow> ff_ok lab (prefs ps) n st' s) \<and> mset (outs st' s) = mset (matches ps (lab s)) else outs st' s = ends ps (lab s)"
    proof (cases "s = child")
      case True
      then show ?thesis
        using f o(1) by (simp add: ff_ok_def)
    next
      case False
      then show ?thesis
        using bfsD(11,12) [OF b s] same(2) [OF False] by (auto simp: ff_ok_def)
    qed
  qed
qed

lemma child_fresh:
  assumes L: "labels lab (prefs ps) n" and b: "bfs lab ps n st pp q cur (c # bs)"
    and k: "child \<le> n" "lab child = lab cur @ [c]"
  shows "child \<notin> set (pp @ dq_data q)"
proof
  assume "child \<in> set (pp @ dq_data q)"
  then have r: "child \<in> reached st pp cur (c # bs)"
    unfolding bfsD(8) [OF b] .
  have "child \<noteq> 0"
    using k(2) labelsD(2) [OF L] by (cases child) auto
  with r obtain p c' where p: "p \<in> set pp" "child = st_G (st p) c'" "\<not> (p = cur \<and> c' \<in> set (c # bs))"
    unfolding reached_def by blast
  have pn: "p \<le> n" "cur \<le> n"
    using p(1) bfsD(6,7) [OF b] by auto
  have "lab p @ [c'] \<in> prefs ps"
  proof (rule ccontr)
    assume "lab p @ [c'] \<notin> prefs ps"
    from gtreeD(2) [OF bfsD(1) [OF b] pn(1) this] p(2) \<open>child \<noteq> 0\<close> labelsD(12) [OF L k(1)] show False
      by (simp split: if_splits)
  qed
  from gtreeD(1) [OF bfsD(1) [OF b] pn(1) this] p(2) k(2) have "lab p = lab cur" "c' = c"
    by simp_all
  with labelsD(6) [OF L pn] p(3) show False by simp
qed

lemma bfs_skip:
  assumes "bfs lab ps n st pp q cur (c # bs)" "c \<notin> set bs" "st_G (st cur) c = AHO_FAIL \<or> st_G (st cur) c = 0"
  shows "bfs lab ps n st pp q cur bs"
proof -
  have "reached st pp cur bs = reached st pp cur (c # bs)"
    using reached_step [OF assms(2) bfsD(6) [OF assms(1)], of st] assms(3) by (auto simp: reached_def)
  from this [symmetric] show ?thesis
    using assms(1) unfolding bfs_def by (elim conjE) (intro conjI, assumption+, simp only:, assumption+)
qed

lemma ff_child_spec:
  assumes L: "labels lab (prefs ps) n" and b: "bfs lab ps n st pp q cur (c # bs)" and c: "c \<notin> set bs" and cur: "cur \<noteq> 0"
  shows "\<exists>st' q'. ff_child cur c st q = Some (st', q') \<and> bfs lab ps n st' pp q' cur bs \<and> (\<forall>s. st_G (st' s) = st_G (st s))"
proof -
  let ?P = "prefs ps"
  have cn: "cur \<le> n"
    using bfsD(6,7) [OF b] by auto
  note g = bfsD(1) [OF b]
  show ?thesis
  proof (cases "lab cur @ [c] \<in> ?P")
    case False
    then have "st_G (st cur) c = AHO_FAIL"
      using gtreeD(2) [OF g cn False] cur by simp
    then show ?thesis
      using bfs_skip [OF b c] by (simp add: ff_child_def)
  next
    case True
    let ?child = "st_G (st cur) c"
    have k: "?child \<le> n" "lab ?child = lab cur @ [c]"
      using gtreeD(1) [OF g cn True] by auto
    note fresh = child_fresh [OF L b k]
    have ne: "lab cur \<noteq> []"
      using labelsD(7) [OF L cn] cur by blast
    have all: "ff_ok lab ?P n st s" if "s \<le> n" "s \<noteq> 0" "length (lab s) \<le> length (lab cur)" for s
      using bfsD(11) [OF b that(1)] level_reached [OF L b that(1)] that(2,3) by auto
    let ?f = "st_F (st cur)"
    have f: "?f \<le> n" "lab ?f = lsuf ?P (tl (lab cur))"
      using all [OF cn cur] by (auto simp: ff_ok_def)
    have "length (lab ?f) \<le> length (lab cur)"
      using lsuf_shorter [of ?P "tl (lab cur)"] f(2) by simp
    from follow_spec [OF gtree_gtab [OF g L] labelsD(5) [OF L] labelsD(1-3) [OF L] all f(1) this, of c]
    obtain best where best: "follow st c ?f = Some best" "best \<le> n" "st_G (st best) c \<le> n" "lab (st_G (st best) c) = lsuf ?P (lab ?f @ [c])"
      by blast
    let ?fail = "st_G (st best) c"
    have lf: "lab ?fail = lsuf ?P (tl (lab ?child))"
      unfolding best(4) f(2) lsuf_step [OF labelsD(5) [OF L]] k(2) using ne by simp
    have short: "length (lab ?fail) \<le> length (lab cur)"
      using lsuf_shorter [of ?P "tl (lab ?child)"] lf k(2) by simp
    have nc: "?fail \<noteq> ?child"
      using short k(2) by auto
    have fr: "mset (outs st ?fail) = mset (matches ps (lab ?fail))"
      using bfsD(11) [OF b best(3)] level_reached [OF L b best(3)] short by blast
    let ?st = "fold (add_output ?child) (outs st ?fail) (set_F ?child ?fail st)"
    have e: "ff_child cur c st q = Some (?st, ds_queue_add ?child q)"
      using labelsD(10,12) [OF L k(1)] labelsD(10) [OF L best(3)] best(1) nc by (simp add: ff_child_def Let_def)
    have "mset (outs ?st ?child) = mset (matches ps (lab ?child))"
      using matches_fail [of "lab ?child" ps] bfsD(12) [OF b k(1) fresh] fr k(2) lf by simp
    from bfs_child [OF L b c refl k(1) fresh k(2), of ?st] this have "bfs lab ps n ?st pp (ds_queue_add ?child q) cur bs"
      using best(3) lf labelsD(11) [OF L best(3)] bfsD(3) [OF b] by simp
    with e show ?thesis by auto
  qed
qed

lemma ff_children_spec:
  assumes "labels lab (prefs ps) n" "bfs lab ps n st pp q cur bs" "distinct bs" "cur \<noteq> 0"
  shows "\<exists>st' q'. ff_children cur bs st q = Some (st', q') \<and> bfs lab ps n st' pp q' cur []"
  using assms(2,3)
proof (induction bs arbitrary: st q)
  case (Cons c bs)
  from ff_child_spec [OF assms(1) Cons.prems(1) _ assms(4)] Cons.prems(2) obtain st' q' where
      "ff_child cur c st q = Some (st', q')" "bfs lab ps n st' pp q' cur bs"
    by auto
  with Cons.IH [of st' q'] Cons.prems(2) show ?case by auto
qed auto

lemma root_children_spec:
  assumes L: "labels lab (prefs ps) n" and ps: "\<forall>(i, p) \<in> set ps. p \<noteq> []"
    and b: "bfs lab ps n st [0] q 0 bs" and d: "distinct bs"
  shows "\<exists>st' q'. root_children bs st q = Some (st', q') \<and> bfs lab ps n st' [0] q' 0 []"
  using b d
proof (induction bs arbitrary: st q)
  case (Cons c bs)
  have c: "c \<notin> set bs" "distinct bs"
    using Cons.prems(2) by auto
  note b = Cons.prems(1) and g = bfsD(1) [OF Cons.prems(1)]
  let ?next = "st_G (st 0) c"
  show ?case
  proof (cases "lab 0 @ [c] \<in> prefs ps")
    case False
    then have "?next = 0"
      using gtreeD(2) [OF g _ False] by simp
    then show ?thesis
      using Cons.IH [OF bfs_skip [OF b c(1)] c(2)] by simp
  next
    case True
    have k: "?next \<le> n" "lab ?next = lab 0 @ [c]"
      using gtreeD(1) [OF g _ True] by auto
    note fresh = child_fresh [OF L b k]
    have "?next \<noteq> 0"
      using k(2) labelsD(2) [OF L] by (metis append_is_Nil_conv not_Cons_self2)
    then have e: "root_children (c # bs) st q = root_children bs (set_F ?next 0 st) (ds_queue_add ?next q)"
      using labelsD(10) [OF L k(1)] by (simp add: Let_def)
    have "matches ps [] = []"
      using ps by (auto simp: matches_def filter_empty_conv)
    then have "mset (outs st ?next) = mset (matches ps (lab ?next))"
      using matches_fail [of "lab ?next" ps] bfsD(12) [OF b k(1) fresh] k(2) labelsD(2) [OF L] by simp
    from bfs_child [OF L b c(1) refl k(1) fresh k(2), of "set_F ?next 0 st"] this
    have "bfs lab ps n (set_F ?next 0 st) [0] (ds_queue_add ?next q) 0 bs"
      using bfsD(3) [OF b] labelsD(2) [OF L] k(2) by simp
    from Cons.IH [OF this c(2)] e show ?thesis by simp
  qed
qed auto

lemma all_bytes_all: "distinct all_bytes" "set all_bytes = UNIV"
proof -
  have "inj_on (of_nat :: nat \<Rightarrow> u8) {0..<256}"
    by (rule inj_onI) (simp add: word_of_nat_eq_iff take_bit_nat_eq_self)
  then show "distinct all_bytes"
    by (simp add: all_bytes_def distinct_map)
  show "set all_bytes = UNIV"
  proof -
    have "b \<in> of_nat ` {0..<256}" for b :: u8
      using unsigned_less [where 'a = nat, of b] by (intro image_eqI [of _ _ "unat b"]) auto
    then show ?thesis
      by (auto simp: all_bytes_def)
  qed
qed

lemma ff_traverse_spec:
  assumes L: "labels lab (prefs ps) n" and b: "bfs lab ps n st pp q cur []"
  shows "\<exists>st' pp' cur'. ff_traverse st q = Some st' \<and> bfs lab ps n st' pp' ds_queue_init cur' []"
  using b
proof (induction "n + 1 - length pp" arbitrary: st pp q cur rule: less_induct)
  case less
  note b = less.prems
  show ?case
  proof (cases "dq_data q")
    case Nil
    then have q: "q = ds_queue_init" "ds_queue_is_empty q"
      using bfsD(2) [OF b] by (auto simp: q_ok_def ds_queue_init_def ds_queue_is_empty_def)
    have "ff_traverse st q = Some st"
      using q(2) by (simp add: ff_traverse.simps [of st q])
    with q(1) b show ?thesis by auto
  next
    case (Cons x rest)
    let ?q = "\<lparr>dq_data = rest, dq_count = dq_count q - 1\<rparr>"
    have q: "\<not> ds_queue_is_empty q" "ds_queue_remove q = Some (x, ?q)" "q_ok ?q"
      using bfsD(2) [OF b] Cons by (auto simp: q_ok_def ds_queue_is_empty_def ds_queue_remove_def Let_def)
    have xn: "x \<le> n"
      using bfsD(7) [OF b] Cons by auto
    have x0: "x \<noteq> 0"
      using bfsD(4,5) [OF b] Cons by auto
    have r: "reached st (pp @ [x]) x all_bytes = reached st pp cur []"
      using bfsD(4) [OF b] Cons all_bytes_all(2) unfolding reached_def by auto
    have m: "set ((pp @ [x]) @ rest) = set (pp @ dq_data q)"
      using Cons by auto
    have "bfs lab ps n st (pp @ [x]) ?q x all_bytes"
      unfolding bfs_def
    proof (intro conjI)
      show "set ((pp @ [x]) @ dq_data ?q) = reached st (pp @ [x]) x all_bytes"
        unfolding r using bfsD(8) [OF b] m by simp
      show "\<forall>t \<in> set (dq_data ?q). length (lab x) \<le> length (lab t) \<and> length (lab t) \<le> length (lab x) + 1"
      proof
        fix t assume "t \<in> set (dq_data ?q)"
        then show "length (lab x) \<le> length (lab t) \<and> length (lab t) \<le> length (lab x) + 1"
          using bfsD(9) [OF b] bfsD(10) [OF b, of t] bfsD(10) [OF b, of x] Cons by auto
      qed
      show "\<forall>s \<le> n. if s \<in> set ((pp @ [x]) @ dq_data ?q) then (s \<noteq> 0 \<longrightarrow> ff_ok lab (prefs ps) n st s)
          \<and> mset (outs st s) = mset (matches ps (lab s)) else outs st s = ends ps (lab s)"
        using bfsD(11,12) [OF b] m by auto
      show "set ((pp @ [x]) @ dq_data ?q) \<subseteq> {0..n}"
        using bfsD(7) [OF b] m by simp
    qed (use bfsD(1-6,9) [OF b] q(3) Cons in auto)
    from ff_children_spec [OF L this all_bytes_all(1) x0] obtain st' q' where
        k: "ff_children x all_bytes st ?q = Some (st', q')" "bfs lab ps n st' (pp @ [x]) q' x []"
      by blast
    have "length pp < length (pp @ [x])" "length (pp @ [x]) \<le> n + 1"
      using bfsD(4,7) [OF k(2)] card_mono [of "{0..n}" "set (pp @ [x])"] distinct_card [of "pp @ [x]"] by auto
    then have "n + 1 - length (pp @ [x]) < n + 1 - length pp" by simp
    from less.hyps [OF this k(2)] show ?thesis
      using q k(1) labelsD(10) [OF L xn] by (auto simp: ff_traverse.simps [of st q])
  qed
qed

text \<open>The automaton after \<open>aho_build_ff\<close>: failure states and outputs are complete.\<close>

definition built :: "(nat \<Rightarrow> bytes) \<Rightarrow> (nat \<times> bytes) list \<Rightarrow> nat \<Rightarrow> (nat \<Rightarrow> aho_state) \<Rightarrow> bool" where
  "built lab ps n st \<longleftrightarrow> gtab lab (prefs ps) n st \<and> (\<forall>s. q_ok (st_output (st s)))
    \<and> (\<forall>s \<le> n. (s \<noteq> 0 \<longrightarrow> ff_ok lab (prefs ps) n st s) \<and> mset (outs st s) = mset (matches ps (lab s)))"

lemma build_ff_spec:
  assumes t: "trie lab (prefs ps) (ends ps) d" and ps: "\<forall>(i, p) \<in> set ps. p \<noteq> []"
  shows "\<exists>st. aho_build_ff d = Some (d\<lparr>dfa_root := st\<rparr>) \<and> built lab ps (dfa_num_used_states d) st"
proof -
  let ?n = "dfa_num_used_states d" and ?st = "root_loops (dfa_root d)"
  have L: "labels lab (prefs ps) ?n"
    using trieD(1-4) [OF t] prefix_closed_prefs by (simp add: labels_def)
  have o: "st_output (?st s) = st_output (dfa_root d s)" "s \<noteq> 0 \<Longrightarrow> st_G (?st s) = st_G (dfa_root d s)"
    "st_G (?st 0) = (\<lambda>c. if st_G (dfa_root d 0) c = AHO_FAIL then 0 else st_G (dfa_root d 0) c)" for s
    by (simp_all add: root_loops_def)
  have g: "gtree lab (prefs ps) ?n ?st"
    unfolding gtree_def
  proof (intro allI impI)
    fix s c assume s: "s \<le> ?n"
    show "if lab s @ [c] \<in> prefs ps then st_G (?st s) c \<le> ?n \<and> lab (st_G (?st s) c) = lab s @ [c]
        else st_G (?st s) c = (if s = 0 then 0 else AHO_FAIL)"
      using trieD(5,6) [OF t s, of c] o(2) [of s] o(3) labelsD(12) [OF L, of "st_G (dfa_root d s) c"] by (cases "s = 0") auto
  qed
  have e0: "ends ps (lab 0) = []" "matches ps [] = []"
    using ps trieD(2) [OF t] by (auto simp: ends_def matches_def filter_empty_conv)
  have "reached ?st [0] 0 all_bytes = {0}"
    using all_bytes_all(2) by (auto simp: reached_def)
  then have "bfs lab ps ?n ?st [0] ds_queue_init 0 all_bytes"
    using g trieD(2,7,8) [OF t] o(1) e0 by (simp add: bfs_def)
  from root_children_spec [OF L ps this all_bytes_all(1)] obtain st1 q1 where
      r: "root_children all_bytes ?st ds_queue_init = Some (st1, q1)" "bfs lab ps ?n st1 [0] q1 0 []"
    by blast
  from ff_traverse_spec [OF L r(2)] obtain st pp cur where
      f: "ff_traverse st1 q1 = Some st" "bfs lab ps ?n st pp ds_queue_init cur []"
    by blast
  have "s \<in> set (pp @ dq_data ds_queue_init)" if "s \<le> ?n" for s
    using level_reached [OF L f(2) that] by simp
  then have "built lab ps ?n st"
    using bfsD(3,11) [OF f(2)] gtree_gtab [OF bfsD(1) [OF f(2)] L] by (simp add: built_def)
  moreover have "aho_build_ff d = Some (d\<lparr>dfa_root := st\<rparr>)"
    using r(1) f(1) by (simp add: aho_build_ff_def)
  ultimately show ?thesis by blast
qed

section \<open>Missing transitions\<close>

lemma built_set_G:
  assumes L: "labels lab (prefs ps) n" and b: "built lab ps n st" and i: "i \<le> n" and v: "v \<le> n" "lab v = lsuf (prefs ps) (lab i @ [c])"
  shows "built lab ps n (set_G i c v st)"
proof -
  have vv: "v mod 2 ^ 16 = v" "v \<noteq> AHO_FAIL"
    using labelsD(11,12) [OF L v(1)] by auto
  have "gtab lab (prefs ps) n (set_G i c v st)"
    unfolding gtab_def
  proof (intro allI impI)
    fix s e assume "s \<le> n"
    then have old: "if st_G (st s) e = AHO_FAIL then s \<noteq> 0 \<and> lab s @ [e] \<notin> prefs ps
        else st_G (st s) e \<le> n \<and> lab (st_G (st s) e) = lsuf (prefs ps) (lab s @ [e])"
      using b unfolding built_def gtab_def by blast
    show "if st_G (set_G i c v st s) e = AHO_FAIL then s \<noteq> 0 \<and> lab s @ [e] \<notin> prefs ps
        else st_G (set_G i c v st s) e \<le> n \<and> lab (st_G (set_G i c v st s) e) = lsuf (prefs ps) (lab s @ [e])"
    proof (cases "s = i \<and> e = c")
      case True
      then show ?thesis using v vv by simp
    next
      case False
      then have "st_G (set_G i c v st s) e = st_G (st s) e" by auto
      with old show ?thesis by simp
    qed
  qed
  then show ?thesis
    using b by (simp add: built_def ff_ok_def)
qed

lemma fill_G_spec:
  assumes L: "labels lab (prefs ps) n" and b: "built lab ps n st" and i: "i \<le> n"
  shows "\<exists>st'. fill_G i cs st = Some st' \<and> built lab ps n st' \<and> (\<forall>c \<in> set cs. st_G (st' i) c \<noteq> AHO_FAIL)
    \<and> (\<forall>s c. st_G (st s) c \<noteq> AHO_FAIL \<longrightarrow> st_G (st' s) c \<noteq> AHO_FAIL)
    \<and> (\<forall>s. st_output (st' s) = st_output (st s) \<and> st_out_arr (st' s) = st_out_arr (st s))"
  using b
proof (induction cs arbitrary: st)
  case (Cons c cs)
  show ?case
  proof (cases "st_G (st i) c = AHO_FAIL")
    case False
    with Cons.IH [OF Cons.prems] show ?thesis by fastforce
  next
    case True
    have g: "gtab lab (prefs ps) n st" and f: "\<And>s. s \<le> n \<Longrightarrow> s \<noteq> 0 \<Longrightarrow> ff_ok lab (prefs ps) n st s"
      using Cons.prems by (auto simp: built_def)
    from follow_spec [OF g labelsD(5) [OF L] labelsD(1-3) [OF L] f i order_refl, of c] obtain t where
        t: "follow st c i = Some t" "st_G (st t) c \<le> n" "lab (st_G (st t) c) = lsuf (prefs ps) (lab i @ [c])"
      by blast
    let ?st = "set_G i c (st_G (st t) c) st"
    have keep: "st_G (?st i) c \<noteq> AHO_FAIL" "\<And>s c. st_G (st s) c \<noteq> AHO_FAIL \<Longrightarrow> st_G (?st s) c \<noteq> AHO_FAIL"
      using labelsD(11,12) [OF L t(2)] by auto
    from Cons.IH [OF built_set_G [OF L Cons.prems i t(2,3)]] obtain st' where st': "fill_G i cs ?st = Some st'" "built lab ps n st'"
        "\<forall>c \<in> set cs. st_G (st' i) c \<noteq> AHO_FAIL" "\<forall>s c. st_G (?st s) c \<noteq> AHO_FAIL \<longrightarrow> st_G (st' s) c \<noteq> AHO_FAIL"
        "\<forall>s. st_output (st' s) = st_output (?st s) \<and> st_out_arr (st' s) = st_out_arr (?st s)"
      by blast
    have "fill_G i (c # cs) st = Some st'"
      using True t(1) st'(1) by simp
    with st'(2-5) keep show ?thesis by auto
  qed
qed auto

lemma copy_out_simps [simp]:
  "st_G (copy_out i st s) = st_G (st s)" "st_F (copy_out i st s) = st_F (st s)" "st_output (copy_out i st s) = st_output (st s)"
  "st_out_arr (copy_out i st s) j = (if s = i \<and> j < dq_count (st_output (st i)) then outs st i ! j mod 2 ^ 16 else st_out_arr (st s) j)"
  by (simp_all add: copy_out_def)

definition ready :: "(nat \<Rightarrow> aho_state) \<Rightarrow> nat \<Rightarrow> bool" where
  "ready st s \<longleftrightarrow> (\<forall>c. st_G (st s) c \<noteq> AHO_FAIL) \<and> (\<forall>j < length (outs st s). st_out_arr (st s) j = outs st s ! j mod 2 ^ 16)"

lemma preprocess_states_spec:
  assumes L: "labels lab (prefs ps) n" and b: "built lab ps n st" and sub: "set ids \<subseteq> {0..n}"
    and few: "\<And>w. length (matches ps w) < 16"
  shows "\<exists>st'. preprocess_states ids st = Some st' \<and> built lab ps n st' \<and> (\<forall>s. s \<in> set ids \<or> ready st s \<longrightarrow> ready st' s)"
  using b sub
proof (induction ids arbitrary: st)
  case (Cons i ids)
  have i: "i \<le> n"
    using Cons.prems(2) by simp
  have cnt: "dq_count (st_output (st i)) = length (outs st i)"
    using Cons.prems(1) by (simp add: built_def q_ok_def)
  moreover have "length (outs st i) = length (matches ps (lab i))"
    using Cons.prems(1) i by (auto simp: built_def dest: mset_eq_length)
  ultimately have p: "preprocess_state i st = fill_G i all_bytes (copy_out i st)"
    using few [of "lab i"] by (simp add: preprocess_state_def)
  have "built lab ps n (copy_out i st)"
    using Cons.prems(1) by (simp add: built_def gtab_def ff_ok_def)
  from fill_G_spec [OF L this i, of all_bytes] obtain st1 where st1: "fill_G i all_bytes (copy_out i st) = Some st1" "built lab ps n st1"
      "\<forall>c \<in> set all_bytes. st_G (st1 i) c \<noteq> AHO_FAIL" "\<forall>s c. st_G (st s) c \<noteq> AHO_FAIL \<longrightarrow> st_G (st1 s) c \<noteq> AHO_FAIL"
      "\<forall>s. st_output (st1 s) = st_output (st s) \<and> st_out_arr (st1 s) = st_out_arr (copy_out i st s)"
    by auto
  have "ready st1 i" "\<And>s. ready st s \<Longrightarrow> ready st1 s"
    using st1(3-5) all_bytes_all(2) cnt by (auto simp: ready_def)
  with Cons.IH [OF st1(2)] Cons.prems(2) st1(1) p show ?case by auto
qed auto

section \<open>Running the automaton\<close>

definition aho_run :: "(nat \<Rightarrow> aho_state) \<Rightarrow> nat \<Rightarrow> bytes \<Rightarrow> nat" where
  "aho_run st s w = foldl (\<lambda>s c. st_G (st s) c) s w"

lemma aho_run_simps [simp]: "aho_run st s [] = s" "aho_run st s (c # w) = aho_run st (st_G (st s) c) w"
  "aho_run st s (v @ w) = aho_run st (aho_run st s v) w"
  by (simp_all add: aho_run_def)

definition patterns_ok :: "(nat \<times> bytes) list \<Rightarrow> bool" where
  "patterns_ok ps \<longleftrightarrow> (\<forall>(i, p) \<in> set ps. p \<noteq> [] \<and> length p \<le> 100000) \<and> card (prefs ps) \<le> AHO_MAX_STATES - 1
    \<and> (\<forall>w. length (matches ps w) < 16)"

lemma aho_build_spec:
  assumes "patterns_ok ps"
  shows "\<exists>d lab st. add_patterns ps (aho_init mem k) = Some d \<and> trie lab (prefs ps) (ends ps) d
    \<and> aho_build mem k ps = Some (d\<lparr>dfa_root := st\<rparr>) \<and> labels lab (prefs ps) (dfa_num_used_states d)
    \<and> built lab ps (dfa_num_used_states d) st \<and> (\<forall>s \<le> dfa_num_used_states d. ready st s)"
proof -
  have ps: "\<forall>(i, p) \<in> set ps. p \<noteq> [] \<and> length p \<le> 100000" "card (prefs ([] @ ps)) \<le> AHO_MAX_STATES - 1"
      "\<And>w. length (matches ps w) < 16"
    using assms by (simp_all add: patterns_ok_def)
  have "prefs [] = {[]}" "ends [] = (\<lambda>_. [])"
    by (auto simp: prefs_def ends_def)
  then have "trie (\<lambda>_. []) (prefs []) (ends []) (aho_init mem k)"
    using trie_init by metis
  from add_patterns_spec [OF this ps(1,2)] obtain d lab where d: "add_patterns ps (aho_init mem k) = Some d"
      "trie lab (prefs ps) (ends ps) d"
    by auto
  let ?n = "dfa_num_used_states d"
  have L: "labels lab (prefs ps) ?n"
    using trieD(1-4) [OF d(2)] prefix_closed_prefs by (simp add: labels_def)
  obtain st1 where st1: "aho_build_ff d = Some (d\<lparr>dfa_root := st1\<rparr>)" "built lab ps ?n st1"
    using build_ff_spec [OF d(2)] ps(1) by (auto simp: case_prod_beta)
  have "set [0..<?n + 1] \<subseteq> {0..?n}"
    by auto
  from preprocess_states_spec [OF L st1(2) this ps(3)] obtain st where
      st: "preprocess_states [0..<?n + 1] st1 = Some st" "built lab ps ?n st" "\<forall>s. s \<in> set [0..<?n + 1] \<or> ready st1 s \<longrightarrow> ready st s"
    by blast
  have "s \<in> set [0..<?n + 1]" if "s \<le> ?n" for s
    using that by auto
  then have rdy: "\<forall>s \<le> ?n. ready st s"
    using st(3) by blast
  have "aho_build mem k ps = Some (d\<lparr>dfa_root := st\<rparr>)"
    using d(1) st1(1) st(1) by (simp add: aho_build_def aho_preprocess_dfa_def)
  with d L st(2) rdy show ?thesis by blast
qed

lemma run_label:
  assumes L: "labels lab (prefs ps) n" and b: "built lab ps n st" and r: "\<forall>s \<le> n. ready st s"
  shows "aho_run st 0 w \<le> n \<and> lab (aho_run st 0 w) = lsuf (prefs ps) w"
proof (induction w rule: rev_induct)
  case Nil
  then show ?case
    using labelsD(2) [OF L] by simp
next
  case (snoc c w)
  let ?s = "aho_run st 0 w"
  have "st_G (st ?s) c \<noteq> AHO_FAIL"
    using r snoc by (auto simp: ready_def)
  moreover have "if st_G (st ?s) c = AHO_FAIL then ?s \<noteq> 0 \<and> lab ?s @ [c] \<notin> prefs ps
      else st_G (st ?s) c \<le> n \<and> lab (st_G (st ?s) c) = lsuf (prefs ps) (lab ?s @ [c])"
    using b snoc unfolding built_def gtab_def by blast
  ultimately show ?case
    using snoc lsuf_step [OF labelsD(5) [OF L], of w c] by simp
qed

lemma run_outputs:
  assumes L: "labels lab (prefs ps) n" and b: "built lab ps n st" and r: "\<forall>s \<le> n. ready st s"
  shows "mset (outs st (aho_run st 0 w)) = mset (matches ps w)" "q_ok (st_output (st (aho_run st 0 w)))"
    "map (st_out_arr (st (aho_run st 0 w))) [0..<length (matches ps w)] = map (\<lambda>i. i mod 2 ^ 16) (outs st (aho_run st 0 w))"
    "mset (map (st_out_arr (st (aho_run st 0 w))) [0..<length (matches ps w)]) = mset (map (\<lambda>i. i mod 2 ^ 16) (matches ps w))"
    "dq_count (st_output (st (aho_run st 0 w))) = length (matches ps w)"
proof -
  let ?s = "aho_run st 0 w"
  have s: "?s \<le> n" "lab ?s = lsuf (prefs ps) w"
    using run_label [OF L b r] by auto
  show m: "mset (outs st ?s) = mset (matches ps w)"
    using b s matches_lsuf [of ps w] by (simp add: built_def)
  show "q_ok (st_output (st ?s))"
    using b by (simp add: built_def)
  have len: "length (matches ps w) = length (outs st ?s)"
    using m by (metis mset_eq_length)
  show o: "map (st_out_arr (st ?s)) [0..<length (matches ps w)] = map (\<lambda>i. i mod 2 ^ 16) (outs st ?s)"
    unfolding len by (rule nth_equalityI) (use r s(1) in \<open>auto simp: ready_def\<close>)
  show "mset (map (st_out_arr (st ?s)) [0..<length (matches ps w)]) = mset (map (\<lambda>i. i mod 2 ^ 16) (matches ps w))"
    unfolding o by (simp only: mset_map m)
  show "dq_count (st_output (st ?s)) = length (matches ps w)"
    using b len by (simp add: built_def q_ok_def)
qed

section \<open>Properties\<close>

text \<open>
  C39. The automaton finds exactly the patterns: for any patterns that are not empty, have at most 32767
  prefixes in all and of which fewer than 16 end at the same place, the construction succeeds,
  and after reading any text from the start the automaton is in a valid state whose output
  array lists, each once, the indices of the patterns that are suffixes of the text.
\<close>

theorem aho_corasick_finds_all:
  assumes "patterns_ok ps"
  shows "\<exists>d. aho_build mem k ps = Some d \<and> (\<forall>w. let s = aho_run (dfa_root d) 0 w in
    s \<le> dfa_num_used_states d \<and> s < AHO_MAX_STATES \<and> dq_count (st_output (dfa_root d s)) = length (matches ps w)
    \<and> mset (map (st_out_arr (dfa_root d s)) [0..<length (matches ps w)]) = mset (map (\<lambda>i. i mod 2 ^ 16) (matches ps w)))"
proof -
  obtain d lab st where d: "aho_build mem k ps = Some (d\<lparr>dfa_root := st\<rparr>)" and
      a: "labels lab (prefs ps) (dfa_num_used_states d)" "built lab ps (dfa_num_used_states d) st" "\<forall>s \<le> dfa_num_used_states d. ready st s"
    using aho_build_spec [OF assms, of mem k] by blast
  have "let s = aho_run st 0 w in s \<le> dfa_num_used_states d \<and> s < AHO_MAX_STATES \<and> dq_count (st_output (st s)) = length (matches ps w)
      \<and> mset (map (st_out_arr (st s)) [0..<length (matches ps w)]) = mset (map (\<lambda>i. i mod 2 ^ 16) (matches ps w))" for w
    unfolding Let_def using run_label [OF a, of w] labelsD(10) [OF a(1)] run_outputs(4,5) [OF a, of w] by blast
  with d show ?thesis by auto
qed

text \<open>The two patterns he and she.\<close>

definition sample_patterns :: "(nat \<times> bytes) list" where
  "sample_patterns = [(7, [104, 101]), (9, [115, 104, 101])]"

lemma sample_patterns_ok: "patterns_ok sample_patterns"
proof -
  have "prefs sample_patterns \<subseteq> {[], [104], [104, 101], [115], [115, 104], [115, 104, 101]}"
    by (auto simp: prefs_def sample_patterns_def prefix_Cons)
  from card_mono [OF _ this] have "card (prefs sample_patterns) \<le> card {[], [104 :: u8], [104, 101], [115], [115, 104], [115, 104, 101]}"
    by simp
  also have "\<dots> \<le> 6"
    by (simp add: card_insert_if)
  finally have "card (prefs sample_patterns) \<le> AHO_MAX_STATES - 1"
    by (simp add: AHO_MAX_STATES_def)
  moreover have "length (matches sample_patterns w) < 16" for w
    using length_filter_le [of "\<lambda>(i, p). suffix p w" sample_patterns] by (simp add: matches_def sample_patterns_def)
  ultimately show ?thesis
    by (simp add: patterns_ok_def) (simp add: sample_patterns_def)
qed

theorem aho_corasick_finds_all_witness:
  "\<exists>d. aho_build (\<lambda>_ _. 0) 3 sample_patterns = Some d
    \<and> mset (map (st_out_arr (dfa_root d (aho_run (dfa_root d) 0 [117, 115, 104, 101]))) [0, 1]) = {#7, 9#}"
proof -
  have m: "matches sample_patterns [117, 115, 104, 101] = [7, 9]"
    by (simp add: matches_def sample_patterns_def suffix_Cons)
  from aho_corasick_finds_all [OF sample_patterns_ok, of "\<lambda>_ _. 0" 3] obtain d where
      d: "aho_build (\<lambda>_ _. 0) 3 sample_patterns = Some d" "\<forall>w. let s = aho_run (dfa_root d) 0 w in
        s \<le> dfa_num_used_states d \<and> s < AHO_MAX_STATES \<and> dq_count (st_output (dfa_root d s)) = length (matches sample_patterns w)
        \<and> mset (map (st_out_arr (dfa_root d s)) [0..<length (matches sample_patterns w)]) = mset (map (\<lambda>i. i mod 2 ^ 16) (matches sample_patterns w))"
    by blast
  have u: "[0..<length [7 :: nat, 9]] = [0, 1]" "mset (map (\<lambda>i. i mod 2 ^ 16) [7, 9 :: nat]) = {#7, 9#}"
    by simp_all
  from d(2) [unfolded Let_def, rule_format, of "[117, 115, 104, 101]"] d(1) show ?thesis
    unfolding m u by blast
qed

text \<open>A scan stops at the first place, before the last byte, where a pattern ends.\<close>

lemma scan_spec:
  assumes L: "labels lab (prefs ps) n" and b: "built lab ps n st" and r: "\<forall>s \<le> n. ready st s"
  shows "if \<forall>k < length w. matches ps (h @ take k w) = [] then scan st (aho_run st 0 h) w = (aho_run st 0 (h @ w), None)
    else \<exists>k ids. k < length w \<and> (\<forall>j < k. matches ps (h @ take j w) = []) \<and> matches ps (h @ take k w) \<noteq> []
      \<and> scan st (aho_run st 0 h) w = (aho_run st 0 (h @ take k w), Some ids)
      \<and> mset ids = mset (map (\<lambda>i. i mod 2 ^ 16) (matches ps (h @ take k w)))"
proof (induction w arbitrary: h)
  case Nil
  then show ?case by simp
next
  case (Cons c w)
  note o = run_outputs(4,5) [OF L b r, of h]
  show ?case
  proof (cases "matches ps h = []")
    case True
    then have s: "scan st (aho_run st 0 h) (c # w) = scan st (aho_run st 0 (h @ [c])) w"
      using o(2) by simp
    have all: "(\<forall>k < length (c # w). matches ps (h @ take k (c # w)) = []) \<longleftrightarrow> (\<forall>k < length w. matches ps ((h @ [c]) @ take k w) = [])"
      using True by (simp add: All_less_Suc2)
    show ?thesis
    proof (cases "\<forall>k < length w. matches ps ((h @ [c]) @ take k w) = []")
      case t: True
      then show ?thesis
        using Cons.IH [of "h @ [c]"] s all by simp
    next
      case f: False
      with Cons.IH [of "h @ [c]"] obtain k ids where k: "k < length w" "\<forall>j < k. matches ps ((h @ [c]) @ take j w) = []"
          "matches ps ((h @ [c]) @ take k w) \<noteq> []" "scan st (aho_run st 0 (h @ [c])) w = (aho_run st 0 ((h @ [c]) @ take k w), Some ids)"
          "mset ids = mset (map (\<lambda>i. i mod 2 ^ 16) (matches ps ((h @ [c]) @ take k w)))"
        by (simp only: if_False) blast
      have "\<forall>j < Suc k. matches ps (h @ take j (c # w)) = []"
        using True k(2) by (simp add: All_less_Suc2)
      then have "\<exists>k ids. k < length (c # w) \<and> (\<forall>j < k. matches ps (h @ take j (c # w)) = []) \<and> matches ps (h @ take k (c # w)) \<noteq> []
          \<and> scan st (aho_run st 0 h) (c # w) = (aho_run st 0 (h @ take k (c # w)), Some ids)
          \<and> mset ids = mset (map (\<lambda>i. i mod 2 ^ 16) (matches ps (h @ take k (c # w))))"
        using k(1,3,4,5) s by (intro exI [of _ "Suc k"] exI [of _ ids]) simp
      then show ?thesis
        using f all by (simp only: if_False)
    qed
  next
    case False
    then have "scan st (aho_run st 0 h) (c # w) = (aho_run st 0 h, Some (map (st_out_arr (st (aho_run st 0 h))) [0..<length (matches ps h)]))"
      using o(2) by (simp add: Let_def)
    then have "\<exists>k ids. k < length (c # w) \<and> (\<forall>j < k. matches ps (h @ take j (c # w)) = []) \<and> matches ps (h @ take k (c # w)) \<noteq> []
        \<and> scan st (aho_run st 0 h) (c # w) = (aho_run st 0 (h @ take k (c # w)), Some ids)
        \<and> mset ids = mset (map (\<lambda>i. i mod 2 ^ 16) (matches ps (h @ take k (c # w))))"
      using False o(1) by (intro exI [of _ 0]) simp
    moreover have "\<not> (\<forall>k < length (c # w). matches ps (h @ take k (c # w)) = [])"
      using False by (auto intro!: exI [of _ 0])
    ultimately show ?thesis by (simp only: if_False)
  qed
qed

lemma ids_scan:
  assumes "patterns_ok ps" "aho_build mem k ps = Some d" "ips_state ips = aho_run (dfa_root d) 0 h" "ips_state ips < dfa_num_used_states d"
  shows "if \<forall>j < length w. matches ps (h @ take j w) = [] then process_batch d w ips = (ips\<lparr>ips_state := aho_run (dfa_root d) 0 (h @ w)\<rparr>, [])
    else \<exists>j ids. j < length w \<and> (\<forall>i < j. matches ps (h @ take i w) = []) \<and> matches ps (h @ take j w) \<noteq> []
      \<and> process_batch d w ips = (\<lparr>ips_state = aho_run (dfa_root d) 0 (h @ take j w), ips_alert = True\<rparr>, ids)
      \<and> mset ids = mset (map (\<lambda>i. i mod 2 ^ 16) (matches ps (h @ take j w)))"
proof -
  obtain d' lab st where d: "aho_build mem k ps = Some (d'\<lparr>dfa_root := st\<rparr>)" and
      a: "labels lab (prefs ps) (dfa_num_used_states d')" "built lab ps (dfa_num_used_states d') st" "\<forall>s \<le> dfa_num_used_states d'. ready st s"
    using aho_build_spec [OF assms(1), of mem k] by blast
  have e: "dfa_root d = st"
    using d assms(2) by simp
  show ?thesis
  proof (cases "\<forall>j < length w. matches ps (h @ take j w) = []")
    case True
    then have "scan st (aho_run st 0 h) w = (aho_run st 0 (h @ w), None)"
      using scan_spec [OF a, of w h] by simp
    then show ?thesis
      using True assms(3,4) by (simp add: process_batch_def e)
  next
    case False
    then obtain j ids where j: "j < length w" "\<forall>i < j. matches ps (h @ take i w) = []" "matches ps (h @ take j w) \<noteq> []"
        "scan st (aho_run st 0 h) w = (aho_run st 0 (h @ take j w), Some ids)"
        "mset ids = mset (map (\<lambda>i. i mod 2 ^ 16) (matches ps (h @ take j w)))"
      using scan_spec [OF a, of w h] by (simp only: if_False) blast
    have "process_batch d w ips = (\<lparr>ips_state = aho_run st 0 (h @ take j w), ips_alert = True\<rparr>, ids)"
      using j(4) assms(3,4) by (simp add: process_batch_def e)
    with j False show ?thesis
      unfolding e by (simp only: if_False) blast
  qed
qed

text \<open>
  What one packet of a flow reports: if the flow has read \<open>h\<close> and is not in the state created last, then a
  packet \<open>w\<close> raises the alert exactly when some pattern ends in \<open>h\<close> followed by a proper prefix of \<open>w\<close>;
  the ids copied are those of the patterns that end at the first such place, where the
  automaton stays. Otherwise it moves on to the state of \<open>h\<close> followed by \<open>w\<close>. A pattern that
  ends with the last byte of a packet is therefore not reported by that packet.
\<close>

theorem ids_packet_reports:
  assumes "patterns_ok ps" "aho_build mem k ps = Some d" "ips_state ips = aho_run (dfa_root d) 0 h" "ips_state ips < dfa_num_used_states d"
  shows "if \<forall>j < length w. matches ps (h @ take j w) = [] then process_batch d w ips = (ips\<lparr>ips_state := aho_run (dfa_root d) 0 (h @ w)\<rparr>, [])
    else \<exists>j ids. j < length w \<and> (\<forall>i < j. matches ps (h @ take i w) = []) \<and> matches ps (h @ take j w) \<noteq> []
      \<and> process_batch d w ips = (\<lparr>ips_state = aho_run (dfa_root d) 0 (h @ take j w), ips_alert = True\<rparr>, ids)
      \<and> mset ids = mset (map (\<lambda>i. i mod 2 ^ 16) (matches ps (h @ take j w)))"
  using ids_scan [OF assms] .

theorem ids_packet_reports_witness:
  "\<exists>d. aho_build (\<lambda>_ _. 0) 3 sample_patterns = Some d \<and> ips_alert (fst (process_batch d [104, 101, 33] \<lparr>ips_state = 0, ips_alert = False\<rparr>))
    \<and> \<not> ips_alert (fst (process_batch d [115, 104, 101] \<lparr>ips_state = 0, ips_alert = False\<rparr>))"
proof -
  obtain d lab st where b: "aho_build (\<lambda>_ _. 0) 3 sample_patterns = Some (d\<lparr>dfa_root := st\<rparr>)" "trie lab (prefs sample_patterns) (ends sample_patterns) d"
    using aho_build_spec [OF sample_patterns_ok, of "\<lambda>_ _. 0" 3] by blast
  let ?d = "d\<lparr>dfa_root := st\<rparr>" and ?ips = "\<lparr>ips_state = 0, ips_alert = False\<rparr>"
  have "[104] \<in> prefs sample_patterns" "[] \<in> prefs sample_patterns"
    by (simp_all add: prefs_def sample_patterns_def)
  then have "card {[], [104 :: u8]} \<le> card (prefs sample_patterns)"
    by (intro card_mono finite_prefs) simp
  then have n: "ips_state ?ips < dfa_num_used_states ?d"
    using trie_card [OF b(2)] by simp
  have s: "ips_state ?ips = aho_run (dfa_root ?d) 0 []"
    by simp
  have m: "matches sample_patterns w = (if suffix [104, 101] w then [7] else []) @ (if suffix [115, 104, 101] w then [9] else [])" for w
    by (simp add: matches_def sample_patterns_def)
  have a: "\<not> (\<forall>j < length [104, 101, 33 :: u8]. matches sample_patterns ([] @ take j [104, 101, 33]) = [])"
    by (simp add: m) (auto intro!: exI [of _ 2])
  have c: "\<forall>j < length [115, 104, 101 :: u8]. matches sample_patterns ([] @ take j [115, 104, 101]) = []"
    by (simp add: m All_less_Suc2 suffix_Cons)
  show ?thesis
    using ids_packet_reports [OF sample_patterns_ok b(1) s n, of "[104, 101, 33]"] ids_packet_reports [OF sample_patterns_ok b(1) s n, of "[115, 104, 101]"] a c b(1)
    by (simp only: if_False if_True) fastforce
qed

text \<open>All packets of a flow in turn.\<close>

fun process_flow :: "aho_dfa \<Rightarrow> bytes list \<Rightarrow> ips_flow_state \<Rightarrow> ips_flow_state" where
  "process_flow d [] ips = ips"
| "process_flow d (w # ws) ips = process_flow d ws (fst (process_batch d w ips))"

lemma process_flow_blind: "dfa_num_used_states d \<le> ips_state ips \<Longrightarrow> \<not> ips_alert ips \<Longrightarrow> process_flow d ws ips = ips"
proof (induction ws)
  case (Cons w ws)
  have "fst (process_batch d w ips) = ips"
    using Cons.prems by (cases ips) (simp add: process_batch_def)
  with Cons show ?case by simp
qed simp

lemma grow_last:
  assumes "grow d s rest = Some (d', s')" "rest \<noteq> []"
  shows "s' = dfa_num_used_states d'"
  using assms
proof (induction rest arbitrary: d s)
  case (Cons c cs)
  let ?n = "dfa_num_used_states d + 1"
  let ?d = "d\<lparr>dfa_num_used_states := ?n, dfa_root := set_G s c ?n (dfa_root d)\<rparr>"
  have g: "grow ?d ?n cs = Some (d', s')"
    using Cons.prems(1) by (simp add: Let_def split: if_splits)
  show ?case
  proof (cases "cs = []")
    case True
    then show ?thesis using g by auto
  next
    case False
    then show ?thesis using Cons.IH [OF g] by simp
  qed
qed simp

lemma single_pattern_last:
  assumes "patterns_ok [(i, p)]"
  shows "\<exists>d. aho_build mem k [(i, p)] = Some d \<and> aho_run (dfa_root d) 0 p = dfa_num_used_states d"
proof -
  let ?ps = "[(i, p)]"
  obtain d lab st where d: "add_patterns ?ps (aho_init mem k) = Some d" "trie lab (prefs ?ps) (ends ?ps) d"
      "aho_build mem k ?ps = Some (d\<lparr>dfa_root := st\<rparr>)" and
      a: "labels lab (prefs ?ps) (dfa_num_used_states d)" "built lab ?ps (dfa_num_used_states d) st" "\<forall>s \<le> dfa_num_used_states d. ready st s"
    using aho_build_spec [OF assms, of mem k] by blast
  have p: "p \<noteq> []"
    using assms by (simp add: patterns_ok_def)
  then have "descend (dfa_root (aho_init mem k)) 0 p = (0, p)"
    by (cases p) (simp_all add: aho_init_def)
  with d(1) obtain d1 s1 where g: "grow (aho_init mem k) 0 p = Some (d1, s1)" "d = d1\<lparr>dfa_root := add_output s1 i (dfa_root d1)\<rparr>"
    by (auto simp: aho_add_pattern_def bind_eq_Some_conv split: if_splits)
  have "outs (dfa_root d) (dfa_num_used_states d) \<noteq> []"
    using grow_last [OF g(1) p] g(2) by simp
  then have "lab (dfa_num_used_states d) = p"
    using trieD(7) [OF d(2) order_refl] by (auto simp: ends_def split: if_splits)
  moreover have "lsuf (prefs ?ps) p = p"
    by (rule lsuf_self) (simp add: prefs_def)
  ultimately have "aho_run st 0 p = dfa_num_used_states d"
    using run_label [OF a, of p] labelsD(6) [OF a(1), of "aho_run st 0 p" "dfa_num_used_states d"] by simp
  with d(3) show ?thesis by auto
qed



end
