(* ===== verification/Timer_Set.thy ===== *)
theory Timer_Set
  imports Bit_Ops "HOL-Library.Multiset"
begin

text \<open>
  The timer set (core/timer-set.hh) on top of the bit-set iteration of core/bitset-iter.hh: active
  timers are kept in 64 buckets, by the highest bit in which their timeout differs from the time
  of the last expiry, and are sorted no further until they expire.

  \<^item> A timer is a value of a type \<open>'t\<close>; the function \<open>tmo\<close> reads its timeout. A timestamp is a
    \<open>long\<close>: an integer, with the range in the invariant; no arithmetic is done on it.
  \<^item> \<open>std::bitset<64>\<close> is a 64-bit word.
  \<^item> \<open>None\<close> is undefined behaviour, a failed assertion or \<open>abort\<close>, and for the loop of \<open>expire\<close>
    that it does not end.
  \<^item> What its client relies on is the locale \<open>timer_queue\<close>.
\<close>

section \<open>Bit sets\<close>

text \<open>\<open>count_leading_zeros<long>\<close>, undefined for zero and for negative numbers.\<close>

definition count_leading_zeros_long :: "int \<Rightarrow> nat option" where
  "count_leading_zeros_long v = (case count_leading_zeros (word_of_int v) of
      Some (Suc n) \<Rightarrow> Some n | _ \<Rightarrow> None)"

fun ctz_from :: "u64 \<Rightarrow> nat \<Rightarrow> nat \<Rightarrow> nat" where
  "ctz_from x i 0 = 0"
| "ctz_from x i (Suc n) = (if bit x i then 0 else Suc (ctz_from x (Suc i) n))"

definition count_trailing_zeros :: "u64 \<Rightarrow> nat option" where
  "count_trailing_zeros x = (if x = 0 then None else Some (ctz_from x 0 64))"

definition get_first_set :: "u64 \<Rightarrow> nat option" where
  "get_first_set bitset = count_trailing_zeros bitset"

definition get_last_set :: "u64 \<Rightarrow> nat option" where
  "get_last_set bitset = map_option (\<lambda>c. 64 - 1 - c) (count_leading_zeros bitset)"

lemma ctz_from_spec:
  assumes "\<exists>k < n. bit x (i + k)"
  shows "ctz_from x i n < n \<and> bit x (i + ctz_from x i n) \<and> (\<forall>k < ctz_from x i n. \<not> bit x (i + k))"
  using assms
proof (induction x i n rule: ctz_from.induct)
  case (2 x i n)
  show ?case
  proof (cases "bit x i")
    case False
    then obtain k where k: "k < Suc n" "bit x (i + k)" "k \<noteq> 0"
      using 2(2) by (metis add_0_right)
    then have "k - 1 < n" "bit x (Suc i + (k - 1))"
      by auto
    with 2(1) [OF False] have IH: "ctz_from x (Suc i) n < n" "bit x (Suc i + ctz_from x (Suc i) n)"
        "\<forall>k < ctz_from x (Suc i) n. \<not> bit x (Suc i + k)"
      by blast+
    have "\<not> bit x (i + k)" if "k < Suc (ctz_from x (Suc i) n)" for k
      using IH(3) that False by (cases k) auto
    with IH False show ?thesis by auto
  qed auto
qed simp

text \<open>The values of the iterator: \<open>advance\<close> shifts the rest of the set to the right.\<close>

function set_iterator :: "u64 \<Rightarrow> int \<Rightarrow> nat list" where
  "set_iterator bitset index = (case get_first_set bitset of None \<Rightarrow> []
    | Some c \<Rightarrow> nat (index + int (c + 1)) # set_iterator (drop_bit (c + 1) bitset) (index + int (c + 1)))"
  by pat_completeness auto
termination
proof (relation "measure (\<lambda>(b, i). unat b)", goal_cases)
  case (2 bitset index c)
  then have "bitset \<noteq> 0"
    by (auto simp: get_first_set_def count_trailing_zeros_def split: if_splits)
  then have "0 < unat bitset"
    by (simp add: unat_gt_0)
  moreover have "1 < (2 :: nat) ^ (c + 1)"
    by (rule one_less_power) simp_all
  ultimately have "unat bitset div 2 ^ (c + 1) < unat bitset"
    by (intro div_less_dividend)
  moreover have "unat (drop_bit (c + 1) bitset) = unat bitset div 2 ^ (c + 1)"
    by (simp only: unat_drop_bit_eq) (simp only: drop_bit_eq_div)
  ultimately show ?case
    by (simp only: in_measure case_prod_conv)
qed simp

declare set_iterator.simps [simp del]

definition for_each_set :: "u64 \<Rightarrow> nat \<Rightarrow> nat list" where
  "for_each_set bitset offset = set_iterator (drop_bit offset bitset) (int offset - 1)"

text \<open>The iteration visits the elements in increasing order.\<close>

lemma bit_word_exceeds: "bit (x :: u64) k \<Longrightarrow> k < 64"
  using bit_imp_le_length [of x k] by simp

lemma get_first_set_spec:
  assumes "get_first_set b = Some c"
  shows "c < 64 \<and> bit b c \<and> (\<forall>k < c. \<not> bit b k)"
proof -
  have b: "b \<noteq> 0" and c: "c = ctz_from b 0 64"
    using assms by (auto simp: get_first_set_def count_trailing_zeros_def split: if_splits)
  then obtain k where "bit b k"
    by (auto simp: bit_eq_iff)
  then have "\<exists>k < 64. bit b (0 + k)"
    using bit_word_exceeds by auto
  from ctz_from_spec [OF this] show ?thesis
    by (simp add: c)
qed

lemma get_first_set_None: "get_first_set b = None \<longleftrightarrow> b = 0"
  by (simp add: get_first_set_def count_trailing_zeros_def)

lemma filter_bits_shift:
  "map (\<lambda>k. m + k) (filter (bit (drop_bit m b)) [0..<64]) = filter (bit (b :: u64)) [m..<64]"
proof -
  have "filter (bit b) [m..<64 + m] = filter (bit b) [m..<64]"
  proof (cases "m \<le> 64")
    case True
    then have "[m..<64 + m] = [m..<64] @ [64..<64 + m]"
      by (metis add.commute le_add1 upt_add_eq_append le_add_diff_inverse)
    moreover have "filter (bit b) [64..<64 + m] = []"
      by (auto simp: filter_empty_conv dest: bit_word_exceeds)
    ultimately show ?thesis by simp
  next
    case False
    then show ?thesis
      by (auto simp: filter_empty_conv dest: bit_word_exceeds)
  qed
  moreover have "map (\<lambda>k. m + k) (filter (bit (drop_bit m b)) [0..<64]) = filter (bit b) (map (\<lambda>k. k + m) [0..<64])"
    by (simp add: filter_map comp_def bit_drop_bit_eq add.commute)
  ultimately show ?thesis
    by (simp only: map_add_upt)
qed

lemma set_iterator_spec:
  "- 1 \<le> idx \<Longrightarrow> set_iterator b idx = map (\<lambda>k. nat (idx + 1) + k) (filter (bit b) [0..<64])"
proof (induction b idx rule: set_iterator.induct)
  case (1 b idx)
  show ?case
  proof (cases "get_first_set b")
    case None
    then have "b = 0"
      by (simp add: get_first_set_None)
    with None show ?thesis
      by (simp add: set_iterator.simps [of 0 idx])
  next
    case (Some c)
    note c = get_first_set_spec [OF Some]
    have "[0..<64] = [0..<c] @ c # [Suc c..<64]"
      using c upt_add_eq_append [of 0 c "64 - c"] upt_conv_Cons [of c 64] by simp
    moreover have "filter (bit b) [0..<c] = []"
      using c by (simp add: filter_empty_conv)
    ultimately have "filter (bit b) [0..<64] = c # filter (bit b) [Suc c..<64]"
      using c by simp
    also have "\<dots> = c # map (\<lambda>k. Suc c + k) (filter (bit (drop_bit (Suc c) b)) [0..<64])"
      by (simp only: filter_bits_shift)
    finally have f: "filter (bit b) [0..<64] = \<dots>" .
    have "nat (idx + int (c + 1) + 1) + k = nat (idx + 1) + (Suc c + k)" for k
      using 1(2) by simp
    then show ?thesis
      using 1(1) [OF Some] 1(2) Some unfolding f set_iterator.simps [of b]
      by (simp add: comp_def)
  qed
qed

lemma for_each_set_spec: "for_each_set b offset = filter (bit b) [offset..<64]"
  unfolding for_each_set_def by (subst set_iterator_spec) (simp_all add: filter_bits_shift)

lemma get_last_set_spec:
  assumes "b \<noteq> 0"
  shows "\<exists>k. get_last_set b = Some k \<and> k < 64 \<and> bit b k \<and> (\<forall>j > k. \<not> bit b j)"
proof -
  let ?c = "clz_below b 64"
  have "unat b < 2 ^ 64"
    using unsigned_less [where 'a = nat, of b] by simp
  from clz_below_spec [OF this assms] have c: "?c < 64" "2 ^ (63 - ?c) \<le> unat b" "unat b < 2 ^ (64 - ?c)"
    by simp_all
  have hi: "\<not> bit b j" if "63 - ?c < j" for j
    using c(3) that unat_less_exp_iff_bits [of b "64 - ?c"] by auto
  have "\<exists>j \<ge> 63 - ?c. bit b j"
    using c(2) unat_less_exp_iff_bits [of b "63 - ?c"] by (metis not_less)
  then have "bit b (63 - ?c)"
    using hi by (metis le_neq_implies_less)
  with c(1) hi show ?thesis
    using assms by (simp add: get_last_set_def count_leading_zeros_def)
qed

section \<open>The timer set\<close>

record 't timer_set =
  ts_buckets :: "'t list list"
  ts_last :: int
  ts_next :: int
  ts_non_empty :: u64

definition max_timestamp :: int where "max_timestamp = 2 ^ 63 - 1"
definition n_buckets :: nat where "n_buckets = 64"

definition ts_init :: "'t timer_set" where
  "ts_init = \<lparr>ts_buckets = replicate n_buckets [], ts_last = 0, ts_next = max_timestamp, ts_non_empty = 0\<rparr>"

definition get_index :: "int \<Rightarrow> int \<Rightarrow> nat option" where
  "get_index prev timestamp = (if timestamp \<le> prev then Some (n_buckets - 1) else
    (case count_leading_zeros_long (timestamp XOR prev) of None \<Rightarrow> None
     | Some index \<Rightarrow> if index < n_buckets - 1 then Some index else None))"

definition set_non_empty :: "nat \<Rightarrow> bool \<Rightarrow> u64 \<Rightarrow> u64" where
  "set_non_empty i b bits = (if b then set_bit i bits else unset_bit i bits)"

definition ts_insert :: "('t \<Rightarrow> int) \<Rightarrow> 't \<Rightarrow> 't timer_set \<Rightarrow> (bool \<times> 't timer_set) option" where
  "ts_insert tmo t s = (case get_index (ts_last s) (tmo t) of None \<Rightarrow> None
    | Some i \<Rightarrow>
      (let s1 = s\<lparr>ts_buckets := (ts_buckets s)[i := ts_buckets s ! i @ [t]],
         ts_non_empty := set_non_empty i True (ts_non_empty s)\<rparr>
       in Some (if tmo t < ts_next s then (True, s1\<lparr>ts_next := tmo t\<rparr>) else (False, s1))))"

text \<open>\<open>remove\<close> unlinks the timer from the list of its bucket; it has to be there.\<close>

definition ts_remove :: "('t \<Rightarrow> int) \<Rightarrow> 't \<Rightarrow> 't timer_set \<Rightarrow> 't timer_set option" where
  "ts_remove tmo t s = (case get_index (ts_last s) (tmo t) of None \<Rightarrow> None
    | Some i \<Rightarrow> if t \<notin> set (ts_buckets s ! i) then None else
      (let list = remove1 t (ts_buckets s ! i) in
       Some (s\<lparr>ts_buckets := (ts_buckets s)[i := list],
         ts_non_empty := (if list = [] then set_non_empty i False (ts_non_empty s) else ts_non_empty s)\<rparr>)))"

fun splice_buckets :: "nat list \<Rightarrow> 't list \<Rightarrow> 't timer_set \<Rightarrow> 't list \<times> 't timer_set" where
  "splice_buckets [] exp s = (exp, s)"
| "splice_buckets (i # is) exp s = splice_buckets is (exp @ ts_buckets s ! i)
    (s\<lparr>ts_buckets := (ts_buckets s)[i := []], ts_non_empty := set_non_empty i False (ts_non_empty s)\<rparr>)"

text \<open>The loop over the bucket in which the current time falls: timers not yet due are inserted again.\<close>

partial_function (option) drain_bucket ::
    "('t \<Rightarrow> int) \<Rightarrow> int \<Rightarrow> nat \<Rightarrow> 't list \<Rightarrow> 't timer_set \<Rightarrow> ('t list \<times> 't timer_set) option" where
  "drain_bucket tmo now index exp s = (case ts_buckets s ! index of [] \<Rightarrow> Some (exp, s)
    | t # list \<Rightarrow>
      (let s1 = s\<lparr>ts_buckets := (ts_buckets s)[index := list]\<rparr> in
       if tmo t \<le> now then drain_bucket tmo now index (exp @ [t]) s1
       else Option.bind (ts_insert tmo t s1) (\<lambda>(b, s2). drain_bucket tmo now index exp s2)))"

declare drain_bucket.simps [code]

definition ts_expire :: "('t \<Rightarrow> int) \<Rightarrow> int \<Rightarrow> 't timer_set \<Rightarrow> ('t list \<times> 't timer_set) option" where
  "ts_expire tmo now s = (if now < ts_last s then None else
    Option.bind (get_index (ts_last s) now) (\<lambda>index.
    (case splice_buckets (for_each_set (ts_non_empty s) (index + 1)) [] s of (exp, s1) \<Rightarrow>
    Option.bind (drain_bucket tmo now index exp (s1\<lparr>ts_last := now, ts_next := max_timestamp\<rparr>)) (\<lambda>(exp', s2).
    (let s3 = s2\<lparr>ts_non_empty := set_non_empty index (ts_buckets s2 ! index \<noteq> []) (ts_non_empty s2)\<rparr> in
     if ts_next s3 = max_timestamp \<and> ts_non_empty s3 \<noteq> 0
     then map_option (\<lambda>i. (exp', s3\<lparr>ts_next := foldl (\<lambda>m t. min m (tmo t)) (ts_next s3) (ts_buckets s3 ! i)\<rparr>))
       (get_last_set (ts_non_empty s3))
     else Some (exp', s3))))))"

definition get_next_timeout :: "'t timer_set \<Rightarrow> int" where
  "get_next_timeout s = max (ts_last s) (ts_next s)"

definition ts_clear :: "'t timer_set \<Rightarrow> 't timer_set" where
  "ts_clear s = s\<lparr>ts_buckets := foldl (\<lambda>bs i. bs[i := []]) (ts_buckets s) (for_each_set (ts_non_empty s) 0)\<rparr>"

definition ts_size :: "'t timer_set \<Rightarrow> nat" where
  "ts_size s = foldl (\<lambda>n i. n + length (ts_buckets s ! i)) 0 (for_each_set (ts_non_empty s) 0)"

definition ts_is_empty :: "'t timer_set \<Rightarrow> bool" where
  "ts_is_empty s \<longleftrightarrow> ts_non_empty s = 0"

section \<open>Buckets\<close>

text \<open>Two timestamps agree from bit \<open>k\<close> on.\<close>

definition agree :: "nat \<Rightarrow> int \<Rightarrow> int \<Rightarrow> bool" where
  "agree k a b \<longleftrightarrow> a div 2 ^ k = b div 2 ^ k"

lemma agree_mono:
  assumes "agree k a b" "k \<le> m"
  shows "agree m a b"
proof -
  have "(2 :: int) ^ m = 2 ^ k * 2 ^ (m - k)"
    using assms(2) by (simp flip: power_add)
  then show ?thesis
    using assms(1) by (simp add: agree_def zdiv_zmult2_eq)
qed

lemma agree_sym: "agree k a b \<longleftrightarrow> agree k b a"
  by (auto simp: agree_def)

lemma agree_trans: "agree k a b \<Longrightarrow> agree k b c \<Longrightarrow> agree k a c"
  by (simp add: agree_def)

lemma disagree_less: "\<not> agree k a b \<Longrightarrow> a < b \<Longrightarrow> a div 2 ^ k < b div 2 ^ k"
  using zdiv_mono1 [of a b "2 ^ k"] by (simp add: agree_def)

lemma div_less_imp: "a div 2 ^ k < b div 2 ^ k \<Longrightarrow> a < (b :: int)"
  using zdiv_mono1 [of b a "2 ^ k"] by (meson not_less zero_less_numeral zero_less_power)

text \<open>Where a bit is the highest to differ, the later time has it set.\<close>

lemma agree_two:
  assumes "agree (Suc k) a l" "agree (Suc k) b l" "l < a" "l < b" "\<not> agree k a l" "\<not> agree k b l"
  shows "agree k a b"
proof -
  have h: "x div 2 ^ Suc k = x div 2 ^ k div 2" for x :: int
    unfolding power_Suc2 by (rule zdiv_zmult2_eq) simp
  have "a div 2 ^ k > l div 2 ^ k" "b div 2 ^ k > l div 2 ^ k"
    using assms by (auto intro!: disagree_less simp: agree_sym)
  moreover have "a div 2 ^ k div 2 = l div 2 ^ k div 2" "b div 2 ^ k div 2 = l div 2 ^ k div 2"
    using assms(1,2) by (simp_all only: agree_def h)
  ultimately show ?thesis
    unfolding agree_def by linarith
qed

definition in_bucket :: "int \<Rightarrow> int \<Rightarrow> nat \<Rightarrow> bool" where
  "in_bucket l t i \<longleftrightarrow> (if t \<le> l then i = 63 else i < 63 \<and> agree (63 - i) t l \<and> \<not> agree (62 - i) t l)"

lemma in_bucket_unique:
  assumes "in_bucket l t i" "in_bucket l t j"
  shows "i = j"
proof -
  have "\<not> i < j" if "in_bucket l t i" "in_bucket l t j" for i j
  proof
    assume "i < j"
    with that have "agree (63 - j) t l" "\<not> agree (62 - i) t l" "63 - j \<le> 62 - i"
      by (auto simp: in_bucket_def split: if_splits)
    then show False
      using agree_mono by blast
  qed
  with assms show ?thesis
    by (meson nat_neq_iff)
qed

lemma xor_range:
  assumes "0 \<le> a" "0 \<le> b" "a < 2 ^ n" "b < 2 ^ n"
  shows "0 \<le> a XOR (b :: int) \<and> a XOR b < 2 ^ n"
  using assms XOR_upper [of a n b] by (simp add: XOR_lower)

lemma xor_agree: "agree k a b \<longleftrightarrow> (a XOR b) div 2 ^ k = 0"
proof -
  have "(a XOR b) div 2 ^ k = a div 2 ^ k XOR b div 2 ^ k"
    by (simp add: drop_bit_xor flip: drop_bit_eq_div)
  moreover have "x XOR y = 0 \<longleftrightarrow> x = y" for x y :: int
    by (auto simp: bit_eq_iff bit_simps)
  ultimately show ?thesis
    by (simp add: agree_def)
qed

lemma get_index_in_bucket:
  assumes "0 \<le> l" "t \<le> max_timestamp"
  shows "\<exists>i < 64. get_index l t = Some i \<and> in_bucket l t i"
proof (cases "t \<le> l")
  case False
  define x where "x = t XOR l"
  have r: "0 \<le> x" "x < 2 ^ 63"
    using xor_range [of t l 63] assms False by (simp_all add: x_def max_timestamp_def)
  have "\<not> agree 0 t l"
    using False by (simp add: agree_def)
  then have "x \<noteq> 0"
    using xor_agree [of 0 t l] by (simp add: x_def)
  define w where "w = (word_of_int x :: u64)"
  have w: "int (unat w) = x"
    using r by (simp add: w_def unsigned_of_int take_bit_int_eq_self)
  then have "w \<noteq> 0"
    using \<open>x \<noteq> 0\<close> by auto
  have "unat w < 2 ^ 64"
    using unsigned_less [where 'a = nat, of w] by simp
  define c where "c = clz_below w 64"
  have c: "c < 64" "2 ^ (63 - c) \<le> unat w" "unat w < 2 ^ (64 - c)"
    using clz_below_spec [OF \<open>unat w < 2 ^ 64\<close> \<open>w \<noteq> 0\<close>] by (simp_all add: c_def)
  have lo: "2 ^ (63 - c) \<le> x" and hi: "x < 2 ^ (64 - c)"
    using c(2,3) w by (metis of_nat_le_iff of_nat_numeral of_nat_power, metis of_nat_less_iff of_nat_numeral of_nat_power)
  have "c \<noteq> 0"
  proof
    assume "c = 0"
    with lo r(2) show False by simp
  qed
  then obtain i where i: "c = Suc i"
    using not0_implies_Suc by blast
  have "agree (64 - c) t l"
    using r hi by (simp add: xor_agree flip: x_def)
  moreover have "0 < x div 2 ^ (63 - c)"
    using lo by (simp add: pos_imp_zdiv_pos_iff)
  then have "\<not> agree (63 - c) t l"
    by (simp add: xor_agree flip: x_def)
  ultimately have "in_bucket l t i"
    using False c(1) i by (simp add: in_bucket_def)
  moreover have "count_leading_zeros_long x = Some i"
    using \<open>w \<noteq> 0\<close> i by (simp add: count_leading_zeros_long_def count_leading_zeros_def flip: w_def c_def)
  then have "get_index l t = Some i"
    using False c(1) i by (simp add: get_index_def n_buckets_def flip: x_def)
  ultimately show ?thesis
    using c(1) i by auto
qed (auto simp: get_index_def in_bucket_def n_buckets_def)

lemma get_index_iff:
  assumes "0 \<le> l" "t \<le> max_timestamp"
  shows "get_index l t = Some i \<longleftrightarrow> in_bucket l t i"
  using get_index_in_bucket [OF assms] in_bucket_unique by (metis option.inject)

text \<open>When time moves on to \<open>n\<close>: the buckets after that of \<open>n\<close> are due, those before it stay, and what
  is not due in that of \<open>n\<close> moves to a later one. Later buckets hold earlier timeouts.\<close>

lemma bucket_due:
  assumes "in_bucket l n idx" "l \<le> n" "in_bucket l t i" "idx < i"
  shows "t \<le> n"
proof (cases "t \<le> l")
  case False
  with assms have a: "agree (63 - i) t l" "\<not> agree (62 - idx) n l" "l < n" "63 - i \<le> 62 - idx"
    by (auto simp: in_bucket_def split: if_splits)
  then have "l div 2 ^ (62 - idx) < n div 2 ^ (62 - idx)"
    by (intro disagree_less) (simp_all add: agree_sym)
  moreover have "t div 2 ^ (62 - idx) = l div 2 ^ (62 - idx)"
    using agree_mono [OF a(1,4)] by (simp add: agree_def)
  ultimately show ?thesis
    using div_less_imp [of t "62 - idx" n] by simp
qed (use assms in simp)

lemma bucket_order:
  assumes "in_bucket l t i" "in_bucket l t' j" "j < i"
  shows "t < t'"
proof (cases "t \<le> l")
  case True
  with assms show ?thesis
    by (auto simp: in_bucket_def split: if_splits)
next
  case False
  with assms have a: "agree (63 - i) t l" "\<not> agree (62 - j) t' l" "l < t'" "63 - i \<le> 62 - j"
    by (auto simp: in_bucket_def split: if_splits)
  then have "l div 2 ^ (62 - j) < t' div 2 ^ (62 - j)"
    by (intro disagree_less) (simp_all add: agree_sym)
  moreover have "t div 2 ^ (62 - j) = l div 2 ^ (62 - j)"
    using agree_mono [OF a(1,4)] by (simp add: agree_def)
  ultimately show ?thesis
    using div_less_imp [of t "62 - j" t'] by simp
qed

lemma bucket_stays:
  assumes "in_bucket l n idx" "l \<le> n" "in_bucket l t i" "i < idx"
  shows "in_bucket n t i"
proof (cases "n = l")
  case False
  with assms have a: "agree (63 - idx) n l" "agree (63 - i) t l" "\<not> agree (62 - i) t l" "63 - idx \<le> 62 - i" "i < 63"
    by (auto simp: in_bucket_def split: if_splits)
  have "agree (62 - i) n l" "agree (63 - i) n l"
    using agree_mono [OF a(1)] a(4) by auto
  then have "agree (63 - i) t n" "\<not> agree (62 - i) t n"
    using a(2,3) by (auto simp: agree_def)
  moreover have "n < t"
    using bucket_order [OF assms(1,3,4)] .
  ultimately show ?thesis
    using a(5) by (simp add: in_bucket_def)
qed (use assms in simp)

lemma bucket_moves:
  assumes "in_bucket l n idx" "l \<le> n" "in_bucket l t idx" "n < t" "in_bucket n t j"
  shows "idx < j"
proof -
  have "l < n"
    using assms by (auto simp: in_bucket_def split: if_splits)
  with assms have a: "agree (63 - idx) n l" "\<not> agree (62 - idx) n l" "agree (63 - idx) t l" "\<not> agree (62 - idx) t l"
      "idx < 63" "\<not> agree (62 - j) t n" "j < 63"
    by (auto simp: in_bucket_def split: if_splits)
  have "63 - idx = Suc (62 - idx)"
    using a(5) by simp
  then have "agree (62 - idx) t n"
    using agree_two [of "62 - idx" t l n] a \<open>l < n\<close> assms(4) by simp
  then have "\<not> 62 - idx \<le> 62 - j"
    using a(6) agree_mono by blast
  then show ?thesis by simp
qed

section \<open>The invariant\<close>

definition ts_active :: "'t timer_set \<Rightarrow> 't multiset" where
  "ts_active s = mset (concat (ts_buckets s))"

text \<open>\<open>k\<close> is a bucket that is being emptied, if any; what is said of the others holds for it afterwards.\<close>

definition buckets_ok :: "('t \<Rightarrow> int) \<Rightarrow> nat option \<Rightarrow> 't timer_set \<Rightarrow> bool" where
  "buckets_ok tmo k s \<longleftrightarrow> length (ts_buckets s) = 64 \<and> 0 \<le> ts_last s
    \<and> (\<forall>i < 64. Some i \<noteq> k \<longrightarrow> (bit (ts_non_empty s) i \<longleftrightarrow> ts_buckets s ! i \<noteq> [])
        \<and> (\<forall>t\<in>set (ts_buckets s ! i). in_bucket (ts_last s) (tmo t) i))
    \<and> (\<forall>t\<in>#ts_active s. tmo t \<le> max_timestamp) \<and> ts_next s \<le> max_timestamp"

definition ts_inv :: "('t \<Rightarrow> int) \<Rightarrow> 't timer_set \<Rightarrow> bool" where
  "ts_inv tmo s \<longleftrightarrow> buckets_ok tmo None s \<and> (\<forall>t\<in>#ts_active s. ts_next s \<le> tmo t)"

lemma bit_set_non_empty: "i < 64 \<Longrightarrow> bit (set_non_empty i b w) j \<longleftrightarrow> (if i = j then b else bit (w :: u64) j)"
  by (auto simp: set_non_empty_def bit_simps)

lemma mset_buckets_update:
  "i < length bs \<Longrightarrow> mset (concat (bs[i := x])) + mset (bs ! i) = mset (concat bs) + mset x"
  by (induction bs arbitrary: i) (auto split: nat.splits)

lemma in_active_iff: "t \<in># ts_active s \<longleftrightarrow> (\<exists>i < length (ts_buckets s). t \<in> set (ts_buckets s ! i))"
  by (auto simp: ts_active_def in_set_conv_nth set_concat) (metis in_set_conv_nth nth_mem)+

lemma ts_insert_spec:
  assumes "buckets_ok tmo k s" "tmo t \<le> max_timestamp" "\<not> in_bucket (ts_last s) (tmo t) (the k) \<or> k = None"
  shows "\<exists>b s' i. ts_insert tmo t s = Some (b, s') \<and> buckets_ok tmo k s' \<and> ts_active s' = add_mset t (ts_active s)
    \<and> ts_last s' = ts_last s \<and> ts_next s' = min (ts_next s) (tmo t) \<and> (b \<longleftrightarrow> tmo t < ts_next s)
    \<and> in_bucket (ts_last s) (tmo t) i \<and> i < 64 \<and> ts_buckets s' = (ts_buckets s)[i := ts_buckets s ! i @ [t]]"
proof -
  have l: "length (ts_buckets s) = 64" "0 \<le> ts_last s"
    using assms(1) by (simp_all add: buckets_ok_def)
  obtain i where i: "i < 64" "get_index (ts_last s) (tmo t) = Some i" "in_bucket (ts_last s) (tmo t) i"
    using get_index_in_bucket [OF l(2) assms(2)] by blast
  let ?s = "s\<lparr>ts_buckets := (ts_buckets s)[i := ts_buckets s ! i @ [t]],
      ts_non_empty := set_non_empty i True (ts_non_empty s), ts_next := min (ts_next s) (tmo t)\<rparr>"
  have act: "ts_active ?s = add_mset t (ts_active s)"
    using mset_buckets_update [of i "ts_buckets s" "ts_buckets s ! i @ [t]"] i(1) l(1) by (simp add: ts_active_def)
  have "ts_insert tmo t s = Some (tmo t < ts_next s, ?s)"
    using i(2) by (auto simp: ts_insert_def Let_def min_def)
  moreover have "Some i \<noteq> k"
    using assms(3) i(3) by auto
  then have "buckets_ok tmo k ?s"
    unfolding buckets_ok_def act
    using assms(1,2) i l by (auto simp: buckets_ok_def bit_set_non_empty nth_list_update min_le_iff_disj)
  ultimately show ?thesis
    using act i by auto
qed

lemma ts_remove_spec:
  assumes "ts_inv tmo s" "t \<in># ts_active s"
  shows "\<exists>s'. ts_remove tmo t s = Some s' \<and> ts_inv tmo s' \<and> ts_active s' = ts_active s - {#t#}
    \<and> ts_last s' = ts_last s \<and> ts_next s' = ts_next s"
proof -
  have ok: "buckets_ok tmo None s"
    using assms(1) by (simp add: ts_inv_def)
  then have l: "length (ts_buckets s) = 64" "0 \<le> ts_last s"
    by (simp_all add: buckets_ok_def)
  obtain i where i: "i < 64" "t \<in> set (ts_buckets s ! i)"
    using assms(2) l(1) by (auto simp: in_active_iff)
  then have g: "get_index (ts_last s) (tmo t) = Some i"
    using ok assms(2) get_index_iff [OF l(2)] by (auto simp: buckets_ok_def)
  let ?l = "remove1 t (ts_buckets s ! i)"
  let ?s = "s\<lparr>ts_buckets := (ts_buckets s)[i := ?l],
      ts_non_empty := (if ?l = [] then set_non_empty i False (ts_non_empty s) else ts_non_empty s)\<rparr>"
  have act: "ts_active ?s = ts_active s - {#t#}"
  proof -
    have b: "mset (ts_buckets s ! i) = add_mset t (mset ?l)"
      using i(2) by simp
    have "mset (concat ((ts_buckets s)[i := ?l])) + mset (ts_buckets s ! i) = ts_active s + mset ?l"
      unfolding ts_active_def by (rule mset_buckets_update) (simp add: i(1) l(1))
    then have "add_mset t (mset (concat ((ts_buckets s)[i := ?l]))) + mset ?l = ts_active s + mset ?l"
      unfolding b by (simp only: union_mset_add_mset_right union_mset_add_mset_left)
    then have "add_mset t (mset (concat ((ts_buckets s)[i := ?l]))) = ts_active s"
      by (simp only: add_right_cancel)
    from this [symmetric] show ?thesis
      by (simp add: ts_active_def)
  qed
  have "ts_remove tmo t s = Some ?s"
    using g i by (simp add: ts_remove_def Let_def)
  moreover have "buckets_ok tmo None ?s"
    unfolding buckets_ok_def act
    using ok i l by (auto simp: buckets_ok_def bit_set_non_empty nth_list_update dest: in_diffD notin_set_remove1)
  then have "ts_inv tmo ?s"
    using assms(1) act by (auto simp: ts_inv_def dest: in_diffD)
  ultimately show ?thesis
    using act by auto
qed

lemma splice_buckets_spec:
  assumes "splice_buckets js exp s = (exp', s')" "distinct js" "\<forall>j\<in>set js. j < 64" "length (ts_buckets s) = 64"
  shows "exp' = exp @ concat (map ((!) (ts_buckets s)) js) \<and> length (ts_buckets s') = 64
    \<and> (\<forall>i < 64. ts_buckets s' ! i = (if i \<in> set js then [] else ts_buckets s ! i))
    \<and> (\<forall>i < 64. bit (ts_non_empty s') i \<longleftrightarrow> bit (ts_non_empty s) i \<and> i \<notin> set js)
    \<and> ts_active s' + mset exp' = ts_active s + mset exp
    \<and> ts_last s' = ts_last s \<and> ts_next s' = ts_next s"
  using assms
proof (induction js arbitrary: exp s)
  case (Cons j js)
  let ?s = "s\<lparr>ts_buckets := (ts_buckets s)[j := []], ts_non_empty := set_non_empty j False (ts_non_empty s)\<rparr>"
  have j: "j < 64" "j \<notin> set js" "length (ts_buckets s) = 64"
    using Cons.prems by auto
  have IH: "exp' = (exp @ ts_buckets s ! j) @ concat (map ((!) (ts_buckets ?s)) js) \<and> length (ts_buckets s') = 64
    \<and> (\<forall>i < 64. ts_buckets s' ! i = (if i \<in> set js then [] else ts_buckets ?s ! i))
    \<and> (\<forall>i < 64. bit (ts_non_empty s') i \<longleftrightarrow> bit (ts_non_empty ?s) i \<and> i \<notin> set js)
    \<and> ts_active s' + mset exp' = ts_active ?s + mset (exp @ ts_buckets s ! j)
    \<and> ts_last s' = ts_last ?s \<and> ts_next s' = ts_next ?s"
    using Cons.prems by (intro Cons.IH) auto
  have m: "map ((!) (ts_buckets ?s)) js = map ((!) (ts_buckets s)) js"
    using j(2) by (intro map_cong refl) (auto intro!: nth_list_update_neq)
  have "ts_active ?s + mset (ts_buckets s ! j) = ts_active s"
    using mset_buckets_update [of j "ts_buckets s" "[]"] j by (simp add: ts_active_def)
  then have "ts_active ?s + mset (exp @ ts_buckets s ! j) = ts_active s + mset exp"
    by (simp add: union_ac)
  with IH [unfolded m] j show ?case
    by (auto simp: bit_set_non_empty nth_list_update)
qed simp

text \<open>
  The bucket being drained. Timers inserted again go to later buckets, which were empty before: \<open>ts_next\<close>
  is the earliest of them, as long as there is one before \<open>max_timestamp\<close>.
\<close>

definition later :: "nat \<Rightarrow> 't timer_set \<Rightarrow> 't set" where
  "later idx s = (\<Union>i\<in>{idx<..<64}. set (ts_buckets s ! i))"

lemma later_drained: "later idx (s\<lparr>ts_buckets := (ts_buckets s)[idx := list]\<rparr>) = later idx s"
  by (simp add: later_def)

lemma later_inserted:
  "idx < i \<Longrightarrow> i < 64 \<Longrightarrow> length (ts_buckets s) = 64 \<Longrightarrow>
    ts_buckets s' = (ts_buckets s)[i := ts_buckets s ! i @ [t]] \<Longrightarrow> later idx s' = insert t (later idx s)"
  by (auto simp: later_def nth_list_update split: if_splits)

definition drain_inv :: "('t \<Rightarrow> int) \<Rightarrow> nat \<Rightarrow> 't timer_set \<Rightarrow> bool" where
  "drain_inv tmo idx s \<longleftrightarrow> buckets_ok tmo (Some idx) s \<and> idx < 64
    \<and> (\<forall>t\<in>set (ts_buckets s ! idx). ts_last s < tmo t \<longrightarrow> \<not> in_bucket (ts_last s) (tmo t) idx
        \<and> (\<forall>j. in_bucket (ts_last s) (tmo t) j \<longrightarrow> idx < j))
    \<and> (\<forall>t\<in>later idx s. ts_next s \<le> tmo t \<and> ts_last s < tmo t)
    \<and> (ts_next s < max_timestamp \<longrightarrow> ts_next s \<in> tmo ` later idx s)"

lemma drain_bucket_spec:
  assumes "drain_inv tmo idx s" "ts_last s = now"
  shows "\<exists>s'. drain_bucket tmo now idx exp s = Some (exp @ filter (\<lambda>t. tmo t \<le> now) (ts_buckets s ! idx), s')
    \<and> drain_inv tmo idx s' \<and> ts_buckets s' ! idx = [] \<and> ts_last s' = now
    \<and> (\<forall>i < idx. ts_buckets s' ! i = ts_buckets s ! i)
    \<and> ts_active s = ts_active s' + mset (filter (\<lambda>t. tmo t \<le> now) (ts_buckets s ! idx))"
  using assms
proof (induction "ts_buckets s ! idx" arbitrary: s exp)
  case Nil
  then show ?case
    by (subst drain_bucket.simps) auto
next
  case (Cons t list)
  let ?s = "s\<lparr>ts_buckets := (ts_buckets s)[idx := list]\<rparr>"
  have l: "length (ts_buckets s) = 64" "idx < 64"
    using Cons.prems by (simp_all add: drain_inv_def buckets_ok_def)
  have act: "ts_active s = add_mset t (ts_active ?s)"
    using mset_buckets_update [of idx "ts_buckets s" list] l by (simp add: ts_active_def flip: Cons.hyps(2))
  have bu: "ts_buckets ?s ! idx = list" "i \<noteq> idx \<Longrightarrow> ts_buckets ?s ! i = ts_buckets s ! i" for i
    using l by simp_all
  have tin: "t \<in> set (ts_buckets s ! idx)" "set list \<subseteq> set (ts_buckets s ! idx)"
    by (auto simp flip: Cons.hyps(2))
  have inv: "drain_inv tmo idx ?s"
    using Cons.prems(1) tin l bu act unfolding drain_inv_def buckets_ok_def later_drained by (auto simp: subset_iff)
  show ?case
  proof (cases "tmo t \<le> now")
    case True
    then have "drain_bucket tmo now idx exp s = drain_bucket tmo now idx (exp @ [t]) ?s"
      by (subst drain_bucket.simps) (simp flip: Cons.hyps(2))
    then show ?thesis
      using Cons.hyps(1) [of ?s "exp @ [t]"] inv bu Cons.prems(2) True act by (auto simp flip: Cons.hyps(2))
  next
    case False
    have "tmo t \<le> max_timestamp" "\<not> in_bucket (ts_last ?s) (tmo t) (the (Some idx))"
      using Cons.prems False tin(1) act by (auto simp: drain_inv_def buckets_ok_def)
    then obtain b s2 i where s2: "ts_insert tmo t ?s = Some (b, s2)" "buckets_ok tmo (Some idx) s2"
        "ts_active s2 = add_mset t (ts_active ?s)" "ts_last s2 = now" "ts_next s2 = min (ts_next s) (tmo t)"
        "in_bucket now (tmo t) i" "i < 64" "ts_buckets s2 = (ts_buckets ?s)[i := ts_buckets ?s ! i @ [t]]"
      using ts_insert_spec [of tmo "Some idx" ?s t] inv Cons.prems(2) by (auto simp: drain_inv_def)
    have i: "idx < i"
      using Cons.prems False tin(1) s2(6) by (auto simp: drain_inv_def)
    have bu2: "ts_buckets s2 ! idx = list" "ts_buckets s2 ! i = ts_buckets s ! i @ [t]"
        "j \<noteq> i \<Longrightarrow> j \<noteq> idx \<Longrightarrow> ts_buckets s2 ! j = ts_buckets s ! j" for j
      using i s2(7,8) l by auto
    have later: "later idx s2 = insert t (later idx s)"
      using later_inserted [of idx i ?s s2 t] i s2(7,8) l by (simp add: later_drained)
    have "ts_next s2 \<in> tmo ` later idx s2" if "ts_next s2 < max_timestamp"
      using that Cons.prems(1) s2(5) unfolding drain_inv_def later by (auto simp: min_def split: if_splits)
    then have "drain_inv tmo idx s2"
      using s2(2,4,5) Cons.prems False tin(2) bu2(1) unfolding drain_inv_def later by (auto simp: subset_iff)
    moreover have "drain_bucket tmo now idx exp s = drain_bucket tmo now idx exp s2"
      using False s2(1) by (subst drain_bucket.simps) (simp flip: Cons.hyps(2))
    ultimately show ?thesis
      using Cons.hyps(1) [of s2 exp] bu2 i s2(3,4) act False by (auto simp flip: Cons.hyps(2))
  qed
qed

text \<open>The earliest of the timers left, found in the last bucket that is not empty.\<close>

lemma foldl_min: "foldl (\<lambda>m t. min m (tmo t)) m ts = (if ts = [] then m else min m (Min (tmo ` set ts)) :: int)"
proof (induction ts arbitrary: m)
  case (Cons t ts)
  then show ?case
    by (cases "ts = []") (simp_all add: min.assoc)
qed simp

lemma buckets_ok_drained:
  assumes "buckets_ok tmo (Some idx) s" "idx < 64" "ts_buckets s ! idx = []"
  shows "buckets_ok tmo None (s\<lparr>ts_non_empty := set_non_empty idx False (ts_non_empty s)\<rparr>)"
proof -
  let ?s = "s\<lparr>ts_non_empty := set_non_empty idx False (ts_non_empty s)\<rparr>"
  have "ts_active ?s = ts_active s"
    by (simp add: ts_active_def)
  then show ?thesis
    using assms by (auto simp: buckets_ok_def bit_set_non_empty)
qed

definition earliest :: "('t \<Rightarrow> int) \<Rightarrow> 't timer_set \<Rightarrow> int" where
  "earliest tmo s = (if ts_active s = {#} then max_timestamp else Min (tmo ` set_mset (ts_active s)))"

lemma earliestI:
  assumes "t \<in># ts_active s" "\<And>t'. t' \<in># ts_active s \<Longrightarrow> tmo t \<le> tmo t'"
  shows "earliest tmo s = tmo t"
  using assms by (auto simp: earliest_def intro!: Min_eqI)

lemma earliest_le:
  assumes "\<forall>t\<in>#ts_active s. tmo t \<le> max_timestamp"
  shows "earliest tmo s \<le> max_timestamp \<and> (\<forall>t\<in>#ts_active s. earliest tmo s \<le> tmo t)"
proof (cases "ts_active s = {#}")
  case False
  then obtain t where "t \<in># ts_active s"
    by (auto elim: multiset_nonemptyE)
  moreover have "earliest tmo s \<le> tmo t" if "t \<in># ts_active s" for t
    using that False by (simp add: earliest_def)
  ultimately show ?thesis
    using assms by (meson order_trans)
qed (simp add: earliest_def)

lemma last_bucket_earliest:
  assumes "buckets_ok tmo None s" "get_last_set (ts_non_empty s) = Some k" "ts_non_empty s \<noteq> 0"
  shows "min max_timestamp (Min (tmo ` set (ts_buckets s ! k))) = earliest tmo s \<and> ts_buckets s ! k \<noteq> []"
proof -
  have k: "k < 64" "bit (ts_non_empty s) k" "\<forall>j > k. \<not> bit (ts_non_empty s) j"
    using get_last_set_spec [OF assms(3)] assms(2) by auto
  let ?b = "ts_buckets s ! k"
  have b: "?b \<noteq> []"
    using assms(1) k by (simp add: buckets_ok_def)
  then have "Min (tmo ` set ?b) \<in> tmo ` set ?b"
    by simp
  then obtain t where t: "t \<in> set ?b" "tmo t = Min (tmo ` set ?b)"
    by (metis image_iff)
  have l: "length (ts_buckets s) = 64"
    using assms(1) by (simp add: buckets_ok_def)
  then have act: "t \<in># ts_active s"
    using t(1) k(1) by (auto simp: in_active_iff)
  have "tmo t \<le> tmo t'" if t': "t' \<in># ts_active s" for t'
  proof -
    obtain j where j: "j < 64" "t' \<in> set (ts_buckets s ! j)"
      using t' l by (auto simp: in_active_iff)
    then have "bit (ts_non_empty s) j"
      using assms(1) by (auto simp: buckets_ok_def)
    then have "j \<le> k"
      using k(3) by (meson not_less)
    show ?thesis
    proof (cases "j = k")
      case True
      then show ?thesis
        using j(2) t(2) by simp
    next
      case False
      then show ?thesis
        using bucket_order [of "ts_last s" "tmo t" k "tmo t'" j] assms(1) j t(1) k(1) \<open>j \<le> k\<close>
        by (auto simp: buckets_ok_def intro!: less_imp_le)
    qed
  qed
  then have "earliest tmo s = tmo t"
    by (rule earliestI [OF act])
  moreover have "tmo t \<le> max_timestamp"
    using assms(1) act by (simp add: buckets_ok_def)
  ultimately show ?thesis
    using t(2) b by (simp add: min_absorb2)
qed

text \<open>What the first half of \<open>expire\<close> leaves: the state in which the bucket of the current time is drained.\<close>

lemma splice_due:
  assumes "ts_inv tmo s" "ts_last s \<le> now" "in_bucket (ts_last s) now idx" "idx < 64"
    and "splice_buckets (for_each_set (ts_non_empty s) (idx + 1)) [] s = (exp, s1)"
  defines "s1' \<equiv> s1\<lparr>ts_last := now, ts_next := max_timestamp\<rparr>"
  shows "drain_inv tmo idx s1' \<and> ts_active s = ts_active s1' + mset exp \<and> (\<forall>t\<in>set exp. tmo t \<le> now)
    \<and> (\<forall>i < 64. ts_buckets s1' ! i = (if idx < i then [] else ts_buckets s ! i))"
proof -
  let ?js = "filter (bit (ts_non_empty s)) [idx + 1..<64]"
  have ok: "buckets_ok tmo None s"
    using assms(1) by (simp add: ts_inv_def)
  then have l: "length (ts_buckets s) = 64" "0 \<le> ts_last s"
      "\<And>i. i < 64 \<Longrightarrow> bit (ts_non_empty s) i \<longleftrightarrow> ts_buckets s ! i \<noteq> []"
      "\<And>i t. i < 64 \<Longrightarrow> t \<in> set (ts_buckets s ! i) \<Longrightarrow> in_bucket (ts_last s) (tmo t) i"
    by (simp_all add: buckets_ok_def)
  have js: "distinct ?js" "\<forall>j\<in>set ?js. j < 64"
    by auto
  note sp = splice_buckets_spec [OF assms(5) [unfolded for_each_set_spec] js l(1)]
  have b: "ts_buckets s1' ! i = (if idx < i then [] else ts_buckets s ! i)" if "i < 64" for i
    using sp l(3) that by (auto simp: s1'_def)
  have bits: "bit (ts_non_empty s1') i \<longleftrightarrow> ts_buckets s1' ! i \<noteq> []" if "i < 64" for i
    using sp l(3) that b [OF that] by (auto simp: s1'_def)
  have "ts_active s1 + mset exp = ts_active s"
    using sp by (elim conjE) simp
  then have act: "ts_active s = ts_active s1' + mset exp"
    by (simp add: s1'_def ts_active_def)
  have exp: "exp = concat (map ((!) (ts_buckets s)) ?js)"
    using sp by simp
  have due: "\<forall>t\<in>set exp. tmo t \<le> now"
  proof
    fix t assume "t \<in> set exp"
    then obtain j where "j \<in> set ?js" "t \<in> set (ts_buckets s ! j)"
      unfolding exp by auto
    then show "tmo t \<le> now"
      using l(4) [of j t] bucket_due [OF assms(3,2), of "tmo t" j] by auto
  qed
  have "buckets_ok tmo (Some idx) s1'"
    unfolding buckets_ok_def
  proof (intro conjI allI impI ballI)
    fix i t assume i: "i < 64" "Some i \<noteq> Some idx" "t \<in> set (ts_buckets s1' ! i)"
    then have "i < idx" "in_bucket (ts_last s) (tmo t) i"
      using b [OF i(1)] l(4) by (auto split: if_splits)
    then show "in_bucket (ts_last s1') (tmo t) i"
      using bucket_stays [OF assms(3,2)] by (simp add: s1'_def)
  qed (use sp l ok act bits assms(2) in \<open>auto simp: s1'_def buckets_ok_def\<close>)
  moreover have "later idx s1' = {}"
    using b by (auto simp: later_def)
  moreover have "idx < j" if "t \<in> set (ts_buckets s1' ! idx)" "now < tmo t" "in_bucket now (tmo t) j" for t j
    using that b [OF assms(4)] l(4) [OF assms(4)] bucket_moves [OF assms(3,2)] by auto
  ultimately have "drain_inv tmo idx s1'"
    using assms(4) by (fastforce simp: drain_inv_def s1'_def)
  with act due b show ?thesis
    by blast
qed

lemma filter_split:
  assumes "m = a + b" "\<forall>t\<in>#a. now < tmo t" "\<forall>t\<in>#b. tmo t \<le> (now :: int)"
  shows "b = filter_mset (\<lambda>t. tmo t \<le> now) m" "a = filter_mset (\<lambda>t. now < tmo t) m"
proof -
  have "filter_mset (\<lambda>t. tmo t \<le> now) a = {#}" "filter_mset (\<lambda>t. tmo t \<le> now) b = b"
      "filter_mset (\<lambda>t. now < tmo t) b = {#}" "filter_mset (\<lambda>t. now < tmo t) a = a"
    using assms(2,3) by (auto intro!: multiset_eqI simp: count_eq_zero_iff not_in_iff [symmetric])
  then show "b = filter_mset (\<lambda>t. tmo t \<le> now) m" "a = filter_mset (\<lambda>t. now < tmo t) m"
    by (simp_all add: assms(1))
qed

text \<open>After draining, \<open>ts_next\<close> is the earliest timeout if one was inserted again before \<open>max_timestamp\<close>.\<close>

lemma drained_next:
  assumes "drain_inv tmo idx s" "ts_buckets s ! idx = []" "ts_next s < max_timestamp"
  shows "earliest tmo s = ts_next s"
proof -
  obtain t where t: "t \<in> later idx s" "ts_next s = tmo t"
    using assms(1,3) by (auto simp: drain_inv_def)
  then obtain i where i: "idx < i" "i < 64" "t \<in> set (ts_buckets s ! i)"
    by (auto simp: later_def)
  have l: "length (ts_buckets s) = 64"
    using assms(1) by (simp add: drain_inv_def buckets_ok_def)
  have "tmo t \<le> tmo t'" if t': "t' \<in># ts_active s" for t'
  proof -
    obtain j where j: "j < 64" "t' \<in> set (ts_buckets s ! j)"
      using t' l by (auto simp: in_active_iff)
    show ?thesis
    proof (cases "idx < j")
      case True
      then have "t' \<in> later idx s"
        using j by (auto simp: later_def)
      then show ?thesis
        using assms(1) t(2) by (auto simp: drain_inv_def)
    next
      case False
      then have "j < i" "j \<noteq> idx"
        using i(1) j(2) assms(2) by auto
      then have "in_bucket (ts_last s) (tmo t) i" "in_bucket (ts_last s) (tmo t') j"
        using assms(1) i j by (auto simp: drain_inv_def buckets_ok_def)
      from bucket_order [OF this \<open>j < i\<close>] show ?thesis by simp
    qed
  qed
  then show ?thesis
    unfolding t(2) using i l by (intro earliestI) (auto simp: in_active_iff)
qed

lemma drained_late:
  assumes "drain_inv tmo idx s" "ts_buckets s ! idx = []" "in_bucket l (ts_last s) idx" 
    and "\<forall>i < idx. \<forall>t\<in>set (ts_buckets s ! i). in_bucket l (tmo t) i" "t \<in># ts_active s"
  shows "ts_last s < tmo t"
proof -
  have l: "length (ts_buckets s) = 64"
    using assms(1) by (simp add: drain_inv_def buckets_ok_def)
  then obtain i where i: "i < 64" "t \<in> set (ts_buckets s ! i)"
    using assms(5) by (auto simp: in_active_iff)
  consider "i < idx" | "idx < i"
    using i(2) assms(2) by (cases i idx rule: linorder_cases) auto
  then show ?thesis
  proof cases
    case 1
    then show ?thesis
      using bucket_order [OF assms(3)] assms(4) i(2) by blast
  next
    case 2
    then have "t \<in> later idx s"
      using i by (auto simp: later_def)
    then show ?thesis
      using assms(1) by (auto simp: drain_inv_def)
  qed
qed

lemma ts_expire_spec:
  assumes "ts_inv tmo s" "ts_last s \<le> now" "now \<le> max_timestamp"
  shows "\<exists>exp s'. ts_expire tmo now s = Some (exp, s') \<and> ts_inv tmo s' \<and> ts_last s' = now
    \<and> mset exp = filter_mset (\<lambda>t. tmo t \<le> now) (ts_active s)
    \<and> ts_active s' = filter_mset (\<lambda>t. now < tmo t) (ts_active s) \<and> ts_next s' = earliest tmo s'"
proof -
  have ok: "buckets_ok tmo None s"
    using assms(1) by (simp add: ts_inv_def)
  then obtain idx where idx: "idx < 64" "get_index (ts_last s) now = Some idx" "in_bucket (ts_last s) now idx"
    using get_index_in_bucket [of "ts_last s" now] assms(3) by (auto simp: buckets_ok_def)
  obtain exp s1 where sp: "splice_buckets (for_each_set (ts_non_empty s) (idx + 1)) [] s = (exp, s1)"
    by fastforce
  let ?s1 = "s1\<lparr>ts_last := now, ts_next := max_timestamp\<rparr>"
  note s1 = splice_due [OF assms(1,2) idx(3,1) sp]
  let ?due = "filter (\<lambda>t. tmo t \<le> now) (ts_buckets ?s1 ! idx)"
  obtain s2 where s2: "drain_bucket tmo now idx exp ?s1 = Some (exp @ ?due, s2)" "drain_inv tmo idx s2"
      "ts_buckets s2 ! idx = []" "ts_last s2 = now" "\<forall>i < idx. ts_buckets s2 ! i = ts_buckets ?s1 ! i"
      "ts_active ?s1 = ts_active s2 + mset ?due"
    using drain_bucket_spec [of tmo idx ?s1 now exp] s1 by auto
  have act: "ts_active s = ts_active s2 + mset (exp @ ?due)"
    using s1 s2(6) by (simp add: union_ac)
  have "\<forall>i < idx. \<forall>t\<in>set (ts_buckets s2 ! i). in_bucket (ts_last s) (tmo t) i"
    using s2(5) s1 ok idx(1) by (auto simp: buckets_ok_def)
  then have late: "\<forall>t\<in>#ts_active s2. now < tmo t"
    using drained_late [OF s2(2,3), of "ts_last s"] idx(3) s2(4) by auto
  let ?s3 = "s2\<lparr>ts_non_empty := set_non_empty idx False (ts_non_empty s2)\<rparr>"
  have s3: "buckets_ok tmo None ?s3" "ts_active ?s3 = ts_active s2"
    using buckets_ok_drained [OF _ idx(1) s2(3)] s2(2) by (simp_all add: drain_inv_def ts_active_def)
  have next_le: "ts_next s2 \<le> max_timestamp"
    using s2(2) by (simp add: drain_inv_def buckets_ok_def)
  have e: "earliest tmo (x\<lparr>ts_next := n\<rparr>) = earliest tmo x" "earliest tmo ?s3 = earliest tmo s2" for x n
    by (simp_all add: earliest_def ts_active_def)
  have "\<exists>s'. ts_expire tmo now s = Some (exp @ ?due, s') \<and> (\<exists>n. s' = ?s3\<lparr>ts_next := n\<rparr>) \<and> ts_next s' = earliest tmo s2"
  proof (cases "ts_next s2 = max_timestamp \<and> ts_non_empty ?s3 \<noteq> 0")
    case True
    then obtain k where k: "get_last_set (ts_non_empty ?s3) = Some k"
      using get_last_set_spec by blast
    from last_bucket_earliest [OF s3(1) k] True
    have "foldl (\<lambda>m t. min m (tmo t)) (ts_next ?s3) (ts_buckets ?s3 ! k) = earliest tmo s2"
      by (simp add: foldl_min e)
    then show ?thesis
      using assms(2) idx(2) sp s2(1,3) k True by (simp add: ts_expire_def Let_def) blast
  next
    case False
    then have "ts_expire tmo now s = Some (exp @ ?due, ?s3)"
      using assms(2) idx(2) sp s2(1,3) by (auto simp: ts_expire_def Let_def)
    moreover have "ts_next s2 = earliest tmo s2"
    proof (cases "ts_next s2 < max_timestamp")
      case True
      then show ?thesis
        using drained_next [OF s2(2,3)] by simp
    next
      case n: False
      then have "ts_non_empty ?s3 = 0"
        using False next_le by auto
      then have "\<forall>i < 64. ts_buckets ?s3 ! i = []"
        using s3(1) unfolding buckets_ok_def by (metis bit_0_eq bot_apply bot_bool_def option.distinct(1))
      moreover have "length (ts_buckets s2) = 64"
        using s3(1) by (simp add: buckets_ok_def)
      ultimately have "t \<notin># ts_active s2" for t
        by (auto simp: in_active_iff)
      then have "ts_active s2 = {#}"
        by (metis multiset_nonemptyE)
      then show ?thesis
        using n next_le by (simp add: earliest_def)
    qed
    ultimately show ?thesis
      by (intro exI [of _ ?s3]) (auto intro!: exI [of _ "ts_next s2"])
  qed
  then obtain s' n where s': "ts_expire tmo now s = Some (exp @ ?due, s')" "s' = ?s3\<lparr>ts_next := n\<rparr>" "n = earliest tmo s2"
    by auto
  have act': "ts_active s' = ts_active s2"
    by (simp add: s'(2) ts_active_def)
  have le: "n \<le> max_timestamp \<and> (\<forall>t\<in>#ts_active s2. n \<le> tmo t)"
    using earliest_le [of s2 tmo] s3 by (simp add: s'(3) buckets_ok_def)
  have "buckets_ok tmo None s'"
    using s3(1) le act' s3(2) unfolding buckets_ok_def by (simp add: s'(2))
  then have "ts_inv tmo s'"
    using le act' by (simp add: ts_inv_def s'(2))
  moreover have "\<forall>t\<in>#mset (exp @ ?due). tmo t \<le> now"
    using s1 by auto
  note filtered = filter_split [OF act late this]
  moreover have "ts_active s' = filter_mset (\<lambda>t. now < tmo t) (ts_active s)"
    unfolding act' by (rule filtered(2))
  moreover have "ts_last s' = now" "ts_next s' = earliest tmo s'"
    by (simp_all add: s'(2,3) s2(4) e)
  ultimately show ?thesis
    using s'(1) by blast
qed


section \<open>The interface\<close>

text \<open>
  What a client relies on. \<open>active\<close> is the multiset of the timers that are in, \<open>time\<close> the time of the
  last expiry and \<open>due\<close> the time before which no timer has to expire.
\<close>

locale timer_queue =
  fixes invar :: "('t \<Rightarrow> int) \<Rightarrow> 's \<Rightarrow> bool"
    and active :: "'s \<Rightarrow> 't multiset"
    and time :: "'s \<Rightarrow> int"
    and due :: "'s \<Rightarrow> int"
    and insert :: "('t \<Rightarrow> int) \<Rightarrow> 't \<Rightarrow> 's \<Rightarrow> (bool \<times> 's) option"
    and remove :: "('t \<Rightarrow> int) \<Rightarrow> 't \<Rightarrow> 's \<Rightarrow> 's option"
    and expire :: "('t \<Rightarrow> int) \<Rightarrow> int \<Rightarrow> 's \<Rightarrow> ('t list \<times> 's) option"
  assumes insert_law: "invar tmo s \<Longrightarrow> tmo t \<le> max_timestamp \<Longrightarrow>
      \<exists>b s'. insert tmo t s = Some (b, s') \<and> invar tmo s' \<and> active s' = add_mset t (active s)
        \<and> time s' = time s \<and> due s' = min (due s) (tmo t) \<and> (b \<longleftrightarrow> tmo t < due s)"
    and remove_law: "invar tmo s \<Longrightarrow> t \<in># active s \<Longrightarrow>
      \<exists>s'. remove tmo t s = Some s' \<and> invar tmo s' \<and> active s' = active s - {#t#}
        \<and> time s' = time s \<and> due s' = due s"
    and expire_law: "invar tmo s \<Longrightarrow> time s \<le> now \<Longrightarrow> now \<le> max_timestamp \<Longrightarrow>
      \<exists>exp s'. expire tmo now s = Some (exp, s') \<and> invar tmo s' \<and> time s' = now
        \<and> mset exp = filter_mset (\<lambda>t. tmo t \<le> now) (active s)
        \<and> active s' = filter_mset (\<lambda>t. now < tmo t) (active s)
        \<and> (active s' = {#} \<longrightarrow> due s' = max_timestamp)"
    and due_law: "invar tmo s \<Longrightarrow> t \<in># active s \<Longrightarrow> due s \<le> tmo t"
    and timeouts_law: "invar tmo s \<Longrightarrow> (\<And>t. t \<in># active s \<Longrightarrow> tmo' t = tmo t) \<Longrightarrow> invar tmo' s"
    and active_le: "invar tmo s \<Longrightarrow> t \<in># active s \<Longrightarrow> tmo t \<le> max_timestamp"
    and due_le: "invar tmo s \<Longrightarrow> due s \<le> max_timestamp"

text \<open>A sequence of calls, the same against the abstract timer queue: a multiset and a clock.\<close>

datatype 't tq_call = Tq_insert 't | Tq_remove 't | Tq_expire int

fun tq_run where
  "tq_run ins rmv expr tmo [] s = Some ([], s)"
| "tq_run ins rmv expr tmo (Tq_insert t # cs) s =
    Option.bind (ins tmo t s) (\<lambda>(b, s'). tq_run ins rmv expr tmo cs s')"
| "tq_run ins rmv expr tmo (Tq_remove t # cs) s =
    Option.bind (rmv tmo t s) (tq_run ins rmv expr tmo cs)"
| "tq_run ins rmv expr tmo (Tq_expire now # cs) s =
    Option.bind (expr tmo now s) (\<lambda>(exp, s').
      map_option (\<lambda>(es, s''). (exp # es, s'')) (tq_run ins rmv expr tmo cs s'))"

fun tq_spec :: "('t \<Rightarrow> int) \<Rightarrow> 't tq_call list \<Rightarrow> 't multiset \<Rightarrow> 't multiset list \<times> 't multiset" where
  "tq_spec tmo [] m = ([], m)"
| "tq_spec tmo (Tq_insert t # cs) m = tq_spec tmo cs (add_mset t m)"
| "tq_spec tmo (Tq_remove t # cs) m = tq_spec tmo cs (m - {#t#})"
| "tq_spec tmo (Tq_expire now # cs) m =
    apfst ((#) (filter_mset (\<lambda>t. tmo t \<le> now) m)) (tq_spec tmo cs (filter_mset (\<lambda>t. now < tmo t) m))"

text \<open>The preconditions the comments of core/timer-set.hh state, and the range of a timestamp.\<close>

fun tq_legal :: "('t \<Rightarrow> int) \<Rightarrow> 't tq_call list \<Rightarrow> 't multiset \<Rightarrow> int \<Rightarrow> bool" where
  "tq_legal tmo [] m now = True"
| "tq_legal tmo (Tq_insert t # cs) m now = (tmo t \<le> max_timestamp \<and> tq_legal tmo cs (add_mset t m) now)"
| "tq_legal tmo (Tq_remove t # cs) m now = (t \<in># m \<and> tq_legal tmo cs (m - {#t#}) now)"
| "tq_legal tmo (Tq_expire n # cs) m now =
    (now \<le> n \<and> n \<le> max_timestamp \<and> tq_legal tmo cs (filter_mset (\<lambda>t. n < tmo t) m) n)"

context timer_queue
begin

lemma run_refines:
  assumes "invar tmo s" "tq_legal tmo cs (active s) (time s)"
  shows "\<exists>exps s'. tq_run insert remove expire tmo cs s = Some (exps, s') \<and> invar tmo s'
    \<and> tq_spec tmo cs (active s) = (map mset exps, active s')"
  using assms
proof (induction cs arbitrary: s)
  case (Cons c cs)
  show ?case
  proof (cases c)
    case (Tq_insert t)
    then obtain b s1 where "insert tmo t s = Some (b, s1)" "invar tmo s1"
        "active s1 = add_mset t (active s)" "time s1 = time s"
      using Cons.prems insert_law [of tmo s t] by auto
    then show ?thesis
      using Cons.IH [of s1] Cons.prems Tq_insert by auto
  next
    case (Tq_remove t)
    then obtain s1 where "remove tmo t s = Some s1" "invar tmo s1"
        "active s1 = active s - {#t#}" "time s1 = time s"
      using Cons.prems remove_law [of tmo s t] by auto
    then show ?thesis
      using Cons.IH [of s1] Cons.prems Tq_remove by auto
  next
    case (Tq_expire n)
    then obtain exp s1 where s1: "expire tmo n s = Some (exp, s1)" "invar tmo s1" "time s1 = n"
        "mset exp = filter_mset (\<lambda>t. tmo t \<le> n) (active s)"
        "active s1 = filter_mset (\<lambda>t. n < tmo t) (active s)"
      using Cons.prems expire_law [of tmo s n] by auto
    then obtain exps s' where "tq_run insert remove expire tmo cs s1 = Some (exps, s')" "invar tmo s'"
        "tq_spec tmo cs (active s1) = (map mset exps, active s')"
      using Cons.IH [of s1] Cons.prems Tq_expire by auto
    with s1 Tq_expire show ?thesis by auto
  qed
qed simp

end

lemma ts_inv_cong:
  assumes "ts_inv tmo s" "\<And>t. t \<in># ts_active s \<Longrightarrow> tmo' t = tmo t"
  shows "ts_inv tmo' s"
proof -
  have l: "length (ts_buckets s) = 64"
    using assms(1) by (simp add: ts_inv_def buckets_ok_def)
  have "tmo' t = tmo t" if "i < 64" "t \<in> set (ts_buckets s ! i)" for i t
    using that l by (intro assms(2)) (auto simp: in_active_iff)
  then show ?thesis
    using assms unfolding ts_inv_def buckets_ok_def by auto
qed

interpretation tq: timer_queue ts_inv ts_active ts_last ts_next ts_insert ts_remove ts_expire
proof unfold_locales
  fix tmo :: "'a \<Rightarrow> int" and s t
  assume s: "ts_inv tmo s" "tmo t \<le> max_timestamp"
  then obtain b s' where "ts_insert tmo t s = Some (b, s')" "buckets_ok tmo None s'"
      "ts_active s' = add_mset t (ts_active s)" "ts_last s' = ts_last s" "ts_next s' = min (ts_next s) (tmo t)"
      "b \<longleftrightarrow> tmo t < ts_next s"
    using ts_insert_spec [of tmo None s t] by (auto simp: ts_inv_def)
  moreover from this s have "ts_inv tmo s'"
    by (auto simp: ts_inv_def min_le_iff_disj)
  ultimately show "\<exists>b s'. ts_insert tmo t s = Some (b, s') \<and> ts_inv tmo s' \<and> ts_active s' = add_mset t (ts_active s)
      \<and> ts_last s' = ts_last s \<and> ts_next s' = min (ts_next s) (tmo t) \<and> (b \<longleftrightarrow> tmo t < ts_next s)"
    by blast
next
  fix tmo :: "'a \<Rightarrow> int" and s now
  assume "ts_inv tmo s" "ts_last s \<le> now" "now \<le> max_timestamp"
  from ts_expire_spec [OF this]
  show "\<exists>exp s'. ts_expire tmo now s = Some (exp, s') \<and> ts_inv tmo s' \<and> ts_last s' = now
      \<and> mset exp = filter_mset (\<lambda>t. tmo t \<le> now) (ts_active s)
      \<and> ts_active s' = filter_mset (\<lambda>t. now < tmo t) (ts_active s)
      \<and> (ts_active s' = {#} \<longrightarrow> ts_next s' = max_timestamp)"
    by (elim exE) (auto simp: earliest_def)
next
  fix tmo :: "'a \<Rightarrow> int" and s t
  assume "ts_inv tmo s" "t \<in># ts_active s"
  then show "\<exists>s'. ts_remove tmo t s = Some s' \<and> ts_inv tmo s' \<and> ts_active s' = ts_active s - {#t#}
      \<and> ts_last s' = ts_last s \<and> ts_next s' = ts_next s"
    by (rule ts_remove_spec)
next
  fix tmo tmo' :: "'a \<Rightarrow> int" and s
  assume "ts_inv tmo s" "\<And>t. t \<in># ts_active s \<Longrightarrow> tmo' t = tmo t"
  then show "ts_inv tmo' s"
    by (rule ts_inv_cong)
qed (auto simp: ts_inv_def buckets_ok_def)

lemma ts_init_inv: "ts_inv tmo ts_init" "ts_active ts_init = {#}" "ts_last ts_init = 0" "ts_next ts_init = max_timestamp"
  by (simp_all add: ts_inv_def buckets_ok_def ts_init_def ts_active_def n_buckets_def max_timestamp_def)

text \<open>The bits of the buckets that are not empty are what \<open>clear\<close>, \<open>size\<close> and \<open>empty\<close> go by.\<close>

lemma clear_buckets:
  "length (foldl (\<lambda>bs i. bs[i := []]) bs is) = length bs"
  "j < length bs \<Longrightarrow> foldl (\<lambda>bs i. bs[i := []]) bs is ! j = (if j \<in> set is then [] else bs ! j)"
  by (induction "is" arbitrary: bs) (auto simp: nth_list_update)

lemma ts_empty_iff:
  assumes "ts_inv tmo s"
  shows "ts_non_empty s = 0 \<longleftrightarrow> ts_active s = {#}"
proof -
  have l: "length (ts_buckets s) = 64" and b: "\<And>i. i < 64 \<Longrightarrow> bit (ts_non_empty s) i \<longleftrightarrow> ts_buckets s ! i \<noteq> []"
    using assms by (auto simp: ts_inv_def buckets_ok_def)
  have "ts_non_empty s = 0 \<longleftrightarrow> (\<forall>i < 64. \<not> bit (ts_non_empty s) i)"
    by (auto simp: bit_eq_iff dest: bit_word_exceeds)
  also have "\<dots> \<longleftrightarrow> (\<forall>i < 64. ts_buckets s ! i = [])"
    using b by blast
  also have "\<dots> \<longleftrightarrow> ts_active s = {#}"
    using l by (simp add: ts_active_def concat_eq_Nil_conv) (metis in_set_conv_nth)
  finally show ?thesis .
qed

lemma ts_clear_buckets:
  assumes "ts_inv tmo s"
  shows "ts_buckets (ts_clear s) = replicate 64 []"
proof (rule nth_equalityI)
  have l: "length (ts_buckets s) = 64" and b: "\<And>i. i < 64 \<Longrightarrow> bit (ts_non_empty s) i \<longleftrightarrow> ts_buckets s ! i \<noteq> []"
    using assms by (auto simp: ts_inv_def buckets_ok_def)
  show "length (ts_buckets (ts_clear s)) = length (replicate 64 [])"
    by (simp add: ts_clear_def clear_buckets l)
  show "ts_buckets (ts_clear s) ! i = replicate 64 [] ! i" if "i < length (ts_buckets (ts_clear s))" for i
    using that l b by (auto simp: ts_clear_def clear_buckets for_each_set_spec)
qed

lemma foldl_sizes: "foldl (\<lambda>n i. n + f i) k is = k + sum_list (map f is)" for f :: "'a \<Rightarrow> nat"
  by (induction "is" arbitrary: k) auto

lemma ts_size_active:
  assumes "ts_inv tmo s"
  shows "ts_size s = size (ts_active s)"
proof -
  have l: "length (ts_buckets s) = 64" and b: "\<And>i. i < 64 \<Longrightarrow> bit (ts_non_empty s) i \<longleftrightarrow> ts_buckets s ! i \<noteq> []"
    using assms by (auto simp: ts_inv_def buckets_ok_def)
  have "(\<Sum>i\<leftarrow>filter P is. f i) = (\<Sum>i\<leftarrow>is. f i)" if "\<And>i. i \<in> set is \<Longrightarrow> \<not> P i \<Longrightarrow> f i = 0"
    for f :: "nat \<Rightarrow> nat" and P "is"
    using that by (induction "is") auto
  from this [of "[0..<64]" "bit (ts_non_empty s)" "\<lambda>i. length (ts_buckets s ! i)"]
  have "ts_size s = (\<Sum>i\<leftarrow>[0..<64]. length (ts_buckets s ! i))"
    using b by (simp add: ts_size_def foldl_sizes for_each_set_spec del: upt_rec_numeral)
  also have "map (\<lambda>i. length (ts_buckets s ! i)) [0..<64] = map length (ts_buckets s)"
    using l by (simp add: list_eq_iff_nth_eq del: upt_rec_numeral)
  finally show ?thesis
    by (simp add: ts_active_def length_concat)
qed

section \<open>Properties\<close>

text \<open>
  C15. Run against the specification: every sequence of calls that respects the documented
  preconditions returns, and each \<open>expire(now)\<close> hands over exactly the active timers with a timeout of
  at most \<open>now\<close>, each once; the others stay active.
\<close>

theorem timer_set_refines_multiset:
  assumes "tq_legal tmo cs {#} 0"
  shows "\<exists>exps s'. tq_run ts_insert ts_remove ts_expire tmo cs ts_init = Some (exps, s')
    \<and> tq_spec tmo cs {#} = (map mset exps, ts_active s')"
  using tq.run_refines [of tmo ts_init cs] assms by (auto simp: ts_init_inv)

theorem timer_set_refines_multiset_witness:
  "\<exists>exps s'. tq_run ts_insert ts_remove ts_expire id
      [Tq_insert 5, Tq_insert 9, Tq_insert 1000, Tq_insert 9, Tq_remove 9, Tq_expire 8, Tq_insert 3, Tq_expire 9]
      ts_init = Some (exps, s') \<and> [{#5#}, {#3, 9#}] = map mset exps \<and> {#1000#} = ts_active s'"
  using timer_set_refines_multiset [of id "[Tq_insert 5, Tq_insert 9, Tq_insert 1000, Tq_insert 9,
      Tq_remove 9, Tq_expire 8, Tq_insert 3, Tq_expire 9]"]
  by (simp add: max_timestamp_def del: tq_run.simps)

text \<open>
  \<open>clear\<close> empties the buckets but leaves their bits set: the set has no timer left and \<open>size\<close> is zero,
  while \<open>empty\<close> answers as before the call.
\<close>

theorem ts_clear_leaves_non_empty:
  assumes "ts_inv tmo s"
  shows "ts_active (ts_clear s) = {#} \<and> ts_size (ts_clear s) = 0
    \<and> ts_is_empty (ts_clear s) = (ts_active s = {#}) \<and> ts_is_empty s = (ts_active s = {#})"
proof -
  have "ts_buckets (ts_clear s) ! i = []" if "i \<in> set (for_each_set (ts_non_empty s) 0)" for i
    using that by (simp add: ts_clear_buckets [OF assms] for_each_set_spec)
  moreover have "ts_non_empty (ts_clear s) = ts_non_empty s"
    by (simp add: ts_clear_def)
  ultimately show ?thesis
    using ts_empty_iff [OF assms] ts_clear_buckets [OF assms]
    by (simp add: ts_active_def ts_size_def ts_is_empty_def foldl_sizes)
qed

theorem ts_clear_leaves_non_empty_witness:
  "let s = snd (the (ts_insert id 7 ts_init)) in
    ts_size s = 1 \<and> ts_size (ts_clear s) = 0 \<and> \<not> ts_is_empty (ts_clear s)"
proof -
  let ?s = "snd (the (ts_insert id 7 ts_init))"
  have "ts_inv id ?s" "ts_active ?s = {#7#}"
    using tq.insert_law [of id ts_init 7] by (auto simp: ts_init_inv max_timestamp_def)
  with ts_clear_leaves_non_empty [of id ?s] ts_size_active [of id ?s] show ?thesis
    by (simp add: Let_def)
qed

end
