(* ===== verification/Reactor_Timers.thy ===== *)
theory Reactor_Timers
  imports Timer_Set
begin

text \<open>
  Timers and how the reactor drives them: class \<open>timer\<close> (core/timer.hh, its members in
  core/reactor.hh), the timer part of the reactor (core/reactor.cc: \<open>complete_timers\<close>, \<open>add_timer\<close>,
  \<open>queue_timer\<close>, \<open>del_timer\<close>, the alarm handler and the expiry of the low-resolution and the manual
  clock).

  \<^item> A timer object is a record at an address, a natural number; the intrusive links are the lists of
    addresses in \<open>rt_timers\<close> and \<open>rt_expired\<close>. One \<open>reactor_timers\<close> is the state the reactor keeps for
    one of its three clocks.
  \<^item> \<open>rt_enabled\<close> is the one-shot kernel timer of the steady clock: \<open>timer_settime\<close> without an interval
    raises the alarm signal once when its time has come and is then disarmed.
  \<^item> A callback is user code: a function from the state in which it is called to the operations on
    timers it performs; \<open>Pass\<close> is the time that goes by. A callback that throws performs what comes
    before.
  \<^item> \<open>rt_fired\<close> is the trace of the callbacks: the timer, its timeout and the time of the call.
  \<^item> \<open>None\<close> is a failed assertion, overflow of \<open>long\<close>, or undefined behaviour.
\<close>

section \<open>Timers\<close>

record timer_obj =
  tm_expiry :: int
  tm_period :: "int option"
  tm_armed :: bool
  tm_queued :: bool
  tm_expired :: bool

definition timer_new :: timer_obj where
  "timer_new = \<lparr>tm_expiry = 0, tm_period = None, tm_armed = False, tm_queued = False, tm_expired = False\<rparr>"

datatype clock_kind = Steady | Lowres | Manual

record reactor_timers =
  rt_objs :: "nat \<Rightarrow> timer_obj"
  rt_timers :: "nat timer_set"
  rt_expired :: "nat list"
  rt_enabled :: "int option"
  rt_pending :: bool
  rt_lowres_next :: int
  rt_now :: int
  rt_fired :: "(nat \<times> int \<times> int) list"

definition rt_init :: reactor_timers where
  "rt_init = \<lparr>rt_objs = \<lambda>_. timer_new, rt_timers = ts_init, rt_expired = [], rt_enabled = None,
    rt_pending = False, rt_lowres_next = 0, rt_now = 0, rt_fired = []\<rparr>"

definition rt_timeout :: "reactor_timers \<Rightarrow> nat \<Rightarrow> int" where
  "rt_timeout s t = tm_expiry (rt_objs s t)"

definition set_timer :: "nat \<Rightarrow> timer_obj \<Rightarrow> reactor_timers \<Rightarrow> reactor_timers" where
  "set_timer t o' s = s\<lparr>rt_objs := (rt_objs s)(t := o')\<rparr>"

section \<open>The reactor's part\<close>

definition enable_timer :: "int \<Rightarrow> reactor_timers \<Rightarrow> reactor_timers" where
  "enable_timer when s = s\<lparr>rt_enabled := Some when\<rparr>"

definition queue_timer :: "nat \<Rightarrow> reactor_timers \<Rightarrow> (bool \<times> reactor_timers) option" where
  "queue_timer t s = map_option (\<lambda>(b, ts). (b, s\<lparr>rt_timers := ts\<rparr>)) (ts_insert (rt_timeout s) t (rt_timers s))"

fun add_timer :: "clock_kind \<Rightarrow> nat \<Rightarrow> reactor_timers \<Rightarrow> reactor_timers option" where
  "add_timer Steady t s = map_option (\<lambda>(b, s'). if b then enable_timer (get_next_timeout (rt_timers s')) s' else s')
     (queue_timer t s)"
| "add_timer Lowres t s = map_option (\<lambda>(b, s'). if b then s'\<lparr>rt_lowres_next := get_next_timeout (rt_timers s')\<rparr> else s')
     (queue_timer t s)"
| "add_timer Manual t s = map_option snd (queue_timer t s)"

definition del_timer :: "nat \<Rightarrow> reactor_timers \<Rightarrow> reactor_timers option" where
  "del_timer t s = (if tm_expired (rt_objs s t)
    then if t \<in> set (rt_expired s)
      then Some (set_timer t ((rt_objs s t)\<lparr>tm_expired := False\<rparr>) (s\<lparr>rt_expired := remove1 t (rt_expired s)\<rparr>))
      else None
    else map_option (\<lambda>ts. s\<lparr>rt_timers := ts\<rparr>) (ts_remove (rt_timeout s) t (rt_timers s)))"

section \<open>The operations of a timer\<close>

definition arm_state :: "nat \<Rightarrow> int \<Rightarrow> int option \<Rightarrow> reactor_timers \<Rightarrow> reactor_timers option" where
  "arm_state t until period s = (if tm_armed (rt_objs s t) then None else
    Some (set_timer t \<lparr>tm_expiry = until, tm_period = period, tm_armed = True, tm_queued = True, tm_expired = False\<rparr> s))"

definition timer_arm :: "clock_kind \<Rightarrow> nat \<Rightarrow> int \<Rightarrow> int option \<Rightarrow> reactor_timers \<Rightarrow> reactor_timers option" where
  "timer_arm c t until period s = Option.bind (arm_state t until period s) (add_timer c t)"

definition timer_cancel :: "nat \<Rightarrow> reactor_timers \<Rightarrow> (bool \<times> reactor_timers) option" where
  "timer_cancel t s = (if \<not> tm_armed (rt_objs s t) then Some (False, s) else
    (let s1 = set_timer t ((rt_objs s t)\<lparr>tm_armed := False\<rparr>) s in
     if tm_queued (rt_objs s1 t)
     then map_option (\<lambda>s2. (True, set_timer t ((rt_objs s2 t)\<lparr>tm_queued := False\<rparr>) s2)) (del_timer t s1)
     else Some (True, s1)))"

definition timer_rearm :: "clock_kind \<Rightarrow> nat \<Rightarrow> int \<Rightarrow> int option \<Rightarrow> reactor_timers \<Rightarrow> reactor_timers option" where
  "timer_rearm c t until period s = Option.bind
    (if tm_armed (rt_objs s t) then map_option snd (timer_cancel t s) else Some s) (timer_arm c t until period)"

text \<open>\<open>Clock::now() + delta\<close>.\<close>

definition time_after :: "int \<Rightarrow> reactor_timers \<Rightarrow> int option" where
  "time_after delta s = (if rt_now s + delta \<le> max_timestamp then Some (rt_now s + delta) else None)"

definition timer_arm_delta :: "clock_kind \<Rightarrow> nat \<Rightarrow> int \<Rightarrow> reactor_timers \<Rightarrow> reactor_timers option" where
  "timer_arm_delta c t delta s = Option.bind (time_after delta s) (\<lambda>until. timer_arm c t until None s)"

definition timer_arm_periodic :: "clock_kind \<Rightarrow> nat \<Rightarrow> int \<Rightarrow> reactor_timers \<Rightarrow> reactor_timers option" where
  "timer_arm_periodic c t delta s = Option.bind (time_after delta s) (\<lambda>until. timer_arm c t until (Some delta) s)"

definition readd_periodic :: "nat \<Rightarrow> int \<Rightarrow> reactor_timers \<Rightarrow> reactor_timers option" where
  "readd_periodic t period s = Option.bind (time_after period s) (\<lambda>until.
    Option.bind (arm_state t until (Some period) s) (\<lambda>s'. map_option snd (queue_timer t s')))"

text \<open>\<open>~timer\<close>; the address is then free for another timer.\<close>

definition timer_destroy :: "nat \<Rightarrow> reactor_timers \<Rightarrow> reactor_timers option" where
  "timer_destroy t s = map_option (set_timer t timer_new)
    (if tm_queued (rt_objs s t) then del_timer t s else Some s)"

text \<open>The passage of time; the kernel raises the alarm.\<close>

definition clock_advance :: "nat \<Rightarrow> reactor_timers \<Rightarrow> reactor_timers option" where
  "clock_advance n s = map_option (\<lambda>now.
    (case rt_enabled s of
       Some d \<Rightarrow> if d \<le> now then s\<lparr>rt_now := now, rt_enabled := None, rt_pending := True\<rparr> else s\<lparr>rt_now := now\<rparr>
     | None \<Rightarrow> s\<lparr>rt_now := now\<rparr>)) (time_after (int n) s)"

datatype timer_op = Arm nat int "int option" | Rearm nat int "int option" | Arm_delta nat int
  | Arm_periodic nat int | Cancel nat | Destroy nat | Pass nat

fun timer_do :: "clock_kind \<Rightarrow> timer_op \<Rightarrow> reactor_timers \<Rightarrow> reactor_timers option" where
  "timer_do c (Arm t until period) s = timer_arm c t until period s"
| "timer_do c (Rearm t until period) s = timer_rearm c t until period s"
| "timer_do c (Arm_delta t delta) s = timer_arm_delta c t delta s"
| "timer_do c (Arm_periodic t delta) s = timer_arm_periodic c t delta s"
| "timer_do c (Cancel t) s = map_option snd (timer_cancel t s)"
| "timer_do c (Destroy t) s = timer_destroy t s"
| "timer_do c (Pass n) s = clock_advance n s"

fun timer_ops :: "clock_kind \<Rightarrow> timer_op list \<Rightarrow> reactor_timers \<Rightarrow> reactor_timers option" where
  "timer_ops c [] s = Some s"
| "timer_ops c (x # xs) s = Option.bind (timer_do c x s) (timer_ops c xs)"

section \<open>Expiry\<close>

type_synonym callbacks = "nat \<Rightarrow> reactor_timers \<Rightarrow> timer_op list"

definition mark_expired :: "nat list \<Rightarrow> reactor_timers \<Rightarrow> reactor_timers" where
  "mark_expired ts s = foldl (\<lambda>s t. set_timer t ((rt_objs s t)\<lparr>tm_expired := True\<rparr>) s) s ts"

definition complete_one :: "clock_kind \<Rightarrow> callbacks \<Rightarrow> nat \<Rightarrow> reactor_timers \<Rightarrow> reactor_timers option" where
  "complete_one c cb t s =
    (let s1 = set_timer t ((rt_objs s t)\<lparr>tm_queued := False\<rparr>) s in
     if tm_armed (rt_objs s1 t)
     then (let s2 = set_timer t ((rt_objs s1 t)\<lparr>tm_armed := False\<rparr>) s1 in
       Option.bind (case tm_period (rt_objs s2 t) of Some p \<Rightarrow> readd_periodic t p s2 | None \<Rightarrow> Some s2) (\<lambda>s3.
       let s4 = s3\<lparr>rt_fired := rt_fired s3 @ [(t, rt_timeout s t, rt_now s3)]\<rparr> in
       timer_ops c (cb t s4) s4))
     else Some s1)"

partial_function (option) complete_loop :: "clock_kind \<Rightarrow> callbacks \<Rightarrow> reactor_timers \<Rightarrow> reactor_timers option" where
  "complete_loop c cb s = (case rt_expired s of [] \<Rightarrow> Some s
    | t # ts \<Rightarrow> Option.bind (complete_one c cb t (s\<lparr>rt_expired := ts\<rparr>)) (complete_loop c cb))"

declare complete_loop.simps [code]

definition complete_timers ::
    "clock_kind \<Rightarrow> callbacks \<Rightarrow> (reactor_timers \<Rightarrow> reactor_timers) \<Rightarrow> reactor_timers \<Rightarrow> reactor_timers option" where
  "complete_timers c cb enable_fn s =
    Option.bind (ts_expire (rt_timeout s) (rt_now s) (rt_timers s)) (\<lambda>(exp, ts).
    map_option enable_fn (complete_loop c cb (mark_expired exp (s\<lparr>rt_expired := exp, rt_timers := ts\<rparr>))))"

definition alarm_handler :: "callbacks \<Rightarrow> reactor_timers \<Rightarrow> reactor_timers option" where
  "alarm_handler cb s = complete_timers Steady cb
    (\<lambda>s. if \<not> ts_is_empty (rt_timers s) then enable_timer (get_next_timeout (rt_timers s)) s else s) s"

text \<open>The alarm's part of \<open>poll_signal\<close>.\<close>

definition poll_alarm :: "callbacks \<Rightarrow> reactor_timers \<Rightarrow> reactor_timers option" where
  "poll_alarm cb s = (if rt_pending s then alarm_handler cb (s\<lparr>rt_pending := False\<rparr>) else Some s)"

definition do_expire_lowres_timers :: "callbacks \<Rightarrow> reactor_timers \<Rightarrow> (bool \<times> reactor_timers) option" where
  "do_expire_lowres_timers cb s = (if rt_lowres_next s = 0 then Some (False, s)
    else if rt_now s > rt_lowres_next s
    then map_option (Pair True) (complete_timers Lowres cb
      (\<lambda>s. s\<lparr>rt_lowres_next := if \<not> ts_is_empty (rt_timers s) then get_next_timeout (rt_timers s) else 0\<rparr>) s)
    else Some (False, s))"

definition expire_manual_timers :: "callbacks \<Rightarrow> reactor_timers \<Rightarrow> reactor_timers option" where
  "expire_manual_timers cb s = complete_timers Manual cb (\<lambda>s. s) s"

datatype timer_event = Op timer_op | Poll callbacks

fun timer_event_do :: "clock_kind \<Rightarrow> timer_event \<Rightarrow> reactor_timers \<Rightarrow> reactor_timers option" where
  "timer_event_do c (Op x) s = timer_do c x s"
| "timer_event_do Steady (Poll cb) s = poll_alarm cb s"
| "timer_event_do Lowres (Poll cb) s = map_option snd (do_expire_lowres_timers cb s)"
| "timer_event_do Manual (Poll cb) s = expire_manual_timers cb s"

fun timer_run :: "clock_kind \<Rightarrow> timer_event list \<Rightarrow> reactor_timers \<Rightarrow> reactor_timers option" where
  "timer_run c [] s = Some s"
| "timer_run c (e # es) s = Option.bind (timer_event_do c e s) (timer_run c es)"

section \<open>The invariant\<close>

abbreviation active_timers :: "reactor_timers \<Rightarrow> nat multiset" where
  "active_timers s \<equiv> ts_active (rt_timers s)"

text \<open>A timer is armed exactly while it is linked, once, in the active set or in the list of expired timers.\<close>

definition links_ok :: "reactor_timers \<Rightarrow> bool" where
  "links_ok s \<longleftrightarrow> (\<forall>t. (tm_armed (rt_objs s t) \<longleftrightarrow> tm_queued (rt_objs s t))
      \<and> count (active_timers s) t + count (mset (rt_expired s)) t = of_bool (tm_queued (rt_objs s t)))
    \<and> (\<forall>t\<in>set (rt_expired s). tm_expired (rt_objs s t) \<and> rt_timeout s t \<le> rt_now s)
    \<and> (\<forall>t\<in>#active_timers s. \<not> tm_expired (rt_objs s t))"

definition rt_inv :: "reactor_timers \<Rightarrow> bool" where
  "rt_inv s \<longleftrightarrow> ts_inv (rt_timeout s) (rt_timers s) \<and> ts_last (rt_timers s) \<le> rt_now s \<and> rt_now s \<le> max_timestamp
    \<and> links_ok s \<and> (\<forall>(t, due, at)\<in>set (rt_fired s). due \<le> at \<and> at \<le> rt_now s)"

lemma rt_init_inv: "rt_inv rt_init"
  by (auto simp: rt_inv_def links_ok_def rt_init_def ts_init_inv timer_new_def max_timestamp_def)

lemma unqueued_unlinked:
  assumes "rt_inv s" "\<not> tm_queued (rt_objs s t)"
  shows "t \<notin># active_timers s" "t \<notin> set (rt_expired s)"
proof -
  have "count (active_timers s) t + count (mset (rt_expired s)) t = 0"
    using assms by (auto simp: rt_inv_def links_ok_def)
  then show "t \<notin># active_timers s" "t \<notin> set (rt_expired s)"
    by (simp_all add: count_eq_zero_iff)
qed

lemma queued_linked:
  assumes "rt_inv s" "tm_queued (rt_objs s t)"
  shows "tm_expired (rt_objs s t) \<Longrightarrow> t \<in> set (rt_expired s) \<and> t \<notin># active_timers s"
    and "\<not> tm_expired (rt_objs s t) \<Longrightarrow> t \<in># active_timers s \<and> t \<notin> set (rt_expired s)"
proof -
  have "count (active_timers s) t + count (mset (rt_expired s)) t = 1"
    using assms by (simp add: rt_inv_def links_ok_def)
  then consider "0 < count (active_timers s) t" "count (mset (rt_expired s)) t = 0"
    | "count (active_timers s) t = 0" "0 < count (mset (rt_expired s)) t"
    by linarith
  then have "t \<in># active_timers s \<and> t \<notin> set (rt_expired s) \<or> t \<notin># active_timers s \<and> t \<in> set (rt_expired s)"
    by cases (simp_all add: count_eq_zero_iff count_greater_zero_iff)
  then show "tm_expired (rt_objs s t) \<Longrightarrow> t \<in> set (rt_expired s) \<and> t \<notin># active_timers s"
    and "\<not> tm_expired (rt_objs s t) \<Longrightarrow> t \<in># active_timers s \<and> t \<notin> set (rt_expired s)"
    using assms(1) by (auto simp: rt_inv_def links_ok_def)
qed

lemma rt_timeout_upd [simp]:
  "rt_timeout (s\<lparr>rt_timers := ts\<rparr>) = rt_timeout s" "rt_timeout (s\<lparr>rt_expired := es\<rparr>) = rt_timeout s"
  "rt_timeout (s\<lparr>rt_enabled := e\<rparr>) = rt_timeout s" "rt_timeout (s\<lparr>rt_pending := p\<rparr>) = rt_timeout s"
  "rt_timeout (s\<lparr>rt_lowres_next := l\<rparr>) = rt_timeout s" "rt_timeout (s\<lparr>rt_now := n\<rparr>) = rt_timeout s"
  "rt_timeout (s\<lparr>rt_fired := f\<rparr>) = rt_timeout s"
  "rt_timeout (s\<lparr>rt_objs := f'\<rparr>) = (\<lambda>t. tm_expiry (f' t))"
  by (simp_all add: rt_timeout_def fun_eq_iff)

text \<open>The scheduling fields do not matter to it.\<close>

lemma rt_inv_frame [simp]:
  "rt_inv (s\<lparr>rt_enabled := e\<rparr>) = rt_inv s" "rt_inv (s\<lparr>rt_pending := p\<rparr>) = rt_inv s"
  "rt_inv (s\<lparr>rt_lowres_next := l\<rparr>) = rt_inv s"
  by (simp_all add: rt_inv_def links_ok_def)

text \<open>Linking a timer that is not linked, and unlinking one that is.\<close>

lemma link_timer:
  assumes "rt_inv s" "\<not> tm_queued (rt_objs s t)"
    and "tm_armed o'" "tm_queued o'" "\<not> tm_expired o'" "tm_expiry o' \<le> max_timestamp"
  shows "\<exists>b ts. queue_timer t (set_timer t o' s) = Some (b, (set_timer t o' s)\<lparr>rt_timers := ts\<rparr>)
    \<and> rt_inv ((set_timer t o' s)\<lparr>rt_timers := ts\<rparr>) \<and> ts_active ts = add_mset t (active_timers s)
    \<and> ts_last ts = ts_last (rt_timers s) \<and> ts_next ts = min (ts_next (rt_timers s)) (tm_expiry o')
    \<and> (b \<longleftrightarrow> tm_expiry o' < ts_next (rt_timers s))"
proof -
  let ?s = "set_timer t o' s"
  note un = unqueued_unlinked [OF assms(1,2)]
  have "ts_inv (rt_timeout s) (rt_timers s)"
    using assms(1) by (simp add: rt_inv_def)
  then have "ts_inv (rt_timeout ?s) (rt_timers s)"
    by (rule tq.timeouts_law) (use un in \<open>auto simp: set_timer_def rt_timeout_def\<close>)
  moreover have "rt_timeout ?s t = tm_expiry o'"
    by (simp add: set_timer_def)
  ultimately obtain b ts where ts: "ts_insert (rt_timeout ?s) t (rt_timers s) = Some (b, ts)"
      "ts_inv (rt_timeout ?s) ts" "ts_active ts = add_mset t (active_timers s)" "ts_last ts = ts_last (rt_timers s)"
      "ts_next ts = min (ts_next (rt_timers s)) (tm_expiry o')" "b \<longleftrightarrow> tm_expiry o' < ts_next (rt_timers s)"
    using tq.insert_law [of "rt_timeout ?s" "rt_timers s" t] assms(6) by auto
  have "links_ok (?s\<lparr>rt_timers := ts\<rparr>)"
    using assms un ts(3) by (auto simp: rt_inv_def links_ok_def set_timer_def rt_timeout_def count_eq_zero_iff)
  then have "rt_inv (?s\<lparr>rt_timers := ts\<rparr>)"
    using assms(1) ts(2,4) by (simp add: rt_inv_def set_timer_def)
  then show ?thesis
    using ts by (intro exI [of _ b] exI [of _ ts]) (auto simp: queue_timer_def set_timer_def)
qed

lemma del_timer_spec:
  assumes "rt_inv s" "tm_queued (rt_objs s t)" "tm_expired o' = tm_expired (rt_objs s t)" "tm_expiry o' = rt_timeout s t"
  shows "\<exists>ts. del_timer t (set_timer t o' s) = Some (set_timer t (o'\<lparr>tm_expired := False\<rparr>)
      (s\<lparr>rt_timers := ts, rt_expired := remove1 t (rt_expired s)\<rparr>))
    \<and> ts_inv (rt_timeout s) ts \<and> ts_active ts = active_timers s - {#t#}
    \<and> ts_last ts = ts_last (rt_timers s) \<and> ts_next ts = ts_next (rt_timers s)"
proof (cases "tm_expired (rt_objs s t)")
  case True
  then show ?thesis
    using queued_linked(1) [OF assms(1,2)] assms
    by (intro exI [of _ "rt_timers s"])
      (auto simp: del_timer_def set_timer_def rt_inv_def diff_single_trivial)
next
  case False
  then have t: "t \<in># active_timers s" "t \<notin> set (rt_expired s)"
    using queued_linked(2) [OF assms(1,2)] by auto
  then obtain ts where ts: "ts_remove (rt_timeout s) t (rt_timers s) = Some ts" "ts_inv (rt_timeout s) ts"
      "ts_active ts = active_timers s - {#t#}" "ts_last ts = ts_last (rt_timers s)" "ts_next ts = ts_next (rt_timers s)"
    using tq.remove_law [of "rt_timeout s" "rt_timers s" t] assms(1) by (auto simp: rt_inv_def)
  moreover have "rt_timeout (set_timer t o' s) = rt_timeout s"
    using assms(4) by (auto simp: set_timer_def rt_timeout_def)
  moreover have "o'\<lparr>tm_expired := False\<rparr> = o'"
    using assms(3) False by simp
  note this [simp]
  ultimately show ?thesis
    using False assms(3) t(2)
    by (intro exI [of _ ts]) (simp add: del_timer_def set_timer_def remove1_idem)
qed

lemma unlink_timer:
  assumes "rt_inv s" "tm_queued (rt_objs s t)" "\<not> tm_armed o'" "\<not> tm_queued o'"
    and "ts_inv (rt_timeout s) ts" "ts_active ts = active_timers s - {#t#}" "ts_last ts = ts_last (rt_timers s)"
  shows "rt_inv (set_timer t o' (s\<lparr>rt_timers := ts, rt_expired := remove1 t (rt_expired s)\<rparr>))" (is "rt_inv ?s")
proof -
  have one: "count (active_timers s) t + count (mset (rt_expired s)) t = 1"
    using assms(1,2) by (simp add: rt_inv_def links_ok_def)
  then have le: "count (active_timers s) t \<le> 1" "count (mset (rt_expired s)) t \<le> 1"
    by linarith+
  then have gone: "t \<notin># ts_active ts" "t \<notin> set (remove1 t (rt_expired s))"
    by (simp_all add: assms(6) not_in_iff flip: count_mset_0_iff)
  have sub: "x \<in># ts_active ts \<Longrightarrow> x \<in># active_timers s" "x \<in> set (remove1 t (rt_expired s)) \<Longrightarrow> x \<in> set (rt_expired s)" for x
    using set_remove1_subset [of t "rt_expired s"] by (auto simp: assms(6) dest: in_diffD)
  have "ts_inv (rt_timeout ?s) ts"
    by (rule tq.timeouts_law [OF assms(5)]) (use gone in \<open>auto simp: set_timer_def rt_timeout_def\<close>)
  moreover have "links_ok ?s"
    unfolding links_ok_def
  proof (intro conjI allI ballI)
    fix x
    show "tm_armed (rt_objs ?s x) \<longleftrightarrow> tm_queued (rt_objs ?s x)"
      using assms(1,3,4) by (simp add: rt_inv_def links_ok_def set_timer_def)
    show "count (active_timers ?s) x + count (mset (rt_expired ?s)) x = of_bool (tm_queued (rt_objs ?s x))"
      using assms(1,4) gone le by (auto simp: rt_inv_def links_ok_def set_timer_def assms(6) count_eq_zero_iff)
  next
    fix x
    assume "x \<in> set (rt_expired ?s)"
    then have "x \<noteq> t" "x \<in> set (rt_expired s)"
      using gone(2) sub(2) by (auto simp: set_timer_def)
    then show "tm_expired (rt_objs ?s x)" "rt_timeout ?s x \<le> rt_now ?s"
      using assms(1) by (auto simp: rt_inv_def links_ok_def set_timer_def rt_timeout_def)
  next
    fix x
    assume "x \<in># active_timers ?s"
    then have "x \<noteq> t" "x \<in># active_timers s"
      using gone(1) sub(1) by (auto simp: set_timer_def)
    then show "\<not> tm_expired (rt_objs ?s x)"
      using assms(1) by (auto simp: rt_inv_def links_ok_def set_timer_def)
  qed
  ultimately show ?thesis
    using assms(1,7) by (simp add: rt_inv_def set_timer_def)
qed

section \<open>What the operations do\<close>

text \<open>
  No operation adds to the list of expired timers or touches a timer that stays in it, and none runs a
  callback.
\<close>

definition rt_keeps :: "reactor_timers \<Rightarrow> reactor_timers \<Rightarrow> bool" where
  "rt_keeps s s' \<longleftrightarrow> rt_fired s' = rt_fired s \<and> rt_now s \<le> rt_now s' \<and> mset (rt_expired s') \<subseteq># mset (rt_expired s)
    \<and> (\<forall>t\<in>set (rt_expired s'). rt_objs s' t = rt_objs s t)"

text \<open>The kernel timer is set so that no active timer is missed; \<open>max_timestamp\<close> stands for never.\<close>

definition scheduled :: "reactor_timers \<Rightarrow> bool" where
  "scheduled s \<longleftrightarrow> ts_next (rt_timers s) < max_timestamp \<longrightarrow>
    rt_pending s \<or> (\<exists>d. rt_enabled s = Some d \<and> d \<le> get_next_timeout (rt_timers s))"

definition same_schedule :: "reactor_timers \<Rightarrow> reactor_timers \<Rightarrow> bool" where
  "same_schedule s s' \<longleftrightarrow> rt_enabled s' = rt_enabled s \<and> rt_pending s' = rt_pending s \<and> rt_now s' = rt_now s
    \<and> ts_next (rt_timers s') = ts_next (rt_timers s) \<and> ts_last (rt_timers s') = ts_last (rt_timers s)"

lemma same_scheduleD: "same_schedule s s' \<Longrightarrow> scheduled s' = scheduled s"
  by (simp add: same_schedule_def scheduled_def get_next_timeout_def)

lemma rt_keeps_refl [simp]: "rt_keeps s s"
  by (simp add: rt_keeps_def)

lemma rt_keeps_trans: "rt_keeps s s' \<Longrightarrow> rt_keeps s' s'' \<Longrightarrow> rt_keeps s s''"
  unfolding rt_keeps_def by (metis mset_subset_eqD order_trans set_mset_mset subset_mset.order_trans)

lemma keeps_unlinked:
  assumes "t \<notin> set es" "mset es \<subseteq># mset (rt_expired s)"
  shows "rt_keeps s (set_timer t o' (s\<lparr>rt_timers := ts, rt_expired := es\<rparr>))"
  using assms by (auto simp: rt_keeps_def set_timer_def)

lemma timer_arm_spec:
  assumes "rt_inv s" "\<not> tm_armed (rt_objs s t)" "until \<le> max_timestamp"
  shows "\<exists>s'. timer_arm c t until p s = Some s' \<and> rt_inv s' \<and> rt_keeps s s' \<and> rt_expired s' = rt_expired s
    \<and> active_timers s' = add_mset t (active_timers s) \<and> rt_now s' = rt_now s
    \<and> (c = Steady \<longrightarrow> scheduled s \<longrightarrow> scheduled s')
    \<and> (c = Steady \<longrightarrow> ts_next (rt_timers s) \<le> until \<longrightarrow> same_schedule s s')"
proof -
  have q: "\<not> tm_queued (rt_objs s t)"
    using assms(1,2) by (simp add: rt_inv_def links_ok_def)
  let ?o = "\<lparr>tm_expiry = until, tm_period = p, tm_armed = True, tm_queued = True, tm_expired = False\<rparr>"
  let ?s = "set_timer t ?o s"
  obtain b ts where ts: "queue_timer t ?s = Some (b, ?s\<lparr>rt_timers := ts\<rparr>)" "rt_inv (?s\<lparr>rt_timers := ts\<rparr>)"
      "ts_active ts = add_mset t (active_timers s)" "ts_last ts = ts_last (rt_timers s)"
      "ts_next ts = min (ts_next (rt_timers s)) until" "b \<longleftrightarrow> until < ts_next (rt_timers s)"
    using link_timer [OF assms(1) q, of ?o] assms(3) by auto
  have "timer_arm c t until p s = add_timer c t ?s"
    using assms(2) by (simp add: timer_arm_def arm_state_def)
  moreover have "rt_keeps s (?s\<lparr>rt_timers := ts\<rparr>)"
    using unqueued_unlinked(2) [OF assms(1) q] by (auto simp: rt_keeps_def set_timer_def)
  ultimately show ?thesis
    using ts by (cases c) (auto simp: enable_timer_def rt_keeps_def scheduled_def same_schedule_def
        get_next_timeout_def set_timer_def)
qed

lemma timer_cancel_spec:
  assumes "rt_inv s"
  shows "\<exists>s'. timer_cancel t s = Some (tm_armed (rt_objs s t), s') \<and> rt_inv s' \<and> rt_keeps s s'
    \<and> same_schedule s s' \<and> \<not> tm_armed (rt_objs s' t)
    \<and> (\<forall>x. x \<noteq> t \<longrightarrow> rt_objs s' x = rt_objs s x)"
proof (cases "tm_armed (rt_objs s t)")
  case True
  then have q: "tm_queued (rt_objs s t)"
    using assms by (simp add: rt_inv_def links_ok_def)
  let ?o = "(rt_objs s t)\<lparr>tm_armed := False\<rparr>"
  obtain ts where ts: "del_timer t (set_timer t ?o s) = Some (set_timer t (?o\<lparr>tm_expired := False\<rparr>)
      (s\<lparr>rt_timers := ts, rt_expired := remove1 t (rt_expired s)\<rparr>))"
      "ts_inv (rt_timeout s) ts" "ts_active ts = active_timers s - {#t#}"
      "ts_last ts = ts_last (rt_timers s)" "ts_next ts = ts_next (rt_timers s)"
    using del_timer_spec [OF assms q, of ?o] by (auto simp: rt_timeout_def)
  let ?s = "set_timer t (?o\<lparr>tm_expired := False, tm_queued := False\<rparr>)
      (s\<lparr>rt_timers := ts, rt_expired := remove1 t (rt_expired s)\<rparr>)"
  have inv: "rt_inv ?s"
    by (rule unlink_timer [OF assms q _ _ ts(2-4)]) simp_all
  moreover have "timer_cancel t s = Some (True, ?s)"
    using True q ts(1) by (simp add: timer_cancel_def Let_def) (simp add: set_timer_def)
  moreover have "t \<notin> set (remove1 t (rt_expired s))"
    using unqueued_unlinked(2) [OF inv, of t] by (simp add: set_timer_def)
  then have "rt_keeps s ?s"
    by (rule keeps_unlinked) simp
  ultimately show ?thesis
    using True ts by (auto simp: same_schedule_def set_timer_def)
qed (use assms in \<open>auto simp: timer_cancel_def same_schedule_def\<close>)

lemma timer_destroy_spec:
  assumes "rt_inv s"
  shows "\<exists>s'. timer_destroy t s = Some s' \<and> rt_inv s' \<and> rt_keeps s s' \<and> same_schedule s s'"
proof (cases "tm_queued (rt_objs s t)")
  case q: True
  obtain ts where ts: "del_timer t (set_timer t (rt_objs s t) s) = Some (set_timer t ((rt_objs s t)\<lparr>tm_expired := False\<rparr>)
      (s\<lparr>rt_timers := ts, rt_expired := remove1 t (rt_expired s)\<rparr>))"
      "ts_inv (rt_timeout s) ts" "ts_active ts = active_timers s - {#t#}"
      "ts_last ts = ts_last (rt_timers s)" "ts_next ts = ts_next (rt_timers s)"
    using del_timer_spec [OF assms q, of "rt_objs s t"] by (auto simp: rt_timeout_def)
  let ?s = "set_timer t timer_new (s\<lparr>rt_timers := ts, rt_expired := remove1 t (rt_expired s)\<rparr>)"
  have inv: "rt_inv ?s"
    by (rule unlink_timer [OF assms q _ _ ts(2-4)]) (simp_all add: timer_new_def)
  moreover have "timer_destroy t s = Some ?s"
    using q ts(1) by (simp add: timer_destroy_def set_timer_def)
  moreover have "t \<notin> set (remove1 t (rt_expired s))"
    using unqueued_unlinked(2) [OF inv, of t] by (simp add: set_timer_def timer_new_def)
  then have "rt_keeps s ?s"
    by (rule keeps_unlinked) simp
  ultimately show ?thesis
    using ts by (auto simp: same_schedule_def set_timer_def)
next
  case False
  note un = unqueued_unlinked [OF assms False]
  have "ts_inv (rt_timeout (set_timer t timer_new s)) (rt_timers s)"
    by (rule tq.timeouts_law [of "rt_timeout s"])
      (use assms un in \<open>auto simp: rt_inv_def set_timer_def rt_timeout_def\<close>)
  moreover have "links_ok (set_timer t timer_new s)"
    using assms un False by (auto simp: rt_inv_def links_ok_def set_timer_def rt_timeout_def timer_new_def)
  ultimately have "rt_inv (set_timer t timer_new s)"
    using assms by (simp add: rt_inv_def set_timer_def)
  then show ?thesis
    using False un by (auto simp: timer_destroy_def same_schedule_def rt_keeps_def set_timer_def)
qed

lemma clock_advance_spec:
  assumes "rt_inv s" "rt_now s + int n \<le> max_timestamp"
  shows "\<exists>s'. clock_advance n s = Some s' \<and> rt_inv s' \<and> rt_keeps s s' \<and> rt_expired s' = rt_expired s
    \<and> rt_timers s' = rt_timers s \<and> rt_objs s' = rt_objs s \<and> rt_now s' = rt_now s + int n
    \<and> (scheduled s \<longrightarrow> scheduled s')
    \<and> (\<forall>d. rt_enabled s = Some d \<longrightarrow> d \<le> rt_now s' \<longrightarrow> rt_pending s')
    \<and> (rt_pending s \<longrightarrow> rt_pending s')
    \<and> (rt_enabled s = None \<longrightarrow> rt_enabled s' = None \<and> rt_pending s' = rt_pending s)"
proof -
  have "rt_inv (s\<lparr>rt_now := rt_now s + int n\<rparr>)"
    using assms by (fastforce simp: rt_inv_def links_ok_def)
  moreover have "s\<lparr>rt_now := m, rt_enabled := None, rt_pending := True\<rparr>
      = s\<lparr>rt_now := m\<rparr>\<lparr>rt_enabled := None\<rparr>\<lparr>rt_pending := True\<rparr>" for m
    by simp
  ultimately show ?thesis
    using assms(2) by (cases "rt_enabled s")
      (auto simp: clock_advance_def time_after_def rt_keeps_def scheduled_def)
qed

text \<open>
  A timer must not be armed twice, and a time point is a \<open>long\<close>. The second condition alone is that on
  the arguments; the code asserts the first.
\<close>

fun op_ok :: "reactor_timers \<Rightarrow> timer_op \<Rightarrow> bool" where
  "op_ok s (Arm t until p) = (\<not> tm_armed (rt_objs s t) \<and> until \<le> max_timestamp)"
| "op_ok s (Rearm t until p) = (until \<le> max_timestamp)"
| "op_ok s (Arm_delta t d) = (\<not> tm_armed (rt_objs s t) \<and> rt_now s + d \<le> max_timestamp)"
| "op_ok s (Arm_periodic t d) = (\<not> tm_armed (rt_objs s t) \<and> rt_now s + d \<le> max_timestamp)"
| "op_ok s (Cancel t) = True"
| "op_ok s (Destroy t) = True"
| "op_ok s (Pass n) = (rt_now s + int n \<le> max_timestamp)"

fun op_typed :: "timer_op \<Rightarrow> bool" where
  "op_typed (Arm t until p) = (until \<le> max_timestamp)"
| "op_typed (Rearm t until p) = (until \<le> max_timestamp)"
| "op_typed x = True"

fun op_removes :: "timer_op \<Rightarrow> bool" where
  "op_removes (Rearm t until p) = True"
| "op_removes (Cancel t) = True"
| "op_removes (Destroy t) = True"
| "op_removes x = False"

lemma timer_do_ok: "timer_do c x s = Some s' \<Longrightarrow> op_typed x \<Longrightarrow> op_ok s x"
  by (cases x) (auto simp: timer_arm_def arm_state_def timer_arm_delta_def timer_arm_periodic_def
      clock_advance_def time_after_def split: if_splits)

lemma timer_do_spec:
  assumes "rt_inv s" "op_ok s x"
  shows "\<exists>s'. timer_do c x s = Some s' \<and> rt_inv s' \<and> rt_keeps s s' \<and> (c = Steady \<longrightarrow> scheduled s \<longrightarrow> scheduled s')
    \<and> (\<not> op_removes x \<longrightarrow> rt_expired s' = rt_expired s \<and> (active_timers s' \<noteq> {#} \<or> rt_timers s' = rt_timers s))"
proof (cases x)
  case (Rearm t until p)
  obtain s1 where s1: "timer_cancel t s = Some (tm_armed (rt_objs s t), s1)" "rt_inv s1" "rt_keeps s s1"
      "same_schedule s s1" "\<not> tm_armed (rt_objs s1 t)"
    using timer_cancel_spec [OF assms(1)] by blast
  then obtain s2 where "timer_arm c t until p s1 = Some s2" "rt_inv s2" "rt_keeps s1 s2"
      "c = Steady \<longrightarrow> scheduled s1 \<longrightarrow> scheduled s2"
    using timer_arm_spec [of s1 t until c p] assms(2) Rearm by auto
  moreover have "timer_rearm c t until p s = timer_arm c t until p s1"
    using s1(1) by (auto simp: timer_rearm_def timer_cancel_def)
  ultimately show ?thesis
    using s1 Rearm by (auto simp: same_scheduleD intro: rt_keeps_trans)
next
  case (Cancel t)
  then show ?thesis
    using timer_cancel_spec [OF assms(1), of t] by (auto simp: same_scheduleD)
next
  case (Destroy t)
  then show ?thesis
    using timer_destroy_spec [OF assms(1), of t] by (auto simp: same_scheduleD)
next
  case (Pass n)
  then show ?thesis
    using clock_advance_spec [OF assms(1), of n] assms(2) by auto
next
  case (Arm t until p)
  then show ?thesis
    using timer_arm_spec [OF assms(1), of t until c p] assms(2) by auto
next
  case (Arm_delta t d)
  then show ?thesis
    using timer_arm_spec [OF assms(1), of t "rt_now s + d" c None] assms(2)
    by (auto simp: timer_arm_delta_def time_after_def)
next
  case (Arm_periodic t d)
  then show ?thesis
    using timer_arm_spec [OF assms(1), of t "rt_now s + d" c "Some d"] assms(2)
    by (auto simp: timer_arm_periodic_def time_after_def)
qed

lemma timer_ops_keep:
  assumes "timer_ops c xs s = Some s'" "list_all op_typed xs" "rt_inv s"
  shows "rt_inv s' \<and> rt_keeps s s' \<and> (c = Steady \<longrightarrow> scheduled s \<longrightarrow> scheduled s')
    \<and> (list_all (\<lambda>x. \<not> op_removes x) xs \<longrightarrow> rt_expired s' = rt_expired s
        \<and> ((active_timers s = {#} \<longrightarrow> ts_next (rt_timers s) = max_timestamp)
           \<longrightarrow> (active_timers s' = {#} \<longrightarrow> ts_next (rt_timers s') = max_timestamp)))"
  using assms
proof (induction xs arbitrary: s)
  case (Cons x xs)
  then obtain s1 where s1: "timer_do c x s = Some s1" "timer_ops c xs s1 = Some s'"
    by (auto simp: bind_eq_Some_conv)
  have "op_ok s x"
    using timer_do_ok [OF s1(1)] Cons.prems(2) by simp
  from timer_do_spec [OF Cons.prems(3) this, of c] s1(1)
  have *: "rt_inv s1" "rt_keeps s s1" "c = Steady \<longrightarrow> scheduled s \<longrightarrow> scheduled s1"
      "\<not> op_removes x \<Longrightarrow> rt_expired s1 = rt_expired s \<and> (active_timers s1 \<noteq> {#} \<or> rt_timers s1 = rt_timers s)"
    by auto
  from Cons.IH [OF s1(2) _ *(1)] Cons.prems(2)
  have IH: "rt_inv s'" "rt_keeps s1 s'" "c = Steady \<longrightarrow> scheduled s1 \<longrightarrow> scheduled s'"
      "list_all (\<lambda>x. \<not> op_removes x) xs \<longrightarrow> rt_expired s' = rt_expired s1
        \<and> ((active_timers s1 = {#} \<longrightarrow> ts_next (rt_timers s1) = max_timestamp)
           \<longrightarrow> (active_timers s' = {#} \<longrightarrow> ts_next (rt_timers s') = max_timestamp))"
    by simp_all
  show ?case
    using IH * rt_keeps_trans [OF *(2) IH(2)] by auto
qed simp

section \<open>What the expiry does\<close>

lemma mark_expired_objs:
  "mark_expired ts s = s\<lparr>rt_objs := \<lambda>t. if t \<in> set ts then (rt_objs s t)\<lparr>tm_expired := True\<rparr> else rt_objs s t\<rparr>"
proof (induction ts arbitrary: s)
  case (Cons t ts)
  have "mark_expired (t # ts) s = mark_expired ts (set_timer t ((rt_objs s t)\<lparr>tm_expired := True\<rparr>) s)"
    by (simp add: mark_expired_def)
  then show ?case
    unfolding Cons by (auto simp: set_timer_def fun_eq_iff intro!: reactor_timers.equality)
qed (simp add: mark_expired_def)

text \<open>The first steps of \<open>complete_timers\<close>.\<close>

lemma expire_step:
  assumes "rt_inv s" "rt_expired s = []"
  shows "\<exists>exp ts. ts_expire (rt_timeout s) (rt_now s) (rt_timers s) = Some (exp, ts)
    \<and> (\<exists>s'. s' = mark_expired exp (s\<lparr>rt_expired := exp, rt_timers := ts\<rparr>) \<and> rt_inv s'
      \<and> mset exp = filter_mset (\<lambda>t. rt_timeout s t \<le> rt_now s) (active_timers s)
      \<and> (active_timers s' = {#} \<longrightarrow> ts_next (rt_timers s') = max_timestamp) \<and> rt_timeout s' = rt_timeout s)"
proof -
  obtain exp ts where ts: "ts_expire (rt_timeout s) (rt_now s) (rt_timers s) = Some (exp, ts)" "ts_inv (rt_timeout s) ts"
      "ts_last ts = rt_now s" "mset exp = filter_mset (\<lambda>t. rt_timeout s t \<le> rt_now s) (active_timers s)"
      "ts_active ts = filter_mset (\<lambda>t. rt_now s < rt_timeout s t) (active_timers s)"
      "ts_active ts = {#} \<longrightarrow> ts_next ts = max_timestamp"
    using tq.expire_law [of "rt_timeout s" "rt_timers s" "rt_now s"] assms(1) unfolding rt_inv_def by blast
  let ?s = "mark_expired exp (s\<lparr>rt_expired := exp, rt_timers := ts\<rparr>)"
  have tmo: "rt_timeout ?s = rt_timeout s"
    by (auto simp: mark_expired_objs rt_timeout_def)
  have exp: "t \<in> set exp \<longleftrightarrow> t \<in># active_timers s \<and> rt_timeout s t \<le> rt_now s" for t
    using arg_cong [OF ts(4), of "\<lambda>m. t \<in># m"] by simp
  have "count (ts_active ts) t + count (mset exp) t = count (active_timers s) t" for t
    by (simp add: ts(4,5))
  then have "links_ok ?s"
    using assms exp unfolding links_ok_def tmo
    by (auto simp: rt_inv_def links_ok_def mark_expired_objs ts(5))
  then have "rt_inv ?s"
    using assms(1) ts(2,3) unfolding rt_inv_def tmo by (simp add: mark_expired_objs)
  then show ?thesis
    using ts tmo by (auto simp: mark_expired_objs)
qed

text \<open>What is assumed of callbacks. A period that is added to the time has to stay in range.\<close>

definition roomy :: "reactor_timers \<Rightarrow> bool" where
  "roomy s \<longleftrightarrow> (\<forall>t p. tm_period (rt_objs s t) = Some p \<longrightarrow> rt_now s + p \<le> max_timestamp)"

definition cb_typed :: "callbacks \<Rightarrow> bool" where
  "cb_typed cb \<longleftrightarrow> (\<forall>t s. list_all op_typed (cb t s))"

definition cb_keeping :: "callbacks \<Rightarrow> bool" where
  "cb_keeping cb \<longleftrightarrow> (\<forall>t s. list_all (\<lambda>x. \<not> op_removes x) (cb t s))"

definition cb_returns :: "clock_kind \<Rightarrow> callbacks \<Rightarrow> bool" where
  "cb_returns c cb \<longleftrightarrow> (\<forall>t s. rt_inv s \<and> roomy s \<longrightarrow> (\<exists>s'. timer_ops c (cb t s) s = Some s' \<and> roomy s'))"

definition no_stale :: "reactor_timers \<Rightarrow> bool" where
  "no_stale s \<longleftrightarrow> active_timers s = {#} \<longrightarrow> ts_next (rt_timers s) = max_timestamp"

text \<open>One round of the loop, up to the callback.\<close>

lemma pop_unlinks:
  assumes "rt_inv s" "rt_expired s = t # ts"
  shows "tm_armed (rt_objs s t) \<and> rt_inv (set_timer t ((rt_objs s t)\<lparr>tm_queued := False, tm_armed := False\<rparr>) (s\<lparr>rt_expired := ts\<rparr>))"
proof -
  have "0 < count (mset (rt_expired s)) t"
    using assms(2) by simp
  then have q: "tm_queued (rt_objs s t)" "tm_armed (rt_objs s t)" "t \<notin># active_timers s"
    using assms by (auto simp: rt_inv_def links_ok_def dest!: spec [of _ t] split: if_splits simp: of_bool_def count_eq_zero_iff)
  then have "rt_inv (set_timer t ((rt_objs s t)\<lparr>tm_queued := False, tm_armed := False\<rparr>)
      (s\<lparr>rt_timers := rt_timers s, rt_expired := remove1 t (rt_expired s)\<rparr>))"
    using assms(1) by (intro unlink_timer) (simp_all add: rt_inv_def diff_single_trivial)
  with q assms(2) show ?thesis by simp
qed

lemma pop_step:
  assumes "rt_inv s" "rt_expired s = t # ts" "\<forall>p. tm_period (rt_objs s t) = Some p \<longrightarrow> rt_now s + p \<le> max_timestamp"
  shows "\<exists>s4. complete_one c cb t (s\<lparr>rt_expired := ts\<rparr>) = timer_ops c (cb t s4) s4 \<and> rt_inv s4 \<and> rt_expired s4 = ts
    \<and> rt_fired s4 = rt_fired s @ [(t, rt_timeout s t, rt_now s)] \<and> rt_now s4 = rt_now s
    \<and> (\<forall>x. x \<noteq> t \<longrightarrow> rt_objs s4 x = rt_objs s x) \<and> (\<forall>x. tm_period (rt_objs s4 x) = tm_period (rt_objs s x))
    \<and> (no_stale s \<longrightarrow> no_stale s4)"
proof -
  let ?s2 = "set_timer t ((rt_objs s t)\<lparr>tm_queued := False, tm_armed := False\<rparr>) (s\<lparr>rt_expired := ts\<rparr>)"
  have a: "tm_armed (rt_objs s t)" and inv: "rt_inv ?s2"
    using pop_unlinks [OF assms(1,2)] by auto
  have fired: "rt_inv (u\<lparr>rt_fired := rt_fired u @ [(t, rt_timeout s t, rt_now u)]\<rparr>)"
    if "rt_inv u" "rt_now u = rt_now s" for u
    using that assms(1,2) by (auto simp: rt_inv_def links_ok_def)
  show ?thesis
  proof (cases "tm_period (rt_objs s t)")
    case None
    let ?s4 = "?s2\<lparr>rt_fired := rt_fired ?s2 @ [(t, rt_timeout s t, rt_now ?s2)]\<rparr>"
    have "complete_one c cb t (s\<lparr>rt_expired := ts\<rparr>) = timer_ops c (cb t ?s4) ?s4"
      using a None by (simp add: complete_one_def Let_def set_timer_def)
    moreover have "rt_inv ?s4"
      by (rule fired [OF inv]) (simp add: set_timer_def)
    ultimately show ?thesis
      by (intro exI [of _ ?s4]) (simp add: set_timer_def no_stale_def)
  next
    case (Some p)
    let ?o = "\<lparr>tm_expiry = rt_now s + p, tm_period = Some p, tm_armed = True, tm_queued = True, tm_expired = False\<rparr>"
    obtain b ts' where ts': "queue_timer t (set_timer t ?o ?s2) = Some (b, (set_timer t ?o ?s2)\<lparr>rt_timers := ts'\<rparr>)"
        "rt_inv ((set_timer t ?o ?s2)\<lparr>rt_timers := ts'\<rparr>)" "ts_active ts' = add_mset t (active_timers s)"
      using link_timer [OF inv, of t ?o] assms(3) Some by (auto simp: set_timer_def)
    let ?s3 = "(set_timer t ?o ?s2)\<lparr>rt_timers := ts'\<rparr>"
    let ?s4 = "?s3\<lparr>rt_fired := rt_fired ?s3 @ [(t, rt_timeout s t, rt_now ?s3)]\<rparr>"
    have "readd_periodic t p ?s2 = Some ?s3"
      using assms(3) Some ts'(1) by (simp add: readd_periodic_def time_after_def arm_state_def set_timer_def)
    then have "complete_one c cb t (s\<lparr>rt_expired := ts\<rparr>) = timer_ops c (cb t ?s4) ?s4"
      using a Some by (simp add: complete_one_def Let_def set_timer_def)
    moreover have "rt_inv ?s4"
      by (rule fired [OF ts'(2)]) (simp add: set_timer_def)
    ultimately show ?thesis
      using Some ts'(3) by (intro exI [of _ ?s4]) (simp add: set_timer_def no_stale_def)
  qed
qed

lemma complete_one_room:
  assumes "complete_one c cb t (s\<lparr>rt_expired := ts\<rparr>) = Some s'" "rt_inv s" "rt_expired s = t # ts"
  shows "\<forall>p. tm_period (rt_objs s t) = Some p \<longrightarrow> rt_now s + p \<le> max_timestamp"
  using assms(1) pop_unlinks [OF assms(2,3)]
  by (auto simp: complete_one_def Let_def set_timer_def readd_periodic_def time_after_def bind_eq_Some_conv split: if_splits)

lemma expired_distinct:
  assumes "rt_inv s"
  shows "distinct (rt_expired s)"
  unfolding distinct_count_atmost_1
proof
  fix t
  have "count (active_timers s) t + count (mset (rt_expired s)) t = of_bool (tm_queued (rt_objs s t))"
    using assms by (simp add: rt_inv_def links_ok_def)
  moreover have "of_bool (tm_queued (rt_objs s t)) \<le> (1 :: nat)"
    by simp
  ultimately have "count (mset (rt_expired s)) t \<le> 1"
    by linarith
  moreover have "t \<in> set (rt_expired s) \<longleftrightarrow> 0 < count (mset (rt_expired s)) t"
    by simp
  ultimately show "count (mset (rt_expired s)) t = (if t \<in> set (rt_expired s) then 1 else 0)"
    by (cases "count (mset (rt_expired s)) t" rule: nat.exhaust) simp_all
qed

lemma complete_loop_spec:
  assumes "complete_loop c cb s = Some s'" "rt_inv s" "cb_typed cb"
  shows "rt_inv s' \<and> rt_expired s' = [] \<and> rt_now s \<le> rt_now s' \<and>
    (\<exists>new. rt_fired s' = rt_fired s @ new \<and> mset (map fst new) \<subseteq># mset (rt_expired s)
      \<and> (\<forall>(t, due, at)\<in>set new. due = rt_timeout s t \<and> rt_now s \<le> at)
      \<and> (cb_keeping cb \<longrightarrow> mset (map fst new) = mset (rt_expired s) \<and> (no_stale s \<longrightarrow> no_stale s')))"
  using assms(1,2)
proof (induction "length (rt_expired s)" arbitrary: s rule: less_induct)
  case less
  show ?case
  proof (cases "rt_expired s")
    case Nil
    then have "s' = s"
      using less.prems(1) by (simp add: complete_loop.simps)
    with Nil less.prems(2) show ?thesis by simp
  next
    case (Cons t ts)
    then obtain s5 where s5: "complete_one c cb t (s\<lparr>rt_expired := ts\<rparr>) = Some s5" "complete_loop c cb s5 = Some s'"
      using less.prems(1) by (auto simp: complete_loop.simps [of c cb s] bind_eq_Some_conv)
    obtain s4 where s4: "timer_ops c (cb t s4) s4 = Some s5" "rt_inv s4" "rt_expired s4 = ts"
        "rt_fired s4 = rt_fired s @ [(t, rt_timeout s t, rt_now s)]" "rt_now s4 = rt_now s"
        "\<And>x. x \<noteq> t \<Longrightarrow> rt_objs s4 x = rt_objs s x" "no_stale s \<longrightarrow> no_stale s4"
      using pop_step [OF less.prems(2) Cons complete_one_room [OF s5(1) less.prems(2) Cons], of c cb] s5(1) by auto
    have ops: "rt_inv s5" "rt_keeps s4 s5"
        "cb_keeping cb \<longrightarrow> rt_expired s5 = rt_expired s4 \<and> (no_stale s4 \<longrightarrow> no_stale s5)"
      using timer_ops_keep [OF s4(1) _ s4(2)] assms(3) by (auto simp: cb_typed_def cb_keeping_def no_stale_def)
    have sub: "mset (rt_expired s5) \<subseteq># mset ts"
      using ops(2) s4(3) by (simp add: rt_keeps_def)
    then have "length (rt_expired s5) < length (rt_expired s)"
      using size_mset_mono [OF sub] Cons by simp
    from less.hyps [OF this s5(2) ops(1)]
    obtain new where new: "rt_inv s'" "rt_expired s' = []" "rt_now s5 \<le> rt_now s'" "rt_fired s' = rt_fired s5 @ new"
        "mset (map fst new) \<subseteq># mset (rt_expired s5)"
        "\<forall>(t, due, at)\<in>set new. due = rt_timeout s5 t \<and> rt_now s5 \<le> at"
        "cb_keeping cb \<longrightarrow> mset (map fst new) = mset (rt_expired s5) \<and> (no_stale s5 \<longrightarrow> no_stale s')"
      by blast
    have "distinct (t # ts)"
      using expired_distinct [OF less.prems(2)] Cons by simp
    moreover have "fst e \<in> set (rt_expired s5)" if "e \<in> set new" for e
      using mset_subset_eqD [OF new(5), of "fst e"] that by auto
    moreover have "x \<in> set ts" if "x \<in> set (rt_expired s5)" for x
      using mset_subset_eqD [OF sub, of x] that by auto
    ultimately have "\<forall>(x, due, at)\<in>set new. x \<noteq> t \<and> rt_objs s5 x = rt_objs s x"
      using ops(2) s4(6) by (fastforce simp: rt_keeps_def)
    then have "\<forall>(x, due, at)\<in>set new. due = rt_timeout s x \<and> rt_now s \<le> at"
      using new(6) ops(2) s4(5) by (fastforce simp: rt_keeps_def rt_timeout_def)
    moreover have "mset (map fst new) \<subseteq># mset ts"
      using new(5) sub by (rule subset_mset.order_trans)
    ultimately show ?thesis
      using new ops s4 Cons by (intro conjI exI [of _ "(t, rt_timeout s t, rt_now s) # new"]) (auto simp: rt_keeps_def)
  qed
qed

lemma complete_loop_returns:
  assumes "rt_inv s" "roomy s" "cb_typed cb" "cb_returns c cb"
  shows "\<exists>s'. complete_loop c cb s = Some s'"
  using assms(1,2)
proof (induction "length (rt_expired s)" arbitrary: s rule: less_induct)
  case less
  show ?case
  proof (cases "rt_expired s")
    case (Cons t ts)
    then obtain s4 where s4: "complete_one c cb t (s\<lparr>rt_expired := ts\<rparr>) = timer_ops c (cb t s4) s4" "rt_inv s4"
        "rt_expired s4 = ts" "rt_now s4 = rt_now s" "\<forall>x. tm_period (rt_objs s4 x) = tm_period (rt_objs s x)"
      using pop_step [OF less.prems(1) Cons, of c cb] less.prems(2) by (auto simp: roomy_def)
    then have "roomy s4"
      using less.prems(2) by (simp add: roomy_def)
    then obtain s5 where s5: "timer_ops c (cb t s4) s4 = Some s5" "roomy s5"
      using assms(4) s4(2) by (auto simp: cb_returns_def)
    then have "rt_inv s5" "rt_keeps s4 s5"
      using timer_ops_keep [OF s5(1) _ s4(2)] assms(3) by (auto simp: cb_typed_def)
    moreover from this have "length (rt_expired s5) < length (rt_expired s)"
      using size_mset_mono [of "mset (rt_expired s5)" "mset ts"] Cons s4(3) by (simp add: rt_keeps_def)
    ultimately obtain s' where "complete_loop c cb s5 = Some s'"
      using less.hyps s5(2) by blast
    then show ?thesis
      using Cons s4(1) s5(1) by (simp add: complete_loop.simps [of c cb s])
  qed (simp add: complete_loop.simps)
qed

text \<open>The whole of \<open>complete_timers\<close>, before the timer is enabled again.\<close>

definition due_timers :: "reactor_timers \<Rightarrow> nat multiset" where
  "due_timers s = filter_mset (\<lambda>t. rt_timeout s t \<le> rt_now s) (active_timers s)"

lemma complete_timers_spec:
  assumes "rt_inv s" "rt_expired s = []" "cb_typed cb" "complete_timers c cb enable s = Some s'"
  shows "\<exists>u new. s' = enable u \<and> rt_inv u \<and> rt_expired u = [] \<and> rt_now s \<le> rt_now u \<and> rt_fired u = rt_fired s @ new
    \<and> mset (map fst new) \<subseteq># due_timers s \<and> (\<forall>(t, due, at)\<in>set new. due = rt_timeout s t \<and> rt_now s \<le> at)
    \<and> (cb_keeping cb \<longrightarrow> mset (map fst new) = due_timers s \<and> no_stale u)"
proof -
  obtain exp ts s1 where s1: "ts_expire (rt_timeout s) (rt_now s) (rt_timers s) = Some (exp, ts)"
      "s1 = mark_expired exp (s\<lparr>rt_expired := exp, rt_timers := ts\<rparr>)" "rt_inv s1" "mset exp = due_timers s"
      "no_stale s1" "rt_timeout s1 = rt_timeout s"
    using expire_step [OF assms(1,2)] by (auto simp: due_timers_def no_stale_def)
  have f: "rt_fired s1 = rt_fired s" "rt_now s1 = rt_now s" "rt_expired s1 = exp"
    by (simp_all add: s1(2) mark_expired_objs)
  obtain u where u: "complete_loop c cb s1 = Some u" "s' = enable u"
    using assms(4) s1(1,2) by (auto simp: complete_timers_def)
  from complete_loop_spec [OF u(1) s1(3) assms(3)] show ?thesis
    unfolding f s1(4,6) using u(2) s1(5) by blast
qed

lemma complete_timers_returns:
  assumes "rt_inv s" "rt_expired s = []" "cb_typed cb" "cb_returns c cb" "roomy s"
  shows "\<exists>s'. complete_timers c cb enable s = Some s'"
proof -
  obtain exp ts s1 where s1: "ts_expire (rt_timeout s) (rt_now s) (rt_timers s) = Some (exp, ts)"
      "s1 = mark_expired exp (s\<lparr>rt_expired := exp, rt_timers := ts\<rparr>)" "rt_inv s1"
    using expire_step [OF assms(1,2)] by auto
  have "tm_period (rt_objs s1 t) = tm_period (rt_objs s t)" for t
    by (simp add: s1(2) mark_expired_objs)
  moreover have "rt_now s1 = rt_now s"
    by (simp add: s1(2) mark_expired_objs)
  ultimately have "roomy s1"
    using assms(5) by (simp add: roomy_def)
  then obtain u where "complete_loop c cb s1 = Some u"
    using complete_loop_returns [OF s1(3) _ assms(3,4)] by blast
  then show ?thesis
    by (simp add: complete_timers_def s1(1) flip: s1(2))
qed

fun event_typed :: "timer_event \<Rightarrow> bool" where
  "event_typed (Op x) = op_typed x"
| "event_typed (Poll cb) = cb_typed cb"

fun event_keeping :: "timer_event \<Rightarrow> bool" where
  "event_keeping (Op x) = True"
| "event_keeping (Poll cb) = cb_keeping cb"

text \<open>Between events no expired timer is left over.\<close>

lemma timer_event_inv:
  assumes "timer_event_do c e s = Some s'" "event_typed e" "rt_inv s" "rt_expired s = []"
  shows "rt_inv s' \<and> rt_expired s' = []"
proof (cases e)
  case (Op x)
  then have "timer_do c x s = Some s'" "op_typed x"
    using assms(1,2) by simp_all
  with timer_do_spec [OF assms(3) timer_do_ok, of c x s' c] assms(4) show ?thesis
    by (auto simp: rt_keeps_def)
next
  case (Poll cb)
  then have cb: "cb_typed cb"
    using assms(2) by simp
  note spec = complete_timers_spec [OF assms(3,4) cb]
  have p: "rt_inv (s\<lparr>rt_pending := False\<rparr>)" "rt_expired (s\<lparr>rt_pending := False\<rparr>) = []"
    using assms(3,4) by simp_all
  show ?thesis
  proof (cases c)
    case Steady
    then show ?thesis
      using assms complete_timers_spec [OF p cb] Poll
      by (fastforce simp: poll_alarm_def alarm_handler_def enable_timer_def split: if_splits)
  next
    case Lowres
    then show ?thesis
      using assms spec Poll by (fastforce simp: do_expire_lowres_timers_def split: if_splits)
  next
    case Manual
    then show ?thesis
      using assms spec Poll by (fastforce simp: expire_manual_timers_def)
  qed
qed

lemma timer_run_inv:
  "timer_run c es s = Some s' \<Longrightarrow> list_all event_typed es \<Longrightarrow> rt_inv s \<Longrightarrow> rt_expired s = []
    \<Longrightarrow> rt_inv s' \<and> rt_expired s' = []"
proof (induction es arbitrary: s)
  case (Cons e es)
  then show ?case
    by (auto simp: bind_eq_Some_conv dest!: timer_event_inv)
qed simp

section \<open>The kernel timer\<close>

lemma scheduled_event:
  assumes "timer_event_do Steady e s = Some s'" "event_typed e" "event_keeping e" "rt_inv s" "rt_expired s = []" "scheduled s"
  shows "scheduled s'"
proof (cases e)
  case (Op x)
  then have "timer_do Steady x s = Some s'" "op_typed x"
    using assms(1,2) by simp_all
  with timer_do_spec [OF assms(4) timer_do_ok, of Steady x s' Steady] assms(6) show ?thesis
    by auto
next
  case (Poll cb)
  then have cb: "cb_typed cb" "cb_keeping cb"
    using assms(2,3) by simp_all
  show ?thesis
  proof (cases "rt_pending s")
    case True
    let ?en = "\<lambda>s. if \<not> ts_is_empty (rt_timers s) then enable_timer (get_next_timeout (rt_timers s)) s else s"
    have "complete_timers Steady cb ?en (s\<lparr>rt_pending := False\<rparr>) = Some s'"
      using assms(1) Poll True by (simp add: poll_alarm_def alarm_handler_def)
    from complete_timers_spec [OF _ _ cb(1) this] assms(4,5) cb(2)
    obtain u where u: "s' = ?en u" "rt_inv u" "no_stale u"
      by auto
    have "ts_is_empty (rt_timers u) \<longleftrightarrow> active_timers u = {#}"
      using ts_empty_iff u(2) by (auto simp: ts_is_empty_def rt_inv_def)
    then show ?thesis
      using u(1,3) by (auto simp: scheduled_def enable_timer_def no_stale_def)
  next
    case False
    then show ?thesis
      using assms(1,6) Poll by (simp add: poll_alarm_def)
  qed
qed

lemma scheduled_run:
  "timer_run Steady es s = Some s' \<Longrightarrow> list_all event_typed es \<Longrightarrow> list_all event_keeping es \<Longrightarrow> rt_inv s
    \<Longrightarrow> rt_expired s = [] \<Longrightarrow> scheduled s \<Longrightarrow> scheduled s'"
proof (induction es arbitrary: s)
  case (Cons e es)
  then obtain s1 where s1: "timer_event_do Steady e s = Some s1" "timer_run Steady es s1 = Some s'"
    by (auto simp: bind_eq_Some_conv)
  have "rt_inv s1 \<and> rt_expired s1 = []"
    by (rule timer_event_inv [OF s1(1)]) (use Cons.prems in simp_all)
  moreover have "scheduled s1"
    by (rule scheduled_event [OF s1(1)]) (use Cons.prems in simp_all)
  ultimately show ?case
    using Cons.IH [OF s1(2)] Cons.prems by simp
qed simp

text \<open>
  When all timers have been cancelled by callbacks, the set still remembers a time that nothing is
  scheduled for; a timer armed for later does not schedule one either.
\<close>

definition stuck :: "reactor_timers \<Rightarrow> bool" where
  "stuck s \<longleftrightarrow> rt_inv s \<and> rt_expired s = [] \<and> rt_enabled s = None \<and> \<not> rt_pending s \<and> ts_next (rt_timers s) \<le> rt_now s"

fun op_forward :: "int \<Rightarrow> timer_op \<Rightarrow> bool" where
  "op_forward m (Arm t until p) = (m \<le> until \<and> until \<le> max_timestamp)"
| "op_forward m (Rearm t until p) = (m \<le> until \<and> until \<le> max_timestamp)"
| "op_forward m (Arm_delta t d) = (0 \<le> d)"
| "op_forward m (Arm_periodic t d) = (0 \<le> d)"
| "op_forward m x = True"

fun event_forward :: "int \<Rightarrow> timer_event \<Rightarrow> bool" where
  "event_forward m (Op x) = op_forward m x"
| "event_forward m (Poll cb) = True"

lemma stuck_same: "stuck s \<Longrightarrow> same_schedule s s' \<Longrightarrow> rt_inv s' \<Longrightarrow> rt_keeps s s' \<Longrightarrow> stuck s'"
  by (simp add: stuck_def same_schedule_def rt_keeps_def)

lemma stuck_op:
  assumes "stuck s" "timer_do Steady x s = Some s'" "op_forward (ts_next (rt_timers s)) x"
  shows "stuck s' \<and> ts_next (rt_timers s') = ts_next (rt_timers s) \<and> rt_fired s' = rt_fired s"
proof -
  have inv: "rt_inv s"
    using assms(1) by (simp add: stuck_def)
  have goal: ?thesis if "same_schedule s s'" "rt_inv s'" "rt_keeps s s'"
    using stuck_same [OF assms(1) that] that by (simp add: same_schedule_def rt_keeps_def)
  have ok: "op_ok s x"
    using timer_do_ok [OF assms(2)] assms(3) by (cases x) auto
  have n: "ts_next (rt_timers s) \<le> rt_now s"
    using assms(1) by (simp add: stuck_def)
  show ?thesis
  proof (cases x)
    case (Rearm t until p)
    obtain s1 where s1: "timer_cancel t s = Some (tm_armed (rt_objs s t), s1)" "rt_inv s1" "rt_keeps s s1"
        "same_schedule s s1" "\<not> tm_armed (rt_objs s1 t)"
      using timer_cancel_spec [OF inv] by blast
    moreover have "timer_rearm Steady t until p s = timer_arm Steady t until p s1"
      using s1(1) by (auto simp: timer_rearm_def timer_cancel_def)
    moreover have "ts_next (rt_timers s1) \<le> until"
      using assms(3) s1(4) Rearm by (simp add: same_schedule_def)
    ultimately have "rt_inv s'" "rt_keeps s1 s'" "same_schedule s1 s'"
      using timer_arm_spec [of s1 t until Steady p] assms(2,3) Rearm by auto
    then show ?thesis
      using goal s1 rt_keeps_trans by (auto simp: same_schedule_def)
  next
    case (Pass n)
    then show ?thesis
      using clock_advance_spec [OF inv, of n] ok assms(1,2) by (auto simp: stuck_def rt_keeps_def)
  next
    case (Arm t until p)
    then show ?thesis
      using goal timer_arm_spec [OF inv, of t until Steady p] ok assms(2,3) by auto
  next
    case (Arm_delta t d)
    then show ?thesis
      using goal timer_arm_spec [OF inv, of t "rt_now s + d" Steady None] ok assms(2,3) n
      by (auto simp: timer_arm_delta_def time_after_def)
  next
    case (Arm_periodic t d)
    then show ?thesis
      using goal timer_arm_spec [OF inv, of t "rt_now s + d" Steady "Some d"] ok assms(2,3) n
      by (auto simp: timer_arm_periodic_def time_after_def)
  next
    case (Cancel t)
    then show ?thesis
      using goal timer_cancel_spec [OF inv, of t] assms(2) by auto
  next
    case (Destroy t)
    then show ?thesis
      using goal timer_destroy_spec [OF inv, of t] assms(2) by auto
  qed
qed

lemma stuck_run:
  "stuck s \<Longrightarrow> timer_run Steady es s = Some s' \<Longrightarrow> list_all (event_forward (ts_next (rt_timers s))) es
    \<Longrightarrow> stuck s' \<and> rt_fired s' = rt_fired s"
proof (induction es arbitrary: s)
  case (Cons e es)
  then obtain s1 where s1: "timer_event_do Steady e s = Some s1" "timer_run Steady es s1 = Some s'"
    by (auto simp: bind_eq_Some_conv)
  have "stuck s1 \<and> ts_next (rt_timers s1) = ts_next (rt_timers s) \<and> rt_fired s1 = rt_fired s"
  proof (cases e)
    case (Op x)
    then show ?thesis
      using stuck_op [OF Cons.prems(1)] s1(1) Cons.prems(3) by simp
  next
    case (Poll cb)
    then show ?thesis
      using Cons.prems(1) s1(1) by (auto simp: poll_alarm_def stuck_def)
  qed
  then show ?case
    using Cons.IH [of s1] s1(2) Cons.prems(3) by simp
qed simp

text \<open>The timer objects after a run that arms some and lets time pass.\<close>

lemma timer_arm_objs:
  "timer_arm c t until p s = Some s' \<Longrightarrow> rt_objs s' = (rt_objs s)(t :=
    \<lparr>tm_expiry = until, tm_period = p, tm_armed = True, tm_queued = True, tm_expired = False\<rparr>)"
  by (cases c) (auto simp: timer_arm_def arm_state_def queue_timer_def set_timer_def enable_timer_def split: if_splits)

lemma clock_advance_objs: "clock_advance n s = Some s' \<Longrightarrow> rt_objs s' = rt_objs s"
  by (auto simp: clock_advance_def split: option.splits if_splits)

lemmas run_objs = timer_arm_objs clock_advance_objs

lemma idle_callbacks: "cb_typed (\<lambda>t s. [])" "cb_keeping (\<lambda>t s. [])" "cb_returns c (\<lambda>t s. [])"
  by (simp_all add: cb_typed_def cb_keeping_def cb_returns_def)

section \<open>Properties\<close>

text \<open>
  C18. In every run of operations, passing time and expiries, on each of the three clocks, and whatever the
  callbacks do: between events a timer is armed exactly when it is in the active set, where it is
  once, no expired timer is left over, and no callback ever ran before the timeout of its timer.
\<close>

theorem timers_linked_never_early:
  assumes "timer_run c es rt_init = Some s" "list_all event_typed es"
  shows "(\<forall>t. count (ts_active (rt_timers s)) t = of_bool (tm_armed (rt_objs s t))) \<and> rt_expired s = []
    \<and> (\<forall>(t, due, at)\<in>set (rt_fired s). due \<le> at)"
proof -
  have "rt_inv s \<and> rt_expired s = []"
    by (rule timer_run_inv [OF assms rt_init_inv]) (simp add: rt_init_def)
  then show ?thesis
    by (auto simp: rt_inv_def links_ok_def)
qed

theorem timers_linked_never_early_witness:
  "\<exists>s. timer_run Steady [Op (Arm_periodic 0 10), Op (Pass 10), Poll (\<lambda>t s. [Arm 1 15 None])] rt_init = Some s
    \<and> rt_fired s = [(0, 10, 10)] \<and> count (ts_active (rt_timers s)) 0 = of_bool (tm_armed (rt_objs s 0)) \<and> rt_expired s = []"
proof -
  let ?es = "[Op (Arm_periodic 0 10), Op (Pass 10), Poll (\<lambda>t s. [Arm 1 15 None])]"
  have "map_option rt_fired (timer_run Steady ?es rt_init) = Some [(0, 10, 10)]"
    by code_simp
  then obtain s where s: "timer_run Steady ?es rt_init = Some s" "rt_fired s = [(0, 10, 10)]"
    by auto
  with timers_linked_never_early [OF s(1)] show ?thesis
    by (auto simp: cb_typed_def max_timestamp_def)
qed

text \<open>
  C17. \<open>complete_timers\<close> returns if its callbacks do and time plus a period stays in range. It calls
  the callbacks of due timers only, each at most once, not before the time of the call; if the
  callbacks cancel nothing, it calls all of them.
\<close>

theorem complete_timers_calls_due:
  assumes "timer_run c es rt_init = Some s" "list_all event_typed es" "cb_typed cb" "cb_returns c cb" "roomy s"
  shows "\<exists>u new. complete_timers c cb enable s = Some (enable u) \<and> rt_expired u = [] \<and> rt_fired u = rt_fired s @ new
    \<and> mset (map fst new) \<subseteq># filter_mset (\<lambda>t. rt_timeout s t \<le> rt_now s) (ts_active (rt_timers s))
    \<and> (\<forall>(t, due, at)\<in>set new. due = rt_timeout s t \<and> rt_now s \<le> at)
    \<and> (cb_keeping cb \<longrightarrow>
        mset (map fst new) = filter_mset (\<lambda>t. rt_timeout s t \<le> rt_now s) (ts_active (rt_timers s)))"
proof -
  have inv: "rt_inv s" "rt_expired s = []"
    using timer_run_inv [OF assms(1,2) rt_init_inv] by (simp_all add: rt_init_def)
  then obtain s' where s': "complete_timers c cb enable s = Some s'"
    using complete_timers_returns [OF _ _ assms(3-5)] by blast
  from complete_timers_spec [OF inv assms(3) this] show ?thesis
    unfolding due_timers_def s' by blast
qed

theorem complete_timers_calls_due_witness:
  "\<exists>s u new. timer_run Manual [Op (Arm 0 5 None), Op (Arm 1 7 (Some 3)), Op (Arm 2 20 None), Op (Pass 8)] rt_init = Some s
    \<and> complete_timers Manual (\<lambda>t s. []) id s = Some u \<and> rt_fired u = rt_fired s @ new \<and> mset (map fst new) = {#0, 1#}"
proof -
  let ?es = "[Op (Arm 0 5 None), Op (Arm 1 7 (Some 3)), Op (Arm 2 20 None), Op (Pass 8)]"
  have "map_option (\<lambda>s. (rt_now s, concat (ts_buckets (rt_timers s)))) (timer_run Manual ?es rt_init) = Some (8, [2, 0, 1])"
    by code_simp
  then obtain s where s: "timer_run Manual ?es rt_init = Some s" "rt_now s = 8" "ts_active (rt_timers s) = {#2, 0, 1#}"
    by (auto simp: ts_active_def)
  have objs: "rt_objs s = (rt_objs rt_init)(0 := rt_objs s 0, 1 := rt_objs s 1, 2 := rt_objs s 2)"
    and t: "rt_timeout s 0 = 5" "rt_timeout s 1 = 7" "rt_timeout s 2 = 20" "tm_period (rt_objs s 0) = None"
      "tm_period (rt_objs s 1) = Some 3" "tm_period (rt_objs s 2) = None"
    using s(1) by (auto simp: bind_eq_Some_conv rt_timeout_def dest!: run_objs)
  have "roomy s"
    unfolding roomy_def s(2) by (subst objs) (auto simp: t rt_init_def timer_new_def max_timestamp_def simp del: One_nat_def)
  from complete_timers_calls_due [OF s(1) _ idle_callbacks(1,3) this, of id] show ?thesis
    using s idle_callbacks(2) by (auto simp: t max_timestamp_def simp del: One_nat_def)
qed

text \<open>
  C16. On the steady clock, as long as callbacks cancel, rearm and destroy nothing: a timer that is armed
  is called in the first poll after its timeout has passed, once. \<open>max_timestamp\<close> is never.
\<close>

theorem armed_timer_is_called:
  assumes "timer_run Steady es rt_init = Some s" "list_all event_typed es" "list_all event_keeping es"
    and "tm_armed (rt_objs s t)" "rt_timeout s t < max_timestamp"
    and "rt_timeout s t \<le> rt_now s + int n" "rt_now s + int n \<le> max_timestamp"
    and "cb_typed cb" "cb_keeping cb" "cb_returns Steady cb" "\<forall>x p. tm_period (rt_objs s x) = Some p \<longrightarrow> rt_now s + int n + p \<le> max_timestamp"
  shows "\<exists>s' new. timer_run Steady [Op (Pass n), Poll cb] s = Some s' \<and> rt_fired s' = rt_fired s @ new
    \<and> (\<exists>at \<ge> rt_now s + int n. (t, rt_timeout s t, at) \<in> set new) \<and> count (mset (map fst new)) t = 1"
proof -
  have inv: "rt_inv s" "rt_expired s = []"
    using timer_run_inv [OF assms(1,2) rt_init_inv] by (simp_all add: rt_init_def)
  have "scheduled s"
    by (rule scheduled_run [OF assms(1-3) rt_init_inv]) (simp_all add: rt_init_def scheduled_def ts_init_def)
  have one: "count (active_timers s) t = 1"
    using inv assms(4) by (simp add: rt_inv_def links_ok_def)
  then have act: "t \<in># active_timers s"
    by (simp flip: count_greater_zero_iff)
  obtain s1 where s1: "clock_advance n s = Some s1" "rt_inv s1" "rt_fired s1 = rt_fired s" "rt_expired s1 = []"
      "rt_timers s1 = rt_timers s" "rt_objs s1 = rt_objs s" "rt_now s1 = rt_now s + int n"
      "\<forall>d. rt_enabled s = Some d \<longrightarrow> d \<le> rt_now s1 \<longrightarrow> rt_pending s1" "rt_pending s \<longrightarrow> rt_pending s1"
    using clock_advance_spec [OF inv(1) assms(7)] inv(2) unfolding rt_keeps_def by auto
  have tmo: "rt_timeout s1 = rt_timeout s"
    using s1(6) by (auto simp: rt_timeout_def)
  have "ts_next (rt_timers s) \<le> rt_timeout s t"
    using tq.due_law [OF _ act] inv(1) by (simp add: rt_inv_def)
  then have "get_next_timeout (rt_timers s) \<le> rt_now s1" "ts_next (rt_timers s) < max_timestamp"
    using assms(5,6) s1(7) inv(1) by (auto simp: get_next_timeout_def rt_inv_def)
  then have pending: "rt_pending s1"
    using \<open>scheduled s\<close> s1(8,9) by (auto simp: scheduled_def)
  let ?s2 = "s1\<lparr>rt_pending := False\<rparr>"
  have s2: "rt_inv ?s2" "rt_expired ?s2 = []" "roomy ?s2"
    using s1 assms(11) by (simp_all add: roomy_def)
  then obtain s' where s': "alarm_handler cb ?s2 = Some s'"
    using complete_timers_returns [OF s2(1,2) assms(8,10)] unfolding alarm_handler_def by blast
  obtain u new where u: "rt_fired s' = rt_fired s @ new" "mset (map fst new) = due_timers ?s2"
      "\<forall>(t, due, at)\<in>set new. due = rt_timeout s t \<and> rt_now s + int n \<le> at"
    using complete_timers_spec [OF s2(1,2) assms(8) s' [unfolded alarm_handler_def]] assms(9) s1(3,7) tmo
    by (auto simp: enable_timer_def split: if_splits)
  have "count (mset (map fst new)) t = 1"
    unfolding u(2) using one s1(5,7) assms(6) tmo by (simp add: due_timers_def)
  moreover from this have "t \<in> fst ` set new"
    by (metis count_eq_zero_iff image_set one_neq_zero set_mset_mset)
  then obtain due at where e: "(t, due, at) \<in> set new"
    by auto
  moreover have "due = rt_timeout s t \<and> rt_now s + int n \<le> at"
    using u(3) e by blast
  moreover have "timer_run Steady [Op (Pass n), Poll cb] s = Some s'"
    using s1(1) pending s' by (simp add: poll_alarm_def)
  ultimately show ?thesis
    using u(1) by blast
qed

theorem armed_timer_is_called_witness:
  "\<exists>s s' new. timer_run Steady [Op (Arm 0 5 None)] rt_init = Some s
    \<and> timer_run Steady [Op (Pass 8), Poll (\<lambda>t s. [])] s = Some s' \<and> rt_fired s' = rt_fired s @ new
    \<and> (\<exists>at \<ge> 8. (0, 5, at) \<in> set new)"
proof -
  have "map_option rt_now (timer_run Steady [Op (Arm 0 5 None)] rt_init) = Some 0"
    by code_simp
  then obtain s where s: "timer_run Steady [Op (Arm 0 5 None)] rt_init = Some s" "rt_now s = 0"
    by auto
  then have objs: "rt_objs s = (rt_objs rt_init)(0 :=
      \<lparr>tm_expiry = 5, tm_period = None, tm_armed = True, tm_queued = True, tm_expired = False\<rparr>)"
    by (auto simp: bind_eq_Some_conv dest!: run_objs)
  have t: "tm_armed (rt_objs s 0)" "rt_timeout s 0 = 5" "\<forall>x p. tm_period (rt_objs s x) = Some p \<longrightarrow> rt_now s + int 8 + p \<le> max_timestamp"
    by (auto simp: objs rt_timeout_def rt_init_def timer_new_def)
  show ?thesis
    using armed_timer_is_called [OF s(1) _ _ t(1) _ _ _ idle_callbacks t(3)] s t(2) by (auto simp: max_timestamp_def)
qed



end
