(* ===== verification/Tcp_Options.thy ===== *)
theory Tcp_Options
  imports Tcp_Hdr Bit_Ops
begin

text \<open>
  TCP options (\<open>tcp_option\<close>, net/tcp.hh and net/tcp.cc): what is sent with a SYN segment and what is
  read from one. The options of a segment are the bytes between the fixed header and the data;
  \<open>None\<close> is a read past their end.
\<close>

record tcp_option =
  mss_received :: bool
  win_scale_received :: bool
  timestamps_received :: bool
  sack_received :: bool
  remote_mss :: u16
  local_mss :: u16
  remote_win_scale :: u8
  local_win_scale :: u8

text \<open>The local MSS is uninitialised until a connection is opened.\<close>

definition tcp_option_init :: "u16 \<Rightarrow> tcp_option" where
  "tcp_option_init raw = \<lparr>mss_received = False, win_scale_received = False, timestamps_received = False,
    sack_received = False, remote_mss = 536, local_mss = raw, remote_win_scale = 0, local_win_scale = 0\<rparr>"

definition mss_read :: "bytes \<Rightarrow> u16" where
  "mss_read p = read_be (drop 2 p)"

definition mss_write :: "u16 \<Rightarrow> bytes" where
  "mss_write m = [2, 4] @ object_bytes (cpu_to_be m)"

definition win_scale_write :: "u8 \<Rightarrow> bytes" where
  "win_scale_write shift = [3, 3, shift]"

function option_parse :: "bytes \<Rightarrow> tcp_option \<Rightarrow> tcp_option option" where
  "option_parse p opt = (case p of [] \<Rightarrow> Some opt
    | kind # rest \<Rightarrow>
      if kind = 0 then Some opt
      else if kind = 1 then option_parse rest opt
      else (case rest of [] \<Rightarrow> None
        | len # _ \<Rightarrow>
          if unat len > length p then Some opt
          else if kind = 2 then (if length p < 4 then None
            else option_parse (drop 4 p) (opt\<lparr>mss_received := True, remote_mss := mss_read p\<rparr>))
          else if kind = 3 then (if length p < 3 then None
            else option_parse (drop 3 p) (opt\<lparr>win_scale_received := True, remote_win_scale := p ! 2, local_win_scale := 7\<rparr>))
          else if kind = 4 then option_parse (drop 2 p) (opt\<lparr>sack_received := True\<rparr>)
          else if len = 0 then Some opt
          else option_parse (drop (unat len) p) opt))"
  by pat_completeness auto
termination
  by (relation "measure (\<lambda>(p, opt). length p)") (auto simp: unat_gt_0)

declare option_parse.simps [simp del]

definition option_get_size :: "bool \<Rightarrow> bool \<Rightarrow> tcp_option \<Rightarrow> u8" where
  "option_get_size syn_on ack_on opt =
    (let size = (if syn_on \<and> (mss_received opt \<or> \<not> ack_on) then 4 else 0)
        + (if syn_on \<and> (win_scale_received opt \<or> \<not> ack_on) then 3 else 0)
     in if size > 0 then align_up (size + 1) 4 else size)"

text \<open>\<open>fill\<close>, as the bytes it writes; the caller's \<open>option_get_size\<close> has to agree with their number.\<close>

definition option_fill :: "bool \<Rightarrow> bool \<Rightarrow> tcp_option \<Rightarrow> bytes" where
  "option_fill syn_on ack_on opt =
    (let b = (if syn_on \<and> (mss_received opt \<or> \<not> ack_on) then mss_write (local_mss opt) else [])
        @ (if syn_on \<and> (win_scale_received opt \<or> \<not> ack_on) then win_scale_write (local_win_scale opt) else [])
     in if b = [] then [] else
       b @ replicate (unat (align_up (of_nat (length b) + 1 :: u8) 4) - 1 - length b) 1 @ [0])"

section \<open>What is written can be read\<close>

lemma length_mss_write [simp]: "length (mss_write m) = 4"
  by (simp add: mss_write_def)

lemma length_win_scale_write [simp]: "length (win_scale_write m) = 3"
  by (simp add: win_scale_write_def)

lemma option_write_nonempty [simp]: "mss_write m \<noteq> []" "win_scale_write w \<noteq> []"
  by (simp_all add: mss_write_def win_scale_write_def)

lemma align_up_cases: "align_up 5 4 = (8 :: u8)" "align_up 4 4 = (4 :: u8)" "align_up 8 4 = (8 :: u8)"
  by (simp_all add: align_up_def)

lemma option_fill_size: "of_nat (length (option_fill syn_on ack_on opt)) = option_get_size syn_on ack_on opt"
  "length (option_fill syn_on ack_on opt) \<le> 8" "4 dvd length (option_fill syn_on ack_on opt)"
  by (auto simp: option_fill_def option_get_size_def Let_def align_up_cases)

lemma parse_mss: "option_parse (mss_write m @ p) opt = option_parse p (opt\<lparr>mss_received := True, remote_mss := m\<rparr>)"
  unfolding option_parse.simps [of "mss_write m @ p"]
  by (simp add: mss_write_def mss_read_def read_be_object)

lemma parse_win_scale: "option_parse (win_scale_write m @ p) opt
    = option_parse p (opt\<lparr>win_scale_received := True, remote_win_scale := m, local_win_scale := 7\<rparr>)"
  unfolding option_parse.simps [of "win_scale_write m @ p"] by (simp add: win_scale_write_def)

lemma parse_padding: "option_parse (replicate n 1 @ [0]) opt = Some opt"
  by (induction n) (simp_all add: option_parse.simps)

definition options_learnt :: "bool \<Rightarrow> bool \<Rightarrow> tcp_option \<Rightarrow> tcp_option \<Rightarrow> tcp_option" where
  "options_learnt syn_on ack_on opt opt' =
    (let o1 = (if syn_on \<and> (mss_received opt \<or> \<not> ack_on) then opt'\<lparr>mss_received := True, remote_mss := local_mss opt\<rparr> else opt')
     in if syn_on \<and> (win_scale_received opt \<or> \<not> ack_on)
       then o1\<lparr>win_scale_received := True, remote_win_scale := local_win_scale opt, local_win_scale := 7\<rparr> else o1)"

lemma option_parse_fill: "option_parse (option_fill syn_on ack_on opt) opt' = Some (options_learnt syn_on ack_on opt opt')"
  using parse_mss parse_win_scale parse_padding
  by (auto simp: option_fill_def options_learnt_def Let_def option_parse.simps [of "[]"])

end
