(* ===== verification/Tcp_Tcb.thy ===== *)
theory Tcp_Tcb
  imports Preprocessors Udp_Channel Tcp_Options
begin

text \<open>
  The control block of a TCP connection: class \<open>tcb\<close> of net/tcp.hh, all of its operations.

  \<^item> Packets to be sent are byte strings (\<open>Net_Packet\<close> shows that packet operations act on the bytes),
    packets received are packets, since the merger works on them. A segment in \<open>tb_packetq\<close> is the
    bytes of header, options and data with its offload information.
  \<^item> A timer is the time at which it fires, or \<open>None\<close> when it is not armed; the time \<open>tb_now\<close> is in
    milliseconds. Initial sequence numbers and the memory that the constructor leaves
    uninitialised are arguments.
  \<^item> A promise that is waited for is a flag; what it is resolved with, and what is done in the rest
    of the stack, is appended to \<open>tb_log\<close>. Continuations are separate operations.
  \<^item> \<open>None\<close> is a failed assertion, division by zero or undefined behaviour.
\<close>

section \<open>State\<close>

datatype tcp_state = CLOSED | LISTEN | SYN_SENT | SYN_RECEIVED | ESTABLISHED | FIN_WAIT_1 | FIN_WAIT_2
  | CLOSE_WAIT | CLOSING | LAST_ACK | TIME_WAIT

datatype tcp_error = Reset_error | Connect_error | Refused_error | Aborted_error | Arp_error

datatype tcp_event = Connect_done | Connect_failed tcp_error | Data_received | Reader_failed tcp_error
  | All_data_acked | All_acked_failed tcp_error | Send_available | Send_failed tcp_error
  | Accepted | Reset_sent tcp_hdr

record unacked_segment =
  us_p :: bytes
  us_data_len :: u16
  us_nr_transmits :: nat
  us_tx_time :: int

record tcp_send =
  s_una :: tcp_seq
  s_next :: tcp_seq
  s_window :: u32
  s_window_scale :: u8
  s_mss :: u16
  s_wl1 :: tcp_seq
  s_wl2 :: tcp_seq
  s_initial :: tcp_seq
  s_data :: "unacked_segment list"
  s_unsent :: "bytes list"
  s_unsent_len :: u32
  s_closed :: bool
  s_all_acked_promise :: bool
  s_queue_space :: u64
  s_available_promise :: bool
  s_rttvar :: int
  s_srtt :: int
  s_first_rto_sample :: bool
  s_syn_tx_time :: int
  s_cwnd :: u32
  s_ssthresh :: u32
  s_dupacks :: u16
  s_syn_retransmit :: nat
  s_fin_retransmit :: nat
  s_limited_transfer :: u32
  s_partial_ack :: u32
  s_recover :: tcp_seq
  s_window_probe :: bool
  s_probing_out :: u8

record tcp_receive =
  r_next :: tcp_seq
  r_window :: u32
  r_window_scale :: u8
  r_mss :: u16
  r_urgent :: tcp_seq
  r_initial :: tcp_seq
  r_data :: "pkt list"
  r_out_of_order :: "tcp_seq packet_merger"
  r_data_promise :: bool

record tcb =
  tb_state :: tcp_state
  tb_local_ip :: u32
  tb_foreign_ip :: u32
  tb_local_port :: u16
  tb_foreign_port :: u16
  tb_snd :: tcp_send
  tb_rcv :: tcp_receive
  tb_option :: tcp_option
  tb_delayed_ack :: "int option"
  tb_rto :: int
  tb_persist_time_out :: int
  tb_retransmit :: "int option"
  tb_persist :: "int option"
  tb_nr_full_seg :: u16
  tb_packetq :: "(bytes \<times> offload_info) list"
  tb_poll_active :: bool
  tb_registered :: bool
  tb_now :: int
  tb_log :: "tcp_event list"

definition rto_min :: int where "rto_min = 1000"
definition rto_max :: int where "rto_max = 60000"
definition rto_clk_granularity :: int where "rto_clk_granularity = 1"
definition max_nr_retransmit :: nat where "max_nr_retransmit = 5"
definition max_queue_space :: u64 where "max_queue_space = 212992"

text \<open>\<open>tcb::tcb\<close>; \<open>snd0\<close>, \<open>rcv0\<close> and \<open>raw\<close> are what the memory holds before.\<close>

definition tcb_new :: "tcp_send \<Rightarrow> tcp_receive \<Rightarrow> u16 \<Rightarrow> u32 \<Rightarrow> u32 \<Rightarrow> u16 \<Rightarrow> u16 \<Rightarrow> int \<Rightarrow> tcb" where
  "tcb_new snd0 rcv0 raw lip fip lport fport now =
    \<lparr>tb_state = CLOSED, tb_local_ip = lip, tb_foreign_ip = fip, tb_local_port = lport,
     tb_foreign_port = fport,
     tb_snd = snd0\<lparr>s_window := 3737600, s_data := [], s_unsent := [], s_unsent_len := 0, s_closed := False,
       s_all_acked_promise := False, s_queue_space := 0, s_available_promise := False, s_first_rto_sample := True,
       s_dupacks := 0, s_syn_retransmit := 0, s_fin_retransmit := 0, s_limited_transfer := 0, s_partial_ack := 0,
       s_window_probe := False, s_probing_out := 0\<rparr>,
     tb_rcv = rcv0\<lparr>r_data := [], r_out_of_order := \<lparr>pm_map = [], pm_linearizations = 0\<rparr>, r_data_promise := False\<rparr>,
     tb_option = tcp_option_init raw, tb_delayed_ack = None, tb_rto = 1000, tb_persist_time_out = 1000,
     tb_retransmit = None, tb_persist = None, tb_nr_full_seg = 0, tb_packetq = [], tb_poll_active = False,
     tb_registered = True, tb_now = now, tb_log = []\<rparr>"

definition upd_snd :: "(tcp_send \<Rightarrow> tcp_send) \<Rightarrow> tcb \<Rightarrow> tcb" where
  "upd_snd f s = s\<lparr>tb_snd := f (tb_snd s)\<rparr>"

definition upd_rcv :: "(tcp_receive \<Rightarrow> tcp_receive) \<Rightarrow> tcb \<Rightarrow> tcb" where
  "upd_rcv f s = s\<lparr>tb_rcv := f (tb_rcv s)\<rparr>"

definition tcb_log :: "tcp_event \<Rightarrow> tcb \<Rightarrow> tcb" where
  "tcb_log e s = s\<lparr>tb_log := tb_log s @ [e]\<rparr>"

definition in_state :: "tcp_state list \<Rightarrow> tcb \<Rightarrow> bool" where
  "in_state sts s \<longleftrightarrow> tb_state s \<in> set sts"

definition syn_needs_on :: "tcb \<Rightarrow> bool" where
  "syn_needs_on s \<longleftrightarrow> in_state [SYN_SENT, SYN_RECEIVED] s"

definition fin_needs_on :: "tcb \<Rightarrow> bool" where
  "fin_needs_on s \<longleftrightarrow> in_state [FIN_WAIT_1, CLOSING, LAST_ACK] s \<and> s_closed (tb_snd s) \<and> s_unsent_len (tb_snd s) = 0"

definition ack_needs_on :: "tcb \<Rightarrow> bool" where
  "ack_needs_on s \<longleftrightarrow> \<not> in_state [CLOSED, LISTEN, SYN_SENT] s"

definition foreign_will_not_send :: "tcb \<Rightarrow> bool" where
  "foreign_will_not_send s \<longleftrightarrow> in_state [CLOSING, TIME_WAIT, CLOSE_WAIT, LAST_ACK, CLOSED] s"

section \<open>Timers, promises and the poll\<close>

definition tcb_output :: "tcb \<Rightarrow> tcb" where
  "tcb_output s = s\<lparr>tb_poll_active := True\<rparr>"

definition start_retransmit_timer :: "tcb \<Rightarrow> tcb" where
  "start_retransmit_timer s = s\<lparr>tb_retransmit := Some (tb_now s + tb_rto s)\<rparr>"

definition stop_retransmit_timer :: "tcb \<Rightarrow> tcb" where
  "stop_retransmit_timer s = s\<lparr>tb_retransmit := None\<rparr>"

definition start_persist_timer :: "tcb \<Rightarrow> tcb" where
  "start_persist_timer s = s\<lparr>tb_persist := Some (tb_now s + tb_persist_time_out s)\<rparr>"

definition stop_persist_timer :: "tcb \<Rightarrow> tcb" where
  "stop_persist_timer s = s\<lparr>tb_persist := None\<rparr>"

definition clear_delayed_ack :: "tcb \<Rightarrow> tcb" where
  "clear_delayed_ack s = s\<lparr>tb_delayed_ack := None\<rparr>"

definition signal_data_received :: "tcb \<Rightarrow> tcb" where
  "signal_data_received s = (if r_data_promise (tb_rcv s)
    then tcb_log Data_received (upd_rcv (r_data_promise_update (\<lambda>_. False)) s) else s)"

definition signal_all_data_acked :: "tcb \<Rightarrow> tcb" where
  "signal_all_data_acked s = (if s_all_acked_promise (tb_snd s) \<and> s_unsent_len (tb_snd s) = 0
    then tcb_log All_data_acked (upd_snd (s_all_acked_promise_update (\<lambda>_. False)) s) else s)"

definition signal_send_available :: "tcb \<Rightarrow> tcb" where
  "signal_send_available s = (if s_available_promise (tb_snd s) \<and> max_queue_space > s_queue_space (tb_snd s)
    then tcb_log Send_available (upd_snd (s_available_promise_update (\<lambda>_. False)) s) else s)"

definition tcb_cleanup :: "tcb \<Rightarrow> tcb" where
  "tcb_cleanup s = (clear_delayed_ack (stop_retransmit_timer
    (upd_rcv (\<lambda>r. r\<lparr>r_out_of_order := (r_out_of_order r)\<lparr>pm_map := []\<rparr>, r_data := []\<rparr>)
    (upd_snd (\<lambda>d. d\<lparr>s_unsent := [], s_data := []\<rparr>) s))))\<lparr>tb_registered := False\<rparr>"

section \<open>Round-trip time and congestion window\<close>

definition flight_size :: "tcp_send \<Rightarrow> u32" where
  "flight_size d = foldl (\<lambda>size seg. size + of_nat (length (us_p seg))) 0 (s_data d)"

text \<open>Durations are truncated; none of them is negative as long as time does not run backwards.\<close>

definition update_rto :: "int \<Rightarrow> tcb \<Rightarrow> tcb" where
  "update_rto tx_time s =
    (let r = tb_now s - tx_time; d = tb_snd s;
         d' = (if s_first_rto_sample d
           then d\<lparr>s_first_rto_sample := False, s_rttvar := r div 2, s_srtt := r\<rparr>
           else (let delta = (if s_srtt d > r then s_srtt d - r else r - s_srtt d) in
             d\<lparr>s_rttvar := s_rttvar d * 3 div 4 + delta div 4, s_srtt := s_srtt d * 7 div 8 + r div 8\<rparr>));
         rto = s_srtt d' + max rto_clk_granularity (4 * s_rttvar d')
     in s\<lparr>tb_snd := d', tb_rto := min (max rto rto_min) rto_max\<rparr>)"

definition update_cwnd :: "u32 \<Rightarrow> tcb \<Rightarrow> tcb option" where
  "update_cwnd acked_bytes s =
    (let d = tb_snd s; smss = ucast (s_mss d) :: u32 in
     if s_cwnd d < s_ssthresh d then Some (s\<lparr>tb_snd := d\<lparr>s_cwnd := s_cwnd d + min acked_bytes smss\<rparr>\<rparr>)
     else if s_cwnd d = 0 then None
     else Some (s\<lparr>tb_snd := d\<lparr>s_cwnd := s_cwnd d + max 1 (smss * smss div s_cwnd d)\<rparr>\<rparr>))"

definition exit_fast_recovery :: "tcb \<Rightarrow> tcb" where
  "exit_fast_recovery s = upd_snd (\<lambda>d. d\<lparr>s_dupacks := 0, s_limited_transfer := 0, s_partial_ack := 0\<rparr>) s"

definition can_send :: "tcp_send \<Rightarrow> u32 \<times> tcp_send" where
  "can_send d = (if s_window_probe d then (1, d) else
    (let x = min (s_cwnd d) (min (seq_add (s_una d) (s_window d) - s_next d) (s_unsent_len d)) in
     if s_dupacks d = 1 \<or> s_dupacks d = 2
     then (let flight = flight_size d; mx = s_cwnd d + 2 * ucast (s_mss d);
               y = (if flight \<le> mx then min x (mx - flight) else 0)
           in (y, d\<lparr>s_limited_transfer := s_limited_transfer d + y\<rparr>))
     else if s_dupacks d \<ge> 3 then (min (ucast (s_mss d)) x, d)
     else (x, d)))"

section \<open>Output\<close>

text \<open>The loop of the hard case of \<open>get_transmit_packet\<close>: whole packets, then a part of the next.\<close>

fun take_packets :: "nat \<Rightarrow> bytes list \<Rightarrow> bytes \<times> bytes list" where
  "take_packets room [] = ([], [])"
| "take_packets room (q # qs) = (if length q \<le> room
    then (case take_packets (room - length q) qs of (p, rest) \<Rightarrow> (q @ p, rest))
    else (take room q, drop room q # qs))"

definition max_payload :: "hw_features \<Rightarrow> tcp_send \<Rightarrow> u32" where
  "max_payload hw d = (if tx_tso hw then ucast (max_packet_len hw) - 40
    else ucast (min (hw_mtu hw - 40) (s_mss d)))"

definition get_transmit_packet :: "hw_features \<Rightarrow> tcp_send \<Rightarrow> bytes \<times> tcp_send" where
  "get_transmit_packet hw d = (case s_unsent d of [] \<Rightarrow> ([], d)
    | q # qs \<Rightarrow>
      (let (cs, d1) = can_send d; n = unat (min cs (max_payload hw d)) in
       if qs = [] \<and> length q \<le> n
       then (q, d1\<lparr>s_unsent := [], s_unsent_len := s_unsent_len d1 - of_nat (length q)\<rparr>)
       else if length q > n
       then (take n q, d1\<lparr>s_unsent := drop n q # qs, s_unsent_len := s_unsent_len d1 - of_nat n\<rparr>)
       else (case take_packets (n - length q) qs of (p, rest) \<Rightarrow>
         (q @ p, d1\<lparr>s_unsent := rest, s_unsent_len := s_unsent_len d1 - of_nat (length (q @ p))\<rparr>))))"

text \<open>The header of a segment, and its bytes with the checksum or its seed for the hardware.\<close>

definition tcp_header :: "tcb \<Rightarrow> tcp_seq \<Rightarrow> bool \<Rightarrow> tcp_hdr" where
  "tcp_header s sq fin_on =
    (let rcv = tb_rcv s; syn_on = syn_needs_on s; ack_on = ack_needs_on s in
     \<lparr>src_port = tb_local_port s, dst_port = tb_foreign_port s, seq = sq, ack = r_next rcv, rsvd1 = 0,
      data_offset = ucast ((20 + option_get_size syn_on ack_on (tb_option s)) div 4),
      f_fin = fin_on, f_syn = syn_on, f_rst = False, f_psh = False, f_ack = ack_on, f_urg = False, rsvd2 = 0,
      window = ucast (drop_bit (unat (r_window_scale rcv)) (r_window rcv)), checksum = 0, urgent = 0\<rparr>)"

definition tcp_segment :: "hw_features \<Rightarrow> tcb \<Rightarrow> tcp_hdr \<Rightarrow> bytes \<Rightarrow> (bytes \<times> offload_info) option" where
  "tcp_segment hw s h p =
    (let opts = option_fill (f_syn h) (f_ack h) (tb_option s); hlen = 20 + length opts; len = of_nat (length p) :: u16;
         b = tcp_hdr_write h (replicate 20 0 @ opts @ p);
         tso = tx_csum_l4_offload hw \<and> tx_tso hw \<and> len > s_mss (tb_snd s);
         seg_len = (if tso then 0 else of_nat hlen + len);
         csum = pseudo_header_checksum 6 (tb_local_ip s) (tb_foreign_ip s) seg_len cs_init;
         oi = default_offload_info\<lparr>oi_needs_csum := tx_csum_l4_offload hw, oi_protocol := Tcp,
           oi_tcp_hdr_len := of_nat hlen, oi_tso_seg_size := if tso then s_mss (tb_snd s) else 0\<rparr>
     in map_option (\<lambda>c. (write_nbo_checksum c b, oi))
       (if tx_csum_l4_offload hw then Some (NOT (cs_get csum)) else map_option cs_get (cs_sum b csum)))"

definition output_one :: "hw_features \<Rightarrow> bool \<Rightarrow> tcb \<Rightarrow> tcb option" where
  "output_one hw data_retransmit s = (if in_state [CLOSED] s then Some s else
    Option.bind (if data_retransmit
      then (case s_data (tb_snd s) of [] \<Rightarrow> None | seg # _ \<Rightarrow> Some (us_p seg, tb_snd s))
      else Some (get_transmit_packet hw (tb_snd s))) (\<lambda>(p, d).
    let len = of_nat (length p) :: u16;
        s1 = s\<lparr>tb_snd := d\<rparr>;
        syn_on = syn_needs_on s1;
        s2 = (if ack_needs_on s1 then clear_delayed_ack s1 else s1);
        sq = (if data_retransmit then s_una d else if syn_on then s_initial d else s_next d);
        s3 = (if data_retransmit then s2 else upd_snd (\<lambda>d. d\<lparr>s_next := seq_add (s_next d) (ucast len)\<rparr>) s2);
        fin_on = fin_needs_on s3;
        s4 = (if \<not> data_retransmit \<and> (len \<noteq> 0 \<or> syn_on \<or> fin_on)
          then (let s' = (if len \<noteq> 0
                  then upd_snd (\<lambda>d. d\<lparr>s_data := s_data d @ [\<lparr>us_p = p, us_data_len = len, us_nr_transmits = 0, us_tx_time = tb_now s\<rparr>]\<rparr>) s3
                  else s3)
                in if tb_retransmit s' = None then start_retransmit_timer s' else s')
          else s3)
    in Option.bind (tcp_segment hw s3 (tcp_header s3 sq fin_on) p) (\<lambda>seg.
       if s_window d > 0 \<or> len = 1 then Some (s4\<lparr>tb_packetq := tb_packetq s4 @ [seg]\<rparr>) else None)))"

definition tcb_get_packet :: "hw_features \<Rightarrow> tcb \<Rightarrow> ((bytes \<times> offload_info) option \<times> tcb) option" where
  "tcb_get_packet hw s0 =
    (let s = s0\<lparr>tb_poll_active := False\<rparr> in
     Option.bind (if tb_packetq s = [] then output_one hw False s else Some s) (\<lambda>s1.
     if in_state [CLOSED] s1 then Some (None, s1)
     else (case tb_packetq s1 of [] \<Rightarrow> None
       | p # q \<Rightarrow>
         (let s2 = s1\<lparr>tb_packetq := q\<rparr> in
          if q \<noteq> [] then Some (Some p, tcb_output s2)
          else if s_dupacks (tb_snd s2) < 3
          then (let (cs, d) = can_send (tb_snd s2); s3 = s2\<lparr>tb_snd := d\<rparr> in
            Some (Some p, if cs > 0 \<and> s_window d > 0 then tcb_output s3 else s3))
          else Some (Some p, s2)))))"

section \<open>Changes of state\<close>

definition reset_header :: "tcp_hdr \<Rightarrow> tcp_hdr" where
  "reset_header rth = \<lparr>src_port = dst_port rth, dst_port = src_port rth, seq = (if f_ack rth then ack rth else 0),
    ack = (if f_syn rth then seq_add (seq rth) 1 else 0), rsvd1 = 0, data_offset = 5, f_fin = False, f_syn = False,
    f_rst = True, f_psh = False, f_ack = f_syn rth, f_urg = False, rsvd2 = 0, window = 0, checksum = 0, urgent = 0\<rparr>"

definition respond_with_reset :: "tcp_hdr \<Rightarrow> tcb \<Rightarrow> tcb" where
  "respond_with_reset rth s = (if f_rst rth then s else tcb_log (Reset_sent (reset_header rth)) s)"

definition do_syn_sent :: "tcb \<Rightarrow> tcb" where
  "do_syn_sent s = tcb_output (upd_snd (\<lambda>d. d\<lparr>s_syn_tx_time := tb_now s\<rparr>) (s\<lparr>tb_state := SYN_SENT\<rparr>))"

definition do_syn_received :: "tcb \<Rightarrow> tcb" where
  "do_syn_received s = tcb_output (upd_snd (\<lambda>d. d\<lparr>s_syn_tx_time := tb_now s\<rparr>) (s\<lparr>tb_state := SYN_RECEIVED\<rparr>))"

definition do_established :: "tcb \<Rightarrow> tcb" where
  "do_established s = tcb_log Connect_done (update_rto (s_syn_tx_time (tb_snd s)) (s\<lparr>tb_state := ESTABLISHED\<rparr>))"

definition do_reset :: "tcb \<Rightarrow> tcb" where
  "do_reset s =
    (let s1 = tcb_cleanup (s\<lparr>tb_state := CLOSED\<rparr>);
         s2 = (if r_data_promise (tb_rcv s1)
           then tcb_log (Reader_failed Reset_error) (upd_rcv (r_data_promise_update (\<lambda>_. False)) s1) else s1);
         s3 = (if s_all_acked_promise (tb_snd s2)
           then tcb_log (All_acked_failed Reset_error) (upd_snd (s_all_acked_promise_update (\<lambda>_. False)) s2) else s2)
     in if s_available_promise (tb_snd s3)
        then tcb_log (Send_failed Reset_error) (upd_snd (s_available_promise_update (\<lambda>_. False)) s3) else s3)"

definition do_time_wait :: "tcb \<Rightarrow> tcb" where
  "do_time_wait s = tcb_cleanup (s\<lparr>tb_state := TIME_WAIT\<rparr>)"

definition do_closed :: "tcb \<Rightarrow> tcb" where
  "do_closed s = tcb_cleanup (s\<lparr>tb_state := CLOSED\<rparr>)"

definition do_setup_isn :: "tcp_seq \<Rightarrow> tcb \<Rightarrow> tcb" where
  "do_setup_isn isn s = upd_snd (\<lambda>d. d\<lparr>s_initial := isn, s_una := isn, s_next := seq_add isn 1, s_recover := isn\<rparr>) s"

definition do_local_fin_acked :: "tcb \<Rightarrow> tcb" where
  "do_local_fin_acked s = upd_snd (\<lambda>d. d\<lparr>s_una := seq_add (s_una d) 1, s_next := seq_add (s_next d) 1\<rparr>) s"

definition tcb_local_mss :: "hw_features \<Rightarrow> u16" where
  "tcb_local_mss hw = hw_mtu hw - 40"

definition init_from_options :: "hw_features \<Rightarrow> tcp_hdr \<Rightarrow> bytes \<Rightarrow> tcb \<Rightarrow> tcb option" where
  "init_from_options hw th opts s = Option.bind (option_parse opts (tb_option s)) (\<lambda>opt.
    if unat (remote_win_scale opt) \<ge> 32 then None else
    (let mss = remote_mss opt; m = ucast mss :: u32;
         wnd = push_bit (unat (remote_win_scale opt)) (ucast (window th)) :: u32
     in Some (s\<lparr>tb_option := opt\<lparr>local_mss := tcb_local_mss hw\<rparr>,
       tb_snd := (tb_snd s)\<lparr>s_window_scale := remote_win_scale opt, s_mss := mss, s_window := wnd,
         s_wl1 := seq th, s_wl2 := ack th,
         s_cwnd := (if 2190 < mss then 2 * m else if 1095 < mss \<and> mss \<le> 2190 then 3 * m else 4 * m),
         s_ssthresh := wnd\<rparr>,
       tb_rcv := (tb_rcv s)\<lparr>r_window_scale := local_win_scale opt, r_mss := tcb_local_mss hw,
         r_window := push_bit (unat (local_win_scale opt)) 29200\<rparr>\<rparr>)))"

section \<open>Receiving\<close>

definition tcb_segment_acceptable :: "tcp_receive \<Rightarrow> tcp_seq \<Rightarrow> u32 \<Rightarrow> bool" where
  "tcb_segment_acceptable r seg_seq seg_len =
    (if seg_len = 0 \<and> r_window r = 0 then seg_seq = r_next r
     else if seg_len = 0 \<and> r_window r > 0
     then seq_le (r_next r) seg_seq \<and> seq_lt seg_seq (seq_add (r_next r) (r_window r))
     else if seg_len > 0 \<and> r_window r > 0
     then seq_le (r_next r) seg_seq \<and> seq_lt seg_seq (seq_add (r_next r) (r_window r))
       \<or> seq_le (r_next r) (seq_sub (seq_add seg_seq seg_len) 1)
         \<and> seq_lt (seq_sub (seq_add seg_seq seg_len) 1) (seq_add (r_next r) (r_window r))
     else False)"

definition tcb_insert_out_of_order :: "tcp_seq \<Rightarrow> pkt \<Rightarrow> tcb \<Rightarrow> tcb option" where
  "tcb_insert_out_of_order sg p s = map_option (\<lambda>pm. upd_rcv (\<lambda>r. r\<lparr>r_out_of_order := pm\<rparr>) s)
    (merge tcp_offset_ops sg p (r_out_of_order (tb_rcv s)))"

text \<open>The loop is that of the reordering preprocessor, which has the same text.\<close>

definition tcb_merge_out_of_order :: "tcb \<Rightarrow> (bool \<times> tcb) option" where
  "tcb_merge_out_of_order s = (let r = tb_rcv s in
    if pm_map (r_out_of_order r) = [] then Some (False, s) else
    map_option (\<lambda>(next, data, m, merged).
      (merged, s\<lparr>tb_rcv := r\<lparr>r_next := next, r_data := data, r_out_of_order := (r_out_of_order r)\<lparr>pm_map := m\<rparr>\<rparr>\<rparr>))
      (merge_ooo (r_next r) (r_data r) (pm_map (r_out_of_order r)) False))"

definition should_send_ack :: "u16 \<Rightarrow> tcb \<Rightarrow> bool \<times> tcb" where
  "should_send_ack seg_len s =
    (let mss = r_mss (tb_rcv s) in
     if seg_len > mss then (True, clear_delayed_ack (s\<lparr>tb_nr_full_seg := 0\<rparr>))
     else if seg_len = mss \<and> tb_nr_full_seg s \<ge> 1 then (True, clear_delayed_ack (s\<lparr>tb_nr_full_seg := 0\<rparr>))
     else (let s1 = (if seg_len = mss then s\<lparr>tb_nr_full_seg := tb_nr_full_seg s + 1\<rparr> else s) in
       (False, if tb_delayed_ack s1 = None then s1\<lparr>tb_delayed_ack := Some (tb_now s1 + 200)\<rparr> else s1)))"

fun ack_full :: "tcp_seq \<Rightarrow> unacked_segment list \<Rightarrow> u32 \<Rightarrow> tcb \<Rightarrow> (u32 \<times> tcb) option" where
  "ack_full seg_ack [] tot s = Some (tot, s)"
| "ack_full seg_ack (seg # segs) tot s =
    (let acked = of_nat (length (us_p seg)) :: u32 in
     if seq_le (seq_add (s_una (tb_snd s)) acked) seg_ack
     then (let s1 = upd_snd (\<lambda>d. d\<lparr>s_una := seq_add (s_una d) acked\<rparr>) s;
               s2 = (if us_nr_transmits seg = 0 then update_rto (us_tx_time seg) s1 else s1)
           in Option.bind (update_cwnd acked s2) (\<lambda>s3.
              let s4 = signal_send_available (upd_snd (\<lambda>d. d\<lparr>s_queue_space := s_queue_space d - ucast (us_data_len seg)\<rparr>) s3)
              in ack_full seg_ack segs (tot + acked) (upd_snd (\<lambda>d. d\<lparr>s_data := segs\<rparr>) s4)))
     else Some (tot, s))"

definition data_segment_acked :: "tcp_seq \<Rightarrow> tcb \<Rightarrow> (u32 \<times> tcb) option" where
  "data_segment_acked seg_ack s = Option.bind (ack_full seg_ack (s_data (tb_snd s)) 0 s) (\<lambda>(tot, s1).
    if seq_lt (s_una (tb_snd s1)) seg_ack
    then (let acked = seg_ack - s_una (tb_snd s1) in
      Option.bind (case s_data (tb_snd s1) of [] \<Rightarrow> Some s1
        | seg # segs \<Rightarrow> if unat acked \<le> length (us_p seg)
            then Some (upd_snd (\<lambda>d. d\<lparr>s_data := seg\<lparr>us_p := drop (unat acked) (us_p seg)\<rparr> # segs\<rparr>) s1) else None) (\<lambda>s2.
      map_option (\<lambda>s3. (tot + acked, s3)) (update_cwnd acked (upd_snd (\<lambda>d. d\<lparr>s_una := seg_ack\<rparr>) s2))))
    else Some (tot, s1))"

definition fast_retransmit :: "hw_features \<Rightarrow> tcb \<Rightarrow> tcb option" where
  "fast_retransmit hw s = (case s_data (tb_snd s) of [] \<Rightarrow> Some s
    | seg # segs \<Rightarrow> map_option tcb_output (output_one hw True
        (upd_snd (\<lambda>d. d\<lparr>s_data := seg\<lparr>us_nr_transmits := us_nr_transmits seg + 1\<rparr> # segs\<rparr>) s)))"

definition scaled_window :: "tcp_hdr \<Rightarrow> tcb \<Rightarrow> u32" where
  "scaled_window th s = push_bit (unat (s_window_scale (tb_snd s))) (ucast (window th))"

definition update_window :: "tcp_hdr \<Rightarrow> tcp_seq \<Rightarrow> tcb \<Rightarrow> tcb" where
  "update_window th seg_seq s =
    (let s1 = upd_snd (\<lambda>d. d\<lparr>s_window := scaled_window th s, s_wl1 := seg_seq, s_wl2 := ack th, s_probing_out := 0\<rparr>) s in
     if s_window (tb_snd s1) = 0 then start_persist_timer (s1\<lparr>tb_persist_time_out := tb_rto s1\<rparr>) else stop_persist_timer s1)"

definition set_retransmit_timer :: "tcb \<Rightarrow> tcb" where
  "set_retransmit_timer s = (if s_data (tb_snd s) = [] then signal_all_data_acked (stop_retransmit_timer s)
    else start_retransmit_timer s)"

text \<open>The acknowledgment of new data in an established connection.\<close>

definition ack_new_data :: "hw_features \<Rightarrow> tcp_hdr \<Rightarrow> tcp_seq \<Rightarrow> tcb \<Rightarrow> tcb option" where
  "ack_new_data hw th seg_seq s = Option.bind (data_segment_acked (ack th) s) (\<lambda>(acked, s1).
    (let d1 = tb_snd s1;
         s2 = (if seq_lt (s_wl1 d1) seg_seq \<or> s_wl1 d1 = seg_seq \<and> seq_le (s_wl2 d1) (ack th)
           then update_window th seg_seq s1 else s1);
         smss = ucast (s_mss (tb_snd s2)) :: u32
     in if s_dupacks (tb_snd s2) \<ge> 3
        then if seq_gt (ack th) (s_recover (tb_snd s2))
          then Some (set_retransmit_timer (exit_fast_recovery
            (upd_snd (\<lambda>d. d\<lparr>s_cwnd := min (s_ssthresh d) (max (flight_size d) smss + smss)\<rparr>) s2)))
          else map_option (\<lambda>s3.
            (let s4 = upd_snd (\<lambda>d. d\<lparr>s_cwnd := s_cwnd d - acked + (if acked \<ge> smss then smss else 0),
                   s_partial_ack := s_partial_ack d + 1\<rparr>) s3
             in if s_partial_ack (tb_snd s4) = 1 then start_retransmit_timer s4 else s4))
            (fast_retransmit hw s2)
        else Some (set_retransmit_timer (exit_fast_recovery s2))))"

text \<open>A duplicate acknowledgment; the flag says whether data may be sent.\<close>

definition ack_duplicate :: "hw_features \<Rightarrow> tcp_hdr \<Rightarrow> tcb \<Rightarrow> (bool \<times> tcb) option" where
  "ack_duplicate hw th s =
    (let s1 = upd_snd (\<lambda>d. d\<lparr>s_dupacks := s_dupacks d + 1\<rparr>) s; d1 = tb_snd s1; smss = ucast (s_mss d1) :: u32 in
     if s_dupacks d1 = 1 \<or> s_dupacks d1 = 2 then Some (True, s1)
     else if s_dupacks d1 = 3
     then map_option (\<lambda>s2. (False, upd_snd (\<lambda>d. d\<lparr>s_cwnd := s_ssthresh d + 3 * smss\<rparr>) s2))
       (if seq_gt (seq_sub (ack th) 1) (s_recover d1)
        then fast_retransmit hw (upd_snd (\<lambda>d. d\<lparr>s_recover := seq_sub (s_next d) 1,
          s_ssthresh := max ((flight_size d - s_limited_transfer d) div 2) (2 * smss)\<rparr>) s1)
        else Some s1)
     else if s_dupacks d1 > 3 then Some (True, upd_snd (\<lambda>d. d\<lparr>s_cwnd := s_cwnd d + smss\<rparr>) s1)
     else Some (False, s1))"

text \<open>Each part of \<open>input_handle_other_state\<close> either returns or goes on; the flag is \<open>do_output_data\<close>.\<close>

datatype handled = Return tcb | Go_on bool tcb

definition handle_established_ack :: "hw_features \<Rightarrow> tcp_hdr \<Rightarrow> tcp_seq \<Rightarrow> nat \<Rightarrow> tcb \<Rightarrow> handled option" where
  "handle_established_ack hw th seg_seq seg_len s =
    (let d = tb_snd s; packets_out = seq_diff (s_next d) (s_una d) - int (unat (s_probing_out d)) in
     if seq_lt (s_una d) (ack th) \<and> seq_le (ack th) (s_next d)
     then map_option (Go_on True) (ack_new_data hw th seg_seq s)
     else if packets_out > 0 \<and> s_data d \<noteq> [] \<and> seg_len = 0 \<and> \<not> f_fin th \<and> \<not> f_syn th
       \<and> ack th = s_una d \<and> scaled_window th s = s_window d
     then map_option (\<lambda>(b, s'). Go_on b s') (ack_duplicate hw th s)
     else if seq_gt (ack th) (s_next d) then Some (Return (tcb_output s))
     else if s_window d = 0 \<and> window th > 0 then Some (Go_on True (update_window th seg_seq s))
     else Some (Go_on False s))"

definition handle_closing_ack :: "tcp_hdr \<Rightarrow> handled \<Rightarrow> handled" where
  "handle_closing_ack th r = (case r of Return s \<Rightarrow> Return s
    | Go_on data s \<Rightarrow>
      (let fin_acked = (ack th = seq_add (s_next (tb_snd s)) 1) in
       if in_state [FIN_WAIT_1] s
       then Go_on data (if fin_acked then do_local_fin_acked (s\<lparr>tb_state := FIN_WAIT_2\<rparr>) else s)
       else if in_state [CLOSING] s then Return (if fin_acked then do_time_wait (do_local_fin_acked s) else s)
       else if in_state [LAST_ACK] s \<and> fin_acked then Return (do_closed (do_local_fin_acked s))
       else Go_on data s))"

definition handle_ack :: "hw_features \<Rightarrow> tcp_hdr \<Rightarrow> tcp_seq \<Rightarrow> nat \<Rightarrow> tcb \<Rightarrow> handled option" where
  "handle_ack hw th seg_seq seg_len s0 = (if \<not> f_ack th then Some (Return s0) else
    (case (if in_state [SYN_RECEIVED] s0
        then if seq_le (s_una (tb_snd s0)) (ack th) \<and> seq_le (ack th) (s_next (tb_snd s0))
          then Go_on False (tcb_log Accepted (do_established s0))
          else Return (respond_with_reset th s0)
        else Go_on False s0) of
      Return s \<Rightarrow> Some (Return s)
    | Go_on _ s \<Rightarrow>
      Option.bind (if in_state [ESTABLISHED, CLOSE_WAIT] s then handle_established_ack hw th seg_seq seg_len s
        else Some (Go_on False s)) (\<lambda>r. Some (handle_closing_ack th r))))"

text \<open>The text of the segment: the flag returned is \<open>do_output\<close>.\<close>

definition handle_text :: "pkt \<Rightarrow> nat \<Rightarrow> tcb \<Rightarrow> (bool \<times> tcb) option" where
  "handle_text p seg_len s = (if pk_len p = 0 then Some (False, s) else
    map_option (\<lambda>(merged, s1). let s2 = signal_data_received s1 in
        if merged then (True, s2) else should_send_ack (of_nat seg_len) s2)
      (tcb_merge_out_of_order (upd_rcv (\<lambda>r. r\<lparr>r_data := r_data r @ [p], r_next := seq_add (r_next r) (of_nat seg_len)\<rparr>) s)))"

definition output_if_needed :: "bool \<Rightarrow> bool \<Rightarrow> tcb \<Rightarrow> tcb" where
  "output_if_needed do_output do_output_data s = (if do_output then tcb_output (clear_delayed_ack s)
    else if do_output_data then (let (cs, d) = can_send (tb_snd s); s1 = s\<lparr>tb_snd := d\<rparr> in
      if cs \<noteq> 0 then tcb_output (clear_delayed_ack s1) else s1)
    else s)"

definition handle_fin :: "tcp_hdr \<Rightarrow> tcp_seq \<Rightarrow> nat \<Rightarrow> bool \<Rightarrow> bool \<Rightarrow> tcb \<Rightarrow> tcb" where
  "handle_fin th seg_seq seg_len do_output do_output_data s =
    (let fin_seq = seq_add seg_seq (of_nat seg_len) in
     if f_fin th \<and> in_state [CLOSED, LISTEN, SYN_SENT] s then s
     else if f_fin th \<and> fin_seq = r_next (tb_rcv s)
     then (let s1 = tcb_output (clear_delayed_ack (signal_data_received (upd_rcv (\<lambda>r. r\<lparr>r_next := seq_add fin_seq 1\<rparr>) s))) in
       if in_state [SYN_RECEIVED, ESTABLISHED] s1 then output_if_needed False do_output_data (s1\<lparr>tb_state := CLOSE_WAIT\<rparr>)
       else if in_state [FIN_WAIT_1] s1 then output_if_needed False do_output_data (s1\<lparr>tb_state := CLOSING\<rparr>)
       else if in_state [FIN_WAIT_2] s1 then do_time_wait s1
       else output_if_needed False do_output_data s1)
     else output_if_needed do_output do_output_data s)"

text \<open>A segment that starts at the next byte.\<close>

definition after_ack :: "tcp_hdr \<Rightarrow> pkt \<Rightarrow> tcp_seq \<Rightarrow> nat \<Rightarrow> handled \<Rightarrow> tcb option" where
  "after_ack th p seg_seq seg_len r = (case r of Return s \<Rightarrow> Some s
    | Go_on data s \<Rightarrow>
      if in_state [ESTABLISHED, FIN_WAIT_1, FIN_WAIT_2] s
      then map_option (\<lambda>(out, s1). handle_fin th seg_seq seg_len out data s1) (handle_text p seg_len s)
      else if in_state [CLOSE_WAIT, CLOSING, LAST_ACK, TIME_WAIT] s then Some s
      else Some (handle_fin th seg_seq seg_len False data s))"

definition handle_in_order :: "hw_features \<Rightarrow> tcp_hdr \<Rightarrow> pkt \<Rightarrow> tcp_seq \<Rightarrow> nat \<Rightarrow> tcb \<Rightarrow> tcb option" where
  "handle_in_order hw th p seg_seq seg_len s =
    (if f_rst th \<and> in_state [SYN_RECEIVED] s then Some (do_reset (tcb_log (Connect_failed Refused_error) s))
     else if f_rst th \<and> in_state [ESTABLISHED, FIN_WAIT_1, FIN_WAIT_2, CLOSE_WAIT] s then Some (do_reset s)
     else if f_rst th \<and> in_state [CLOSING, LAST_ACK, TIME_WAIT] s then Some (do_closed s)
     else if f_syn th then Some (do_reset (respond_with_reset th s))
     else Option.bind (handle_ack hw th seg_seq seg_len s) (after_ack th p seg_seq seg_len))"

definition input_handle_other_state :: "hw_features \<Rightarrow> tcp_hdr \<Rightarrow> pkt \<Rightarrow> tcb \<Rightarrow> tcb option" where
  "input_handle_other_state hw th p0 s =
    Option.bind (pkt_trim_front (unat (data_offset th) * 4) p0) (\<lambda>p1.
    if \<not> tcb_segment_acceptable (tb_rcv s) (seq th) (of_nat (pk_len p1)) then Some (tcb_output s)
    else
     (let old = seq_lt (seq th) (r_next (tb_rcv s));
          dup = (if old then unat (min (r_next (tb_rcv s) - seq th) (of_nat (pk_len p1))) else 0);
          seg_len = pk_len p1 - dup; seg_seq = seq_add (seq th) (of_nat dup)
      in Option.bind (if old then pkt_trim_front dup p1 else Some p1) (\<lambda>p.
      if seg_seq \<noteq> r_next (tb_rcv s) then map_option tcb_output (tcb_insert_out_of_order seg_seq p s)
      else handle_in_order hw th p seg_seq seg_len s)))"

text \<open>The first segment of a connection, for a listener and for the side that connects.\<close>

definition tcp_options_of :: "tcp_hdr \<Rightarrow> pkt \<Rightarrow> (bytes \<times> pkt) option" where
  "tcp_options_of th p0 = (let n = unat (data_offset th) * 4 in
    case pkt_get_header 0 n p0 of Some (Some hdr, p) \<Rightarrow> map_option (Pair (drop 20 hdr)) (pkt_trim_front n p) | _ \<Rightarrow> None)"

definition input_handle_listen_state :: "hw_features \<Rightarrow> tcp_seq \<Rightarrow> tcp_hdr \<Rightarrow> pkt \<Rightarrow> tcb \<Rightarrow> tcb option" where
  "input_handle_listen_state hw isn th p0 s = Option.bind (tcp_options_of th p0) (\<lambda>(opts, p).
    (let s1 = do_setup_isn isn (upd_rcv (\<lambda>r. r\<lparr>r_next := seq_add (seq th) 1, r_initial := seq th\<rparr>) s);
         s2 = upd_rcv (\<lambda>r. r\<lparr>r_urgent := r_next r\<rparr>) s1
     in map_option do_syn_received (init_from_options hw th opts s2)))"

definition input_handle_syn_sent_state :: "hw_features \<Rightarrow> tcp_hdr \<Rightarrow> pkt \<Rightarrow> tcb \<Rightarrow> tcb option" where
  "input_handle_syn_sent_state hw th p0 s = Option.bind (tcp_options_of th p0) (\<lambda>(opts, p).
    (let d = tb_snd s; acceptable = (f_ack th \<and> seq_le (s_una d) (ack th) \<and> seq_le (ack th) (s_next d)) in
     if f_ack th \<and> (seq_le (ack th) (s_initial d) \<or> seq_gt (ack th) (s_next d)) then Some (respond_with_reset th s)
     else if f_rst th then Some (if acceptable then do_reset s else s)
     else if f_syn th
     then (let s1 = upd_rcv (\<lambda>r. r\<lparr>r_next := seq_add (seq th) 1, r_initial := seq th\<rparr>) s;
               s2 = (if f_ack th then upd_snd (\<lambda>d. d\<lparr>s_una := ack th\<rparr>) s1 else s1)
           in if seq_gt (s_una (tb_snd s2)) (s_initial (tb_snd s2))
              then map_option (\<lambda>s3. tcb_output (do_established s3)) (init_from_options hw th opts s2)
              else Some (do_syn_received s2))
     else Some s))"

definition tcb_input :: "hw_features \<Rightarrow> tcp_hdr \<Rightarrow> pkt \<Rightarrow> tcb \<Rightarrow> tcb option" where
  "tcb_input hw th p s = (if tb_state s = SYN_SENT then input_handle_syn_sent_state hw th p s
    else input_handle_other_state hw th p s)"

section \<open>The user's side\<close>

definition tcb_wait_for_data :: "tcb \<Rightarrow> bool \<times> tcb" where
  "tcb_wait_for_data s = (if r_data (tb_rcv s) \<noteq> [] \<or> foreign_will_not_send s then (True, s)
    else (False, upd_rcv (r_data_promise_update (\<lambda>_. True)) s))"

definition tcb_abort_reader :: "tcb \<Rightarrow> tcb" where
  "tcb_abort_reader s = (if r_data_promise (tb_rcv s)
    then tcb_log (Reader_failed Aborted_error) (upd_rcv (r_data_promise_update (\<lambda>_. False)) s) else s)"

definition tcb_read :: "tcb \<Rightarrow> pkt \<times> tcb" where
  "tcb_read s = (foldl pkt_append pkt_empty (r_data (tb_rcv s)), upd_rcv (\<lambda>r. r\<lparr>r_data := []\<rparr>) s)"

definition wait_for_all_data_acked :: "tcb \<Rightarrow> bool \<times> tcb" where
  "wait_for_all_data_acked s = (if s_data (tb_snd s) = [] \<and> s_unsent_len (tb_snd s) = 0 then (True, s)
    else (False, upd_snd (s_all_acked_promise_update (\<lambda>_. True)) s))"

definition wait_send_available :: "tcb \<Rightarrow> bool \<times> tcb" where
  "wait_send_available s = (if max_queue_space > s_queue_space (tb_snd s) then (True, s)
    else (False, upd_snd (s_available_promise_update (\<lambda>_. True)) s))"

definition tcb_connect :: "hw_features \<Rightarrow> tcp_seq \<Rightarrow> tcb \<Rightarrow> tcb" where
  "tcb_connect hw isn s = do_syn_sent ((do_setup_isn isn s)\<lparr>
    tb_option := (tb_option s)\<lparr>local_win_scale := 7, local_mss := tcb_local_mss hw\<rparr>,
    tb_rcv := (tb_rcv s)\<lparr>r_window_scale := 7, r_mss := tcb_local_mss hw, r_window := push_bit 7 29200\<rparr>\<rparr>)"

definition tcb_send :: "bytes \<Rightarrow> tcb \<Rightarrow> tcp_error + bool \<times> tcb" where
  "tcb_send p s = (if s_closed (tb_snd s) \<or> in_state [CLOSED] s then Inl Reset_error else
    (let s1 = upd_snd (\<lambda>d. d\<lparr>s_queue_space := s_queue_space d + of_nat (length p),
           s_unsent_len := s_unsent_len d + of_nat (length p), s_unsent := s_unsent d @ [p]\<rparr>) s;
         (cs, d) = can_send (tb_snd s1); s2 = s1\<lparr>tb_snd := d\<rparr>
     in Inr (wait_send_available (if cs > 0 then tcb_output s2 else s2))))"

text \<open>\<open>close\<close>: its continuation runs at once if all data is acknowledged, or when it is.\<close>

definition tcb_close_resume :: "hw_features \<Rightarrow> tcb \<Rightarrow> tcb option" where
  "tcb_close_resume hw s =
    (let s1 = upd_snd (s_closed_update (\<lambda>_. True)) s;
         s2 = (if in_state [CLOSE_WAIT] s1 then s1\<lparr>tb_state := LAST_ACK\<rparr>
           else if in_state [ESTABLISHED] s1 then s1\<lparr>tb_state := FIN_WAIT_1\<rparr> else s1)
     in map_option tcb_output (output_one hw False s2))"

definition tcb_close :: "hw_features \<Rightarrow> tcb \<Rightarrow> tcb option" where
  "tcb_close hw s = (if in_state [CLOSED] s \<or> s_closed (tb_snd s) then Some s else
    (case wait_for_all_data_acked s of (ready, s1) \<Rightarrow> if ready then tcb_close_resume hw s1 else Some s1))"

definition shutdown_connect :: "hw_features \<Rightarrow> tcb \<Rightarrow> tcb option" where
  "shutdown_connect hw s = (if syn_needs_on s then Some (tcb_cleanup (tcb_log (Connect_failed Refused_error) s))
    else tcb_close hw (tcb_abort_reader s))"

section \<open>Timers and failures\<close>

definition delayed_ack_fired :: "tcb \<Rightarrow> tcb" where
  "delayed_ack_fired s = tcb_output (s\<lparr>tb_delayed_ack := None, tb_nr_full_seg := 0\<rparr>)"

definition tcb_persist_fired :: "hw_features \<Rightarrow> tcb \<Rightarrow> tcb option" where
  "tcb_persist_fired hw s = map_option (\<lambda>s1.
      (let s2 = tcb_output (upd_snd (s_window_probe_update (\<lambda>_. False)) s1)
       in start_persist_timer (s2\<lparr>tb_persist_time_out := min (tb_persist_time_out s2 * 2) rto_max\<rparr>)))
    (output_one hw False (upd_snd (\<lambda>d. d\<lparr>s_window_probe := True, s_probing_out := s_probing_out d + 1\<rparr>)
      (s\<lparr>tb_persist := None\<rparr>)))"

definition output_update_rto :: "tcb \<Rightarrow> tcb" where
  "output_update_rto s = (let s1 = tcb_output s in start_retransmit_timer (s1\<lparr>tb_rto := min (tb_rto s1 * 2) rto_max\<rparr>))"

definition retransmit_data :: "hw_features \<Rightarrow> tcb \<Rightarrow> tcb option" where
  "retransmit_data hw s = (case s_data (tb_snd s) of [] \<Rightarrow> Some s
    | seg # segs \<Rightarrow>
      (let d = tb_snd s; smss = ucast (s_mss d) :: u32;
           s1 = exit_fast_recovery (upd_snd (\<lambda>d. d\<lparr>
             s_ssthresh := (if us_nr_transmits seg = 0 then max (flight_size d div 2) (2 * smss) else s_ssthresh d),
             s_recover := seq_sub (s_next d) 1, s_cwnd := smss\<rparr>) s)
       in if us_nr_transmits seg < max_nr_retransmit
          then map_option output_update_rto (output_one hw True
            (upd_snd (\<lambda>d. d\<lparr>s_data := seg\<lparr>us_nr_transmits := us_nr_transmits seg + 1\<rparr> # segs\<rparr>) s1))
          else Some (tcb_cleanup s1)))"

definition retransmit_fired :: "hw_features \<Rightarrow> tcb \<Rightarrow> tcb option" where
  "retransmit_fired hw s0 =
    (let s = s0\<lparr>tb_retransmit := None\<rparr> in
     if syn_needs_on s \<and> \<not> s_syn_retransmit (tb_snd s) < max_nr_retransmit
     then Some (tcb_cleanup (tcb_log (Connect_failed Connect_error) (upd_snd (s_syn_retransmit_update Suc) s)))
     else (let s1 = (if syn_needs_on s then output_update_rto (upd_snd (s_syn_retransmit_update Suc) s) else s) in
       if fin_needs_on s1 \<and> \<not> s_fin_retransmit (tb_snd s1) < max_nr_retransmit
       then Some (tcb_cleanup (upd_snd (s_fin_retransmit_update Suc) s1))
       else retransmit_data hw (if fin_needs_on s1 then output_update_rto (upd_snd (s_fin_retransmit_update Suc) s1) else s1)))"

text \<open>The lookup of the link address that \<open>output\<close> waits for fails.\<close>

definition poll_failed :: "arp_result option \<Rightarrow> tcb \<Rightarrow> tcb" where
  "poll_failed r s = (if r = None then start_retransmit_timer (s\<lparr>tb_poll_active := False\<rparr>)
    else if in_state [SYN_SENT] s then tcb_cleanup (tcb_log (Connect_failed Arp_error) s) else s)"

end
