(* ===== verification/Tcp_Sender.thy ===== *)
theory Tcp_Sender
  imports Tcp_Tcb
begin

text \<open>
  The sending half of a TCP connection: what \<open>unacknowledged\<close>, \<open>next\<close> and the two queues of the control
  block hold of the stream the user has sent, that every operation keeps it, and that every segment
  queued carries the bytes of the stream at its sequence number.
\<close>

section \<open>Taking bytes from the queue\<close>

lemma take_packets_spec:
  "take_packets n qs = (p, rest) \<Longrightarrow> concat qs = p @ concat rest \<and> length p \<le> n"
  by (induction n qs arbitrary: p rest rule: take_packets.induct) (auto split: if_splits prod.splits)

lemma can_send_frame: "\<exists>l. snd (can_send d) = d\<lparr>s_limited_transfer := l\<rparr>"
  by (auto simp: can_send_def Let_def intro: exI [of _ "s_limited_transfer d"])

lemma get_transmit_packet_spec:
  assumes "get_transmit_packet hw d = (p, d')"
  shows "\<exists>u l. d' = d\<lparr>s_unsent := u, s_unsent_len := s_unsent_len d - of_nat (length p), s_limited_transfer := l\<rparr>
    \<and> concat (s_unsent d) = p @ concat u \<and> length p \<le> unat (max_payload hw d)"
proof (cases "s_unsent d")
  case Nil
  then show ?thesis
    using assms by (intro exI [of _ "[]"] exI [of _ "s_limited_transfer d"]) (auto simp: get_transmit_packet_def)
next
  case (Cons q qs)
  obtain cs l where c: "can_send d = (cs, d\<lparr>s_limited_transfer := l\<rparr>)"
    using can_send_frame [of d] by (metis prod.collapse)
  let ?n = "unat (min cs (max_payload hw d))"
  have n: "?n \<le> unat (max_payload hw d)"
    by (simp add: unat_mono word_le_nat_alt [symmetric])
  consider "qs = []" "length q \<le> ?n" | "?n < length q" | "length q \<le> ?n" "qs \<noteq> []"
    by linarith
  then show ?thesis
  proof cases
    case 1
    then show ?thesis
      using assms Cons c n by (intro exI [of _ "[]"] exI [of _ l]) (auto simp: get_transmit_packet_def Let_def)
  next
    case 2
    then show ?thesis
      using assms Cons c n
      by (intro exI [of _ "drop ?n q # qs"] exI [of _ l]) (auto simp: get_transmit_packet_def Let_def)
  next
    case 3
    obtain r rest where r: "take_packets (?n - length q) qs = (r, rest)"
      by fastforce
    from take_packets_spec [OF this] show ?thesis
      using assms Cons c n 3 r
      by (intro exI [of _ rest] exI [of _ l]) (auto simp: get_transmit_packet_def Let_def)
  qed
qed

text \<open>Hardware that can carry a segment at all.\<close>

definition hw_ok :: "hw_features \<Rightarrow> bool" where
  "hw_ok hw \<longleftrightarrow> 40 \<le> max_packet_len hw \<and> 40 \<le> hw_mtu hw"

lemma unat_u16_small: "unat (x :: u16) < 2 ^ 16"
  using unsigned_less [where 'a = nat, of x] by simp

lemma unat_ucast_u16 [simp]: "unat (ucast (x :: u16) :: u32) = unat x"
  using unat_u16_small [of x] by (simp add: unsigned_ucast_eq take_bit_nat_eq_self)

lemma max_payload_small:
  assumes "hw_ok hw"
  shows "unat (max_payload hw d) < 2 ^ 16"
proof -
  note u = unat_u16_small
  have "unat (ucast (max_packet_len hw) - 40 :: u32) = unat (max_packet_len hw) - 40"
    using assms u [of "max_packet_len hw"]
    by (subst unat_sub) (simp_all add: hw_ok_def word_le_nat_alt)
  then show ?thesis
    using u [of "max_packet_len hw"] u [of "min (hw_mtu hw - 40) (s_mss d)"]
    by (auto simp: max_payload_def)
qed

section \<open>Segments\<close>

lemma checksum_kept:
  assumes "20 \<le> length b"
  shows "\<exists>ck. tcp_hdr_read (write_nbo_checksum c b) = (tcp_hdr_read b)\<lparr>checksum := ck\<rparr>"
    "length (write_nbo_checksum c b) = length b" "drop 20 (write_nbo_checksum c b) = drop 20 b"
proof -
  have w: "write_nbo_checksum c b = take 16 b @ object_bytes c @ drop 18 b"
    by (simp add: write_nbo_checksum_def write_at_def)
  have t: "take n (write_nbo_checksum c b) = take n b" if "n \<le> 16" for n
    using that assms by (simp add: w)
  have n: "write_nbo_checksum c b ! i = b ! i" if "i < 16" for i
    using that assms by (simp add: w nth_append)
  have d: "drop n (write_nbo_checksum c b) = drop n b" if "18 \<le> n" for n
    using that assms by (simp add: w)
  show "length (write_nbo_checksum c b) = length b" "drop 20 (write_nbo_checksum c b) = drop 20 b"
    using assms d by (simp_all add: w)
  have r2: "(read_be (drop n (write_nbo_checksum c b)) :: u16) = read_be (drop n b)" if "n \<le> 14" for n
    using t [of "2 + n"] that by (simp add: read_be_def take_drop add.commute)
  have r4: "(read_be (drop n (write_nbo_checksum c b)) :: u32) = read_be (drop n b)" if "n \<le> 12" for n
    using t [of "4 + n"] that by (simp add: read_be_def take_drop add.commute)
  have r2': "(read_be (drop 18 (write_nbo_checksum c b)) :: u16) = read_be (drop 18 b)"
    using d by simp
  show "\<exists>ck. tcp_hdr_read (write_nbo_checksum c b) = (tcp_hdr_read b)\<lparr>checksum := ck\<rparr>"
    using n r2 r4 r2' r2 [of 0] by (auto simp: tcp_hdr_read_def intro!: tcp_hdr.equality)
qed

lemma tcp_segment_spec:
  assumes "tcp_segment hw s h p = Some (b, oi)"
    and "data_offset h = ucast ((20 + option_get_size (f_syn h) (f_ack h) (tb_option s)) div 4)"
  shows "\<exists>ck. tcp_hdr_read b = h\<lparr>checksum := ck\<rparr> \<and> 20 \<le> unat (data_offset h) * 4 \<and> unat (data_offset h) * 4 \<le> length b
    \<and> drop (unat (data_offset h) * 4) b = p"
proof -
  let ?o = "option_fill (f_syn h) (f_ack h) (tb_option s)"
  let ?b = "tcp_hdr_write h (replicate 20 0 @ ?o @ p)"
  obtain c where b: "b = write_nbo_checksum c ?b"
    using assms(1) by (auto simp: tcp_segment_def Let_def split: if_splits)
  have l: "length ?b = 20 + length ?o + length p" "drop 20 ?b = ?o @ p"
    using tcp_hdr_write_eq [of "replicate 20 0 @ ?o @ p" h] by simp_all
  obtain m where m: "length ?o = 4 * m" "m \<le> 2"
    using option_fill_size(2,3) [of "f_syn h" "f_ack h" "tb_option s"] by (auto simp: dvd_def)
  have "option_get_size (f_syn h) (f_ack h) (tb_option s) = of_nat (4 * m)"
    using option_fill_size(1) [of "f_syn h" "f_ack h" "tb_option s"] m(1) by simp
  moreover have "m = 0 \<or> m = 1 \<or> m = 2"
    using m(2) by auto
  ultimately have off: "unat (data_offset h) * 4 = 20 + length ?o"
    using assms(2) m(1) by auto
  have h: "tcp_hdr_read ?b = h"
    by (rule tcp_hdr_read_write) simp
  have "20 \<le> length ?b"
    by (simp add: l(1))
  note ck = checksum_kept [OF this, of c]
  have "drop (20 + length ?o) b = drop (length ?o) (drop 20 b)"
    by (simp add: add.commute)
  then have "drop (20 + length ?o) b = p"
    by (simp add: b ck(3) l(2))
  moreover obtain k where "tcp_hdr_read b = h\<lparr>checksum := k\<rparr>"
    using ck(1) h b by auto
  ultimately show ?thesis
    using ck(2) off l(1) by (intro exI [of _ k]) (simp add: b)
qed

text \<open>A segment of the stream \<open>st\<close> of which \<open>L\<close> bytes have been sent; \<open>fin\<close> is whether that was all.\<close>

definition seg_ok :: "(nat \<Rightarrow> byte) \<Rightarrow> tcp_seq \<Rightarrow> nat \<Rightarrow> bool \<Rightarrow> tcp_seq \<Rightarrow> nat \<Rightarrow> bytes \<Rightarrow> bool" where
  "seg_ok st iss L fin piss M b \<longleftrightarrow>
    (let h = tcp_hdr_read b; n = unat (data_offset h) * 4; p = drop n b in
     20 \<le> n \<and> n \<le> length b
     \<and> (f_syn h \<longrightarrow> seq h = iss \<and> p = [] \<and> \<not> f_fin h)
     \<and> (\<not> f_syn h \<longrightarrow> (\<exists>k. seq h = at (iss + 1) k \<and> k + length p \<le> L + 1
          \<and> (p \<noteq> [] \<longrightarrow> k + length p \<le> L \<and> p = piece st k (k + length p))
          \<and> (f_fin h \<longrightarrow> fin \<and> k + length p = L)))
     \<and> (f_ack h \<longrightarrow> (\<exists>j. ack h = at (piss + 1) j \<and> j \<le> M + 1)))"

lemma seg_ok_mono:
  assumes "seg_ok st iss L fin piss M b" "L \<le> L'" "M \<le> M'" "fin \<longrightarrow> fin' \<and> L' = L"
  shows "seg_ok st iss L' fin' piss M' b"
proof -
  have "k \<le> L + 1 \<Longrightarrow> k \<le> L' + 1" "k \<le> L \<Longrightarrow> k \<le> L'" "k \<le> M + 1 \<Longrightarrow> k \<le> M' + 1" for k
    using assms(2,3) by auto
  then show ?thesis
    using assms(1,4) unfolding seg_ok_def Let_def by metis
qed

section \<open>The invariant\<close>

text \<open>
  \<open>U\<close> bytes are acknowledged, \<open>N\<close> have been sent at least once: the queue of unacknowledged segments
  holds the bytes between, the other queue the rest.
\<close>

definition snd_at :: "(nat \<Rightarrow> byte) \<Rightarrow> tcp_seq \<Rightarrow> nat \<Rightarrow> nat \<Rightarrow> nat \<Rightarrow> tcp_send \<Rightarrow> bool" where
  "snd_at st iss U N L d \<longleftrightarrow> U \<le> N \<and> N \<le> L \<and> s_una d = at (iss + 1) U \<and> s_next d = at (iss + 1) N
    \<and> concat (map us_p (s_data d)) = piece st U N \<and> concat (s_unsent d) = piece st N L \<and> s_unsent_len d = of_nat (L - N)"

definition snd_ok :: "(nat \<Rightarrow> byte) \<Rightarrow> tcp_seq \<Rightarrow> nat \<Rightarrow> tcb \<Rightarrow> bool" where
  "snd_ok st iss L s \<longleftrightarrow> (let d = tb_snd s in s_initial d = iss \<and> L + 2 < 2 ^ 31 \<and>
    (if syn_needs_on s then L = 0 \<and> s_una d = iss \<and> s_next d = iss + 1 \<and> s_data d = [] \<and> concat (s_unsent d) = []
        \<and> s_unsent_len d = 0 \<and> \<not> s_closed d
     else if in_state [ESTABLISHED, CLOSE_WAIT] s then \<not> s_closed d \<and> (\<exists>U N. snd_at st iss U N L d)
     else if in_state [FIN_WAIT_1, CLOSING, LAST_ACK] s then s_closed d \<and> s_data d = [] \<and> snd_at st iss L L L d
     else if in_state [FIN_WAIT_2] s then s_closed d \<and> s_data d = [] \<and> concat (s_unsent d) = [] \<and> s_unsent_len d = 0
        \<and> s_una d = at (iss + 1) (L + 1) \<and> s_next d = at (iss + 1) (L + 1)
     else False))"

definition acks_ok :: "tcp_seq \<Rightarrow> nat \<Rightarrow> tcb \<Rightarrow> bool" where
  "acks_ok piss M s \<longleftrightarrow> (ack_needs_on s \<longrightarrow> (\<exists>j \<le> M + 1. r_next (tb_rcv s) = at (piss + 1) j))"

lemma piece_prefix:
  assumes "piece st a b = p @ q" "a \<le> b"
  shows "a + length p \<le> b \<and> p = piece st a (a + length p) \<and> q = piece st (a + length p) b"
proof -
  have l: "length p + length q = b - a"
    using arg_cong [OF assms(1), of length] by simp
  then have "p = take (length p) (piece st a b)" "q = drop (length p) (piece st a b)" "a + length p \<le> b"
    using assms by simp_all
  moreover have "take (length p) (piece st a b) = piece st a (a + length p)"
    using l assms(2) by (simp add: piece_def take_map)
  ultimately show ?thesis
    by (metis drop_piece)
qed

lemma piece_empty [simp]: "piece st a a = []" "piece st a b = [] \<longleftrightarrow> b \<le> a" "[] = piece st a b \<longleftrightarrow> b \<le> a"
  by (auto simp: piece_def)

text \<open>Sending the next bytes.\<close>

lemma snd_at_sent:
  assumes "snd_at st iss U N L d" "concat (s_unsent d) = p @ concat u" "length p < 2 ^ 16"
    and "d' = d\<lparr>s_unsent := u, s_unsent_len := s_unsent_len d - of_nat (length p), s_limited_transfer := l\<rparr>"
    and "us_p seg = p"
  shows "snd_at st iss U (N + length p) L (d'\<lparr>s_next := seq_add (s_next d') (of_nat (length p)), s_data := s_data d' @ [seg]\<rparr>)
    \<and> N + length p \<le> L \<and> p = piece st N (N + length p)"
proof -
  have p: "N + length p \<le> L" "p = piece st N (N + length p)" "concat u = piece st (N + length p) L"
    using piece_prefix [of st N L p "concat u"] assms(1,2) by (auto simp: snd_at_def)
  have "(of_nat (L - N) :: u32) - of_nat (length p) = of_nat (L - (N + length p))"
    using p(1) by (simp add: of_nat_diff)
  moreover have "piece st U N @ p = piece st U (N + length p)"
    using assms(1) p(2) by (metis le_add1 piece_append snd_at_def)
  ultimately show ?thesis
    using assms(1,4,5) p at_seq_add by (auto simp: snd_at_def)
qed

text \<open>The header of a segment is that of the stream at its position.\<close>

lemma segment_ok:
  assumes "tcp_segment hw s (tcp_header s sq fin_on) p = Some (b, oi)" "acks_ok piss M s"
    and "syn_needs_on s \<Longrightarrow> sq = iss \<and> p = [] \<and> \<not> fin_on"
    and "\<not> syn_needs_on s \<Longrightarrow> \<exists>k. sq = at (iss + 1) k \<and> k + length p \<le> L + 1
      \<and> (p \<noteq> [] \<longrightarrow> k + length p \<le> L \<and> p = piece st k (k + length p)) \<and> (fin_on \<longrightarrow> fin \<and> k + length p = L)"
  shows "seg_ok st iss L fin piss M b"
proof -
  let ?h = "tcp_header s sq fin_on"
  define h where "h = tcp_hdr_read b"
  obtain ck where ck: "h = ?h\<lparr>checksum := ck\<rparr>" "20 \<le> unat (data_offset ?h) * 4"
      "unat (data_offset ?h) * 4 \<le> length b" "drop (unat (data_offset ?h) * 4) b = p"
    using tcp_segment_spec [OF assms(1)] by (auto simp: tcp_header_def Let_def h_def)
  have f: "f_rst h = False" "f_syn h = syn_needs_on s" "seq h = sq" "f_fin h = fin_on" "f_ack h = ack_needs_on s"
      "ack h = r_next (tb_rcv s)" "data_offset h = data_offset ?h"
    by (simp_all add: ck(1) tcp_header_def Let_def)
  show ?thesis
    unfolding seg_ok_def Let_def h_def [symmetric] f ck(4)
    using assms(2-) ck(2,3) by (simp add: acks_ok_def) blast
qed

text \<open>Which part of the state an auxiliary operation changes.\<close>

lemma state_frames [simp]:
  "in_state sts (s\<lparr>tb_snd := d\<rparr>) = in_state sts s" "syn_needs_on (s\<lparr>tb_snd := d\<rparr>) = syn_needs_on s"
  "ack_needs_on (s\<lparr>tb_snd := d\<rparr>) = ack_needs_on s"
  "fin_needs_on (s\<lparr>tb_snd := d\<rparr>) = (in_state [FIN_WAIT_1, CLOSING, LAST_ACK] s \<and> s_closed d \<and> s_unsent_len d = 0)"
  "in_state sts (s\<lparr>tb_packetq := q\<rparr>) = in_state sts s" "syn_needs_on (s\<lparr>tb_packetq := q\<rparr>) = syn_needs_on s"
  "ack_needs_on (s\<lparr>tb_packetq := q\<rparr>) = ack_needs_on s"
  "in_state sts (s\<lparr>tb_rcv := r\<rparr>) = in_state sts s" "syn_needs_on (s\<lparr>tb_rcv := r\<rparr>) = syn_needs_on s"
  "ack_needs_on (s\<lparr>tb_rcv := r\<rparr>) = ack_needs_on s"
  "in_state sts (s\<lparr>tb_retransmit := x\<rparr>) = in_state sts s" "syn_needs_on (s\<lparr>tb_retransmit := x\<rparr>) = syn_needs_on s"
  "ack_needs_on (s\<lparr>tb_retransmit := x\<rparr>) = ack_needs_on s"
  "in_state sts (s\<lparr>tb_delayed_ack := x\<rparr>) = in_state sts s" "syn_needs_on (s\<lparr>tb_delayed_ack := x\<rparr>) = syn_needs_on s"
  "ack_needs_on (s\<lparr>tb_delayed_ack := x\<rparr>) = ack_needs_on s"
  by (simp_all add: syn_needs_on_def ack_needs_on_def fin_needs_on_def in_state_def)

lemma state_disjoint:
  "syn_needs_on s \<Longrightarrow> \<not> in_state [ESTABLISHED, CLOSE_WAIT] s" "syn_needs_on s \<Longrightarrow> \<not> in_state [CLOSED] s"
  "in_state [ESTABLISHED, CLOSE_WAIT] s \<Longrightarrow> \<not> syn_needs_on s \<and> \<not> in_state [FIN_WAIT_1, CLOSING, LAST_ACK] s
    \<and> \<not> in_state [FIN_WAIT_2] s \<and> \<not> in_state [CLOSED] s \<and> ack_needs_on s"
  "in_state [FIN_WAIT_1, CLOSING, LAST_ACK] s \<Longrightarrow> \<not> syn_needs_on s \<and> \<not> in_state [ESTABLISHED, CLOSE_WAIT] s
    \<and> \<not> in_state [FIN_WAIT_2] s \<and> \<not> in_state [CLOSED] s \<and> ack_needs_on s"
  "in_state [FIN_WAIT_2] s \<Longrightarrow> \<not> syn_needs_on s \<and> \<not> in_state [ESTABLISHED, CLOSE_WAIT] s
    \<and> \<not> in_state [FIN_WAIT_1, CLOSING, LAST_ACK] s \<and> \<not> in_state [CLOSED] s \<and> ack_needs_on s"
  by (auto simp: syn_needs_on_def ack_needs_on_def in_state_def)

lemma snd_ok_cases [consumes 1, case_names syn opened fin fin2]:
  assumes "snd_ok st iss L s"
  obtains "syn_needs_on s" "L = 0" "s_una (tb_snd s) = iss" "s_next (tb_snd s) = iss + 1" "s_data (tb_snd s) = []"
      "concat (s_unsent (tb_snd s)) = []" "s_unsent_len (tb_snd s) = 0" "\<not> s_closed (tb_snd s)"
    | U N where "in_state [ESTABLISHED, CLOSE_WAIT] s" "\<not> s_closed (tb_snd s)" "snd_at st iss U N L (tb_snd s)"
    | "in_state [FIN_WAIT_1, CLOSING, LAST_ACK] s" "s_closed (tb_snd s)" "s_data (tb_snd s) = []" "snd_at st iss L L L (tb_snd s)"
    | "in_state [FIN_WAIT_2] s" "s_closed (tb_snd s)" "s_data (tb_snd s) = []" "concat (s_unsent (tb_snd s)) = []"
      "s_unsent_len (tb_snd s) = 0" "s_una (tb_snd s) = at (iss + 1) (L + 1)" "s_next (tb_snd s) = at (iss + 1) (L + 1)"
  using assms unfolding snd_ok_def Let_def by (auto split: if_splits)

text \<open>The part of the sending state that the invariant is about.\<close>

definition snd_core where
  "snd_core d = (s_initial d, s_una d, s_next d, map us_p (s_data d), s_unsent d, s_unsent_len d, s_closed d)"

lemma snd_ok_cong:
  assumes "snd_ok st iss L s" "tb_state s' = tb_state s" "snd_core (tb_snd s') = snd_core (tb_snd s)"
  shows "snd_ok st iss L s'"
proof -
  have c: "s_initial (tb_snd s') = s_initial (tb_snd s)" "s_una (tb_snd s') = s_una (tb_snd s)"
      "s_next (tb_snd s') = s_next (tb_snd s)" "map us_p (s_data (tb_snd s')) = map us_p (s_data (tb_snd s))"
      "s_unsent (tb_snd s') = s_unsent (tb_snd s)" "s_unsent_len (tb_snd s') = s_unsent_len (tb_snd s)"
      "s_closed (tb_snd s') = s_closed (tb_snd s)"
    using assms(3) by (simp_all add: snd_core_def)
  have e: "s_data (tb_snd s') = [] \<longleftrightarrow> s_data (tb_snd s) = []"
    using arg_cong [OF c(4), of length] by auto
  have i: "in_state sts s' = in_state sts s" "syn_needs_on s' = syn_needs_on s" for sts
    using assms(2) by (simp_all add: in_state_def syn_needs_on_def)
  show ?thesis
    using assms(1) unfolding snd_ok_def Let_def snd_at_def c i e .
qed

definition same_but_snd :: "tcb \<Rightarrow> tcb \<Rightarrow> bool" where
  "same_but_snd s s' \<longleftrightarrow> tb_state s' = tb_state s \<and> tb_rcv s' = tb_rcv s \<and> tb_registered s' = tb_registered s
    \<and> s_closed (tb_snd s') = s_closed (tb_snd s)"

lemma same_but_snd_refl [simp]: "same_but_snd s s"
  by (simp add: same_but_snd_def)

lemma same_but_snd_trans: "same_but_snd s t \<Longrightarrow> same_but_snd t u \<Longrightarrow> same_but_snd s u"
  by (simp add: same_but_snd_def)

definition queued_ok :: "(nat \<Rightarrow> byte) \<Rightarrow> tcp_seq \<Rightarrow> nat \<Rightarrow> tcp_seq \<Rightarrow> nat \<Rightarrow> tcb \<Rightarrow> bool" where
  "queued_ok st iss L piss M s \<longleftrightarrow> (\<forall>(b, oi)\<in>set (tb_packetq s). seg_ok st iss L (s_closed (tb_snd s)) piss M b)"

lemma output_one_retransmit:
  assumes "snd_ok st iss L s" "acks_ok piss M s" "queued_ok st iss L piss M s" "output_one hw True s = Some s'"
  shows "snd_ok st iss L s' \<and> same_but_snd s s' \<and> queued_ok st iss L piss M s' \<and> tb_snd s' = tb_snd s"
proof -
  let ?d = "tb_snd s" and ?t = "clear_delayed_ack s"
  have nc: "\<not> in_state [CLOSED] s"
    using assms(1) by (cases rule: snd_ok_cases) (auto dest: state_disjoint)
  obtain seg segs where d: "s_data ?d = seg # segs"
    using assms(4) nc by (cases "s_data ?d") (auto simp: output_one_def)
  with assms(1) have est: "in_state [ESTABLISHED, CLOSE_WAIT] s"
    by (cases rule: snd_ok_cases) auto
  note est' = state_disjoint(3) [OF est]
  have "fin_needs_on ?t = False"
    using est' by (simp add: fin_needs_on_def clear_delayed_ack_def)
  then obtain b oi where b: "tcp_segment hw ?t (tcp_header ?t (s_una ?d) False) (us_p seg) = Some (b, oi)"
      "s' = ?t\<lparr>tb_packetq := tb_packetq s @ [(b, oi)]\<rparr>"
    using assms(4) nc d est' by (auto simp: output_one_def Let_def bind_eq_Some_conv clear_delayed_ack_def split: if_splits)
  obtain U N where at: "snd_at st iss U N L ?d"
    using assms(1) est est' by (auto simp: snd_ok_def Let_def)
  then have p: "U + length (us_p seg) \<le> N" "us_p seg = piece st U (U + length (us_p seg))"
    using piece_prefix [of st U N "us_p seg" "concat (map us_p segs)"] d by (auto simp: snd_at_def)
  have "seg_ok st iss L (s_closed ?d) piss M b"
  proof (rule segment_ok [OF b(1)])
    show "acks_ok piss M ?t"
      using assms(2) by (simp add: acks_ok_def ack_needs_on_def in_state_def clear_delayed_ack_def)
    show "\<exists>k. s_una ?d = at (iss + 1) k \<and> k + length (us_p seg) \<le> L + 1
        \<and> (us_p seg \<noteq> [] \<longrightarrow> k + length (us_p seg) \<le> L \<and> us_p seg = piece st k (k + length (us_p seg)))
        \<and> (False \<longrightarrow> s_closed ?d \<and> k + length (us_p seg) = L)"
      using at p by (intro exI [of _ U]) (auto simp: snd_at_def)
  qed (use est' in \<open>simp add: clear_delayed_ack_def\<close>)
  moreover have "snd_ok st iss L s'"
    by (rule snd_ok_cong [OF assms(1)]) (simp_all add: b(2) clear_delayed_ack_def)
  ultimately show ?thesis
    using assms(3) by (auto simp: b(2) clear_delayed_ack_def same_but_snd_def queued_ok_def)
qed

text \<open>A segment with what comes next, in each of the four groups of states.\<close>

definition next_sent :: "tcp_send \<Rightarrow> bytes \<Rightarrow> tcp_send \<Rightarrow> bool" where
  "next_sent d p d' \<longleftrightarrow> s_initial d' = s_initial d \<and> s_una d' = s_una d \<and> s_next d' = seq_add (s_next d) (of_nat (length p))
    \<and> concat (map us_p (s_data d')) = concat (map us_p (s_data d)) @ p \<and> (p = [] \<longrightarrow> s_data d' = s_data d)
    \<and> concat (s_unsent d) = p @ concat (s_unsent d') \<and> s_unsent_len d' = s_unsent_len d - of_nat (length p)
    \<and> s_closed d' = s_closed d"

lemma snd_ok_next_sent:
  assumes "snd_ok st iss L s" "next_sent (tb_snd s) p (tb_snd s')" "tb_state s' = tb_state s"
  shows "snd_ok st iss L s' \<and> (syn_needs_on s \<longrightarrow> p = [])
    \<and> (\<not> syn_needs_on s \<longrightarrow> (\<exists>k. s_next (tb_snd s) = at (iss + 1) k \<and> k + length p \<le> L + 1
      \<and> (p \<noteq> [] \<longrightarrow> k + length p \<le> L \<and> p = piece st k (k + length p))
      \<and> (in_state [FIN_WAIT_1, CLOSING, LAST_ACK] s \<longrightarrow> k + length p = L)))"
proof -
  let ?d = "tb_snd s" and ?d' = "tb_snd s'"
  note n = assms(2) [unfolded next_sent_def]
  have i: "in_state sts s' = in_state sts s" "syn_needs_on s' = syn_needs_on s" for sts
    using assms(3) by (simp_all add: in_state_def syn_needs_on_def)
  have base: "s_initial ?d = iss" "L + 2 < 2 ^ 31"
    using assms(1) by (simp_all add: snd_ok_def Let_def)
  from assms(1) show ?thesis
  proof (cases rule: snd_ok_cases)
    case syn
    then have "p = []"
      using n by auto
    then show ?thesis
      using syn n base by (simp add: snd_ok_def Let_def i seq_add_def)
  next
    case (opened U N)
    then have p: "N + length p \<le> L" "p = piece st N (N + length p)" "concat (s_unsent ?d') = piece st (N + length p) L"
      using piece_prefix [of st N L p "concat (s_unsent ?d')"] n by (auto simp: snd_at_def)
    have "(of_nat (L - N) :: u32) - of_nat (length p) = of_nat (L - (N + length p))"
      using p(1) by (simp add: of_nat_diff)
    moreover have "piece st U N @ p = piece st U (N + length p)"
      using opened(3) p(2) by (metis le_add1 piece_append snd_at_def)
    ultimately have "snd_at st iss U (N + length p) L ?d'"
      using opened(3) n p at_seq_add by (simp add: snd_at_def)
    then have "snd_ok st iss L s'"
      using opened(1,2) n base state_disjoint(3) [OF opened(1)] by (auto simp: snd_ok_def Let_def i)
    moreover have "s_next ?d = at (iss + 1) N"
      using opened(3) by (simp add: snd_at_def)
    moreover have "N + length p \<le> L + 1"
      using p(1) by simp
    ultimately show ?thesis
      using p(1,2) state_disjoint(3) [OF opened(1)] by blast
  next
    case fin
    then have "p = []"
      using n by (auto simp: snd_at_def)
    then show ?thesis
      using fin n base state_disjoint(4) [OF fin(1)]
      by (auto simp: snd_ok_def Let_def i snd_at_def seq_add_def intro!: exI [of _ L])
  next
    case fin2
    then have "p = []"
      using n by auto
    then show ?thesis
      using fin2 n base state_disjoint(5) [OF fin2(1)]
      by (auto simp: snd_ok_def Let_def i seq_add_def intro!: exI [of _ "L + 1"])
  qed
qed

lemma output_one_new:
  assumes "hw_ok hw" "snd_ok st iss L s" "acks_ok piss M s" "queued_ok st iss L piss M s" "output_one hw False s = Some s'"
  shows "snd_ok st iss L s' \<and> same_but_snd s s' \<and> queued_ok st iss L piss M s' \<and> tb_packetq s' \<noteq> []"
proof -
  let ?d = "tb_snd s"
  have nc: "\<not> in_state [CLOSED] s"
    using assms(2) by (cases rule: snd_ok_cases) (auto dest: state_disjoint)
  obtain p d where g: "get_transmit_packet hw ?d = (p, d)"
    by fastforce
  obtain u l where d: "d = ?d\<lparr>s_unsent := u, s_unsent_len := s_unsent_len ?d - of_nat (length p), s_limited_transfer := l\<rparr>"
      "concat (s_unsent ?d) = p @ concat u" "length p < 2 ^ 16"
    using get_transmit_packet_spec [OF g] le_less_trans [OF _ max_payload_small [OF assms(1), of ?d]] by blast
  have len: "(ucast (of_nat (length p) :: u16) :: u32) = of_nat (length p)" "(of_nat (length p) :: u16) = 0 \<longleftrightarrow> p = []"
    using d(3) by (simp_all add: word_unat_eq_iff unat_of_nat)
  let ?s3 = "(if ack_needs_on s then clear_delayed_ack (s\<lparr>tb_snd := d\<rparr>) else s\<lparr>tb_snd := d\<rparr>)
      \<lparr>tb_snd := d\<lparr>s_next := seq_add (s_next d) (of_nat (length p))\<rparr>\<rparr>"
  let ?fin = "fin_needs_on ?s3" and ?sq = "if syn_needs_on s then s_initial d else s_next d"
  obtain b oi where b: "tcp_segment hw ?s3 (tcp_header ?s3 ?sq ?fin) p = Some (b, oi)" "tb_packetq s' = tb_packetq s @ [(b, oi)]"
      "next_sent ?d p (tb_snd s')" "tb_state s' = tb_state s" "tb_rcv s' = tb_rcv s" "tb_registered s' = tb_registered s"
    using assms(5) nc g len d(1,2) unfolding output_one_def
    by (auto simp: Let_def bind_eq_Some_conv clear_delayed_ack_def upd_snd_def start_retransmit_timer_def
        next_sent_def split: if_splits)
  note sent = snd_ok_next_sent [OF assms(2) b(3,4)]
  have e: "syn_needs_on ?s3 = syn_needs_on s" "ack_needs_on ?s3 = ack_needs_on s" "tb_rcv ?s3 = tb_rcv s"
      "?fin \<longleftrightarrow> in_state [FIN_WAIT_1, CLOSING, LAST_ACK] s \<and> s_closed d \<and> s_unsent_len d = 0"
    by (cases "ack_needs_on s"; simp add: clear_delayed_ack_def)+
  have "seg_ok st iss L (s_closed ?d) piss M b"
  proof (rule segment_ok [OF b(1)])
    show "acks_ok piss M ?s3"
      using assms(3) by (simp only: acks_ok_def e)
    show "?sq = iss \<and> p = [] \<and> \<not> ?fin" if "syn_needs_on ?s3"
    proof -
      have syn: "syn_needs_on s"
        using that by (simp only: e)
      then have "\<not> ?fin"
        unfolding e by (auto dest: state_disjoint)
      moreover have "s_initial d = iss"
        using assms(2) d(1) by (simp add: snd_ok_def Let_def)
      ultimately show ?thesis
        using syn sent by simp
    qed
    show "\<exists>k. ?sq = at (iss + 1) k \<and> k + length p \<le> L + 1
        \<and> (p \<noteq> [] \<longrightarrow> k + length p \<le> L \<and> p = piece st k (k + length p))
        \<and> (?fin \<longrightarrow> s_closed ?d \<and> k + length p = L)" if "\<not> syn_needs_on ?s3"
    proof -
      have syn: "\<not> syn_needs_on s"
        using that unfolding e .
      have "?fin \<longrightarrow> in_state [FIN_WAIT_1, CLOSING, LAST_ACK] s \<and> s_closed ?d"
        unfolding e using d(1) by simp
      moreover have "s_next d = s_next ?d"
        using d(1) by simp
      ultimately show ?thesis
        using syn sent by auto
    qed
  qed
  then show ?thesis
    using assms(4) b sent by (auto simp: queued_ok_def same_but_snd_def next_sent_def)
qed

section \<open>Operations that leave the stream alone\<close>

definition out_ok :: "(nat \<Rightarrow> byte) \<Rightarrow> tcp_seq \<Rightarrow> nat \<Rightarrow> tcp_seq \<Rightarrow> nat \<Rightarrow> tcb \<Rightarrow> bool" where
  "out_ok st iss L piss M s \<longleftrightarrow> snd_ok st iss L s \<and> acks_ok piss M s \<and> queued_ok st iss L piss M s"

definition core_same :: "tcb \<Rightarrow> tcb \<Rightarrow> bool" where
  "core_same s s' \<longleftrightarrow> tb_state s' = tb_state s \<and> tb_rcv s' = tb_rcv s \<and> tb_registered s' = tb_registered s
    \<and> tb_packetq s' = tb_packetq s \<and> snd_core (tb_snd s') = snd_core (tb_snd s)"

lemma core_same_refl [simp]: "core_same s s"
  by (simp add: core_same_def)

lemma core_same_trans [trans]: "core_same s t \<Longrightarrow> core_same t u \<Longrightarrow> core_same s u"
  by (simp add: core_same_def)

lemma acks_ok_cong: "tb_state s' = tb_state s \<Longrightarrow> tb_rcv s' = tb_rcv s \<Longrightarrow> acks_ok piss M s' = acks_ok piss M s"
  by (simp add: acks_ok_def ack_needs_on_def in_state_def)

lemma core_same_out_ok:
  assumes "core_same s s'" "out_ok st iss L piss M s"
  shows "out_ok st iss L piss M s' \<and> same_but_snd s s'"
proof -
  have c: "s_closed (tb_snd s') = s_closed (tb_snd s)"
    using assms(1) by (simp add: core_same_def snd_core_def)
  have e: "tb_state s' = tb_state s" "tb_rcv s' = tb_rcv s" "snd_core (tb_snd s') = snd_core (tb_snd s)"
      "tb_packetq s' = tb_packetq s" "tb_registered s' = tb_registered s"
    using assms(1) by (simp_all add: core_same_def)
  have "snd_ok st iss L s'"
    by (rule snd_ok_cong [OF _ e(1,3)]) (use assms(2) in \<open>simp add: out_ok_def\<close>)
  moreover have "acks_ok piss M s'"
    unfolding acks_ok_cong [OF e(1,2)] using assms(2) by (simp add: out_ok_def)
  moreover have "queued_ok st iss L piss M s'"
    using assms(2) by (simp add: out_ok_def queued_ok_def e c)
  ultimately show ?thesis
    by (simp add: out_ok_def same_but_snd_def e c)
qed

lemma output_one_ok:
  assumes "hw_ok hw" "out_ok st iss L piss M s" "output_one hw rx s = Some s'"
  shows "out_ok st iss L piss M s' \<and> same_but_snd s s'"
proof -
  have "snd_ok st iss L s' \<and> same_but_snd s s' \<and> queued_ok st iss L piss M s'"
    using assms output_one_new [of hw st iss L s piss M s'] output_one_retransmit [of st iss L s piss M hw s']
    by (cases rx) (simp_all add: out_ok_def)
  moreover from this have "acks_ok piss M s' = acks_ok piss M s"
    by (intro acks_ok_cong) (simp_all add: same_but_snd_def)
  ultimately show ?thesis
    using assms(2) by (simp add: out_ok_def)
qed

named_theorems core_defs

lemmas [core_defs] = core_same_def snd_core_def upd_snd_def tcb_log_def tcb_output_def start_retransmit_timer_def
  stop_retransmit_timer_def start_persist_timer_def stop_persist_timer_def clear_delayed_ack_def
  signal_all_data_acked_def signal_send_available_def exit_fast_recovery_def Let_def

lemma core_same_timers:
  "core_same s (tcb_output s)" "core_same s (start_retransmit_timer s)" "core_same s (stop_retransmit_timer s)"
  "core_same s (clear_delayed_ack s)" "core_same s (tcb_log e s)" "core_same s (start_persist_timer s)" "core_same s (stop_persist_timer s)"
  by (simp_all add: core_defs)

lemma core_same_upd: "snd_core (f (tb_snd s)) = snd_core (tb_snd s) \<Longrightarrow> core_same s (upd_snd f s)"
  by (simp add: core_same_def upd_snd_def)

lemma core_same_recovery: "core_same s (exit_fast_recovery s)"
  unfolding exit_fast_recovery_def by (rule core_same_upd) (simp add: snd_core_def)

lemma core_same_signals: "core_same s (signal_all_data_acked s)" "core_same s (signal_send_available s)"
  by (simp_all add: core_defs)

lemma core_same_rto: "core_same s (update_rto t s)"
  by (simp add: update_rto_def core_defs)

lemma core_same_output_rto: "core_same s (output_update_rto s)"
  by (simp add: output_update_rto_def core_defs)

lemma core_same_window: "core_same s (update_window th sq s)"
  by (simp add: update_window_def core_defs)

lemma core_same_set_timer: "core_same s (set_retransmit_timer s)"
  using core_same_trans [OF core_same_timers(3) core_same_signals(1), of s] core_same_timers(2) [of s]
  by (simp add: set_retransmit_timer_def)

lemmas core_same_ops = core_same_timers core_same_recovery core_same_signals core_same_rto core_same_output_rto
  core_same_window core_same_set_timer

lemma core_same_cwnd: "update_cwnd n s = Some s' \<Longrightarrow> core_same s s'"
  by (auto simp: update_cwnd_def Let_def core_same_def snd_core_def split: if_splits)

lemma fast_retransmit_ok:
  assumes "hw_ok hw" "out_ok st iss L piss M s" "fast_retransmit hw s = Some s'"
  shows "out_ok st iss L piss M s' \<and> same_but_snd s s'"
proof (cases "s_data (tb_snd s)")
  case (Cons seg segs)
  let ?s = "upd_snd (\<lambda>d. d\<lparr>s_data := seg\<lparr>us_nr_transmits := us_nr_transmits seg + 1\<rparr> # segs\<rparr>) s"
  have c: "core_same s ?s"
    using Cons by (simp add: core_same_upd snd_core_def)
  obtain t where t: "output_one hw True ?s = Some t" "s' = tcb_output t"
    using assms(3) Cons by (auto simp: fast_retransmit_def)
  from output_one_ok [OF assms(1) _ t(1)] core_same_out_ok [OF c assms(2)]
  have "out_ok st iss L piss M t" "same_but_snd s t"
    using same_but_snd_trans by blast+
  with core_same_out_ok [OF core_same_ops(1) [of t]] show ?thesis
    using same_but_snd_trans t(2) by blast
qed (use assms in \<open>simp add: fast_retransmit_def\<close>)

section \<open>Acknowledgments\<close>

text \<open>What an acknowledgment changes besides.\<close>

definition quiet :: "tcb \<Rightarrow> tcb \<Rightarrow> bool" where
  "quiet s s' \<longleftrightarrow> same_but_snd s s' \<and> tb_packetq s' = tb_packetq s \<and> s_initial (tb_snd s') = s_initial (tb_snd s)"

lemma quiet_refl [simp]: "quiet s s"
  by (simp add: quiet_def)

lemma quiet_trans: "quiet s t \<Longrightarrow> quiet t u \<Longrightarrow> quiet s u"
  by (auto simp: quiet_def intro: same_but_snd_trans)

lemma core_same_quiet: "core_same s s' \<Longrightarrow> quiet s s'"
  by (simp add: quiet_def core_same_def same_but_snd_def snd_core_def)

lemma snd_at_core: "snd_core d' = snd_core d \<Longrightarrow> snd_at st iss U N L d' = snd_at st iss U N L d"
  by (simp add: snd_at_def snd_core_def)

lemma core_same_snd_at: "core_same s s' \<Longrightarrow> snd_at st iss U N L (tb_snd s') = snd_at st iss U N L (tb_snd s)"
  by (rule snd_at_core) (simp add: core_same_def)

lemma ack_full_spec:
  assumes "ack_full (at (iss + 1) j) (s_data (tb_snd s)) tot s = Some (tot', s')"
    and "snd_at st iss U N L (tb_snd s)" "U \<le> j" "j \<le> N" "N < 2 ^ 31"
  shows "\<exists>U'. snd_at st iss U' N L (tb_snd s') \<and> U' \<le> j \<and> quiet s s'
    \<and> (\<forall>seg segs. s_data (tb_snd s') = seg # segs \<longrightarrow> j < U' + length (us_p seg))"
  using assms
proof (induction "s_data (tb_snd s)" arbitrary: s tot U)
  case Nil
  then show ?case by auto
next
  case (Cons seg segs)
  let ?n = "length (us_p seg)" and ?d = "tb_snd s"
  note data = Cons.hyps(2) [symmetric]
  have p: "U + ?n \<le> N" "concat (map us_p segs) = piece st (U + ?n) N"
    using piece_prefix [of st U N "us_p seg" "concat (map us_p segs)"] Cons.prems(2) data by (auto simp: snd_at_def)
  have una: "seq_add (s_una ?d) (of_nat ?n) = at (iss + 1) (U + ?n)"
    using Cons.prems(2) at_seq_add by (simp add: snd_at_def)
  have cmp: "seq_le (at (iss + 1) (U + ?n)) (at (iss + 1) j) \<longleftrightarrow> U + ?n \<le> j"
    using seq_cmp_at(2) [OF seq_cmp_window [of "U + ?n" j], of "iss + 1"] p(1) Cons.prems by simp
  show ?case
  proof (cases "U + ?n \<le> j")
    case False
    then have "s' = s"
      using Cons.prems(1) una cmp by (simp add: data Let_def)
    then show ?thesis
      using Cons.prems False by (intro exI [of _ U]) (auto simp: data)
  next
    case True
    let ?s1 = "upd_snd (\<lambda>d. d\<lparr>s_una := seq_add (s_una d) (of_nat ?n)\<rparr>) s"
    let ?s2 = "if us_nr_transmits seg = 0 then update_rto (us_tx_time seg) ?s1 else ?s1"
    obtain s3 where s3: "update_cwnd (of_nat ?n) ?s2 = Some s3"
      using Cons.prems(1) una cmp True by (auto simp: data Let_def bind_eq_Some_conv)
    let ?s4 = "signal_send_available (upd_snd (\<lambda>d. d\<lparr>s_queue_space := s_queue_space d - ucast (us_data_len seg)\<rparr>) s3)"
    let ?s5 = "upd_snd (\<lambda>d. d\<lparr>s_data := segs\<rparr>) ?s4"
    have rec: "ack_full (at (iss + 1) j) segs (tot + of_nat ?n) ?s5 = Some (tot', s')"
      using Cons.prems(1) una cmp True s3 by (simp add: data Let_def)
    have "core_same ?s1 ?s2"
      by (simp add: core_same_ops)
    also have "core_same ?s2 s3"
      by (rule core_same_cwnd [OF s3])
    also have "core_same s3 (upd_snd (\<lambda>d. d\<lparr>s_queue_space := s_queue_space d - ucast (us_data_len seg)\<rparr>) s3)"
      by (simp add: core_same_upd snd_core_def)
    also have "core_same \<dots> ?s4"
      by (rule core_same_ops)
    finally have c: "core_same ?s1 ?s4" .
    then have core: "snd_core (tb_snd ?s4) = snd_core (?d\<lparr>s_una := at (iss + 1) (U + ?n)\<rparr>)"
      using una by (simp add: core_same_def upd_snd_def snd_core_def)
    have at: "snd_at st iss (U + ?n) N L (tb_snd ?s5)"
      using core Cons.prems(2) p by (simp add: snd_at_def snd_core_def upd_snd_def)
    have "quiet s ?s1"
      by (simp add: quiet_def same_but_snd_def upd_snd_def)
    moreover have "quiet ?s4 ?s5"
      by (simp add: quiet_def same_but_snd_def upd_snd_def)
    ultimately have q: "quiet s ?s5"
      using core_same_quiet [OF c] quiet_trans by blast
    have "s_data (tb_snd ?s5) = segs"
      by (simp add: upd_snd_def)
    from Cons.hyps(1) [OF this [symmetric] _ at True Cons.prems(4,5), unfolded this, OF rec]
    obtain U' where "snd_at st iss U' N L (tb_snd s')" "U' \<le> j" "quiet ?s5 s'"
        "\<forall>seg segs. s_data (tb_snd s') = seg # segs \<longrightarrow> j < U' + length (us_p seg)"
      by blast
    then show ?thesis
      using q quiet_trans by blast
  qed
qed

lemma at_diff: "U \<le> j \<Longrightarrow> at base j - at base U = of_nat (j - U)"
  by (simp add: at_def of_nat_diff)

lemma data_segment_acked_spec:
  assumes "data_segment_acked (at (iss + 1) j) s = Some (tot, s')"
    and "snd_at st iss U N L (tb_snd s)" "U \<le> j" "j \<le> N" "N < 2 ^ 31"
  shows "snd_at st iss j N L (tb_snd s') \<and> quiet s s'"
proof -
  obtain tot1 s1 where s1: "ack_full (at (iss + 1) j) (s_data (tb_snd s)) 0 s = Some (tot1, s1)"
    using assms(1) by (auto simp: data_segment_acked_def bind_eq_Some_conv)
  then obtain U' where U': "snd_at st iss U' N L (tb_snd s1)" "U' \<le> j" "quiet s s1"
      "\<forall>seg segs. s_data (tb_snd s1) = seg # segs \<longrightarrow> j < U' + length (us_p seg)"
    using ack_full_spec [OF s1 assms(2-5)] by blast
  have una: "s_una (tb_snd s1) = at (iss + 1) U'"
    using U'(1) by (simp add: snd_at_def)
  have cmp: "seq_lt (at (iss + 1) U') (at (iss + 1) j) \<longleftrightarrow> U' < j"
    using seq_cmp_at(1) [OF seq_cmp_window [of U' j], of "iss + 1"] U'(2) assms(4,5) by simp
  show ?thesis
  proof (cases "U' < j")
    case False
    then show ?thesis
      using assms(1) s1 cmp una U' by (auto simp: data_segment_acked_def)
  next
    case True
    let ?a = "at (iss + 1) j - at (iss + 1) U'"
    have a: "unat ?a = j - U'"
      unfolding at_diff [OF U'(2)] using assms(4,5) by (subst unat_of_nat) simp
    obtain seg segs where d: "s_data (tb_snd s1) = seg # segs"
      using U'(1) True assms(4) by (cases "s_data (tb_snd s1)") (auto simp: snd_at_def)
    let ?s2 = "upd_snd (\<lambda>d. d\<lparr>s_data := seg\<lparr>us_p := drop (j - U') (us_p seg)\<rparr> # segs\<rparr>) s1"
    let ?s3 = "upd_snd (\<lambda>d. d\<lparr>s_una := at (iss + 1) j\<rparr>) ?s2"
    have l: "j - U' \<le> length (us_p seg)"
      using U'(4) d by fastforce
    have c: "update_cwnd ?a ?s3 = Some s'"
      using assms(1) s1 cmp una True d a l by (auto simp: data_segment_acked_def Let_def bind_eq_Some_conv)
    have pp: "piece st U' N = us_p seg @ concat (map us_p segs)"
      using U'(1) d by (simp add: snd_at_def)
    have "drop (j - U') (us_p seg) @ concat (map us_p segs) = drop (j - U') (piece st U' N)"
      unfolding pp using l by simp
    also have "\<dots> = piece st j N"
      using U'(2) by (simp add: drop_piece)
    finally have "snd_at st iss j N L (tb_snd ?s3)"
      using U'(1) assms(4) by (simp add: snd_at_def upd_snd_def)
    then have "snd_at st iss j N L (tb_snd s')"
      using core_same_snd_at [OF core_same_cwnd [OF c]] by simp
    moreover have "quiet s1 ?s3"
      by (simp add: quiet_def same_but_snd_def upd_snd_def)
    ultimately show ?thesis
      using core_same_quiet [OF core_same_cwnd [OF c]] U'(3) quiet_trans by blast
  qed
qed

text \<open>The acknowledgment of the SYN: nothing has been sent, the number after the SYN is acknowledged.\<close>

definition syn_acked :: "tcp_seq \<Rightarrow> tcp_send \<Rightarrow> bool" where
  "syn_acked iss d \<longleftrightarrow> s_una d = iss \<and> s_next d = iss + 1 \<and> s_data d = [] \<and> concat (s_unsent d) = [] \<and> s_unsent_len d = 0"

lemma data_segment_acked_syn:
  assumes "data_segment_acked (iss + 1) s = Some (tot, s')" "syn_acked iss (tb_snd s)"
  shows "snd_at st iss 0 0 0 (tb_snd s') \<and> quiet s s'"
proof -
  have "seq_lt iss (iss + 1)"
    using seq_cmp_at(1) [of 0 1 iss] by (simp add: at_def)
  then have c: "update_cwnd 1 (upd_snd (\<lambda>d. d\<lparr>s_una := iss + 1\<rparr>) s) = Some s'"
    using assms by (auto simp: data_segment_acked_def syn_acked_def Let_def)
  have "snd_at st iss 0 0 0 (tb_snd (upd_snd (\<lambda>d. d\<lparr>s_una := iss + 1\<rparr>) s))"
    using assms(2) by (simp add: snd_at_def syn_acked_def upd_snd_def)
  moreover have "quiet s (upd_snd (\<lambda>d. d\<lparr>s_una := iss + 1\<rparr>) s)"
    by (simp add: quiet_def same_but_snd_def upd_snd_def)
  ultimately show ?thesis
    using core_same_snd_at [OF core_same_cwnd [OF c]] core_same_quiet [OF core_same_cwnd [OF c]] quiet_trans by blast
qed

text \<open>An open connection, or one whose SYN is just being acknowledged.\<close>

definition open_ok :: "(nat \<Rightarrow> byte) \<Rightarrow> tcp_seq \<Rightarrow> nat \<Rightarrow> tcp_seq \<Rightarrow> nat \<Rightarrow> tcb \<Rightarrow> bool" where
  "open_ok st iss L piss M s \<longleftrightarrow> in_state [ESTABLISHED, CLOSE_WAIT] s \<and> s_initial (tb_snd s) = iss \<and> L + 2 < 2 ^ 31
    \<and> \<not> s_closed (tb_snd s) \<and> acks_ok piss M s \<and> queued_ok st iss L piss M s"

lemma open_ok_out:
  assumes "open_ok st iss L piss M s" "snd_at st iss U N L (tb_snd s)"
  shows "out_ok st iss L piss M s"
proof -
  have "in_state [ESTABLISHED, CLOSE_WAIT] s"
    using assms(1) by (simp add: open_ok_def)
  from state_disjoint(3) [OF this] assms show ?thesis
    by (auto simp: open_ok_def out_ok_def snd_ok_def Let_def)
qed

lemma open_ok_quiet:
  assumes "open_ok st iss L piss M s" "quiet s s'"
  shows "open_ok st iss L piss M s'"
proof -
  have e: "tb_state s' = tb_state s" "tb_rcv s' = tb_rcv s" "tb_packetq s' = tb_packetq s"
      "s_closed (tb_snd s') = s_closed (tb_snd s)" "s_initial (tb_snd s') = s_initial (tb_snd s)"
    using assms(2) by (simp_all add: quiet_def same_but_snd_def)
  show ?thesis
    using assms(1) unfolding open_ok_def acks_ok_cong [OF e(1,2)] queued_ok_def e in_state_def .
qed

lemma ack_new_data_ok:
  assumes "hw_ok hw" "ack_new_data hw th sq s = Some s'" "open_ok st iss L piss M s" "ack th = at (iss + 1) j"
    and "snd_at st iss U N L (tb_snd s) \<and> U \<le> j \<and> j \<le> N \<or> syn_acked iss (tb_snd s) \<and> j = 0 \<and> L = 0"
  shows "out_ok st iss L piss M s' \<and> same_but_snd s s'"
proof -
  obtain tot s1 where s1: "data_segment_acked (at (iss + 1) j) s = Some (tot, s1)"
    using assms(2,4) by (auto simp: ack_new_data_def bind_eq_Some_conv)
  have "\<exists>N. snd_at st iss j N L (tb_snd s1) \<and> quiet s s1"
    using assms(5)
  proof
    assume a: "snd_at st iss U N L (tb_snd s) \<and> U \<le> j \<and> j \<le> N"
    then have "N < 2 ^ 31"
      using assms(3) by (auto simp: open_ok_def snd_at_def)
    then show ?thesis
      using data_segment_acked_spec [OF s1, of st U N L] a by auto
  next
    assume a: "syn_acked iss (tb_snd s) \<and> j = 0 \<and> L = 0"
    then show ?thesis
      using data_segment_acked_syn [of iss s tot s1 st] s1 by auto
  qed
  then obtain N' where at: "snd_at st iss j N' L (tb_snd s1)" and q: "quiet s s1"
    by blast
  have o1: "out_ok st iss L piss M s1" "same_but_snd s s1"
    using open_ok_out [OF open_ok_quiet [OF assms(3) q] at] q by (simp_all add: quiet_def)
  define s2 where "s2 = (if seq_lt (s_wl1 (tb_snd s1)) sq \<or> s_wl1 (tb_snd s1) = sq \<and> seq_le (s_wl2 (tb_snd s1)) (ack th)
    then update_window th sq s1 else s1)"
  have "core_same s1 s2"
    by (simp add: s2_def core_same_window)
  from core_same_out_ok [OF this o1(1)] o1(2) have o2: "out_ok st iss L piss M s2" "same_but_snd s s2"
    using same_but_snd_trans by blast+
  have done1: ?thesis if c: "core_same s2 s'"
    using core_same_out_ok [OF c o2(1)] same_but_snd_trans [OF o2(2)] by blast
  let ?m = "ucast (s_mss (tb_snd s2)) :: u32"
  have r: "(if s_dupacks (tb_snd s2) \<ge> 3
        then if seq_gt (ack th) (s_recover (tb_snd s2))
          then Some (set_retransmit_timer (exit_fast_recovery
            (upd_snd (\<lambda>d. d\<lparr>s_cwnd := min (s_ssthresh d) (max (flight_size d) ?m + ?m)\<rparr>) s2)))
          else map_option (\<lambda>s3.
            (let s4 = upd_snd (\<lambda>d. d\<lparr>s_cwnd := s_cwnd d - tot + (if tot \<ge> ?m then ?m else 0),
                   s_partial_ack := s_partial_ack d + 1\<rparr>) s3
             in if s_partial_ack (tb_snd s4) = 1 then start_retransmit_timer s4 else s4))
            (fast_retransmit hw s2)
        else Some (set_retransmit_timer (exit_fast_recovery s2))) = Some s'"
    using assms(2) s1 [folded assms(4)] unfolding ack_new_data_def s2_def Let_def by simp
  have t: "core_same u (set_retransmit_timer (exit_fast_recovery u))" for u
    by (rule core_same_trans [OF core_same_recovery core_same_set_timer])
  show ?thesis
  proof (cases "s_dupacks (tb_snd s2) \<ge> 3")
    case True
    show ?thesis
    proof (cases "seq_gt (ack th) (s_recover (tb_snd s2))")
      case gt: True
      have "core_same s2 s'"
        using r True gt t by (auto intro!: core_same_trans [OF core_same_upd t] simp: snd_core_def)
      then show ?thesis by (rule done1)
    next
      case gt: False
      then obtain s3 where s3: "fast_retransmit hw s2 = Some s3"
        using r True by auto
      note o3 = fast_retransmit_ok [OF assms(1) o2(1) s3]
      have "core_same s3 s'"
        using r True gt s3 by (auto simp: Let_def snd_core_def intro!: core_same_upd core_same_trans [OF core_same_upd core_same_timers(2)]
            split: if_splits)
      from core_same_out_ok [OF this] o3 show ?thesis
        using o2(2) same_but_snd_trans by blast
    qed
  next
    case False
    then show ?thesis
      using r t by (intro done1) auto
  qed
qed

lemma ack_duplicate_ok:
  assumes "hw_ok hw" "ack_duplicate hw th s = Some (b, s')" "out_ok st iss L piss M s"
  shows "out_ok st iss L piss M s' \<and> same_but_snd s s'"
proof -
  let ?s1 = "upd_snd (\<lambda>d. d\<lparr>s_dupacks := s_dupacks d + 1\<rparr>) s"
  let ?d1 = "tb_snd ?s1" and ?m = "ucast (s_mss (tb_snd ?s1)) :: u32"
  have "core_same s ?s1"
    by (rule core_same_upd) (simp add: snd_core_def)
  note o1 = core_same_out_ok [OF this assms(3)]
  have step: ?thesis if c: "core_same u s'" and u: "out_ok st iss L piss M u" "same_but_snd s u" for u
    using core_same_out_ok [OF c u(1)] same_but_snd_trans [OF u(2)] by blast
  consider (few) "s_dupacks ?d1 = 1 \<or> s_dupacks ?d1 = 2" "s' = ?s1"
    | (third) u where "s' = upd_snd (\<lambda>d. d\<lparr>s_cwnd := s_ssthresh d + 3 * ?m\<rparr>) u" "u = ?s1"
    | (fast) u where "s' = upd_snd (\<lambda>d. d\<lparr>s_cwnd := s_ssthresh d + 3 * ?m\<rparr>) u"
        "fast_retransmit hw (upd_snd (\<lambda>d. d\<lparr>s_recover := seq_sub (s_next d) 1,
          s_ssthresh := max ((flight_size d - s_limited_transfer d) div 2) (2 * ?m)\<rparr>) ?s1) = Some u"
    | (more) "s' = upd_snd (\<lambda>d. d\<lparr>s_cwnd := s_cwnd d + ?m\<rparr>) ?s1" | (none) "s' = ?s1"
    using assms(2) unfolding ack_duplicate_def Let_def by (auto split: if_splits)
  then show ?thesis
  proof cases
    case fast
    let ?u = "upd_snd (\<lambda>d. d\<lparr>s_recover := seq_sub (s_next d) 1,
          s_ssthresh := max ((flight_size d - s_limited_transfer d) div 2) (2 * ?m)\<rparr>) ?s1"
    have "core_same ?s1 ?u"
      by (rule core_same_upd) (simp add: snd_core_def)
    from core_same_out_ok [OF this] o1 have "out_ok st iss L piss M ?u" "same_but_snd s ?u"
      using same_but_snd_trans by blast+
    with fast_retransmit_ok [OF assms(1) _ fast(2)] have "out_ok st iss L piss M u" "same_but_snd s u"
      using same_but_snd_trans by blast+
    then show ?thesis
      by (intro step [of u]) (simp_all add: fast(1) core_same_upd snd_core_def)
  next
    case third
    then show ?thesis
      using o1 by (intro step [of ?s1]) (simp_all add: core_same_upd snd_core_def)
  next
    case more
    then show ?thesis
      using o1 by (intro step [of ?s1]) (simp_all add: core_same_upd snd_core_def)
  qed (use o1 in simp_all)
qed

fun handled_state :: "handled \<Rightarrow> tcb" where
  "handled_state (Return s) = s"
| "handled_state (Go_on b s) = s"

lemma cmp_at:
  assumes "a < 2 ^ 31" "b < 2 ^ 31"
  shows "seq_lt (at base a) (at base b) \<longleftrightarrow> a < b" "seq_le (at base a) (at base b) \<longleftrightarrow> a \<le> b"
    "seq_gt (at base a) (at base b) \<longleftrightarrow> b < a" "at base a = at base b \<longleftrightarrow> a = b"
  using seq_cmp_at [OF seq_cmp_window [OF assms], of base] by simp_all

lemma handle_established_ack_ok:
  assumes "hw_ok hw" "handle_established_ack hw th sq len s = Some r" "open_ok st iss L piss M s"
    and "ack th = at (iss + 1) j" "j \<le> L + 1"
    and "(\<exists>U N. snd_at st iss U N L (tb_snd s)) \<or> syn_acked iss (tb_snd s) \<and> j = 0 \<and> L = 0"
  shows "out_ok st iss L piss M (handled_state r) \<and> same_but_snd s (handled_state r)"
proof -
  let ?d = "tb_snd s"
  have L: "L + 2 < 2 ^ 31"
    using assms(3) by (simp add: open_ok_def)
  from assms(6) show ?thesis
  proof
    assume "\<exists>U N. snd_at st iss U N L ?d"
    then obtain U N where at: "snd_at st iss U N L ?d"
      by blast
    note out = open_ok_out [OF assms(3) at]
    have seqs: "s_una ?d = at (iss + 1) U" "s_next ?d = at (iss + 1) N" "U \<le> N" "N \<le> L"
      using at by (simp_all add: snd_at_def)
    have cmp: "seq_lt (s_una ?d) (ack th) \<longleftrightarrow> U < j" "seq_le (ack th) (s_next ?d) \<longleftrightarrow> j \<le> N"
      unfolding seqs assms(4) using cmp_at(1) [of U j] cmp_at(2) [of j N] seqs(3,4) assms(5) L by simp_all
    show ?thesis
    proof (cases "U < j \<and> j \<le> N")
      case True
      then obtain s' where s': "ack_new_data hw th sq s = Some s'" "r = Go_on True s'"
        using assms(2) cmp by (auto simp: handle_established_ack_def Let_def)
      have "out_ok st iss L piss M s' \<and> same_but_snd s s'"
        by (rule ack_new_data_ok [OF assms(1) s'(1) assms(3,4)]) (use at True in auto)
      then show ?thesis
        by (simp add: s'(2))
    next
      case False
      have c: "core_same s (tcb_output s)" "core_same s (update_window th sq s)"
        by (simp_all add: core_same_timers core_same_window)
      consider (dup) b s' where "ack_duplicate hw th s = Some (b, s')" "r = Go_on b s'"
        | "r = Return (tcb_output s)" | "r = Go_on True (update_window th sq s)" | "r = Go_on False s"
        using assms(2) cmp False unfolding handle_established_ack_def Let_def by (auto split: if_splits)
      then show ?thesis
        using ack_duplicate_ok [OF assms(1) _ out] core_same_out_ok [OF c(1) out] core_same_out_ok [OF c(2) out] out
        by cases auto
    qed
  next
    assume a: "syn_acked iss ?d \<and> j = 0 \<and> L = 0"
    have "seq_lt (s_una ?d) (ack th)" "seq_le (ack th) (s_next ?d)"
      using a assms(4) cmp_at(1) [of 0 1 iss] cmp_at(2) [of 0 0 "iss + 1"] by (simp_all add: syn_acked_def at_def)
    then obtain s' where s': "ack_new_data hw th sq s = Some s'" "r = Go_on True s'"
      using assms(2) by (auto simp: handle_established_ack_def Let_def)
    have "out_ok st iss L piss M s' \<and> same_but_snd s s'"
      by (rule ack_new_data_ok [OF assms(1) s'(1) assms(3,4)]) (use a in auto)
    then show ?thesis
      by (simp add: s'(2))
  qed
qed

text \<open>
  The acknowledgment field in any state: it leaves the receiving half alone, and the state changes only
  when the SYN or the FIN is acknowledged.
\<close>

definition ack_moves :: "tcb \<Rightarrow> tcb \<Rightarrow> bool" where
  "ack_moves s s' \<longleftrightarrow> tb_rcv s' = tb_rcv s \<and> tb_registered s' = tb_registered s \<and> s_closed (tb_snd s') = s_closed (tb_snd s)
    \<and> (tb_state s' = tb_state s \<or> tb_state s = SYN_RECEIVED \<and> tb_state s' = ESTABLISHED
       \<or> tb_state s = FIN_WAIT_1 \<and> tb_state s' = FIN_WAIT_2)"

lemma same_ack_moves: "same_but_snd s s' \<Longrightarrow> ack_moves s s'"
  by (simp add: same_but_snd_def ack_moves_def)

lemma cleanup_unregisters [simp]: "tb_registered (tcb_cleanup s) = False" "tb_registered (do_time_wait s) = False"
  "tb_registered (do_closed s) = False"
  by (simp_all add: tcb_cleanup_def do_time_wait_def do_closed_def)

text \<open>The states after the established ones.\<close>

lemma fin_acked_ok:
  assumes "out_ok st iss L piss M s" "in_state [FIN_WAIT_1] s"
  shows "out_ok st iss L piss M (do_local_fin_acked (s\<lparr>tb_state := FIN_WAIT_2\<rparr>)) \<and> ack_moves s (do_local_fin_acked (s\<lparr>tb_state := FIN_WAIT_2\<rparr>))"
proof -
  have st: "tb_state s = FIN_WAIT_1"
    using assms(2) by (simp add: in_state_def)
  have "snd_ok st iss L s"
    using assms(1) by (simp add: out_ok_def)
  then have "s_closed (tb_snd s)" "s_data (tb_snd s) = []" "snd_at st iss L L L (tb_snd s)" "s_initial (tb_snd s) = iss" "L + 2 < 2 ^ 31"
    by (auto simp: snd_ok_def Let_def syn_needs_on_def in_state_def st)
  then have "snd_ok st iss L (do_local_fin_acked (s\<lparr>tb_state := FIN_WAIT_2\<rparr>))"
    by (simp add: snd_ok_def Let_def syn_needs_on_def in_state_def do_local_fin_acked_def upd_snd_def snd_at_def seq_add_def at_def)
  then show ?thesis
    using assms(1) st
    by (simp add: out_ok_def ack_moves_def acks_ok_def ack_needs_on_def in_state_def queued_ok_def do_local_fin_acked_def upd_snd_def)
qed

lemma out_ok_open:
  assumes "out_ok st iss L piss M s" "in_state [ESTABLISHED, CLOSE_WAIT] s"
  shows "open_ok st iss L piss M s \<and> (\<exists>U N. snd_at st iss U N L (tb_snd s))"
  using assms state_disjoint(3) [OF assms(2)] by (auto simp: out_ok_def open_ok_def snd_ok_def Let_def)

text \<open>The third segment of the handshake.\<close>

lemma syn_received_acked:
  assumes "out_ok st iss L piss M s" "tb_state s = SYN_RECEIVED" "ack th = at (iss + 1) j" "j \<le> L + 1"
    and "seq_le (ack th) (s_next (tb_snd s))"
  shows "open_ok st iss L piss M (tcb_log Accepted (do_established s)) \<and> j = 0 \<and> L = 0
    \<and> syn_acked iss (tb_snd (tcb_log Accepted (do_established s))) \<and> tb_state (tcb_log Accepted (do_established s)) = ESTABLISHED
    \<and> ack_moves s (tcb_log Accepted (do_established s))"
proof -
  let ?s = "tcb_log Accepted (do_established s)"
  have snd: "snd_ok st iss L s"
    using assms(1) by (simp add: out_ok_def)
  have syn: "syn_needs_on s"
    by (simp add: syn_needs_on_def in_state_def assms(2))
  from snd syn have f: "L = 0" "s_initial (tb_snd s) = iss" "syn_acked iss (tb_snd s)" "\<not> s_closed (tb_snd s)" "s_next (tb_snd s) = at (iss + 1) 0"
    by (auto simp: snd_ok_def Let_def syn_acked_def)
  have "j < 2 ^ 31"
    using assms(4) f(1) by simp
  then have j: "j = 0"
    using assms(5) cmp_at(2) [of j 0 "iss + 1"] unfolding assms(3) f(5) by simp
  have "core_same (s\<lparr>tb_state := ESTABLISHED\<rparr>) ?s"
    unfolding do_established_def by (meson core_same_rto core_same_timers(5) core_same_trans)
  then have c: "tb_state ?s = ESTABLISHED" "tb_rcv ?s = tb_rcv s" "tb_packetq ?s = tb_packetq s" "tb_registered ?s = tb_registered s"
      "snd_core (tb_snd ?s) = snd_core (tb_snd s)"
    by (simp_all add: core_same_def)
  then have d: "s_closed (tb_snd ?s) = s_closed (tb_snd s)" "s_initial (tb_snd ?s) = s_initial (tb_snd s)" "syn_acked iss (tb_snd ?s)"
    using f(3) by (simp_all add: snd_core_def syn_acked_def)
  have "acks_ok piss M ?s" "queued_ok st iss L piss M ?s"
    using assms(1,2) by (simp_all add: out_ok_def acks_ok_def ack_needs_on_def in_state_def queued_ok_def c d)
  then show ?thesis
    using f j c d assms(2) by (simp add: open_ok_def in_state_def ack_moves_def)
qed

lemma ack_moves_trans: "ack_moves s s1 \<Longrightarrow> same_but_snd s1 s2 \<Longrightarrow> ack_moves s s2"
  by (auto simp: ack_moves_def same_but_snd_def)

end
