(* ===== verification/Tcp_Endpoint.thy ===== *)
theory Tcp_Endpoint
  imports Tcp_Sender
begin

text \<open>
  One end of a TCP connection (class \<open>tcb\<close> of net/tcp.hh) between its user, its timers and the segments of the
  peer: every operation keeps the invariant of the sending half (\<open>Tcp_Sender\<close>) and that of the
  receiving half, or ends the connection.
\<close>

section \<open>Operations of the user\<close>

lemma core_same_can_send: "core_same s (s\<lparr>tb_snd := snd (can_send (tb_snd s))\<rparr>)"
  using can_send_frame [of "tb_snd s"] by (auto simp: core_same_def snd_core_def)

lemma core_same_poll: "core_same s (s\<lparr>tb_poll_active := b\<rparr>)"
  by (simp add: core_same_def)

lemma out_ok_pop:
  assumes "out_ok st iss L piss M s" "tb_packetq s = (b, oi) # q"
  shows "out_ok st iss L piss M (s\<lparr>tb_packetq := q\<rparr>) \<and> same_but_snd s (s\<lparr>tb_packetq := q\<rparr>)
    \<and> seg_ok st iss L (s_closed (tb_snd s)) piss M b"
proof -
  have "snd_ok st iss L (s\<lparr>tb_packetq := q\<rparr>)"
    by (rule snd_ok_cong [of _ _ _ s]) (use assms(1) in \<open>simp_all add: out_ok_def\<close>)
  moreover have "acks_ok piss M (s\<lparr>tb_packetq := q\<rparr>) = acks_ok piss M s"
    by (rule acks_ok_cong) simp_all
  ultimately show ?thesis
    using assms by (simp add: out_ok_def queued_ok_def same_but_snd_def)
qed

lemma tcb_get_packet_ok:
  assumes "hw_ok hw" "out_ok st iss L piss M s" "tcb_get_packet hw s = Some (r, s')"
  shows "out_ok st iss L piss M s' \<and> same_but_snd s s'
    \<and> (\<forall>b oi. r = Some (b, oi) \<longrightarrow> seg_ok st iss L (s_closed (tb_snd s)) piss M b)"
proof -
  let ?s = "s\<lparr>tb_poll_active := False\<rparr>"
  note o = core_same_out_ok [OF core_same_poll [of s False] assms(2)]
  obtain s1 where s1: "(if tb_packetq ?s = [] then output_one hw False ?s else Some ?s) = Some s1"
      "(if in_state [CLOSED] s1 then Some (None, s1)
     else (case tb_packetq s1 of [] \<Rightarrow> None
       | p # q \<Rightarrow>
         (let s2 = s1\<lparr>tb_packetq := q\<rparr> in
          if q \<noteq> [] then Some (Some p, tcb_output s2)
          else if s_dupacks (tb_snd s2) < 3
          then (let (cs, d) = can_send (tb_snd s2); s3 = s2\<lparr>tb_snd := d\<rparr> in
            Some (Some p, if cs > 0 \<and> s_window d > 0 then tcb_output s3 else s3))
          else Some (Some p, s2)))) = Some (r, s')"
    using assms(3) unfolding tcb_get_packet_def Let_def bind_eq_Some_conv by blast
  have o1: "out_ok st iss L piss M s1 \<and> same_but_snd s s1"
    using s1(1) o output_one_ok [OF assms(1), of st iss L piss M ?s False s1] same_but_snd_trans
    by (auto split: if_splits)
  then have nc: "\<not> in_state [CLOSED] s1"
    by (auto simp: out_ok_def elim!: snd_ok_cases dest: state_disjoint)
  obtain b oi q where p: "tb_packetq s1 = (b, oi) # q"
    using s1(2) nc by (cases "tb_packetq s1") auto
  let ?t = "s1\<lparr>tb_packetq := q\<rparr>" and ?u = "s1\<lparr>tb_packetq := q, tb_snd := snd (can_send (tb_snd s1))\<rparr>"
  have "core_same ?t ?u" "core_same ?t (tcb_output ?t)" "core_same ?t (tcb_output ?u)"
    using core_same_can_send [of ?t] core_same_timers(1) [of ?t] core_same_timers(1) [of ?u] core_same_trans by auto
  moreover have "r = Some (b, oi)" "s' = ?t \<or> s' = tcb_output ?t \<or> s' = ?u \<or> s' = tcb_output ?u"
    using s1(2) nc p by (auto simp: Let_def split: if_splits prod.splits)
  ultimately have "r = Some (b, oi)" "core_same ?t s'"
    by auto
  then show ?thesis
    using out_ok_pop [of st iss L piss M s1 b oi q] o1 p core_same_out_ok [of ?t s' st iss L piss M] same_but_snd_trans
    by (auto simp: same_but_snd_def)
qed

lemma snd_at_append:
  assumes "snd_at st iss U N L d" "p = piece st L (L + length p)"
    and "s_una d' = s_una d" "s_next d' = s_next d" "s_data d' = s_data d"
    and "s_unsent d' = s_unsent d @ [p]" "s_unsent_len d' = s_unsent_len d + of_nat (length p)"
  shows "snd_at st iss U N (L + length p) d'"
proof -
  have NL: "N \<le> L" "concat (s_unsent d) = piece st N L" "s_unsent_len d = of_nat (L - N)"
    using assms(1) by (simp_all add: snd_at_def)
  have "piece st N L @ p = piece st N (L + length p)"
    by (subst assms(2)) (rule piece_append [OF NL(1)], simp)
  moreover have "(of_nat (L - N) :: u32) + of_nat (length p) = of_nat (L + length p - N)"
    using NL(1) by (simp flip: of_nat_add)
  ultimately show ?thesis
    using assms NL by (simp add: snd_at_def)
qed

lemma queued_ok_mono:
  assumes "queued_ok st iss L piss M s" "tb_packetq s' = tb_packetq s" "L \<le> L'" "M \<le> M'"
    and "s_closed (tb_snd s) \<longrightarrow> s_closed (tb_snd s') \<and> L' = L"
  shows "queued_ok st iss L' piss M' s'"
  using assms(1,2) seg_ok_mono [OF _ assms(3,4,5)] unfolding queued_ok_def by auto

lemma out_ok_unclosed:
  assumes "out_ok st iss L piss M s" "\<not> s_closed (tb_snd s)" "\<not> syn_needs_on s"
  shows "in_state [ESTABLISHED, CLOSE_WAIT] s"
  using assms by (auto simp: out_ok_def elim!: snd_ok_cases)

lemma tcb_send_ok:
  assumes "out_ok st iss L piss M s" "tcb_send p s = Inr (b, s')" "\<not> syn_needs_on s"
    and "p = piece st L (L + length p)" "L + length p + 2 < 2 ^ 31"
  shows "out_ok st iss (L + length p) piss M s' \<and> same_but_snd s s' \<and> \<not> s_closed (tb_snd s)"
proof -
  let ?f = "\<lambda>d. d\<lparr>s_queue_space := s_queue_space d + of_nat (length p),
    s_unsent_len := s_unsent_len d + of_nat (length p), s_unsent := s_unsent d @ [p]\<rparr>"
  let ?s1 = "upd_snd ?f s"
  have cl: "\<not> s_closed (tb_snd s)"
    using assms(2) by (auto simp: tcb_send_def)
  note st = out_ok_unclosed [OF assms(1) cl assms(3)]
  obtain U N where at: "snd_at st iss U N L (tb_snd s)" and o: "open_ok st iss L piss M s"
    using out_ok_open [OF assms(1) st] by blast
  have at1: "snd_at st iss U N (L + length p) (tb_snd ?s1)"
    by (rule snd_at_append [OF at assms(4)]) (simp_all add: upd_snd_def)
  have "open_ok st iss (L + length p) piss M ?s1"
  proof -
    have "queued_ok st iss (L + length p) piss M ?s1"
      by (rule queued_ok_mono [of _ _ L _ M s]) (use o cl in \<open>simp_all add: open_ok_def upd_snd_def\<close>)
    moreover have "acks_ok piss M ?s1 = acks_ok piss M s"
      by (rule acks_ok_cong) (simp_all add: upd_snd_def)
    ultimately show ?thesis
      using o assms(5) by (simp add: open_ok_def upd_snd_def)
  qed
  note o1 = open_ok_out [OF this at1]
  let ?s2 = "?s1\<lparr>tb_snd := snd (can_send (tb_snd ?s1))\<rparr>"
  have c: "core_same ?s1 ?s2" "core_same ?s2 (tcb_output ?s2)" "core_same u (snd (wait_send_available u))" for u
    by (simp_all add: core_same_can_send core_same_timers core_same_upd wait_send_available_def snd_core_def)
  have "s' = snd (wait_send_available (tcb_output ?s2)) \<or> s' = snd (wait_send_available ?s2)"
    using assms(2) by (auto simp: tcb_send_def Let_def split: if_splits prod.splits)
  then have "core_same ?s1 s'"
    using c core_same_trans by blast
  from core_same_out_ok [OF this o1] show ?thesis
    using cl by (simp add: same_but_snd_def upd_snd_def)
qed

lemma tcb_close_resume_ok:
  assumes "hw_ok hw" "out_ok st iss L piss M s" "in_state [ESTABLISHED, CLOSE_WAIT] s"
    and "s_data (tb_snd s) = []" "s_unsent_len (tb_snd s) = 0" "tcb_close_resume hw s = Some s'"
  shows "out_ok st iss L piss M s' \<and> tb_rcv s' = tb_rcv s \<and> tb_registered s' = tb_registered s \<and> s_closed (tb_snd s')
    \<and> tb_state s' = (if tb_state s = ESTABLISHED then FIN_WAIT_1 else LAST_ACK) \<and> \<not> s_closed (tb_snd s)"
proof -
  let ?s1 = "upd_snd (s_closed_update (\<lambda>_. True)) s"
  let ?s2 = "?s1\<lparr>tb_state := if tb_state s = ESTABLISHED then FIN_WAIT_1 else LAST_ACK\<rparr>"
  have "(if in_state [CLOSE_WAIT] ?s1 then ?s1\<lparr>tb_state := LAST_ACK\<rparr>
           else if in_state [ESTABLISHED] ?s1 then ?s1\<lparr>tb_state := FIN_WAIT_1\<rparr> else ?s1) = ?s2"
    using assms(3) by (auto simp: in_state_def upd_snd_def)
  then obtain t where t: "output_one hw False ?s2 = Some t" "s' = tcb_output t"
    using assms(6) by (auto simp: tcb_close_resume_def)
  obtain U N where at: "snd_at st iss U N L (tb_snd s)" and o: "open_ok st iss L piss M s"
    using out_ok_open [OF assms(2,3)] by blast
  have "U = N"
    using at assms(4) by (simp add: snd_at_def)
  moreover have "N = L"
  proof -
    have "L < 2 ^ 32"
      using o by (simp add: open_ok_def)
    moreover have "(of_nat (L - N) :: u32) = 0"
      using at assms(5) by (simp add: snd_at_def)
    ultimately show ?thesis
      using at by (auto simp: snd_at_def word_unat_eq_iff unat_of_nat)
  qed
  ultimately have at2: "snd_at st iss L L L (tb_snd ?s2)"
    using at by (simp add: snd_at_def upd_snd_def)
  have "snd_ok st iss L ?s2"
    using at2 o assms(4) by (simp add: snd_ok_def Let_def syn_needs_on_def in_state_def open_ok_def upd_snd_def)
  moreover have "acks_ok piss M ?s2"
    using o by (auto simp: open_ok_def acks_ok_def ack_needs_on_def in_state_def upd_snd_def)
  moreover have "queued_ok st iss L piss M ?s2"
    by (rule queued_ok_mono [of _ _ L _ M s]) (use o in \<open>simp_all add: open_ok_def upd_snd_def\<close>)
  ultimately have "out_ok st iss L piss M ?s2"
    by (simp add: out_ok_def)
  from output_one_ok [OF assms(1) this t(1)] core_same_out_ok [OF core_same_timers(1)] show ?thesis
    using o t(2) by (auto simp: same_but_snd_def open_ok_def upd_snd_def)
qed

section \<open>Timers\<close>

text \<open>The connection is given up.\<close>

definition ended :: "tcb \<Rightarrow> tcb \<Rightarrow> bool" where
  "ended s s' \<longleftrightarrow> \<not> tb_registered s' \<and> r_data (tb_rcv s') = [] \<and> s_closed (tb_snd s') = s_closed (tb_snd s)"

lemma cleanup_ends: "s_closed (tb_snd s) = s_closed (tb_snd t) \<Longrightarrow> ended t (tcb_cleanup s)"
  by (simp add: ended_def tcb_cleanup_def clear_delayed_ack_def stop_retransmit_timer_def upd_snd_def upd_rcv_def)

lemma ended_ops: "ended s (do_time_wait s)" "ended s (do_closed s)" "ended s (do_reset s)"
proof -
  show "ended s (do_time_wait s)" "ended s (do_closed s)"
    unfolding do_time_wait_def do_closed_def by (rule cleanup_ends, simp)+
  show "ended s (do_reset s)"
    using cleanup_ends [of "s\<lparr>tb_state := CLOSED\<rparr>" s]
    by (simp add: do_reset_def ended_def Let_def upd_snd_def upd_rcv_def tcb_log_def)
qed

lemma delayed_ack_fired_ok: "core_same s (delayed_ack_fired s)"
  by (simp add: delayed_ack_fired_def tcb_output_def core_same_def)

lemma poll_failed_ok: "core_same s (poll_failed r s) \<or> ended s (poll_failed r s)"
  by (simp add: poll_failed_def core_same_def start_retransmit_timer_def cleanup_ends tcb_log_def)

lemma output_one_between:
  assumes "hw_ok hw" "out_ok st iss L piss M s" "core_same s t" "output_one hw rx t = Some u" "core_same u s'"
  shows "out_ok st iss L piss M s' \<and> same_but_snd s s'"
proof -
  note t = core_same_out_ok [OF assms(3,2)]
  note u = output_one_ok [OF assms(1) conjunct1 [OF t] assms(4)]
  note s' = core_same_out_ok [OF assms(5) conjunct1 [OF u]]
  show ?thesis
    using s' same_but_snd_trans [OF conjunct2 [OF t] same_but_snd_trans [OF conjunct2 [OF u] conjunct2 [OF s']]] by blast
qed

lemma tcb_persist_fired_ok:
  assumes "hw_ok hw" "out_ok st iss L piss M s" "tcb_persist_fired hw s = Some s'"
  shows "out_ok st iss L piss M s' \<and> same_but_snd s s'"
proof -
  let ?t = "upd_snd (\<lambda>d. d\<lparr>s_window_probe := True, s_probing_out := s_probing_out d + 1\<rparr>) (s\<lparr>tb_persist := None\<rparr>)"
  have c: "core_same s ?t"
    by (simp add: core_same_def upd_snd_def snd_core_def)
  obtain u where u: "output_one hw False ?t = Some u"
    using assms(3) by (auto simp: tcb_persist_fired_def)
  have "core_same u s'"
    using assms(3) u by (auto simp: tcb_persist_fired_def Let_def core_same_def snd_core_def upd_snd_def start_persist_timer_def tcb_output_def)
  then show ?thesis
    by (rule output_one_between [OF assms(1,2) c u])
qed

lemma retransmit_data_ok:
  assumes "hw_ok hw" "out_ok st iss L piss M s" "retransmit_data hw s = Some s'"
  shows "out_ok st iss L piss M s' \<and> same_but_snd s s' \<or> ended s s'"
proof (cases "s_data (tb_snd s)")
  case Nil
  then show ?thesis
    using assms(2,3) by (simp add: retransmit_data_def)
next
  case (Cons seg segs)
  let ?f = "\<lambda>d. d\<lparr>s_ssthresh := (if us_nr_transmits seg = 0 then max (flight_size d div 2) (2 * ucast (s_mss d)) else s_ssthresh d),
    s_recover := seq_sub (s_next d) 1, s_cwnd := ucast (s_mss d)\<rparr>"
  let ?s1 = "exit_fast_recovery (upd_snd ?f s)"
  let ?s2 = "upd_snd (\<lambda>d. d\<lparr>s_data := seg\<lparr>us_nr_transmits := us_nr_transmits seg + 1\<rparr> # segs\<rparr>) ?s1"
  have c1: "core_same s ?s1"
    by (rule core_same_trans [OF core_same_upd core_same_recovery]) (simp add: snd_core_def)
  moreover have "s_data (tb_snd ?s1) = seg # segs"
    by (simp add: exit_fast_recovery_def upd_snd_def Cons)
  then have "core_same ?s1 ?s2"
    by (intro core_same_upd) (simp add: snd_core_def)
  ultimately have c2: "core_same s ?s2"
    by (rule core_same_trans)
  have r: "retransmit_data hw s = (if us_nr_transmits seg < max_nr_retransmit
      then map_option output_update_rto (output_one hw True ?s2) else Some (tcb_cleanup ?s1))"
    by (simp add: retransmit_data_def Cons Let_def upd_snd_def)
  show ?thesis
  proof (cases "us_nr_transmits seg < max_nr_retransmit")
    case True
    then obtain t where t: "output_one hw True ?s2 = Some t" "s' = output_update_rto t"
      using assms(3) unfolding r by auto
    show ?thesis
      using output_one_between [OF assms(1,2) c2 t(1) core_same_output_rto] unfolding t(2) by blast
  next
    case False
    then have "s' = tcb_cleanup ?s1"
      using assms(3) unfolding r by simp
    then show ?thesis
      using cleanup_ends [of ?s1 s] c1 by (simp add: core_same_def snd_core_def)
  qed
qed

lemma retransmit_fired_ok:
  assumes "hw_ok hw" "out_ok st iss L piss M s0" "retransmit_fired hw s0 = Some s'"
  shows "out_ok st iss L piss M s' \<and> same_but_snd s0 s' \<or> ended s0 s'"
proof -
  define s where "s = s0\<lparr>tb_retransmit := None\<rparr>"
  define s1 where "s1 = (if syn_needs_on s then output_update_rto (upd_snd (s_syn_retransmit_update Suc) s) else s)"
  define s2 where "s2 = (if fin_needs_on s1 then output_update_rto (upd_snd (s_fin_retransmit_update Suc) s1) else s1)"
  have bump: "core_same t (upd_snd (s_syn_retransmit_update Suc) t)" "core_same t (upd_snd (s_fin_retransmit_update Suc) t)" for t
    by (simp_all add: core_same_upd snd_core_def)
  have c: "core_same s0 s" "core_same s s1" "core_same s1 s2"
  proof -
    show "core_same s0 s"
      by (simp add: s_def core_same_def)
    show "core_same s s1"
      using core_same_trans [OF bump(1) core_same_output_rto, of s] by (simp add: s1_def)
    show "core_same s1 s2"
      using core_same_trans [OF bump(2) core_same_output_rto, of s1] by (simp add: s2_def)
  qed
  have c2: "core_same s0 s2" "core_same s0 s1"
    using c core_same_trans by blast+
  have e: "retransmit_fired hw s0 = (if syn_needs_on s \<and> \<not> s_syn_retransmit (tb_snd s) < max_nr_retransmit
      then Some (tcb_cleanup (tcb_log (Connect_failed Connect_error) (upd_snd (s_syn_retransmit_update Suc) s)))
      else if fin_needs_on s1 \<and> \<not> s_fin_retransmit (tb_snd s1) < max_nr_retransmit
      then Some (tcb_cleanup (upd_snd (s_fin_retransmit_update Suc) s1)) else retransmit_data hw s2)"
    unfolding retransmit_fired_def Let_def s_def [symmetric] s1_def [symmetric] s2_def [symmetric] by (rule refl)
  consider "s' = tcb_cleanup (tcb_log (Connect_failed Connect_error) (upd_snd (s_syn_retransmit_update Suc) s))"
    | "s' = tcb_cleanup (upd_snd (s_fin_retransmit_update Suc) s1)" | "retransmit_data hw s2 = Some s'"
    using assms(3) unfolding e by (metis option.inject)
  then show ?thesis
  proof cases
    case 1
    have "ended s0 s'"
      unfolding 1 by (rule cleanup_ends) (simp add: s_def upd_snd_def tcb_log_def)
    then show ?thesis ..
  next
    case 2
    have "ended s0 s'"
      unfolding 2 by (rule cleanup_ends) (use c2(2) in \<open>simp add: upd_snd_def core_same_def snd_core_def\<close>)
    then show ?thesis ..
  next
    case 3
    note o2 = core_same_out_ok [OF c2(1) assms(2)]
    from retransmit_data_ok [OF assms(1) conjunct1 [OF o2] 3] o2 show ?thesis
      by (auto simp: ended_def same_but_snd_def)
  qed
qed

section \<open>The acknowledgment field\<close>

definition ack_result :: "(tcb \<Rightarrow> bool) \<Rightarrow> tcb \<Rightarrow> handled \<Rightarrow> bool" where
  "ack_result ok s r \<longleftrightarrow> (case r of Return t \<Rightarrow> ok t \<and> ack_moves s t \<or> ended s t
    | Go_on _ t \<Rightarrow> ok t \<and> ack_moves s t \<and> tb_state t \<noteq> SYN_RECEIVED)"

text \<open>The states after the established ones.\<close>

lemma handle_closing_ack_ok:
  assumes "out_ok st iss L piss M (handled_state r1)" "ack_moves s (handled_state r1)" "tb_state (handled_state r1) \<noteq> SYN_RECEIVED"
  shows "ack_result (out_ok st iss L piss M) s (handle_closing_ack th r1)"
proof (cases r1)
  case (Return t)
  then show ?thesis
    using assms by (simp add: handle_closing_ack_def ack_result_def)
next
  case (Go_on data s1)
  let ?f = "do_local_fin_acked s1" and ?f2 = "do_local_fin_acked (s1\<lparr>tb_state := FIN_WAIT_2\<rparr>)"
  have s1: "out_ok st iss L piss M s1" "ack_moves s s1" "tb_state s1 \<noteq> SYN_RECEIVED"
    using assms Go_on by simp_all
  have f: "s_closed (tb_snd ?f) = s_closed (tb_snd s)"
    using s1(2) by (simp add: ack_moves_def do_local_fin_acked_def upd_snd_def)
  have "ended s (do_time_wait ?f)" "ended s (do_closed ?f)"
    using ended_ops [of ?f] f by (simp_all add: ended_def)
  moreover have "out_ok st iss L piss M ?f2 \<and> ack_moves s ?f2 \<and> tb_state ?f2 \<noteq> SYN_RECEIVED" if "in_state [FIN_WAIT_1] s1"
  proof -
    have "tb_state s1 = FIN_WAIT_1"
      using that by (simp add: in_state_def)
    moreover from this have "tb_state s = FIN_WAIT_1"
      using s1(2) by (auto simp: ack_moves_def)
    moreover have "tb_state ?f2 = FIN_WAIT_2"
      by (simp add: do_local_fin_acked_def upd_snd_def)
    ultimately show ?thesis
      using fin_acked_ok [OF s1(1) that] s1(2) by (simp add: ack_moves_def)
  qed
  ultimately show ?thesis
    using s1 by (simp add: handle_closing_ack_def ack_result_def Go_on Let_def)
qed

lemma handle_ack_open:
  assumes "hw_ok hw" "handle_established_ack hw th sq len s1 = Some r1" "open_ok st iss L piss M s1" "ack_moves s s1"
    and "ack th = at (iss + 1) j" "j \<le> L + 1"
    and "(\<exists>U N. snd_at st iss U N L (tb_snd s1)) \<or> syn_acked iss (tb_snd s1) \<and> j = 0 \<and> L = 0"
  shows "ack_result (out_ok st iss L piss M) s (handle_closing_ack th r1)"
proof (rule handle_closing_ack_ok)
  note r = handle_established_ack_ok [OF assms(1-3,5-7)]
  then show "out_ok st iss L piss M (handled_state r1)" "ack_moves s (handled_state r1)"
    using ack_moves_trans [OF assms(4)] by blast+
  show "tb_state (handled_state r1) \<noteq> SYN_RECEIVED"
    using r assms(3) by (auto simp: same_but_snd_def open_ok_def in_state_def)
qed

lemma handle_ack_ok:
  assumes "hw_ok hw" "handle_ack hw th sq len s = Some r" "out_ok st iss L piss M s"
    and "f_ack th \<longrightarrow> (\<exists>j. ack th = at (iss + 1) j \<and> j \<le> L + 1)"
  shows "ack_result (out_ok st iss L piss M) s r"
proof (cases "f_ack th")
  case False
  then show ?thesis
    using assms(2,3) by (auto simp: handle_ack_def ack_moves_def ack_result_def)
next
  case True
  then obtain j where j: "ack th = at (iss + 1) j" "j \<le> L + 1"
    using assms(4) by blast
  show ?thesis
  proof (cases "tb_state s = SYN_RECEIVED")
    case syn: True
    let ?s1 = "tcb_log Accepted (do_established s)"
    show ?thesis
    proof (cases "seq_le (s_una (tb_snd s)) (ack th) \<and> seq_le (ack th) (s_next (tb_snd s))")
      case ok: True
      note s1 = syn_received_acked [OF assms(3) syn j]
      have e: "in_state [ESTABLISHED, CLOSE_WAIT] ?s1"
        using s1 ok by (simp add: in_state_def)
      obtain r1 where r1: "handle_established_ack hw th sq len ?s1 = Some r1" "r = handle_closing_ack th r1"
        using assms(2) True syn ok e by (auto simp: handle_ack_def in_state_def bind_eq_Some_conv)
      show ?thesis
        unfolding r1(2) by (rule handle_ack_open [OF assms(1) r1(1) _ _ j]) (use s1 ok in blast)+
    next
      case False
      then have "r = Return (respond_with_reset th s)"
        using assms(2) True syn by (auto simp: handle_ack_def in_state_def)
      moreover have "core_same s (respond_with_reset th s)"
        by (simp add: respond_with_reset_def core_same_timers)
      ultimately show ?thesis
        using core_same_out_ok [OF _ assms(3)] same_ack_moves by (auto simp: ack_result_def)
    qed
  next
    case syn: False
    have refl: "ack_moves s s"
      by (simp add: ack_moves_def)
    show ?thesis
    proof (cases "in_state [ESTABLISHED, CLOSE_WAIT] s")
      case e: True
      obtain r1 where r1: "handle_established_ack hw th sq len s = Some r1" "r = handle_closing_ack th r1"
        using assms(2) True syn e by (auto simp: handle_ack_def in_state_def bind_eq_Some_conv)
      show ?thesis
        unfolding r1(2) by (rule handle_ack_open [OF assms(1) r1(1) _ _ j]) (use out_ok_open [OF assms(3) e] refl in blast)+
    next
      case e: False
      have "r = handle_closing_ack th (Go_on False s)"
        using assms(2) True syn e by (auto simp: handle_ack_def in_state_def)
      then show ?thesis
        using handle_closing_ack_ok [of st iss L piss M "Go_on False s" s th] assms(3) refl syn by simp
    qed
  qed
qed

end
