(* ===== verification/Tcp_Receiver.thy ===== *)
theory Tcp_Receiver
  imports Tcp_Endpoint
begin

text \<open>
  The receiving half of class \<open>tcb\<close> (net/tcp.hh): the bytes handed to the user are those of the peer's stream, in
  order and each once, whatever segments of the stream arrive; the end of the stream is
  reported only after its last byte.
\<close>

section \<open>The invariant\<close>

text \<open>
  \<open>M\<close> bytes of the peer's stream have been sent, \<open>n\<close> are received in order, \<open>R\<close> of these have been read; out-of-order
  segments are pieces of the stream.
\<close>

definition rcv_at :: "(nat \<Rightarrow> byte) \<Rightarrow> tcp_seq \<Rightarrow> nat \<Rightarrow> nat \<Rightarrow> nat \<Rightarrow> tcp_receive \<Rightarrow> bool" where
  "rcv_at pst piss M R n r \<longleftrightarrow> R \<le> n \<and> n \<le> M \<and> list_all pkt_wf (r_data r) \<and> concat (map pkt_bytes (r_data r)) = piece pst R n
    \<and> list_all (stream_seg (seq_pos (piss + 1)) seq_window pst) (pm_map (r_out_of_order r))
    \<and> separated_by (seq_pos (piss + 1)) (pm_map (r_out_of_order r)) \<and> cover_of (seq_pos (piss + 1)) (pm_map (r_out_of_order r)) \<subseteq> {..<M}"

definition fin_seen :: "tcb \<Rightarrow> bool" where
  "fin_seen s \<longleftrightarrow> in_state [CLOSE_WAIT, CLOSING, LAST_ACK] s"

definition rcv_ok :: "(nat \<Rightarrow> byte) \<Rightarrow> tcp_seq \<Rightarrow> nat \<Rightarrow> bool \<Rightarrow> nat \<Rightarrow> tcb \<Rightarrow> bool" where
  "rcv_ok pst piss M pfin R s \<longleftrightarrow> M + 2 < 2 ^ 31 \<and>
    (if tb_state s = SYN_SENT then R = 0 \<and> r_data (tb_rcv s) = [] \<and> pm_map (r_out_of_order (tb_rcv s)) = []
     else (\<exists>n. r_next (tb_rcv s) = at (piss + 1) (if fin_seen s then n + 1 else n) \<and> (fin_seen s \<longrightarrow> n = M \<and> pfin)
       \<and> rcv_at pst piss M R n (tb_rcv s)))"

text \<open>What a segment of the peer says about the connection, and how it is received.\<close>

lemma at_next: "at (piss + 1) n = at piss (n + 1)"
  by (simp add: at_def)

lemma acceptable_new:
  assumes "tcb_segment_acceptable r (at base k) (of_nat len)" "r_next r = at base n" "n < 2 ^ 31" "k + len < 2 ^ 31"
  shows "n \<le> k \<or> n < k + len"
proof -
  have l: "(of_nat len :: u32) = 0 \<longleftrightarrow> len = 0"
    using assms(4) by (auto simp: word_unat_eq_iff unat_of_nat)
  have k: "k < 2 ^ 31" "k + len - 1 < 2 ^ 31"
    using assms(4) by simp_all
  note c = cmp_at [OF assms(3) k(1), of base] cmp_at [OF k(1) assms(3), of base]
  show ?thesis
  proof (cases "len = 0")
    case True
    then have "at base k = at base n \<or> seq_le (at base n) (at base k)"
      using assms(1,2) by (auto simp: tcb_segment_acceptable_def split: if_splits)
    then show ?thesis
      using c by auto
  next
    case False
    have "seq_sub (seq_add (at base k) (of_nat len)) 1 = at base (k + len - 1)"
      using False by (simp add: seq_sub_def seq_add_def at_def of_nat_diff)
    then have "seq_le (at base n) (at base k) \<or> seq_le (at base n) (at base (k + len - 1))"
      using assms(1,2) l False by (auto simp: tcb_segment_acceptable_def split: if_splits)
    then show ?thesis
      using c cmp_at(2) [OF assms(3) k(2), of base] False by auto
  qed
qed

lemma syn_not_acceptable:
  assumes "r_next r = at (piss + 1) n" "n + 1 < 2 ^ 31"
  shows "\<not> tcb_segment_acceptable r piss 0"
proof -
  have "\<not> seq_le (at piss (n + 1)) (at piss 0)" "at piss 0 \<noteq> at piss (n + 1)"
    using cmp_at [of "n + 1" 0 piss] cmp_at [of 0 "n + 1" piss] assms(2) by simp_all
  then show ?thesis
    using assms(1) by (auto simp: tcb_segment_acceptable_def at_def add.assoc)
qed

text \<open>The part of a segment that is new.\<close>

lemma trim_old:
  assumes "pkt_wf p1" "pkt_bytes p1 = piece pst k (k + len)" "pk_len p1 = len" "n < 2 ^ 31" "k + len < 2 ^ 31"
    and "n \<le> k \<or> n < k + len"
    and "old = seq_lt (at base k) (at base n)"
    and "dup = (if old then unat (min (at base n - at base k) (of_nat (pk_len p1))) else 0)"
    and "(if old then pkt_trim_front dup p1 else Some p1) = Some p"
  shows "pkt_wf p \<and> pkt_bytes p = piece pst (max k n) (k + len) \<and> pk_len p1 - dup = k + len - max k n
    \<and> seq_add (at base k) (of_nat dup) = at base (max k n) \<and> pk_len p = k + len - max k n \<and> (n < k \<longrightarrow> p = p1)"
proof -
  have old: "old \<longleftrightarrow> k < n"
    using assms(4,5,7) cmp_at(1) [of k n base] by simp
  show ?thesis
  proof (cases "k < n")
    case False
    then show ?thesis
      using assms old by (simp add: seq_add_def max_def)
  next
    case True
    then have e: "n < k + len"
      using assms(6) by simp
    have "at base n - at base k = (of_nat (n - k) :: u32)"
      using True by (simp add: at_def of_nat_diff)
    moreover have "(of_nat (n - k) :: u32) \<le> of_nat len"
      unfolding word_le_nat_alt using e True assms(4,5) by (subst (1 2) unat_of_nat) simp
    then have "min (of_nat (n - k)) (of_nat len :: u32) = of_nat (n - k)"
      by (rule min_absorb1)
    moreover have "unat (of_nat (n - k) :: u32) = n - k"
      using assms(4) by (subst unat_of_nat) simp
    ultimately have dup: "dup = n - k"
      using assms(3,8) True old by (simp del: of_nat_diff)
    have "n - k \<le> length (pkt_bytes p1)"
      using e assms(2) by simp
    from pkt_trim_front_spec [OF assms(1) this] have q: "pkt_wf p" "pkt_bytes p = drop (n - k) (pkt_bytes p1)"
      using assms(9) old True dup by auto
    then have "pkt_bytes p = piece pst n (k + len)"
      using assms(2) True by (simp add: drop_piece)
    then show ?thesis
      using q(1) dup True e assms(3) at_seq_add [of base k "n - k"] by (simp add: max_def pkt_wf_def)
  qed
qed

section \<open>Receiving\<close>

lemma rcv_insert:
  assumes "rcv_at pst piss M R n (tb_rcv s)" "M + 2 < 2 ^ 31" "pkt_wf p" "pkt_bytes p = piece pst k (k + pk_len p)" "spare_slot p"
    and "k + pk_len p \<le> M + 1" "pk_len p \<noteq> 0 \<longrightarrow> k + pk_len p \<le> M"
    and "tcb_insert_out_of_order (at (piss + 1) k) p s = Some s'"
  shows "\<exists>pm. s' = upd_rcv (\<lambda>r. r\<lparr>r_out_of_order := pm\<rparr>) s \<and> rcv_at pst piss M R n (tb_rcv s')"
proof -
  let ?P = "seq_pos (piss + 1)" and ?k = "at (piss + 1) k"
  have pos: "?P ?k = k"
    using assms(2,6) by (intro seq_pos_at) simp
  have seg: "stream_seg ?P seq_window pst (?k, p)"
    using assms(2-4,6) by (simp add: stream_seg_def stop_of_def holds_def pos seq_window_def)
  from tcp_off.merge_spec [OF seg _ _ assms(5), of "r_out_of_order (tb_rcv s)"] assms(1)
  obtain pm where pm: "merge tcp_offset_ops ?k p (r_out_of_order (tb_rcv s)) = Some pm"
      "list_all (stream_seg ?P seq_window pst) (pm_map pm)" "separated_by ?P (pm_map pm)"
      "cover_of ?P (pm_map pm) = {k..<k + pk_len p} \<union> cover_of ?P (pm_map (r_out_of_order (tb_rcv s)))"
    by (auto simp: rcv_at_def stop_of_def pos)
  have s': "s' = upd_rcv (\<lambda>r. r\<lparr>r_out_of_order := pm\<rparr>) s"
    using assms(8) pm(1) by (simp add: tcb_insert_out_of_order_def)
  have "{k..<k + pk_len p} \<subseteq> {..<M}"
    using assms(7) by auto
  then have "rcv_at pst piss M R n (tb_rcv s')"
    using assms(1) pm(2-4) by (simp add: s' rcv_at_def upd_rcv_def)
  with s' show ?thesis
    by blast
qed

lemma rcv_merge:
  assumes "tcb_merge_out_of_order s = Some (mg, s')" "rcv_at pst piss M R n (tb_rcv s)" "r_next (tb_rcv s) = at (piss + 1) n" "M + 2 < 2 ^ 31"
  shows "\<exists>n' data m. n \<le> n' \<and> s' = s\<lparr>tb_rcv := (tb_rcv s)\<lparr>r_next := at (piss + 1) n', r_data := data,
      r_out_of_order := (r_out_of_order (tb_rcv s))\<lparr>pm_map := m\<rparr>\<rparr>\<rparr> \<and> rcv_at pst piss M R n' (tb_rcv s')"
proof (cases "pm_map (r_out_of_order (tb_rcv s)) = []")
  case True
  then have s': "s' = s"
    using assms(1) by (simp add: tcb_merge_out_of_order_def)
  show ?thesis
    by (intro exI [of _ n] exI [of _ "r_data (tb_rcv s)"] exI [of _ "[]"]) (use assms(2,3) True in \<open>simp add: s'\<close>)
next
  case False
  let ?P = "seq_pos (piss + 1)" and ?r = "tb_rcv s"
  have n: "n < seq_window" "n \<le> M"
    using assms(2,4) by (simp_all add: rcv_at_def seq_window_def)
  have m0: "list_all (stream_seg ?P seq_window pst) (pm_map (r_out_of_order ?r))" "separated_by ?P (pm_map (r_out_of_order ?r))"
    using assms(2) by (simp_all add: rcv_at_def)
  obtain n' ds m mg' where o: "merge_ooo (at (piss + 1) n) (r_data ?r) (pm_map (r_out_of_order ?r)) False
        = Some (at (piss + 1) n', r_data ?r @ ds, m, mg')" "n \<le> n'" "concat (map pkt_bytes ds) = piece pst n n'" "list_all pkt_wf ds"
      "list_all (stream_seg ?P seq_window pst) m" "separated_by ?P m"
      "{0..<n} \<union> cover_of ?P (pm_map (r_out_of_order ?r)) = {0..<n'} \<union> cover_of ?P m"
    using merge_ooo_spec [OF m0 n(1), of "r_data ?r" False] by blast
  have "{0..<n'} \<union> cover_of ?P m \<subseteq> {..<M}"
    unfolding o(7) [symmetric] using assms(2) by (auto simp: rcv_at_def)
  then have "n' \<le> M" "cover_of ?P m \<subseteq> {..<M}"
    by (auto simp: subset_iff) (metis le_less_linear less_irrefl)
  moreover have "piece pst R n @ piece pst n n' = piece pst R n'"
    using assms(2) o(2) by (intro piece_append) (simp_all add: rcv_at_def)
  moreover have s': "s' = s\<lparr>tb_rcv := ?r\<lparr>r_next := at (piss + 1) n', r_data := r_data ?r @ ds,
      r_out_of_order := (r_out_of_order ?r)\<lparr>pm_map := m\<rparr>\<rparr>\<rparr>"
    using assms(1,3) False o(1) by (auto simp: tcb_merge_out_of_order_def Let_def)
  ultimately have "rcv_at pst piss M R n' (tb_rcv s')"
    using assms(2) o(2-6) by (simp add: rcv_at_def)
  with o(2) s' show ?thesis
    by blast
qed

section \<open>Both halves\<close>

definition conn_ok :: "(nat \<Rightarrow> byte) \<Rightarrow> tcp_seq \<Rightarrow> nat \<Rightarrow> (nat \<Rightarrow> byte) \<Rightarrow> tcp_seq \<Rightarrow> nat \<Rightarrow> bool \<Rightarrow> nat \<Rightarrow> tcb \<Rightarrow> bool" where
  "conn_ok st iss L pst piss M pfin R s \<longleftrightarrow> out_ok st iss L piss M s \<and> rcv_ok pst piss M pfin R s"

lemma conn_okI:
  assumes "snd_ok st iss L s" "queued_ok st iss L piss M s" "rcv_ok pst piss M pfin R s"
  shows "conn_ok st iss L pst piss M pfin R s"
proof -
  have "acks_ok piss M s"
    unfolding acks_ok_def
  proof
    assume "ack_needs_on s"
    then have "tb_state s \<noteq> SYN_SENT"
      by (auto simp: ack_needs_on_def in_state_def)
    then obtain n where "r_next (tb_rcv s) = at (piss + 1) (if fin_seen s then n + 1 else n)" "n \<le> M"
      using assms(3) by (auto simp: rcv_ok_def rcv_at_def)
    then show "\<exists>j\<le>M + 1. r_next (tb_rcv s) = at (piss + 1) j"
      by (intro exI [of _ "if fin_seen s then n + 1 else n"]) simp
  qed
  then show ?thesis
    using assms by (simp add: conn_ok_def out_ok_def)
qed

lemma rcv_ok_cong:
  assumes "rcv_ok pst piss M pfin R s" "tb_state s' = tb_state s" "r_next (tb_rcv s') = r_next (tb_rcv s)"
    and "r_data (tb_rcv s') = r_data (tb_rcv s)" "r_out_of_order (tb_rcv s') = r_out_of_order (tb_rcv s)"
  shows "rcv_ok pst piss M pfin R s'"
proof -
  have "fin_seen s' = fin_seen s"
    using assms(2) by (simp add: fin_seen_def in_state_def)
  then show ?thesis
    using assms(1) unfolding rcv_ok_def rcv_at_def assms(2-5) by simp
qed

text \<open>The sending half and the queue of segments do not change.\<close>

definition same_out :: "tcb \<Rightarrow> tcb \<Rightarrow> bool" where
  "same_out s s' \<longleftrightarrow> tb_state s' = tb_state s \<and> tb_registered s' = tb_registered s \<and> tb_packetq s' = tb_packetq s
    \<and> snd_core (tb_snd s') = snd_core (tb_snd s)"

lemma same_out_refl [simp]: "same_out s s"
  by (simp add: same_out_def)

lemma same_out_trans: "same_out s t \<Longrightarrow> same_out t u \<Longrightarrow> same_out s u"
  by (simp add: same_out_def)

lemma same_out_closed: "same_out s s' \<Longrightarrow> s_closed (tb_snd s') = s_closed (tb_snd s)"
  by (simp add: same_out_def snd_core_def)

lemma core_same_same_out: "core_same s s' \<Longrightarrow> same_out s s'"
  by (simp add: same_out_def core_same_def)

lemma same_out_conn_ok:
  assumes "same_out s s'" "conn_ok st iss L pst piss M pfin R s" "rcv_ok pst piss M pfin R' s'"
  shows "conn_ok st iss L pst piss M pfin R' s'"
proof (rule conn_okI)
  show "snd_ok st iss L s'"
    by (rule snd_ok_cong [of _ _ _ s]) (use assms in \<open>simp_all add: same_out_def conn_ok_def out_ok_def\<close>)
  show "queued_ok st iss L piss M s'"
    using assms(1,2) same_out_closed [OF assms(1)] by (simp add: same_out_def conn_ok_def out_ok_def queued_ok_def)
qed (rule assms(3))

lemma core_same_conn_ok:
  assumes "core_same s s'" "conn_ok st iss L pst piss M pfin R s"
  shows "conn_ok st iss L pst piss M pfin R s'"
proof (rule same_out_conn_ok [OF core_same_same_out [OF assms(1)] assms(2)])
  show "rcv_ok pst piss M pfin R s'"
    by (rule rcv_ok_cong [of _ _ _ _ _ s]) (use assms in \<open>simp_all add: conn_ok_def core_same_def\<close>)
qed

lemma same_but_snd_conn_ok:
  assumes "out_ok st iss L piss M s'" "same_but_snd s s'" "rcv_ok pst piss M pfin R s"
  shows "conn_ok st iss L pst piss M pfin R s'"
proof -
  have "rcv_ok pst piss M pfin R s'"
    by (rule rcv_ok_cong [OF assms(3)]) (use assms(2) in \<open>simp_all add: same_but_snd_def\<close>)
  with assms(1) show ?thesis
    by (simp add: conn_ok_def)
qed

text \<open>Notifications of the reader and delayed acknowledgments.\<close>

definition notified :: "tcb \<Rightarrow> tcb \<Rightarrow> bool" where
  "notified s s' \<longleftrightarrow> same_out s s' \<and> r_next (tb_rcv s') = r_next (tb_rcv s) \<and> r_data (tb_rcv s') = r_data (tb_rcv s)
    \<and> r_out_of_order (tb_rcv s') = r_out_of_order (tb_rcv s)"

lemma notified_trans: "notified s t \<Longrightarrow> notified t u \<Longrightarrow> notified s u"
  by (auto simp: notified_def intro: same_out_trans)

lemma notified_ops: "notified s (signal_data_received s)" "notified s (snd (should_send_ack l s))" "notified s (tcb_output s)"
  "notified s (clear_delayed_ack s)" "notified s (snd (tcb_wait_for_data s))" "notified s (tcb_abort_reader s)"
  by (simp_all add: notified_def same_out_def signal_data_received_def should_send_ack_def tcb_log_def upd_rcv_def
      clear_delayed_ack_def tcb_output_def Let_def tcb_wait_for_data_def tcb_abort_reader_def)

lemma notified_conn_ok:
  assumes "notified s s'" "conn_ok st iss L pst piss M pfin R s"
  shows "conn_ok st iss L pst piss M pfin R s'"
proof (rule same_out_conn_ok [OF _ assms(2)])
  show "rcv_ok pst piss M pfin R s'"
    by (rule rcv_ok_cong [of _ _ _ _ _ s]) (use assms in \<open>simp_all add: conn_ok_def notified_def same_out_def\<close>)
qed (use assms(1) in \<open>simp add: notified_def\<close>)

section \<open>The text and the end of the stream\<close>

lemma rcv_ok_open:
  assumes "rcv_ok pst piss M pfin R s" "in_state [ESTABLISHED, FIN_WAIT_1, FIN_WAIT_2] s"
  shows "\<exists>n. r_next (tb_rcv s) = at (piss + 1) n \<and> rcv_at pst piss M R n (tb_rcv s) \<and> \<not> fin_seen s"
  using assms by (auto simp: rcv_ok_def fin_seen_def in_state_def)

lemma handle_text_ok:
  assumes "conn_ok st iss L pst piss M pfin R s" "in_state [ESTABLISHED, FIN_WAIT_1, FIN_WAIT_2] s"
    and "r_next (tb_rcv s) = at (piss + 1) n" "n < 2 ^ 31" "pkt_wf p" "pkt_bytes p = piece pst n (n + pk_len p)"
    and "pk_len p \<noteq> 0 \<longrightarrow> n + pk_len p \<le> M" "handle_text p (pk_len p) s = Some (out, s')"
  shows "conn_ok st iss L pst piss M pfin R s' \<and> same_out s s'"
proof (cases "pk_len p = 0")
  case True
  then show ?thesis
    using assms(1,8) by (simp add: handle_text_def)
next
  case False
  let ?s = "upd_rcv (\<lambda>r. r\<lparr>r_data := r_data r @ [p], r_next := seq_add (r_next r) (of_nat (pk_len p))\<rparr>) s"
  let ?n = "n + pk_len p"
  have M: "M + 2 < 2 ^ 31" and r: "rcv_ok pst piss M pfin R s"
    using assms(1) by (simp_all add: conn_ok_def rcv_ok_def)
  obtain n0 where n0: "r_next (tb_rcv s) = at (piss + 1) n0" "rcv_at pst piss M R n0 (tb_rcv s)"
    using rcv_ok_open [OF r assms(2)] by blast
  have "n0 < 2 ^ 31"
    using n0(2) M by (simp add: rcv_at_def)
  then have "n0 = n"
    using n0(1) assms(3) cmp_at(4) [OF _ assms(4), of n0 "piss + 1"] by simp
  with n0 have at: "rcv_at pst piss M R n (tb_rcv s)"
    by simp
  have "R \<le> n"
    using at by (simp add: rcv_at_def)
  have "piece pst R n @ piece pst n ?n = piece pst R ?n"
    by (rule piece_append) (use \<open>R \<le> n\<close> in simp_all)
  then have at1: "rcv_at pst piss M R ?n (tb_rcv ?s)" and nx: "r_next (tb_rcv ?s) = at (piss + 1) ?n"
    using at assms(3,5-7) False at_seq_add [of "piss + 1" n "pk_len p"] by (simp_all add: rcv_at_def upd_rcv_def)
  obtain mg s1 where s1: "tcb_merge_out_of_order ?s = Some (mg, s1)"
      "(out, s') = (let s2 = signal_data_received s1 in if mg then (True, s2) else should_send_ack (of_nat (pk_len p)) s2)"
    using assms(8) False by (auto simp: handle_text_def)
  from rcv_merge [OF s1(1) at1 nx M] obtain n' data m where
      n': "s1 = ?s\<lparr>tb_rcv := (tb_rcv ?s)\<lparr>r_next := at (piss + 1) n', r_data := data,
        r_out_of_order := (r_out_of_order (tb_rcv ?s))\<lparr>pm_map := m\<rparr>\<rparr>\<rparr>" "rcv_at pst piss M R n' (tb_rcv s1)"
    by blast
  have so: "same_out s s1"
    by (simp add: n'(1) same_out_def upd_rcv_def)
  have "tb_state s1 \<noteq> SYN_SENT" "\<not> fin_seen s1" "r_next (tb_rcv s1) = at (piss + 1) n'"
    using assms(2) so by (auto simp: n'(1) in_state_def fin_seen_def same_out_def)
  then have "rcv_ok pst piss M pfin R s1"
    using n'(2) M by (auto simp: rcv_ok_def)
  then have ok1: "conn_ok st iss L pst piss M pfin R s1"
    by (rule same_out_conn_ok [OF so assms(1)])
  have "s' = signal_data_received s1 \<or> s' = snd (should_send_ack (of_nat (pk_len p)) (signal_data_received s1))"
    using s1(2) by (simp add: Let_def split: if_splits) (metis snd_conv)
  then have "notified s1 s'"
    using notified_ops(1,2) notified_trans by blast
  then show ?thesis
    using notified_conn_ok [OF _ ok1] same_out_trans [OF so] by (simp add: notified_def)
qed

lemma core_same_output_if: "core_same s (output_if_needed a b s)"
proof -
  let ?s = "s\<lparr>tb_snd := snd (can_send (tb_snd s))\<rparr>"
  have o: "core_same t (tcb_output (clear_delayed_ack t))" for t
    using core_same_timers core_same_trans by blast
  have "output_if_needed a b s = tcb_output (clear_delayed_ack s) \<or> output_if_needed a b s = s
    \<or> output_if_needed a b s = ?s \<or> output_if_needed a b s = tcb_output (clear_delayed_ack ?s)"
    by (auto simp: output_if_needed_def Let_def split: prod.splits)
  then show ?thesis
    using o core_same_trans [OF core_same_can_send o] core_same_can_send by auto
qed

lemma snd_ok_fin:
  assumes "snd_ok st iss L s" "snd_core (tb_snd s') = snd_core (tb_snd s)"
    and "tb_state s = ESTABLISHED \<and> tb_state s' = CLOSE_WAIT \<or> tb_state s = FIN_WAIT_1 \<and> tb_state s' = CLOSING"
  shows "snd_ok st iss L s'"
proof -
  have "snd_ok st iss L (s\<lparr>tb_state := tb_state s'\<rparr>)"
    using assms(1,3) by (auto simp: snd_ok_def Let_def in_state_def syn_needs_on_def)
  then show ?thesis
    by (rule snd_ok_cong) (use assms(2) in simp_all)
qed

lemma handle_fin_ok:
  assumes "conn_ok st iss L pst piss M pfin R s" "in_state [ESTABLISHED, FIN_WAIT_1, FIN_WAIT_2] s" "tb_registered s"
    and "f_fin th \<longrightarrow> pfin \<and> seq_add sq (of_nat len) = at (piss + 1) M"
  shows "conn_ok st iss L pst piss M pfin R (handle_fin th sq len out data s) \<and> tb_registered (handle_fin th sq len out data s)
      \<and> s_closed (tb_snd (handle_fin th sq len out data s)) = s_closed (tb_snd s)
    \<or> ended s (handle_fin th sq len out data s)"
proof (cases "f_fin th \<and> seq_add sq (of_nat len) = r_next (tb_rcv s)")
  case False
  have "\<not> (f_fin th \<and> in_state [CLOSED, LISTEN, SYN_SENT] s)"
    using assms(2) by (auto simp: in_state_def)
  then have e: "handle_fin th sq len out data s = output_if_needed out data s"
    using False by (auto simp: handle_fin_def Let_def)
  from core_same_conn_ok [OF core_same_output_if assms(1)] core_same_output_if [of s out data] show ?thesis
    unfolding e using assms(3) by (simp add: core_same_def snd_core_def)
next
  case True
  let ?s1 = "tcb_output (clear_delayed_ack (signal_data_received (upd_rcv (\<lambda>r. r\<lparr>r_next := seq_add (seq_add sq (of_nat len)) 1\<rparr>) s)))"
  have fin: "pfin" "seq_add sq (of_nat len) = at (piss + 1) M" "r_next (tb_rcv s) = at (piss + 1) M"
    using True assms(4) by auto
  have M: "M + 2 < 2 ^ 31" and r: "rcv_ok pst piss M pfin R s"
    using assms(1) by (simp_all add: conn_ok_def rcv_ok_def)
  obtain n where n: "r_next (tb_rcv s) = at (piss + 1) n" "rcv_at pst piss M R n (tb_rcv s)"
    using rcv_ok_open [OF r assms(2)] by blast
  have "n < 2 ^ 31" "M < 2 ^ 31"
    using n(2) M by (simp_all add: rcv_at_def)
  then have "n = M"
    using n(1) fin(3) cmp_at(4) [of n M "piss + 1"] by simp
  with n have at: "rcv_at pst piss M R M (tb_rcv s)"
    by simp
  have nt: "notified (upd_rcv (\<lambda>r. r\<lparr>r_next := seq_add (seq_add sq (of_nat len)) 1\<rparr>) s) ?s1"
    by (rule notified_trans [OF notified_trans [OF notified_ops(1) notified_ops(4)] notified_ops(3)])
  have so: "same_out s ?s1"
    using nt by (simp add: notified_def same_out_def upd_rcv_def)
  have r1: "r_next (tb_rcv ?s1) = at (piss + 1) (M + 1)" "rcv_at pst piss M R M (tb_rcv ?s1)"
    using nt at at_seq_add [of "piss + 1" M 1] by (simp_all add: notified_def upd_rcv_def rcv_at_def fin(2))
  have "\<not> (f_fin th \<and> in_state [CLOSED, LISTEN, SYN_SENT] s)"
    using assms(2) by (auto simp: in_state_def)
  then have e: "handle_fin th sq len out data s = (if in_state [SYN_RECEIVED, ESTABLISHED] ?s1
      then output_if_needed False data (?s1\<lparr>tb_state := CLOSE_WAIT\<rparr>)
      else if in_state [FIN_WAIT_1] ?s1 then output_if_needed False data (?s1\<lparr>tb_state := CLOSING\<rparr>)
      else if in_state [FIN_WAIT_2] ?s1 then do_time_wait ?s1 else output_if_needed False data ?s1)"
    using True unfolding handle_fin_def Let_def by simp
  have moved: "conn_ok st iss L pst piss M pfin R t \<and> tb_registered t \<and> s_closed (tb_snd t) = s_closed (tb_snd s)"
    if "t = output_if_needed False data (?s1\<lparr>tb_state := x\<rparr>)"
      and x: "tb_state s = ESTABLISHED \<and> x = CLOSE_WAIT \<or> tb_state s = FIN_WAIT_1 \<and> x = CLOSING" for t x
  proof -
    let ?t = "?s1\<lparr>tb_state := x\<rparr>"
    have "conn_ok st iss L pst piss M pfin R ?t"
    proof (rule conn_okI)
      show "snd_ok st iss L ?t"
        by (rule snd_ok_fin [of _ _ _ s]) (use assms(1) so x in \<open>simp_all add: conn_ok_def out_ok_def same_out_def\<close>)
      show "queued_ok st iss L piss M ?t"
        using assms(1) so same_out_closed [OF so] by (simp add: conn_ok_def out_ok_def queued_ok_def same_out_def)
      show "rcv_ok pst piss M pfin R ?t"
        using M r1 fin(1) x by (auto simp: rcv_ok_def fin_seen_def in_state_def)
    qed
    note c = core_same_conn_ok [OF core_same_output_if this, of False data]
    show ?thesis
      using c core_same_output_if [of ?t False data] so same_out_closed [OF so] assms(3)
      unfolding that(1) by (simp add: core_same_def snd_core_def same_out_def)
  qed
  consider "tb_state s = ESTABLISHED" | "tb_state s = FIN_WAIT_1" | "tb_state s = FIN_WAIT_2"
    using assms(2) by (auto simp: in_state_def)
  then show ?thesis
  proof cases
    case 1
    then show ?thesis
      using moved [OF refl, of CLOSE_WAIT] so by (simp add: e in_state_def same_out_def)
  next
    case 2
    then show ?thesis
      using moved [OF refl, of CLOSING] so by (simp add: e in_state_def same_out_def)
  next
    case 3
    then have "handle_fin th sq len out data s = do_time_wait ?s1"
      using so by (simp add: e in_state_def same_out_def)
    then show ?thesis
      using ended_ops(1) [of ?s1] same_out_closed [OF so] by (simp add: ended_def)
  qed
qed

section \<open>A segment of the peer\<close>

lemma segment_packet:
  assumes "unat (data_offset (tcp_hdr_read b)) * 4 \<le> length b" "pkt_trim_front (unat (data_offset (tcp_hdr_read b)) * 4) (pkt_of_frag b) = Some p1"
  shows "pkt_wf p1 \<and> pkt_bytes p1 = drop (unat (data_offset (tcp_hdr_read b)) * 4) b \<and> spare_slot p1
    \<and> pk_len p1 = length (drop (unat (data_offset (tcp_hdr_read b)) * 4) b)"
proof -
  let ?n = "unat (data_offset (tcp_hdr_read b)) * 4"
  have "?n \<le> length (pkt_bytes (pkt_of_frag b))"
    using assms(1) by (simp add: pkt_of_frag_spec)
  from pkt_trim_front_spec [OF pkt_of_frag_spec(2) this] assms(2)
  have p: "pkt_wf p1" "pkt_bytes p1 = drop ?n b"
    by (auto simp: pkt_of_frag_spec)
  have "length (pk_frags p1) < pk_allocated p1"
    using pkt_trim_front_slots [OF assms(2)] by (simp add: pkt_of_frag_def impl_allocate_def default_nr_frags_def)
  then show ?thesis
    using p by (simp add: spare_slot_def pkt_wf_def)
qed

definition kept :: "tcb \<Rightarrow> (tcb \<Rightarrow> bool) \<Rightarrow> tcb \<Rightarrow> bool" where
  "kept s ok s' \<longleftrightarrow> ok s' \<and> tb_registered s' \<and> s_closed (tb_snd s') = s_closed (tb_snd s) \<or> ended s s'"

lemma kept_core: "core_same s s' \<Longrightarrow> conn_ok st iss L pst piss M pfin R s \<Longrightarrow> tb_registered s
    \<Longrightarrow> kept s (conn_ok st iss L pst piss M pfin R) s'"
  using core_same_conn_ok [of s s'] by (simp add: kept_def core_same_def snd_core_def)

text \<open>The text, and what the acknowledgment lets through.\<close>

lemma ack_then_text:
  assumes "ack_result (out_ok st iss L piss M) s r" "conn_ok st iss L pst piss M pfin R s" "tb_registered s" "tb_state s \<noteq> SYN_SENT"
    and "r_next (tb_rcv s) = at (piss + 1) n" "n < 2 ^ 31" "pkt_wf p" "pkt_bytes p = piece pst n (n + pk_len p)"
    and "pk_len p \<noteq> 0 \<longrightarrow> n + pk_len p \<le> M" "f_fin th \<longrightarrow> pfin \<and> seq_add sq (of_nat (pk_len p)) = at (piss + 1) M"
    and "after_ack th p sq (pk_len p) r = Some s'"
  shows "kept s (conn_ok st iss L pst piss M pfin R) s'"
proof -
  have moved: "conn_ok st iss L pst piss M pfin R t \<and> tb_registered t \<and> s_closed (tb_snd t) = s_closed (tb_snd s)"
    if "out_ok st iss L piss M t" "ack_moves s t" for t
  proof -
    have e: "tb_rcv t = tb_rcv s" "fin_seen t = fin_seen s" "tb_state t \<noteq> SYN_SENT"
      using that(2) assms(4) by (auto simp: ack_moves_def fin_seen_def in_state_def)
    have "rcv_ok pst piss M pfin R t"
      using assms(2,4) e by (auto simp: conn_ok_def rcv_ok_def)
    with that assms(3) show ?thesis
      by (simp add: conn_ok_def ack_moves_def)
  qed
  show ?thesis
  proof (cases r)
    case (Return t)
    then show ?thesis
      using assms(1,11) moved [of t] by (auto simp: ack_result_def kept_def after_ack_def)
  next
    case (Go_on data t)
    have t: "out_ok st iss L piss M t" "ack_moves s t" "tb_state t \<noteq> SYN_RECEIVED"
      using assms(1) Go_on by (simp_all add: ack_result_def)
    note m = moved [OF t(1,2)]
    have st: "in_state [ESTABLISHED, FIN_WAIT_1, FIN_WAIT_2] t \<or> in_state [CLOSE_WAIT, CLOSING, LAST_ACK, TIME_WAIT] t"
    proof -
      have n: "tb_state t \<noteq> SYN_SENT"
        using t(2) assms(4) by (auto simp: ack_moves_def)
      have "snd_ok st iss L t"
        using t(1) by (simp add: out_ok_def)
      then show ?thesis
        by (cases rule: snd_ok_cases) (use n t(3) in \<open>auto simp: in_state_def syn_needs_on_def\<close>)
    qed
    show ?thesis
    proof (cases "in_state [ESTABLISHED, FIN_WAIT_1, FIN_WAIT_2] t")
      case False
      then have "s' = t"
        using assms(11) Go_on st by (simp add: after_ack_def)
      then show ?thesis
        using m by (simp add: kept_def)
    next
      case True
      then obtain out u where u: "handle_text p (pk_len p) t = Some (out, u)" "s' = handle_fin th sq (pk_len p) out data u"
        using assms(11) Go_on by (auto simp: after_ack_def)
      have "r_next (tb_rcv t) = at (piss + 1) n"
        using t(2) assms(5) by (simp add: ack_moves_def)
      note tx = handle_text_ok [OF conjunct1 [OF m] True this assms(6-9) u(1)]
      have "in_state [ESTABLISHED, FIN_WAIT_1, FIN_WAIT_2] u" "tb_registered u" "s_closed (tb_snd u) = s_closed (tb_snd s)"
        using tx True m same_out_closed [of t u] by (simp_all add: same_out_def in_state_def)
      then show ?thesis
        using handle_fin_ok [OF conjunct1 [OF tx] _ _ assms(10), of out data] by (auto simp: u(2) kept_def ended_def)
    qed
  qed
qed

text \<open>A segment beyond the next byte is kept for later.\<close>

lemma later_ok:
  assumes "conn_ok st iss L pst piss M pfin R s" "tb_registered s" "tb_state s \<noteq> SYN_SENT" "r_next (tb_rcv s) = at (piss + 1) n" "n < 2 ^ 31"
    and "pkt_wf p" "pkt_bytes p = piece pst k (k + pk_len p)" "spare_slot p" "k + pk_len p \<le> M + 1" "pk_len p \<noteq> 0 \<longrightarrow> k + pk_len p \<le> M"
    and "n < k" "tcb_insert_out_of_order (at (piss + 1) k) p s = Some t"
  shows "kept s (conn_ok st iss L pst piss M pfin R) (tcb_output t)"
proof -
  obtain m where m: "r_next (tb_rcv s) = at (piss + 1) (if fin_seen s then m + 1 else m)" "fin_seen s \<longrightarrow> m = M"
      "rcv_at pst piss M R m (tb_rcv s)" and M: "M + 2 < 2 ^ 31"
    using assms(1,3) by (auto simp: conn_ok_def rcv_ok_def)
  have "(if fin_seen s then m + 1 else m) < 2 ^ 31"
    using m(3) M by (simp add: rcv_at_def)
  then have "(if fin_seen s then m + 1 else m) = n"
    using m(1) assms(4) cmp_at(4) [OF _ assms(5), of "if fin_seen s then m + 1 else m" "piss + 1"] by simp
  then have nf: "\<not> fin_seen s" "m = n"
    using m(2) assms(9,11) by (auto split: if_splits)
  obtain pm where pm: "t = upd_rcv (\<lambda>r. r\<lparr>r_out_of_order := pm\<rparr>) s" "rcv_at pst piss M R n (tb_rcv t)"
    using rcv_insert [OF m(3) M assms(6-10,12)] nf(2) by blast
  have so: "same_out s (tcb_output t)"
    by (simp add: pm(1) same_out_def upd_rcv_def tcb_output_def)
  moreover have "rcv_ok pst piss M pfin R (tcb_output t)"
    using nf(1) pm(2) M assms(3,4) by (auto simp: rcv_ok_def pm(1) upd_rcv_def tcb_output_def fin_seen_def in_state_def)
  ultimately show ?thesis
    using same_out_conn_ok [OF so assms(1)] same_out_closed [OF so] assms(2) by (simp add: kept_def same_out_def)
qed

lemma rcv_ok_next:
  assumes "rcv_ok pst piss M pfin R s" "tb_state s \<noteq> SYN_SENT"
  shows "\<exists>n \<le> M + 1. r_next (tb_rcv s) = at (piss + 1) n"
proof -
  obtain m where "r_next (tb_rcv s) = at (piss + 1) (if fin_seen s then m + 1 else m)" "m \<le> M"
    using assms by (auto simp: rcv_ok_def rcv_at_def)
  then show ?thesis
    by (intro exI [of _ "if fin_seen s then m + 1 else m"]) simp
qed

lemma in_order_ok:
  assumes "hw_ok hw" "conn_ok st iss L pst piss M pfin R s" "tb_registered s" "tb_state s \<noteq> SYN_SENT"
    and "r_next (tb_rcv s) = at (piss + 1) n" "n < 2 ^ 31" "pkt_wf p" "pkt_bytes p = piece pst n (n + pk_len p)"
    and "pk_len p \<noteq> 0 \<longrightarrow> n + pk_len p \<le> M" "f_fin th \<longrightarrow> pfin \<and> n + pk_len p = M" "\<not> f_syn th"
    and "f_ack th \<longrightarrow> (\<exists>j. ack th = at (iss + 1) j \<and> j \<le> L + 1)"
    and "handle_in_order hw th p (at (piss + 1) n) (pk_len p) s = Some s'"
  shows "kept s (conn_ok st iss L pst piss M pfin R) s'"
proof -
  let ?sq = "at (piss + 1) n"
  consider "ended s s'" | r where "handle_ack hw th ?sq (pk_len p) s = Some r" "after_ack th p ?sq (pk_len p) r = Some s'"
    using assms(11,13) ended_ops(2) [of s] ended_ops(3) [of s] ended_ops(3) [of "tcb_log (Connect_failed Refused_error) s"]
    by (auto simp: handle_in_order_def bind_eq_Some_conv ended_def tcb_log_def split: if_splits)
  then show ?thesis
  proof cases
    case 1
    then show ?thesis
      by (simp add: kept_def)
  next
    case 2
    have "out_ok st iss L piss M s"
      using assms(2) by (simp add: conn_ok_def)
    note ar = handle_ack_ok [OF assms(1) 2(1) this assms(12)]
    have "f_fin th \<longrightarrow> pfin \<and> seq_add ?sq (of_nat (pk_len p)) = at (piss + 1) M"
      unfolding at_seq_add using assms(10) by auto
    from ack_then_text [OF ar assms(2-9) this 2(2)] show ?thesis .
  qed
qed

lemma input_other_ok:
  assumes "hw_ok hw" "conn_ok st iss L pst piss M pfin R s" "tb_registered s" "tb_state s \<noteq> SYN_SENT"
    and "seg_ok pst piss M pfin iss L b" "input_handle_other_state hw (tcp_hdr_read b) (pkt_of_frag b) s = Some s'"
  shows "kept s (conn_ok st iss L pst piss M pfin R) s'"
proof -
  define h where "h = tcp_hdr_read b"
  define q where "q = drop (unat (data_offset h) * 4) b"
  have seg: "unat (data_offset h) * 4 \<le> length b" "f_syn h \<longrightarrow> seq h = piss \<and> q = []"
      "\<not> f_syn h \<longrightarrow> (\<exists>k. seq h = at (piss + 1) k \<and> k + length q \<le> M + 1
          \<and> (q \<noteq> [] \<longrightarrow> k + length q \<le> M \<and> q = piece pst k (k + length q)) \<and> (f_fin h \<longrightarrow> pfin \<and> k + length q = M))"
      "f_ack h \<longrightarrow> (\<exists>j. ack h = at (iss + 1) j \<and> j \<le> L + 1)"
    using assms(5) unfolding seg_ok_def Let_def h_def [symmetric] q_def [symmetric] by blast+
  have r: "rcv_ok pst piss M pfin R s" and M: "M + 2 < 2 ^ 31"
    using assms(2) by (simp_all add: conn_ok_def rcv_ok_def)
  obtain n where n: "n \<le> M + 1" "r_next (tb_rcv s) = at (piss + 1) n"
    using rcv_ok_next [OF r assms(4)] by blast
  have n31: "n < 2 ^ 31" "n + 1 < 2 ^ 31"
    using n(1) M by simp_all
  obtain p1 where p1: "pkt_trim_front (unat (data_offset h) * 4) (pkt_of_frag b) = Some p1"
    using assms(6) by (auto simp: input_handle_other_state_def bind_eq_Some_conv h_def)
  have p1': "pkt_wf p1" "pkt_bytes p1 = q" "spare_slot p1" "pk_len p1 = length q"
    using segment_packet [of b p1] seg(1) p1 by (simp_all add: h_def q_def)
  have out: "kept s (conn_ok st iss L pst piss M pfin R) (tcb_output s)"
    using kept_core [OF core_same_timers(1) assms(2,3)] .
  show ?thesis
  proof (cases "tcb_segment_acceptable (tb_rcv s) (seq h) (of_nat (pk_len p1))")
    case False
    then have "s' = tcb_output s"
      using assms(6) p1 by (simp add: input_handle_other_state_def h_def [symmetric])
    then show ?thesis
      using out by simp
  next
    case acc: True
    have ns: "\<not> f_syn h"
    proof
      assume "f_syn h"
      then have "seq h = piss" "pk_len p1 = 0"
        using seg(2) p1'(4) by simp_all
      then show False
        using acc syn_not_acceptable [OF n(2) n31(2)] by simp
    qed
    obtain k where k: "seq h = at (piss + 1) k" "k + length q \<le> M + 1" "q \<noteq> [] \<longrightarrow> k + length q \<le> M \<and> q = piece pst k (k + length q)"
        "f_fin h \<longrightarrow> pfin \<and> k + length q = M"
      using seg(3) ns by blast
    have kq: "k + length q < 2 ^ 31" "k < 2 ^ 31"
      using k(2) M by simp_all
    have new: "n \<le> k \<or> n < k + length q"
      using acceptable_new [OF _ n(2) n31(1) kq(1)] acc k(1) p1'(4) by simp
    have q: "q = piece pst k (k + length q)"
      using k(3) by (cases "q = []") auto
    define old where "old = seq_lt (at (piss + 1) k) (at (piss + 1) n)"
    define dup where "dup = (if old then unat (min (at (piss + 1) n - at (piss + 1) k) (of_nat (pk_len p1))) else 0)"
    let ?sq = "seq_add (at (piss + 1) k) (of_nat dup)"
    have in2: "Option.bind (if old then pkt_trim_front dup p1 else Some p1) (\<lambda>p.
        if ?sq \<noteq> at (piss + 1) n then map_option tcb_output (tcb_insert_out_of_order ?sq p s)
        else handle_in_order hw h p ?sq (pk_len p1 - dup) s) = Some s'"
      using assms(6) acc unfolding input_handle_other_state_def h_def [symmetric] p1 Option.bind.bind_lunit Let_def n(2) k(1)
        old_def [symmetric] dup_def [symmetric] by (simp only: not_True_eq_False if_False)
    then obtain p where p: "(if old then pkt_trim_front dup p1 else Some p1) = Some p"
        "(if ?sq \<noteq> at (piss + 1) n then map_option tcb_output (tcb_insert_out_of_order ?sq p s)
        else handle_in_order hw h p ?sq (pk_len p1 - dup) s) = Some s'"
      unfolding bind_eq_Some_conv by blast
    from trim_old [OF p1'(1) _ p1'(4) n31(1) kq(1) new old_def dup_def p(1)] p1'(2) q
    have t: "pkt_wf p" "pkt_bytes p = piece pst (max k n) (k + length q)" "pk_len p1 - dup = pk_len p" "?sq = at (piss + 1) (max k n)"
        "pk_len p = k + length q - max k n" "n < k \<longrightarrow> p = p1"
      by auto
    show ?thesis
    proof (cases "n < k")
      case True
      have "at (piss + 1) k \<noteq> at (piss + 1) n"
        using cmp_at(4) [OF kq(2) n31(1), of "piss + 1"] True by simp
      then obtain u where u: "tcb_insert_out_of_order (at (piss + 1) k) p1 s = Some u" "s' = tcb_output u"
        using p(2) t(4,6) True by auto
      show ?thesis
        unfolding u(2) by (rule later_ok [OF assms(2-4) n(2) n31(1) p1'(1) _ p1'(3) _ _ True u(1)])
          (use p1' q k in \<open>auto simp del: length_0_conv\<close>)
    next
      case False
      then have e: "max k n = n" "n + pk_len p = k + length q"
        using new t(5) by auto
      have io: "handle_in_order hw h p (at (piss + 1) n) (pk_len p) s = Some s'"
        using p(2) unfolding t(3,4) e(1) by simp
      show ?thesis
        by (rule in_order_ok [OF assms(1-4) n(2) n31(1) t(1) _ _ _ ns seg(4) io])
          (use t(2,5) e k new in \<open>auto simp del: length_0_conv\<close>)
    qed
  qed
qed

end
