(* ===== verification/Tcp_Stream.thy ===== *)
theory Tcp_Stream
  imports Tcp_Receiver "HOL-Library.Sublist"
begin

text \<open>
  Two control blocks of net/tcp.hh joined by a network that may lose, duplicate, delay and reorder segments: the user
  of one end reads a prefix of what the user of the other end wrote.
\<close>

section \<open>Opening a connection\<close>

lemma init_from_options_same:
  assumes "init_from_options hw th opts s = Some s'"
  shows "notified s s'"
  using assms by (auto simp: init_from_options_def Let_def bind_eq_Some_conv notified_def same_out_def snd_core_def split: if_splits)

text \<open>The state after the initial sequence number is chosen.\<close>

definition fresh :: "tcp_seq \<Rightarrow> tcb \<Rightarrow> bool" where
  "fresh iss s \<longleftrightarrow> syn_acked iss (tb_snd s) \<and> s_initial (tb_snd s) = iss \<and> \<not> s_closed (tb_snd s) \<and> tb_packetq s = []
    \<and> r_data (tb_rcv s) = [] \<and> pm_map (r_out_of_order (tb_rcv s)) = [] \<and> tb_registered s"

lemma fresh_new: "fresh iss (do_setup_isn iss (tcb_new snd0 rcv0 raw lip fip lport fport now))"
  by (simp add: fresh_def do_setup_isn_def tcb_new_def upd_snd_def syn_acked_def seq_add_def)

lemma rcv_at_start:
  assumes "r_data r = []" "pm_map (r_out_of_order r) = []"
  shows "rcv_at pst piss M 0 0 r"
  using assms by (simp add: rcv_at_def separated_by_def cover_of_def)

lemma fresh_conn_ok:
  assumes "fresh iss s" "syn_needs_on s" "M + 2 < 2 ^ 31" "tb_state s = SYN_RECEIVED \<longrightarrow> r_next (tb_rcv s) = piss + 1"
  shows "conn_ok st iss 0 pst piss M pfin 0 s"
proof (rule conn_okI)
  show "snd_ok st iss 0 s"
    using assms(1,2) by (simp add: snd_ok_def fresh_def syn_acked_def Let_def)
  show "queued_ok st iss 0 piss M s"
    using assms(1) by (simp add: queued_ok_def fresh_def)
  have "\<not> fin_seen s" "tb_state s = SYN_SENT \<or> tb_state s = SYN_RECEIVED"
    using assms(2) by (auto simp: fin_seen_def syn_needs_on_def in_state_def)
  then show "rcv_ok pst piss M pfin 0 s"
    using assms(1,3,4) rcv_at_start [of "tb_rcv s" pst piss M]
    by (auto simp: rcv_ok_def fresh_def at_def intro!: exI [of _ 0])
qed

lemma connect_ok:
  assumes "s = tcb_connect hw iss (tcb_new snd0 rcv0 raw lip fip lport fport now)" "M + 2 < 2 ^ 31"
  shows "conn_ok st iss 0 pst piss M pfin 0 s \<and> tb_registered s \<and> \<not> s_closed (tb_snd s)"
proof -
  have st: "tb_state s = SYN_SENT"
    by (simp add: assms(1) tcb_connect_def do_syn_sent_def tcb_output_def upd_snd_def)
  have f: "fresh iss s"
    using fresh_new [of iss snd0 rcv0 raw lip fip lport fport now]
    by (simp add: assms(1) fresh_def tcb_connect_def do_syn_sent_def tcb_output_def upd_snd_def do_setup_isn_def syn_acked_def tcb_new_def)
  show ?thesis
    using fresh_conn_ok [OF f _ assms(2)] f st by (simp add: syn_needs_on_def in_state_def fresh_def)
qed

lemma listen_ok:
  assumes "input_handle_listen_state hw iss th p (tcb_new snd0 rcv0 raw lip fip lport fport now) = Some s"
    and "seq th = piss" "M + 2 < 2 ^ 31"
  shows "conn_ok st iss 0 pst piss M pfin 0 s \<and> tb_registered s \<and> \<not> s_closed (tb_snd s)"
proof -
  let ?t = "tcb_new snd0 rcv0 raw lip fip lport fport now"
  let ?s1 = "do_setup_isn iss (upd_rcv (\<lambda>r. r\<lparr>r_next := seq_add (seq th) 1, r_initial := seq th\<rparr>) ?t)"
  let ?s2 = "upd_rcv (\<lambda>r. r\<lparr>r_urgent := r_next r\<rparr>) ?s1"
  obtain opts s3 where s3: "init_from_options hw th opts ?s2 = Some s3" "s = do_syn_received s3"
    using assms(1) by (auto simp: input_handle_listen_state_def Let_def bind_eq_Some_conv)
  have f2: "fresh iss ?s2" "r_next (tb_rcv ?s2) = piss + 1"
    using assms(2) by (simp_all add: fresh_def do_setup_isn_def tcb_new_def upd_snd_def upd_rcv_def syn_acked_def seq_add_def)
  have n: "notified ?s2 s3"
    by (rule init_from_options_same [OF s3(1)])
  have st: "tb_state s = SYN_RECEIVED" and r: "tb_rcv s = tb_rcv s3" and sc: "snd_core (tb_snd s) = snd_core (tb_snd s3)"
      "tb_packetq s = tb_packetq s3" "tb_registered s = tb_registered s3"
    by (simp_all add: s3(2) do_syn_received_def tcb_output_def upd_snd_def snd_core_def)
  have f: "fresh iss s" "r_next (tb_rcv s) = piss + 1"
    using f2 n r sc by (simp_all add: notified_def same_out_def fresh_def syn_acked_def snd_core_def)
  show ?thesis
    using fresh_conn_ok [OF f(1) _ assms(3)] f st by (simp add: syn_needs_on_def in_state_def fresh_def)
qed

lemma syn_sent_facts:
  assumes "conn_ok st iss L pst piss M pfin R s" "tb_state s = SYN_SENT"
  shows "L = 0" "R = 0" "syn_acked iss (tb_snd s)" "s_initial (tb_snd s) = iss" "\<not> s_closed (tb_snd s)"
    "queued_ok st iss 0 piss M s" "r_data (tb_rcv s) = []" "pm_map (r_out_of_order (tb_rcv s)) = []" "M + 2 < 2 ^ 31"
proof -
  have "syn_needs_on s" "snd_ok st iss L s" "rcv_ok pst piss M pfin R s" "queued_ok st iss L piss M s"
    using assms by (simp_all add: syn_needs_on_def in_state_def conn_ok_def out_ok_def)
  then show "L = 0" "R = 0" "syn_acked iss (tb_snd s)" "s_initial (tb_snd s) = iss" "\<not> s_closed (tb_snd s)"
      "queued_ok st iss 0 piss M s" "r_data (tb_rcv s) = []" "pm_map (r_out_of_order (tb_rcv s)) = []" "M + 2 < 2 ^ 31"
    using assms(2) by (auto simp: snd_ok_def syn_acked_def Let_def rcv_ok_def)
qed

text \<open>The SYN of the peer: it acknowledges ours, or it crosses ours.\<close>

lemma syn_sent_syn:
  assumes "conn_ok st iss L pst piss M pfin R s" "tb_state s = SYN_SENT"
    and "t = upd_rcv (\<lambda>r. r\<lparr>r_next := piss + 1, r_initial := piss\<rparr>) s"
  shows "conn_ok st iss L pst piss M pfin R (do_syn_received t)"
    and "init_from_options hw th opts (upd_snd (\<lambda>d. d\<lparr>s_una := iss + 1\<rparr>) t) = Some u
      \<Longrightarrow> conn_ok st iss L pst piss M pfin R (tcb_output (do_established u))
        \<and> tb_registered (tcb_output (do_established u)) = tb_registered s \<and> \<not> s_closed (tb_snd (tcb_output (do_established u)))"
proof -
  note f = syn_sent_facts [OF assms(1,2)]
  show "conn_ok st iss L pst piss M pfin R (do_syn_received t)"
  proof (rule conn_okI)
    let ?t = "do_syn_received t"
    have d: "tb_state ?t = SYN_RECEIVED" "snd_core (tb_snd ?t) = snd_core (tb_snd s)" "tb_packetq ?t = tb_packetq s" "tb_rcv ?t = tb_rcv t"
      by (simp_all add: assms(3) do_syn_received_def tcb_output_def upd_snd_def upd_rcv_def snd_core_def)
    show "snd_ok st iss L ?t"
      using f d by (simp add: snd_ok_def syn_acked_def Let_def syn_needs_on_def in_state_def snd_core_def)
    show "queued_ok st iss L piss M ?t"
      using f d by (simp add: queued_ok_def snd_core_def)
    show "rcv_ok pst piss M pfin R ?t"
      using f d rcv_at_start [of "tb_rcv t" pst piss M]
      by (auto simp: rcv_ok_def fin_seen_def in_state_def assms(3) upd_rcv_def at_def intro!: exI [of _ 0])
  qed
  assume u: "init_from_options hw th opts (upd_snd (\<lambda>d. d\<lparr>s_una := iss + 1\<rparr>) t) = Some u"
  let ?v = "tcb_output (do_established u)" and ?w = "upd_snd (\<lambda>d. d\<lparr>s_una := iss + 1\<rparr>) t"
  have n: "notified ?w u"
    by (rule init_from_options_same [OF u])
  have "core_same (u\<lparr>tb_state := ESTABLISHED\<rparr>) ?v"
    unfolding do_established_def by (meson core_same_rto core_same_timers(1,5) core_same_trans)
  then have v: "tb_state ?v = ESTABLISHED" "tb_rcv ?v = tb_rcv u" "snd_core (tb_snd ?v) = snd_core (tb_snd ?w)"
      "tb_packetq ?v = tb_packetq s" "tb_registered ?v = tb_registered s"
    using n by (simp_all add: core_same_def notified_def same_out_def upd_snd_def assms(3) upd_rcv_def)
  have w: "s_una (tb_snd ?w) = iss + 1" "s_next (tb_snd ?w) = iss + 1" "s_data (tb_snd ?w) = []" "concat (s_unsent (tb_snd ?w)) = []"
      "s_unsent_len (tb_snd ?w) = 0" "\<not> s_closed (tb_snd ?w)" "s_initial (tb_snd ?w) = iss"
    using f by (simp_all add: upd_snd_def assms(3) upd_rcv_def syn_acked_def)
  have at: "snd_at st iss 0 0 0 (tb_snd ?v)"
    unfolding snd_at_core [OF v(3)] using w by (simp add: snd_at_def at_def)
  have c: "\<not> s_closed (tb_snd ?v)" "s_initial (tb_snd ?v) = iss"
    using v(3) w by (simp_all add: snd_core_def)
  have "conn_ok st iss L pst piss M pfin R ?v"
  proof (rule conn_okI)
    show "snd_ok st iss L ?v"
      using at c f(1) v(1) by (auto simp: snd_ok_def Let_def syn_needs_on_def in_state_def)
    show "queued_ok st iss L piss M ?v"
      using f(1,5,6) v(4) c by (simp add: queued_ok_def)
    have "r_next (tb_rcv u) = piss + 1" "r_data (tb_rcv u) = []" "pm_map (r_out_of_order (tb_rcv u)) = []"
      using n f(7,8) by (simp_all add: notified_def upd_snd_def assms(3) upd_rcv_def)
    then show "rcv_ok pst piss M pfin R ?v"
      using f(2,9) v(1,2) rcv_at_start [of "tb_rcv u" pst piss M]
      by (auto simp: rcv_ok_def fin_seen_def in_state_def at_def intro!: exI [of _ 0])
  qed
  with c v(5) show "conn_ok st iss L pst piss M pfin R ?v \<and> tb_registered ?v = tb_registered s \<and> \<not> s_closed (tb_snd ?v)"
    by simp
qed

lemma input_syn_sent_ok:
  assumes "conn_ok st iss L pst piss M pfin R s" "tb_registered s" "tb_state s = SYN_SENT" "seg_ok pst piss M pfin iss L b"
    and "input_handle_syn_sent_state hw (tcp_hdr_read b) (pkt_of_frag b) s = Some s'"
  shows "kept s (conn_ok st iss L pst piss M pfin R) s'"
proof -
  define h where "h = tcp_hdr_read b"
  note f = syn_sent_facts [OF assms(1,3)]
  have d: "s_una (tb_snd s) = iss" "s_next (tb_snd s) = iss + 1"
    using f(3) by (simp_all add: syn_acked_def)
  have seg: "f_syn h \<longrightarrow> seq h = piss" "f_ack h \<longrightarrow> (\<exists>j. ack h = at (iss + 1) j \<and> j \<le> 1)"
    using assms(4) f(1) unfolding seg_ok_def Let_def h_def [symmetric] by auto
  obtain opts p where in1: "(let d = tb_snd s; acceptable = (f_ack h \<and> seq_le (s_una d) (ack h) \<and> seq_le (ack h) (s_next d)) in
     if f_ack h \<and> (seq_le (ack h) (s_initial d) \<or> seq_gt (ack h) (s_next d)) then Some (respond_with_reset h s)
     else if f_rst h then Some (if acceptable then do_reset s else s)
     else if f_syn h
     then (let s1 = upd_rcv (\<lambda>r. r\<lparr>r_next := seq_add (seq h) 1, r_initial := seq h\<rparr>) s;
               s2 = (if f_ack h then upd_snd (\<lambda>d. d\<lparr>s_una := ack h\<rparr>) s1 else s1)
           in if seq_gt (s_una (tb_snd s2)) (s_initial (tb_snd s2))
              then map_option (\<lambda>s3. tcb_output (do_established s3)) (init_from_options hw h opts s2)
              else Some (do_syn_received s2))
     else Some s) = Some s'"
    using assms(5) unfolding input_handle_syn_sent_state_def h_def [symmetric] bind_eq_Some_conv by auto
  have same: "kept s (conn_ok st iss L pst piss M pfin R) s"
    by (rule kept_core [OF core_same_refl assms(1,2)])
  show ?thesis
  proof (cases "f_ack h \<and> (seq_le (ack h) (s_initial (tb_snd s)) \<or> seq_gt (ack h) (s_next (tb_snd s)))")
    case True
    then have "s' = respond_with_reset h s"
      using in1 by (simp add: Let_def)
    then show ?thesis
      using kept_core [OF core_same_timers(5) assms(1,2)] same by (simp add: respond_with_reset_def)
  next
    case good: False
    show ?thesis
    proof (cases "\<not> f_rst h \<and> f_syn h")
      case False
      then have "s' = do_reset s \<or> s' = s"
        using in1 good by (auto simp: Let_def split: if_splits)
      then show ?thesis
        using same ended_ops(3) [of s] by (auto simp: kept_def)
    next
      case syn: True
      let ?t = "upd_rcv (\<lambda>r. r\<lparr>r_next := piss + 1, r_initial := piss\<rparr>) s"
      have t: "tb_snd ?t = tb_snd s" "seq_add (seq h) 1 = piss + 1"
        using seg(1) syn by (simp_all add: upd_rcv_def seq_add_def)
      show ?thesis
      proof (cases "f_ack h")
        case False
        have "\<not> seq_gt iss iss"
          using cmp_at(3) [of 0 0 iss] by (simp add: at_def)
        then have "s' = do_syn_received ?t"
          using in1 good syn False t seg(1) d(1) f(4) by (simp add: Let_def)
        then show ?thesis
          using syn_sent_syn(1) [OF assms(1,3) refl] assms(2)
          by (simp add: kept_def do_syn_received_def tcb_output_def upd_snd_def upd_rcv_def)
      next
        case True
        then obtain j where j: "ack h = at (iss + 1) j" "j \<le> 1"
          using seg(2) by blast
        have "\<not> seq_gt (at (iss + 1) j) (at (iss + 1) 0)"
          using good True j(1) d(2) by (simp add: at_def)
        then have a: "ack h = iss + 1"
          using cmp_at(3) [of j 0 "iss + 1"] j by (simp add: at_def)
        have g: "seq_gt (iss + 1) iss"
          using cmp_at(3) [of 1 0 iss] by (simp add: at_def)
        then obtain u where u: "init_from_options hw h opts (upd_snd (\<lambda>d. d\<lparr>s_una := iss + 1\<rparr>) ?t) = Some u" "s' = tcb_output (do_established u)"
          using in1 good syn True t seg(1) f(4) a by (auto simp: Let_def upd_snd_def)
        note ok = syn_sent_syn(2) [OF assms(1,3) refl u(1)]
        show ?thesis
          using ok assms(2) f(5) by (simp add: kept_def u(2))
      qed
    qed
  qed
qed

lemma tcb_input_ok:
  assumes "hw_ok hw" "conn_ok st iss L pst piss M pfin R s" "tb_registered s" "seg_ok pst piss M pfin iss L b"
    and "tcb_input hw (tcp_hdr_read b) (pkt_of_frag b) s = Some s'"
  shows "kept s (conn_ok st iss L pst piss M pfin R) s'"
  using assms(5) input_syn_sent_ok [OF assms(2,3) _ assms(4)] input_other_ok [OF assms(1-3) _ assms(4)]
  by (auto simp: tcb_input_def split: if_splits)

section \<open>Reading and closing\<close>

lemma tcb_read_ok:
  assumes "conn_ok st iss L pst piss M pfin R s" "tcb_read s = (p, s')"
  shows "\<exists>n. pkt_bytes p = piece pst R n \<and> R \<le> n \<and> n \<le> M \<and> conn_ok st iss L pst piss M pfin n s' \<and> same_out s s'"
proof -
  have p: "p = foldl pkt_append pkt_empty (r_data (tb_rcv s))" and s': "s' = upd_rcv (\<lambda>r. r\<lparr>r_data := []\<rparr>) s"
    using assms(2) by (simp_all add: tcb_read_def)
  have so: "same_out s s'"
    by (simp add: s' same_out_def upd_rcv_def)
  have r: "rcv_ok pst piss M pfin R s"
    using assms(1) by (simp add: conn_ok_def)
  have fs: "fin_seen s' = fin_seen s" "tb_state s' = tb_state s"
    by (simp_all add: s' upd_rcv_def fin_seen_def in_state_def)
  show ?thesis
  proof (cases "tb_state s = SYN_SENT")
    case True
    then have "R = 0" "r_data (tb_rcv s) = []"
      using r by (simp_all add: rcv_ok_def)
    moreover have "rcv_ok pst piss M pfin 0 s'"
      using r True by (simp add: rcv_ok_def fs s' upd_rcv_def)
    ultimately show ?thesis
      using same_out_conn_ok [OF so assms(1)] so by (intro exI [of _ 0]) (simp add: p pkt_empty_spec)
  next
    case False
    then obtain n where n: "r_next (tb_rcv s) = at (piss + 1) (if fin_seen s then n + 1 else n)" "fin_seen s \<longrightarrow> n = M \<and> pfin"
        "rcv_at pst piss M R n (tb_rcv s)" and M: "M + 2 < 2 ^ 31"
      using r by (auto simp: rcv_ok_def)
    have bytes: "pkt_bytes p = piece pst R n"
      using append_all_bytes [OF _ pkt_empty_spec(2), of "r_data (tb_rcv s)"] n(3) by (simp add: p rcv_at_def pkt_empty_spec)
    have "rcv_at pst piss M n n (tb_rcv s')"
      using n(3) by (simp add: rcv_at_def s' upd_rcv_def)
    moreover have "r_next (tb_rcv s') = r_next (tb_rcv s)"
      by (simp add: s' upd_rcv_def)
    ultimately have "rcv_ok pst piss M pfin n s'"
      using False n(1,2) M unfolding rcv_ok_def fs by auto
    then show ?thesis
      using same_out_conn_ok [OF so assms(1)] so n(3) bytes by (auto simp: rcv_at_def)
  qed
qed

lemma close_resume_conn_ok:
  assumes "hw_ok hw" "conn_ok st iss L pst piss M pfin R s" "in_state [ESTABLISHED, CLOSE_WAIT] s"
    and "s_data (tb_snd s) = []" "s_unsent_len (tb_snd s) = 0" "tcb_close_resume hw s = Some s'"
  shows "conn_ok st iss L pst piss M pfin R s' \<and> tb_registered s' = tb_registered s"
proof -
  have o: "out_ok st iss L piss M s"
    using assms(2) by (simp add: conn_ok_def)
  note c = tcb_close_resume_ok [OF assms(1) o assms(3-6)]
  have fs: "fin_seen s' = fin_seen s" "tb_state s' \<noteq> SYN_SENT" "tb_state s \<noteq> SYN_SENT"
    using c assms(3) by (auto simp: fin_seen_def in_state_def)
  then have "rcv_ok pst piss M pfin R s'"
    using assms(2) c by (simp add: conn_ok_def rcv_ok_def)
  then show ?thesis
    using c by (simp add: conn_ok_def)
qed

lemma tcb_close_conn_ok:
  assumes "hw_ok hw" "conn_ok st iss L pst piss M pfin R s" "\<not> syn_needs_on s" "tcb_close hw s = Some s'"
  shows "conn_ok st iss L pst piss M pfin R s' \<and> tb_registered s' = tb_registered s \<and> (s_closed (tb_snd s) \<longrightarrow> s_closed (tb_snd s'))"
proof (cases "in_state [CLOSED] s \<or> s_closed (tb_snd s)")
  case True
  then have "s' = s"
    using assms(4) by (simp add: tcb_close_def)
  then show ?thesis
    using assms(2) by simp
next
  case False
  have o: "out_ok st iss L piss M s"
    using assms(2) by (simp add: conn_ok_def)
  have st: "in_state [ESTABLISHED, CLOSE_WAIT] s"
    using out_ok_unclosed [OF o _ assms(3)] False by simp
  show ?thesis
  proof (cases "s_data (tb_snd s) = [] \<and> s_unsent_len (tb_snd s) = 0")
    case True
    then have "tcb_close_resume hw s = Some s'"
      using assms(4) False by (simp add: tcb_close_def wait_for_all_data_acked_def)
    then show ?thesis
      using close_resume_conn_ok [OF assms(1,2) st] True False by simp
  next
    case data: False
    then have "s' = upd_snd (s_all_acked_promise_update (\<lambda>_. True)) s"
      using assms(4) False by (auto simp: tcb_close_def wait_for_all_data_acked_def)
    then have "core_same s s'"
      by (simp add: core_same_upd snd_core_def)
    then show ?thesis
      using core_same_conn_ok [OF _ assms(2)] False by (simp add: core_same_def)
  qed
qed

section \<open>Two ends and a network\<close>

text \<open>
  An end is its control block, if it has one, what its user wrote and read, and every segment it has sent. The
  network may deliver any of these segments at any time, any number of times or never.
\<close>

record tcp_end =
  te_tcb :: "tcb option"
  te_sent :: bytes
  te_got :: bytes
  te_wire :: "bytes list"

text \<open>What a control block is created from: memory that is not initialised, the address pair, the time.\<close>

datatype tcb_args = Tcb_args tcp_send tcp_receive u16 l4connid int

fun make_tcb :: "tcb_args \<Rightarrow> tcb" where
  "make_tcb (Tcb_args snd0 rcv0 raw c now) = tcb_new snd0 rcv0 raw (local_ip c) (foreign_ip c) (local_port c) (foreign_port c) now"

datatype tcp_do = Do_connect tcb_args | Do_accept tcb_args nat | Do_input nat | Do_reset bytes | Do_output | Do_send bytes | Do_read
  | Do_close | Do_close_resume | Do_shutdown | Do_retransmit | Do_persist | Do_delayed_ack | Do_poll_failed "arp_result option"
  | Do_wait_for_data | Do_abort_reader | Do_tick int

text \<open>A reset that answers a segment of the connection: it is numbered by what that segment acknowledged.\<close>

definition is_reset :: "tcp_seq \<Rightarrow> nat \<Rightarrow> tcp_seq \<Rightarrow> bytes \<Rightarrow> bool" where
  "is_reset piss M iss b \<longleftrightarrow> (let h = tcp_hdr_read b in f_rst h \<and> \<not> f_syn h \<and> \<not> f_fin h \<and> length b = 20 \<and> data_offset h = 5
    \<and> seq_pos (piss + 1) (seq h) \<le> M + 1 \<and> (f_ack h \<longrightarrow> ack h = iss + 1))"

definition on_tcb :: "tcp_end \<Rightarrow> (tcb \<Rightarrow> tcb option) \<Rightarrow> tcp_end option" where
  "on_tcb e f = (case te_tcb e of Some s \<Rightarrow> if tb_registered s then map_option (\<lambda>s'. e\<lparr>te_tcb := Some s'\<rparr>) (f s) else None
    | None \<Rightarrow> None)"

text \<open>
  One operation at an end whose peer is \<open>q\<close>. The user has the connection once it is established, and
  \<open>close\<close> resumes when all data is acknowledged.
\<close>

fun end_do :: "hw_features \<Rightarrow> tcp_seq \<Rightarrow> tcp_seq \<Rightarrow> tcp_end \<Rightarrow> tcp_do \<Rightarrow> tcp_end \<Rightarrow> tcp_end option" where
  "end_do hw iss piss q (Do_connect a) e = (if te_tcb e = None then Some (e\<lparr>te_tcb := Some (tcb_connect hw iss (make_tcb a))\<rparr>) else None)"
| "end_do hw iss piss q (Do_accept a i) e = (if te_tcb e = None \<and> i < length (te_wire q)
    then (let b = te_wire q ! i; h = tcp_hdr_read b in
      if f_syn h \<and> \<not> f_ack h \<and> \<not> f_rst h
      then map_option (\<lambda>s. e\<lparr>te_tcb := Some s\<rparr>) (input_handle_listen_state hw iss h (pkt_of_frag b) (make_tcb a)) else None)
    else None)"
| "end_do hw iss piss q (Do_input i) e = (if i < length (te_wire q)
    then (let b = te_wire q ! i in on_tcb e (tcb_input hw (tcp_hdr_read b) (pkt_of_frag b))) else None)"
| "end_do hw iss piss q (Do_reset b) e = (if is_reset piss (length (te_sent q)) iss b
    then on_tcb e (tcb_input hw (tcp_hdr_read b) (pkt_of_frag b)) else None)"
| "end_do hw iss piss q Do_output e = (case te_tcb e of None \<Rightarrow> None
    | Some s \<Rightarrow> if tb_registered s then map_option (\<lambda>(r, s'). e\<lparr>te_tcb := Some s',
        te_wire := te_wire e @ (case r of None \<Rightarrow> [] | Some (b, oi) \<Rightarrow> [b])\<rparr>) (tcb_get_packet hw s) else None)"
| "end_do hw iss piss q (Do_send p) e = (case te_tcb e of None \<Rightarrow> None
    | Some s \<Rightarrow> if tb_registered s \<and> \<not> syn_needs_on s \<and> length (te_sent e @ p) + 2 < 2 ^ 31
      then (case tcb_send p s of Inl _ \<Rightarrow> None | Inr (_, s') \<Rightarrow> Some (e\<lparr>te_tcb := Some s', te_sent := te_sent e @ p\<rparr>)) else None)"
| "end_do hw iss piss q Do_read e = (case te_tcb e of None \<Rightarrow> None
    | Some s \<Rightarrow> (case tcb_read s of (p, s') \<Rightarrow> Some (e\<lparr>te_tcb := Some s', te_got := te_got e @ pkt_bytes p\<rparr>)))"
| "end_do hw iss piss q Do_close e = on_tcb e (\<lambda>s. if syn_needs_on s then None else tcb_close hw s)"
| "end_do hw iss piss q Do_close_resume e = on_tcb e (\<lambda>s. if in_state [ESTABLISHED, CLOSE_WAIT] s \<and> s_data (tb_snd s) = []
      \<and> s_unsent_len (tb_snd s) = 0 then tcb_close_resume hw s else None)"
| "end_do hw iss piss q Do_shutdown e = on_tcb e (shutdown_connect hw)"
| "end_do hw iss piss q Do_retransmit e = on_tcb e (retransmit_fired hw)"
| "end_do hw iss piss q Do_persist e = on_tcb e (tcb_persist_fired hw)"
| "end_do hw iss piss q Do_delayed_ack e = on_tcb e (\<lambda>s. Some (delayed_ack_fired s))"
| "end_do hw iss piss q (Do_poll_failed r) e = on_tcb e (\<lambda>s. Some (poll_failed r s))"
| "end_do hw iss piss q Do_wait_for_data e = on_tcb e (\<lambda>s. Some (snd (tcb_wait_for_data s)))"
| "end_do hw iss piss q Do_abort_reader e = on_tcb e (\<lambda>s. Some (tcb_abort_reader s))"
| "end_do hw iss piss q (Do_tick t) e = on_tcb e (\<lambda>s. Some (s\<lparr>tb_now := t\<rparr>))"

record tcp_net =
  tn_a :: tcp_end
  tn_b :: tcp_end

definition net_start :: tcp_net where
  "net_start = \<lparr>tn_a = \<lparr>te_tcb = None, te_sent = [], te_got = [], te_wire = []\<rparr>,
    tn_b = \<lparr>te_tcb = None, te_sent = [], te_got = [], te_wire = []\<rparr>\<rparr>"

fun net_do :: "(bool \<Rightarrow> hw_features) \<Rightarrow> (bool \<Rightarrow> tcp_seq) \<Rightarrow> bool \<times> tcp_do \<Rightarrow> tcp_net \<Rightarrow> tcp_net option" where
  "net_do hw isn (True, d) n = map_option (\<lambda>e. n\<lparr>tn_a := e\<rparr>) (end_do (hw True) (isn True) (isn False) (tn_b n) d (tn_a n))"
| "net_do hw isn (False, d) n = map_option (\<lambda>e. n\<lparr>tn_b := e\<rparr>) (end_do (hw False) (isn False) (isn True) (tn_a n) d (tn_b n))"

fun net_run :: "(bool \<Rightarrow> hw_features) \<Rightarrow> (bool \<Rightarrow> tcp_seq) \<Rightarrow> (bool \<times> tcp_do) list \<Rightarrow> tcp_net \<Rightarrow> tcp_net option" where
  "net_run hw isn [] n = Some n"
| "net_run hw isn (d # ds) n = Option.bind (net_do hw isn d n) (net_run hw isn ds)"

section \<open>The invariant of the network\<close>

definition end_fin :: "tcp_end \<Rightarrow> bool" where
  "end_fin e \<longleftrightarrow> (case te_tcb e of None \<Rightarrow> False | Some s \<Rightarrow> s_closed (tb_snd s))"

definition end_ok :: "(nat \<Rightarrow> byte) \<Rightarrow> tcp_seq \<Rightarrow> (nat \<Rightarrow> byte) \<Rightarrow> tcp_seq \<Rightarrow> tcp_end \<Rightarrow> tcp_end \<Rightarrow> bool" where
  "end_ok st iss pst piss q e \<longleftrightarrow>
    (let L = length (te_sent e); M = length (te_sent q); R = length (te_got e) in
     L + 2 < 2 ^ 31 \<and> piece pst 0 R = te_got e \<and> R \<le> M
     \<and> (\<forall>b\<in>set (te_wire e). seg_ok st iss L (end_fin e) piss M b)
     \<and> (case te_tcb e of None \<Rightarrow> L = 0 \<and> R = 0 \<and> te_wire e = []
        | Some s \<Rightarrow> if tb_registered s then conn_ok st iss L pst piss M (end_fin q) R s else r_data (tb_rcv s) = []))"

text \<open>The peer writes more, or closes.\<close>

definition end_grows :: "tcp_end \<Rightarrow> tcp_end \<Rightarrow> bool" where
  "end_grows e e' \<longleftrightarrow> (\<exists>p. te_sent e' = te_sent e @ p \<and> (end_fin e \<longrightarrow> end_fin e' \<and> p = []))"

lemma rcv_ok_mono:
  assumes "rcv_ok pst piss M pfin R s" "M \<le> M'" "M' + 2 < 2 ^ 31" "pfin \<longrightarrow> pfin' \<and> M' = M"
  shows "rcv_ok pst piss M' pfin' R s"
proof -
  have "rcv_at pst piss M R n r \<Longrightarrow> rcv_at pst piss M' R n r" for n r
    using assms(2) by (auto simp: rcv_at_def)
  then show ?thesis
    using assms(1,3,4) unfolding rcv_ok_def by (cases "tb_state s = SYN_SENT") auto
qed

lemma conn_ok_mono:
  assumes "conn_ok st iss L pst piss M pfin R s" "M \<le> M'" "M' + 2 < 2 ^ 31" "pfin \<longrightarrow> pfin' \<and> M' = M"
  shows "conn_ok st iss L pst piss M' pfin' R s"
proof (rule conn_okI)
  show "rcv_ok pst piss M' pfin' R s"
    by (rule rcv_ok_mono [OF _ assms(2-4)]) (use assms(1) in \<open>simp add: conn_ok_def\<close>)
  show "queued_ok st iss L piss M' s"
    by (rule queued_ok_mono [of _ _ L _ M s]) (use assms(1,2) in \<open>simp_all add: conn_ok_def out_ok_def\<close>)
qed (use assms(1) in \<open>simp add: conn_ok_def out_ok_def\<close>)

lemma end_ok_grows:
  assumes "end_ok st iss pst piss q e" "end_grows q q'" "length (te_sent q') + 2 < 2 ^ 31"
  shows "end_ok st iss pst piss q' e"
proof -
  have m: "length (te_sent q) \<le> length (te_sent q')" "end_fin q \<longrightarrow> end_fin q' \<and> length (te_sent q') = length (te_sent q)"
    using assms(2) by (auto simp: end_grows_def)
  have "seg_ok st iss (length (te_sent e)) (end_fin e) piss (length (te_sent q')) b" if "b \<in> set (te_wire e)" for b
    by (rule seg_ok_mono [of _ _ "length (te_sent e)" "end_fin e" _ "length (te_sent q)"])
      (use assms(1) that m in \<open>auto simp: end_ok_def Let_def\<close>)
  moreover have "conn_ok st iss (length (te_sent e)) pst piss (length (te_sent q')) (end_fin q') (length (te_got e)) s"
    if "te_tcb e = Some s" "tb_registered s" for s
    by (rule conn_ok_mono [of _ _ _ _ _ "length (te_sent q)" "end_fin q"]) (use assms(1,3) that m in \<open>auto simp: end_ok_def Let_def\<close>)
  ultimately show ?thesis
    using assms(1) m by (auto simp: end_ok_def Let_def split: option.splits if_splits)
qed

lemma end_ok_step:
  assumes "end_ok st iss pst piss q e" "te_tcb e = Some s" "te_tcb e' = Some s'" "te_sent e' = te_sent e @ p" "te_wire e' = te_wire e @ w"
    and "\<forall>b\<in>set w. seg_ok st iss (length (te_sent e')) (s_closed (tb_snd s')) piss (length (te_sent q)) b"
    and "s_closed (tb_snd s) \<longrightarrow> s_closed (tb_snd s') \<and> p = []" "length (te_sent e') + 2 < 2 ^ 31"
    and "piece pst 0 (length (te_got e')) = te_got e'" "length (te_got e') \<le> length (te_sent q)"
    and "if tb_registered s' then conn_ok st iss (length (te_sent e')) pst piss (length (te_sent q)) (end_fin q) (length (te_got e')) s'
      else r_data (tb_rcv s') = []"
  shows "end_ok st iss pst piss q e' \<and> end_grows e e'"
proof -
  have f: "end_fin e = s_closed (tb_snd s)" "end_fin e' = s_closed (tb_snd s')"
    using assms(2,3) by (simp_all add: end_fin_def)
  have "seg_ok st iss (length (te_sent e')) (end_fin e') piss (length (te_sent q)) b" if "b \<in> set (te_wire e)" for b
  proof (rule seg_ok_mono)
    show "seg_ok st iss (length (te_sent e)) (end_fin e) piss (length (te_sent q)) b"
      using assms(1) that by (simp add: end_ok_def Let_def)
  qed (use assms(4,7) f in auto)
  then have "end_ok st iss pst piss q e'"
    using assms(3,5,6,8-11) f by (auto simp: end_ok_def Let_def)
  moreover have "end_grows e e'"
    using assms(4,7) f by (auto simp: end_grows_def)
  ultimately show ?thesis ..
qed

lemma end_ok_facts:
  assumes "end_ok st iss pst piss q e" "te_tcb e = Some s"
  shows "length (te_sent e) + 2 < 2 ^ 31" "piece pst 0 (length (te_got e)) = te_got e" "length (te_got e) \<le> length (te_sent q)"
    "tb_registered s \<Longrightarrow> conn_ok st iss (length (te_sent e)) pst piss (length (te_sent q)) (end_fin q) (length (te_got e)) s"
    "\<not> tb_registered s \<Longrightarrow> r_data (tb_rcv s) = []"
  using assms by (simp_all add: end_ok_def Let_def)

lemma on_tcb_ok:
  assumes "on_tcb e f = Some e'" "end_ok st iss pst piss q e"
    and step: "\<And>s s'. conn_ok st iss (length (te_sent e)) pst piss (length (te_sent q)) (end_fin q) (length (te_got e)) s \<Longrightarrow> tb_registered s
      \<Longrightarrow> f s = Some s' \<Longrightarrow> conn_ok st iss (length (te_sent e)) pst piss (length (te_sent q)) (end_fin q) (length (te_got e)) s'
        \<and> tb_registered s' \<and> (s_closed (tb_snd s) \<longrightarrow> s_closed (tb_snd s')) \<or> ended s s'"
  shows "end_ok st iss pst piss q e' \<and> end_grows e e'"
proof -
  obtain s s' where s: "te_tcb e = Some s" "tb_registered s" "f s = Some s'" "e' = e\<lparr>te_tcb := Some s'\<rparr>"
    using assms(1) by (auto simp: on_tcb_def split: option.splits if_splits)
  note c = step [OF end_ok_facts(4) [OF assms(2) s(1,2)] s(2,3)]
  show ?thesis
    by (rule end_ok_step [OF assms(2) s(1), of _ s' "[]" "[]"])
      (use c end_ok_facts(1-3) [OF assms(2) s(1)] in \<open>auto simp: s(4) ended_def\<close>)
qed

lemma same_but_snd_step:
  assumes "conn_ok st iss L pst piss M pfin R s" "tb_registered s"
    and "out_ok st iss L piss M s' \<and> same_but_snd s s' \<or> ended s s'"
  shows "conn_ok st iss L pst piss M pfin R s' \<and> tb_registered s' \<and> (s_closed (tb_snd s) \<longrightarrow> s_closed (tb_snd s')) \<or> ended s s'"
  using assms same_but_snd_conn_ok [of st iss L piss M s' s pst pfin R] by (auto simp: conn_ok_def same_but_snd_def)

lemma notified_step:
  assumes "conn_ok st iss L pst piss M pfin R s" "tb_registered s" "notified s s'"
  shows "conn_ok st iss L pst piss M pfin R s' \<and> tb_registered s' \<and> (s_closed (tb_snd s) \<longrightarrow> s_closed (tb_snd s')) \<or> ended s s'"
  using notified_conn_ok [OF assms(3,1)] assms(2,3) same_out_closed [of s s'] by (simp add: notified_def same_out_def)

lemma core_same_notified: "core_same s s' \<Longrightarrow> notified s s'"
  by (simp add: notified_def core_same_def same_out_def)

lemma conn_ok_out: "conn_ok st iss L pst piss M pfin R s \<Longrightarrow> out_ok st iss L piss M s"
  by (simp add: conn_ok_def)

lemma is_reset_seg_ok:
  assumes "is_reset piss M iss b"
  shows "seg_ok pst piss M pfin iss L b"
proof -
  define h where "h = tcp_hdr_read b"
  have h: "f_rst h" "\<not> f_syn h" "\<not> f_fin h" "length b = 20" "data_offset h = 5" "seq_pos (piss + 1) (seq h) \<le> M + 1" "f_ack h \<longrightarrow> ack h = iss + 1"
    using assms by (simp_all add: is_reset_def Let_def h_def)
  obtain k where k: "seq h = at (piss + 1) k" "k \<le> M + 1"
    using h(6) at_seq_pos by metis
  moreover have "f_ack h \<longrightarrow> (\<exists>j. ack h = at (iss + 1) j \<and> j \<le> L + 1)"
    using h(7) by (auto simp: at_def intro!: exI [of _ 0])
  moreover have "unat (data_offset h) * 4 = 20" "drop 20 b = []"
    using h(4,5) by simp_all
  ultimately show ?thesis
    using h(2-4) unfolding seg_ok_def Let_def h_def [symmetric] by auto
qed

lemma opened_ok:
  assumes "end_ok st iss pst piss q e" "te_tcb e = None" "e' = e\<lparr>te_tcb := Some s\<rparr>"
    and "conn_ok st iss 0 pst piss (length (te_sent q)) (end_fin q) 0 s \<and> tb_registered s \<and> \<not> s_closed (tb_snd s)"
  shows "end_ok st iss pst piss q e' \<and> end_grows e e'"
  using assms by (auto simp: end_ok_def Let_def end_fin_def end_grows_def)

lemma output_end_ok:
  assumes "hw_ok hw" "end_ok st iss pst piss q e" "end_do hw iss piss q Do_output e = Some e'"
  shows "end_ok st iss pst piss q e' \<and> end_grows e e'"
proof -
  obtain s r s' where s: "te_tcb e = Some s" "tb_registered s" "tcb_get_packet hw s = Some (r, s')"
      "e' = e\<lparr>te_tcb := Some s', te_wire := te_wire e @ (case r of None \<Rightarrow> [] | Some (b, oi) \<Rightarrow> [b])\<rparr>"
    using assms(3) by (cases "te_tcb e") (auto split: if_splits)
  note c = end_ok_facts(4) [OF assms(2) s(1,2)]
  note g = tcb_get_packet_ok [OF assms(1) conn_ok_out [OF c] s(3)]
  have "conn_ok st iss (length (te_sent e)) pst piss (length (te_sent q)) (end_fin q) (length (te_got e)) s'"
    using same_but_snd_conn_ok g c by (auto simp: conn_ok_def)
  then show ?thesis
    by (intro end_ok_step [OF assms(2) s(1), of _ s' "[]" "case r of None \<Rightarrow> [] | Some (b, oi) \<Rightarrow> [b]"])
      (use g s(2) end_ok_facts(1-3) [OF assms(2) s(1)] in \<open>auto simp: s(4) same_but_snd_def split: option.splits\<close>)
qed

lemma send_end_ok:
  assumes "end_ok st iss pst piss q e" "end_do hw iss piss q (Do_send p) e = Some e'" "piece st 0 (length (te_sent e')) = te_sent e'"
  shows "end_ok st iss pst piss q e' \<and> end_grows e e'"
proof -
  obtain s x s' where s: "te_tcb e = Some s" "tb_registered s" "\<not> syn_needs_on s" "length (te_sent e @ p) + 2 < 2 ^ 31"
      "tcb_send p s = Inr (x, s')" "e' = e\<lparr>te_tcb := Some s', te_sent := te_sent e @ p\<rparr>"
    using assms(2) by (auto split: option.splits if_splits sum.splits)
  let ?L = "length (te_sent e)"
  note c = end_ok_facts(4) [OF assms(1) s(1,2)]
  have "piece st 0 (?L + length p) = te_sent e @ p"
    using assms(3) s(6) by simp
  from piece_prefix [OF this] have p: "p = piece st ?L (?L + length p)"
    by simp
  have len: "?L + length p + 2 < 2 ^ 31"
    using s(4) by simp
  note o = tcb_send_ok [OF conn_ok_out [OF c] s(5,3) p len]
  have "rcv_ok pst piss (length (te_sent q)) (end_fin q) (length (te_got e)) s"
    using c by (simp add: conn_ok_def)
  note c' = same_but_snd_conn_ok [OF _ _ this]
  have "conn_ok st iss (?L + length p) pst piss (length (te_sent q)) (end_fin q) (length (te_got e)) s'"
    using c' o by blast
  then show ?thesis
    by (intro end_ok_step [OF assms(1) s(1), of _ s' p "[]"])
      (use o len s(2) end_ok_facts(1-3) [OF assms(1) s(1)] in \<open>auto simp: s(6) same_but_snd_def\<close>)
qed

lemma read_end_ok:
  assumes "end_ok st iss pst piss q e" "end_do hw iss piss q Do_read e = Some e'"
  shows "end_ok st iss pst piss q e' \<and> end_grows e e'"
proof -
  obtain s p s' where s: "te_tcb e = Some s" "tcb_read s = (p, s')" "e' = e\<lparr>te_tcb := Some s', te_got := te_got e @ pkt_bytes p\<rparr>"
    using assms(2) by (auto split: option.splits prod.splits)
  note f = end_ok_facts [OF assms(1) s(1)]
  show ?thesis
  proof (cases "tb_registered s")
    case False
    then have "s' = upd_rcv (\<lambda>r. r\<lparr>r_data := []\<rparr>) s" "pkt_bytes p = []"
      using s(2) f(5) by (auto simp: tcb_read_def pkt_empty_spec)
    then show ?thesis
      by (intro end_ok_step [OF assms(1) s(1), of _ s' "[]" "[]"]) (use f(1-3) False in \<open>auto simp: s(3) upd_rcv_def\<close>)
  next
    case True
    from tcb_read_ok [OF f(4) [OF True] s(2)] obtain n where n: "pkt_bytes p = piece pst (length (te_got e)) n"
        "length (te_got e) \<le> n" "n \<le> length (te_sent q)" "same_out s s'"
        "conn_ok st iss (length (te_sent e)) pst piss (length (te_sent q)) (end_fin q) n s'"
      by blast
    have g: "te_got e @ pkt_bytes p = piece pst 0 n"
      using piece_append [of 0 "length (te_got e)" n pst] n(1,2) f(2) by simp
    then have l: "length (te_got e @ pkt_bytes p) = n"
      by simp
    show ?thesis
    proof (rule end_ok_step [OF assms(1) s(1), of _ s' "[]" "[]"])
      show "piece pst 0 (length (te_got e')) = te_got e'" "length (te_got e') \<le> length (te_sent q)"
        "if tb_registered s' then conn_ok st iss (length (te_sent e')) pst piss (length (te_sent q)) (end_fin q) (length (te_got e')) s'
          else r_data (tb_rcv s') = []"
        using n True g l by (simp_all add: s(3) same_out_def del: length_append)
    qed (use f(1) same_out_closed [OF n(4)] in \<open>simp_all add: s(3)\<close>)
  qed
qed

lemma input_end_ok:
  assumes "hw_ok hw" "end_ok st iss pst piss q e" "on_tcb e (tcb_input hw (tcp_hdr_read b) (pkt_of_frag b)) = Some e'"
    and "seg_ok pst piss (length (te_sent q)) (end_fin q) iss (length (te_sent e)) b"
  shows "end_ok st iss pst piss q e' \<and> end_grows e e'"
  by (rule on_tcb_ok [OF assms(3,2)]) (use tcb_input_ok [OF assms(1) _ _ assms(4)] in \<open>auto simp: kept_def\<close>)

text \<open>The operations that act on the control block alone.\<close>

lemma close_end_ok:
  assumes "hw_ok hw" "end_ok st iss pst piss q e" "d \<in> {Do_close, Do_close_resume, Do_shutdown}" "end_do hw iss piss q d e = Some e'"
  shows "end_ok st iss pst piss q e' \<and> end_grows e e'"
proof -
  consider "on_tcb e (\<lambda>s. if syn_needs_on s then None else tcb_close hw s) = Some e'"
    | "on_tcb e (\<lambda>s. if in_state [ESTABLISHED, CLOSE_WAIT] s \<and> s_data (tb_snd s) = [] \<and> s_unsent_len (tb_snd s) = 0
        then tcb_close_resume hw s else None) = Some e'"
    | "on_tcb e (shutdown_connect hw) = Some e'"
    using assms(3,4) by auto
  then show ?thesis
  proof cases
    case 1
    then show ?thesis
    proof (rule on_tcb_ok [OF _ assms(2)], goal_cases)
      case (1 s s')
      then have "\<not> syn_needs_on s" "tcb_close hw s = Some s'"
        by (auto split: if_splits)
      from tcb_close_conn_ok [OF assms(1) 1(1) this] 1(2) show ?case
        by simp
    qed
  next
    case 2
    then show ?thesis
    proof (rule on_tcb_ok [OF _ assms(2)], goal_cases)
      case (1 s s')
      then have "in_state [ESTABLISHED, CLOSE_WAIT] s" "s_data (tb_snd s) = []" "s_unsent_len (tb_snd s) = 0" "tcb_close_resume hw s = Some s'"
        by (auto split: if_splits)
      then show ?case
        using close_resume_conn_ok [OF assms(1) 1(1)] tcb_close_resume_ok [OF assms(1) conn_ok_out [OF 1(1)]] 1(2) by blast
    qed
  next
    case 3
    then show ?thesis
    proof (rule on_tcb_ok [OF _ assms(2)], goal_cases)
      case (1 s s')
      show ?case
      proof (cases "syn_needs_on s")
        case True
        then have "s' = tcb_cleanup (tcb_log (Connect_failed Refused_error) s)"
          using 1(3) by (simp add: shutdown_connect_def)
        then show ?thesis
          using cleanup_ends [of "tcb_log (Connect_failed Refused_error) s" s] by (simp add: tcb_log_def)
      next
        case False
        let ?t = "tcb_abort_reader s"
        have n: "notified s ?t" "tcb_close hw ?t = Some s'"
          using 1(3) False notified_ops(6) by (auto simp: shutdown_connect_def)
        then have "\<not> syn_needs_on ?t" "tb_registered ?t" "s_closed (tb_snd ?t) = s_closed (tb_snd s)"
          using False 1(2) same_out_closed [of s ?t] by (simp_all add: notified_def same_out_def syn_needs_on_def in_state_def)
        then show ?thesis
          using tcb_close_conn_ok [OF assms(1) notified_conn_ok [OF n(1) 1(1)] _ n(2)] by simp
      qed
    qed
  qed
qed

lemma timer_end_ok:
  assumes "hw_ok hw" "end_ok st iss pst piss q e" "d \<in> {Do_retransmit, Do_persist, Do_delayed_ack, Do_poll_failed r, Do_wait_for_data, Do_abort_reader, Do_tick t}"
    and "end_do hw iss piss q d e = Some e'"
  shows "end_ok st iss pst piss q e' \<and> end_grows e e'"
proof -
  have tick: "notified s (s\<lparr>tb_now := t\<rparr>)" for s
    by (simp add: notified_def same_out_def)
  have pf: "notified s (poll_failed r s) \<or> ended s (poll_failed r s)" for s
    using poll_failed_ok [of s r] core_same_notified by blast
  have quiet: ?thesis if "on_tcb e (\<lambda>s. Some (f s)) = Some e'" "\<And>s. notified s (f s) \<or> ended s (f s)" for f
    by (rule on_tcb_ok [OF that(1) assms(2)]) (use that(2) notified_step in blast)
  have active: ?thesis if "on_tcb e f = Some e'" "\<And>s s' st iss L piss M. out_ok st iss L piss M s \<Longrightarrow> f s = Some s'
      \<Longrightarrow> out_ok st iss L piss M s' \<and> same_but_snd s s' \<or> ended s s'" for f
    by (rule on_tcb_ok [OF that(1) assms(2)]) (use that(2) [OF conn_ok_out] same_but_snd_step in blast)
  from assms(3,4) show ?thesis
    using active [of "retransmit_fired hw"] retransmit_fired_ok [OF assms(1)] active [of "tcb_persist_fired hw"] tcb_persist_fired_ok [OF assms(1)]
      quiet [of delayed_ack_fired] core_same_notified [OF delayed_ack_fired_ok] quiet [of "poll_failed r"] pf
      quiet [of "\<lambda>s. snd (tcb_wait_for_data s)"] notified_ops(5,6) quiet [of tcb_abort_reader] quiet [of "\<lambda>s. s\<lparr>tb_now := t\<rparr>"] tick
    by auto
qed

lemma end_do_ok:
  assumes "hw_ok hw" "end_ok st iss pst piss q e" "end_ok pst piss st iss e q" "end_do hw iss piss q d e = Some e'"
    and "piece st 0 (length (te_sent e')) = te_sent e'"
  shows "end_ok st iss pst piss q e' \<and> end_grows e e'"
proof -
  have M: "length (te_sent q) + 2 < 2 ^ 31"
    using assms(3) by (simp add: end_ok_def Let_def)
  have wire: "seg_ok pst piss (length (te_sent q)) (end_fin q) iss (length (te_sent e)) b" if "b \<in> set (te_wire q)" for b
    using assms(3) that by (simp add: end_ok_def Let_def)
  show ?thesis
  proof (cases d)
    case (Do_connect a)
    obtain s0 r0 raw c now where a: "a = Tcb_args s0 r0 raw c now"
      by (cases a)
    have e: "te_tcb e = None" "e' = e\<lparr>te_tcb := Some (tcb_connect hw iss (make_tcb a))\<rparr>"
      using assms(4) Do_connect by (simp_all split: if_splits)
    show ?thesis
      by (rule opened_ok [OF assms(2) e connect_ok [OF _ M]]) (simp add: a)
  next
    case (Do_accept a i)
    obtain s0 r0 raw c now where a: "a = Tcb_args s0 r0 raw c now"
      by (cases a)
    let ?b = "te_wire q ! i" and ?h = "tcp_hdr_read (te_wire q ! i)"
    obtain s where e: "te_tcb e = None" "i < length (te_wire q)" "f_syn ?h" "e' = e\<lparr>te_tcb := Some s\<rparr>"
        "input_handle_listen_state hw iss ?h (pkt_of_frag ?b) (make_tcb a) = Some s"
      using assms(4) Do_accept by (auto simp: Let_def split: if_splits)
    have "seq ?h = piss"
      using wire [of ?b] e(2,3) by (simp add: seg_ok_def Let_def)
    with e(5) show ?thesis
      by (intro opened_ok [OF assms(2) e(1,4) listen_ok [OF _ _ M]]) (simp_all add: a)
  next
    case (Do_input i)
    then show ?thesis
      using assms(4) input_end_ok [OF assms(1,2) _ wire] by (auto simp: Let_def split: if_splits)
  next
    case (Do_reset b)
    then show ?thesis
      using assms(4) input_end_ok [OF assms(1,2) _ is_reset_seg_ok] by (auto split: if_splits)
  next
    case Do_output
    then show ?thesis
      using output_end_ok [OF assms(1,2)] assms(4) by blast
  next
    case (Do_send p)
    then show ?thesis
      using send_end_ok [OF assms(2) _ assms(5)] assms(4) by blast
  next
    case Do_read
    then show ?thesis
      using read_end_ok [OF assms(2)] assms(4) by blast
  next
    case (Do_poll_failed r)
    show ?thesis
      by (rule timer_end_ok [OF assms(1,2) _ assms(4)]) (use Do_poll_failed in simp)
  next
    case (Do_tick t)
    show ?thesis
      by (rule timer_end_ok [OF assms(1,2) _ assms(4)]) (use Do_tick in simp)
  qed (use close_end_ok [OF assms(1,2) _ assms(4)] timer_end_ok [OF assms(1,2) _ assms(4)] in simp_all)
qed

definition net_ok :: "(bool \<Rightarrow> nat \<Rightarrow> byte) \<Rightarrow> (bool \<Rightarrow> tcp_seq) \<Rightarrow> tcp_net \<Rightarrow> bool" where
  "net_ok st isn n \<longleftrightarrow> end_ok (st True) (isn True) (st False) (isn False) (tn_b n) (tn_a n)
    \<and> end_ok (st False) (isn False) (st True) (isn True) (tn_a n) (tn_b n)"

definition written_by :: "(bool \<Rightarrow> nat \<Rightarrow> byte) \<Rightarrow> tcp_net \<Rightarrow> bool" where
  "written_by st n \<longleftrightarrow> piece (st True) 0 (length (te_sent (tn_a n))) = te_sent (tn_a n)
    \<and> piece (st False) 0 (length (te_sent (tn_b n))) = te_sent (tn_b n)"

lemma end_do_step:
  assumes "hw_ok hw" "end_ok st iss pst piss q e" "end_ok pst piss st iss e q" "end_do hw iss piss q d e = Some e'"
    and "piece st 0 (length (te_sent e')) = te_sent e'"
  shows "end_ok st iss pst piss q e' \<and> end_ok pst piss st iss e' q"
proof -
  note e = end_do_ok [OF assms]
  then have "length (te_sent e') + 2 < 2 ^ 31"
    by (simp add: end_ok_def Let_def)
  then show ?thesis
    using e end_ok_grows [OF assms(3)] by blast
qed

lemma end_do_sent:
  assumes "end_do hw iss piss q d e = Some e'"
  shows "\<exists>p. te_sent e' = te_sent e @ p"
  using assms by (cases d) (auto simp: Let_def on_tcb_def split: option.splits if_splits sum.splits prod.splits)

lemma piece_back:
  assumes "piece st 0 (length (xs @ ys)) = xs @ ys"
  shows "piece st 0 (length xs) = xs"
  using piece_prefix [OF assms] by simp

lemma net_do_ok:
  assumes "\<forall>i. hw_ok (hw i)" "net_do hw isn d n = Some n'" "written_by st n'"
  shows "written_by st n \<and> (net_ok st isn n \<longrightarrow> net_ok st isn n')"
proof -
  obtain i x where d: "d = (i, x)"
    by (cases d)
  show ?thesis
  proof (cases i)
    case True
    then obtain e where e: "end_do (hw True) (isn True) (isn False) (tn_b n) x (tn_a n) = Some e" "n' = n\<lparr>tn_a := e\<rparr>"
      using assms(2) d by auto
    from end_do_sent [OF e(1)] obtain p where p: "te_sent e = te_sent (tn_a n) @ p"
      by blast
    have w: "piece (st True) 0 (length (te_sent e)) = te_sent e"
      using assms(3) e(2) by (simp add: written_by_def)
    with p have "written_by st n"
      using assms(3) e(2) piece_back [of "st True" "te_sent (tn_a n)" p] by (simp add: written_by_def)
    moreover have "net_ok st isn n \<longrightarrow> net_ok st isn n'"
      using end_do_step [OF _ _ _ e(1) w] assms(1) e(2) by (auto simp: net_ok_def)
    ultimately show ?thesis ..
  next
    case False
    then obtain e where e: "end_do (hw False) (isn False) (isn True) (tn_a n) x (tn_b n) = Some e" "n' = n\<lparr>tn_b := e\<rparr>"
      using assms(2) d by auto
    from end_do_sent [OF e(1)] obtain p where p: "te_sent e = te_sent (tn_b n) @ p"
      by blast
    have w: "piece (st False) 0 (length (te_sent e)) = te_sent e"
      using assms(3) e(2) by (simp add: written_by_def)
    with p have "written_by st n"
      using assms(3) e(2) piece_back [of "st False" "te_sent (tn_b n)" p] by (simp add: written_by_def)
    moreover have "net_ok st isn n \<longrightarrow> net_ok st isn n'"
      using end_do_step [OF _ _ _ e(1) w] assms(1) e(2) by (auto simp: net_ok_def)
    ultimately show ?thesis ..
  qed
qed

lemma net_run_ok:
  assumes "\<forall>i. hw_ok (hw i)" "net_run hw isn ds n = Some n'" "written_by st n'"
  shows "written_by st n \<and> (net_ok st isn n \<longrightarrow> net_ok st isn n')"
  using assms(2)
proof (induction ds arbitrary: n)
  case (Cons d ds)
  then obtain m where m: "net_do hw isn d n = Some m" "net_run hw isn ds m = Some n'"
    by (auto simp: bind_eq_Some_conv)
  with Cons.IH [OF m(2)] net_do_ok [OF assms(1) m(1)] show ?case
    by blast
qed (use assms(3) in simp)

lemma net_start_ok: "net_ok st isn net_start"
  by (simp add: net_ok_def net_start_def end_ok_def Let_def)

lemma written_ex: "\<exists>st. written_by st n"
proof -
  have "piece (\<lambda>i. xs ! i) 0 (length xs) = xs" for xs :: bytes
    by (simp add: piece_def map_nth)
  then show ?thesis
    by (intro exI [of _ "\<lambda>b i. te_sent (if b then tn_a n else tn_b n) ! i"]) (simp add: written_by_def)
qed

lemma end_ok_prefix:
  assumes "end_ok st iss pst piss q e" "piece pst 0 (length (te_sent q)) = te_sent q"
  shows "prefix (te_got e) (te_sent q)"
proof -
  have r: "length (te_got e) \<le> length (te_sent q)" "piece pst 0 (length (te_got e)) = te_got e"
    using assms(1) by (simp_all add: end_ok_def Let_def)
  from piece_append [OF _ r(1), of 0 pst] assms(2) r(2) show ?thesis
    by (metis le0 prefixI)
qed

lemma end_ok_fin:
  assumes "end_ok st iss pst piss q e" "piece pst 0 (length (te_sent q)) = te_sent q"
    and "te_tcb e = Some s" "tb_registered s" "fin_seen s"
  shows "te_got e @ concat (map pkt_bytes (r_data (tb_rcv s))) = te_sent q \<and> end_fin q"
proof -
  let ?M = "length (te_sent q)" and ?R = "length (te_got e)"
  note f = end_ok_facts [OF assms(1,3)]
  have "tb_state s \<noteq> SYN_SENT"
    using assms(5) by (auto simp: fin_seen_def in_state_def)
  then have r: "rcv_at pst piss ?M ?R ?M (tb_rcv s)" "end_fin q"
    using f(4) [OF assms(4)] assms(5) by (auto simp: conn_ok_def rcv_ok_def)
  then show ?thesis
    using piece_append [of 0 ?R ?M pst] f(2,3) assms(2) by (simp add: rcv_at_def)
qed

section \<open>Properties\<close>

text \<open>
  The stream arrives as it was sent.
\<close>

theorem tcp_stream_integrity:
  assumes "\<forall>i. hw_ok (hw i)" "net_run hw isn ds net_start = Some n"
  shows "\<forall>(e, q)\<in>{(tn_a n, tn_b n), (tn_b n, tn_a n)}. prefix (te_got e) (te_sent q)
    \<and> (\<forall>s. te_tcb e = Some s \<and> tb_registered s \<and> fin_seen s
      \<longrightarrow> te_got e @ concat (map pkt_bytes (r_data (tb_rcv s))) = te_sent q \<and> end_fin q)"
proof -
  obtain st where st: "written_by st n"
    using written_ex by blast
  then have "net_ok st isn n"
    using net_run_ok [OF assms st] net_start_ok by blast
  then show ?thesis
    using st end_ok_prefix end_ok_fin unfolding net_ok_def written_by_def by blast
qed

end
