(* ===== verification/Spec2Isabelle.thy ===== *)
theory Spec2Isabelle
  imports Circular_Buffer Preprocessors Async_Flow Semaphore Seastar_Queue Rss_Hash Ip_Reassembly Udp_Accounting Mica_Invariant Aho_Corasick Reactor_Timers Tcp_Stream
begin

text \<open>
  NetStar is a framework for asynchronous network functions on top of Seastar. This development
  models its own libraries and the parts of Seastar they stand on, and proves what they promise.

  \<^bold>\<open>The program.\<close> Packets enter through a port, pass the hook point, and are handed to flows. A
  flow manager (netstar/asyncflow) keeps one entry per flow; a preprocessor (netstar/preprocessor)
  turns packets into events; user code awaits events and decides what is sent on. State of network
  functions is kept in a remote key-value store, reached by the MICA client (netstar/mica). An
  intrusion detection example matches payloads with Aho-Corasick automata. Below lies the native
  stack of Seastar: \<open>net::packet\<close>, headers, checksums, ARP, IPv4, UDP, receive-side scaling, and
  semaphores, queues, buffers and timers of core/.

  \<^bold>\<open>Theories and sources.\<close> All paths are under src/.

  \<^item> \<open>NS_Prelude\<close>: machine integers, bytes, option and list lemmas, collections shared by all.
  \<^item> \<open>Bit_Ops\<close>: core/bitops.hh, core/align.hh, netstar/mica/roundup.hh. \<open>Byte_Order\<close>:
    core/byteorder.hh, net/byteorder.hh.
  \<^item> \<open>Circular_Buffer\<close>: core/circular\_buffer.hh, refined to lists. \<open>Seastar_Queue\<close>: core/queue.hh.
    \<open>Semaphore\<close>: core/semaphore.hh with core/expiring\_fifo.hh.
  \<^item> \<open>Timer_Set\<close>: core/timer-set.hh with core/bitset-iter.hh, refined to a multiset. \<open>Reactor_Timers\<close>:
    class timer (core/timer.hh, core/reactor.hh) and the timer part of core/reactor.cc.
  \<^item> \<open>Net_Packet\<close>: net/packet.hh, net/packet.cc, refined to byte strings. \<open>Net_Headers\<close>: Ethernet,
    IPv4, UDP and ARP headers, net/ethernet.cc. \<open>Tcp_Hdr\<close>: header and sequence numbers of net/tcp.hh.
  \<^item> \<open>Ip_Checksum\<close>: net/ip\_checksum.cc. \<open>Rss_Hash\<close>: net/toeplitz.hh, hash data and queue choice of
    net/net.hh, the port search of netstar/mica/mica\_def.cc.
  \<^item> \<open>Packet_Merger\<close>: net/packet-util.hh. \<open>Arp\<close>: net/arp.hh, net/arp.cc. \<open>Ipv4\<close> and
    \<open>Ip_Reassembly\<close>: net/ip.cc. \<open>Udp_Channel\<close> and \<open>Udp_Accounting\<close>: net/udp.cc, net/udp.hh, with a
    step relation over everything that can happen to the channels.
  \<^item> \<open>Flow_Events\<close> and \<open>Work_Unit\<close>: netstar/asyncflow/async\_flow\_util.hh and async\_flow\_io.hh.
    \<open>SD_Async_Flow\<close>: sd\_async\_flow.hh. \<open>Async_Flow\<close>: async\_flow.hh. \<open>Preprocessors\<close>:
    netstar/preprocessor, with netstar/rte\_packet.hh.
  \<^item> \<open>Mica_Wire\<close>, \<open>Mica_Client\<close>, \<open>Mica_Invariant\<close>: netstar/mica, wire format, client and invariant.
  \<^item> \<open>Aho_Corasick\<close>: netstar/aho-corasick and process\_batch of tests/netstar/http\_ids.cc.

  \<^bold>\<open>How code becomes definitions.\<close> A class is a record, a member function a function from the state
  to the new state, with \<open>None\<close> for undefined behaviour, a failed assertion, or a loop that does not
  end. Integers are words of the width in the source wherever they may wrap. A future that is
  resolved later is named by the request it belongs to and a log records how it was resolved; what
  runs after it is a separate step, so that the order of steps is explicit. Device, environment
  and hash function are parameters.

  \<^bold>\<open>What is shown.\<close>
  \<^item> Flows: the managers never get stuck and keep packets in order, closing reaches the user loop, a
    failed flow drops everything; TCP reordering delivers the byte stream; packet merging
    reassembles it.
  \<^item> Packets and buffers refine byte strings and lists under all operations; headers and byte order
    are inverse to reading; the checksum is that of RFC 1071 and verifies; the Toeplitz hash is the
    xor of key windows; computed ports hash to their queues.
  \<^item> IPv4: a datagram arrives, whole or in fragments in any order, exactly once and with its bytes;
    the memory of reassembly is accounted for; waiting ARP lookups are resolved once.
  \<^item> UDP: a datagram sent on a channel reaches the channel bound to its port; the checksum covers the
    pseudo header; the search for a port ends; in every run the send buffer is accounted for and
    the state well formed.
  \<^item> Semaphores and queues lose no wakeup and serve in order.
  \<^item> Timers: each expiry hands over exactly the timers that are due; a timer is armed exactly while it is
    linked and never called early; an armed timer is called, as long as callbacks cancel nothing; after
    a callback has cancelled the last one, later timers are not.
  \<^item> MICA: a batch is read back as written; filling batches ends; no query is lost or answered twice,
    late responses answer nothing, and no step is undefined as long as the server is honest.
  \<^item> Aho-Corasick: the construction ends and the automaton reports exactly the patterns that end at
    each place; what a packet reports follows.
  \<^item> Deviations found on the way are theorems too: see the properties whose texts begin with what
    goes wrong.

  \<^bold>\<open>Loops and bounds.\<close> Loops are structural recursions or functions with a measure. The loops that
  need not end (\<open>consume_send_stream\<close>, the loops of the timer set and of \<open>complete_timers\<close>, the two loops over failure states and the traversal in
  \<open>Aho_Corasick\<close>) are partial functions, and it is shown when they return. No fuel is used.

  \<^bold>\<open>Interfaces.\<close> Locales state what one part relies on in another: \<open>waiting_line\<close> (the wait list of
  the semaphore), \<open>unit_pool\<close> (the semaphore as pool of descriptors), \<open>timer_queue\<close> (the timer set for the reactor), \<open>fragment_eviction\<close> and others
  named in their theories; each is interpreted on the definitions of the provider.

  \<^bold>\<open>Not modelled.\<close> The reactor but for its timers, futures, memory allocator, threads, file and socket I/O, DPDK
  devices, TLS, DHCP, DNS, HTTP, RPC, JSON, metrics and the applications: they are the runtime below
  the modelled logic, input and output, or vendored. Of TCP only the header and sequence
  arithmetic; its connection state machine is not modelled yet. The hook points, ports and the
  stack manager of netstar/ wire the modelled parts to devices.
\<close>

end
